(* ===== verification/Prelude.thy ===== *)
theory Prelude
  imports Main "HOL-Library.AList" "HOL-Library.Word"
begin

text \<open>
  Shared vocabulary of the development: Go errors and panics as values, Go maps as association
  lists, slices with their bounds checks, the context polls of scan loops
  (\<^verbatim>\<open>internal/engine/cancel.go\<close>), and the generic lemmas that the component theories use.

  A Go map is an association list with distinct keys. The order of the list stands for the
  iteration order of a \<^verbatim>\<open>range\<close> loop, which Go leaves unspecified: a theorem about every
  list covers every iteration order.
\<close>

named_theorems gomap_simps \<open>lookups after updates and deletions of Go maps\<close>
named_theorems fold_simps \<open>ASCII case folding\<close>
named_theorems wf_intros \<open>introduction rules for the well-formedness of tables\<close>

section \<open>Errors as values\<close>

text \<open>
  \<open>Msg\<close> is \<^verbatim>\<open>errors.New\<close> or \<^verbatim>\<open>fmt.Errorf\<close> with the message text; \<open>NumError\<close> is a
  \<^verbatim>\<open>*strconv.NumError\<close> (function, input, reason); \<open>DeadlineExceeded\<close> and \<open>Canceled\<close> are the
  two errors of a context; \<open>TooLarge\<close> wraps \<^verbatim>\<open>ErrResultTooLarge\<close>; \<open>Panic\<close> is a run-time
  panic, such as a slice expression out of range. \<open>Diverge\<close> stands for a call that does not
  return: a loop without a bound of its own that used up the fuel of its model. \<open>Wrapped\<close> is an error with text
  in front of it (\<^verbatim>\<open>fmt.Errorf\<close> with \<^verbatim>\<open>%w\<close>).
\<close>

datatype num_reason = ErrSyntax | ErrRange

datatype error =
    Msg string
  | NumError string string num_reason
  | DeadlineExceeded
  | Canceled
  | TooLarge string
  | Panic string
  | Diverge
  | Wrapped string error

type_synonym 'a res = "error + 'a"

section \<open>Go maps\<close>

type_synonym ('k, 'v) gomap = "('k \<times> 'v) list"

abbreviation mget :: "('k, 'v) gomap \<Rightarrow> 'k \<Rightarrow> 'v option" where
  "mget \<equiv> map_of"

abbreviation mset_at :: "('k, 'v) gomap \<Rightarrow> 'k \<Rightarrow> 'v \<Rightarrow> ('k, 'v) gomap" where
  "mset_at m k v \<equiv> AList.update k v m"

abbreviation mdel :: "('k, 'v) gomap \<Rightarrow> 'k \<Rightarrow> ('k, 'v) gomap" where
  "mdel m k \<equiv> AList.delete k m"

abbreviation mhas :: "('k, 'v) gomap \<Rightarrow> 'k \<Rightarrow> bool" where
  "mhas m k \<equiv> map_of m k \<noteq> None"

abbreviation mkeys :: "('k, 'v) gomap \<Rightarrow> 'k list" where
  "mkeys m \<equiv> map fst m"

abbreviation mwf :: "('k, 'v) gomap \<Rightarrow> bool" where
  "mwf m \<equiv> distinct (map fst m)"

text \<open>Applying a function to every value of a map: the body of a loop that rewrites each entry.\<close>

definition mmap :: "('k \<Rightarrow> 'v \<Rightarrow> 'w) \<Rightarrow> ('k, 'v) gomap \<Rightarrow> ('k, 'w) gomap" where
  "mmap f m = map (\<lambda>(k, v). (k, f k v)) m"

text \<open>Sets of Go (\<^verbatim>\<open>map[string]struct{}\<close>) are lists without repetition.\<close>

definition sadd :: "'a list \<Rightarrow> 'a \<Rightarrow> 'a list" where
  "sadd xs x = (if x \<in> set xs then xs else xs @ [x])"

definition sdel :: "'a list \<Rightarrow> 'a \<Rightarrow> 'a list" where
  "sdel xs x = filter (\<lambda>y. y \<noteq> x) xs"

section \<open>Slices\<close>

text \<open>\<^verbatim>\<open>s[a:b]\<close>: None where Go panics with "slice bounds out of range".\<close>

definition gslice :: "'a list \<Rightarrow> nat \<Rightarrow> nat \<Rightarrow> 'a list option" where
  "gslice s a b = (if a \<le> b \<and> b \<le> length s then Some (take (b - a) (drop a s)) else None)"

section \<open>Context polls (cancel.go)\<close>

text \<open>
  A statement polls its context at fixed places. \<open>entry\<close> is what the two checks of
  \<^verbatim>\<open>ExecWithOptions\<close> see, \<open>scan n\<close> what the \<open>n\<close>-th call of \<^verbatim>\<open>rowTicker.tick\<close> in the
  statement's scan loop would see, \<open>sorting\<close> the check before ORDER BY, and \<open>apply_tick n\<close> the
  ticks of \<^verbatim>\<open>applyInsertRows\<close>. Every history of a real context is such a record.
\<close>

record ctx =
  entry :: "error option"
  scan :: "nat \<Rightarrow> error option"
  sorting :: "error option"
  apply_tick :: "nat \<Rightarrow> error option"

definition background :: ctx where
  "background = \<lparr>entry = None, scan = (\<lambda>_. None), sorting = None, apply_tick = (\<lambda>_. None)\<rparr>"

text \<open>
  \<^verbatim>\<open>tick\<close> increments a \<^verbatim>\<open>uint32\<close> counter and looks at the context on the first call and on
  every call whose counter is a multiple of 64. \<open>n\<close> is the number of the call, from 1.
\<close>

unbundle bit_operations_syntax

definition tick :: "(nat \<Rightarrow> error option) \<Rightarrow> nat \<Rightarrow> error option" where
  "tick c n = (let k = (of_nat n :: 32 word) in if k \<noteq> 1 \<and> k AND 63 \<noteq> 0 then None else c n)"

text \<open>
  A loop over \<open>n\<close> items that only ticks: the first error of the calls \<open>i + 1, \<dots>, i + n\<close>.
\<close>

fun tick_all :: "(nat \<Rightarrow> error option) \<Rightarrow> nat \<Rightarrow> nat \<Rightarrow> error option" where
  "tick_all c i 0 = None"
| "tick_all c i (Suc n) = (case tick c (Suc i) of Some e \<Rightarrow> Some e | None \<Rightarrow> tick_all c (Suc i) n)"

lemma tick_never [simp]: "tick (\<lambda>_. None) n = None"
  by (simp add: tick_def Let_def)

lemma tick_all_never [simp]: "tick_all (\<lambda>_. None) i n = None"
  by (induction n arbitrary: i) auto

lemma background_simps [simp]:
  "entry background = None" "scan background = (\<lambda>_. None)"
  "sorting background = None" "apply_tick background = (\<lambda>_. None)"
  by (simp_all add: background_def)

section \<open>Generic lemmas\<close>

lemma mget_update [gomap_simps]: "mget (mset_at m k v) k' = (if k' = k then Some v else mget m k')"
  by (simp add: AList.update_conv')

lemma mget_delete [gomap_simps]: "mget (mdel m k) k' = (if k' = k then None else mget m k')"
  by (simp add: AList.delete_conv')

lemma mget_mmap [gomap_simps]: "mget (mmap f m) k = map_option (f k) (mget m k)"
  by (induction m) (auto simp: mmap_def)

lemma mkeys_mmap [simp]: "mkeys (mmap f m) = mkeys m"
  by (induction m) (auto simp: mmap_def)

lemma mwf_update [simp]: "mwf m \<Longrightarrow> mwf (mset_at m k v)"
  by (simp add: AList.distinct_update)

lemma mwf_delete [simp]: "mwf m \<Longrightarrow> mwf (mdel m k)"
  by (simp add: AList.distinct_delete)

lemma set_mkeys_update [simp]: "set (mkeys (mset_at m k v)) = insert k (set (mkeys m))"
  by (induction m) auto

lemma set_mkeys_delete [simp]: "set (mkeys (mdel m k)) = set (mkeys m) - {k}"
  by (auto simp: AList.delete_eq)

lemma mhas_iff: "mhas m k \<longleftrightarrow> k \<in> set (mkeys m)"
  by (metis map_of_eq_None_iff set_map)

lemma mget_ex_iff: "(\<exists>v. mget m k = Some v) \<longleftrightarrow> k \<in> fst ` set m"
  by (metis map_of_eq_None_iff not_None_eq)

lemma mget_None_iff: "mget m k = None \<longleftrightarrow> k \<notin> set (mkeys m)"
  by (metis map_of_eq_None_iff set_map)

lemma length_update_present: "mhas m k \<Longrightarrow> length (mset_at m k v) = length m"
  by (induction m) auto

lemma length_update_absent: "\<not> mhas m k \<Longrightarrow> mset_at m k v = m @ [(k, v)]"
  by (induction m) (auto split: if_splits)

lemma mkeys_update_present: "mhas m k \<Longrightarrow> mkeys (mset_at m k v) = mkeys m"
  by (induction m) auto

lemma mdel_absent: "\<not> mhas m k \<Longrightarrow> mdel m k = m"
  by (induction m) (auto split: if_splits)

lemma set_sadd [simp]: "set (sadd xs x) = insert x (set xs)"
  by (auto simp: sadd_def)

lemma set_sdel [simp]: "set (sdel xs x) = set xs - {x}"
  by (auto simp: sdel_def)

lemma distinct_sadd [simp]: "distinct xs \<Longrightarrow> distinct (sadd xs x)"
  by (simp add: sadd_def)

lemma distinct_sdel [simp]: "distinct xs \<Longrightarrow> distinct (sdel xs x)"
  by (simp add: sdel_def)

lemma gslice_Some_iff: "gslice s a b = Some t \<longleftrightarrow> a \<le> b \<and> b \<le> length s \<and> t = take (b - a) (drop a s)"
  by (auto simp: gslice_def)

lemma gslice_None_iff: "gslice s a b = None \<longleftrightarrow> b < a \<or> length s < b"
  by (auto simp: gslice_def)

text \<open>Two lists without repetition and with the same elements have the same length.\<close>

lemma distinct_set_length_eq:
  assumes "distinct xs" "distinct ys" "set xs = set ys"
  shows "length xs = length ys"
  using assms by (metis distinct_card)

text \<open>Replacing the first occurrence of an element, as a loop with \<^verbatim>\<open>break\<close> does.\<close>

fun replace_first :: "'a \<Rightarrow> 'a \<Rightarrow> 'a list \<Rightarrow> 'a list" where
  "replace_first a b [] = []"
| "replace_first a b (x # xs) = (if x = a then b # xs else x # replace_first a b xs)"

lemma length_replace_first [simp]: "length (replace_first a b xs) = length xs"
  by (induction xs) auto

lemma replace_first_absent: "a \<notin> set xs \<Longrightarrow> replace_first a b xs = xs"
  by (induction xs) auto

lemma replace_first_distinct:
  "distinct xs \<Longrightarrow> replace_first a b xs = map (\<lambda>x. if x = a then b else x) xs"
  by (induction xs) (auto intro: map_idI[symmetric])

end
