(* ===== verification/Go_Strings.thy ===== *)
theory Go_Strings
  imports Prelude "HOL-Library.Char_ord" "HOL-Library.List_Lexorder"
begin

text \<open>
  What the source uses of Go's \<^verbatim>\<open>strings\<close> and \<^verbatim>\<open>strconv\<close> packages. A Go string is a
  sequence of bytes, here a \<open>char list\<close>; \<open><\<close> on strings is the byte-wise lexicographic order of
  \<^verbatim>\<open>List_Lexorder\<close>, which is Go's.

  White space is Unicode white space, as in \<^verbatim>\<open>unicode.IsSpace\<close>: the ASCII spaces and the UTF-8
  encodings of the others. Case mapping (\<^verbatim>\<open>ToLower\<close>, \<^verbatim>\<open>ToUpper\<close>, \<^verbatim>\<open>EqualFold\<close>) is
  modelled on ASCII letters; other bytes are left as they are.
\<close>

abbreviation byte :: "char \<Rightarrow> nat" where
  "byte c \<equiv> of_char c"

section \<open>White space\<close>

definition asciiSpace :: "char \<Rightarrow> bool" where
  "asciiSpace c \<longleftrightarrow> byte c = 32 \<or> 9 \<le> byte c \<and> byte c \<le> 13"

text \<open>U+0085, U+00A0, U+1680, U+2000 to U+200A, U+2028, U+2029, U+202F, U+205F and U+3000.\<close>

definition multiSpaces :: "string list" where
  "multiSpaces =
    [[CHR 0xC2, CHR 0x85], [CHR 0xC2, CHR 0xA0], [CHR 0xE1, CHR 0x9A, CHR 0x80],
     [CHR 0xE2, CHR 0x80, CHR 0x80], [CHR 0xE2, CHR 0x80, CHR 0x81],
     [CHR 0xE2, CHR 0x80, CHR 0x82], [CHR 0xE2, CHR 0x80, CHR 0x83],
     [CHR 0xE2, CHR 0x80, CHR 0x84], [CHR 0xE2, CHR 0x80, CHR 0x85],
     [CHR 0xE2, CHR 0x80, CHR 0x86], [CHR 0xE2, CHR 0x80, CHR 0x87],
     [CHR 0xE2, CHR 0x80, CHR 0x88], [CHR 0xE2, CHR 0x80, CHR 0x89],
     [CHR 0xE2, CHR 0x80, CHR 0x8A], [CHR 0xE2, CHR 0x80, CHR 0xA8],
     [CHR 0xE2, CHR 0x80, CHR 0xA9], [CHR 0xE2, CHR 0x80, CHR 0xAF],
     [CHR 0xE2, CHR 0x81, CHR 0x9F], [CHR 0xE3, CHR 0x80, CHR 0x80]]"

text \<open>
  The number of bytes of the white-space rune at the front of a string, 0 for none. \<open>encs\<close> is
  the list of the multi-byte encodings, reversed when the string is read from its end.
\<close>

definition spaceLen :: "string list \<Rightarrow> string \<Rightarrow> nat" where
  "spaceLen encs s = (case s of [] \<Rightarrow> 0
     | c # _ \<Rightarrow> if asciiSpace c then 1
               else if byte c < 128 then 0
               else (case find (\<lambda>p. take (length p) s = p) encs of None \<Rightarrow> 0 | Some p \<Rightarrow> length p))"

function dropSpaces :: "string list \<Rightarrow> string \<Rightarrow> string" where
  "dropSpaces encs s = (if s = [] \<or> spaceLen encs s = 0 then s else dropSpaces encs (drop (spaceLen encs s) s))"
  by pat_completeness auto
termination
  by (relation "measure (\<lambda>(encs, s). length s)") auto

declare dropSpaces.simps [simp del]

definition TrimSpace :: "string \<Rightarrow> string" where
  "TrimSpace s = rev (dropSpaces (map rev multiSpaces) (rev (dropSpaces multiSpaces s)))"

text \<open>
  \<^verbatim>\<open>strings.Fields\<close>: maximal runs without white space. \<open>cur\<close> is the run being read, reversed.
\<close>

function fieldsLoop :: "string \<Rightarrow> string \<Rightarrow> string list" where
  "fieldsLoop cur s =
     (let n = spaceLen multiSpaces s in
      case s of
        [] \<Rightarrow> if cur = [] then [] else [rev cur]
      | c # cs \<Rightarrow>
          if n = 0 then fieldsLoop (c # cur) cs
          else (if cur = [] then [] else [rev cur]) @ fieldsLoop [] (drop (n - 1) cs))"
  by pat_completeness auto
termination
  by (relation "measure (\<lambda>(cur, s). length s)") auto

declare fieldsLoop.simps [simp del]

definition Fields :: "string \<Rightarrow> string list" where
  "Fields s = fieldsLoop [] s"

section \<open>Searching and splitting\<close>

fun Index :: "string \<Rightarrow> string \<Rightarrow> nat option" where
  "Index s sub =
     (if take (length sub) s = sub then Some 0
      else case s of [] \<Rightarrow> None | _ # cs \<Rightarrow> map_option Suc (Index cs sub))"

declare Index.simps [simp del]

definition IndexByte :: "string \<Rightarrow> char \<Rightarrow> nat option" where
  "IndexByte s c = Index s [c]"

definition LastIndexByte :: "string \<Rightarrow> char \<Rightarrow> nat option" where
  "LastIndexByte s c = map_option (\<lambda>i. length s - 1 - i) (Index (rev s) [c])"

definition Contains :: "string \<Rightarrow> string \<Rightarrow> bool" where
  "Contains s sub \<longleftrightarrow> Index s sub \<noteq> None"

definition HasSuffix :: "string \<Rightarrow> string \<Rightarrow> bool" where
  "HasSuffix s suf \<longleftrightarrow> length suf \<le> length s \<and> drop (length s - length suf) s = suf"

definition TrimSuffix :: "string \<Rightarrow> string \<Rightarrow> string" where
  "TrimSuffix s suf = (if HasSuffix s suf then take (length s - length suf) s else s)"

text \<open>\<^verbatim>\<open>strings.Split\<close> with a one-byte separator.\<close>

fun splitByte :: "char \<Rightarrow> string \<Rightarrow> string list" where
  "splitByte sep [] = [[]]"
| "splitByte sep (c # cs) =
     (if c = sep then [] # splitByte sep cs
      else case splitByte sep cs of [] \<Rightarrow> [[c]] | w # ws \<Rightarrow> (c # w) # ws)"

text \<open>\<^verbatim>\<open>strings.SplitN(s, sep, 2)\<close> with a one-byte separator: None for a single part.\<close>

fun splitByte2 :: "char \<Rightarrow> string \<Rightarrow> (string \<times> string) option" where
  "splitByte2 sep [] = None"
| "splitByte2 sep (c # cs) =
     (if c = sep then Some ([], cs) else map_option (\<lambda>(a, b). (c # a, b)) (splitByte2 sep cs))"

text \<open>\<^verbatim>\<open>strings.ReplaceAll\<close> of two quotes by one, and of one quote by two.\<close>

fun undouble :: "string \<Rightarrow> string" where
  "undouble (c # d # cs) =
     (if c = CHR 0x27 \<and> d = CHR 0x27 then c # undouble cs else c # undouble (d # cs))"
| "undouble cs = cs"

definition double :: "string \<Rightarrow> string" where
  "double s = concat (map (\<lambda>c. if c = CHR 0x27 then [c, c] else [c]) s)"

text \<open>\<^verbatim>\<open>strings.Trim\<close> with a one-byte cutset.\<close>

definition trimByte :: "char \<Rightarrow> string \<Rightarrow> string" where
  "trimByte c s = rev (dropWhile (\<lambda>d. d = c) (rev (dropWhile (\<lambda>d. d = c) s)))"

section \<open>ASCII case\<close>

definition upcase :: "char \<Rightarrow> char" where
  "upcase c = (if 97 \<le> byte c \<and> byte c \<le> 122 then char_of (byte c - 32) else c)"

definition downcase :: "char \<Rightarrow> char" where
  "downcase c = (if 65 \<le> byte c \<and> byte c \<le> 90 then char_of (byte c + 32) else c)"

definition ToUpper :: "string \<Rightarrow> string" where
  "ToUpper = map upcase"

definition ToLower :: "string \<Rightarrow> string" where
  "ToLower = map downcase"

definition EqualFold :: "string \<Rightarrow> string \<Rightarrow> bool" where
  "EqualFold s t \<longleftrightarrow> ToLower s = ToLower t"

section \<open>Decimal integers\<close>

fun fmtNat :: "nat \<Rightarrow> string" where
  "fmtNat n = (if n < 10 then [char_of (48 + n)] else fmtNat (n div 10) @ [char_of (48 + n mod 10)])"

declare fmtNat.simps [simp del]

definition FormatInt :: "int \<Rightarrow> string" where
  "FormatInt i = (if i < 0 then CHR ''-'' # fmtNat (nat (- i)) else fmtNat (nat i))"

definition isDigit :: "char \<Rightarrow> bool" where
  "isDigit c \<longleftrightarrow> 48 \<le> byte c \<and> byte c \<le> 57"

fun digitsVal :: "nat \<Rightarrow> string \<Rightarrow> nat" where
  "digitsVal n [] = n"
| "digitsVal n (c # cs) = digitsVal (n * 10 + (byte c - 48)) cs"

text \<open>
  \<^verbatim>\<open>strconv.ParseInt(s, 10, 64)\<close> (and \<^verbatim>\<open>Atoi\<close>, with its own function name, on a 64-bit
  platform): an optional sign, then at least one decimal digit and nothing else.
\<close>

definition parseInt64 :: "string \<Rightarrow> string \<Rightarrow> int res" where
  "parseInt64 fn s =
     (let neg = (case s of c # _ \<Rightarrow> c = CHR ''-'' | [] \<Rightarrow> False);
          body = (case s of c # cs \<Rightarrow> if c = CHR ''+'' \<or> c = CHR ''-'' then cs else s | [] \<Rightarrow> [])
      in if body = [] \<or> \<not> list_all isDigit body then Inl (NumError fn s ErrSyntax)
         else let v = int (digitsVal 0 body); i = (if neg then - v else v)
              in if i < - (2 ^ 63) \<or> 2 ^ 63 \<le> i then Inl (NumError fn s ErrRange) else Inr i)"

definition ParseInt :: "string \<Rightarrow> int res" where
  "ParseInt s = parseInt64 ''ParseInt'' s"

definition Atoi :: "string \<Rightarrow> int res" where
  "Atoi s = parseInt64 ''Atoi'' s"

definition ParseBool :: "string \<Rightarrow> bool res" where
  "ParseBool s =
     (if s \<in> {''1'', ''t'', ''T'', ''TRUE'', ''true'', ''True''} then Inr True
      else if s \<in> {''0'', ''f'', ''F'', ''FALSE'', ''false'', ''False''} then Inr False
      else Inl (NumError ''ParseBool'' s ErrSyntax))"

section \<open>Lemmas on white space\<close>

lemma spaceLen_Nil [simp]: "spaceLen encs [] = 0"
  by (simp add: spaceLen_def)

lemma spaceLen_ascii [simp]:
  "byte c < 128 \<Longrightarrow> spaceLen encs (c # cs) = (if asciiSpace c then 1 else 0)"
  by (simp add: spaceLen_def)

lemma dropSpaces_stop: "spaceLen encs s = 0 \<Longrightarrow> dropSpaces encs s = s"
  by (simp add: dropSpaces.simps[of encs s])

lemma spaceLen_dropSpaces [simp]: "spaceLen encs (dropSpaces encs s) = 0"
proof (induction encs s rule: dropSpaces.induct)
  case (1 encs s)
  then show ?case by (cases "s = [] \<or> spaceLen encs s = 0") (auto simp: dropSpaces.simps[of encs s])
qed

lemma dropSpaces_idem [simp]: "dropSpaces encs (dropSpaces encs s) = dropSpaces encs s"
  by (rule dropSpaces_stop) simp

lemma dropSpaces_suffix: "\<exists>p. s = p @ dropSpaces encs s"
proof (induction encs s rule: dropSpaces.induct)
  case (1 encs s)
  show ?case
  proof (cases "s = [] \<or> spaceLen encs s = 0")
    case True
    then show ?thesis by (auto simp: dropSpaces.simps[of encs s])
  next
    case False
    with 1 obtain p where "drop (spaceLen encs s) s = p @ dropSpaces encs (drop (spaceLen encs s) s)"
      by blast
    then have "s = (take (spaceLen encs s) s @ p) @ dropSpaces encs (drop (spaceLen encs s) s)"
      by (metis append.assoc append_take_drop_id)
    moreover have "dropSpaces encs s = dropSpaces encs (drop (spaceLen encs s) s)"
      using False by (subst dropSpaces.simps) simp
    ultimately show ?thesis by metis
  qed
qed

text \<open>A prefix of a string that starts with no white space starts with none either.\<close>

lemma spaceLen_prefix:
  assumes "spaceLen encs (u @ v) = 0" "[] \<notin> set encs"
  shows "spaceLen encs u = 0"
proof (cases u)
  case (Cons c cs)
  show ?thesis
  proof (cases "asciiSpace c \<or> byte c < 128")
    case True
    with assms(1) Cons show ?thesis by (auto simp: spaceLen_def split: if_splits)
  next
    case False
    have "find (\<lambda>p. take (length p) (u @ v) = p) encs = None"
    proof (rule ccontr)
      assume "find (\<lambda>p. take (length p) (u @ v) = p) encs \<noteq> None"
      then obtain p where p: "find (\<lambda>p. take (length p) (u @ v) = p) encs = Some p" by blast
      then have "p \<in> set encs" by (auto simp: find_Some_iff)
      with assms(2) have "p \<noteq> []" by blast
      with assms(1) False Cons p show False by (auto simp: spaceLen_def)
    qed
    then have no: "\<forall>p \<in> set encs. take (length p) (u @ v) \<noteq> p" by (simp add: find_None_iff)
    have "\<forall>p \<in> set encs. take (length p) u \<noteq> p"
    proof (intro ballI notI)
      fix p assume "p \<in> set encs" and eq: "take (length p) u = p"
      from eq have "length p \<le> length u" by (metis length_take min.cobounded1)
      with eq have "take (length p) (u @ v) = p" by simp
      with no \<open>p \<in> set encs\<close> show False by blast
    qed
    then have "find (\<lambda>p. take (length p) u = p) encs = None" by (simp add: find_None_iff)
    with False Cons show ?thesis by (simp add: spaceLen_def)
  qed
qed simp

lemma multiSpaces_nonempty [simp]: "[] \<notin> set multiSpaces" "[] \<notin> set (map rev multiSpaces)"
  by (simp_all add: multiSpaces_def)

lemma TrimSpace_idem [simp]: "TrimSpace (TrimSpace s) = TrimSpace s"
proof -
  let ?R = "map rev multiSpaces"
  let ?t = "dropSpaces multiSpaces s"
  let ?u = "rev (dropSpaces ?R (rev ?t))"
  obtain p where "rev ?t = p @ dropSpaces ?R (rev ?t)" using dropSpaces_suffix by blast
  then have "?t = ?u @ rev p" by (metis rev_append rev_rev_ident)
  then have "spaceLen multiSpaces (?u @ rev p) = 0" using spaceLen_dropSpaces by metis
  then have "spaceLen multiSpaces ?u = 0" by (rule spaceLen_prefix) simp
  then have "dropSpaces multiSpaces ?u = ?u" by (rule dropSpaces_stop)
  then show ?thesis by (simp add: TrimSpace_def)
qed

text \<open>A string whose first and last bytes are ASCII and not white space is not trimmed.\<close>

lemma TrimSpace_solid:
  assumes "s \<noteq> []" "byte (hd s) < 128" "\<not> asciiSpace (hd s)" "byte (last s) < 128" "\<not> asciiSpace (last s)"
  shows "TrimSpace s = s"
proof -
  have "spaceLen multiSpaces s = 0" using assms(1-3) by (cases s) auto
  then have 1: "dropSpaces multiSpaces s = s" by (rule dropSpaces_stop)
  have "spaceLen (map rev multiSpaces) (rev s) = 0"
  proof (cases "rev s")
    case (Cons c cs)
    then have "c = last s" by (metis hd_rev list.sel(1))
    with assms(4,5) show ?thesis unfolding Cons by simp
  qed simp
  then have "dropSpaces (map rev multiSpaces) (rev s) = rev s" by (rule dropSpaces_stop)
  with 1 show ?thesis by (simp add: TrimSpace_def)
qed

lemma TrimSpace_Nil [simp]: "TrimSpace [] = []"
  by (simp add: TrimSpace_def dropSpaces_stop)

section \<open>Trimming and concatenation\<close>

text \<open>The encodings of one white-space rune, for a table of the multi-byte ones.\<close>

definition spaceEncs :: "string list \<Rightarrow> string set" where
  "spaceEncs encs = {[c] | c. asciiSpace c} \<union> set encs"

text \<open>
  What makes trimming work byte by byte: the first two bytes of an encoding tell its length, so
  no encoding is a prefix of another, and no encoding starts with an ASCII byte.
\<close>

definition prefixFree :: "string list \<Rightarrow> bool" where
  "prefixFree encs \<longleftrightarrow>
     list_all (\<lambda>p. 128 \<le> byte (hd p) \<and> length p = (if 194 \<in> set (map byte (take 2 p)) then 2 else 3)) encs"

lemma prefixFree_multiSpaces: "prefixFree multiSpaces" "prefixFree (map rev multiSpaces)"
  by (simp_all add: prefixFree_def multiSpaces_def)

lemma prefixFree_unique:
  assumes "prefixFree encs" "p \<in> set encs" "q \<in> set encs" "take (length p) w = p" "take (length q) w = q"
  shows "p = q"
proof -
  have len: "\<forall>p \<in> set encs. length p = (if 194 \<in> set (map byte (take 2 p)) then 2 else 3)"
    using assms(1) unfolding prefixFree_def list_all_iff by blast
  then have "length p = 2 \<or> length p = 3" "length q = 2 \<or> length q = 3" using assms(2,3) by metis+
  then have "2 \<le> length p" "2 \<le> length q" by auto
  then have "take 2 p = take 2 q" using assms(4,5) by (metis min.absorb1 take_take)
  then have "length p = length q" using len assms(2,3) by metis
  with assms(4,5) show ?thesis by metis
qed

lemma take_length_take: "take (length (take n w)) w = take n w"
  by (simp add: min_def)

lemma spaceLen_enc:
  assumes "prefixFree encs" "e \<in> spaceEncs encs"
  shows "spaceLen encs (e @ x) = length e" "e \<noteq> []"
proof -
  have "spaceLen encs (e @ x) = length e \<and> e \<noteq> []"
  proof (cases "e \<in> set encs")
    case True
    with assms(1) obtain c cs where e: "e = c # cs" "128 \<le> byte c"
      by (cases e) (auto simp: prefixFree_def list_all_iff split: if_splits)
    have "find (\<lambda>p. take (length p) (e @ x) = p) encs \<noteq> None" using True by (auto simp: find_None_iff)
    then obtain p where p: "find (\<lambda>p. take (length p) (e @ x) = p) encs = Some p" by blast
    then have "p \<in> set encs" "take (length p) (e @ x) = p" by (auto simp: find_Some_iff)
    then have "p = e" using prefixFree_unique[OF assms(1), of p e "e @ x"] True by simp
    with p e show ?thesis by (auto simp: spaceLen_def asciiSpace_def)
  qed (use assms in \<open>auto simp: spaceEncs_def spaceLen_def\<close>)
  then show "spaceLen encs (e @ x) = length e" "e \<noteq> []" by blast+
qed

lemma dropSpaces_enc:
  assumes "prefixFree encs" "e \<in> spaceEncs encs"
  shows "dropSpaces encs (e @ x) = dropSpaces encs x"
  using spaceLen_enc[OF assms] by (subst dropSpaces.simps) simp

lemma dropSpaces_run:
  "prefixFree encs \<Longrightarrow> set es \<subseteq> spaceEncs encs \<Longrightarrow> dropSpaces encs (concat es @ x) = dropSpaces encs x"
  by (induction es) (auto simp: dropSpaces_enc)

lemma find_SomeD: "find P xs = Some x \<Longrightarrow> P x \<and> x \<in> set xs"
  by (auto simp: find_Some_iff)

lemma spaceLen_take:
  assumes "0 < spaceLen encs s"
  shows "take (spaceLen encs s) s \<in> spaceEncs encs"
  using assms
  by (auto simp: spaceLen_def spaceEncs_def split: list.splits if_splits option.splits dest: find_SomeD)

lemma dropSpaces_decomp: "\<exists>es. set es \<subseteq> spaceEncs encs \<and> s = concat es @ dropSpaces encs s"
proof (induction encs s rule: dropSpaces.induct)
  case (1 encs s)
  let ?n = "spaceLen encs s"
  show ?case
  proof (cases "s = [] \<or> ?n = 0")
    case True
    then show ?thesis by (intro exI[of _ "[]"]) (auto simp: dropSpaces.simps[of encs s])
  next
    case False
    with 1 obtain es where es: "set es \<subseteq> spaceEncs encs" "drop ?n s = concat es @ dropSpaces encs (drop ?n s)" by blast
    have "s = take ?n s @ drop ?n s" by simp
    also have "\<dots> = concat (take ?n s # es) @ dropSpaces encs (drop ?n s)" using es(2) by simp
    finally have "s = concat (take ?n s # es) @ dropSpaces encs (drop ?n s)" .
    moreover have "dropSpaces encs s = dropSpaces encs (drop ?n s)" using False by (subst dropSpaces.simps) simp
    moreover have "set (take ?n s # es) \<subseteq> spaceEncs encs" using es(1) spaceLen_take[of encs s] False by auto
    ultimately show ?thesis by metis
  qed
qed

text \<open>Only the first byte of an encoding can be the first byte of one.\<close>

definition tailBytes :: "string list \<Rightarrow> bool" where
  "tailBytes encs \<longleftrightarrow> (\<forall>p \<in> set encs. \<forall>c \<in> set (tl p). 128 \<le> byte c \<and> byte c < 192) \<and> (\<forall>p \<in> set encs. 192 \<le> byte (hd p))"

lemma tailBytes_multiSpaces: "tailBytes multiSpaces"
  by (simp add: tailBytes_def multiSpaces_def)

lemma spaceLen_extend:
  assumes "spaceLen multiSpaces y = 0" "y \<noteq> []" "e \<in> spaceEncs multiSpaces"
  shows "spaceLen multiSpaces (y @ e @ z) = 0"
proof (rule ccontr)
  let ?n = "spaceLen multiSpaces (y @ e @ z)"
  assume "?n \<noteq> 0"
  obtain c cs where y: "y = c # cs" using assms(2) by (cases y) auto
  have c: "\<not> asciiSpace c" "128 \<le> byte c" using \<open>?n \<noteq> 0\<close> assms(1) y by (auto simp: spaceLen_def split: if_splits)
  define p where "p = take ?n (y @ e @ z)"
  have p: "p \<in> set multiSpaces" using spaceLen_take[of multiSpaces "y @ e @ z"] \<open>?n \<noteq> 0\<close> c y
    by (auto simp: p_def spaceEncs_def take_Cons' split: if_splits)
  show False
  proof (cases "length p \<le> length y")
    case True
    moreover have "take (length p) (y @ e @ z) = p" unfolding p_def by (rule take_length_take)
    ultimately have "take (length p) y = p" by simp
    then have "y = p @ drop (length p) y" by (metis append_take_drop_id)
    then have "spaceLen multiSpaces y = length p" "p \<noteq> []"
      using spaceLen_enc(1)[OF prefixFree_multiSpaces(1), of p "drop (length p) y"]
        spaceLen_enc(2)[OF prefixFree_multiSpaces(1), of p] p by (auto simp: spaceEncs_def)
    with assms(1) show False by simp
  next
    case False
    have "0 < length y" using assms(2) by simp
    have e: "e \<noteq> []" using spaceLen_enc[OF prefixFree_multiSpaces(1) assms(3)] by blast
    have "p ! length y = hd e" using False e by (auto simp: p_def nth_append hd_conv_nth)
    moreover have "p ! length y \<in> set (tl p)" using False \<open>0 < length y\<close> y by (cases p) auto
    ultimately have "128 \<le> byte (hd e) \<and> byte (hd e) < 192" using p tailBytes_multiSpaces by (auto simp: tailBytes_def)
    moreover have "byte (hd e) < 128 \<or> 192 \<le> byte (hd e)"
      using assms(3) tailBytes_multiSpaces by (auto simp: spaceEncs_def tailBytes_def asciiSpace_def)
    ultimately show False by simp
  qed
qed

lemma dropSpaces_append_run:
  assumes "set es \<subseteq> spaceEncs multiSpaces" "dropSpaces multiSpaces x \<noteq> []"
  shows "dropSpaces multiSpaces (x @ concat es) = dropSpaces multiSpaces x @ concat es"
proof -
  obtain ls where ls: "set ls \<subseteq> spaceEncs multiSpaces" "x = concat ls @ dropSpaces multiSpaces x"
    using dropSpaces_decomp by blast
  let ?y = "dropSpaces multiSpaces x"
  have "spaceLen multiSpaces (?y @ concat es) = 0"
  proof (cases es)
    case (Cons e es')
    with assms(1) have "e \<in> spaceEncs multiSpaces" by simp
    from spaceLen_extend[OF spaceLen_dropSpaces assms(2) this] Cons show ?thesis by simp
  qed simp
  then have "dropSpaces multiSpaces (?y @ concat es) = ?y @ concat es" by (rule dropSpaces_stop)
  moreover have "x @ concat es = concat ls @ ?y @ concat es" using ls(2) by (metis append_assoc)
  ultimately show ?thesis using dropSpaces_run[OF prefixFree_multiSpaces(1) ls(1)] by metis
qed

lemma spaceEncs_rev: "e \<in> spaceEncs multiSpaces \<longleftrightarrow> rev e \<in> spaceEncs (map rev multiSpaces)"
  by (auto simp: spaceEncs_def image_iff)

lemma rev_concat_run:
  "set es \<subseteq> spaceEncs multiSpaces \<Longrightarrow>
   rev (concat es) = concat (rev (map rev es)) \<and> set (rev (map rev es)) \<subseteq> spaceEncs (map rev multiSpaces)"
  by (auto simp: rev_concat rev_map spaceEncs_rev)

text \<open>White space around a string does not change what trimming leaves.\<close>

lemma TrimSpace_surround:
  assumes "set ls \<subseteq> spaceEncs multiSpaces" "set rs \<subseteq> spaceEncs multiSpaces"
  shows "TrimSpace (concat ls @ x @ concat rs) = TrimSpace x"
proof (cases "dropSpaces multiSpaces x = []")
  case True
  obtain xs where xs: "set xs \<subseteq> spaceEncs multiSpaces" "x = concat xs"
    using dropSpaces_decomp[of multiSpaces x] True by auto
  have "dropSpaces multiSpaces (concat (ls @ xs @ rs) @ []) = dropSpaces multiSpaces []"
    using assms xs by (intro dropSpaces_run prefixFree_multiSpaces) auto
  with xs True show ?thesis by (simp add: TrimSpace_def dropSpaces_stop)
next
  case False
  have "dropSpaces multiSpaces (concat ls @ x @ concat rs) = dropSpaces multiSpaces x @ concat rs"
    using dropSpaces_run[OF prefixFree_multiSpaces(1) assms(1)] dropSpaces_append_run[OF assms(2) False] by simp
  moreover have "dropSpaces (map rev multiSpaces) (rev (dropSpaces multiSpaces x @ concat rs)) =
      dropSpaces (map rev multiSpaces) (rev (dropSpaces multiSpaces x))"
    using rev_concat_run[OF assms(2)] by (simp add: dropSpaces_run[OF prefixFree_multiSpaces(2)])
  ultimately show ?thesis by (simp only: TrimSpace_def)
qed

lemma TrimSpace_decomp:
  "\<exists>ls rs. set ls \<subseteq> spaceEncs multiSpaces \<and> set rs \<subseteq> spaceEncs multiSpaces \<and>
     s = concat ls @ TrimSpace s @ concat rs"
proof -
  obtain ls where ls: "set ls \<subseteq> spaceEncs multiSpaces" "s = concat ls @ dropSpaces multiSpaces s"
    using dropSpaces_decomp by blast
  let ?d = "dropSpaces multiSpaces s"
  obtain rs where rs: "set rs \<subseteq> spaceEncs (map rev multiSpaces)"
    "rev ?d = concat rs @ dropSpaces (map rev multiSpaces) (rev ?d)"
    using dropSpaces_decomp by blast
  have "set (rev (map rev rs)) \<subseteq> spaceEncs multiSpaces" using rs(1) by (auto simp: spaceEncs_rev)
  moreover have "?d = TrimSpace s @ concat (rev (map rev rs))"
    using arg_cong[OF rs(2), of rev] by (simp add: TrimSpace_def rev_concat rev_map)
  ultimately show ?thesis using ls by metis
qed

text \<open>White space contains neither commas nor quotes nor parentheses.\<close>

lemma spaceEncs_bytes:
  assumes "e \<in> spaceEncs multiSpaces" "c \<in> set e"
  shows "asciiSpace c \<or> 128 \<le> byte c"
  using assms tailBytes_multiSpaces
  by (cases e) (fastforce simp: spaceEncs_def tailBytes_def)+

section \<open>Lemmas on decimal integers\<close>

lemma byte_char_of: "n < 256 \<Longrightarrow> byte (char_of n) = n"
  by (simp add: of_char_of)

lemma of_char_digit [simp]: "n < 208 \<Longrightarrow> byte (char_of (48 + n)) = 48 + n"
  by (simp add: of_char_of)

lemma digitsVal_append: "digitsVal n (xs @ ys) = digitsVal (digitsVal n xs) ys"
  by (induction xs arbitrary: n) auto

lemma fmtNat_nonempty [simp]: "fmtNat n \<noteq> []"
  by (subst fmtNat.simps) simp

lemma fmtNat_digits: "list_all isDigit (fmtNat n)"
proof (induction n rule: fmtNat.induct)
  case (1 n)
  show ?case
  proof (cases "n < 10")
    case True
    then show ?thesis by (simp add: fmtNat.simps[of n] isDigit_def)
  next
    case False
    moreover have "isDigit (char_of (48 + n mod 10))" by (simp add: isDigit_def)
    ultimately show ?thesis using 1 by (simp add: fmtNat.simps[of n])
  qed
qed

lemma digitsVal_fmtNat [simp]: "digitsVal 0 (fmtNat n) = n"
proof (induction n rule: fmtNat.induct)
  case (1 n)
  show ?case
  proof (cases "n < 10")
    case True
    then show ?thesis by (simp add: fmtNat.simps[of n])
  next
    case False
    with 1 have "digitsVal 0 (fmtNat (n div 10)) = n div 10" by simp
    with False show ?thesis by (simp add: fmtNat.simps[of n] digitsVal_append)
  qed
qed

lemma fmtNat_inject [simp]: "fmtNat m = fmtNat n \<longleftrightarrow> m = n"
  by (metis digitsVal_fmtNat)

lemma fmtNat_hd_digit: "isDigit (hd (fmtNat n))"
  by (metis fmtNat_digits fmtNat_nonempty list.pred_set hd_in_set)

lemma not_isDigit_sign [simp]: "\<not> isDigit (CHR ''-'')" "\<not> isDigit (CHR ''+'')" "\<not> isDigit (CHR ''#'')"
  by (simp_all add: isDigit_def)

lemma fmtNat_no_sign [simp]:
  "fmtNat n \<noteq> CHR ''-'' # cs" "fmtNat n \<noteq> CHR ''+'' # cs" "fmtNat n \<noteq> CHR ''#'' # cs"
  using fmtNat_hd_digit[of n] by auto

lemma ParseInt_fmtNat: "int n < 2 ^ 63 \<Longrightarrow> parseInt64 fn (fmtNat n) = Inr (int n)"
proof -
  assume n: "int n < 2 ^ 63"
  obtain c cs where c: "fmtNat n = c # cs" by (cases "fmtNat n") auto
  then have "c \<noteq> CHR ''-''" "c \<noteq> CHR ''+''" using fmtNat_no_sign by metis+
  with c n fmtNat_digits[of n] digitsVal_fmtNat[of n] show ?thesis
    by (simp add: parseInt64_def Let_def)
qed

text \<open>Printing and parsing a 64-bit integer gives it back.\<close>

lemma ParseInt_FormatInt:
  assumes "- (2 ^ 63) \<le> i" "i < 2 ^ 63"
  shows "ParseInt (FormatInt i) = Inr i"
proof (cases "i < 0")
  case True
  with assms fmtNat_digits[of "nat (- i)"] show ?thesis
    by (simp add: ParseInt_def FormatInt_def parseInt64_def Let_def)
next
  case False
  with assms show ?thesis by (simp add: ParseInt_def FormatInt_def ParseInt_fmtNat)
qed

lemma FormatInt_inject [simp]: "FormatInt i = FormatInt j \<longleftrightarrow> i = j"
  by (auto simp: FormatInt_def split: if_splits dest: sym[of "_ # _"])

section \<open>Lemmas on quotes and case\<close>

lemma undouble_double [simp]: "undouble (double s) = s"
proof (induction s)
  case (Cons c s)
  show ?case
  proof (cases "c = CHR 0x27")
    case True
    with Cons show ?thesis by (simp add: double_def)
  next
    case False
    have "undouble (c # t) = c # undouble t" for t
      using False by (cases t) auto
    with Cons False show ?thesis by (simp add: double_def)
  qed
qed (simp add: double_def)

lemma double_Nil [simp]: "double [] = []"
  by (simp add: double_def)

lemma double_Cons: "double (c # s) = (if c = CHR 0x27 then [c, c] else [c]) @ double s"
  by (simp add: double_def)

lemma downcase_idem [simp]: "downcase (downcase c) = downcase c"
  by (simp add: downcase_def of_char_of)

lemma ToLower_idem [simp]: "ToLower (ToLower s) = ToLower s"
  by (simp add: ToLower_def)

lemma length_ToLower [simp]: "length (ToLower s) = length s"
  by (simp add: ToLower_def)

lemma fmtNat_upper: "n < 10 ^ length (fmtNat n)"
proof (induction n rule: fmtNat.induct)
  case (1 n)
  show ?case
  proof (cases "n < 10")
    case True
    then show ?thesis by (simp add: fmtNat.simps[of n])
  next
    case False
    with 1 have "n div 10 < 10 ^ length (fmtNat (n div 10))" by simp
    with False show ?thesis by (simp add: fmtNat.simps[of n]) 
  qed
qed

lemma fmtNat_lower: "0 < n \<Longrightarrow> 10 ^ (length (fmtNat n) - 1) \<le> n"
proof (induction n rule: fmtNat.induct)
  case (1 n)
  show ?case
  proof (cases "n < 10")
    case True
    with 1 show ?thesis by (simp add: fmtNat.simps[of n])
  next
    case False
    with 1 have "10 ^ (length (fmtNat (n div 10)) - 1) \<le> n div 10" by simp
    moreover obtain l where "length (fmtNat (n div 10)) = Suc l" by (cases "fmtNat (n div 10)") auto
    ultimately show ?thesis using False by (simp add: fmtNat.simps[of n]) 
  qed
qed

end
