(* ===== verification/Go_Float.thy ===== *)
theory Go_Float
  imports Go_Strings
begin

text \<open>
  Go's \<^verbatim>\<open>float64\<close> (IEEE 754 binary64) as the source uses it: comparison, addition, division,
  conversion from and to \<^verbatim>\<open>int64\<close>, \<^verbatim>\<open>strconv.ParseFloat\<close> and
  \<^verbatim>\<open>strconv.FormatFloat(f, 'g', -1, 64)\<close>. A finite number is a sign, a mantissa below
  \<open>2 ^ 53\<close> and an exponent between -1074 and 971; arithmetic is exact on integers, then rounded
  to nearest, ties to even.
\<close>

datatype float64 = FNaN | FInf bool | FFin bool nat int

section \<open>Rounding\<close>

fun bitLen :: "nat \<Rightarrow> nat" where
  "bitLen n = (if n = 0 then 0 else Suc (bitLen (n div 2)))"

declare bitLen.simps [simp del]

definition roundQuot :: "nat \<Rightarrow> nat \<Rightarrow> nat" where
  "roundQuot n d =
     (let q = n div d; r = n mod d in if 2 * r < d \<or> 2 * r = d \<and> even q then q else q + 1)"

text \<open>The float nearest to \<open>n / d\<close>, with the given sign.\<close>

definition roundFrac :: "bool \<Rightarrow> nat \<Rightarrow> nat \<Rightarrow> float64" where
  "roundFrac neg n d =
     (if n = 0 then FFin neg 0 (- 1074)
      else
        let l = int (bitLen n) - int (bitLen d);
            ge = (if 0 \<le> l then d * 2 ^ nat l \<le> n else d \<le> n * 2 ^ nat (- l));
            fl = (if ge then l else l - 1);
            e = max (- 1074) (fl - 52);
            m = (if 0 \<le> e then roundQuot n (d * 2 ^ nat e) else roundQuot (n * 2 ^ nat (- e)) d);
            m' = (if m = 2 ^ 53 then 2 ^ 52 else m);
            e' = (if m = 2 ^ 53 then e + 1 else e)
        in if 971 < e' then FInf neg else FFin neg m' e')"

section \<open>Comparison and arithmetic\<close>

text \<open>The value of a finite number in units of \<open>2 ^ (-1074)\<close>: always an integer.\<close>

definition scaled :: "bool \<Rightarrow> nat \<Rightarrow> int \<Rightarrow> int" where
  "scaled neg m e = (if neg then - 1 else 1) * int m * 2 ^ nat (e + 1074)"

fun fLess :: "float64 \<Rightarrow> float64 \<Rightarrow> bool" where
  "fLess (FInf m) (FInf n) \<longleftrightarrow> m \<and> \<not> n"
| "fLess (FInf m) (FFin _ _ _) \<longleftrightarrow> m"
| "fLess (FFin _ _ _) (FInf n) \<longleftrightarrow> \<not> n"
| "fLess (FFin a m e) (FFin b n f) \<longleftrightarrow> scaled a m e < scaled b n f"
| "fLess _ _ \<longleftrightarrow> False"

fun fEq :: "float64 \<Rightarrow> float64 \<Rightarrow> bool" where
  "fEq (FInf m) (FInf n) \<longleftrightarrow> m = n"
| "fEq (FFin a m e) (FFin b n f) \<longleftrightarrow> scaled a m e = scaled b n f"
| "fEq _ _ \<longleftrightarrow> False"

definition fOfInt :: "int \<Rightarrow> float64" where
  "fOfInt i = roundFrac (i < 0) (nat \<bar>i\<bar>) 1"

fun fAdd :: "float64 \<Rightarrow> float64 \<Rightarrow> float64" where
  "fAdd FNaN _ = FNaN"
| "fAdd _ FNaN = FNaN"
| "fAdd (FInf m) (FInf n) = (if m = n then FInf m else FNaN)"
| "fAdd (FInf m) (FFin _ _ _) = FInf m"
| "fAdd (FFin _ _ _) (FInf n) = FInf n"
| "fAdd (FFin a m e) (FFin b n f) =
     (let s = scaled a m e + scaled b n f
      in if s = 0 then FFin (a \<and> b) 0 (- 1074) else roundFrac (s < 0) (nat \<bar>s\<bar>) (2 ^ 1074))"

fun fDiv :: "float64 \<Rightarrow> float64 \<Rightarrow> float64" where
  "fDiv FNaN _ = FNaN"
| "fDiv _ FNaN = FNaN"
| "fDiv (FInf _) (FInf _) = FNaN"
| "fDiv (FInf m) (FFin b _ _) = FInf (m \<noteq> b)"
| "fDiv (FFin a _ _) (FInf n) = FFin (a \<noteq> n) 0 (- 1074)"
| "fDiv (FFin a m e) (FFin b n f) =
     (if n = 0 then (if m = 0 then FNaN else FInf (a \<noteq> b))
      else roundFrac (a \<noteq> b) (nat \<bar>scaled a m e\<bar>) (nat \<bar>scaled b n f\<bar>))"

text \<open>
  \<^verbatim>\<open>x == math.Trunc(x)\<close>, and \<^verbatim>\<open>int64(x)\<close> of an integral \<open>x\<close>. Go leaves the
  conversion of a value outside the \<^verbatim>\<open>int64\<close> range to the implementation; on amd64 it is the
  smallest \<^verbatim>\<open>int64\<close>.
\<close>

fun fIsTrunc :: "float64 \<Rightarrow> bool" where
  "fIsTrunc FNaN \<longleftrightarrow> False"
| "fIsTrunc (FInf _) \<longleftrightarrow> True"
| "fIsTrunc (FFin a m e) \<longleftrightarrow> 2 ^ 1074 dvd scaled a m e"

fun fToInt64 :: "float64 \<Rightarrow> int" where
  "fToInt64 (FFin a m e) =
     (let i = scaled a m e div 2 ^ 1074 in if - (2 ^ 63) \<le> i \<and> i < 2 ^ 63 then i else - (2 ^ 63))"
| "fToInt64 _ = - (2 ^ 63)"

section \<open>Parsing\<close>

definition lowerByte :: "char \<Rightarrow> char" where
  "lowerByte c = downcase c"

definition hexVal :: "char \<Rightarrow> nat" where
  "hexVal c = (if isDigit c then byte c - 48 else byte (lowerByte c) - 87)"

definition isHexLetter :: "char \<Rightarrow> bool" where
  "isHexLetter c \<longleftrightarrow> 97 \<le> byte (lowerByte c) \<and> byte (lowerByte c) \<le> 102"

text \<open>
  The mantissa loop of \<^verbatim>\<open>strconv.readFloat\<close>: the digits' value, how many of them follow the
  point, whether a digit and an underscore were seen, and the rest of the input.
\<close>

record mantissa =
  mval :: nat
  frac :: nat
  sawdot :: bool
  sawdigits :: bool
  unders :: bool

fun readMantissa :: "bool \<Rightarrow> mantissa \<Rightarrow> string \<Rightarrow> mantissa \<times> string" where
  "readMantissa hex a [] = (a, [])"
| "readMantissa hex a (c # cs) =
     (if c = CHR ''_'' then readMantissa hex (a\<lparr>unders := True\<rparr>) cs
      else if c = CHR ''.'' then
        (if sawdot a then (a, c # cs) else readMantissa hex (a\<lparr>sawdot := True\<rparr>) cs)
      else if isDigit c \<or> hex \<and> isHexLetter c then
        readMantissa hex
          (a\<lparr>mval := mval a * (if hex then 16 else 10) + hexVal c,
             frac := (if sawdot a then frac a + 1 else frac a), sawdigits := True\<rparr>) cs
      else (a, c # cs))"

fun readExp :: "nat \<Rightarrow> bool \<Rightarrow> string \<Rightarrow> nat \<times> bool \<times> string" where
  "readExp e u [] = (e, u, [])"
| "readExp e u (c # cs) =
     (if c = CHR ''_'' then readExp e True cs
      else if isDigit c then readExp (if e < 10000 then e * 10 + (byte c - 48) else e) u cs
      else (e, u, c # cs))"

text \<open>\<^verbatim>\<open>strconv.underscoreOK\<close>: \<open>saw\<close> is the class of the last character.\<close>

fun underscoreLoop :: "bool \<Rightarrow> char \<Rightarrow> string \<Rightarrow> bool" where
  "underscoreLoop hex saw [] \<longleftrightarrow> saw \<noteq> CHR ''_''"
| "underscoreLoop hex saw (c # cs) \<longleftrightarrow>
     (if isDigit c \<or> hex \<and> isHexLetter c then underscoreLoop hex (CHR ''0'') cs
      else if c = CHR ''_'' then saw = CHR ''0'' \<and> underscoreLoop hex (CHR ''_'') cs
      else saw \<noteq> CHR ''_'' \<and> underscoreLoop hex (CHR ''!'') cs)"

definition dropSign :: "string \<Rightarrow> string" where
  "dropSign s = (case s of c # cs \<Rightarrow> if c = CHR ''+'' \<or> c = CHR ''-'' then cs else s | [] \<Rightarrow> [])"

definition underscoreOK :: "string \<Rightarrow> bool" where
  "underscoreOK s =
     (case dropSign s of
        c # d # cs \<Rightarrow>
          if c = CHR ''0'' \<and> lowerByte d \<in> {CHR ''b'', CHR ''o'', CHR ''x''}
          then underscoreLoop (lowerByte d = CHR ''x'') (CHR ''0'') cs
          else underscoreLoop False (CHR ''^'') (c # d # cs)
      | t \<Rightarrow> underscoreLoop False (CHR ''^'') t)"

definition scaleFrac :: "bool \<Rightarrow> nat \<Rightarrow> nat \<Rightarrow> int \<Rightarrow> float64" where
  "scaleFrac neg b m x =
     (if 0 \<le> x then roundFrac neg (m * b ^ nat x) 1 else roundFrac neg m (b ^ nat (- x)))"

text \<open>None: not a number in Go's syntax.\<close>

definition readFloat :: "string \<Rightarrow> float64 option" where
  "readFloat s =
     (let neg = (case s of c # _ \<Rightarrow> c = CHR ''-'' | [] \<Rightarrow> False);
          body = dropSign s;
          hex = (case body of c # d # _ # _ \<Rightarrow> c = CHR ''0'' \<and> lowerByte d = CHR ''x'' | _ \<Rightarrow> False);
          (a, rest) = readMantissa hex
             \<lparr>mval = 0, frac = 0, sawdot = False, sawdigits = False, unders = False\<rparr>
             (if hex then drop 2 body else body);
          ok = (\<lambda>u. \<not> u \<or> underscoreOK s);
          result = (\<lambda>x. if hex then scaleFrac neg 2 (mval a) (x - 4 * int (frac a))
                        else scaleFrac neg 10 (mval a) (x - int (frac a)))
      in if \<not> sawdigits a then None
         else case rest of
           [] \<Rightarrow> if hex \<or> \<not> ok (unders a) then None else Some (result 0)
         | c # r \<Rightarrow>
             if lowerByte c \<noteq> (if hex then CHR ''p'' else CHR ''e'') then None
             else let eneg = (case r of d # _ \<Rightarrow> d = CHR ''-'' | [] \<Rightarrow> False); ds = dropSign r
                  in if (case ds of [] \<Rightarrow> True | d # _ \<Rightarrow> \<not> isDigit d) then None
                     else let (x, u, r') = readExp 0 (unders a) ds
                          in if r' \<noteq> [] \<or> \<not> ok u then None
                             else Some (result (if eneg then - int x else int x)))"

definition ParseFloat :: "string \<Rightarrow> float64 res" where
  "ParseFloat s =
     (let low = ToLower s; body = ToLower (dropSign s);
          neg = (case s of c # _ \<Rightarrow> c = CHR ''-'' | [] \<Rightarrow> False)
      in if low = ''nan'' then Inr FNaN
         else if body = ''inf'' \<or> body = ''infinity'' then Inr (FInf neg)
         else case readFloat s of
           None \<Rightarrow> Inl (NumError ''ParseFloat'' s ErrSyntax)
         | Some (FInf _) \<Rightarrow> Inl (NumError ''ParseFloat'' s ErrRange)
         | Some f \<Rightarrow> Inr f)"

section \<open>Printing\<close>

text \<open>
  The shortest decimal that reads back as \<open>n / d\<close>: digits and decimal point. With \<open>k\<close> digits
  the candidates are the value rounded down and up; the first \<open>k\<close> where one of them reads back
  wins, and the nearer one is taken where both do.
\<close>

definition decPoint :: "nat \<Rightarrow> nat \<Rightarrow> int" where
  "decPoint n d = (if d \<le> n then int (length (fmtNat (n div d)))
                   else 1 - int (length (fmtNat ((d - 1) div n))))"

definition scaleBy10 :: "nat \<Rightarrow> nat \<Rightarrow> int \<Rightarrow> nat \<times> nat" where
  "scaleBy10 n d x = (if 0 \<le> x then (n * 10 ^ nat x, d) else (n, d * 10 ^ nat (- x)))"

fun shortestLoop :: "nat \<Rightarrow> float64 \<Rightarrow> nat \<Rightarrow> nat \<Rightarrow> int \<Rightarrow> nat \<Rightarrow> nat \<times> nat" where
  "shortestLoop fuel f n d dp k =
     (let (a, b) = scaleBy10 n d (int k - dp); lo = a div b; r = a mod b;
          back = (\<lambda>m. scaleFrac False 10 m (dp - int k) = f)
      in case fuel of
           0 \<Rightarrow> (lo, k)
         | Suc fuel' \<Rightarrow>
             if back lo \<and> back (lo + 1) then
               (if 2 * r < b \<or> 2 * r = b \<and> even lo then lo else lo + 1, k)
             else if back lo then (lo, k)
             else if back (lo + 1) then (lo + 1, k)
             else shortestLoop fuel' f n d dp (k + 1))"

declare shortestLoop.simps [simp del]

definition stripZeros :: "string \<Rightarrow> string" where
  "stripZeros s = rev (dropWhile (\<lambda>c. c = CHR ''0'') (rev s))"

definition fmtE :: "string \<Rightarrow> int \<Rightarrow> string" where
  "fmtE ds x =
     take 1 ds @ (if length ds > 1 then CHR ''.'' # drop 1 ds else [])
     @ [CHR ''e'', if x < 0 then CHR ''-'' else CHR ''+'']
     @ (let t = fmtNat (nat \<bar>x\<bar>) in if length t < 2 then CHR ''0'' # t else t)"

definition fmtF :: "string \<Rightarrow> int \<Rightarrow> string" where
  "fmtF ds dp =
     (if 0 < dp then take (nat dp) ds @ replicate (nat dp - length ds) (CHR ''0'') else ''0'')
     @ (if int (length ds) - dp > 0
        then CHR ''.'' # replicate (nat (- dp)) (CHR ''0'') @ drop (nat dp) ds else [])"

fun FormatFloat :: "float64 \<Rightarrow> string" where
  "FormatFloat FNaN = ''NaN''"
| "FormatFloat (FInf n) = (if n then ''-Inf'' else ''+Inf'')"
| "FormatFloat (FFin neg m e) =
     (if neg then ''-'' else []) @
     (if m = 0 then ''0''
      else
        let n = nat \<bar>scaled False m e\<bar>; d = 2 ^ 1074; dp = decPoint n d;
            (v, k) = shortestLoop 17 (FFin False m e) n d dp 1;
            \<comment> \<open>rounding up to a power of ten yields one digit more and moves the point\<close>
            dp' = dp + (int (length (fmtNat v)) - int k);
            ds = stripZeros (fmtNat v);
            x = dp' - 1
        in if x < - 4 \<or> 6 \<le> x then fmtE ds x else fmtF ds dp')"

section \<open>Order\<close>

lemma fLess_irrefl [simp]: "\<not> fLess x x"
  by (cases x) auto

lemma fLess_asym: "fLess x y \<Longrightarrow> \<not> fLess y x"
  by (cases x; cases y) auto

lemma fLess_trans: "fLess x y \<Longrightarrow> fLess y z \<Longrightarrow> fLess x z"
  by (cases x; cases y; cases z) auto

text \<open>Away from NaN the numbers neither below nor above a number are the ones equal to it.\<close>

lemma fLess_linear: "x \<noteq> FNaN \<Longrightarrow> y \<noteq> FNaN \<Longrightarrow> fLess x y \<or> fEq x y \<or> fLess y x"
  by (cases x; cases y) auto

lemma fEq_sym: "fEq x y \<Longrightarrow> fEq y x"
  by (cases x; cases y) auto

lemma fEq_trans: "fEq x y \<Longrightarrow> fEq y z \<Longrightarrow> fEq x z"
  by (cases x; cases y; cases z) auto

lemma fEq_not_less: "fEq x y \<Longrightarrow> \<not> fLess x y"
  by (cases x; cases y) auto

lemma fLess_negtrans:
  "x \<noteq> FNaN \<Longrightarrow> y \<noteq> FNaN \<Longrightarrow> z \<noteq> FNaN \<Longrightarrow> \<not> fLess x y \<Longrightarrow> \<not> fLess y z \<Longrightarrow> \<not> fLess x z"
  by (cases x; cases y; cases z) auto

section \<open>The first byte of a rendered number\<close>

lemma scaled_digit_positive:
  assumes "0 < n" "0 < d" "0 < k" "scaleBy10 n d (int k - decPoint n d) = (a, b)"
  shows "0 < a div b"
proof (cases "d \<le> n")
  case True
  let ?l = "length (fmtNat (n div d))"
  have l: "0 < ?l" "10 ^ (?l - 1) \<le> n div d" using fmtNat_lower[of "n div d"] True assms by (auto simp: div_greater_zero_iff length_greater_0_conv)
  then have le: "10 ^ (?l - 1) * d \<le> n" by (metis less_eq_div_iff_mult_less_eq assms(2))
  show ?thesis
  proof (cases "?l \<le> k")
    case k: True
    then have "a = n * 10 ^ (k - ?l)" "b = d" using assms(4) True by (auto simp: scaleBy10_def decPoint_def nat_diff_distrib')
    moreover have "d \<le> n * 10 ^ (k - ?l)" using True by (simp add: trans_le_add1 le_trans)
    ultimately show ?thesis using assms by (simp add: div_greater_zero_iff div_greater_zero_iff)
  next
    case k: False
    have "nat (- (int k - int ?l)) = ?l - k" by linarith
    with k have "a = n" "b = d * 10 ^ (?l - k)" using assms(4) True by (auto simp: scaleBy10_def decPoint_def)
    moreover have "d * 10 ^ (?l - k) \<le> d * 10 ^ (?l - 1)" using assms k by (intro mult_le_mono power_increasing) auto
    ultimately have "b \<le> a" using le by (metis le_trans mult.commute)
    then show ?thesis using \<open>b = _\<close> assms by (simp add: div_greater_zero_iff)
  qed
next
  case False
  let ?l = "length (fmtNat ((d - 1) div n))"
  have "(d - 1) div n < 10 ^ ?l" by (rule fmtNat_upper)
  then have "d - 1 < n * 10 ^ ?l" using assms by (simp add: div_less_iff_less_mult mult.commute)
  then have "d \<le> n * 10 ^ ?l" by linarith
  moreover have "a = n * 10 ^ (k - 1 + ?l)" "b = d"
    using assms(3,4) False by (auto simp: scaleBy10_def decPoint_def nat_diff_distrib' nat_add_distrib algebra_simps)
  moreover have "n * 10 ^ ?l \<le> n * 10 ^ (k - 1 + ?l)" by (intro mult_le_mono2 power_increasing) auto
  ultimately have "b \<le> a" by (metis le_trans)
  then show ?thesis using assms \<open>b = d\<close> by (simp add: div_greater_zero_iff)
qed

lemma shortest_positive:
  assumes "m \<noteq> 0" "0 < n" "0 < d" "0 < k"
  shows "0 < fst (shortestLoop fuel (FFin False m e) n d (decPoint n d) k)"
  using assms(4)
proof (induction fuel arbitrary: k)
  case 0
  obtain a b where ab: "scaleBy10 n d (int k - decPoint n d) = (a, b)" by fastforce
  with scaled_digit_positive[OF assms(2,3) 0] show ?case by (simp add: shortestLoop.simps[of 0] Let_def)
next
  case (Suc fuel)
  obtain a b where ab: "scaleBy10 n d (int k - decPoint n d) = (a, b)" by fastforce
  with scaled_digit_positive[OF assms(2,3) Suc.prems] have "0 < a div b" .
  with ab Suc.IH[of "Suc k"] show ?case by (subst shortestLoop.simps) (simp add: Let_def)
qed

text \<open>The first byte of a rendered number other than NaN is a sign or a digit.\<close>

definition numberByte :: "char \<Rightarrow> bool" where
  "numberByte c \<longleftrightarrow> c = CHR ''-'' \<or> c = CHR ''+'' \<or> isDigit c"

lemma stripZeros_hd:
  assumes "0 < v"
  shows "stripZeros (fmtNat v) \<noteq> []" "isDigit (hd (stripZeros (fmtNat v)))"
proof -
  have "\<exists>z. fmtNat v = stripZeros (fmtNat v) @ z \<and> list_all (\<lambda>c. c = CHR ''0'') z"
    unfolding stripZeros_def
    by (intro exI[of _ "rev (takeWhile (\<lambda>c. c = CHR ''0'') (rev (fmtNat v)))"])
       (auto simp: list_all_iff dest: set_takeWhileD simp flip: rev_append simp del: rev_append)
  then obtain z where z: "fmtNat v = stripZeros (fmtNat v) @ z" "list_all (\<lambda>c. c = CHR ''0'') z" by blast
  show ne: "stripZeros (fmtNat v) \<noteq> []"
  proof
    assume "stripZeros (fmtNat v) = []"
    with z have "list_all (\<lambda>c. c = CHR ''0'') (fmtNat v)" by simp
    moreover have "list_all (\<lambda>c. c = CHR ''0'') ds \<Longrightarrow> digitsVal 0 ds = 0" for ds by (induction ds) auto
    ultimately have "digitsVal 0 (fmtNat v) = 0" by blast
    with assms show False by simp
  qed
  with z(1) fmtNat_hd_digit[of v] show "isDigit (hd (stripZeros (fmtNat v)))" by (metis hd_append2)
qed

lemma FormatFloat_hd:
  assumes "f \<noteq> FNaN"
  shows "\<exists>c cs. FormatFloat f = c # cs \<and> numberByte c"
proof (cases f)
  case FNaN
  with assms show ?thesis by simp
next
  case (FInf n)
  then show ?thesis by (simp add: numberByte_def)
next
  case (FFin neg m e)
  show ?thesis
  proof (cases "neg \<or> m = 0")
    case True
    with FFin show ?thesis by (auto simp: numberByte_def isDigit_def)
  next
    case False
    let ?n = "nat \<bar>scaled False m e\<bar>" and ?d = "2 ^ 1074 :: nat"
    obtain v k where vk: "shortestLoop 17 (FFin False m e) ?n ?d (decPoint ?n ?d) 1 = (v, k)" by fastforce
    have "0 < ?n" using False by (simp add: scaled_def)
    then have "0 < v" using shortest_positive[of m ?n ?d 1 17 e] vk False by simp
    note ds = stripZeros_hd[OF this]
    then obtain c cs where c: "stripZeros (fmtNat v) = c # cs" "isDigit c" by (cases "stripZeros (fmtNat v)") auto
    have E: "\<exists>x xs. fmtE (c # cs) y = x # xs \<and> numberByte x" for y using c(2) by (simp add: fmtE_def numberByte_def)
    have F: "\<exists>x xs. fmtF (c # cs) y = x # xs \<and> numberByte x" for y
      using c(2) by (cases "nat y") (auto simp: fmtF_def numberByte_def isDigit_def)
    have "FormatFloat f = fmtE (c # cs) (decPoint ?n ?d + (int (length (fmtNat v)) - int k) - 1) \<or>
        FormatFloat f = fmtF (c # cs) (decPoint ?n ?d + (int (length (fmtNat v)) - int k))"
      using FFin False vk c(1) by (simp add: Let_def)
    with E F show ?thesis by metis
  qed
qed

lemma FormatInt_hd: "\<exists>c cs. FormatInt i = c # cs \<and> numberByte c"
  by (cases "fmtNat (nat i)"; use fmtNat_hd_digit[of "nat i"] in \<open>auto simp: FormatInt_def numberByte_def\<close>)

lemma number_below_nil:
  assumes "numberByte c"
  shows "c # cs < ''<nil>''"
  using assms by (auto simp: numberByte_def isDigit_def less_char_def)

end
