(* ===== verification/Fold.thy ===== *)
theory Fold
  imports Go_Strings
begin

text \<open>
  \<^verbatim>\<open>internal/engine/fold.go\<close>: the ASCII case-folding helpers of the SQL front end. Loops over
  byte positions are recursions over the remaining suffix; \<open>prev\<close> is the byte before it. A
  result of -1 is \<open>None\<close>.

  The main result, \<open>indexKeyword_spec\<close>, says that the scanner finds exactly the first position
  where the keyword stands as a complete word outside quoted text.
\<close>

section \<open>Definitions\<close>

fun hasPrefixFold :: "string \<Rightarrow> string \<Rightarrow> bool" where
  "hasPrefixFold s [] \<longleftrightarrow> True"
| "hasPrefixFold [] (p # ps) \<longleftrightarrow> False"
| "hasPrefixFold (c # cs) (p # ps) \<longleftrightarrow> upcase c = p \<and> hasPrefixFold cs ps"

fun foldEqualAt :: "string \<Rightarrow> string \<Rightarrow> bool" where
  "foldEqualAt s [] \<longleftrightarrow> True"
| "foldEqualAt [] (p # ps) \<longleftrightarrow> False"
| "foldEqualAt (c # cs) (p # ps) \<longleftrightarrow> upcase c = p \<and> foldEqualAt cs ps"

fun indexFoldLoop :: "nat \<Rightarrow> string \<Rightarrow> string \<Rightarrow> nat option" where
  "indexFoldLoop i s sub =
     (if length s < length sub then None
      else if foldEqualAt s sub then Some i
      else case s of [] \<Rightarrow> None | _ # cs \<Rightarrow> indexFoldLoop (Suc i) cs sub)"

declare indexFoldLoop.simps [simp del]

definition indexFold :: "string \<Rightarrow> string \<Rightarrow> nat option" where
  "indexFold s sub =
     (if sub = [] then Some 0 else if length s < length sub then None else indexFoldLoop 0 s sub)"

definition identifierByte :: "char \<Rightarrow> bool" where
  "identifierByte c \<longleftrightarrow>
     97 \<le> byte c \<and> byte c \<le> 122 \<or> 65 \<le> byte c \<and> byte c \<le> 90 \<or>
     48 \<le> byte c \<and> byte c \<le> 57 \<or> c = CHR ''_'' \<or> 128 \<le> byte c"

text \<open>The word ends at the end of the string or before a byte that no identifier contains.\<close>

definition wordEnd :: "string \<Rightarrow> bool" where
  "wordEnd s \<longleftrightarrow> (case s of [] \<Rightarrow> True | c # _ \<Rightarrow> \<not> identifierByte c)"

fun indexKeywordLoop :: "string \<Rightarrow> bool \<Rightarrow> char option \<Rightarrow> nat \<Rightarrow> string \<Rightarrow> nat option" where
  "indexKeywordLoop kw quoted prev i s =
     (if length s < length kw then None
      else case s of
        [] \<Rightarrow> None
      | c # cs \<Rightarrow>
          if c = CHR 0x27 then
            (case cs of
               d # ds \<Rightarrow>
                 if quoted \<and> d = CHR 0x27 then indexKeywordLoop kw quoted (Some d) (i + 2) ds
                 else indexKeywordLoop kw (\<not> quoted) (Some c) (i + 1) cs
             | [] \<Rightarrow> indexKeywordLoop kw (\<not> quoted) (Some c) (i + 1) cs)
          else if quoted \<or> (case prev of None \<Rightarrow> False | Some p \<Rightarrow> identifierByte p) then
            indexKeywordLoop kw quoted (Some c) (i + 1) cs
          else if foldEqualAt s kw \<and> wordEnd (drop (length kw) s) then Some i
          else indexKeywordLoop kw quoted (Some c) (i + 1) cs)"

declare indexKeywordLoop.simps [simp del]

definition indexKeyword :: "string \<Rightarrow> string \<Rightarrow> nat option" where
  "indexKeyword s keyword = indexKeywordLoop keyword False None 0 s"

text \<open>\<^verbatim>\<open>strings.IndexFunc(s, unicode.IsSpace)\<close> on a trimmed string, then the part before it.\<close>

fun untilSpace :: "string \<Rightarrow> string" where
  "untilSpace s = (case s of [] \<Rightarrow> [] | c # cs \<Rightarrow> if spaceLen multiSpaces s > 0 then [] else c # untilSpace cs)"

declare untilSpace.simps [simp del]

definition firstField :: "string \<Rightarrow> string option" where
  "firstField s = (let t = TrimSpace s in if t = [] then None else Some (untilSpace t))"

section \<open>Case folding\<close>

lemma foldEqualAt_eq: "foldEqualAt s kw = hasPrefixFold s kw"
  by (induction s kw rule: foldEqualAt.induct) auto

lemma hasPrefixFold_iff: "hasPrefixFold s p \<longleftrightarrow> length p \<le> length s \<and> map upcase (take (length p) s) = p"
  by (induction s p rule: hasPrefixFold.induct) auto

lemma foldEqualAt_length: "foldEqualAt s kw \<Longrightarrow> length kw \<le> length s"
  by (simp add: foldEqualAt_eq hasPrefixFold_iff)

lemma byte_upcase: "byte (upcase c) = (if 97 \<le> byte c \<and> byte c \<le> 122 then byte c - 32 else byte c)"
  by (auto simp: upcase_def of_char_of intro!: mod_less)

lemma upcase_idem [simp]: "upcase (upcase c) = upcase c"
  by (subst upcase_def) (auto simp: byte_upcase)

lemma upcase_quote [simp]: "upcase (CHR 0x27) = CHR 0x27"
  by (simp add: upcase_def)

lemma upcase_eq_quote [simp]: "upcase c = CHR 0x27 \<longleftrightarrow> c = CHR 0x27"
proof
  assume "upcase c = CHR 0x27"
  then have "byte (upcase c) = 39" by simp
  then have "byte c = byte (CHR 0x27)" by (auto simp: byte_upcase split: if_splits)
  then show "c = CHR 0x27" by (metis char_of_char)
qed simp

lemma quote_not_identifier [simp]: "\<not> identifierByte (CHR 0x27)"
  by (simp add: identifierByte_def)

section \<open>The keyword scanner\<close>

text \<open>
  What it means that the keyword stands at position \<open>i\<close>: outside quotes (an even number of
  quote bytes before it; the escape of a quote inside a literal adds two), matching under
  folding, and with no identifier byte on either side.
\<close>

definition keywordAt :: "string \<Rightarrow> string \<Rightarrow> nat \<Rightarrow> bool" where
  "keywordAt kw s i \<longleftrightarrow>
     i + length kw \<le> length s \<and> even (count_list (take i s) (CHR 0x27)) \<and>
     (i = 0 \<or> \<not> identifierByte (s ! (i - 1))) \<and>
     foldEqualAt (drop i s) kw \<and> wordEnd (drop (i + length kw) s)"

lemma keywordAt_not_quote:
  assumes "keywordAt kw s i" "kw \<noteq> []" "CHR 0x27 \<notin> set kw"
  shows "i < length s" "s ! i \<noteq> CHR 0x27"
proof -
  from assms show "i < length s" by (auto simp: keywordAt_def neq_Nil_conv)
  then obtain c cs where c: "drop i s = c # cs" "s ! i = c" by (metis Cons_nth_drop_Suc)
  from assms obtain k ks where k: "kw = k # ks" by (cases kw) auto
  with c assms(1) have "upcase c = k" by (simp add: keywordAt_def)
  with assms(3) k c(2) show "s ! i \<noteq> CHR 0x27" by auto
qed

text \<open>The loop's state after reading \<open>pre\<close> with \<open>rest\<close> to come.\<close>

lemma indexKeywordLoop_correct:
  assumes "kw \<noteq> []" "CHR 0x27 \<notin> set kw"
    and "s = pre @ rest" "i = length pre"
    and "quoted = odd (count_list pre (CHR 0x27))"
    and "prev = (if pre = [] then None else Some (last pre))"
  shows "indexKeywordLoop kw quoted prev i rest
         = find (keywordAt kw s) [i..<Suc (length s) - length kw]"
  using assms
proof (induction kw quoted prev i rest arbitrary: pre rule: indexKeywordLoop.induct)
  case (1 kw quoted prev i rest)
  let ?P = "keywordAt kw s" and ?n = "Suc (length s) - length kw"
  have len: "length s = i + length rest" using "1.prems"(3,4) by simp
  show ?case
  proof (cases "length rest < length kw")
    case True
    with len show ?thesis by (simp add: indexKeywordLoop.simps)
  next
    case False
    with "1.prems"(1) obtain c cs where rest: "rest = c # cs" by (cases rest; cases kw) auto
    from False len have upt: "[i..<?n] = i # [Suc i..<?n]"
      by (intro upt_conv_Cons) simp
    have si: "s ! i = c" using "1.prems"(3,4) rest by simp
    have step: "find ?P [i..<?n] = (if ?P i then Some i else find ?P [Suc i..<?n])"
      by (simp add: upt)
    show ?thesis
    proof (cases "c = CHR 0x27")
      case q: True
      then have no: "\<not> ?P i" using keywordAt_not_quote(2) "1.prems"(1,2) si by blast
      show ?thesis
      proof (cases "\<exists>ds. quoted \<and> cs = CHR 0x27 # ds")
        case True
        then obtain ds where ds: "quoted" "cs = CHR 0x27 # ds" by blast
        have si': "s ! Suc i = CHR 0x27" using "1.prems"(3,4) rest ds by (simp add: nth_append)
        then have no': "\<not> ?P (Suc i)" using keywordAt_not_quote(2) "1.prems"(1,2) by blast
        have IH: "indexKeywordLoop kw quoted (Some (CHR 0x27)) (i + 2) ds = find ?P [i + 2..<?n]"
          using "1.IH"(2)[OF _ rest q ds(2), of "pre @ [c, CHR 0x27]"] "1.prems" False rest q ds by simp
        have "find ?P [Suc i..<?n] = find ?P [i + 2..<?n]"
          using no' by (cases "Suc i < ?n") (auto simp: upt_conv_Cons)
        moreover have "indexKeywordLoop kw quoted prev i rest
            = indexKeywordLoop kw quoted (Some (CHR 0x27)) (i + 2) ds"
          using False rest q ds by (subst indexKeywordLoop.simps) simp
        ultimately show ?thesis using IH step no by simp
      next
        case f: False
        have IH: "indexKeywordLoop kw (\<not> quoted) (Some c) (i + 1) cs = find ?P [i + 1..<?n]"
        proof (cases cs)
          case Nil
          then show ?thesis
            using "1.IH"(1)[OF _ rest q Nil, of "pre @ [c]"] "1.prems" False rest q by simp
        next
          case (Cons d ds)
          then show ?thesis
            using "1.IH"(3)[OF _ rest q Cons, of "pre @ [c]"] "1.prems" False rest q f by simp
        qed
        moreover have "indexKeywordLoop kw quoted prev i rest
            = indexKeywordLoop kw (\<not> quoted) (Some c) (i + 1) cs"
          using False rest q f by (subst indexKeywordLoop.simps) (auto split: list.splits)
        ultimately show ?thesis using step no by simp
      qed
    next
      case nq: False
      let ?idp = "case prev of None \<Rightarrow> False | Some p \<Rightarrow> identifierByte p"
      have P: "?P i \<longleftrightarrow> \<not> quoted \<and> \<not> ?idp \<and> foldEqualAt rest kw \<and> wordEnd (drop (length kw) rest)"
        using "1.prems"(3-6) False
        by (auto simp: keywordAt_def last_conv_nth nth_append)
      have IH: "indexKeywordLoop kw quoted (Some c) (i + 1) cs = find ?P [i + 1..<?n]" if "\<not> ?P i"
      proof (cases "quoted \<or> ?idp")
        case True
        then show ?thesis
          using "1.IH"(4)[OF _ rest nq True, of "pre @ [c]"] "1.prems" False rest nq by simp
      next
        case f: False
        then have "\<not> (foldEqualAt rest kw \<and> wordEnd (drop (length kw) rest))" using that P by simp
        then show ?thesis
          using "1.IH"(5)[OF _ rest nq f, of "pre @ [c]"] "1.prems" False rest nq by simp
      qed
      have "indexKeywordLoop kw quoted prev i rest
          = (if ?P i then Some i else indexKeywordLoop kw quoted (Some c) (i + 1) cs)"
        using P False rest nq by (subst indexKeywordLoop.simps) auto
      with step IH show ?thesis by simp
    qed
  qed
qed

lemma indexKeyword_find:
  assumes "kw \<noteq> []" "CHR 0x27 \<notin> set kw"
  shows "indexKeyword s kw = find (keywordAt kw s) [0..<Suc (length s) - length kw]"
  using indexKeywordLoop_correct[OF assms, of s "[]" s 0 False None]
  by (simp add: indexKeyword_def)

lemma find_upt_Some_iff:
  "find P [0..<n] = Some i \<longleftrightarrow> i < n \<and> P i \<and> (\<forall>j<i. \<not> P j)"
proof -
  have "find P [0..<n] = Some i \<longleftrightarrow> (\<exists>k<n. P k \<and> i = k \<and> (\<forall>j<k. \<not> P j))"
    by (auto simp: find_Some_iff)
  then show ?thesis by blast
qed

lemma indexKeyword_Some:
  assumes "indexKeyword s kw = Some i" "kw \<noteq> []" "CHR 0x27 \<notin> set kw"
  shows "keywordAt kw s i" "\<forall>j<i. \<not> keywordAt kw s j"
  using assms by (auto simp: indexKeyword_find find_upt_Some_iff)

lemma indexKeyword_None_iff:
  assumes "kw \<noteq> []" "CHR 0x27 \<notin> set kw"
  shows "indexKeyword s kw = None \<longleftrightarrow> (\<forall>i. \<not> keywordAt kw s i)"
  using assms by (auto simp: indexKeyword_find find_None_iff keywordAt_def)

section \<open>Properties\<close>

text \<open>
  The keyword scanner returns the first position at which the keyword stands as a whole word
  outside quoted text, and -1 exactly when there is none.
\<close>

theorem indexKeyword_spec:
  assumes "kw \<noteq> []" "CHR 0x27 \<notin> set kw"
  shows "(indexKeyword s kw = Some i \<longleftrightarrow> keywordAt kw s i \<and> (\<forall>j<i. \<not> keywordAt kw s j)) \<and>
    (indexKeyword s kw = None \<longleftrightarrow> (\<forall>j. \<not> keywordAt kw s j))"
proof -
  have "indexKeyword s kw = Some i" if k: "keywordAt kw s i" "\<forall>j<i. \<not> keywordAt kw s j"
  proof (cases "indexKeyword s kw")
    case None
    with indexKeyword_None_iff[OF assms] k(1) show ?thesis by blast
  next
    case (Some n)
    with indexKeyword_Some[OF Some assms] k have "n = i" by (metis linorder_neqE_nat)
    with Some show ?thesis by simp
  qed
  with indexKeyword_Some[OF _ assms] indexKeyword_None_iff[OF assms] show ?thesis by blast
qed

theorem indexKeyword_spec_witness:
  "indexKeyword ''a where b'' ''WHERE'' = Some 2 \<and> keywordAt ''WHERE'' ''a where b'' 2"
proof -
  have i: "indexKeyword ''a where b'' ''WHERE'' = Some 2" by code_simp
  have "(indexKeyword ''a where b'' ''WHERE'' = Some 2 \<longleftrightarrow>
      keywordAt ''WHERE'' ''a where b'' 2 \<and> (\<forall>j<2. \<not> keywordAt ''WHERE'' ''a where b'' j)) \<and>
    (indexKeyword ''a where b'' ''WHERE'' = None \<longleftrightarrow> (\<forall>j. \<not> keywordAt ''WHERE'' ''a where b'' j))"
    by (rule indexKeyword_spec) simp_all
  with i show ?thesis by simp
qed

end
