(* ===== verification/Types.thy ===== *)
theory Types
  imports Go_Float Fold
begin

text \<open>
  The data of the engine (\<^verbatim>\<open>internal/engine/types.go\<close>) and the helpers on values, columns and
  index entries of \<^verbatim>\<open>internal/engine/schema.go\<close>.

  A stored value is a Go \<^verbatim>\<open>any\<close>. \<open>VGoInt\<close> is a Go \<^verbatim>\<open>int\<close>, the type of COUNT results,
  which type switches tell apart from \<^verbatim>\<open>int64\<close> (\<open>VInt\<close>); \<open>VList\<close> is the \<^verbatim>\<open>[]any\<close> operand of IN
  and BETWEEN. \<^verbatim>\<open>int64\<close> values are integers: no arithmetic is done on them, and parsing checks
  their range.

  Mutexes are left out: every statement runs under \<^verbatim>\<open>commitMu\<close>, \<^verbatim>\<open>gate\<close> and the table lock, so
  a statement is one step of the model.
\<close>

section \<open>Values, columns, tables\<close>

datatype goval =
    VNil
  | VInt int
  | VFloat float64
  | VStr string
  | VBool bool
  | VGoInt int
  | VList "goval list"

datatype coltype = TInt | TFloat | TText | TBool | TOther string

record column =
  cName :: string
  cType :: coltype
  cPrimary :: bool

type_synonym row = "(string, goval) gomap"

record fastRow =
  fkey :: string
  fvalues :: "goval list"

record table =
  tName :: string
  Columns :: "column list"
  Rows :: "(string, row) gomap"
  Order :: "string list"
  Indexes :: "(string, (string, string list) gomap) gomap"
  IndexNames :: "(string, string) gomap"
  fast :: "fastRow list"
  colpos :: "(string, nat) gomap"
  fastPos :: "(string, nat) gomap"
  dead :: nat
  fastDead :: nat
  autoKey :: "64 word"

record database =
  Tables :: "(string, table) gomap"
  revision :: "64 word"
  baseRevision :: "64 word"

record result =
  resColumns :: "string list"
  resRows :: "goval list list"
  Affected :: nat
  Message :: string

definition noResult :: result where
  "noResult = \<lparr>resColumns = [], resRows = [], Affected = 0, Message = []\<rparr>"

definition affected :: "nat \<Rightarrow> result" where
  "affected n = noResult\<lparr>Affected := n\<rparr>"

definition message :: "string \<Rightarrow> result" where
  "message m = noResult\<lparr>Message := m\<rparr>"

text \<open>\<^verbatim>\<open>row[name]\<close>: a missing key reads as nil.\<close>

definition rget :: "row \<Rightarrow> string \<Rightarrow> goval" where
  "rget row c = (case mget row c of None \<Rightarrow> VNil | Some v \<Rightarrow> v)"

fun primaryOf :: "column list \<Rightarrow> string" where
  "primaryOf [] = []"
| "primaryOf (c # cs) = (if cPrimary c then cName c else primaryOf cs)"

definition primaryColumn :: "table \<Rightarrow> string" where
  "primaryColumn t = primaryOf (Columns t)"

fun hasPrimaryColumn :: "column list \<Rightarrow> bool" where
  "hasPrimaryColumn [] \<longleftrightarrow> False"
| "hasPrimaryColumn (c # cs) \<longleftrightarrow> (if cPrimary c then True else hasPrimaryColumn cs)"

fun hasColumn :: "column list \<Rightarrow> string \<Rightarrow> bool" where
  "hasColumn [] name \<longleftrightarrow> False"
| "hasColumn (c # cs) name \<longleftrightarrow> (if cName c = name then True else hasColumn cs name)"

text \<open>The table literal of CREATE TABLE, and an empty database (\<^verbatim>\<open>New\<close>).\<close>

definition newTable :: "string \<Rightarrow> column list \<Rightarrow> table" where
  "newTable name cols =
     \<lparr>tName = name, Columns = cols, Rows = [], Order = [], Indexes = [], IndexNames = [], fast = [],
      colpos = [], fastPos = [], dead = 0, fastDead = 0, autoKey = 0\<rparr>"

definition newDatabase :: database where
  "newDatabase = \<lparr>Tables = [], revision = 0, baseRevision = 0\<rparr>"

text \<open>\<^verbatim>\<open>Database.table\<close>: table names are case-insensitive.\<close>

definition table_lookup :: "database \<Rightarrow> string \<Rightarrow> table res" where
  "table_lookup d name =
     (case mget (Tables d) (ToLower name) of None \<Rightarrow> Inl (Msg ''table not found'') | Some t \<Rightarrow> Inr t)"

definition setTable :: "database \<Rightarrow> string \<Rightarrow> table \<Rightarrow> database" where
  "setTable d name t = d\<lparr>Tables := mset_at (Tables d) (ToLower name) t\<rparr>"

section \<open>Rendering values\<close>

text \<open>\<^verbatim>\<open>fmt.Sprint\<close> of one value.\<close>

fun joinSpace :: "string list \<Rightarrow> string" where
  "joinSpace [] = []"
| "joinSpace [w] = w"
| "joinSpace (w # ws) = w @ '' '' @ joinSpace ws"

fun Sprint :: "goval \<Rightarrow> string" where
  "Sprint VNil = ''<nil>''"
| "Sprint (VInt i) = FormatInt i"
| "Sprint (VFloat f) = FormatFloat f"
| "Sprint (VStr s) = s"
| "Sprint (VBool b) = (if b then ''true'' else ''false'')"
| "Sprint (VGoInt i) = FormatInt i"
| "Sprint (VList vs) = ''['' @ joinSpace (map Sprint vs) @ '']''"

fun valueKey :: "goval \<Rightarrow> string" where
  "valueKey (VInt i) = FormatInt i"
| "valueKey (VFloat f) = FormatFloat f"
| "valueKey (VStr s) = s"
| "valueKey (VBool b) = (if b then ''true'' else ''false'')"
| "valueKey VNil = ''NULL''"
| "valueKey v = Sprint v"

section \<open>Secondary indexes\<close>

definition addIndexValue :: "string \<Rightarrow> string \<Rightarrow> string \<Rightarrow> table \<Rightarrow> table" where
  "addIndexValue column val primary t =
     (case mget (Indexes t) column of
        None \<Rightarrow> t
      | Some idx \<Rightarrow>
          let bucket = (case mget idx val of None \<Rightarrow> [] | Some b \<Rightarrow> b)
          in t\<lparr>Indexes := mset_at (Indexes t) column (mset_at idx val (sadd bucket primary))\<rparr>)"

definition removeIndexValue :: "string \<Rightarrow> string \<Rightarrow> string \<Rightarrow> table \<Rightarrow> table" where
  "removeIndexValue column val primary t =
     (case mget (Indexes t) column of
        None \<Rightarrow> t
      | Some idx \<Rightarrow>
          let bucket = sdel (case mget idx val of None \<Rightarrow> [] | Some b \<Rightarrow> b) primary
          in t\<lparr>Indexes := mset_at (Indexes t) column
                 (if bucket = [] then mdel idx val else mset_at idx val bucket)\<rparr>)"

text \<open>
  The loops \<^verbatim>\<open>for column := range t.Indexes\<close> that take a row out of every index, or put it in.
\<close>

definition indexRow :: "string \<Rightarrow> row \<Rightarrow> table \<Rightarrow> table" where
  "indexRow key row t = fold (\<lambda>c. addIndexValue c (valueKey (rget row c)) key) (mkeys (Indexes t)) t"

definition unindexRow :: "string \<Rightarrow> row \<Rightarrow> table \<Rightarrow> table" where
  "unindexRow key row t = fold (\<lambda>c. removeIndexValue c (valueKey (rget row c)) key) (mkeys (Indexes t)) t"

text \<open>The keys an index holds under a value of a column.\<close>

definition bucketOf :: "table \<Rightarrow> string \<Rightarrow> string \<Rightarrow> string list" where
  "bucketOf t column val =
     (case mget (Indexes t) column of
        None \<Rightarrow> []
      | Some idx \<Rightarrow> (case mget idx val of None \<Rightarrow> [] | Some b \<Rightarrow> b))"

section \<open>Lemmas on columns\<close>

text \<open>A lookup stays a lookup: the library would turn it into membership of the pair.\<close>

declare map_of_eq_Some_iff [simp del] Some_eq_map_of_iff [simp del]

lemma hasPrimaryColumn_iff: "hasPrimaryColumn cs \<longleftrightarrow> (\<exists>c \<in> set cs. cPrimary c)"
  by (induction cs) auto

lemma hasColumn_iff: "hasColumn cs name \<longleftrightarrow> name \<in> set (map cName cs)"
  by (induction cs) auto

lemma primaryOf_in: "hasPrimaryColumn cs \<Longrightarrow> \<exists>c \<in> set cs. cPrimary c \<and> cName c = primaryOf cs"
  by (induction cs) auto

lemma primaryOf_none: "\<not> hasPrimaryColumn cs \<Longrightarrow> primaryOf cs = []"
  by (induction cs) (auto split: if_splits)

section \<open>Lemmas on index entries\<close>

text \<open>Everything but the index is left alone: one bundle for the component proofs.\<close>

lemma addIndexValue_frame [simp]:
  "tName (addIndexValue c v k t) = tName t" "Columns (addIndexValue c v k t) = Columns t"
  "Rows (addIndexValue c v k t) = Rows t" "Order (addIndexValue c v k t) = Order t"
  "IndexNames (addIndexValue c v k t) = IndexNames t" "fast (addIndexValue c v k t) = fast t"
  "colpos (addIndexValue c v k t) = colpos t" "fastPos (addIndexValue c v k t) = fastPos t"
  "dead (addIndexValue c v k t) = dead t" "fastDead (addIndexValue c v k t) = fastDead t"
  "autoKey (addIndexValue c v k t) = autoKey t"
  by (simp_all add: addIndexValue_def Let_def split: option.splits)

lemma removeIndexValue_frame [simp]:
  "tName (removeIndexValue c v k t) = tName t" "Columns (removeIndexValue c v k t) = Columns t"
  "Rows (removeIndexValue c v k t) = Rows t" "Order (removeIndexValue c v k t) = Order t"
  "IndexNames (removeIndexValue c v k t) = IndexNames t" "fast (removeIndexValue c v k t) = fast t"
  "colpos (removeIndexValue c v k t) = colpos t" "fastPos (removeIndexValue c v k t) = fastPos t"
  "dead (removeIndexValue c v k t) = dead t" "fastDead (removeIndexValue c v k t) = fastDead t"
  "autoKey (removeIndexValue c v k t) = autoKey t"
  by (simp_all add: removeIndexValue_def Let_def split: option.splits)

lemma mkeys_Indexes_add [simp]: "mkeys (Indexes (addIndexValue c v k t)) = mkeys (Indexes t)"
  by (auto simp: addIndexValue_def Let_def mkeys_update_present split: option.splits)

lemma mkeys_Indexes_remove [simp]: "mkeys (Indexes (removeIndexValue c v k t)) = mkeys (Indexes t)"
  by (auto simp: removeIndexValue_def Let_def mkeys_update_present split: option.splits)

lemma bucketOf_unindexed: "\<not> mhas (Indexes t) c \<Longrightarrow> bucketOf t c v = []"
  by (simp add: bucketOf_def)

lemma set_bucketOf_add:
  "set (bucketOf (addIndexValue c v k t) c' v') =
     (if c' = c \<and> v' = v \<and> mhas (Indexes t) c then insert k (set (bucketOf t c v))
      else set (bucketOf t c' v'))"
  by (auto simp: bucketOf_def addIndexValue_def Let_def gomap_simps split: option.splits if_splits)

lemma set_bucketOf_remove:
  "set (bucketOf (removeIndexValue c v k t) c' v') =
     (if c' = c \<and> v' = v then set (bucketOf t c v) - {k} else set (bucketOf t c' v'))"
proof (cases "mget (Indexes t) c")
  case (Some idx)
  let ?b = "case mget idx v of None \<Rightarrow> [] | Some b \<Rightarrow> b"
  have "set (sdel ?b k) = set ?b - {k}" by simp
  then have "sdel ?b k = [] \<longleftrightarrow> set ?b - {k} = {}" by (metis set_empty)
  with Some show ?thesis
    by (auto simp: bucketOf_def removeIndexValue_def Let_def gomap_simps)
qed (auto simp: bucketOf_def removeIndexValue_def)

text \<open>The maps of an index have distinct keys, and no bucket holds a key twice or is empty.\<close>

definition idx_ok :: "(string, string list) gomap \<Rightarrow> bool" where
  "idx_ok idx \<longleftrightarrow> mwf idx \<and> (\<forall>v b. mget idx v = Some b \<longrightarrow> distinct b \<and> b \<noteq> [])"

definition idx_shape :: "table \<Rightarrow> bool" where
  "idx_shape t \<longleftrightarrow> mwf (Indexes t) \<and> (\<forall>c idx. mget (Indexes t) c = Some idx \<longrightarrow> idx_ok idx)"

lemma sadd_nonempty [simp]: "sadd xs x \<noteq> []"
  by (auto simp: sadd_def)

lemma idx_shape_set: "idx_shape t \<Longrightarrow> idx_ok idx \<Longrightarrow> idx_shape (t\<lparr>Indexes := mset_at (Indexes t) c idx\<rparr>)"
  unfolding idx_shape_def by (auto simp: gomap_simps split: if_splits)

lemma idx_ok_set: "idx_ok idx \<Longrightarrow> distinct b \<Longrightarrow> b \<noteq> [] \<Longrightarrow> idx_ok (mset_at idx v b)"
  unfolding idx_ok_def by (auto simp: gomap_simps split: if_splits)

lemma idx_ok_del: "idx_ok idx \<Longrightarrow> idx_ok (mdel idx v)"
  unfolding idx_ok_def by (auto simp: gomap_simps split: if_splits)

lemma idx_ok_bucket: "idx_ok idx \<Longrightarrow> distinct (case mget idx v of None \<Rightarrow> [] | Some b \<Rightarrow> b)"
  unfolding idx_ok_def by (cases "mget idx v") auto

lemma idx_shape_add: "idx_shape t \<Longrightarrow> idx_shape (addIndexValue c v k t)"
  by (cases "mget (Indexes t) c")
     (auto simp: addIndexValue_def Let_def idx_shape_def[of t]
       intro!: idx_shape_set idx_ok_set distinct_sadd idx_ok_bucket)

lemma idx_shape_remove: "idx_shape t \<Longrightarrow> idx_shape (removeIndexValue c v k t)"
  by (cases "mget (Indexes t) c")
     (auto simp: removeIndexValue_def Let_def idx_shape_def[of t]
       intro!: idx_shape_set idx_ok_set idx_ok_del distinct_sdel idx_ok_bucket)

lemma idx_shape_cong: "Indexes t' = Indexes t \<Longrightarrow> idx_shape t' = idx_shape t"
  by (simp add: idx_shape_def)

lemma addIndexValue_upd: "\<exists>ix. addIndexValue c v k t = t\<lparr>Indexes := ix\<rparr>"
  by (cases "mget (Indexes t) c") (auto simp: addIndexValue_def Let_def intro: exI[of _ "Indexes t"])

lemma removeIndexValue_upd: "\<exists>ix. removeIndexValue c v k t = t\<lparr>Indexes := ix\<rparr>"
  by (cases "mget (Indexes t) c") (auto simp: removeIndexValue_def Let_def intro: exI[of _ "Indexes t"])

text \<open>The loops over all indexes.\<close>

lemma fold_upd:
  assumes "\<And>c t. \<exists>ix. f c t = t\<lparr>Indexes := ix\<rparr>"
  shows "\<exists>ix. fold f cs t = t\<lparr>Indexes := ix\<rparr>"
proof (induction cs arbitrary: t)
  case Nil
  show ?case by (auto intro: exI[of _ "Indexes t"])
next
  case (Cons c cs)
  obtain ix where "f c t = t\<lparr>Indexes := ix\<rparr>" using assms by blast
  moreover obtain iy where "fold f cs (f c t) = (f c t)\<lparr>Indexes := iy\<rparr>" using Cons by blast
  ultimately show ?case by auto
qed

lemma indexRow_upd: "\<exists>ix. indexRow key row t = t\<lparr>Indexes := ix\<rparr>"
  unfolding indexRow_def by (rule fold_upd) (rule addIndexValue_upd)

lemma unindexRow_upd: "\<exists>ix. unindexRow key row t = t\<lparr>Indexes := ix\<rparr>"
  unfolding unindexRow_def by (rule fold_upd) (rule removeIndexValue_upd)

lemma mkeys_fold_add: "mkeys (Indexes (fold (\<lambda>c. addIndexValue c (f c) k) cs t)) = mkeys (Indexes t)"
  by (induction cs arbitrary: t) (auto simp del: set_map)

lemma mkeys_fold_remove: "mkeys (Indexes (fold (\<lambda>c. removeIndexValue c (f c) k) cs t)) = mkeys (Indexes t)"
  by (induction cs arbitrary: t) auto

lemma mkeys_indexRow [simp]: "mkeys (Indexes (indexRow key row t)) = mkeys (Indexes t)"
  by (simp add: indexRow_def mkeys_fold_add)

lemma mkeys_unindexRow [simp]: "mkeys (Indexes (unindexRow key row t)) = mkeys (Indexes t)"
  by (simp add: unindexRow_def mkeys_fold_remove)

lemma idx_shape_indexRow:
  assumes "idx_shape t"
  shows "idx_shape (indexRow key row t)"
proof -
  have "idx_shape (fold (\<lambda>c. addIndexValue c (f c) key) cs t)" for f cs
    using assms by (induction cs arbitrary: t) (auto intro: idx_shape_add)
  then show ?thesis by (simp add: indexRow_def)
qed

lemma idx_shape_unindexRow:
  assumes "idx_shape t"
  shows "idx_shape (unindexRow key row t)"
proof -
  have "idx_shape (fold (\<lambda>c. removeIndexValue c (f c) key) cs t)" for f cs
    using assms by (induction cs arbitrary: t) (auto intro: idx_shape_remove)
  then show ?thesis by (simp add: unindexRow_def)
qed

lemma mhas_Indexes_add [simp]: "mget (Indexes (addIndexValue c v k t)) c' = None \<longleftrightarrow> mget (Indexes t) c' = None"
  by (simp only: mget_None_iff mkeys_Indexes_add)

lemma bucketOf_indexRow:
  "set (bucketOf (indexRow key row t) c v) =
     (if mhas (Indexes t) c \<and> v = valueKey (rget row c) then insert key (set (bucketOf t c v))
      else set (bucketOf t c v))"
proof -
  have "set (bucketOf (fold (\<lambda>c. addIndexValue c (f c) key) cs t) c v) =
     (if c \<in> set cs \<and> mhas (Indexes t) c \<and> v = f c then insert key (set (bucketOf t c v))
      else set (bucketOf t c v))" for f cs
  proof (induction cs arbitrary: t)
    case (Cons d cs)
    show ?case unfolding List.fold_simps(2) Cons set_bucketOf_add mhas_Indexes_add by auto
  qed simp
  then show ?thesis by (auto simp: indexRow_def mget_ex_iff)
qed

lemma bucketOf_unindexRow:
  "set (bucketOf (unindexRow key row t) c v) =
     (if v = valueKey (rget row c) then set (bucketOf t c v) - {key} else set (bucketOf t c v))"
proof -
  have "set (bucketOf (fold (\<lambda>c. removeIndexValue c (f c) key) cs t) c v) =
     (if c \<in> set cs \<and> v = f c then set (bucketOf t c v) - {key} else set (bucketOf t c v))" for f cs
  proof (induction cs arbitrary: t)
    case (Cons d cs)
    show ?case unfolding List.fold_simps(2) Cons set_bucketOf_remove by auto
  qed simp
  moreover have "c \<notin> set (mkeys (Indexes t)) \<Longrightarrow> bucketOf t c v = []"
    by (rule bucketOf_unindexed) (simp add: mget_ex_iff)
  ultimately show ?thesis by (auto simp: unindexRow_def)
qed

end
