(* ===== verification/Fastpath.thy ===== *)
theory Fastpath
  imports Types
begin

text \<open>
  \<^verbatim>\<open>internal/engine/fastpath.go\<close>: the positional copy of a large table (\<open>fast\<close>, \<open>colpos\<close>,
  \<open>fastPos\<close>, \<open>fastDead\<close>), tombstone compaction of \<open>Order\<close>, and synthetic row keys.

  The theory also states the invariant of a table. \<open>wf_rows\<close> ties \<open>Order\<close> and \<open>dead\<close> to \<open>Rows\<close>;
  \<open>fast_ok\<close> says that the fast array, when there is one, shows the same rows in the same order
  as a scan of \<open>Order\<close>; \<open>wf_index\<close> says that a bucket of a secondary index holds exactly the
  keys of the rows with that value. Updates of the fast array are list updates, which ignore an
  index out of range where Go would panic; \<open>fast_ok\<close> keeps every such index in range.
\<close>

section \<open>Operations\<close>

definition fastPathThreshold :: nat where
  "fastPathThreshold = 256"

definition noFast :: "table \<Rightarrow> table" where
  "noFast t = t\<lparr>fast := [], colpos := [], fastPos := [], fastDead := 0\<rparr>"

definition fastValues :: "column list \<Rightarrow> row \<Rightarrow> goval list" where
  "fastValues cols row = map (\<lambda>c. rget row (cName c)) cols"

fun columnIndexes :: "nat \<Rightarrow> column list \<Rightarrow> (string, nat) gomap \<Rightarrow> (string, nat) gomap" where
  "columnIndexes i [] m = m"
| "columnIndexes i (c # cs) m = columnIndexes (Suc i) cs (mset_at m (cName c) i)"

fun rebuildLoop ::
  "table \<Rightarrow> string list \<Rightarrow> fastRow list \<Rightarrow> (string, nat) gomap \<Rightarrow> fastRow list \<times> (string, nat) gomap" where
  "rebuildLoop t [] acc pos = (acc, pos)"
| "rebuildLoop t (key # keys) acc pos =
     (case mget (Rows t) key of
        None \<Rightarrow> rebuildLoop t keys acc pos
      | Some row \<Rightarrow>
          rebuildLoop t keys (acc @ [\<lparr>fkey = key, fvalues = fastValues (Columns t) row\<rparr>])
            (mset_at pos key (length acc)))"

definition rebuildFastPathLocked :: "table \<Rightarrow> table" where
  "rebuildFastPathLocked t =
     (if length (Order t) < fastPathThreshold then noFast t
      else let (fs, pos) = rebuildLoop t (Order t) [] []
           in t\<lparr>colpos := columnIndexes 0 (Columns t) [], fast := fs, fastPos := pos, fastDead := 0\<rparr>)"

definition appendFastRowLocked :: "string \<Rightarrow> row \<Rightarrow> table \<Rightarrow> table" where
  "appendFastRowLocked key row t =
     (if length (Order t) < fastPathThreshold then t
      else if fast t = [] \<or> length (fast t) + 1 \<noteq> length (Order t) then rebuildFastPathLocked t
      else t\<lparr>fast := fast t @ [\<lparr>fkey = key, fvalues = fastValues (Columns t) row\<rparr>],
             fastPos := mset_at (fastPos t) key (length (fast t))\<rparr>)"

definition removeFastRowLocked :: "string \<Rightarrow> table \<Rightarrow> table" where
  "removeFastRowLocked key t =
     (if fast t = [] then t
      else if length (Order t) < fastPathThreshold then noFast t
      else case mget (fastPos t) key of
        None \<Rightarrow> t
      | Some i \<Rightarrow>
          t\<lparr>fast := (fast t)[i := \<lparr>fkey = [], fvalues = []\<rparr>], fastPos := mdel (fastPos t) key,
            fastDead := fastDead t + 1\<rparr>)"

definition compactOrderLocked :: "table \<Rightarrow> table" where
  "compactOrderLocked t =
     (if Order t = [] then t\<lparr>dead := 0\<rparr>
      else if dead t * 4 < length (Order t) then t
      else let t' = t\<lparr>Order := filter (\<lambda>k. mhas (Rows t) k) (Order t), dead := 0\<rparr>
           in if fast t \<noteq> [] then rebuildFastPathLocked t' else t')"

text \<open>
  \<^verbatim>\<open>nextSyntheticKeyLocked\<close> tries \<^verbatim>\<open>#0\<close>, \<^verbatim>\<open>#1\<close>, \<dots> from the \<^verbatim>\<open>uint64\<close> counter on. The
  loop has no bound in the source; one round more than there are rows is enough
  (\<open>nextSyntheticKey_total\<close>).
\<close>

fun syntheticKeyLoop :: "nat \<Rightarrow> table \<Rightarrow> (string \<times> table) option" where
  "syntheticKeyLoop 0 t = None"
| "syntheticKeyLoop (Suc fuel) t =
     (let key = CHR ''#'' # fmtNat (unat (autoKey t)); t' = t\<lparr>autoKey := autoKey t + 1\<rparr>
      in if mhas (Rows t) key then syntheticKeyLoop fuel t' else Some (key, t'))"

definition nextSyntheticKeyLocked :: "table \<Rightarrow> (string \<times> table) option" where
  "nextSyntheticKeyLocked t = syntheticKeyLoop (Suc (length (Rows t))) t"

definition replaceFastRowLocked :: "string \<Rightarrow> row \<Rightarrow> table \<Rightarrow> table" where
  "replaceFastRowLocked key row t =
     (if fast t = [] then t
      else case mget (fastPos t) key of
        None \<Rightarrow> t
      | Some i \<Rightarrow> t\<lparr>fast := (fast t)[i := (fast t ! i)\<lparr>fvalues := fastValues (Columns t) row\<rparr>]\<rparr>)"

definition updateFastRowLocked :: "string \<Rightarrow> string \<Rightarrow> goval \<Rightarrow> table \<Rightarrow> table" where
  "updateFastRowLocked key column v t =
     (if fast t = [] then t
      else case mget (colpos t) column of
        None \<Rightarrow> t
      | Some j \<Rightarrow>
          (case mget (fastPos t) key of
             None \<Rightarrow> t
           | Some i \<Rightarrow> t\<lparr>fast := (fast t)[i := (fast t ! i)\<lparr>fvalues := (fvalues (fast t ! i))[j := v]\<rparr>]\<rparr>))"

definition rekeyFastRowLocked :: "string \<Rightarrow> string \<Rightarrow> goval \<Rightarrow> table \<Rightarrow> table" where
  "rekeyFastRowLocked oldKey newKey v t =
     (if fast t = [] then t
      else case mget (fastPos t) oldKey of
        None \<Rightarrow> t
      | Some i \<Rightarrow>
          let t' = t\<lparr>fastPos := mset_at (mdel (fastPos t) oldKey) newKey i,
                     fast := (fast t)[i := (fast t ! i)\<lparr>fkey := newKey\<rparr>]\<rparr>
          in case mget (colpos t) (primaryColumn t) of
               None \<Rightarrow> t'
             | Some j \<Rightarrow>
                 t'\<lparr>fast := (fast t')[i := (fast t' ! i)\<lparr>fvalues := (fvalues (fast t' ! i))[j := v]\<rparr>]\<rparr>)"

section \<open>The invariant\<close>

text \<open>The keys a scan of \<open>Order\<close> visits.\<close>

definition live :: "table \<Rightarrow> string list" where
  "live t = filter (\<lambda>k. mhas (Rows t) k) (Order t)"

definition rowAt :: "table \<Rightarrow> string \<Rightarrow> row" where
  "rowAt t k = (case mget (Rows t) k of None \<Rightarrow> [] | Some row \<Rightarrow> row)"

definition wf_rows :: "table \<Rightarrow> bool" where
  "wf_rows t \<longleftrightarrow>
     mwf (Rows t) \<and> distinct (Order t) \<and>
     (\<forall>k. mhas (Rows t) k \<longrightarrow> k \<in> set (Order t) \<and> k \<noteq> []) \<and>
     dead t = length (filter (\<lambda>k. \<not> mhas (Rows t) k) (Order t))"

definition wf_columns :: "column list \<Rightarrow> bool" where
  "wf_columns cs \<longleftrightarrow> distinct (map cName cs) \<and> length (filter cPrimary cs) \<le> 1"

text \<open>What a scan of the fast array shows, and what a scan of \<open>Order\<close> shows.\<close>

definition fastView :: "table \<Rightarrow> (string \<times> goval list) list" where
  "fastView t = map (\<lambda>r. (fkey r, fvalues r)) (filter (\<lambda>r. fkey r \<noteq> []) (fast t))"

definition slowView :: "table \<Rightarrow> (string \<times> goval list) list" where
  "slowView t = map (\<lambda>k. (k, fastValues (Columns t) (rowAt t k))) (live t)"

definition pos_ok :: "table \<Rightarrow> bool" where
  "pos_ok t \<longleftrightarrow>
     (\<forall>k i. mget (fastPos t) k = Some i \<longleftrightarrow> i < length (fast t) \<and> fkey (fast t ! i) = k \<and> k \<noteq> [])"

definition colpos_ok :: "table \<Rightarrow> bool" where
  "colpos_ok t \<longleftrightarrow>
     (\<forall>c j. mget (colpos t) c = Some j \<longleftrightarrow> j < length (Columns t) \<and> cName (Columns t ! j) = c)"

definition fast_ok :: "table \<Rightarrow> bool" where
  "fast_ok t \<longleftrightarrow> fast t \<noteq> [] \<longrightarrow>
     fastView t = slowView t \<and> pos_ok t \<and> colpos_ok t \<and>
     fastDead t = length (filter (\<lambda>r. fkey r = []) (fast t))"

text \<open>
  The array exists only for a table of at least 256 keys. INSERT relies on this, and a DELETE by
  another column than the primary one does not keep it; so it is no part of the table invariant.
\<close>

definition fast_big :: "table \<Rightarrow> bool" where
  "fast_big t \<longleftrightarrow> fast t \<noteq> [] \<longrightarrow> fastPathThreshold \<le> length (Order t)"

definition wf_index :: "table \<Rightarrow> bool" where
  "wf_index t \<longleftrightarrow>
     idx_shape t \<and>
     (\<forall>c v k. mhas (Indexes t) c \<longrightarrow>
        (k \<in> set (bucketOf t c v) \<longleftrightarrow> (\<exists>row. mget (Rows t) k = Some row \<and> valueKey (rget row c) = v)))"

definition wf_names :: "table \<Rightarrow> bool" where
  "wf_names t \<longleftrightarrow>
     mwf (IndexNames t) \<and> (\<forall>n c. mget (IndexNames t) n = Some c \<longrightarrow> mhas (Indexes t) c) \<and>
     (\<forall>c. mhas (Indexes t) c \<longrightarrow> c \<in> cName ` set (Columns t))"

text \<open>The row key of a table with a primary column is the rendered primary value.\<close>

definition keys_ok :: "table \<Rightarrow> bool" where
  "keys_ok t \<longleftrightarrow>
     (hasPrimaryColumn (Columns t) \<longrightarrow>
        (\<forall>k row. mget (Rows t) k = Some row \<longrightarrow> k = valueKey (rget row (primaryColumn t))))"

definition wf_table :: "table \<Rightarrow> bool" where
  "wf_table t \<longleftrightarrow>
     wf_columns (Columns t) \<and> wf_rows t \<and> fast_ok t \<and> wf_index t \<and> wf_names t \<and> keys_ok t"

section \<open>Frame lemmas\<close>

lemma noFast_frame [simp]:
  "tName (noFast t) = tName t" "Columns (noFast t) = Columns t" "Rows (noFast t) = Rows t"
  "Order (noFast t) = Order t" "Indexes (noFast t) = Indexes t" "IndexNames (noFast t) = IndexNames t"
  "fast (noFast t) = []" "dead (noFast t) = dead t" "autoKey (noFast t) = autoKey t"
  by (simp_all add: noFast_def)

lemma rebuild_frame [simp]:
  "tName (rebuildFastPathLocked t) = tName t" "Columns (rebuildFastPathLocked t) = Columns t"
  "Rows (rebuildFastPathLocked t) = Rows t" "Order (rebuildFastPathLocked t) = Order t"
  "Indexes (rebuildFastPathLocked t) = Indexes t" "IndexNames (rebuildFastPathLocked t) = IndexNames t"
  "dead (rebuildFastPathLocked t) = dead t" "autoKey (rebuildFastPathLocked t) = autoKey t"
  by (simp_all add: rebuildFastPathLocked_def Let_def split: prod.splits)

lemma appendFast_frame [simp]:
  "tName (appendFastRowLocked k r t) = tName t" "Columns (appendFastRowLocked k r t) = Columns t"
  "Rows (appendFastRowLocked k r t) = Rows t" "Order (appendFastRowLocked k r t) = Order t"
  "Indexes (appendFastRowLocked k r t) = Indexes t" "IndexNames (appendFastRowLocked k r t) = IndexNames t"
  "dead (appendFastRowLocked k r t) = dead t" "autoKey (appendFastRowLocked k r t) = autoKey t"
  by (simp_all add: appendFastRowLocked_def)

lemma removeFast_frame [simp]:
  "tName (removeFastRowLocked k t) = tName t" "Columns (removeFastRowLocked k t) = Columns t"
  "Rows (removeFastRowLocked k t) = Rows t" "Order (removeFastRowLocked k t) = Order t"
  "Indexes (removeFastRowLocked k t) = Indexes t" "IndexNames (removeFastRowLocked k t) = IndexNames t"
  "dead (removeFastRowLocked k t) = dead t" "autoKey (removeFastRowLocked k t) = autoKey t"
  by (simp_all add: removeFastRowLocked_def split: option.splits)

lemma replaceFast_frame [simp]:
  "tName (replaceFastRowLocked k r t) = tName t" "Columns (replaceFastRowLocked k r t) = Columns t"
  "Rows (replaceFastRowLocked k r t) = Rows t" "Order (replaceFastRowLocked k r t) = Order t"
  "Indexes (replaceFastRowLocked k r t) = Indexes t" "IndexNames (replaceFastRowLocked k r t) = IndexNames t"
  "dead (replaceFastRowLocked k r t) = dead t" "autoKey (replaceFastRowLocked k r t) = autoKey t"
  by (simp_all add: replaceFastRowLocked_def split: option.splits)

lemma updateFast_frame [simp]:
  "tName (updateFastRowLocked k c v t) = tName t" "Columns (updateFastRowLocked k c v t) = Columns t"
  "Rows (updateFastRowLocked k c v t) = Rows t" "Order (updateFastRowLocked k c v t) = Order t"
  "Indexes (updateFastRowLocked k c v t) = Indexes t" "IndexNames (updateFastRowLocked k c v t) = IndexNames t"
  "dead (updateFastRowLocked k c v t) = dead t" "autoKey (updateFastRowLocked k c v t) = autoKey t"
  by (simp_all add: updateFastRowLocked_def split: option.splits)

lemma rekeyFast_frame [simp]:
  "tName (rekeyFastRowLocked k l v t) = tName t" "Columns (rekeyFastRowLocked k l v t) = Columns t"
  "Rows (rekeyFastRowLocked k l v t) = Rows t" "Order (rekeyFastRowLocked k l v t) = Order t"
  "Indexes (rekeyFastRowLocked k l v t) = Indexes t" "IndexNames (rekeyFastRowLocked k l v t) = IndexNames t"
  "dead (rekeyFastRowLocked k l v t) = dead t" "autoKey (rekeyFastRowLocked k l v t) = autoKey t"
  by (simp_all add: rekeyFastRowLocked_def Let_def split: option.splits)

section \<open>Rebuilding\<close>

definition fastOf :: "table \<Rightarrow> string \<Rightarrow> fastRow" where
  "fastOf t k = \<lparr>fkey = k, fvalues = fastValues (Columns t) (rowAt t k)\<rparr>"

text \<open>Positions and keys of an array agree.\<close>

definition posOf :: "fastRow list \<Rightarrow> (string, nat) gomap \<Rightarrow> bool" where
  "posOf fs pos \<longleftrightarrow> (\<forall>k i. mget pos k = Some i \<longleftrightarrow> i < length fs \<and> fkey (fs ! i) = k)"

lemma posOf_snoc:
  assumes "posOf fs pos" "fkey r \<notin> fkey ` set fs"
  shows "posOf (fs @ [r]) (mset_at pos (fkey r) (length fs))"
proof -
  have "\<forall>i < length fs. fkey (fs ! i) \<noteq> fkey r" using assms(2) by (metis image_eqI nth_mem)
  with assms(1) show ?thesis by (auto simp: posOf_def gomap_simps nth_append less_Suc_eq)
qed

lemma rebuildLoop_rows:
  "fst (rebuildLoop t keys acc pos) = acc @ map (fastOf t) (filter (\<lambda>k. mhas (Rows t) k) keys)"
  by (induction keys arbitrary: acc pos) (auto simp: fastOf_def rowAt_def split: option.splits)

lemma rebuildLoop_pos:
  assumes "distinct (map fkey acc @ keys)" "posOf acc pos"
  shows "posOf (fst (rebuildLoop t keys acc pos)) (snd (rebuildLoop t keys acc pos))"
  using assms
proof (induction keys arbitrary: acc pos)
  case (Cons key keys)
  show ?case
  proof (cases "mget (Rows t) key")
    case None
    with Cons.prems have "posOf (fst (rebuildLoop t keys acc pos)) (snd (rebuildLoop t keys acc pos))"
      by (intro Cons.IH) auto
    with None show ?thesis by simp
  next
    case (Some row)
    let ?r = "\<lparr>fkey = key, fvalues = fastValues (Columns t) row\<rparr>"
    have "posOf (acc @ [?r]) (mset_at pos key (length acc))"
      using posOf_snoc[OF Cons.prems(2), of ?r] Cons.prems(1) by auto
    with Cons.IH[of "acc @ [?r]" "mset_at pos key (length acc)"] Cons.prems(1) Some
    show ?thesis by simp
  qed
qed simp

lemma mget_columnIndexes:
  assumes "distinct (map cName cs)"
  shows "mget (columnIndexes i cs m) c = Some j \<longleftrightarrow>
    (if c \<in> cName ` set cs then i \<le> j \<and> j < i + length cs \<and> cName (cs ! (j - i)) = c else mget m c = Some j)"
  using assms
proof (induction cs arbitrary: i m)
  case (Cons d cs)
  have nth: "\<not> i < j \<or> (d # cs) ! (j - i) = cs ! (j - Suc i)"
    using Suc_diff_Suc[of i j] by (auto simp flip: Suc_diff_Suc)
  show ?case
  proof (cases "c = cName d")
    case True
    with Cons.prems have "c \<notin> cName ` set cs" by simp
    with Cons True have "mget (columnIndexes i (d # cs) m) c = Some j \<longleftrightarrow> j = i" by (auto simp: gomap_simps)
    moreover have "i < j \<Longrightarrow> j < Suc (i + length cs) \<Longrightarrow> cName (cs ! (j - Suc i)) \<noteq> c"
      using \<open>c \<notin> cName ` set cs\<close> by (auto simp: image_iff)
    ultimately show ?thesis using True nth by (auto simp: le_less)
  next
    case False
    then show ?thesis using Cons nth by (auto simp: gomap_simps Suc_le_eq le_less)
  qed
qed simp

lemma colpos_rebuild:
  assumes "wf_columns (Columns t)" "colpos t = columnIndexes 0 (Columns t) []"
  shows "colpos_ok t"
  using assms mget_columnIndexes[of "Columns t" 0 "[]"]
  by (auto simp: colpos_ok_def wf_columns_def split: if_splits)

lemma rebuild_ok [wf_intros]:
  assumes "wf_columns (Columns t)" "wf_rows t"
  shows "fast_ok (rebuildFastPathLocked t)"
proof (cases "length (Order t) < fastPathThreshold")
  case True
  then show ?thesis by (simp add: rebuildFastPathLocked_def fast_ok_def)
next
  case False
  let ?t = "rebuildFastPathLocked t"
  have dist: "distinct (Order t)" and ne: "[] \<notin> set (live t)"
    using assms(2) by (auto simp: wf_rows_def live_def)
  have "posOf [] []" by (simp add: posOf_def)
  then have loop: "posOf (fst (rebuildLoop t (Order t) [] [])) (snd (rebuildLoop t (Order t) [] []))"
    using dist by (intro rebuildLoop_pos) auto
  have f: "fast ?t = map (fastOf t) (live t)" and p: "posOf (fast ?t) (fastPos ?t)"
    and rest: "fastDead ?t = 0" "colpos ?t = columnIndexes 0 (Columns t) []"
    using False loop rebuildLoop_rows[of t "Order t" "[]" "[]"]
    by (auto simp: rebuildFastPathLocked_def live_def split: prod.splits)
  have "filter (\<lambda>r. fkey r \<noteq> []) (fast ?t) = fast ?t" "filter (\<lambda>r. fkey r = []) (fast ?t) = []"
    using ne f by (auto simp: fastOf_def filter_empty_conv filter_id_conv)
  then have "fastView ?t = map (\<lambda>r. (fkey r, fvalues r)) (fast ?t)" "filter (\<lambda>r. fkey r = []) (fast ?t) = []"
    by (simp_all add: fastView_def)
  moreover have "slowView ?t = slowView t" by (simp add: slowView_def live_def rowAt_def)
  moreover have "pos_ok ?t"
    using p ne f nth_mem[of _ "live t"] unfolding pos_ok_def posOf_def
    by (auto simp: fastOf_def) (metis nth_mem)
  moreover have "colpos_ok ?t" using colpos_rebuild[of ?t] assms(1) rest by simp
  ultimately show ?thesis using False f rest
    by (auto simp: fast_ok_def slowView_def fastOf_def not_less)
qed

lemma rebuild_big [wf_intros]: "fast_big (rebuildFastPathLocked t)"
  by (auto simp: fast_big_def rebuildFastPathLocked_def split: prod.splits)

section \<open>Point updates\<close>

text \<open>Under \<open>pos_ok\<close> a write at the position of a key is a write to every entry with that key.\<close>

lemma fast_update_map:
  assumes "pos_ok t" "mget (fastPos t) key = Some i"
  shows "(fast t)[i := f (fast t ! i)] = map (\<lambda>r. if fkey r = key then f r else r) (fast t)"
proof (rule nth_equalityI)
  fix j assume "j < length ((fast t)[i := f (fast t ! i)])"
  moreover have "i < length (fast t)" "fkey (fast t ! i) = key" "key \<noteq> []"
    using assms by (auto simp: pos_ok_def)
  moreover have "fkey (fast t ! j) = key \<Longrightarrow> j < length (fast t) \<Longrightarrow> j = i"
    using assms \<open>key \<noteq> []\<close> by (metis option.inject pos_ok_def)
  ultimately show "(fast t)[i := f (fast t ! i)] ! j = map (\<lambda>r. if fkey r = key then f r else r) (fast t) ! j"
    by (auto simp: nth_list_update)
qed simp

lemma fast_key_pos: "pos_ok t \<Longrightarrow> r \<in> set (fast t) \<Longrightarrow> fkey r \<noteq> [] \<Longrightarrow> mhas (fastPos t) (fkey r)"
  by (auto simp: pos_ok_def in_set_conv_nth)

lemma fast_map_absent:
  assumes "pos_ok t" "mget (fastPos t) key = None" "key \<noteq> []"
  shows "map (\<lambda>r. if fkey r = key then f r else r) (fast t) = fast t"
  using fast_key_pos[OF assms(1)] assms(2,3) by (intro map_idI) force

lemma live_has_pos:
  assumes "fast_ok t" "fast t \<noteq> []" "k \<in> set (live t)"
  shows "mhas (fastPos t) k"
proof -
  from assms have v: "fastView t = slowView t" and p: "pos_ok t" and "fast t \<noteq> []" by (auto simp: fast_ok_def)
  from assms(3) have "k \<in> fst ` set (slowView t)" by (auto simp: slowView_def image_iff)
  with v have "k \<in> fst ` set (fastView t)" by simp
  then obtain r where "r \<in> set (fast t)" "fkey r = k" "fkey r \<noteq> []" by (auto simp: fastView_def)
  with p show ?thesis using fast_key_pos by metis
qed

lemma pos_ok_map_same_keys:
  assumes "pos_ok t" "fastPos t' = fastPos t" "fast t' = map f (fast t)" "\<And>r. fkey (f r) = fkey r"
  shows "pos_ok t'"
  using assms(1) unfolding pos_ok_def assms(2,3) by (metis assms(4) length_map nth_map)

lemma view_set:
  "map (\<lambda>r. (fkey r, fvalues r)) (filter (\<lambda>r. fkey r \<noteq> []) (map (\<lambda>r. if fkey r = key then r\<lparr>fvalues := vs\<rparr> else r) F)) =
   map (\<lambda>(k, x). (k, if k = key then vs else x)) (map (\<lambda>r. (fkey r, fvalues r)) (filter (\<lambda>r. fkey r \<noteq> []) F))"
  by (induction F) auto

lemma dead_set:
  "length (filter (\<lambda>r. fkey r = []) (map (\<lambda>r. if fkey r = key then r\<lparr>fvalues := vs\<rparr> else r) F)) =
   length (filter (\<lambda>r. fkey r = []) F)"
  by (induction F) auto

text \<open>
  Changing the row of one key: the entry of the key gets the values of the new row, nothing else
  of the table changes.
\<close>

lemma fast_ok_set_values:
  assumes ok: "fast_ok t" and ne: "key \<noteq> []"
    and frame: "Order t' = Order t" "Columns t' = Columns t" "fastPos t' = fastPos t" "colpos t' = colpos t" "fastDead t' = fastDead t"
    and same: "\<And>k. mget (Rows t') k = None \<longleftrightarrow> mget (Rows t) k = None" "\<And>k. k \<noteq> key \<Longrightarrow> rowAt t' k = rowAt t k"
    and fast: "fast t' = map (\<lambda>r. if fkey r = key then r\<lparr>fvalues := fastValues (Columns t) (rowAt t' key)\<rparr> else r) (fast t)"
  shows "fast_ok t'"
proof (cases "fast t = []")
  case True
  with fast show ?thesis by (simp add: fast_ok_def)
next
  case False
  with ok have o: "fastView t = slowView t" "pos_ok t" "colpos_ok t"
    "fastDead t = length (filter (\<lambda>r. fkey r = []) (fast t))" by (auto simp: fast_ok_def)
  let ?g = "\<lambda>(k, vs). (k, if k = key then fastValues (Columns t) (rowAt t' key) else vs)"
  have "fastView t' = map ?g (fastView t)"
    by (simp add: fastView_def fast view_set)
  moreover have "live t' = live t" using same(1) frame(1) by (simp add: live_def del: not_None_eq)
  then have "slowView t' = map ?g (slowView t)"
    using same(2) frame(2) by (auto simp: slowView_def)
  moreover have "pos_ok t'" using pos_ok_map_same_keys[OF o(2) frame(3) fast] by simp
  moreover have "colpos_ok t'" using o(3) frame by (simp add: colpos_ok_def)
  moreover have "length (filter (\<lambda>r. fkey r = []) (fast t')) = length (filter (\<lambda>r. fkey r = []) (fast t))"
    by (simp only: fast dead_set)
  ultimately show ?thesis using o frame by (simp add: fast_ok_def)
qed


lemma fastValues_update:
  assumes "distinct (map cName cols)" "j < length cols" "cName (cols ! j) = c"
  shows "fastValues cols (mset_at row c v) = (fastValues cols row)[j := v]"
proof (rule nth_equalityI)
  fix i assume "i < length (fastValues cols (mset_at row c v))"
  then have i: "i < length cols" by (simp add: fastValues_def)
  then have "cName (cols ! i) = c \<longleftrightarrow> i = j"
    using assms by (metis length_map nth_eq_iff_index_eq nth_map)
  with i assms(2) show "fastValues cols (mset_at row c v) ! i = (fastValues cols row)[j := v] ! i"
    by (auto simp: fastValues_def rget_def gomap_simps nth_list_update)
qed (simp add: fastValues_def)

lemma colpos_has: "colpos_ok t \<Longrightarrow> c \<in> cName ` set (Columns t) \<Longrightarrow> \<exists>j. mget (colpos t) c = Some j"
  by (auto simp: colpos_ok_def in_set_conv_nth)

text \<open>The values of a live row in the array are those of the row.\<close>

lemma fast_values_of:
  assumes "fast_ok t" "r \<in> set (fast t)" "fkey r \<noteq> []"
  shows "fvalues r = fastValues (Columns t) (rowAt t (fkey r))"
proof -
  have "(fkey r, fvalues r) \<in> set (fastView t)" using assms(2,3) by (auto simp: fastView_def)
  moreover have "fastView t = slowView t" using assms(1,2) by (auto simp: fast_ok_def)
  ultimately show ?thesis by (auto simp: slowView_def)
qed

lemma updateFast_ok [wf_intros]:
  assumes ok: "fast_ok t" and cols: "wf_columns (Columns t)" and ne: "key \<noteq> []"
    and c: "c \<in> cName ` set (Columns t)"
    and row: "mget (Rows t) key = Some row"
    and t1: "t1 = t\<lparr>Rows := mset_at (Rows t) key (mset_at row c v), Indexes := ix\<rparr>"
  shows "fast_ok (updateFastRowLocked key c v t1)"
proof (cases "fast t = []")
  case True
  with t1 show ?thesis by (simp add: updateFastRowLocked_def fast_ok_def)
next
  case False
  with ok have p: "pos_ok t" "colpos_ok t" by (auto simp: fast_ok_def)
  then obtain j where j: "mget (colpos t) c = Some j" using colpos_has c by blast
  with p have jc: "j < length (Columns t)" "cName (Columns t ! j) = c" by (auto simp: colpos_ok_def)
  let ?vs = "fastValues (Columns t) (mset_at row c v)"
  let ?f = "map (\<lambda>r. if fkey r = key then r\<lparr>fvalues := (fvalues r)[j := v]\<rparr> else r) (fast t)"
  have "\<And>r. r \<in> set (fast t) \<Longrightarrow> fkey r = key \<Longrightarrow> fvalues r = fastValues (Columns t) row"
    using fast_values_of[OF ok] ne row by (auto simp: rowAt_def)
  then have f: "?f = map (\<lambda>r. if fkey r = key then r\<lparr>fvalues := ?vs\<rparr> else r) (fast t)"
    using fastValues_update[OF _ jc, of v row] cols by (auto simp: wf_columns_def)
  have "fast (updateFastRowLocked key c v t1) = ?f"
  proof (cases "mget (fastPos t) key")
    case None
    with False j t1 fast_map_absent[OF p(1) None ne] show ?thesis by (simp add: updateFastRowLocked_def)
  next
    case (Some i)
    with False j t1 fast_update_map[OF p(1) Some, of "\<lambda>r. r\<lparr>fvalues := (fvalues r)[j := v]\<rparr>"]
    show ?thesis by (simp add: updateFastRowLocked_def)
  qed
  moreover have "rowAt t1 key = mset_at row c v" using t1 by (simp add: rowAt_def gomap_simps)
  ultimately show ?thesis using f t1 False row
    by (intro fast_ok_set_values[OF ok ne])
       (auto simp: updateFastRowLocked_def rowAt_def gomap_simps split: option.splits)
qed

lemma replaceFast_ok [wf_intros]:
  assumes ok: "fast_ok t" and ne: "key \<noteq> []" and has: "mhas (Rows t) key"
    and t1: "t1 = t\<lparr>Rows := mset_at (Rows t) key row, Indexes := ix\<rparr>"
  shows "fast_ok (replaceFastRowLocked key row t1)"
proof (cases "fast t = []")
  case True
  with t1 show ?thesis by (simp add: replaceFastRowLocked_def fast_ok_def)
next
  case False
  with ok have p: "pos_ok t" by (auto simp: fast_ok_def)
  let ?f = "\<lambda>r. r\<lparr>fvalues := fastValues (Columns t) row\<rparr>"
  have "fast (replaceFastRowLocked key row t1) = map (\<lambda>r. if fkey r = key then ?f r else r) (fast t)"
  proof (cases "mget (fastPos t) key")
    case None
    with False t1 fast_map_absent[OF p None ne] show ?thesis by (simp add: replaceFastRowLocked_def)
  next
    case (Some i)
    with False t1 fast_update_map[OF p Some, of ?f] show ?thesis by (simp add: replaceFastRowLocked_def)
  qed
  moreover have "rowAt t1 key = row" using t1 by (simp add: rowAt_def gomap_simps)
  ultimately show ?thesis using t1 False has
    by (intro fast_ok_set_values[OF ok ne])
       (auto simp: replaceFastRowLocked_def rowAt_def gomap_simps split: option.splits)
qed
section \<open>Removing, appending and rekeying\<close>

lemma length_filter_update:
  "i < length xs \<Longrightarrow> \<not> P (xs ! i) \<Longrightarrow> P y \<Longrightarrow> length (filter P (xs[i := y])) = Suc (length (filter P xs))"
proof (induction xs arbitrary: i)
  case (Cons x xs)
  then show ?case by (cases i) auto
qed simp

lemma view_kill:
  "key \<noteq> [] \<Longrightarrow>
   map (\<lambda>r. (fkey r, fvalues r)) (filter (\<lambda>r. fkey r \<noteq> []) (map (\<lambda>r. if fkey r = key then \<lparr>fkey = [], fvalues = []\<rparr> else r) F)) =
   filter (\<lambda>(k, x). k \<noteq> key) (map (\<lambda>r. (fkey r, fvalues r)) (filter (\<lambda>r. fkey r \<noteq> []) F))"
  by (induction F) auto

lemma slowView_delete:
  assumes "Rows t' = mdel (Rows t) key" "Order t' = Order t" "Columns t' = Columns t"
  shows "slowView t' = filter (\<lambda>(k, x). k \<noteq> key) (slowView t)"
proof -
  have "live t' = filter (\<lambda>k. k \<noteq> key) (live t)"
    using assms by (auto simp: live_def gomap_simps intro: filter_cong)
  moreover have "k \<noteq> key \<Longrightarrow> rowAt t' k = rowAt t k" for k using assms by (simp add: rowAt_def gomap_simps)
  ultimately show ?thesis using assms(3) by (simp add: slowView_def filter_map o_def)
qed

lemma removeFast_ok [wf_intros]:
  assumes ok: "fast_ok t" and ne: "key \<noteq> []"
    and t1: "t1 = t\<lparr>Rows := mdel (Rows t) key, Indexes := ix, dead := d\<rparr>"
  shows "fast_ok (removeFastRowLocked key t1)"
proof (cases "fast t = [] \<or> length (Order t) < fastPathThreshold")
  case True
  with t1 show ?thesis by (auto simp: removeFastRowLocked_def fast_ok_def)
next
  case False
  with ok have o: "fastView t = slowView t" "pos_ok t" "colpos_ok t"
    "fastDead t = length (filter (\<lambda>r. fkey r = []) (fast t))" by (auto simp: fast_ok_def)
  let ?t = "removeFastRowLocked key t1"
  have slow: "slowView ?t = filter (\<lambda>(k, x). k \<noteq> key) (slowView t)"
    using t1 by (intro slowView_delete) simp_all
  let ?kill = "\<lambda>r. \<lparr>fkey = [], fvalues = []\<rparr> :: fastRow"
  have fst': "fast ?t = map (\<lambda>r. if fkey r = key then ?kill r else r) (fast t)"
  proof (cases "mget (fastPos t) key")
    case None
    with False t1 fast_map_absent[OF o(2) None ne] show ?thesis by (simp add: removeFastRowLocked_def)
  next
    case (Some i)
    with False t1 fast_update_map[OF o(2) Some, of ?kill] show ?thesis by (simp add: removeFastRowLocked_def)
  qed
  have "fastView ?t = slowView ?t"
    using view_kill[OF ne, of "fast t"] o(1) by (simp add: fastView_def fst' slow del: filter_map)
  moreover have "colpos_ok ?t" using o(3) False t1
    by (auto simp: colpos_ok_def removeFastRowLocked_def split: option.splits)
  moreover have "pos_ok ?t \<and> fastDead ?t = length (filter (\<lambda>r. fkey r = []) (fast ?t))"
  proof (cases "mget (fastPos t) key")
    case None
    with False t1 o show ?thesis by (auto simp: removeFastRowLocked_def pos_ok_def)
  next
    case (Some i)
    with o(2) have i: "i < length (fast t)" "fkey (fast t ! i) = key" by (auto simp: pos_ok_def)
    have t: "?t = t1\<lparr>fast := (fast t)[i := ?kill r0], fastPos := mdel (fastPos t) key, fastDead := fastDead t + 1\<rparr>" for r0
      using Some False t1 by (simp add: removeFastRowLocked_def)
    have "pos_ok ?t" using o(2) i ne Some
      by (auto simp: t pos_ok_def gomap_simps nth_list_update) (metis option.inject)
    moreover have "fastDead ?t = length (filter (\<lambda>r. fkey r = []) (fast ?t))"
      using i ne o(4) by (simp add: t length_filter_update)
    ultimately show ?thesis ..
  qed
  ultimately show ?thesis by (simp add: fast_ok_def)
qed

lemma removeFast_big: "fast_big t \<Longrightarrow> fast_big (removeFastRowLocked key t)"
  by (auto simp: fast_big_def removeFastRowLocked_def split: option.splits)

lemma slowView_snoc:
  assumes "\<not> mhas (Rows t) key" "key \<notin> set (Order t)"
    and "Rows t' = mset_at (Rows t) key row" "Order t' = Order t @ [key]" "Columns t' = Columns t"
  shows "slowView t' = slowView t @ [(key, fastValues (Columns t) row)]"
proof -
  have "live t' = live t @ [key]"
    using assms by (auto simp: live_def gomap_simps intro: filter_cong)
  moreover have "k \<in> set (live t) \<Longrightarrow> rowAt t' k = rowAt t k" for k
    using assms by (auto simp: rowAt_def gomap_simps live_def)
  moreover have "rowAt t' key = row" using assms by (simp add: rowAt_def gomap_simps)
  ultimately show ?thesis using assms(5) by (simp add: slowView_def)
qed

lemma appendFast_ok [wf_intros]:
  assumes ok: "fast_ok t" and big: "fast_big t" and ne: "key \<noteq> []"
    and new: "\<not> mhas (Rows t) key" "key \<notin> set (Order t)"
    and t1: "t1 = t\<lparr>Rows := mset_at (Rows t) key row, Order := Order t @ [key], Indexes := ix\<rparr>"
    and wf: "wf_columns (Columns t1)" "wf_rows t1"
  shows "fast_ok (appendFastRowLocked key row t1)" "fast_big (appendFastRowLocked key row t1)"
proof -
  have "fast_ok (appendFastRowLocked key row t1) \<and> fast_big (appendFastRowLocked key row t1)"
  proof (cases "length (Order t1) < fastPathThreshold")
    case True
    with big t1 have "fast t = []" by (auto simp: fast_big_def)
    with True t1 show ?thesis by (simp add: appendFastRowLocked_def fast_ok_def fast_big_def)
  next
    case big1: False
    show ?thesis
    proof (cases "fast t = [] \<or> length (fast t) + 1 \<noteq> length (Order t1)")
      case True
      with big1 t1 have "appendFastRowLocked key row t1 = rebuildFastPathLocked t1"
        by (auto simp: appendFastRowLocked_def)
      with wf show ?thesis by (simp add: rebuild_ok rebuild_big)
    next
      case False
      with ok have o: "fastView t = slowView t" "pos_ok t" "colpos_ok t"
        "fastDead t = length (filter (\<lambda>r. fkey r = []) (fast t))" by (auto simp: fast_ok_def)
      let ?t = "appendFastRowLocked key row t1"
      let ?r = "\<lparr>fkey = key, fvalues = fastValues (Columns t) row\<rparr>"
      have t: "?t = t1\<lparr>fast := fast t @ [?r], fastPos := mset_at (fastPos t) key (length (fast t))\<rparr>"
        using False big1 t1 by (simp add: appendFastRowLocked_def)
      have "fastView ?t = fastView t @ [(key, fastValues (Columns t) row)]" using ne by (simp add: t fastView_def)
      moreover have "slowView ?t = slowView t @ [(key, fastValues (Columns t) row)]"
        using new t1 t by (intro slowView_snoc) simp_all
      moreover have "key \<notin> fkey ` set (fast t)"
      proof
        assume "key \<in> fkey ` set (fast t)"
        then have "key \<in> fst ` set (fastView t)" using ne by (force simp: fastView_def)
        with o(1) new(2) show False by (auto simp: slowView_def live_def)
      qed
      then have "pos_ok ?t" using o(2) ne
        by (auto simp: t pos_ok_def gomap_simps nth_append less_Suc_eq image_iff)
      moreover have "colpos_ok ?t" unfolding t using o(3) t1 by (simp add: colpos_ok_def)
      moreover have "fastDead t1 = fastDead t" by (simp add: t1)
      ultimately show ?thesis using o ne big1 by (simp add: fast_ok_def fast_big_def t)
    qed
  qed
  then show "fast_ok (appendFastRowLocked key row t1)" "fast_big (appendFastRowLocked key row t1)" by blast+
qed

lemma view_rekey:
  "old \<noteq> [] \<Longrightarrow> new \<noteq> [] \<Longrightarrow>
   map (\<lambda>r. (fkey r, fvalues r)) (filter (\<lambda>r. fkey r \<noteq> [])
     (map (\<lambda>r. if fkey r = old then r\<lparr>fkey := new, fvalues := (fvalues r)[j := v]\<rparr> else r) F)) =
   map (\<lambda>(k, x). if k = old then (new, x[j := v]) else (k, x)) (map (\<lambda>r. (fkey r, fvalues r)) (filter (\<lambda>r. fkey r \<noteq> []) F))"
  by (induction F) auto

lemma dead_rekey:
  "old \<noteq> [] \<Longrightarrow> new \<noteq> [] \<Longrightarrow>
   length (filter (\<lambda>r. fkey r = []) (map (\<lambda>r. if fkey r = old then r\<lparr>fkey := new, fvalues := (fvalues r)[j := v]\<rparr> else r) F)) =
   length (filter (\<lambda>r. fkey r = []) F)"
  by (induction F) auto

lemma live_rekey:
  assumes "distinct (Order t)" "mhas (Rows t) old" "new \<notin> set (Order t)"
    and "Rows t' = mset_at (mdel (Rows t) old) new row" "Order t' = replace_first old new (Order t)"
  shows "live t' = map (\<lambda>k. if k = old then new else k) (live t)"
  using assms
  by (auto simp: live_def replace_first_distinct filter_map gomap_simps intro!: map_cong filter_cong split: if_splits)

lemma slowView_rekey:
  assumes "distinct (Order t)" "mget (Rows t) old = Some row" "new \<notin> set (Order t)" "distinct (map cName (Columns t))"
    and t': "Rows t' = mset_at (mdel (Rows t) old) new (mset_at row c v)" "Order t' = replace_first old new (Order t)"
      "Columns t' = Columns t"
    and j: "j < length (Columns t)" "cName (Columns t ! j) = c"
  shows "slowView t' = map (\<lambda>(k, x). if k = old then (new, x[j := v]) else (k, x)) (slowView t)"
proof -
  have "live t' = map (\<lambda>k. if k = old then new else k) (live t)"
    using assms by (intro live_rekey[OF assms(1) _ assms(3) t'(1,2)]) simp
  moreover have "rowAt t' new = mset_at row c v" "rowAt t old = row"
    using assms by (simp_all add: rowAt_def gomap_simps)
  moreover have "k \<in> set (live t) \<Longrightarrow> k \<noteq> old \<Longrightarrow> rowAt t' k = rowAt t k" for k
    using assms(3) t'(1) by (auto simp: rowAt_def gomap_simps live_def)
  ultimately show ?thesis using t'(3) fastValues_update[OF assms(4) j]
    by (auto simp: slowView_def)
qed

lemma primaryOf_member: "hasPrimaryColumn cs \<Longrightarrow> primaryOf cs \<in> cName ` set cs"
  by (induction cs) auto

lemma rekeyFast_ok [wf_intros]:
  assumes ok: "fast_ok t" and cols: "wf_columns (Columns t)" and ne: "old \<noteq> []" "new \<noteq> []"
    and pk: "hasPrimaryColumn (Columns t)" and row: "mget (Rows t) old = Some row"
    and ord: "distinct (Order t)" "old \<in> set (Order t)" "new \<notin> set (Order t)"
    and t1: "t1 = t\<lparr>Rows := mset_at (mdel (Rows t) old) new (mset_at row (primaryColumn t) v),
                    Order := replace_first old new (Order t), Indexes := ix\<rparr>"
  shows "fast_ok (rekeyFastRowLocked old new v t1)"
proof (cases "fast t = []")
  case True
  with t1 show ?thesis by (simp add: rekeyFastRowLocked_def fast_ok_def)
next
  case False
  with ok have o: "fastView t = slowView t" "pos_ok t" "colpos_ok t"
    "fastDead t = length (filter (\<lambda>r. fkey r = []) (fast t))" by (auto simp: fast_ok_def)
  have "old \<in> set (live t)" using ord row by (simp add: live_def)
  then obtain i where i: "mget (fastPos t) old = Some i" using live_has_pos[OF ok False] by blast
  with o(2) have il: "i < length (fast t)" by (auto simp: pos_ok_def)
  obtain j where j: "mget (colpos t) (primaryColumn t) = Some j"
    using colpos_has[OF o(3)] primaryOf_member[OF pk] unfolding primaryColumn_def by blast
  with o(3) have jc: "j < length (Columns t)" "cName (Columns t ! j) = primaryColumn t" by (auto simp: colpos_ok_def)
  let ?t = "rekeyFastRowLocked old new v t1"
  let ?f = "\<lambda>r. r\<lparr>fkey := new, fvalues := (fvalues r)[j := v]\<rparr>"
  have "primaryColumn t1 = primaryColumn t" using t1 by (simp add: primaryColumn_def)
  then have t: "?t = t1\<lparr>fast := (fast t)[i := ?f (fast t ! i)], fastPos := mset_at (mdel (fastPos t) old) new i\<rparr>"
    using False i j il t1 by (simp add: rekeyFastRowLocked_def Let_def)
  have f: "fast ?t = map (\<lambda>r. if fkey r = old then ?f r else r) (fast t)"
    using fast_update_map[OF o(2) i, of ?f] by (simp add: t)
  have "slowView ?t = map (\<lambda>(k, x). if k = old then (new, x[j := v]) else (k, x)) (slowView t)"
    using cols t t1 by (intro slowView_rekey[OF ord(1) row ord(3) _ _ _ _ jc]) (simp_all add: wf_columns_def)
  moreover have "fastView ?t = map (\<lambda>(k, x). if k = old then (new, x[j := v]) else (k, x)) (fastView t)"
    using view_rekey[OF ne, of j v "fast t"] by (simp only: fastView_def f)
  moreover have "fastDead ?t = length (filter (\<lambda>r. fkey r = []) (fast ?t))"
  proof -
    have "fastDead ?t = fastDead t" unfolding t by (simp add: t1)
    with dead_rekey[OF ne, of j v "fast t"] o(4) show ?thesis by (simp only: f)
  qed
  moreover have "colpos_ok ?t" unfolding t using o(3) t1 by (simp add: colpos_ok_def)
  moreover have "\<not> mhas (fastPos t) new"
  proof
    assume "mhas (fastPos t) new"
    then obtain n where "n < length (fast t)" "fkey (fast t ! n) = new" using o(2) by (auto simp: pos_ok_def)
    then have "new \<in> fst ` set (fastView t)" using ne by (force simp: fastView_def)
    with o(1) ord(3) show False by (auto simp: slowView_def live_def)
  qed
  then have "pos_ok ?t" using o(2) i il ne
    by (auto simp: t pos_ok_def gomap_simps nth_list_update) (metis option.distinct(1) option.inject)+
  ultimately show ?thesis using o(1) by (simp add: fast_ok_def)
qed

section \<open>Synthetic keys\<close>

abbreviation syntheticKey :: "64 word \<Rightarrow> string" where
  "syntheticKey a \<equiv> CHR ''#'' # fmtNat (unat a)"

lemma syntheticKeyLoop_None:
  "syntheticKeyLoop fuel t = None \<Longrightarrow> i < fuel \<Longrightarrow> syntheticKey (autoKey t + of_nat i) \<in> set (mkeys (Rows t))"
proof (induction fuel arbitrary: t i)
  case (Suc fuel)
  from Suc.prems(1) have h: "mhas (Rows t) (syntheticKey (autoKey t))"
    and l: "syntheticKeyLoop fuel (t\<lparr>autoKey := autoKey t + 1\<rparr>) = None"
    by (auto simp: Let_def split: if_splits)
  show ?case
  proof (cases i)
    case 0
    with h show ?thesis by (simp only: mhas_iff) simp
  next
    case (Suc k)
    with Suc.IH[OF l, of k] \<open>i < Suc fuel\<close> show ?thesis by (simp add: add.assoc)
  qed
qed simp

lemma syntheticKeyLoop_Some:
  "syntheticKeyLoop fuel t = Some (key, t') \<Longrightarrow>
   \<not> mhas (Rows t) key \<and> key \<noteq> [] \<and> (\<exists>a. t' = t\<lparr>autoKey := a\<rparr>)"
proof (induction fuel arbitrary: t)
  case (Suc fuel)
  then show ?case by (fastforce simp: Let_def split: if_splits)
qed simp

lemma nextSyntheticKey_total:
  assumes "length (Rows t) < 2 ^ 64"
  shows "nextSyntheticKeyLocked t \<noteq> None"
proof
  assume "nextSyntheticKeyLocked t = None"
  then have all: "i < Suc (length (Rows t)) \<Longrightarrow> syntheticKey (autoKey t + of_nat i) \<in> set (mkeys (Rows t))" for i
    using syntheticKeyLoop_None unfolding nextSyntheticKeyLocked_def by blast
  let ?f = "\<lambda>i. syntheticKey (autoKey t + of_nat i)"
  have "inj_on ?f {..length (Rows t)}"
  proof (rule inj_onI)
    fix i j assume ij: "i \<in> {..length (Rows t)}" "j \<in> {..length (Rows t)}" "?f i = ?f j"
    then have "unat (autoKey t + of_nat i) = unat (autoKey t + of_nat j)" by simp
    then have "autoKey t + of_nat i = autoKey t + of_nat j" by (rule unsigned_word_eqI)
    then have "(of_nat i :: 64 word) = of_nat j" by simp
    then have "i mod 2 ^ 64 = j mod 2 ^ 64" using unat_of_nat[where ?'a = 64, of i] unat_of_nat[where ?'a = 64, of j] by simp
    moreover have "i < 2 ^ 64" "j < 2 ^ 64" using ij assms by auto
    ultimately show "i = j" by simp
  qed
  moreover have "?f ` {..length (Rows t)} \<subseteq> set (mkeys (Rows t))" using all by auto
  ultimately have "card {..length (Rows t)} \<le> card (set (mkeys (Rows t)))"
    by (metis card_image card_mono List.finite_set)
  also have "\<dots> \<le> length (Rows t)" using card_length[of "mkeys (Rows t)"] by simp
  finally show False by simp
qed
section \<open>Preserving the index invariant\<close>

lemma wf_indexD: "wf_index t \<Longrightarrow> mhas (Indexes t) c \<Longrightarrow>
  k \<in> set (bucketOf t c v) \<longleftrightarrow> (\<exists>row. mget (Rows t) k = Some row \<and> valueKey (rget row c) = v)"
  by (simp add: wf_index_def)

lemma mhas_Indexes_indexRow [simp]: "mget (Indexes (indexRow key row t)) c = None \<longleftrightarrow> mget (Indexes t) c = None"
  by (simp only: mget_None_iff mkeys_indexRow)

lemma mhas_Indexes_unindexRow [simp]: "mget (Indexes (unindexRow key row t)) c = None \<longleftrightarrow> mget (Indexes t) c = None"
  by (simp only: mget_None_iff mkeys_unindexRow)

lemma indexRow_Rows [simp]: "Rows (indexRow key row t) = Rows t" "Rows (unindexRow key row t) = Rows t"
  using indexRow_upd[of key row t] unindexRow_upd[of key row t] by auto

lemma indexRow_Rows_upd: "indexRow key row (t\<lparr>Rows := rs\<rparr>) = (indexRow key row t)\<lparr>Rows := rs\<rparr>"
proof -
  have a: "addIndexValue c v k (t\<lparr>Rows := rs\<rparr>) = (addIndexValue c v k t)\<lparr>Rows := rs\<rparr>" for c v k t
    by (simp add: addIndexValue_def Let_def split: option.splits)
  have "fold (\<lambda>c. addIndexValue c (f c) key) cs (t\<lparr>Rows := rs\<rparr>) =
      (fold (\<lambda>c. addIndexValue c (f c) key) cs t)\<lparr>Rows := rs\<rparr>" for f cs
    by (induction cs arbitrary: t) (simp_all add: a)
  then show ?thesis by (simp add: indexRow_def)
qed

text \<open>Adding a row under a new key, taking a row out, and changing the row of a key.\<close>

lemma bucketOf_cong: "Indexes t' = Indexes t \<Longrightarrow> bucketOf t' c v = bucketOf t c v"
  by (simp add: bucketOf_def)

lemma wf_index_add [wf_intros]:
  assumes "wf_index t" "mget (Rows t) key = None" "Indexes t1 = Indexes t" "Rows t1 = mset_at (Rows t) key row"
  shows "wf_index (indexRow key row t1)"
proof -
  have "idx_shape t1" using assms(1) idx_shape_cong[OF assms(3)] by (simp add: wf_index_def)
  then have "idx_shape (indexRow key row t1)" by (rule idx_shape_indexRow)
  moreover have "k \<in> set (bucketOf (indexRow key row t1) c v) \<longleftrightarrow>
      (\<exists>r. mget (Rows (indexRow key row t1)) k = Some r \<and> valueKey (rget r c) = v)"
    if "mhas (Indexes (indexRow key row t1)) c" for c v k
  proof -
    have h: "mhas (Indexes t) c" using that assms(3) by simp
    have "k \<in> set (bucketOf t1 c v) \<longleftrightarrow> (\<exists>r. mget (Rows t) k = Some r \<and> valueKey (rget r c) = v)"
      using wf_indexD[OF assms(1) h] bucketOf_cong[OF assms(3)] by simp
    then show ?thesis using h assms(2,3,4) unfolding bucketOf_indexRow by (auto simp: gomap_simps)
  qed
  ultimately show ?thesis unfolding wf_index_def by blast
qed

lemma wf_index_remove [wf_intros]:
  assumes "wf_index t" "mget (Rows t) key = Some row" "t1 = (unindexRow key row t)\<lparr>Rows := mdel (Rows t) key\<rparr>"
  shows "wf_index t1"
proof -
  have i: "Indexes t1 = Indexes (unindexRow key row t)" using assms(3) by simp
  have "idx_shape t1" using assms(1) idx_shape_unindexRow idx_shape_cong[OF i] by (simp add: wf_index_def)
  moreover have "k \<in> set (bucketOf t1 c v) \<longleftrightarrow> (\<exists>r. mget (Rows t1) k = Some r \<and> valueKey (rget r c) = v)"
    if "mhas (Indexes t1) c" for c v k
  proof -
    have h: "mhas (Indexes t) c" using that i by simp
    have "k \<in> set (bucketOf t c v) \<longleftrightarrow> (\<exists>r. mget (Rows t) k = Some r \<and> valueKey (rget r c) = v)"
      using wf_indexD[OF assms(1) h] .
    then show ?thesis using assms(2,3) unfolding bucketOf_cong[OF i] bucketOf_unindexRow by (auto simp: gomap_simps)
  qed
  ultimately show ?thesis unfolding wf_index_def by blast
qed

section \<open>Preserving the row invariant\<close>

lemma wf_rows_append [wf_intros]:
  assumes "wf_rows t" "key \<notin> set (Order t)" "key \<noteq> []"
    and "Rows t1 = mset_at (Rows t) key row" "Order t1 = Order t @ [key]" "dead t1 = dead t"
  shows "wf_rows t1"
proof -
  have "filter (\<lambda>k. mget (Rows t1) k = None) (Order t) = filter (\<lambda>k. mget (Rows t) k = None) (Order t)"
    using assms(2,4) by (auto simp: gomap_simps intro: filter_cong)
  with assms show ?thesis by (auto simp: wf_rows_def gomap_simps)
qed

lemma wf_rows_replace [wf_intros]:
  assumes "wf_rows t" "mhas (Rows t) key"
    and "Rows t1 = mset_at (Rows t) key row" "Order t1 = Order t" "dead t1 = dead t"
  shows "wf_rows t1"
proof -
  have k: "mkeys (Rows t1) = mkeys (Rows t)" using assms(2,3) by (simp add: mkeys_update_present del: not_None_eq)
  have "mget (Rows t1) k = None \<longleftrightarrow> mget (Rows t) k = None" for k by (simp only: mget_None_iff k)
  with k assms(1,4,5) show ?thesis by (simp add: wf_rows_def del: not_None_eq)
qed

lemma wf_rows_delete [wf_intros]:
  assumes "wf_rows t" "mhas (Rows t) key"
    and "Rows t1 = mdel (Rows t) key" "Order t1 = Order t" "dead t1 = dead t + 1"
  shows "wf_rows t1"
proof -
  have ko: "key \<in> set (Order t)" "distinct (Order t)" using assms(1,2) by (auto simp: wf_rows_def)
  have "length (filter (\<lambda>k. k = key \<or> P k) xs) = length (filter P xs) + 1"
    if "key \<in> set xs" "distinct xs" "\<not> P key" for P and xs :: "string list"
    using that
  proof (induction xs)
    case (Cons x xs)
    show ?case
    proof (cases "x = key")
      case True
      with Cons.prems have "filter (\<lambda>k. k = key \<or> P k) xs = filter P xs" by (auto intro: filter_cong)
      with True Cons.prems show ?thesis by simp
    qed (use Cons in auto)
  qed simp
  note this[OF ko, of "\<lambda>k. mget (Rows t) k = None"]
  moreover have "mget (Rows t1) k = None \<longleftrightarrow> k = key \<or> mget (Rows t) k = None" for k
    using assms(3) by (simp add: gomap_simps)
  moreover have "mwf (Rows t1)" using assms(1,3) by (simp add: wf_rows_def)
  ultimately show ?thesis using assms(1,2,4,5) by (auto simp: wf_rows_def)
qed

lemma wf_rows_compact [wf_intros]:
  assumes "wf_rows t" "Rows t1 = Rows t" "Order t1 = filter (\<lambda>k. mhas (Rows t) k) (Order t)" "dead t1 = 0"
  shows "wf_rows t1"
  using assms by (auto simp: wf_rows_def filter_empty_conv)

lemma slowView_compact:
  assumes "Rows t1 = Rows t" "Order t1 = filter (\<lambda>k. mhas (Rows t) k) (Order t)" "Columns t1 = Columns t"
  shows "slowView t1 = slowView t"
  using assms by (simp add: slowView_def live_def rowAt_def cong: map_cong)

lemma indexRow_frame [simp]:
  "tName (indexRow k r t) = tName t" "Columns (indexRow k r t) = Columns t"
  "Order (indexRow k r t) = Order t" "IndexNames (indexRow k r t) = IndexNames t"
  "dead (indexRow k r t) = dead t" "autoKey (indexRow k r t) = autoKey t" "fast (indexRow k r t) = fast t"
  using indexRow_upd[of k r t] by auto

lemma unindexRow_frame [simp]:
  "tName (unindexRow k r t) = tName t" "Columns (unindexRow k r t) = Columns t"
  "Order (unindexRow k r t) = Order t" "IndexNames (unindexRow k r t) = IndexNames t"
  "dead (unindexRow k r t) = dead t" "autoKey (unindexRow k r t) = autoKey t" "fast (unindexRow k r t) = fast t"
  using unindexRow_upd[of k r t] by auto

text \<open>Replacing the row of a key in every index: the old row is taken out, the new one put in.\<close>

lemma wf_index_replace [wf_intros]:
  assumes "wf_index t" "mget (Rows t) key = Some old"
  shows "wf_index (indexRow key row ((unindexRow key old t)\<lparr>Rows := mset_at (Rows t) key row\<rparr>))"
proof -
  let ?t0 = "(unindexRow key old t)\<lparr>Rows := mdel (Rows t) key\<rparr>"
  have "wf_index ?t0" using wf_index_remove[OF assms] by blast
  moreover have "indexRow key row (?t0\<lparr>Rows := mset_at (mdel (Rows t) key) key row\<rparr>) = 
      (indexRow key row ((unindexRow key old t)\<lparr>Rows := mset_at (Rows t) key row\<rparr>))\<lparr>Rows := mset_at (mdel (Rows t) key) key row\<rparr>"
    by (simp add: indexRow_Rows_upd)
  moreover have "wf_index (indexRow key row (?t0\<lparr>Rows := mset_at (mdel (Rows t) key) key row\<rparr>))"
    using wf_index_add[OF \<open>wf_index ?t0\<close>, of key "?t0\<lparr>Rows := mset_at (mdel (Rows t) key) key row\<rparr>" row]
    by (simp add: gomap_simps)
  ultimately show ?thesis
    by (simp add: wf_index_def bucketOf_def idx_shape_def gomap_simps)
qed

lemma wf_names_cong:
  "IndexNames t' = IndexNames t \<Longrightarrow> mkeys (Indexes t') = mkeys (Indexes t) \<Longrightarrow> Columns t' = Columns t \<Longrightarrow>
   wf_names t' = wf_names t"
  unfolding wf_names_def mhas_iff by simp

lemma wf_index_cong: "Indexes t' = Indexes t \<Longrightarrow> Rows t' = Rows t \<Longrightarrow> wf_index t' = wf_index t"
  by (simp add: wf_index_def idx_shape_def bucketOf_def)

lemma wf_rows_cong: "Rows t' = Rows t \<Longrightarrow> Order t' = Order t \<Longrightarrow> dead t' = dead t \<Longrightarrow> wf_rows t' = wf_rows t"
  by (simp add: wf_rows_def)

lemma keys_ok_cong: "Rows t' = Rows t \<Longrightarrow> Columns t' = Columns t \<Longrightarrow> keys_ok t' = keys_ok t"
  by (simp add: keys_ok_def primaryColumn_def)

text \<open>A key that a row can be stored under.\<close>

definition keyFits :: "column list \<Rightarrow> string \<Rightarrow> row \<Rightarrow> bool" where
  "keyFits cols key row \<longleftrightarrow> key \<noteq> [] \<and> (hasPrimaryColumn cols \<longrightarrow> key = valueKey (rget row (primaryOf cols)))"

text \<open>A table that differs from a well-formed one in its fast array only.\<close>

lemma wf_table_fastI:
  assumes "fast_ok t'" "wf_columns (Columns t)" "wf_rows t" "wf_index t" "wf_names t" "keys_ok t"
    and "Columns t' = Columns t" "Rows t' = Rows t" "Order t' = Order t" "dead t' = dead t"
      "Indexes t' = Indexes t" "IndexNames t' = IndexNames t"
  shows "wf_table t'"
  unfolding wf_table_def wf_rows_cong[OF assms(8,9,10)] wf_index_cong[OF assms(11,8)]
    keys_ok_cong[OF assms(8,7)] wf_names_cong[OF assms(12) arg_cong[OF assms(11)] assms(7)] assms(7)
  using assms(1-6) by blast

lemma wf_table_rebuild [wf_intros]:
  assumes "wf_columns (Columns t)" "wf_rows t" "wf_index t" "wf_names t" "keys_ok t"
  shows "wf_table (rebuildFastPathLocked t)"
  using rebuild_ok[OF assms(1,2)] assms by (rule wf_table_fastI) simp_all

section \<open>A table to look at\<close>

lemma newTable_wf: "wf_columns cols \<Longrightarrow> wf_table (newTable name cols)"
  by (simp add: wf_table_def wf_rows_def fast_ok_def wf_index_def idx_shape_def wf_names_def keys_ok_def newTable_def)

lemma newTable_big: "fast_big (newTable name cols)"
  by (simp add: fast_big_def newTable_def)

text \<open>\<^verbatim>\<open>users(id INT PRIMARY KEY, name TEXT)\<close>, the table of the concrete instances.\<close>

section \<open>Positions without an array\<close>

text \<open>A table without a fast array has no positions either: lookups fall back to the row maps.\<close>

definition pos_nil :: "table \<Rightarrow> bool" where
  "pos_nil t \<longleftrightarrow> (fast t = [] \<longrightarrow> fastPos t = [])"

lemma rebuildLoop_nil: "fst (rebuildLoop t keys acc pos) = [] \<Longrightarrow> snd (rebuildLoop t keys acc pos) = pos"
proof (induction keys arbitrary: acc pos)
  case (Cons k keys)
  then show ?case using rebuildLoop_rows[of t keys] by (cases "mget (Rows t) k") (auto simp: Let_def)
qed simp

lemma pos_nil_fast [wf_intros]:
  "pos_nil (noFast t)" "pos_nil (rebuildFastPathLocked t)"
  "pos_nil t \<Longrightarrow> pos_nil (appendFastRowLocked k r t)" "pos_nil t \<Longrightarrow> pos_nil (removeFastRowLocked k t)"
  "pos_nil t \<Longrightarrow> pos_nil (replaceFastRowLocked k r t)" "pos_nil t \<Longrightarrow> pos_nil (updateFastRowLocked k c v t)"
  "pos_nil t \<Longrightarrow> pos_nil (rekeyFastRowLocked k l v t)"
proof -
  show n: "pos_nil (noFast t)" for t by (simp add: pos_nil_def noFast_def)
  have "fs = [] \<Longrightarrow> rebuildLoop t (Order t) [] [] = (fs, pos) \<Longrightarrow> pos = []" for fs pos
    using rebuildLoop_nil[of t "Order t" "[]" "[]"] by simp
  with n show r: "pos_nil (rebuildFastPathLocked t)" for t
    using rebuildLoop_nil[of t "Order t" "[]" "[]"] by (auto simp: rebuildFastPathLocked_def pos_nil_def split: prod.splits)
  show "pos_nil t \<Longrightarrow> pos_nil (appendFastRowLocked k r t)"
    using r[of t] by (auto simp: appendFastRowLocked_def) (auto simp: pos_nil_def)
  show "pos_nil t \<Longrightarrow> pos_nil (removeFastRowLocked k t)"
    using n[of t] by (auto simp: removeFastRowLocked_def pos_nil_def split: option.splits)
  show "pos_nil t \<Longrightarrow> pos_nil (replaceFastRowLocked k r t)"
    using r by (auto simp: replaceFastRowLocked_def pos_nil_def split: option.splits)
  show "pos_nil t \<Longrightarrow> pos_nil (updateFastRowLocked k c v t)"
    using r by (auto simp: updateFastRowLocked_def pos_nil_def split: option.splits)
  show "pos_nil t \<Longrightarrow> pos_nil (rekeyFastRowLocked k l v t)"
    using r by (auto simp: rekeyFastRowLocked_def pos_nil_def Let_def split: option.splits)
qed

definition users :: table where
  "users = newTable ''users''
     [\<lparr>cName = ''id'', cType = TInt, cPrimary = True\<rparr>, \<lparr>cName = ''name'', cType = TText, cPrimary = False\<rparr>]"

lemma users_wf: "wf_table users" "fast_big users"
  unfolding users_def by (rule newTable_wf, simp add: wf_columns_def, rule newTable_big)

end
