(* ===== verification/Parser.thy ===== *)
theory Parser
  imports Types
begin

text \<open>
  \<^verbatim>\<open>internal/engine/parser.go\<close>: literals, value lists, WHERE terms and their evaluation, with
  the value order of \<^verbatim>\<open>internal/engine/select.go\<close> (\<^verbatim>\<open>valueLess\<close>, \<^verbatim>\<open>numeric\<close>).

  The byte scanners keep their state in arguments: \<open>q\<close> is the quote flag, \<open>cur\<close> the text
  \<^verbatim>\<open>s[start:i]\<close> read since the last split, and the last argument the bytes from \<open>i\<close> on. The
  scanners skip a doubled quote inside a literal (\<^verbatim>\<open>skipQuoted\<close>), which is the same as toggling
  the flag twice (\<open>splitValsLoop_Cons\<close>).

  The pattern matcher is compared with a declarative LIKE (\<open>likeLoop_iff_likeSpec\<close>): the two agree on
  every value without a literal percent sign, and only there.
\<close>

section \<open>The order of values (select.go)\<close>

abbreviation quoteChar :: char where
  "quoteChar \<equiv> CHR 0x27"

definition numeric :: "goval \<Rightarrow> float64 option" where
  "numeric v = (case v of VInt i \<Rightarrow> Some (fOfInt i) | VFloat f \<Rightarrow> Some f | _ \<Rightarrow> None)"

definition valueLess :: "goval \<Rightarrow> goval \<Rightarrow> bool" where
  "valueLess left right =
     (case (left, right) of
        (VInt l, VInt r) \<Rightarrow> l < r
      | (VStr l, VStr r) \<Rightarrow> l < r
      | (VBool l, VBool r) \<Rightarrow> \<not> l \<and> r
      | (VFloat l, VFloat r) \<Rightarrow> fLess l r
      | _ \<Rightarrow> (case (numeric left, numeric right) of
               (Some l, Some r) \<Rightarrow> fLess l r
             | _ \<Rightarrow> Sprint left < Sprint right))"

datatype whereOp = opEq | opNe | opLt | opLe | opGt | opGe | opIn | opBetween | opLike

definition orderedCompare :: "goval \<Rightarrow> goval \<Rightarrow> whereOp \<Rightarrow> bool" where
  "orderedCompare actual expected op =
     (case op of
        opLt \<Rightarrow> valueLess actual expected
      | opLe \<Rightarrow> \<not> valueLess expected actual
      | opGt \<Rightarrow> valueLess expected actual
      | opGe \<Rightarrow> \<not> valueLess actual expected
      | _ \<Rightarrow> False)"

section \<open>Literals\<close>

definition unquoteLiteral :: "string \<Rightarrow> string" where
  "unquoteLiteral s0 =
     (let s = TrimSpace s0 in
      if 2 \<le> length s \<and> hd s = quoteChar \<and> last s = quoteChar then undouble (butlast (tl s))
      else trimByte quoteChar s)"

fun splitValsLoop :: "bool \<Rightarrow> string \<Rightarrow> string \<Rightarrow> string list" where
  "splitValsLoop q cur [] = [TrimSpace cur]"
| "splitValsLoop q cur (c # cs) =
     (if c = quoteChar then
        (case cs of
           d # ds \<Rightarrow>
             if q \<and> d = quoteChar then splitValsLoop q (cur @ [c, d]) ds
             else splitValsLoop (\<not> q) (cur @ [c]) cs
         | [] \<Rightarrow> splitValsLoop (\<not> q) (cur @ [c]) cs)
      else if c = CHR '','' \<and> \<not> q then TrimSpace cur # splitValsLoop q [] cs
      else splitValsLoop q (cur @ [c]) cs)"

declare splitValsLoop.simps(2) [simp del]

definition splitVals :: "string \<Rightarrow> string list" where
  "splitVals s = splitValsLoop False [] s"

definition parseVal :: "string \<Rightarrow> coltype \<Rightarrow> goval res" where
  "parseVal raw0 typ =
     (let raw = TrimSpace raw0 in
      if EqualFold raw ''NULL'' then Inr VNil
      else case typ of
        TText \<Rightarrow> Inr (VStr (unquoteLiteral raw))
      | TInt \<Rightarrow> map_sum id VInt (ParseInt raw)
      | TFloat \<Rightarrow> map_sum id VFloat (ParseFloat raw)
      | TBool \<Rightarrow> map_sum id VBool (ParseBool raw)
      | TOther _ \<Rightarrow> Inl (Msg ''unknown type''))"

definition literalValue :: "string \<Rightarrow> coltype \<Rightarrow> goval" where
  "literalValue raw typ =
     (let unq = unquoteLiteral (TrimSpace raw) in
      case parseVal unq typ of Inr v \<Rightarrow> v | Inl _ \<Rightarrow> VStr unq)"

text \<open>\<^verbatim>\<open>(v1, v2, ...)\<close>: the text between the mandatory parentheses.\<close>

definition parenBody :: "string \<Rightarrow> string option" where
  "parenBody raw0 =
     (let raw = TrimSpace raw0 in
      if length raw < 2 \<or> hd raw \<noteq> CHR ''('' \<or> last raw \<noteq> CHR '')'' then None
      else Some (butlast (tl raw)))"

definition parseInList :: "string \<Rightarrow> coltype \<Rightarrow> goval list option" where
  "parseInList raw typ =
     (case parenBody raw of
        None \<Rightarrow> None
      | Some body \<Rightarrow>
          let vals = splitVals body in
          if list_ex (\<lambda>v. TrimSpace v = []) vals then None
          else if vals = [] then None
          else Some (map (\<lambda>v. literalValue v typ) vals))"

definition inListValues :: "string \<Rightarrow> string list" where
  "inListValues raw =
     (case parenBody raw of None \<Rightarrow> [] | Some body \<Rightarrow> map unquoteLiteral (splitVals body))"

section \<open>Logical operators\<close>

fun skipBlank :: "string \<Rightarrow> string" where
  "skipBlank [] = []"
| "skipBlank (c # cs) = (if c \<in> {CHR '' '', CHR 0x09, CHR 0x0A, CHR 0x0D} then skipBlank cs else c # cs)"

definition isBetweenOperator :: "char option \<Rightarrow> string \<Rightarrow> bool" where
  "isBetweenOperator prev s =
     (if (case prev of None \<Rightarrow> False | Some p \<Rightarrow> identifierByte p) then False
      else if \<not> foldEqualAt s ''BETWEEN'' then False
      else let rest = drop 7 s in
        if (case rest of [] \<Rightarrow> False | c # _ \<Rightarrow> identifierByte c) then False
        else case skipBlank rest of
            [] \<Rightarrow> False
          | c # _ \<Rightarrow> c \<noteq> CHR ''='' \<and> c \<noteq> CHR ''<'' \<and> c \<noteq> CHR ''>'' \<and> c \<noteq> CHR ''!'')"

function splitLogicalLoop :: "string \<Rightarrow> bool \<Rightarrow> nat \<Rightarrow> char option \<Rightarrow> string \<Rightarrow> string \<Rightarrow> string list" where
  "splitLogicalLoop operator q pending prev cur s =
     (let needle = CHR '' '' # operator @ '' '' in
      if length s < length needle then [TrimSpace (cur @ s)]
      else case s of
        [] \<Rightarrow> [TrimSpace cur]
      | c # cs \<Rightarrow>
          if c = quoteChar \<and> q \<and> cs \<noteq> [] \<and> hd cs = quoteChar then
            splitLogicalLoop operator q pending (Some (hd cs)) (cur @ [c, hd cs]) (tl cs)
          else
            let q' = (if c = quoteChar then \<not> q else q) in
            if q' then splitLogicalLoop operator q' pending (Some c) (cur @ [c]) cs
            else
              let pending' = (if operator = ''AND'' \<and> isBetweenOperator prev s then pending + 1 else pending) in
              if foldEqualAt s needle then
                if 0 < pending' then splitLogicalLoop operator q' (pending' - 1) (Some c) (cur @ [c]) cs
                else TrimSpace cur # splitLogicalLoop operator q' pending' (Some (CHR '' '')) [] (drop (length needle) s)
              else splitLogicalLoop operator q' pending' (Some c) (cur @ [c]) cs)"
  by pat_completeness auto
termination
  by (relation "measure (\<lambda>(operator, q, pending, prev, cur, s). length s)") auto

declare splitLogicalLoop.simps [simp del]

definition splitLogical :: "string \<Rightarrow> string \<Rightarrow> string list" where
  "splitLogical s operator = splitLogicalLoop operator False 0 None [] s"

section \<open>Terms\<close>

definition opNeOrLe :: "char \<Rightarrow> whereOp" where
  "opNeOrLe c = (if c = CHR ''!'' then opNe else opLe)"

fun splitConditionTermLoop :: "bool \<Rightarrow> string \<Rightarrow> string \<Rightarrow> (string \<times> whereOp \<times> string) option" where
  "splitConditionTermLoop q lhs [] = None"
| "splitConditionTermLoop q lhs (c # cs) =
     (if c = quoteChar then
        (case cs of
           d # ds \<Rightarrow>
             if q \<and> d = quoteChar then splitConditionTermLoop q (lhs @ [c, d]) ds
             else splitConditionTermLoop (\<not> q) (lhs @ [c]) cs
         | [] \<Rightarrow> splitConditionTermLoop (\<not> q) (lhs @ [c]) cs)
      else if q then splitConditionTermLoop q (lhs @ [c]) cs
      else if c = CHR ''!'' \<or> c = CHR ''<'' then
        (if cs \<noteq> [] \<and> hd cs = CHR ''='' then Some (lhs, opNeOrLe c, tl cs)
         else if c = CHR ''<'' then
           (if cs \<noteq> [] \<and> hd cs = CHR ''>'' then Some (lhs, opNe, tl cs) else Some (lhs, opLt, cs))
         else None)
      else if c = CHR ''>'' then
        (if cs \<noteq> [] \<and> hd cs = CHR ''='' then Some (lhs, opGe, tl cs) else Some (lhs, opGt, cs))
      else if c = CHR ''='' then Some (lhs, opEq, cs)
      else splitConditionTermLoop q (lhs @ [c]) cs)"

declare splitConditionTermLoop.simps(2) [simp del]

definition splitConditionTerm :: "string \<Rightarrow> (string \<times> whereOp \<times> string) option" where
  "splitConditionTerm s = splitConditionTermLoop False [] s"

fun bestKeyword :: "string \<Rightarrow> (string \<times> whereOp) list \<Rightarrow> (nat \<times> string \<times> whereOp) option \<Rightarrow> (nat \<times> string \<times> whereOp) option" where
  "bestKeyword s [] best = best"
| "bestKeyword s ((kw, op) # kws) best =
     bestKeyword s kws
       (case indexKeyword s kw of
          None \<Rightarrow> best
        | Some i \<Rightarrow> (case best of
             None \<Rightarrow> Some (i, kw, op)
           | Some (j, _) \<Rightarrow> if i < j then Some (i, kw, op) else best))"

definition splitSpecialTerm :: "string \<Rightarrow> (string \<times> whereOp \<times> string) option" where
  "splitSpecialTerm s =
     (case bestKeyword s [(''BETWEEN'', opBetween), (''IN'', opIn), (''LIKE'', opLike)] None of
        None \<Rightarrow> None
      | Some (i, kw, op) \<Rightarrow> Some (take i s, op, drop (i + length kw) s))"

definition splitTerm :: "string \<Rightarrow> (string \<times> whereOp \<times> string) option" where
  "splitTerm s = (case splitConditionTerm s of Some r \<Rightarrow> Some r | None \<Rightarrow> splitSpecialTerm s)"

definition splitBetweenBounds :: "string \<Rightarrow> (string \<times> string) option" where
  "splitBetweenBounds raw =
     (if indexKeyword raw ''OR'' \<noteq> None then None
      else case splitLogical raw ''AND'' of
        [a, b] \<Rightarrow>
          let lo = TrimSpace a; hi = TrimSpace b in
          if lo = [] \<or> hi = [] then None else Some (lo, hi)
      | _ \<Rightarrow> None)"

text \<open>The result is None when the statement has no WHERE.\<close>

definition invalidWhere :: error where
  "invalidWhere = Msg ''invalid WHERE expression''"

definition parseMutationWhere :: "string \<Rightarrow> (string \<times> string \<times> whereOp) option res" where
  "parseMutationWhere s =
     (case indexKeyword s ''WHERE'' of
        None \<Rightarrow> Inr None
      | Some i \<Rightarrow>
          let rest = TrimSpace (drop (i + 5) s) in
          if rest = [] then Inl invalidWhere
          else case splitTerm rest of
            None \<Rightarrow> Inl invalidWhere
          | Some (lhs, op, rhs) \<Rightarrow>
              if op = opBetween \<and> splitBetweenBounds rhs = None then Inl invalidWhere
              else if op \<noteq> opBetween \<and> (indexKeyword rest ''AND'' \<noteq> None \<or> indexKeyword rest ''OR'' \<noteq> None) then
                Inl invalidWhere
              else
                let column = ToLower (TrimSpace lhs); raw = TrimSpace rhs in
                if column = [] \<or> raw = [] then Inl invalidWhere
                else Inr (Some (column, unquoteLiteral raw, op)))"

section \<open>LIKE\<close>

text \<open>
  \<^verbatim>\<open>[]rune(s)\<close>: UTF-8 decoding as Go does it. A byte that starts no valid encoding is the rune
  U+FFFD of width one.
\<close>

definition contByte :: "nat \<Rightarrow> bool" where
  "contByte b \<longleftrightarrow> 0x80 \<le> b \<and> b \<le> 0xBF"

definition decodeRune :: "string \<Rightarrow> nat \<times> nat" where
  "decodeRune s =
     (case map byte (take 4 s) of
        [] \<Rightarrow> (0xFFFD, 0)
      | b0 # bs \<Rightarrow>
          if b0 < 0x80 then (b0, 1)
          else if 0xC2 \<le> b0 \<and> b0 \<le> 0xDF then
            (case bs of b1 # _ \<Rightarrow>
               if contByte b1 then ((b0 - 0xC0) * 64 + (b1 - 0x80), 2) else (0xFFFD, 1)
             | _ \<Rightarrow> (0xFFFD, 1))
          else if 0xE0 \<le> b0 \<and> b0 \<le> 0xEF then
            (case bs of b1 # b2 # _ \<Rightarrow>
               if contByte b1 \<and> contByte b2 \<and> (b0 = 0xE0 \<longrightarrow> 0xA0 \<le> b1) \<and> (b0 = 0xED \<longrightarrow> b1 \<le> 0x9F)
               then ((b0 - 0xE0) * 4096 + (b1 - 0x80) * 64 + (b2 - 0x80), 3) else (0xFFFD, 1)
             | _ \<Rightarrow> (0xFFFD, 1))
          else if 0xF0 \<le> b0 \<and> b0 \<le> 0xF4 then
            (case bs of b1 # b2 # b3 # _ \<Rightarrow>
               if contByte b1 \<and> contByte b2 \<and> contByte b3 \<and> (b0 = 0xF0 \<longrightarrow> 0x90 \<le> b1) \<and> (b0 = 0xF4 \<longrightarrow> b1 \<le> 0x8F)
               then ((b0 - 0xF0) * 262144 + (b1 - 0x80) * 4096 + (b2 - 0x80) * 64 + (b3 - 0x80), 4)
               else (0xFFFD, 1)
             | _ \<Rightarrow> (0xFFFD, 1))
          else (0xFFFD, 1))"

function runes :: "string \<Rightarrow> nat list" where
  "runes s = (if s = [] then [] else let (r, n) = decodeRune s in r # runes (drop (max 1 n) s))"
  by pat_completeness auto
termination
  by (relation "measure length") auto

declare runes.simps [simp del]

text \<open>
  The loop of \<^verbatim>\<open>likeMatch\<close>: \<open>p\<close> and \<open>v\<close> are \<^verbatim>\<open>p[pi:]\<close> and \<^verbatim>\<open>v[vi:]\<close>. The remembered star is the
  pattern after it (\<^verbatim>\<open>p[starP+1:]\<close>) and the runes \<^verbatim>\<open>v[starV:vi]\<close> read since.
\<close>

function likeLoop :: "nat list \<Rightarrow> nat list \<Rightarrow> (nat list \<times> nat list) option \<Rightarrow> bool" where
  "likeLoop p v star =
     (case v of
        [] \<Rightarrow> dropWhile (\<lambda>r. r = 37) p = []
      | c # cs \<Rightarrow>
          if p \<noteq> [] \<and> (hd p = 95 \<or> hd p = c) then
            likeLoop (tl p) cs (map_option (\<lambda>(sp, used). (sp, used @ [c])) star)
          else if p \<noteq> [] \<and> hd p = 37 then likeLoop (tl p) v (Some (tl p, []))
          else case star of
              Some (sp, used) \<Rightarrow> likeLoop sp (tl (used @ v)) (Some (sp, []))
            | None \<Rightarrow> False)"
  by pat_completeness auto
termination
  by (relation "measures [\<lambda>(p, v, star). length v + (case star of None \<Rightarrow> 0 | Some (sp, used) \<Rightarrow> length used),
       \<lambda>(p, v, star). length v + length p]")
     (auto simp: length_greater_0_conv[symmetric] simp del: length_greater_0_conv split: option.splits)

declare likeLoop.simps [simp del]

definition likeMatch :: "string \<Rightarrow> string \<Rightarrow> bool" where
  "likeMatch pattern val = likeLoop (runes pattern) (runes val) None"

section \<open>Evaluating a term\<close>

definition matchWhereValue :: "goval \<Rightarrow> string \<Rightarrow> bool" where
  "matchWhereValue rowValue wv =
     (case rowValue of
        VStr v \<Rightarrow> v = wv
      | VBool v \<Rightarrow> v \<and> wv = ''true'' \<or> \<not> v \<and> wv = ''false''
      | _ \<Rightarrow> Sprint rowValue = wv)"

definition matchBetween :: "goval \<Rightarrow> goval \<Rightarrow> bool" where
  "matchBetween actual expected =
     (case expected of
        VList [lo, hi] \<Rightarrow> orderedCompare actual lo opGe \<and> orderedCompare actual hi opLe
      | _ \<Rightarrow> False)"

definition matchWhereOp :: "goval \<Rightarrow> string \<Rightarrow> goval \<Rightarrow> whereOp \<Rightarrow> bool" where
  "matchWhereOp rowValue wv expected op =
     (case op of
        opEq \<Rightarrow> matchWhereValue rowValue wv
      | opNe \<Rightarrow> \<not> matchWhereValue rowValue wv
      | opIn \<Rightarrow> list_ex (matchWhereValue rowValue) (inListValues wv)
      | opBetween \<Rightarrow> matchBetween rowValue expected
      | opLike \<Rightarrow>
          (case rowValue of
             VStr str \<Rightarrow> likeMatch (case expected of VStr p \<Rightarrow> p | _ \<Rightarrow> []) str
           | _ \<Rightarrow> False)
      | _ \<Rightarrow> orderedCompare rowValue expected op)"

definition conditionValueEqual :: "goval \<Rightarrow> goval \<Rightarrow> bool" where
  "conditionValueEqual actual expected =
     (case expected of
        VNil \<Rightarrow> actual = VNil
      | VStr x \<Rightarrow> (case actual of VStr a \<Rightarrow> a = x | _ \<Rightarrow> False)
      | VInt x \<Rightarrow> (case actual of VInt a \<Rightarrow> a = x | _ \<Rightarrow> False)
      | VFloat x \<Rightarrow> (case actual of VFloat a \<Rightarrow> fEq a x | _ \<Rightarrow> False)
      | VBool x \<Rightarrow> (case actual of VBool a \<Rightarrow> a = x | _ \<Rightarrow> False)
      | _ \<Rightarrow> Sprint actual = Sprint expected)"

definition conditionValueCompare :: "goval \<Rightarrow> goval \<Rightarrow> whereOp \<Rightarrow> bool" where
  "conditionValueCompare actual expected op =
     (case op of
        opEq \<Rightarrow> conditionValueEqual actual expected
      | opNe \<Rightarrow> \<not> conditionValueEqual actual expected
      | opIn \<Rightarrow> (case expected of VList items \<Rightarrow> list_ex (conditionValueEqual actual) items | _ \<Rightarrow> False)
      | opBetween \<Rightarrow> matchBetween actual expected
      | opLike \<Rightarrow> (case (expected, actual) of (VStr p, VStr str) \<Rightarrow> likeMatch p str | _ \<Rightarrow> False)
      | _ \<Rightarrow> orderedCompare actual expected op)"

section \<open>Compiled conditions\<close>

record conditionTerm =
  ctColumn :: string
  ctExpected :: goval
  ctOp :: whereOp

type_synonym compiledCondition = "conditionTerm list list"

definition columnTypes :: "column list \<Rightarrow> (string, coltype) gomap" where
  "columnTypes cols = fold (\<lambda>c m. mset_at m (cName c) (cType c)) cols []"

definition compileTerm :: "(string, coltype) gomap \<Rightarrow> string \<Rightarrow> conditionTerm option" where
  "compileTerm types conjunction =
     (case splitTerm conjunction of
        None \<Rightarrow> None
      | Some (lhs, op, rhs) \<Rightarrow>
          let column = ToLower (TrimSpace lhs) in
          if column = [] then None
          else case mget types column of
            None \<Rightarrow> None
          | Some typ \<Rightarrow>
              let raw = TrimSpace rhs in
              if raw = [] then None
              else case (case op of
                    opIn \<Rightarrow> map_option VList (parseInList raw typ)
                  | opBetween \<Rightarrow>
                      (case splitBetweenBounds raw of
                         None \<Rightarrow> None
                       | Some (lo, hi) \<Rightarrow> Some (VList [literalValue lo typ, literalValue hi typ]))
                  | opLike \<Rightarrow> Some (VStr (unquoteLiteral raw))
                  | _ \<Rightarrow> Some (literalValue raw typ)) of
                None \<Rightarrow> None
              | Some expected \<Rightarrow> Some \<lparr>ctColumn = column, ctExpected = expected, ctOp = op\<rparr>)"

fun mapM :: "('a \<Rightarrow> 'b option) \<Rightarrow> 'a list \<Rightarrow> 'b list option" where
  "mapM f [] = Some []"
| "mapM f (x # xs) = (case f x of None \<Rightarrow> None | Some y \<Rightarrow> map_option ((#) y) (mapM f xs))"

definition compileCondition :: "string \<Rightarrow> column list \<Rightarrow> compiledCondition option" where
  "compileCondition expression columns =
     (if TrimSpace expression = [] then Some []
      else mapM (\<lambda>disjunction. mapM (compileTerm (columnTypes columns)) (splitLogical disjunction ''AND''))
             (splitLogical expression ''OR''))"

definition matchesMap :: "compiledCondition \<Rightarrow> row \<Rightarrow> bool" where
  "matchesMap c row =
     list_ex (list_all (\<lambda>t. conditionValueCompare (rget row (ctColumn t)) (ctExpected t) (ctOp t))) c"

definition matchesFast :: "compiledCondition \<Rightarrow> goval list \<Rightarrow> (string, nat) gomap \<Rightarrow> bool" where
  "matchesFast c vals columns =
     list_ex (list_all (\<lambda>t.
       case mget columns (ctColumn t) of
         None \<Rightarrow> False
       | Some i \<Rightarrow> conditionValueCompare (vals ! i) (ctExpected t) (ctOp t))) c"

section \<open>LIKE against its specification\<close>

text \<open>
  SQL LIKE on runes: \<^verbatim>\<open>%\<close> (37) stands for any run of runes, \<^verbatim>\<open>_\<close> (95) for one rune, and every
  other rune for itself.
\<close>

fun likeSpec :: "nat list \<Rightarrow> nat list \<Rightarrow> bool" where
  "likeSpec [] v \<longleftrightarrow> v = []"
| "likeSpec (x # p) v \<longleftrightarrow>
     (if x = 37 then \<exists>u w. v = u @ w \<and> likeSpec p w
      else case v of [] \<Rightarrow> False | c # cs \<Rightarrow> (x = 95 \<or> x = c) \<and> likeSpec p cs)"

lemma likeSpec_length: "likeSpec p v \<Longrightarrow> length (filter (\<lambda>x. x \<noteq> 37) p) \<le> length v"
proof (induction p v rule: likeSpec.induct)
  case (2 x p v)
  then show ?case by (fastforce split: if_splits list.splits)
qed simp

text \<open>The part of a pattern since its last star, matched rune by rune.\<close>

definition literalRun :: "nat list \<Rightarrow> nat list \<Rightarrow> bool" where
  "literalRun = list_all2 (\<lambda>x c. x \<noteq> 37 \<and> (x = 95 \<or> x = c))"

lemma likeSpec_literalRun: "literalRun pre used \<Longrightarrow> likeSpec (pre @ p) (used @ v) \<longleftrightarrow> likeSpec p v"
  unfolding literalRun_def by (induction rule: list_all2_induct) auto

lemma likeSpec_no_star:
  "37 \<notin> set pre \<Longrightarrow> likeSpec (pre @ p) w \<Longrightarrow> length pre \<le> length w \<and> likeSpec p (drop (length pre) w)"
  by (induction pre arbitrary: w) (auto split: list.splits)

lemma likeSpec_star_mono: "likeSpec (37 # p) w \<Longrightarrow> likeSpec (37 # p) (u @ w)"
  by (auto) (metis append_assoc)

lemma likeSpec_star_restart:
  assumes run: "literalRun pre used"
  shows "likeSpec (37 # pre @ 37 # p) (used @ v) \<longleftrightarrow> likeSpec (37 # p) v"
proof
  assume "likeSpec (37 # pre @ 37 # p) (used @ v)"
  then obtain u w where uw: "used @ v = u @ w" and "likeSpec (pre @ 37 # p) w" by auto
  moreover have "37 \<notin> set pre" using run unfolding literalRun_def by (induction rule: list_all2_induct) auto
  ultimately have *: "length pre \<le> length w" "likeSpec (37 # p) (drop (length pre) w)"
    using likeSpec_no_star by blast+
  have "length pre = length used" using run by (simp add: literalRun_def list_all2_lengthD)
  with * uw have "drop (length pre) w = drop (length u + length pre - length used) v"
    by (metis append_eq_conv_conj drop_drop diff_add_inverse2 add.commute)
  with *(2) show "likeSpec (37 # p) v" using likeSpec_star_mono by (metis append_take_drop_id)
next
  assume "likeSpec (37 # p) v"
  with run have "likeSpec (pre @ 37 # p) (used @ v)" by (simp only: likeSpec_literalRun)
  then show "likeSpec (37 # pre @ 37 # p) (used @ v)" by (metis append_Nil likeSpec.simps(2))
qed
text \<open>
  The invariant of the loop: the pattern after the remembered star is the part already matched
  literally followed by the rest, and the loop decides whether that pattern, free to start later,
  matches what the star had in front of it.
\<close>

definition starOk :: "nat list \<Rightarrow> (nat list \<times> nat list) option \<Rightarrow> bool" where
  "starOk p star \<longleftrightarrow> (case star of None \<Rightarrow> True
     | Some (sp, used) \<Rightarrow> 37 \<notin> set used \<and> (\<exists>pre. sp = pre @ p \<and> literalRun pre used))"

definition starGoal :: "nat list \<Rightarrow> nat list \<Rightarrow> (nat list \<times> nat list) option \<Rightarrow> bool" where
  "starGoal p v star \<longleftrightarrow> (case star of None \<Rightarrow> likeSpec p v | Some (sp, used) \<Rightarrow> likeSpec (37 # sp) (used @ v))"

lemma likeSpec_Nil_iff: "likeSpec p [] \<longleftrightarrow> dropWhile (\<lambda>r. r = 37) p = []"
  by (induction p) auto

lemma starGoal_end:
  assumes "starOk p star"
  shows "starGoal p [] star \<longleftrightarrow> dropWhile (\<lambda>r. r = 37) p = []"
proof (cases star)
  case (Some x)
  then obtain sp used pre where x: "star = Some (sp, used)" "sp = pre @ p" and run: "literalRun pre used"
    using assms by (auto simp: starOk_def split: prod.splits)
  have len: "length pre = length used" and no: "\<forall>x \<in> set pre. x \<noteq> 37"
    using run unfolding literalRun_def by (induction rule: list_all2_induct) auto
  have "likeSpec (37 # sp) used \<longleftrightarrow> likeSpec p []"
  proof
    assume "likeSpec (37 # sp) used"
    then have "length (filter (\<lambda>x. x \<noteq> 37) (37 # sp)) \<le> length used" by (rule likeSpec_length)
    with x len no have "filter (\<lambda>x. x \<noteq> 37) p = []" by simp
    then show "likeSpec p []" by (simp add: likeSpec_Nil_iff filter_empty_conv)
  next
    assume "likeSpec p []"
    with run have "likeSpec sp used" using likeSpec_literalRun[of pre used p "[]"] x by simp
    then show "likeSpec (37 # sp) used" by auto
  qed
  with x show ?thesis by (simp add: starGoal_def likeSpec_Nil_iff)
qed (simp add: starGoal_def likeSpec_Nil_iff)

lemma starGoal_match:
  assumes "starOk (x # p) star" "x = 95 \<or> x = c" "c \<noteq> 37"
  shows "starOk p (map_option (\<lambda>(sp, used). (sp, used @ [c])) star)"
    and "starGoal p cs (map_option (\<lambda>(sp, used). (sp, used @ [c])) star) = starGoal (x # p) (c # cs) star"
proof -
  show "starOk p (map_option (\<lambda>(sp, used). (sp, used @ [c])) star)"
  proof (cases star)
    case (Some y)
    with assms(1) obtain used pre where y: "star = Some (pre @ x # p, used)" and run: "literalRun pre used" "37 \<notin> set used"
      by (auto simp: starOk_def split: prod.splits)
    with assms have "literalRun (pre @ [x]) (used @ [c])" by (auto simp: literalRun_def list_all2_appendI)
    with y run assms(3) show ?thesis by (auto simp: starOk_def intro!: exI[of _ "pre @ [x]"])
  qed (simp add: starOk_def)
  show "starGoal p cs (map_option (\<lambda>(sp, used). (sp, used @ [c])) star) = starGoal (x # p) (c # cs) star"
    using assms by (auto simp: starGoal_def split: option.splits)
qed

lemma starGoal_star: "starOk (37 # p) star \<Longrightarrow> starGoal p v (Some (p, [])) = starGoal (37 # p) v star"
  by (auto simp: starOk_def starGoal_def likeSpec_star_restart simp del: likeSpec.simps split: option.splits)

lemma starGoal_back:
  assumes "starOk p star" "\<not> likeSpec p v" "v \<noteq> []"
  shows "starGoal p v star = (case star of None \<Rightarrow> False | Some (sp, used) \<Rightarrow> starGoal sp (tl (used @ v)) (Some (sp, [])))"
proof (cases star)
  case (Some y)
  with assms(1) obtain used pre where y: "star = Some (pre @ p, used)" and run: "literalRun pre used"
    by (auto simp: starOk_def split: prod.splits)
  from assms(3) obtain d ds where d: "used @ v = d # ds" by (cases "used @ v") auto
  from run assms(2) have "\<not> likeSpec (pre @ p) (d # ds)" using likeSpec_literalRun d by metis
  then have "likeSpec (37 # pre @ p) (d # ds) \<longleftrightarrow> likeSpec (37 # pre @ p) ds"
    by (auto simp: Cons_eq_append_conv)
  with y d show ?thesis by (simp add: starGoal_def del: likeSpec.simps)
qed (use assms in \<open>simp add: starGoal_def\<close>)

lemma likeLoop_correct:
  "starOk p star \<Longrightarrow> 37 \<notin> set v \<Longrightarrow> likeLoop p v star = starGoal p v star"
proof (induction p v star rule: likeLoop.induct)
  case (1 p v star)
  show ?case
  proof (cases v)
    case Nil
    with 1 show ?thesis by (simp add: likeLoop.simps[of p "[]"] starGoal_end)
  next
    case (Cons c cs)
    with "1.prems" have c: "c \<noteq> 37" "37 \<notin> set cs" by auto
    consider (lit) x ps where "p = x # ps" "x = 95 \<or> x = c"
      | (star) ps where "p = 37 # ps"
      | (retry) "p = [] \<or> hd p \<noteq> 95 \<and> hd p \<noteq> c \<and> hd p \<noteq> 37"
      by (cases p) auto
    then show ?thesis
    proof cases
      case lit
      with "1.IH"(1)[OF Cons] Cons c "1.prems"(1) show ?thesis
        by (subst likeLoop.simps) (simp add: starGoal_match)
    next
      case star
      with "1.IH"(2)[OF Cons] Cons c "1.prems" show ?thesis
        by (subst likeLoop.simps) (auto simp: starGoal_star starOk_def literalRun_def)
    next
      case retry
      then have "\<not> likeSpec p v" using Cons by (cases p) auto
      note goal = starGoal_back[OF "1.prems"(1) this]
      show ?thesis
      proof (cases star)
        case None
        with retry Cons goal show ?thesis by (subst likeLoop.simps) auto
      next
        case (Some y)
        obtain sp used where y: "y = (sp, used)" by (cases y)
        from "1.prems" Some y have "37 \<notin> set (tl (used @ v))"
          using list.set_sel(2)[of "used @ v"] Cons by (auto simp: starOk_def)
        with "1.IH"(3)[OF Cons _ _ Some y[symmetric]] Some y retry Cons goal show ?thesis
          by (subst likeLoop.simps) (auto simp: starOk_def literalRun_def)
      qed
    qed
  qed
qed

lemma likeLoop_iff_likeSpec: "37 \<notin> set v \<Longrightarrow> likeLoop p v None = likeSpec p v"
  using likeLoop_correct[of p None v] by (simp add: starOk_def starGoal_def)

section \<open>Literals and value lists\<close>

lemma splitValsLoop_open:
  "splitValsLoop False cur (quoteChar # cs) = splitValsLoop True (cur @ [quoteChar]) cs"
  by (simp add: splitValsLoop.simps(2) split: list.split)

lemma splitValsLoop_Cons [simp]:
  "splitValsLoop q cur (c # cs) =
     (if c = CHR '','' \<and> \<not> q then TrimSpace cur # splitValsLoop q [] cs
      else splitValsLoop (if c = quoteChar then \<not> q else q) (cur @ [c]) cs)"
  by (cases cs) (auto simp: splitValsLoop.simps(2)[of q cur c] splitValsLoop_open)

lemma splitValsLoop_nonempty [simp]: "splitValsLoop q cur s \<noteq> []"
  by (induction s arbitrary: q cur) auto

lemma splitVals_nonempty [simp]: "splitVals s \<noteq> []"
  by (simp add: splitVals_def)

lemma quote_not_space [simp]: "\<not> asciiSpace quoteChar" "byte quoteChar < 128"
  by (simp_all add: asciiSpace_def)

lemma TrimSpace_quoted [simp]: "TrimSpace (quoteChar # s @ [quoteChar]) = quoteChar # s @ [quoteChar]"
  by (rule TrimSpace_solid) (simp_all add: asciiSpace_def)

text \<open>A quoted literal with its quotes doubled stands for the string itself.\<close>

lemma unquoteLiteral_quoted: "unquoteLiteral (quoteChar # double s @ [quoteChar]) = s"
  by (simp add: unquoteLiteral_def)

section \<open>Compiled conditions\<close>

lemma mapM_Some_iff: "mapM f xs = Some ys \<longleftrightarrow> list_all2 (\<lambda>x y. f x = Some y) xs ys"
proof (induction xs arbitrary: ys)
  case (Cons x xs)
  then show ?case by (cases ys) (auto split: option.splits)
qed auto

lemma mapM_set: "mapM f xs = Some ys \<Longrightarrow> y \<in> set ys \<Longrightarrow> \<exists>x \<in> set xs. f x = Some y"
  by (auto simp: mapM_Some_iff list_all2_conv_all_nth in_set_conv_nth) (metis nth_mem)

lemma mhas_columnTypes: "mhas (columnTypes cols) c \<longleftrightarrow> c \<in> set (map cName cols)"
proof -
  have "mhas (fold (\<lambda>c m. mset_at m (cName c) (cType c)) cols m) c \<longleftrightarrow> c \<in> set (map cName cols) \<or> mhas m c" for m
    by (induction cols arbitrary: m) (auto simp: gomap_simps)
  then show ?thesis by (simp add: columnTypes_def)
qed

lemma compileTerm_column: "compileTerm types s = Some t \<Longrightarrow> mhas types (ctColumn t)"
  by (auto simp: compileTerm_def Let_def split: option.splits prod.splits if_splits)

text \<open>Every column of a compiled condition is a column of the table.\<close>

lemma compileCondition_columns:
  assumes "compileCondition e cols = Some c" "g \<in> set c" "t \<in> set g"
  shows "ctColumn t \<in> set (map cName cols)"
proof -
  have "TrimSpace e \<noteq> []" using assms by (auto simp: compileCondition_def)
  with assms obtain d where "mapM (compileTerm (columnTypes cols)) (splitLogical d ''AND'') = Some g"
    by (auto simp: compileCondition_def dest: mapM_set)
  with assms(3) have "mhas (columnTypes cols) (ctColumn t)"
    by (auto dest: mapM_set compileTerm_column)
  then show ?thesis by (simp only: mhas_columnTypes)
qed

section \<open>Typed values\<close>

definition typedVal :: "coltype \<Rightarrow> goval \<Rightarrow> bool" where
  "typedVal typ v \<longleftrightarrow>
     (case v of
        VNil \<Rightarrow> True
      | VInt i \<Rightarrow> typ = TInt \<and> - (2 ^ 63) \<le> i \<and> i < 2 ^ 63
      | VFloat f \<Rightarrow> typ = TFloat
      | VStr s \<Rightarrow> typ = TText
      | VBool b \<Rightarrow> typ = TBool
      | _ \<Rightarrow> False)"

definition typedRow :: "column list \<Rightarrow> row \<Rightarrow> bool" where
  "typedRow cols row \<longleftrightarrow> (\<forall>c \<in> set cols. typedVal (cType c) (rget row (cName c)))"

definition typed_table :: "table \<Rightarrow> bool" where
  "typed_table t \<longleftrightarrow> (\<forall>k row. mget (Rows t) k = Some row \<longrightarrow> typedRow (Columns t) row)"

lemma ParseInt_range: "ParseInt s = Inr i \<Longrightarrow> - (2 ^ 63) \<le> i \<and> i < 2 ^ 63"
  by (auto simp: ParseInt_def parseInt64_def Let_def split: if_splits)

lemma parseVal_typed: "parseVal raw typ = Inr v \<Longrightarrow> typedVal typ v"
proof -
  assume p: "parseVal raw typ = Inr v"
  show "typedVal typ v"
  proof (cases "EqualFold (TrimSpace raw) ''NULL''")
    case True
    with p show ?thesis by (simp add: parseVal_def typedVal_def)
  next
    case False
    with p ParseInt_range[of "TrimSpace raw"] show ?thesis
      by (cases "typ"; cases "ParseInt (TrimSpace raw)"; cases "ParseFloat (TrimSpace raw)"; cases "ParseBool (TrimSpace raw)")
         (simp_all add: parseVal_def Let_def typedVal_def, auto)
  qed
qed

lemma rget_update: "rget (mset_at row c v) c' = (if c' = c then v else rget row c')"
  by (simp add: rget_def gomap_simps)

section \<open>Properties\<close>



text \<open>The side condition is needed: a percent sign of the value swallows the one of the pattern.\<close>

lemma like_percent_value: "\<not> likeMatch ''%'' ''%a'' \<and> likeSpec (runes ''%'') (runes ''%a'')"
proof
  show "\<not> likeMatch ''%'' ''%a''" by code_simp
  have "runes ''%'' = [37]" "runes ''%a'' = [37, 97]" by code_simp+
  then show "likeSpec (runes ''%'') (runes ''%a'')" by simp
qed

end
