(* ===== verification/Insert.thy ===== *)
theory Insert
  imports Fastpath Parser
begin

text \<open>
  \<^verbatim>\<open>internal/engine/insert.go\<close> and \<^verbatim>\<open>internal/engine/insertfast.go\<close>: the two VALUES parsers, the
  coercion of INSERT ... SELECT, and the shared tail that applies rows to a table. The statement
  itself (\<^verbatim>\<open>Database.insert\<close>) is in theory \<open>Engine\<close>, because INSERT ... SELECT needs SELECT.

  The parser in use makes one pass over the payload; the older one splits it into groups and the
  groups into values. They are shown equal, with their errors. Applying rows keeps the invariant
  of the table, and a failing INSERT leaves the table as it was.
\<close>

section \<open>The group parser (insert.go)\<close>

record insertRow =
  irKey :: string
  irRow :: row

text \<open>\<open>cur\<close> is the text \<^verbatim>\<open>s[start:i]\<close>, None while \<^verbatim>\<open>start\<close> is -1.\<close>

abbreviation extend :: "string \<Rightarrow> string option \<Rightarrow> string option" where
  "extend w cur \<equiv> map_option (\<lambda>x. x @ w) cur"

fun splitRowsLoop :: "int \<Rightarrow> bool \<Rightarrow> string option \<Rightarrow> string \<Rightarrow> string list" where
  "splitRowsLoop depth q cur [] = []"
| "splitRowsLoop depth q cur (c # cs) =
     (if c = quoteChar then
        (case cs of
           d # ds \<Rightarrow>
             if q \<and> d = quoteChar then splitRowsLoop depth q (extend [c, d] cur) ds
             else splitRowsLoop depth (\<not> q) (extend [c] cur) cs
         | [] \<Rightarrow> splitRowsLoop depth (\<not> q) (extend [c] cur) cs)
      else if q then splitRowsLoop depth q (extend [c] cur) cs
      else if c = CHR ''('' then
        splitRowsLoop (depth + 1) q (if depth = 0 then Some [] else extend [c] cur) cs
      else if c = CHR '')'' then
        (case cur of
           Some w \<Rightarrow> if depth - 1 = 0 then [TrimSpace w] else []
         | None \<Rightarrow> []) @ splitRowsLoop (depth - 1) q (extend [c] cur) cs
      else splitRowsLoop depth q (extend [c] cur) cs)"

declare splitRowsLoop.simps(2) [simp del]

definition splitRows :: "string \<Rightarrow> string list" where
  "splitRows s = splitRowsLoop 0 False None s"

text \<open>
  The body shared by both parsers for one row: parse each value, and render the primary value as
  the row key.
\<close>

fun parseColumns :: "column list \<Rightarrow> string list \<Rightarrow> row \<Rightarrow> string \<Rightarrow> (row \<times> string) res" where
  "parseColumns (c # cs) (v # vs) row key =
     (case parseVal v (cType c) of
        Inl e \<Rightarrow> Inl e
      | Inr x \<Rightarrow> parseColumns cs vs (mset_at row (cName c) x) (if cPrimary c then valueKey x else key))"
| "parseColumns _ _ row key = Inr (row, key)"

definition parseRow :: "column list \<Rightarrow> string list \<Rightarrow> insertRow res" where
  "parseRow columns vals =
     (if length vals \<noteq> length columns then Inl (Msg ''column count mismatch'')
      else case parseColumns columns vals [] [] of
        Inl e \<Rightarrow> Inl e
      | Inr (row, key) \<Rightarrow>
          if key = [] \<and> hasPrimaryColumn columns then Inl (Msg ''primary key required'')
          else Inr \<lparr>irKey = key, irRow = row\<rparr>)"

fun parseGroups :: "column list \<Rightarrow> string list \<Rightarrow> string list \<Rightarrow> insertRow list \<Rightarrow> insertRow list res" where
  "parseGroups columns [] seen rows = Inr rows"
| "parseGroups columns (g # groups) seen rows =
     (case parseRow columns (splitVals g) of
        Inl e \<Rightarrow> Inl e
      | Inr r \<Rightarrow>
          if irKey r \<noteq> [] then
            (if irKey r \<in> set seen then Inl (Msg ''duplicate primary key'')
             else parseGroups columns groups (sadd seen (irKey r)) (rows @ [r]))
          else parseGroups columns groups seen (rows @ [r]))"

definition parseInsertRows :: "string \<Rightarrow> column list \<Rightarrow> insertRow list res" where
  "parseInsertRows raw columns =
     (let groups = splitRows (TrimSpace raw) in
      if groups = [] then Inl (Msg ''INSERT requires VALUES'') else parseGroups columns groups [] [])"

section \<open>The single-pass parser (insertfast.go)\<close>

text \<open>
  The local variables of \<^verbatim>\<open>parseInsertRowsMode\<close>. \<open>inRow\<close> says that \<^verbatim>\<open>rowStart\<close> is not -1,
  \<open>cur\<close> is \<^verbatim>\<open>payload[valStart:i]\<close>, and a span is the text it delimits.
\<close>

record modeState =
  msRows :: "insertRow list"
  msSeen :: "string list option"
  msSpans :: "string list"
  msDepth :: int
  msInRow :: bool
  msCur :: string
  msQuote :: bool

definition modeInit :: modeState where
  "modeInit = \<lparr>msRows = [], msSeen = None, msSpans = [], msDepth = 0, msInRow = False, msCur = [], msQuote = False\<rparr>"

definition flushRow :: "column list \<Rightarrow> bool \<Rightarrow> modeState \<Rightarrow> modeState res" where
  "flushRow columns keepLast st =
     (case parseRow columns (msSpans st @ [msCur st]) of
        Inl e \<Rightarrow> Inl e
      | Inr r \<Rightarrow>
          if irKey r \<noteq> [] \<and> msRows st \<noteq> [] \<and> \<not> keepLast then
            let seen = (case msSeen st of None \<Rightarrow> map irKey (msRows st) | Some s \<Rightarrow> s) in
            if irKey r \<in> set seen then Inl (Msg ''duplicate primary key'')
            else Inr (st\<lparr>msSpans := msSpans st @ [msCur st], msSeen := Some (sadd seen (irKey r)),
                        msRows := msRows st @ [r]\<rparr>)
          else Inr (st\<lparr>msSpans := msSpans st @ [msCur st], msRows := msRows st @ [r]\<rparr>))"

definition readBytes :: "string \<Rightarrow> modeState \<Rightarrow> modeState" where
  "readBytes w st = st\<lparr>msCur := msCur st @ w\<rparr>"

fun modeLoop :: "column list \<Rightarrow> bool \<Rightarrow> modeState \<Rightarrow> string \<Rightarrow> modeState res" where
  "modeLoop columns keepLast st [] = Inr st"
| "modeLoop columns keepLast st (c # cs) =
     (if c = quoteChar then
        (case cs of
           d # ds \<Rightarrow>
             if msQuote st \<and> d = quoteChar then modeLoop columns keepLast (readBytes [c, d] st) ds
             else modeLoop columns keepLast (readBytes [c] st\<lparr>msQuote := \<not> msQuote st\<rparr>) cs
         | [] \<Rightarrow> modeLoop columns keepLast (readBytes [c] st\<lparr>msQuote := \<not> msQuote st\<rparr>) cs)
      else if msQuote st then modeLoop columns keepLast (readBytes [c] st) cs
      else if c = CHR ''('' then
        modeLoop columns keepLast
          ((if msDepth st = 0 then st\<lparr>msInRow := True, msCur := [], msSpans := []\<rparr> else readBytes [c] st)
             \<lparr>msDepth := msDepth st + 1\<rparr>) cs
      else if c = CHR '')'' then
        (if msDepth st - 1 = 0 \<and> msInRow st then
           (case flushRow columns keepLast (st\<lparr>msDepth := msDepth st - 1\<rparr>) of
              Inl e \<Rightarrow> Inl e
            | Inr st' \<Rightarrow> modeLoop columns keepLast (readBytes [c] st'\<lparr>msInRow := False\<rparr>) cs)
         else modeLoop columns keepLast (readBytes [c] (st\<lparr>msDepth := msDepth st - 1\<rparr>)) cs)
      else if c = CHR '','' \<and> msInRow st \<and> 1 \<le> msDepth st then
        modeLoop columns keepLast (st\<lparr>msSpans := msSpans st @ [msCur st], msCur := []\<rparr>) cs
      else modeLoop columns keepLast (readBytes [c] st) cs)"

declare modeLoop.simps(2) [simp del]

definition parseInsertRowsMode :: "string \<Rightarrow> column list \<Rightarrow> bool \<Rightarrow> insertRow list res" where
  "parseInsertRowsMode raw columns keepLast =
     (case modeLoop columns keepLast modeInit (TrimSpace raw) of
        Inl e \<Rightarrow> Inl e
      | Inr st \<Rightarrow> if msRows st = [] then Inl (Msg ''INSERT requires VALUES'') else Inr (msRows st))"

section \<open>Coercion\<close>

definition coerceValue :: "goval \<Rightarrow> coltype \<Rightarrow> goval res" where
  "coerceValue v typ =
     (let mismatch = Inl (Msg ''type mismatch'') in
      if v = VNil then Inr VNil
      else case typ of
        TInt \<Rightarrow>
          (case v of
             VInt x \<Rightarrow> Inr (VInt x)
           | VFloat x \<Rightarrow>
               if fIsTrunc x \<and> \<not> fLess x (fOfInt (- (2 ^ 63))) \<and> \<not> fLess (fOfInt (2 ^ 63)) x
               then Inr (VInt (fToInt64 x)) else mismatch
           | VStr x \<Rightarrow> (case ParseInt (TrimSpace x) of Inr n \<Rightarrow> Inr (VInt n) | Inl _ \<Rightarrow> mismatch)
           | _ \<Rightarrow> mismatch)
      | TFloat \<Rightarrow>
          (case v of
             VInt x \<Rightarrow> Inr (VFloat (fOfInt x))
           | VFloat x \<Rightarrow> Inr (VFloat x)
           | VStr x \<Rightarrow> (case ParseFloat (TrimSpace x) of Inr f \<Rightarrow> Inr (VFloat f) | Inl _ \<Rightarrow> mismatch)
           | _ \<Rightarrow> mismatch)
      | TText \<Rightarrow> Inr (VStr (Sprint v))
      | TBool \<Rightarrow>
          (case v of
             VBool x \<Rightarrow> Inr (VBool x)
           | VStr x \<Rightarrow> (case ParseBool (TrimSpace x) of Inr b \<Rightarrow> Inr (VBool b) | Inl _ \<Rightarrow> mismatch)
           | _ \<Rightarrow> mismatch)
      | TOther _ \<Rightarrow> mismatch)"

section \<open>Applying rows\<close>

fun duplicateCheck ::
  "(nat \<Rightarrow> error option) \<Rightarrow> nat \<Rightarrow> table \<Rightarrow> string list \<Rightarrow> insertRow list \<Rightarrow> error option" where
  "duplicateCheck c n t batch [] = None"
| "duplicateCheck c n t batch (item # items) =
     (case tick c (Suc n) of
        Some e \<Rightarrow> Some e
      | None \<Rightarrow>
          if irKey item \<noteq> [] then
            (if mhas (Rows t) (irKey item) then Some (Msg ''duplicate primary key'')
             else if irKey item \<in> set batch then Some (Msg ''duplicate primary key'')
             else duplicateCheck c (Suc n) t (sadd batch (irKey item)) items)
          else duplicateCheck c (Suc n) t batch items)"

definition reclaimOrder :: "table \<Rightarrow> table" where
  "reclaimOrder t =
     (if 0 < dead t then
        let t' = t\<lparr>Order := filter (\<lambda>k. mhas (Rows t) k) (Order t), dead := 0\<rparr>
        in if fast t \<noteq> [] then rebuildFastPathLocked t' else t'
      else t)"

definition putRow :: "bool \<Rightarrow> string \<Rightarrow> row \<Rightarrow> table \<Rightarrow> table" where
  "putRow replace key row t =
     (case (if replace then mget (Rows t) key else None) of
        Some old \<Rightarrow>
          let t1 = unindexRow key old t;
              t2 = t1\<lparr>Rows := mset_at (Rows t1) key row\<rparr>
          in replaceFastRowLocked key row (indexRow key row t2)
      | None \<Rightarrow>
          let t1 = t\<lparr>Rows := mset_at (Rows t) key row, Order := Order t @ [key]\<rparr>
          in appendFastRowLocked key row (indexRow key row t1))"

fun putRows :: "bool \<Rightarrow> insertRow list \<Rightarrow> table \<Rightarrow> table option" where
  "putRows replace [] t = Some t"
| "putRows replace (r # rs) t =
     (if irKey r = [] then
        (case nextSyntheticKeyLocked t of
           None \<Rightarrow> None
         | Some (key, t') \<Rightarrow> putRows replace rs (putRow replace key (irRow r) t'))
      else putRows replace rs (putRow replace (irKey r) (irRow r) t))"

definition applyInsertRows :: "ctx \<Rightarrow> insertRow list \<Rightarrow> bool \<Rightarrow> table \<Rightarrow> result res \<times> table" where
  "applyInsertRows ctx rows replace t =
     (case (if replace then None else duplicateCheck (apply_tick ctx) 0 t [] rows) of
        Some e \<Rightarrow> (Inl e, t)
      | None \<Rightarrow>
          (case putRows replace rows (reclaimOrder t) of
             None \<Rightarrow> (Inl Diverge, t)
           | Some t' \<Rightarrow> (Inr (affected (length rows)), t')))"

text \<open>The VALUES form of INSERT on a table, from the payload after the keyword on.\<close>

definition insertValues :: "ctx \<Rightarrow> string \<Rightarrow> bool \<Rightarrow> table \<Rightarrow> result res \<times> table" where
  "insertValues ctx payload replace t =
     (case parseInsertRowsMode payload (Columns t) replace of
        Inl e \<Rightarrow> (Inl e, t)
      | Inr rows \<Rightarrow> applyInsertRows ctx rows replace t)"

section \<open>Applying rows keeps the invariant\<close>

lemma reclaimOrder_frame [simp]:
  "Columns (reclaimOrder t) = Columns t" "Rows (reclaimOrder t) = Rows t" "Indexes (reclaimOrder t) = Indexes t"
  "IndexNames (reclaimOrder t) = IndexNames t" "dead (reclaimOrder t) = 0" "autoKey (reclaimOrder t) = autoKey t"
  by (auto simp: reclaimOrder_def Let_def)

lemma reclaimOrder_live:
  assumes "wf_rows t"
  shows "Order (reclaimOrder t) = live t" "live (reclaimOrder t) = live t"
proof -
  have "dead t = 0 \<Longrightarrow> filter (\<lambda>k. mhas (Rows t) k) (Order t) = Order t"
    using assms by (auto simp: wf_rows_def filter_empty_conv filter_id_conv)
  then show "Order (reclaimOrder t) = live t" by (auto simp: reclaimOrder_def Let_def live_def)
  then show "live (reclaimOrder t) = live t" by (simp add: live_def)
qed

lemma reclaimOrder_wf:
  assumes "wf_table t"
  shows "wf_table (reclaimOrder t)"
proof (cases "0 < dead t")
  case True
  let ?t = "t\<lparr>Order := filter (\<lambda>k. mhas (Rows t) k) (Order t), dead := 0\<rparr>"
  have "wf_rows ?t" using assms by - (rule wf_rows_compact[of t], simp_all add: wf_table_def)
  moreover have "wf_columns (Columns ?t)" "wf_index ?t" "wf_names ?t" "keys_ok ?t"
    using assms by (simp_all add: wf_table_def wf_index_def idx_shape_def bucketOf_def wf_names_def keys_ok_def primaryColumn_def)
  ultimately have "wf_table (rebuildFastPathLocked ?t)" "fast t = [] \<Longrightarrow> wf_table ?t"
    using wf_table_rebuild by (blast, simp add: wf_table_def fast_ok_def)
  with True show ?thesis by (simp add: reclaimOrder_def Let_def)
qed (use assms in \<open>simp add: reclaimOrder_def\<close>)

lemma reclaimOrder_big: "fast_big t \<Longrightarrow> fast_big (reclaimOrder t)"
  by (auto simp: reclaimOrder_def Let_def rebuild_big fast_big_def[of "t\<lparr>Order := a, dead := b\<rparr>" for a b])

lemma putRow_new:
  assumes wf: "wf_table t" and big: "fast_big t" and new: "\<not> mhas (Rows t) key" "key \<notin> set (Order t)"
    and fits: "keyFits (Columns t) key row"
  shows "wf_table (putRow replace key row t) \<and> fast_big (putRow replace key row t)"
proof -
  let ?t1 = "t\<lparr>Rows := mset_at (Rows t) key row, Order := Order t @ [key]\<rparr>"
  let ?t2 = "indexRow key row ?t1"
  let ?t3 = "appendFastRowLocked key row ?t2"
  have p: "putRow replace key row t = ?t3" using new by (simp add: putRow_def Let_def)
  have ne: "key \<noteq> []" using fits by (simp add: keyFits_def)
  obtain ix where ix: "?t2 = t\<lparr>Rows := mset_at (Rows t) key row, Order := Order t @ [key], Indexes := ix\<rparr>"
    using indexRow_upd[of key row ?t1] by auto
  have cols: "wf_columns (Columns ?t2)" using wf by (simp add: wf_table_def)
  have rows: "wf_rows ?t2" using wf new ne by - (rule wf_rows_append[of t], simp_all add: wf_table_def)
  have idx: "wf_index ?t2" using wf new by - (rule wf_index_add[of t], simp_all add: wf_table_def)
  have names: "wf_names ?t2" using wf wf_names_cong[of ?t2 t] by (simp add: wf_table_def)
  have keys: "keys_ok ?t2" using wf fits by (auto simp: wf_table_def keys_ok_def keyFits_def primaryColumn_def gomap_simps)
  have "fast_ok ?t3" "fast_big ?t3"
    using appendFast_ok[OF _ big ne new ix cols rows] wf by (simp_all add: wf_table_def)
  moreover from \<open>fast_ok ?t3\<close> cols rows idx names keys have "wf_table ?t3" by (rule wf_table_fastI) simp_all
  ultimately show ?thesis using p by simp
qed

lemma putRow_replace:
  assumes wf: "wf_table t" and big: "fast_big t" and old: "mget (Rows t) key = Some old"
    and fits: "keyFits (Columns t) key row"
  shows "wf_table (putRow True key row t) \<and> fast_big (putRow True key row t)"
proof -
  let ?t1 = "(unindexRow key old t)\<lparr>Rows := mset_at (Rows t) key row\<rparr>"
  let ?t2 = "indexRow key row ?t1"
  let ?t3 = "replaceFastRowLocked key row ?t2"
  have p: "putRow True key row t = ?t3" using old by (simp add: putRow_def Let_def)
  have ne: "key \<noteq> []" using fits by (simp add: keyFits_def)
  obtain iy where iy: "unindexRow key old t = t\<lparr>Indexes := iy\<rparr>" using unindexRow_upd by blast
  obtain ix where ix: "?t2 = t\<lparr>Rows := mset_at (Rows t) key row, Indexes := ix\<rparr>"
    using indexRow_upd[of key row ?t1] iy by auto
  have cols: "wf_columns (Columns ?t2)" using wf by (simp add: wf_table_def)
  have rows: "wf_rows ?t2" using wf old by - (rule wf_rows_replace[of t key], simp_all add: wf_table_def)
  have idx: "wf_index ?t2" using wf_index_replace[OF _ old] wf by (simp add: wf_table_def)
  have "mkeys (Indexes ?t2) = mkeys (Indexes t)" by simp
  then have names: "wf_names ?t2" using wf wf_names_cong[of ?t2 t] by (simp add: wf_table_def)
  have keys: "keys_ok ?t2" using wf fits by (auto simp: wf_table_def keys_ok_def keyFits_def primaryColumn_def gomap_simps)
  have "fast_ok ?t3" using replaceFast_ok[OF _ ne _ ix] wf old by (simp add: wf_table_def)
  moreover have "fast_big ?t3" using big by (auto simp: fast_big_def replaceFastRowLocked_def split: option.splits)
  moreover from \<open>fast_ok ?t3\<close> cols rows idx names keys have "wf_table ?t3" by (rule wf_table_fastI) simp_all
  ultimately show ?thesis using p by simp
qed

text \<open>A row the table accepts: with a primary column its key is the rendered primary value.\<close>

definition rowFits :: "column list \<Rightarrow> insertRow \<Rightarrow> bool" where
  "rowFits cols r \<longleftrightarrow>
     (if hasPrimaryColumn cols then keyFits cols (irKey r) (irRow r) else irKey r = [])"

definition rowsNew :: "table \<Rightarrow> insertRow list \<Rightarrow> bool" where
  "rowsNew t rs \<longleftrightarrow> distinct (filter (\<lambda>k. k \<noteq> []) (map irKey rs)) \<and>
     (\<forall>r \<in> set rs. irKey r \<noteq> [] \<longrightarrow> \<not> mhas (Rows t) (irKey r))"

lemma putRow_frame [simp]:
  "Columns (putRow replace key row t) = Columns t" "Rows (putRow replace key row t) = mset_at (Rows t) key row"
  "dead (putRow replace key row t) = dead t"
  by (auto simp: putRow_def Let_def split: option.splits)

lemma putRow_Order:
  "Order (putRow replace key row t) = (if replace \<and> mhas (Rows t) key then Order t else Order t @ [key])"
  by (auto simp: putRow_def Let_def split: option.splits)

lemma wf_rows_all_live: "wf_rows t \<Longrightarrow> dead t = 0 \<Longrightarrow> k \<in> set (Order t) \<longleftrightarrow> mhas (Rows t) k"
  by (auto simp: wf_rows_def filter_empty_conv)

lemma putRow_wf:
  assumes "wf_table t" "fast_big t" "dead t = 0" "keyFits (Columns t) key row" "replace \<or> \<not> mhas (Rows t) key"
  shows "wf_table (putRow replace key row t) \<and> fast_big (putRow replace key row t)"
proof (cases "mget (Rows t) key")
  case None
  then have "key \<notin> set (Order t)" using wf_rows_all_live[of t key] assms(1,3) by (simp add: wf_table_def)
  with None assms show ?thesis by (intro putRow_new) auto
next
  case (Some old)
  with assms have "replace = True" by auto
  with Some assms show ?thesis using putRow_replace by simp
qed

lemma wf_table_autoKey: "wf_table (t\<lparr>autoKey := a\<rparr>) = wf_table t" "fast_big (t\<lparr>autoKey := a\<rparr>) = fast_big t"
  by (simp_all add: wf_table_def wf_rows_def fast_ok_def wf_index_def idx_shape_def bucketOf_def wf_names_def
      keys_ok_def primaryColumn_def fastView_def slowView_def live_def rowAt_def pos_ok_def colpos_ok_def fast_big_def)

lemma nextSyntheticKey_Some:
  "nextSyntheticKeyLocked t = Some (key, t') \<Longrightarrow>
     \<not> mhas (Rows t) key \<and> key \<noteq> [] \<and> (\<exists>a. t' = t\<lparr>autoKey := a\<rparr>)"
  unfolding nextSyntheticKeyLocked_def by (rule syntheticKeyLoop_Some)

text \<open>One row, with the key it ends up under.\<close>

definition putOne :: "bool \<Rightarrow> insertRow \<Rightarrow> table \<Rightarrow> (string \<times> table) option" where
  "putOne replace r t =
     (if irKey r = [] then map_option (\<lambda>(key, t'). (key, putRow replace key (irRow r) t')) (nextSyntheticKeyLocked t)
      else Some (irKey r, putRow replace (irKey r) (irRow r) t))"

lemma putRows_Cons:
  "putRows replace (r # rs) t = (case putOne replace r t of None \<Rightarrow> None | Some (key, t') \<Rightarrow> putRows replace rs t')"
  by (auto simp: putOne_def split: option.splits prod.splits)

lemma putOne_Some:
  assumes "putOne replace r t = Some (key, t')"
  obtains a where "t' = putRow replace key (irRow r) (t\<lparr>autoKey := a\<rparr>)" "irKey r \<noteq> [] \<longrightarrow> key = irKey r"
    "irKey r = [] \<longrightarrow> \<not> mhas (Rows t) key \<and> key \<noteq> []"
proof (cases "irKey r = []")
  case True
  with assms obtain t0 where t0: "nextSyntheticKeyLocked t = Some (key, t0)" "t' = putRow replace key (irRow r) t0"
    by (auto simp: putOne_def)
  with nextSyntheticKey_Some[OF t0(1)] True that show thesis by auto
next
  case False
  with assms have "t' = putRow replace key (irRow r) (t\<lparr>autoKey := autoKey t\<rparr>)" "key = irKey r" by (auto simp: putOne_def)
  with False that show thesis by blast
qed

lemma putOne_wf:
  assumes "wf_table t" "fast_big t" "dead t = 0" "rowFits (Columns t) r"
    and new: "replace \<or> irKey r = [] \<or> \<not> mhas (Rows t) (irKey r)"
    and p: "putOne replace r t = Some (key, t')"
  shows "wf_table t'" "fast_big t'" "dead t' = 0" "Columns t' = Columns t" "Rows t' = mset_at (Rows t) key (irRow r)"
    "Order t' = (if mhas (Rows t) key then Order t else Order t @ [key])"
proof -
  obtain a where a: "t' = putRow replace key (irRow r) (t\<lparr>autoKey := a\<rparr>)" "irKey r \<noteq> [] \<longrightarrow> key = irKey r"
    "irKey r = [] \<longrightarrow> \<not> mhas (Rows t) key \<and> key \<noteq> []" using p by (rule putOne_Some)
  have n: "replace \<or> \<not> mhas (Rows t) key" using a new by metis
  have "keyFits (Columns t) key (irRow r)" using a assms(4)
    by (cases "irKey r = []") (auto simp: rowFits_def keyFits_def split: if_splits)
  then have "wf_table t' \<and> fast_big t'" unfolding a(1) using assms n by (intro putRow_wf) (simp_all add: wf_table_autoKey)
  then show "wf_table t'" "fast_big t'" by auto
  show "dead t' = 0" "Columns t' = Columns t" "Rows t' = mset_at (Rows t) key (irRow r)"
    "Order t' = (if mhas (Rows t) key then Order t else Order t @ [key])"
    using assms(3) n by (auto simp: a(1) putRow_Order)
qed

lemma putRows_wf:
  assumes "wf_table t" "fast_big t" "dead t = 0" "\<forall>r \<in> set rs. rowFits (Columns t) r" "replace \<or> rowsNew t rs"
    "putRows replace rs t = Some t'"
  shows "wf_table t' \<and> fast_big t'"
  using assms
proof (induction rs arbitrary: t)
  case (Cons r rs)
  obtain key t1 where p: "putOne replace r t = Some (key, t1)" "putRows replace rs t1 = Some t'"
    using Cons.prems(6) unfolding putRows_Cons by (auto split: option.splits)
  have "replace \<or> irKey r = [] \<or> \<not> mhas (Rows t) (irKey r)" using Cons.prems(5) by (auto simp: rowsNew_def)
  note w = putOne_wf[OF Cons.prems(1-3) _ this p(1)]
  have fits: "rowFits (Columns t) r" using Cons.prems(4) by simp
  have "replace \<or> rowsNew t1 rs"
  proof (cases "irKey r = []")
    case False
    with p(1) have "key = irKey r" by (auto simp: putOne_def)
    with False Cons.prems(5) w(5)[OF fits] show ?thesis
      by (auto simp: rowsNew_def gomap_simps) (metis imageI)+
  next
    case True
    then have "\<forall>x \<in> set rs. irKey x = []" using Cons.prems(4)
      by (auto simp: rowFits_def keyFits_def split: if_splits)
    then show ?thesis by (auto simp: rowsNew_def)
  qed
  with w fits Cons.prems(4) p(2) show ?case by (intro Cons.IH[of t1]) auto
qed simp

lemma putRows_returns:
  assumes "length (Rows t) + length rs \<le> 2 ^ 64"
  shows "putRows replace rs t \<noteq> None"
  using assms
proof (induction rs arbitrary: t)
  case (Cons r rs)
  then have "putOne replace r t \<noteq> None" using nextSyntheticKey_total[of t] by (auto simp: putOne_def)
  then obtain key t1 where p: "putOne replace r t = Some (key, t1)" by auto
  then obtain a where "t1 = putRow replace key (irRow r) (t\<lparr>autoKey := a\<rparr>)" by (rule putOne_Some)
  then have "Rows t1 = mset_at (Rows t) key (irRow r)" by simp
  moreover have "length (mset_at (Rows t) key (irRow r)) \<le> length (Rows t) + 1"
    by (cases "mget (Rows t) key = None") (simp_all add: length_update_absent length_update_present)
  ultimately have "putRows replace rs t1 \<noteq> None" using Cons.prems by (intro Cons.IH) simp
  with p show ?case unfolding putRows_Cons by simp
qed simp

lemma duplicateCheck_None:
  "duplicateCheck c n t batch rs = None \<Longrightarrow> distinct batch \<Longrightarrow>
     rowsNew t rs \<and> (\<forall>r \<in> set rs. irKey r \<noteq> [] \<longrightarrow> irKey r \<notin> set batch)"
proof (induction rs arbitrary: n batch)
  case (Cons r rs)
  show ?case
  proof (cases "irKey r = []")
    case True
    with Cons.prems Cons.IH[of "Suc n" batch] show ?thesis
      by (auto simp: rowsNew_def split: option.splits)
  next
    case False
    with Cons.prems Cons.IH[of "Suc n" "sadd batch (irKey r)"] show ?thesis
      by (auto simp: rowsNew_def split: option.splits if_splits)
  qed
qed (simp add: rowsNew_def)
section \<open>The two parsers agree\<close>

lemma splitRowsLoop_open:
  "splitRowsLoop depth False cur (quoteChar # cs) = splitRowsLoop depth True (map_option (\<lambda>x. x @ [quoteChar]) cur) cs"
  by (simp add: splitRowsLoop.simps(2) split: list.split)

lemma splitRowsLoop_quote:
  "splitRowsLoop depth q cur (quoteChar # cs) = splitRowsLoop depth (\<not> q) (map_option (\<lambda>x. x @ [quoteChar]) cur) cs"
  by (cases cs) (auto simp: splitRowsLoop.simps(2)[of depth q cur] splitRowsLoop_open option.map_comp o_def)

lemma modeLoop_open:
  "\<not> msQuote st \<Longrightarrow> modeLoop columns k st (quoteChar # cs) = modeLoop columns k (readBytes [quoteChar] st\<lparr>msQuote := True\<rparr>) cs"
  by (simp add: modeLoop.simps(2) split: list.split)

lemma msQuote_same:
  "msQuote st \<Longrightarrow> st\<lparr>msCur := w, msQuote := True\<rparr> = st\<lparr>msCur := w\<rparr>"
  "\<not> msQuote st \<Longrightarrow> st\<lparr>msCur := w, msQuote := False\<rparr> = st\<lparr>msCur := w\<rparr>"
  by (cases st, simp)+

lemma modeLoop_quote:
  "modeLoop columns k st (quoteChar # cs) = modeLoop columns k (readBytes [quoteChar] st\<lparr>msQuote := \<not> msQuote st\<rparr>) cs"
  by (cases cs) (auto simp: modeLoop.simps(2)[of columns k st] modeLoop_open readBytes_def msQuote_same)

text \<open>The pieces of a value list before trimming, read bytewise.\<close>

fun rawVals :: "bool \<Rightarrow> string \<Rightarrow> string \<Rightarrow> string list" where
  "rawVals q cur [] = [cur]"
| "rawVals q cur (c # cs) =
     (if c = CHR '','' \<and> \<not> q then cur # rawVals q [] cs
      else rawVals (if c = quoteChar then \<not> q else q) (cur @ [c]) cs)"

lemma splitValsLoop_raw: "splitValsLoop q cur s = map TrimSpace (rawVals q cur s)"
  by (induction q cur s rule: rawVals.induct) auto

lemma rawVals_snoc:
  "rawVals q cur (w @ [c]) =
     (let r = rawVals q cur w; q' = (q \<noteq> odd (count_list w quoteChar)) in
      if c = CHR '','' \<and> \<not> q' then r @ [[]] else butlast r @ [last r @ [c]])"
proof (induction q cur w rule: rawVals.induct)
  case (2 q cur d w)
  have ne: "rawVals a b x \<noteq> []" for a b x by (induction a b x rule: rawVals.induct) auto
  show ?case
  proof (cases "d = CHR '','' \<and> \<not> q")
    case True
    with 2 ne show ?thesis by (auto simp: Let_def)
  next
    case False
    with 2(2) show ?thesis by (auto simp: Let_def split: if_splits)
  qed
qed (simp add: Let_def)

lemma parseVal_TrimSpace: "parseVal (TrimSpace v) typ = parseVal v typ"
  by (simp add: parseVal_def)

lemma parseColumns_TrimSpace: "parseColumns cs (map TrimSpace vs) row key = parseColumns cs vs row key"
  by (induction cs vs row key rule: parseColumns.induct) (auto simp: parseVal_TrimSpace split: sum.splits)

lemma parseRow_TrimSpace: "parseRow cs (map TrimSpace vs) = parseRow cs vs"
  by (simp add: parseRow_def parseColumns_TrimSpace)

lemma splitValsLoop_plain:
  "quoteChar \<notin> set u \<Longrightarrow> CHR '','' \<notin> set u \<Longrightarrow> splitValsLoop q cur (u @ s) = splitValsLoop q (cur @ u) s"
  by (induction u arbitrary: cur) auto

lemma spaces_plain:
  assumes "set es \<subseteq> spaceEncs multiSpaces"
  shows "quoteChar \<notin> set (concat es)" "CHR '','' \<notin> set (concat es)"
  using assms spaceEncs_bytes by (force simp: asciiSpace_def)+

lemma splitValsLoop_lead:
  "set ls \<subseteq> spaceEncs multiSpaces \<Longrightarrow> splitValsLoop q (concat ls @ cur) s = splitValsLoop q cur s"
  using TrimSpace_surround[of ls "[]"] by (induction s arbitrary: q cur) auto

lemma splitValsLoop_trail:
  assumes "set rs \<subseteq> spaceEncs multiSpaces"
  shows "splitValsLoop q cur (s @ concat rs) = splitValsLoop q cur s"
proof (induction s arbitrary: q cur)
  case Nil
  show ?case using splitValsLoop_plain[OF spaces_plain[OF assms], of q cur "[]"] TrimSpace_surround[of "[]" rs cur] assms by simp
qed auto

lemma splitVals_TrimSpace: "splitVals (TrimSpace w) = splitVals w"
proof -
  obtain ls rs where d: "set ls \<subseteq> spaceEncs multiSpaces" "set rs \<subseteq> spaceEncs multiSpaces" "w = concat ls @ TrimSpace w @ concat rs"
    using TrimSpace_decomp by blast
  have "splitVals w = splitValsLoop False (concat ls) (TrimSpace w @ concat rs)"
    unfolding splitVals_def by (subst d(3)) (simp add: splitValsLoop_plain[OF spaces_plain[OF d(1)]])
  then show ?thesis using splitValsLoop_lead[OF d(1), of False "[]"] splitValsLoop_trail[OF d(2)]
    by (simp add: splitVals_def)
qed

text \<open>
  The state of the single pass matches the state of the group parser: inside a row, the spans and
  the current piece are the raw pieces of the group text read so far.
\<close>

definition modeMatches :: "modeState \<Rightarrow> string option \<Rightarrow> string list \<Rightarrow> bool" where
  "modeMatches st cur seen \<longleftrightarrow>
     (msInRow st \<longleftrightarrow> 1 \<le> msDepth st) \<and>
     (msInRow st \<longrightarrow> (\<exists>w. cur = Some w \<and> rawVals False [] w = msSpans st @ [msCur st] \<and>
        msQuote st = odd (count_list w quoteChar))) \<and>
     set seen = set (map irKey (msRows st)) - {[]} \<and>
     (\<forall>s. msSeen st = Some s \<longrightarrow> set s - {[]} = set seen) \<and>
     (msRows st = [] \<longrightarrow> msSeen st = None)"

lemma modeMatches_read:
  assumes "modeMatches st cur seen" "q' = (if c = quoteChar then \<not> msQuote st else msQuote st)"
    "\<not> (c = CHR '','' \<and> msInRow st \<and> \<not> msQuote st)"
  shows "modeMatches (readBytes [c] st\<lparr>msQuote := q'\<rparr>) (map_option (\<lambda>x. x @ [c]) cur) seen"
  using assms by (auto simp: modeMatches_def readBytes_def rawVals_snoc Let_def split: if_splits)

lemma flushRow_matches:
  assumes "modeMatches st cur seen" "msInRow st"
  obtains w where "cur = Some w"
    "parseRow columns (splitVals (TrimSpace w)) = parseRow columns (msSpans st @ [msCur st])"
    "(case flushRow columns False st of Inl e \<Rightarrow> Inl e | Inr st' \<Rightarrow> Inr (msRows st')) =
     (case parseRow columns (splitVals (TrimSpace w)) of
        Inl e \<Rightarrow> Inl e
      | Inr r \<Rightarrow> if irKey r \<noteq> [] \<and> irKey r \<in> set seen then Inl (Msg ''duplicate primary key'') else Inr (msRows st @ [r]))"
proof -
  from assms obtain w where w: "cur = Some w" "rawVals False [] w = msSpans st @ [msCur st]"
    by (auto simp: modeMatches_def)
  have "splitVals (TrimSpace w) = map TrimSpace (msSpans st @ [msCur st])"
    using splitVals_TrimSpace[of w] splitValsLoop_raw[of False "[]" w] w(2) by (simp add: splitVals_def)
  then have parse: "parseRow columns (splitVals (TrimSpace w)) = parseRow columns (msSpans st @ [msCur st])"
    using parseRow_TrimSpace by metis
  have seen: "k \<in> set (case msSeen st of None \<Rightarrow> map irKey (msRows st) | Some s \<Rightarrow> s) \<longleftrightarrow> k \<in> set seen" if "k \<noteq> []" for k
  proof (cases "msSeen st")
    case None
    have "set seen = set (map irKey (msRows st)) - {[]}" using assms(1) unfolding modeMatches_def by blast
    with None that show ?thesis by simp
  next
    case (Some s)
    then have "set s - {[]} = set seen" using assms(1) unfolding modeMatches_def by blast
    with Some that show ?thesis by auto
  qed
  have none: "msRows st = [] \<Longrightarrow> set seen = {}" using assms(1) by (auto simp: modeMatches_def)
  have "(case flushRow columns False st of Inl e \<Rightarrow> Inl e | Inr st' \<Rightarrow> Inr (msRows st')) =
     (case parseRow columns (splitVals (TrimSpace w)) of
        Inl e \<Rightarrow> Inl e
      | Inr r \<Rightarrow> if irKey r \<noteq> [] \<and> irKey r \<in> set seen then Inl (Msg ''duplicate primary key'') else Inr (msRows st @ [r]))"
  proof (cases "parseRow columns (msSpans st @ [msCur st])")
    case (Inr r)
    show ?thesis
    proof (cases "irKey r \<noteq> [] \<and> msRows st \<noteq> []")
      case True
      with Inr seen[of "irKey r"] show ?thesis unfolding parse flushRow_def Let_def by simp
    next
      case False
      with Inr none show ?thesis unfolding parse flushRow_def Let_def by auto
    qed
  qed (simp add: parse flushRow_def)
  with w(1) parse show thesis by (rule that)
qed

lemma flushRow_depth:
  "flushRow columns k (st\<lparr>msDepth := d\<rparr>) = map_sum id (\<lambda>s. s\<lparr>msDepth := d\<rparr>) (flushRow columns k st)"
  by (cases "msSeen st") (auto simp: flushRow_def Let_def split: sum.splits)

lemma modeMatches_flush:
  assumes m: "modeMatches st cur seen" and f: "flushRow columns False st = Inr st'"
    and r: "parseRow columns (msSpans st @ [msCur st]) = Inr r"
  shows "modeMatches (readBytes [c] (st'\<lparr>msDepth := 0\<rparr>)\<lparr>msInRow := False\<rparr>) cur' (if irKey r = [] then seen else sadd seen (irKey r))"
    and "msRows st' = msRows st @ [r]" and "msQuote st' = msQuote st"
proof -
  have s1: "set seen = set (map irKey (msRows st)) - {[]}"
    and s2: "\<And>s. msSeen st = Some s \<Longrightarrow> set s - {[]} = set seen"
    and s4: "msRows st = [] \<Longrightarrow> msSeen st = None" using m unfolding modeMatches_def by blast+
  let ?seen = "case msSeen st of None \<Rightarrow> map irKey (msRows st) | Some s \<Rightarrow> s"
  have s3: "set ?seen - {[]} = set seen" using s1 s2 by (cases "msSeen st") simp_all
  show rows: "msRows st' = msRows st @ [r]" and "msQuote st' = msQuote st"
    using f r by (auto simp: flushRow_def Let_def split: if_splits)
  have sn: "msSeen st' = (if irKey r \<noteq> [] \<and> msRows st \<noteq> [] then Some (sadd ?seen (irKey r)) else msSeen st)"
    using f r by (auto simp: flushRow_def Let_def split: if_splits)
  let ?seen' = "if irKey r = [] then seen else sadd seen (irKey r)"
  have "set ?seen' = set (map irKey (msRows st')) - {[]}" using rows s1 by auto
  moreover have "set s - {[]} = set ?seen'" if "msSeen st' = Some s" for s
  proof (cases "irKey r = []")
    case True
    with sn that s2 show ?thesis by simp
  next
    case False
    show ?thesis
    proof (cases "msRows st = []")
      case True
      with sn s4 that show ?thesis by simp
    next
      case no: False
      with False sn that have "s = sadd ?seen (irKey r)" by simp
      then have "set s - {[]} = insert (irKey r) (set ?seen) - {[]}" by simp
      with False s3 show ?thesis by auto
    qed
  qed
  ultimately show "modeMatches (readBytes [c] (st'\<lparr>msDepth := 0\<rparr>)\<lparr>msInRow := False\<rparr>) cur' ?seen'"
    using rows by (simp add: modeMatches_def readBytes_def)
qed

definition rowsOf :: "modeState res \<Rightarrow> insertRow list res" where
  "rowsOf x = (case x of Inl e \<Rightarrow> Inl e | Inr st \<Rightarrow> Inr (msRows st))"

lemma modeLoop_close:
  assumes IH: "\<And>st cur seen. modeMatches st cur seen \<Longrightarrow>
      rowsOf (modeLoop columns False st cs) = parseGroups columns (splitRowsLoop (msDepth st) (msQuote st) cur cs) seen (msRows st)"
    and m: "modeMatches st cur seen" and q: "\<not> msQuote st"
  shows "rowsOf (modeLoop columns False st (CHR '')'' # cs)) =
    parseGroups columns (splitRowsLoop (msDepth st) (msQuote st) cur (CHR '')'' # cs)) seen (msRows st)"
proof (cases "msDepth st = 1")
  case False
  let ?st = "readBytes [CHR '')''] (st\<lparr>msDepth := msDepth st - 1\<rparr>)"
  have "modeMatches ?st (map_option (\<lambda>x. x @ [CHR '')'']) cur) seen"
    using m q False by (auto simp: modeMatches_def readBytes_def rawVals_snoc Let_def)
  note IH[OF this]
  moreover have "modeLoop columns False st (CHR '')'' # cs) = modeLoop columns False ?st cs"
    using q False m by (simp add: modeLoop.simps(2) Let_def modeMatches_def)
  moreover have "splitRowsLoop (msDepth st) (msQuote st) cur (CHR '')'' # cs) =
      splitRowsLoop (msDepth ?st) (msQuote ?st) (map_option (\<lambda>x. x @ [CHR '')'']) cur) cs"
    using q False by (simp add: splitRowsLoop.simps(2) readBytes_def split: option.splits)
  ultimately show ?thesis by (simp add: readBytes_def)
next
  case True
  with m have inr: "msInRow st" by (simp add: modeMatches_def)
  obtain w where w: "cur = Some w"
    and pe: "parseRow columns (splitVals (TrimSpace w)) = parseRow columns (msSpans st @ [msCur st])"
    and fl: "(case flushRow columns False st of Inl e \<Rightarrow> Inl e | Inr st' \<Rightarrow> Inr (msRows st')) =
     (case parseRow columns (splitVals (TrimSpace w)) of
        Inl e \<Rightarrow> Inl e
      | Inr r \<Rightarrow> if irKey r \<noteq> [] \<and> irKey r \<in> set seen then Inl (Msg ''duplicate primary key'') else Inr (msRows st @ [r]))"
    using flushRow_matches[OF m inr] .
  let ?rest = "splitRowsLoop 0 False (Some (w @ [CHR '')''])) cs"
  have split: "splitRowsLoop (msDepth st) (msQuote st) cur (CHR '')'' # cs) = TrimSpace w # ?rest"
    using True q w by (simp add: splitRowsLoop.simps(2))
  have loop: "modeLoop columns False st (CHR '')'' # cs) =
     (case flushRow columns False st of
        Inl e \<Rightarrow> Inl e
      | Inr st'' \<Rightarrow> modeLoop columns False (readBytes [CHR '')''] (st''\<lparr>msDepth := 0\<rparr>)\<lparr>msInRow := False\<rparr>) cs)"
    using True q inr by (auto simp: modeLoop.simps(2) Let_def flushRow_depth readBytes_def split: sum.splits)
  show ?thesis
  proof (cases "flushRow columns False st")
    case (Inl e)
    with fl show ?thesis unfolding split loop by (auto simp: rowsOf_def split: sum.splits if_splits)
  next
    case (Inr st')
    with fl obtain r where r: "parseRow columns (splitVals (TrimSpace w)) = Inr r" "\<not> (irKey r \<noteq> [] \<and> irKey r \<in> set seen)"
      by (auto split: sum.splits if_splits)
    note mm = modeMatches_flush[OF m Inr, of r]
    have "rowsOf (modeLoop columns False (readBytes [CHR '')''] (st'\<lparr>msDepth := 0\<rparr>)\<lparr>msInRow := False\<rparr>) cs) =
        parseGroups columns ?rest (if irKey r = [] then seen else sadd seen (irKey r)) (msRows st @ [r])"
      using IH[OF mm(1)] mm(2,3) pe r(1) q by (simp add: readBytes_def)
    with Inr r show ?thesis unfolding split loop by auto
  qed
qed

lemma modeLoop_matches:
  "modeMatches st cur seen \<Longrightarrow>
   rowsOf (modeLoop columns False st s) = parseGroups columns (splitRowsLoop (msDepth st) (msQuote st) cur s) seen (msRows st)"
proof (induction s arbitrary: st cur seen)
  case Nil
  show ?case by (simp add: rowsOf_def)
next
  case (Cons c cs)
  note m = Cons.prems
  let ?app = "map_option (\<lambda>x. x @ [c]) cur"
  consider (quote) "c = quoteChar" | (inside) "c \<noteq> quoteChar" "msQuote st"
    | (paren) "\<not> msQuote st" "c = CHR ''(''" | (close) "\<not> msQuote st" "c = CHR '')''"
    | (comma) "\<not> msQuote st" "c = CHR '',''" "msInRow st"
    | (other) "\<not> msQuote st" "c \<noteq> quoteChar" "c \<noteq> CHR ''(''" "c \<noteq> CHR '')''" "\<not> (c = CHR '','' \<and> msInRow st)"
    by blast
  then show ?case
  proof cases
    case quote
    have "modeMatches (readBytes [c] st\<lparr>msQuote := \<not> msQuote st\<rparr>) ?app seen"
      using quote by (intro modeMatches_read[OF m]) auto
    from Cons.IH[OF this] quote show ?thesis by (simp add: modeLoop_quote splitRowsLoop_quote readBytes_def)
  next
    case inside
    have "modeMatches (readBytes [c] st\<lparr>msQuote := msQuote st\<rparr>) ?app seen"
      using inside by (intro modeMatches_read[OF m]) auto
    from Cons.IH[OF this] inside show ?thesis by (simp add: modeLoop.simps(2) splitRowsLoop.simps(2) readBytes_def msQuote_same)
  next
    case paren
    show ?thesis
    proof (cases "msDepth st = 0")
      case True
      let ?st = "st\<lparr>msInRow := True, msCur := [], msSpans := [], msDepth := 1\<rparr>"
      have "modeMatches ?st (Some []) seen" using m paren by (simp add: modeMatches_def)
      from Cons.IH[OF this] paren True show ?thesis by (simp add: modeLoop.simps(2) splitRowsLoop.simps(2))
    next
      case False
      let ?st = "(readBytes [c] st)\<lparr>msDepth := msDepth st + 1\<rparr>"
      have "modeMatches ?st ?app seen"
        using m paren False by (auto simp: modeMatches_def readBytes_def rawVals_snoc Let_def)
      from Cons.IH[OF this] paren False show ?thesis
        by (simp add: modeLoop.simps(2) splitRowsLoop.simps(2) readBytes_def)
    qed
  next
    case close
    with modeLoop_close[OF Cons.IH m] show ?thesis by simp
  next
    case comma
    let ?st = "st\<lparr>msSpans := msSpans st @ [msCur st], msCur := []\<rparr>"
    have "modeMatches ?st ?app seen" using m comma by (auto simp: modeMatches_def rawVals_snoc Let_def)
    from Cons.IH[OF this] comma m show ?thesis
      by (simp add: modeLoop.simps(2) splitRowsLoop.simps(2) modeMatches_def)
  next
    case other
    have "modeMatches (readBytes [c] st\<lparr>msQuote := msQuote st\<rparr>) ?app seen"
      using other by (intro modeMatches_read[OF m]) auto
    from Cons.IH[OF this] other show ?thesis
      by (auto simp: modeLoop.simps(2) splitRowsLoop.simps(2) readBytes_def msQuote_same)
  qed
qed

lemma parseGroups_length: "parseGroups columns gs seen rows = Inr rows' \<Longrightarrow> length rows' = length rows + length gs"
  by (induction columns gs seen rows rule: parseGroups.induct) (auto split: sum.splits if_splits)

lemma parseInsertRowsMode_False: "parseInsertRowsMode raw columns False = parseInsertRows raw columns"
proof -
  have "modeMatches modeInit None []" by (simp add: modeMatches_def modeInit_def)
  from modeLoop_matches[OF this, of columns "TrimSpace raw"]
  have eq: "rowsOf (modeLoop columns False modeInit (TrimSpace raw)) = parseGroups columns (splitRows (TrimSpace raw)) [] []"
    by (simp add: modeInit_def splitRows_def)
  show ?thesis
  proof (cases "modeLoop columns False modeInit (TrimSpace raw)")
    case (Inl e)
    with eq show ?thesis by (auto simp: parseInsertRowsMode_def parseInsertRows_def rowsOf_def Let_def)
  next
    case (Inr st)
    with eq have "parseGroups columns (splitRows (TrimSpace raw)) [] [] = Inr (msRows st)" by (simp add: rowsOf_def)
    with parseGroups_length[OF this] Inr show ?thesis
      by (auto simp: parseInsertRowsMode_def parseInsertRows_def Let_def)
  qed
qed
section \<open>Parsed rows fit their table\<close>

lemma parseColumns_Inr:
  assumes "parseColumns cs vs row key = Inr (row', key')" "length vs = length cs" "wf_columns cs"
  shows "typedRow cs row'" "n \<notin> cName ` set cs \<Longrightarrow> mget row' n = mget row n"
    "key' = (if hasPrimaryColumn cs then valueKey (rget row' (primaryOf cs)) else key)"
proof -
  have "typedRow cs row' \<and> (\<forall>n. n \<notin> cName ` set cs \<longrightarrow> mget row' n = mget row n) \<and>
    key' = (if hasPrimaryColumn cs then valueKey (rget row' (primaryOf cs)) else key)"
    using assms
  proof (induction cs vs row key rule: parseColumns.induct)
    case (1 c cs v vs row key)
    then obtain x where x: "parseVal v (cType c) = Inr x" by (auto split: sum.splits)
    let ?key = "if cPrimary c then valueKey x else key"
    have wf: "wf_columns cs" "cName c \<notin> cName ` set cs" using "1.prems"(3) by (auto simp: wf_columns_def split: if_splits)
    have IH: "typedRow cs row'" "\<And>n. n \<notin> cName ` set cs \<Longrightarrow> mget row' n = mget (mset_at row (cName c) x) n"
      "key' = (if hasPrimaryColumn cs then valueKey (rget row' (primaryOf cs)) else ?key)"
      using 1 x wf(1) by auto
    have rc: "rget row' (cName c) = x" using IH(2)[OF wf(2)] by (simp add: rget_def gomap_simps)
    have "\<not> hasPrimaryColumn cs" if "cPrimary c"
      using "1.prems"(3) that by (auto simp: wf_columns_def hasPrimaryColumn_iff filter_empty_conv)
    then show ?case using IH rc parseVal_typed[OF x] by (auto simp: typedRow_def gomap_simps)
  qed (auto simp: typedRow_def)
  then show "typedRow cs row'" "n \<notin> cName ` set cs \<Longrightarrow> mget row' n = mget row n"
    "key' = (if hasPrimaryColumn cs then valueKey (rget row' (primaryOf cs)) else key)" by blast+
qed

definition goodRow :: "column list \<Rightarrow> insertRow \<Rightarrow> bool" where
  "goodRow cols r \<longleftrightarrow> rowFits cols r \<and> typedRow cols (irRow r)"

lemma parseRow_good:
  assumes "parseRow cols vs = Inr r" "wf_columns cols"
  shows "goodRow cols r"
  using assms parseColumns_Inr[of cols vs "[]" "[]" "irRow r" "irKey r"]
  by (auto simp: parseRow_def goodRow_def rowFits_def keyFits_def split: if_splits sum.splits prod.splits)

lemma flushRow_good:
  assumes "flushRow cols k st = Inr st'" "wf_columns cols" "\<forall>r \<in> set (msRows st). goodRow cols r"
  shows "\<forall>r \<in> set (msRows st'). goodRow cols r"
proof -
  from assms(1) obtain r where "parseRow cols (msSpans st @ [msCur st]) = Inr r" "msRows st' = msRows st @ [r]"
    by (auto simp: flushRow_def Let_def split: sum.splits if_splits)
  with assms(2,3) parseRow_good show ?thesis by auto
qed

lemma modeLoop_step:
  assumes "modeLoop cols k st (c # cs) = Inr st'" "wf_columns cols" "\<forall>r \<in> set (msRows st). goodRow cols r"
  shows "\<exists>st1. modeLoop cols k st1 cs = Inr st' \<and> (\<forall>r \<in> set (msRows st1). goodRow cols r)"
proof (cases "c = quoteChar")
  case True
  let ?st = "readBytes [c] st\<lparr>msQuote := \<not> msQuote st\<rparr>"
  have "modeLoop cols k ?st cs = Inr st'" "msRows ?st = msRows st"
    using assms(1) True by (simp_all add: modeLoop_quote readBytes_def)
  with assms(3) show ?thesis by metis
next
  case ordinary: False
  show ?thesis
  proof (cases "\<not> msQuote st \<and> c = CHR '')'' \<and> msDepth st = 1 \<and> msInRow st")
    case True
    with assms(1) obtain s1 where "flushRow cols k (st\<lparr>msDepth := 0\<rparr>) = Inr s1"
      "modeLoop cols k (readBytes [c] s1\<lparr>msInRow := False\<rparr>) cs = Inr st'"
      by (auto simp: modeLoop.simps(2) split: sum.splits)
    moreover from flushRow_good[OF this(1) assms(2)] assms(3)
    have "\<forall>r \<in> set (msRows (readBytes [c] s1\<lparr>msInRow := False\<rparr>)). goodRow cols r" by (simp add: readBytes_def)
    ultimately show ?thesis by blast
  next
    case False
    then have "\<exists>st1. modeLoop cols k st (c # cs) = modeLoop cols k st1 cs \<and> msRows st1 = msRows st"
      using ordinary by (auto simp: modeLoop.simps(2) readBytes_def)
    with assms(1,3) show ?thesis by metis
  qed
qed

lemma modeLoop_good:
  "modeLoop cols k st s = Inr st' \<Longrightarrow> wf_columns cols \<Longrightarrow> \<forall>r \<in> set (msRows st). goodRow cols r \<Longrightarrow>
   \<forall>r \<in> set (msRows st'). goodRow cols r"
proof (induction s arbitrary: st)
  case (Cons c cs)
  from modeLoop_step[OF Cons.prems] Cons.IH Cons.prems(2) show ?case by blast
qed simp

lemma parseInsertRowsMode_good:
  assumes "parseInsertRowsMode raw cols k = Inr rows" "wf_columns cols" "r \<in> set rows"
  shows "goodRow cols r"
proof -
  from assms(1) obtain st where st: "modeLoop cols k modeInit (TrimSpace raw) = Inr st" "rows = msRows st"
    by (auto simp: parseInsertRowsMode_def split: sum.splits if_splits)
  with modeLoop_good[OF st(1) assms(2)] assms(3) show ?thesis by (simp add: modeInit_def)
qed

section \<open>What INSERT does\<close>

lemma applyInsertRows_error: "fst (applyInsertRows ctx rows replace t) = Inl e \<Longrightarrow> snd (applyInsertRows ctx rows replace t) = t"
  by (auto simp: applyInsertRows_def split: option.splits)

lemma applyInsertRows_wf:
  assumes "wf_table t" "fast_big t" "\<forall>r \<in> set rows. rowFits (Columns t) r"
  shows "wf_table (snd (applyInsertRows ctx rows replace t)) \<and> fast_big (snd (applyInsertRows ctx rows replace t))"
proof (cases "putRows replace rows (reclaimOrder t)")
  case (Some t')
  let ?dup = "if replace then None else duplicateCheck (apply_tick ctx) 0 t [] rows"
  show ?thesis
  proof (cases ?dup)
    case None
    then have "replace \<or> rowsNew (reclaimOrder t) rows"
      using duplicateCheck_None[of "apply_tick ctx" 0 t "[]" rows] by (auto simp: rowsNew_def split: if_splits)
    with assms Some have "wf_table t' \<and> fast_big t'"
      by (intro putRows_wf[of "reclaimOrder t" rows replace]) (auto simp: reclaimOrder_wf reclaimOrder_big)
    with None Some show ?thesis by (simp add: applyInsertRows_def)
  qed (use assms in \<open>simp add: applyInsertRows_def\<close>)
qed (use assms in \<open>auto simp: applyInsertRows_def split: option.splits\<close>)

lemma putRows_typed:
  "putRows replace rs t = Some t' \<Longrightarrow> typed_table t \<Longrightarrow> \<forall>r \<in> set rs. typedRow (Columns t) (irRow r) \<Longrightarrow>
   typed_table t' \<and> Columns t' = Columns t"
proof (induction rs arbitrary: t)
  case (Cons r rs)
  obtain key t1 where p: "putOne replace r t = Some (key, t1)" "putRows replace rs t1 = Some t'"
    using Cons.prems(1) unfolding putRows_Cons by (auto split: option.splits)
  from p(1) obtain a where "t1 = putRow replace key (irRow r) (t\<lparr>autoKey := a\<rparr>)" by (rule putOne_Some)
  then have "Rows t1 = mset_at (Rows t) key (irRow r)" "Columns t1 = Columns t" by simp_all
  moreover from this Cons.prems(2,3) have "typed_table t1" by (auto simp: typed_table_def gomap_simps split: if_splits)
  ultimately show ?case using Cons.IH[OF p(2)] Cons.prems(3) by simp
qed simp

text \<open>
  Where the new rows end up: after the rows that were visible, in the order of the statement, each
  under its own key or a fresh one, with the old rows untouched.
\<close>

definition appended :: "table \<Rightarrow> table \<Rightarrow> insertRow list \<Rightarrow> string list \<Rightarrow> bool" where
  "appended t t' rows keys \<longleftrightarrow>
     live t' = live t @ keys \<and> length keys = length rows \<and>
     (\<forall>i < length rows. mget (Rows t') (keys ! i) = Some (irRow (rows ! i)) \<and>
        (irKey (rows ! i) \<noteq> [] \<longrightarrow> keys ! i = irKey (rows ! i))) \<and>
     (\<forall>k. mhas (Rows t) k \<longrightarrow> mget (Rows t') k = mget (Rows t) k)"

lemma putRows_appended:
  assumes "wf_table t" "fast_big t" "dead t = 0" "\<forall>r \<in> set rs. rowFits (Columns t) r" "rowsNew t rs"
    "putRows False rs t = Some t'"
  shows "\<exists>keys. appended t t' rs keys"
  using assms
proof (induction rs arbitrary: t)
  case Nil
  then show ?case by (intro exI[of _ "[]"]) (simp add: appended_def)
next
  case (Cons r rs)
  obtain key t1 where p: "putOne False r t = Some (key, t1)" "putRows False rs t1 = Some t'"
    using Cons.prems(6) unfolding putRows_Cons by (auto split: option.splits)
  have new: "False \<or> irKey r = [] \<or> \<not> mhas (Rows t) (irKey r)" using Cons.prems(5) by (auto simp: rowsNew_def)
  have fits: "rowFits (Columns t) r" using Cons.prems(4) by simp
  note w = putOne_wf[OF Cons.prems(1-3) fits new p(1)]
  from p(1) have kk: "irKey r \<noteq> [] \<longrightarrow> key = irKey r" "\<not> mhas (Rows t) key" using new
    by (auto simp: putOne_def split: if_splits dest!: nextSyntheticKey_Some)
  have "rowsNew t1 rs"
  proof (cases "irKey r = []")
    case False
    with kk Cons.prems(5) w(5) show ?thesis by (auto simp: rowsNew_def gomap_simps) (metis imageI)+
  next
    case True
    then have "\<forall>x \<in> set rs. irKey x = []" using Cons.prems(4)
      by (auto simp: rowFits_def keyFits_def split: if_splits)
    then show ?thesis by (auto simp: rowsNew_def)
  qed
  then obtain keys where ks: "appended t1 t' rs keys"
    using Cons.IH[OF w(1-3) _ _ p(2)] Cons.prems(4) w(4) by auto
  have "live t1 = live t @ [key]"
    using w(5,6) kk(2) wf_rows_all_live[of t key] Cons.prems(1,3)
    by (auto simp: live_def gomap_simps wf_table_def intro: filter_cong)
  moreover have "mget (Rows t') key = Some (irRow r)" using ks w(5) by (auto simp: appended_def gomap_simps)
  moreover have "mhas (Rows t) k \<Longrightarrow> mget (Rows t') k = mget (Rows t) k" for k
    using ks w(5) kk(2) by (auto simp: appended_def gomap_simps)
  ultimately have "appended t t' (r # rs) (key # keys)"
    using ks kk(1) by (auto simp: appended_def nth_Cons split: nat.splits)
  then show ?case by blast
qed
section \<open>Properties\<close>

text \<open>
  C37: the single-pass VALUES parser in use and the older group parser give the same rows and the
  same errors on every payload.
\<close>

theorem insert_parsers_agree: "parseInsertRowsMode raw columns False = parseInsertRows raw columns"
  by (rule parseInsertRowsMode_False)

text \<open>
  INSERT keeps the table invariant (rows, order, secondary indexes, fast array, keys) and the
  types of the stored values, and a failing INSERT changes nothing.
\<close>

theorem insert_keeps_invariant:
  assumes "wf_table t" "fast_big t" "typed_table t" "insertValues ctx payload replace t = (r, t')"
  shows "wf_table t' \<and> fast_big t' \<and> typed_table t' \<and> (\<forall>e. r = Inl e \<longrightarrow> t' = t)"
proof (cases "parseInsertRowsMode payload (Columns t) replace")
  case (Inl e)
  with assms show ?thesis by (auto simp: insertValues_def)
next
  case (Inr rows)
  have cols: "wf_columns (Columns t)" using assms(1) by (simp add: wf_table_def)
  have good: "\<forall>r \<in> set rows. goodRow (Columns t) r" using parseInsertRowsMode_good[OF Inr cols] by blast
  have a: "applyInsertRows ctx rows replace t = (r, t')" using assms(4) Inr by (simp add: insertValues_def)
  have "wf_table t' \<and> fast_big t'"
    using applyInsertRows_wf[OF assms(1,2), of rows ctx replace] good a by (simp add: goodRow_def)
  moreover have "typed_table t'"
    using a assms(3) good putRows_typed[of replace rows "reclaimOrder t"]
    by (auto simp: applyInsertRows_def typed_table_def goodRow_def split: option.splits)
  moreover have "\<forall>e. r = Inl e \<longrightarrow> t' = t" using applyInsertRows_error[of ctx rows replace t] a by simp
  ultimately show ?thesis by blast
qed

theorem insert_keeps_invariant_witness:
  "wf_table (snd (insertValues background ''(1, a), (2, NULL)'' False users)) \<and>
   fst (insertValues background ''(1, a), (2, NULL)'' False users) = Inr (affected 2)"
proof -
  have "typed_table users" by (simp add: typed_table_def users_def newTable_def)
  from insert_keeps_invariant[OF users_wf this, of background "''(1, a), (2, NULL)''" False]
  have "wf_table (snd (insertValues background ''(1, a), (2, NULL)'' False users))" by (metis prod.collapse)
  moreover have "fst (insertValues background ''(1, a), (2, NULL)'' False users) = Inr (affected 2)" by code_simp
  ultimately show ?thesis ..
qed

text \<open>
  A successful plain INSERT appends its rows after the visible ones, in the order of the
  statement and each under its own key (or a fresh synthetic one); the old rows stay as they were
  and the reported count is the number of rows.
\<close>

theorem insert_appends:
  assumes "wf_table t" "fast_big t" "insertValues ctx payload False t = (Inr res, t')"
  shows "\<exists>rows keys. parseInsertRows payload (Columns t) = Inr rows \<and> appended t t' rows keys \<and>
    res = affected (length rows)"
proof -
  obtain rows where rows: "parseInsertRowsMode payload (Columns t) False = Inr rows"
    and a: "applyInsertRows ctx rows False t = (Inr res, t')"
    using assms(3) by (auto simp: insertValues_def split: sum.splits)
  then have n: "duplicateCheck (apply_tick ctx) 0 t [] rows = None" and p: "putRows False rows (reclaimOrder t) = Some t'"
    and r: "res = affected (length rows)" by (auto simp: applyInsertRows_def split: option.splits)
  have cols: "wf_columns (Columns t)" using assms(1) by (simp add: wf_table_def)
  have "rowsNew (reclaimOrder t) rows" using duplicateCheck_None[OF n] by (simp add: rowsNew_def)
  then obtain keys where "appended (reclaimOrder t) t' rows keys"
    using putRows_appended[OF reclaimOrder_wf[OF assms(1)] reclaimOrder_big[OF assms(2)] _ _ _ p]
      parseInsertRowsMode_good[OF rows cols] by (auto simp: goodRow_def)
  then have "appended t t' rows keys"
    using reclaimOrder_live(2)[of t] assms(1) by (simp add: appended_def wf_table_def)
  with rows r parseInsertRowsMode_False show ?thesis by metis
qed

theorem insert_appends_witness:
  "\<exists>rows keys. parseInsertRows ''(7, x)'' (Columns users) = Inr rows \<and>
     appended users (snd (insertValues background ''(7, x)'' False users)) rows keys \<and> affected 1 = affected (length rows)"
proof -
  have "fst (insertValues background ''(7, x)'' False users) = Inr (affected 1)" by code_simp
  then have "insertValues background ''(7, x)'' False users =
      (Inr (affected 1), snd (insertValues background ''(7, x)'' False users))" by (metis prod.collapse)
  from insert_appends[OF users_wf this] show ?thesis .
qed

lemma duplicateCheck_background:
  "duplicateCheck (\<lambda>_. None) n t batch rs =
     (if rowsNew t rs \<and> (\<forall>r \<in> set rs. irKey r \<noteq> [] \<longrightarrow> irKey r \<notin> set batch) then None
      else Some (Msg ''duplicate primary key''))"
proof (induction rs arbitrary: n batch)
  case (Cons r rs)
  show ?case
  proof (cases "irKey r = []")
    case True
    with Cons[of "Suc n" batch] show ?thesis by (simp add: rowsNew_def)
  next
    case False
    have "rowsNew t (r # rs) \<and> (\<forall>x \<in> set (r # rs). irKey x \<noteq> [] \<longrightarrow> irKey x \<notin> set batch) \<longleftrightarrow>
      \<not> mhas (Rows t) (irKey r) \<and> irKey r \<notin> set batch \<and> rowsNew t rs \<and>
      (\<forall>x \<in> set rs. irKey x \<noteq> [] \<longrightarrow> irKey x \<notin> set (sadd batch (irKey r)))"
      using False by (auto simp: rowsNew_def image_iff)
    with False Cons[of "Suc n" "sadd batch (irKey r)"] show ?thesis by auto
  qed
qed (simp add: rowsNew_def)

text \<open>
  Applying a batch fails with a duplicate-key error exactly when two of its keys coincide or one
  is already taken; otherwise it succeeds (as long as fewer than \<open>2 ^ 64\<close> rows exist, so that the search
  for a synthetic key ends).
\<close>

theorem insert_succeeds_iff_new:
  assumes "length (Rows t) + length rows \<le> 2 ^ 64"
  shows "fst (applyInsertRows background rows False t) =
    (if rowsNew t rows then Inr (affected (length rows)) else Inl (Msg ''duplicate primary key''))"
  using assms putRows_returns[of "reclaimOrder t" rows False]
  by (auto simp: applyInsertRows_def duplicateCheck_background split: option.splits)

theorem insert_succeeds_iff_new_witness:
  "fst (applyInsertRows background [\<lparr>irKey = ''1'', irRow = []\<rparr>, \<lparr>irKey = ''1'', irRow = []\<rparr>] False users)
     = Inl (Msg ''duplicate primary key'')"
  using insert_succeeds_iff_new[of users "[\<lparr>irKey = ''1'', irRow = []\<rparr>, \<lparr>irKey = ''1'', irRow = []\<rparr>]"]
  by (simp add: rowsNew_def users_def newTable_def)

text \<open>
  C40: the search for a synthetic key ends, and the key it returns is new.
\<close>

theorem synthetic_key_fresh:
  assumes "length (Rows t) < 2 ^ 64"
  shows "\<exists>key t'. nextSyntheticKeyLocked t = Some (key, t') \<and> \<not> mhas (Rows t) key \<and> Rows t' = Rows t"
  using nextSyntheticKey_total[OF assms] nextSyntheticKey_Some[of t] by fastforce

theorem synthetic_key_fresh_witness:
  "\<exists>key t'. nextSyntheticKeyLocked users = Some (key, t') \<and> \<not> mhas (Rows users) key \<and> Rows t' = Rows users"
  by (rule synthetic_key_fresh) (simp add: users_def newTable_def)

end
