(* ===== verification/Mutate.thy ===== *)
theory Mutate
  imports Insert
begin

text \<open>
  \<^verbatim>\<open>internal/engine/update.go\<close> and \<^verbatim>\<open>internal/engine/delete.go\<close>. A statement takes the database
  and returns its result with the database it leaves behind, so that what an aborted statement has
  already written can be seen.

  UPDATE and DELETE keep the table invariant; UPDATE of the primary column does so when the new key
  is not empty and is no tombstone of \<open>Order\<close>. DELETE by another column than the primary one keeps
  the invariant but can leave a fast array on a table below the threshold.
\<close>

section \<open>UPDATE (update.go)\<close>

text \<open>\<^verbatim>\<open>mutationExpected\<close>: the raw WHERE value at the type of its column.\<close>

fun columnType :: "column list \<Rightarrow> string \<Rightarrow> coltype option" where
  "columnType [] name = None"
| "columnType (c # cs) name = (if cName c = name then Some (cType c) else columnType cs name)"

definition mutationExpected :: "table \<Rightarrow> string \<Rightarrow> string \<Rightarrow> whereOp \<Rightarrow> goval res" where
  "mutationExpected t column val op =
     (if column = [] then Inr (VStr val)
      else case columnType (Columns t) column of
        None \<Rightarrow> Inl invalidWhere
      | Some ct \<Rightarrow>
          (case op of
             opEq \<Rightarrow> Inr (VStr val)
           | opNe \<Rightarrow> Inr (VStr val)
           | opIn \<Rightarrow> Inr (VStr val)
           | opLike \<Rightarrow> Inr (VStr val)
           | opBetween \<Rightarrow>
               (case splitBetweenBounds val of
                  None \<Rightarrow> Inl invalidWhere
                | Some (lo, hi) \<Rightarrow> Inr (VList [literalValue lo ct, literalValue hi ct]))
           | _ \<Rightarrow> (case parseVal val ct of Inr pv \<Rightarrow> Inr pv | Inl _ \<Rightarrow> Inr (VStr val))))"

text \<open>Writing one cell: the row, the index entry of the column, and the fast array.\<close>

definition setCell :: "string \<Rightarrow> string \<Rightarrow> goval \<Rightarrow> table \<Rightarrow> table" where
  "setCell key col v t =
     (let row = rowAt t key;
          t1 = t\<lparr>Rows := mset_at (Rows t) key (mset_at row col v)\<rparr>;
          t2 = removeIndexValue col (valueKey (rget row col)) key t1
      in updateFastRowLocked key col v (addIndexValue col (valueKey v) key t2))"

definition duplicateKey :: error where
  "duplicateKey = Msg ''duplicate primary key''"

definition rekeyPrimaryLocked :: "string \<Rightarrow> goval \<Rightarrow> table \<Rightarrow> result res \<times> table" where
  "rekeyPrimaryLocked oldKey newVal t =
     (let newKey = valueKey newVal; row = rowAt t oldKey; pk = primaryColumn t in
      if newKey = oldKey then (Inr (affected 1), setCell oldKey pk newVal t)
      else if mhas (Rows t) newKey then (Inl duplicateKey, t)
      else
        let t1 = unindexRow oldKey row t;
            row' = mset_at row pk newVal;
            t2 = t1\<lparr>Rows := mset_at (mdel (Rows t1) oldKey) newKey row',
                    Order := replace_first oldKey newKey (Order t1)\<rparr>;
            t3 = indexRow newKey row' t2
        in (Inr (affected 1), rekeyFastRowLocked oldKey newKey newVal t3))"

type_synonym mutation = "string \<times> string \<times> whereOp \<times> goval"

text \<open>The WHERE of a mutation applied to a row; without a column every row matches.\<close>

definition rowMatches :: "mutation \<Rightarrow> row \<Rightarrow> bool" where
  "rowMatches m row =
     (case m of (wc, wv, wop, expected) \<Rightarrow> wc = [] \<or> matchWhereOp (rget row wc) wv expected wop)"

definition updatePrimaryMultiLocked :: "mutation \<Rightarrow> goval \<Rightarrow> table \<Rightarrow> result res \<times> table" where
  "updatePrimaryMultiLocked m v t =
     (case filter (\<lambda>key. rowMatches m (rowAt t key)) (mkeys (Rows t)) of
        [] \<Rightarrow> (Inr (affected 0), t)
      | [key] \<Rightarrow>
          if mhas (Rows t) (valueKey v) \<and> valueKey v \<noteq> key then (Inl duplicateKey, t)
          else rekeyPrimaryLocked key v t
      | _ \<Rightarrow> (Inl duplicateKey, t))"

fun updateScan ::
  "(nat \<Rightarrow> error option) \<Rightarrow> nat \<Rightarrow> mutation \<Rightarrow> string \<Rightarrow> goval \<Rightarrow> string list \<Rightarrow> nat \<Rightarrow> table \<Rightarrow> result res \<times> table" where
  "updateScan c i m col v [] n t = (Inr (affected n), t)"
| "updateScan c i m col v (key # keys) n t =
     (case tick c (Suc i) of
        Some e \<Rightarrow> (Inl e, t)
      | None \<Rightarrow>
          if rowMatches m (rowAt t key) then updateScan c (Suc i) m col v keys (Suc n) (setCell key col v t)
          else updateScan c (Suc i) m col v keys n t)"

definition updateTable :: "ctx \<Rightarrow> mutation \<Rightarrow> string \<Rightarrow> goval \<Rightarrow> table \<Rightarrow> result res \<times> table" where
  "updateTable ctx m col v t =
     (case m of (wc, wv, wop, expected) \<Rightarrow>
        let pk = primaryColumn t; isPKUpdate = (col = pk \<and> pk \<noteq> []) in
        if wc \<noteq> [] \<and> wc = pk \<and> wop = opEq then
          (if mhas (Rows t) wv then
             (if \<not> isPKUpdate then (Inr (affected 1), setCell wv col v t) else rekeyPrimaryLocked wv v t)
           else (Inr noResult, t))
        else if isPKUpdate then updatePrimaryMultiLocked m v t
        else updateScan (scan ctx) 0 m col v (mkeys (Rows t)) 0 t)"

definition update :: "ctx \<Rightarrow> string \<Rightarrow> database \<Rightarrow> result res \<times> database" where
  "update ctx s d =
     (case indexKeyword s ''SET'' of
        None \<Rightarrow> (Inl (Msg ''UPDATE requires SET''), d)
      | Some si \<Rightarrow>
          let head = Fields (take si s) in
          if length head < 2 then (Inl (Msg ''table required''), d)
          else case table_lookup d (head ! 1) of
            Inl e \<Rightarrow> (Inl e, d)
          | Inr t \<Rightarrow>
              let tail = drop (si + 3) s;
                  wi = indexKeyword tail ''WHERE'';
                  assign = TrimSpace (case wi of None \<Rightarrow> tail | Some i \<Rightarrow> take i tail)
              in case splitByte2 (CHR ''='') assign of
                None \<Rightarrow> (Inl (Msg ''invalid SET''), d)
              | Some (lhs, rhs) \<Rightarrow>
                  let col = ToLower (TrimSpace lhs) in
                  case columnType (Columns t) col of
                    None \<Rightarrow> (Inl (Msg (''column not found: '' @ col)), d)
                  | Some ct \<Rightarrow>
                      (case parseVal rhs ct of
                         Inl e \<Rightarrow> (Inl e, d)
                       | Inr v \<Rightarrow>
                           (case (if wi \<noteq> None then parseMutationWhere s else Inr None) of
                              Inl e \<Rightarrow> (Inl e, d)
                            | Inr w \<Rightarrow>
                                (case (case w of None \<Rightarrow> ([], [], opEq) | Some x \<Rightarrow> x) of (wc, wv, wop) \<Rightarrow>
                                   (case mutationExpected t wc wv wop of
                                      Inl e \<Rightarrow> (Inl e, d)
                                    | Inr expected \<Rightarrow>
                                        (case updateTable ctx (wc, wv, wop, expected) col v t of
                                           (r, t') \<Rightarrow> (r, setTable d (head ! 1) t')))))))"

section \<open>DELETE (delete.go)\<close>

definition rebuildIfSparse :: "table \<Rightarrow> table" where
  "rebuildIfSparse t =
     (if fast t \<noteq> [] \<and> length (fast t) + fastDead t \<le> fastDead t * 4 then rebuildFastPathLocked t else t)"

definition deleteKey :: "string \<Rightarrow> table \<Rightarrow> table" where
  "deleteKey v t =
     (let t1 = unindexRow v (rowAt t v) t;
          t2 = t1\<lparr>Rows := mdel (Rows t1) v, dead := dead t1 + 1\<rparr>
      in rebuildIfSparse (compactOrderLocked (removeFastRowLocked v t2)))"

text \<open>Dropping one row in the scan; \<open>Order\<close> is written once at the end.\<close>

definition dropRow :: "string \<Rightarrow> table \<Rightarrow> table" where
  "dropRow k t =
     (let t1 = unindexRow k (rowAt t k) t
      in removeFastRowLocked k (t1\<lparr>Rows := mdel (Rows t1) k\<rparr>))"

text \<open>
  The scan over \<open>Order\<close>. \<^verbatim>\<open>remaining := t.Order[:0]\<close> shares its array with \<open>Order\<close>: when the
  context ends the scan early, the kept keys have overwritten a prefix of \<open>Order\<close>.
\<close>

fun deleteScan ::
  "(nat \<Rightarrow> error option) \<Rightarrow> nat \<Rightarrow> mutation \<Rightarrow> string list \<Rightarrow> string list \<Rightarrow> nat \<Rightarrow> table \<Rightarrow> result res \<times> table" where
  "deleteScan c i m [] remaining n t =
     (Inr (affected n), rebuildIfSparse (t\<lparr>Order := remaining, dead := 0\<rparr>))"
| "deleteScan c i m (k # ks) remaining n t =
     (case tick c (Suc i) of
        Some e \<Rightarrow> (Inl e, t\<lparr>Order := remaining @ drop (length remaining) (Order t)\<rparr>)
      | None \<Rightarrow>
          if \<not> mhas (Rows t) k then deleteScan c (Suc i) m ks remaining n t
          else if rowMatches m (rowAt t k) then deleteScan c (Suc i) m ks remaining (Suc n) (dropRow k t)
          else deleteScan c (Suc i) m ks (remaining @ [k]) n t)"

definition deleteTable :: "ctx \<Rightarrow> mutation \<Rightarrow> table \<Rightarrow> result res \<times> table" where
  "deleteTable ctx m t =
     (case m of (c, v, op, expected) \<Rightarrow>
        if c \<noteq> [] \<and> c = primaryColumn t \<and> op = opEq then
          (if mhas (Rows t) v then (Inr (affected 1), deleteKey v t) else (Inr noResult, t))
        else deleteScan (scan ctx) 0 m (Order t) [] 0 t)"

definition delete :: "ctx \<Rightarrow> string \<Rightarrow> database \<Rightarrow> result res \<times> database" where
  "delete ctx s d =
     (case firstField (TrimSpace (drop 11 s)) of
        None \<Rightarrow> (Inl (Msg ''invalid DELETE''), d)
      | Some tableName \<Rightarrow>
          (case table_lookup d tableName of
             Inl e \<Rightarrow> (Inl e, d)
           | Inr t \<Rightarrow>
               (case parseMutationWhere s of
                  Inl e \<Rightarrow> (Inl e, d)
                | Inr w \<Rightarrow>
                    (case (case w of None \<Rightarrow> ([], [], opEq) | Some x \<Rightarrow> x) of (c, v, op) \<Rightarrow>
                       (case mutationExpected t c v op of
                          Inl e \<Rightarrow> (Inl e, d)
                        | Inr expected \<Rightarrow>
                            (case deleteTable ctx (c, v, op, expected) t of
                               (r, t') \<Rightarrow> (r, setTable d tableName t')))))))"

section \<open>Writing a cell\<close>

lemma setCell_frame [simp]:
  "Columns (setCell key col v t) = Columns t" "Order (setCell key col v t) = Order t"
  "Rows (setCell key col v t) = mset_at (Rows t) key (mset_at (rowAt t key) col v)"
  "dead (setCell key col v t) = dead t" "IndexNames (setCell key col v t) = IndexNames t"
  "mkeys (Indexes (setCell key col v t)) = mkeys (Indexes t)"
  by (simp_all add: setCell_def Let_def)

lemma wf_index_setCell:
  assumes wf: "wf_index t" and row: "mget (Rows t) key = Some row"
    and t1: "t1 = t\<lparr>Rows := mset_at (Rows t) key (mset_at row col v)\<rparr>"
  shows "wf_index (addIndexValue col (valueKey v) key (removeIndexValue col (valueKey (rget row col)) key t1))"
    (is "wf_index ?t")
proof -
  have "idx_shape t1" using wf t1 idx_shape_cong[of t1 t] by (simp add: wf_index_def)
  then have "idx_shape ?t" by (intro idx_shape_add idx_shape_remove)
  moreover have "k \<in> set (bucketOf ?t c u) \<longleftrightarrow> (\<exists>r. mget (Rows ?t) k = Some r \<and> valueKey (rget r c) = u)"
    if "mhas (Indexes ?t) c" for c u k
  proof -
    have h: "mhas (Indexes t) c" using that t1 by (auto simp: mhas_iff simp del: not_None_eq)
    have b: "bucketOf t1 c u = bucketOf t c u" using t1 by (simp add: bucketOf_def)
    have b': "bucketOf t1 col u = bucketOf t col u" for u using t1 by (simp add: bucketOf_def)
    have m: "mhas (Indexes (removeIndexValue col (valueKey (rget row col)) key t1)) col = mhas (Indexes t) col"
      using t1 unfolding mhas_iff mkeys_Indexes_remove by simp
    show ?thesis using wf_indexD[OF wf h, of k u] row h t1
      unfolding set_bucketOf_add set_bucketOf_remove b b' m
      by (auto simp: gomap_simps rget_update split: if_splits)
  qed
  ultimately show ?thesis unfolding wf_index_def by blast
qed

lemma setCell_wf:
  assumes wf: "wf_table t" and row: "mget (Rows t) key = Some row" and col: "col \<in> cName ` set (Columns t)"
    and pk: "hasPrimaryColumn (Columns t) \<Longrightarrow> col = primaryColumn t \<Longrightarrow> valueKey v = key"
  shows "wf_table (setCell key col v t)"
proof -
  let ?t1 = "t\<lparr>Rows := mset_at (Rows t) key (mset_at row col v)\<rparr>"
  let ?t2 = "addIndexValue col (valueKey v) key (removeIndexValue col (valueKey (rget row col)) key ?t1)"
  have r: "rowAt t key = row" using row by (simp add: rowAt_def)
  have s: "setCell key col v t = updateFastRowLocked key col v ?t2" by (simp add: setCell_def Let_def r)
  have ne: "key \<noteq> []" using wf row by (auto simp: wf_table_def wf_rows_def)
  obtain iy where "removeIndexValue col (valueKey (rget row col)) key ?t1 = ?t1\<lparr>Indexes := iy\<rparr>" using removeIndexValue_upd by blast
  moreover obtain ix where "?t2 = (removeIndexValue col (valueKey (rget row col)) key ?t1)\<lparr>Indexes := ix\<rparr>" using addIndexValue_upd by blast
  ultimately have t2: "?t2 = t\<lparr>Rows := mset_at (Rows t) key (mset_at row col v), Indexes := ix\<rparr>" by simp
  have "fast_ok (updateFastRowLocked key col v ?t2)"
    using updateFast_ok[OF _ _ ne col row t2] wf by (simp add: wf_table_def)
  moreover have "wf_columns (Columns ?t2)" using wf by (simp add: wf_table_def)
  moreover have "wf_rows ?t2" using wf row by - (rule wf_rows_replace[of t key], simp_all add: wf_table_def)
  moreover have "wf_index ?t2" using wf_index_setCell[OF _ row] wf by (simp add: wf_table_def)
  moreover have "wf_names ?t2" using wf wf_names_cong[of ?t2 t] by (simp add: wf_table_def)
  moreover have "keys_ok ?t2" using wf pk row
    by (auto simp: wf_table_def keys_ok_def primaryColumn_def gomap_simps rget_update)
  ultimately have "wf_table (updateFastRowLocked key col v ?t2)" by (rule wf_table_fastI) simp_all
  then show ?thesis by (simp add: s)
qed

lemma setCell_big: "fast_big t \<Longrightarrow> fast_big (setCell key col v t)"
  by (auto simp: setCell_def Let_def fast_big_def updateFastRowLocked_def split: option.splits)

lemma updateScan_wf:
  assumes "wf_table t" "col \<in> cName ` set (Columns t)" "\<not> (col = primaryColumn t \<and> primaryColumn t \<noteq> [])"
    "\<forall>k \<in> set keys. mhas (Rows t) k" "hasPrimaryColumn (Columns t) \<longrightarrow> primaryColumn t \<noteq> []"
  shows "wf_table (snd (updateScan c i m col v keys n t))"
  using assms
proof (induction keys arbitrary: i n t)
  case (Cons key keys)
  show ?case
  proof (cases "tick c (Suc i)")
    case None
    obtain row where row: "mget (Rows t) key = Some row" using Cons.prems(4) by auto
    have "wf_table (setCell key col v t)" using Cons.prems by (intro setCell_wf[OF _ row]) auto
    moreover have "\<forall>k \<in> set keys. mhas (Rows (setCell key col v t)) k" using Cons.prems(4) by (auto simp: gomap_simps)
    moreover have "primaryColumn (setCell key col v t) = primaryColumn t" by (simp add: primaryColumn_def)
    ultimately show ?thesis using None Cons.IH[of t] Cons.IH[of "setCell key col v t"] Cons.prems by simp
  qed (use Cons.prems in simp)
qed simp

lemma updateScan_big: "fast_big t \<Longrightarrow> fast_big (snd (updateScan c i m col v keys n t))"
  by (induction keys arbitrary: i n t) (auto simp: setCell_big split: option.splits)

section \<open>Changing a primary key\<close>

lemma wf_rows_rekey:
  assumes "wf_rows t" "mhas (Rows t) old" "new \<notin> set (Order t)" "new \<noteq> []"
    and "Rows t1 = mset_at (mdel (Rows t) old) new row" "Order t1 = replace_first old new (Order t)" "dead t1 = dead t"
  shows "wf_rows t1"
proof -
  have d: "distinct (Order t)" "old \<in> set (Order t)" "old \<noteq> []" using assms(1,2) by (auto simp: wf_rows_def)
  let ?g = "\<lambda>k. if k = old then new else k"
  have o: "Order t1 = map ?g (Order t)" using assms(6) replace_first_distinct[OF d(1)] by simp
  have "distinct (map ?g (Order t))" using d assms(3) by (auto simp: distinct_map inj_on_def)
  moreover have "filter (\<lambda>k. mget (Rows t1) k = None) (map ?g (Order t)) = map ?g (filter (\<lambda>k. mget (Rows t) k = None) (Order t))"
    using assms(2,3,5) by (auto simp: filter_map o_def gomap_simps intro!: map_cong filter_cong split: if_splits)
  moreover have "k \<in> set (map ?g (Order t)) \<and> k \<noteq> []" if "mhas (Rows t1) k" for k
    using that assms(1,4,5) d(2) by (auto simp: wf_rows_def gomap_simps image_iff split: if_splits)
  ultimately show ?thesis using assms(1,5,7) unfolding wf_rows_def o by (simp add: wf_rows_def)
qed

lemma rekey_wf:
  assumes wf: "wf_table t" and row: "mget (Rows t) old = Some row" and pk: "hasPrimaryColumn (Columns t)"
    and new: "valueKey v \<noteq> []" "valueKey v \<noteq> old \<Longrightarrow> valueKey v \<notin> set (Order t)"
  shows "wf_table (snd (rekeyPrimaryLocked old v t))"
proof -
  let ?new = "valueKey v"
  have r: "rowAt t old = row" using row by (simp add: rowAt_def)
  have pkin: "primaryColumn t \<in> cName ` set (Columns t)" using primaryOf_member[OF pk] by (simp add: primaryColumn_def)
  show ?thesis
  proof (cases "?new = old")
    case True
    with setCell_wf[OF wf row pkin] show ?thesis by (simp add: rekeyPrimaryLocked_def Let_def)
  next
    case False
    then have nin: "?new \<notin> set (Order t)" using new(2) by simp
    have nrow: "mget (Rows t) ?new = None" using wf nin by (auto simp: wf_table_def wf_rows_def)
    let ?row' = "mset_at row (primaryColumn t) v"
    let ?t0 = "(unindexRow old row t)\<lparr>Rows := mdel (Rows t) old\<rparr>"
    let ?t2 = "(unindexRow old row t)\<lparr>Rows := mset_at (mdel (Rows t) old) ?new ?row', Order := replace_first old ?new (Order t)\<rparr>"
    let ?t3 = "indexRow ?new ?row' ?t2"
    have s: "snd (rekeyPrimaryLocked old v t) = rekeyFastRowLocked old ?new v ?t3"
      using False nrow by (simp add: rekeyPrimaryLocked_def Let_def r)
    obtain iy where "unindexRow old row t = t\<lparr>Indexes := iy\<rparr>" using unindexRow_upd by blast
    moreover obtain ix where "?t3 = ?t2\<lparr>Indexes := ix\<rparr>" using indexRow_upd by blast
    ultimately have t3: "?t3 = t\<lparr>Rows := mset_at (mdel (Rows t) old) ?new ?row', Order := replace_first old ?new (Order t), Indexes := ix\<rparr>"
      by simp
    have d: "distinct (Order t)" "old \<in> set (Order t)" "old \<noteq> []" using wf row by (auto simp: wf_table_def wf_rows_def)
    have "fast_ok (rekeyFastRowLocked old ?new v ?t3)"
      using rekeyFast_ok[OF _ _ d(3) new(1) pk row d(1,2) nin t3] wf by (simp add: wf_table_def)
    moreover have "wf_columns (Columns ?t3)" using wf by (simp add: wf_table_def)
    moreover have "wf_rows ?t3" using wf row new(1) nin
      by - (rule wf_rows_rekey[of t old ?new], simp_all add: wf_table_def)
    moreover have "wf_index ?t0" using wf_index_remove[OF _ row] wf by (simp add: wf_table_def)
    then have "wf_index ?t3" using nrow
      by - (rule wf_index_add[of ?t0], simp_all add: gomap_simps)
    moreover have "wf_names ?t3" using wf wf_names_cong[of ?t3 t] by (simp add: wf_table_def)
    moreover have "keys_ok ?t3" using wf
      by (auto simp: wf_table_def keys_ok_def primaryColumn_def gomap_simps rget_update)
    ultimately have "wf_table (rekeyFastRowLocked old ?new v ?t3)" by (rule wf_table_fastI) simp_all
    then show ?thesis by (simp add: s)
  qed
qed

lemma rekeyFast_empty [simp]: "fast (rekeyFastRowLocked old new v t) = [] \<longleftrightarrow> fast t = []"
  by (simp add: rekeyFastRowLocked_def Let_def split: option.splits)

lemma rekey_big: "fast_big t \<Longrightarrow> fast_big (snd (rekeyPrimaryLocked old v t))"
  using setCell_big[of t old "primaryColumn t" v] by (simp add: rekeyPrimaryLocked_def Let_def fast_big_def)

section \<open>Deleting rows\<close>

text \<open>The invariant without the tombstone count, which DELETE only restores at its end.\<close>

definition wf_mid :: "table \<Rightarrow> bool" where
  "wf_mid t \<longleftrightarrow>
     wf_columns (Columns t) \<and> mwf (Rows t) \<and> distinct (Order t) \<and>
     (\<forall>k. mhas (Rows t) k \<longrightarrow> k \<in> set (Order t) \<and> k \<noteq> []) \<and>
     fast_ok t \<and> wf_index t \<and> wf_names t \<and> keys_ok t"

lemma wf_table_mid:
  "wf_table t \<longleftrightarrow> wf_mid t \<and> dead t = length (filter (\<lambda>k. \<not> mhas (Rows t) k) (Order t))"
  by (auto simp: wf_table_def wf_mid_def wf_rows_def)

lemma removeRow_mid:
  assumes mid: "wf_mid t" and row: "mget (Rows t) key = Some row"
  shows "wf_mid (removeFastRowLocked key ((unindexRow key row t)\<lparr>Rows := mdel (Rows t) key, dead := d\<rparr>))"
    (is "wf_mid (removeFastRowLocked key ?t1)")
proof -
  let ?t = "removeFastRowLocked key ?t1"
  obtain iy where iy: "unindexRow key row t = t\<lparr>Indexes := iy\<rparr>" using unindexRow_upd by blast
  then have t1: "?t1 = t\<lparr>Rows := mdel (Rows t) key, Indexes := iy, dead := d\<rparr>" by simp
  have ne: "key \<noteq> []" using mid row by (auto simp: wf_mid_def)
  have "fast_ok ?t" using removeFast_ok[OF _ ne t1] mid by (simp add: wf_mid_def)
  moreover have "wf_index ((unindexRow key row t)\<lparr>Rows := mdel (Rows t) key\<rparr>)"
    using wf_index_remove[OF _ row] mid by (simp add: wf_mid_def)
  then have "wf_index ?t" using wf_index_cong[of ?t "(unindexRow key row t)\<lparr>Rows := mdel (Rows t) key\<rparr>"] by simp
  moreover have "wf_names ?t" using mid wf_names_cong[of ?t t] by (simp add: wf_mid_def)
  moreover have "keys_ok ?t" using mid by (auto simp: wf_mid_def keys_ok_def primaryColumn_def gomap_simps split: if_splits)
  ultimately show ?thesis using mid by (simp add: wf_mid_def gomap_simps)
qed

lemma rebuild_mid: "wf_mid t \<Longrightarrow> wf_mid (rebuildFastPathLocked t)"
proof -
  assume mid: "wf_mid t"
  let ?t = "rebuildFastPathLocked t"
  let ?u = "t\<lparr>dead := length (filter (\<lambda>k. \<not> mhas (Rows t) k) (Order t))\<rparr>"
  have e: "rebuildFastPathLocked ?u = ?t\<lparr>dead := dead ?u\<rparr>"
  proof -
    have "rebuildLoop (t\<lparr>dead := x\<rparr>) ks a p = rebuildLoop t ks a p" for x ks a p
      by (induction ks arbitrary: a p) (auto split: option.splits)
    then show ?thesis by (simp add: rebuildFastPathLocked_def noFast_def Let_def split: prod.splits)
  qed
  have "wf_rows ?u" using mid by (simp add: wf_mid_def wf_rows_def)
  then have "fast_ok (rebuildFastPathLocked ?u)" using mid by (intro rebuild_ok) (auto simp: wf_mid_def)
  then have "fast_ok ?t" unfolding e
    by (simp add: fast_ok_def fastView_def slowView_def live_def rowAt_def pos_ok_def colpos_ok_def)
  with mid wf_index_cong[of ?t t] wf_names_cong[of ?t t] keys_ok_cong[of ?t t] show ?thesis
    by (simp add: wf_mid_def)
qed

lemma rebuildIfSparse_frame [simp]:
  "Columns (rebuildIfSparse t) = Columns t" "Rows (rebuildIfSparse t) = Rows t" "Order (rebuildIfSparse t) = Order t"
  "dead (rebuildIfSparse t) = dead t"
  by (simp_all add: rebuildIfSparse_def)

lemma rebuild_wf: "wf_table t \<Longrightarrow> wf_table (rebuildFastPathLocked t)"
  by (rule wf_table_rebuild) (simp_all add: wf_table_def)

lemma rebuildIfSparse_wf: "wf_table t \<Longrightarrow> wf_table (rebuildIfSparse t)"
  by (simp add: rebuildIfSparse_def rebuild_wf)

text \<open>Dropping the tombstones of \<open>Order\<close> settles the count and changes nothing that can be seen.\<close>

lemma settle_wf:
  assumes mid: "wf_mid t"
  shows "wf_table (t\<lparr>Order := live t, dead := 0\<rparr>)"
proof -
  let ?t = "t\<lparr>Order := live t, dead := 0\<rparr>"
  have "slowView ?t = slowView t" by (rule slowView_compact) (simp_all add: live_def)
  then have "fast_ok ?t" using mid by (simp add: wf_mid_def fast_ok_def fastView_def pos_ok_def colpos_ok_def)
  moreover have "wf_rows ?t" using mid by (auto simp: wf_mid_def wf_rows_def live_def filter_empty_conv)
  moreover have "wf_index ?t" "wf_names ?t" "keys_ok ?t" using mid
    by (simp_all add: wf_mid_def wf_index_def idx_shape_def bucketOf_def wf_names_def keys_ok_def primaryColumn_def)
  ultimately show ?thesis using mid by (simp add: wf_table_def wf_mid_def)
qed

lemma compactOrder_frame [simp]:
  "Columns (compactOrderLocked t) = Columns t" "Rows (compactOrderLocked t) = Rows t"
  by (simp_all add: compactOrderLocked_def Let_def)

lemma compactOrder_wf: "wf_table t \<Longrightarrow> wf_table (compactOrderLocked t)"
proof -
  assume wf: "wf_table t"
  have "t\<lparr>dead := 0\<rparr> = t" if "Order t = []"
  proof -
    have "dead t = 0" using wf that by (simp add: wf_table_def wf_rows_def)
    then show ?thesis by (cases t) simp
  qed
  moreover have "wf_table (t\<lparr>Order := filter (\<lambda>k. mhas (Rows t) k) (Order t), dead := 0\<rparr>)"
    using settle_wf[of t] wf by (simp add: wf_table_mid live_def)
  ultimately show ?thesis using wf by (simp add: compactOrderLocked_def Let_def rebuild_wf)
qed

lemma compactOrder_live: "live (compactOrderLocked t) = live t"
  by (simp add: compactOrderLocked_def Let_def live_def)

lemma compactOrder_big: "fast_big t \<Longrightarrow> fast_big (compactOrderLocked t)"
  by (auto simp: compactOrderLocked_def Let_def rebuild_big) (auto simp: fast_big_def)

lemma rebuildIfSparse_big: "fast_big t \<Longrightarrow> fast_big (rebuildIfSparse t)"
  by (auto simp: rebuildIfSparse_def rebuild_big)

lemma deleteKey_wf:
  assumes wf: "wf_table t" and row: "mget (Rows t) key = Some row"
  shows "wf_table (deleteKey key t)"
proof -
  let ?t1 = "(unindexRow key row t)\<lparr>Rows := mdel (Rows t) key, dead := dead t + 1\<rparr>"
  let ?t2 = "removeFastRowLocked key ?t1"
  have "wf_mid ?t2" using removeRow_mid[OF _ row] wf by (simp add: wf_table_mid)
  moreover have "wf_rows ?t2"
    using wf row by - (rule wf_rows_delete[of t key], simp_all add: wf_table_def)
  ultimately have "wf_table ?t2" by (simp add: wf_table_def wf_mid_def)
  then have "wf_table (rebuildIfSparse (compactOrderLocked ?t2))" by (intro rebuildIfSparse_wf compactOrder_wf)
  with row show ?thesis by (simp add: deleteKey_def Let_def rowAt_def)
qed

lemma deleteKey_big: "fast_big t \<Longrightarrow> fast_big (deleteKey key t)"
  unfolding deleteKey_def Let_def
  by (intro rebuildIfSparse_big compactOrder_big removeFast_big) (simp add: fast_big_def)

lemma deleteKey_effect:
  "Rows (deleteKey key t) = mdel (Rows t) key" "Columns (deleteKey key t) = Columns t"
  "live (deleteKey key t) = filter (\<lambda>k. k \<noteq> key) (live t)"
proof -
  show r: "Rows (deleteKey key t) = mdel (Rows t) key" "Columns (deleteKey key t) = Columns t"
    by (simp_all add: deleteKey_def Let_def)
  have "live (rebuildIfSparse (compactOrderLocked t2)) = live t2" for t2
    using compactOrder_live[of t2] by (simp add: live_def)
  then have "live (deleteKey key t) =
      live (removeFastRowLocked key ((unindexRow key (rowAt t key) t)\<lparr>Rows := mdel (Rows t) key, dead := dead t + 1\<rparr>))"
    by (simp add: deleteKey_def Let_def)
  then show "live (deleteKey key t) = filter (\<lambda>k. k \<noteq> key) (live t)"
    by (auto simp: live_def gomap_simps intro: filter_cong)
qed

lemma dropRow_frame [simp]:
  "Columns (dropRow k t) = Columns t" "Rows (dropRow k t) = mdel (Rows t) k" "Order (dropRow k t) = Order t"
  by (simp_all add: dropRow_def Let_def)

lemma dropRow_mid: "wf_mid t \<Longrightarrow> mget (Rows t) k = Some row \<Longrightarrow> wf_mid (dropRow k t)"
proof -
  assume a: "wf_mid t" "mget (Rows t) k = Some row"
  have "(unindexRow k row t)\<lparr>Rows := mdel (Rows t) k, dead := dead t\<rparr> = (unindexRow k row t)\<lparr>Rows := mdel (Rows t) k\<rparr>"
    using unindexRow_upd[of k row t] by auto
  with removeRow_mid[OF a, of "dead t"] a(2) show ?thesis by (simp add: dropRow_def Let_def rowAt_def)
qed

text \<open>What the scan leaves: the keys it kept, in their order.\<close>

lemma deleteScan_background:
  assumes "wf_mid t" "remaining = filter (\<lambda>k. mhas (Rows t) k) pre" "Order t = pre @ ks"
  shows "\<exists>t'. deleteScan (\<lambda>_. None) i m ks remaining n t =
        (Inr (affected (n + length (filter (\<lambda>k. rowMatches m (rowAt t k)) (filter (\<lambda>k. mhas (Rows t) k) ks)))),
         rebuildIfSparse (t'\<lparr>Order := live t', dead := 0\<rparr>)) \<and> wf_mid t' \<and> Columns t' = Columns t \<and> Order t' = Order t \<and>
      (\<forall>k. mget (Rows t') k = (if k \<in> set ks \<and> rowMatches m (rowAt t k) then None else mget (Rows t) k))"
  using assms
proof (induction ks arbitrary: i remaining n t pre)
  case Nil
  then show ?case by (intro exI[of _ t]) (simp add: live_def)
next
  case (Cons k ks)
  have d: "distinct (pre @ k # ks)" using Cons.prems(1,3) by (simp add: wf_mid_def)
  consider (dead) "mget (Rows t) k = None" | (drop) row where "mget (Rows t) k = Some row" "rowMatches m row"
    | (keep) row where "mget (Rows t) k = Some row" "\<not> rowMatches m row" by (cases "mget (Rows t) k") auto
  then show ?case
  proof cases
    case dead
    have "remaining = filter (\<lambda>k. mhas (Rows t) k) (pre @ [k])" using Cons.prems(2) dead by simp
    from Cons.IH[OF Cons.prems(1) this, of "Suc i" n] Cons.prems(3) dead show ?thesis by auto
  next
    case drop
    let ?t = "dropRow k t"
    have "wf_mid ?t" using dropRow_mid[OF Cons.prems(1) drop(1)] .
    moreover have "remaining = filter (\<lambda>j. mhas (Rows ?t) j) (pre @ [k])"
      using Cons.prems(2) d by (auto simp: gomap_simps intro!: filter_cong)
    moreover have "Order ?t = (pre @ [k]) @ ks" using Cons.prems(3) by simp
    ultimately obtain t' where t': "deleteScan (\<lambda>_. None) (Suc i) m ks remaining (Suc n) ?t =
        (Inr (affected (Suc n + length (filter (\<lambda>k. rowMatches m (rowAt ?t k)) (filter (\<lambda>k. mhas (Rows ?t) k) ks)))),
         rebuildIfSparse (t'\<lparr>Order := live t', dead := 0\<rparr>))" "wf_mid t'" "Columns t' = Columns ?t" "Order t' = Order ?t"
      "\<forall>j. mget (Rows t') j = (if j \<in> set ks \<and> rowMatches m (rowAt ?t j) then None else mget (Rows ?t) j)"
      using Cons.IH[of ?t remaining "pre @ [k]" "Suc i" "Suc n"] by metis
    have same: "j \<noteq> k \<Longrightarrow> rowAt ?t j = rowAt t j \<and> mget (Rows ?t) j = mget (Rows t) j" for j
      by (simp add: rowAt_def gomap_simps)
    have "filter (\<lambda>k. rowMatches m (rowAt ?t k)) (filter (\<lambda>k. mhas (Rows ?t) k) ks) =
        filter (\<lambda>k. rowMatches m (rowAt t k)) (filter (\<lambda>k. mhas (Rows t) k) ks)"
    proof (unfold filter_filter, rule filter_cong)
      fix x assume "x \<in> set ks"
      then have "x \<noteq> k" using d by auto
      with same[of x] show "(mhas (Rows ?t) x \<and> rowMatches m (rowAt ?t x)) = (mhas (Rows t) x \<and> rowMatches m (rowAt t x))"
        by simp
    qed simp
    moreover have "rowAt t k = row" using drop by (simp add: rowAt_def)
    moreover have "mget (Rows t') j = (if j \<in> set (k # ks) \<and> rowMatches m (rowAt t j) then None else mget (Rows t) j)" for j
      using t'(5) same[of j] drop \<open>rowAt t k = row\<close> d by (cases "j = k") (auto simp: gomap_simps)
    ultimately show ?thesis using t' drop by (intro exI[of _ t']) simp
  next
    case keep
    have r: "rowAt t k = row" using keep by (simp add: rowAt_def)
    have "remaining @ [k] = filter (\<lambda>k. mhas (Rows t) k) (pre @ [k])" using Cons.prems(2) keep by simp
    from Cons.IH[OF Cons.prems(1) this, of "Suc i" n] Cons.prems(3) keep r show ?thesis by auto
  qed
qed
section \<open>What UPDATE and DELETE do\<close>

lemma updateScan_background:
  assumes "distinct keys" "\<forall>k \<in> set keys. mhas (Rows t) k"
  shows "fst (updateScan (\<lambda>_. None) i m col v keys n t) =
      Inr (affected (n + length (filter (\<lambda>k. rowMatches m (rowAt t k)) keys)))"
    and "mget (Rows (snd (updateScan (\<lambda>_. None) i m col v keys n t))) k =
      (if k \<in> set keys \<and> rowMatches m (rowAt t k) then Some (mset_at (rowAt t k) col v) else mget (Rows t) k)"
    and "Order (snd (updateScan (\<lambda>_. None) i m col v keys n t)) = Order t"
    and "Columns (snd (updateScan (\<lambda>_. None) i m col v keys n t)) = Columns t"
proof -
  have "fst (updateScan (\<lambda>_. None) i m col v keys n t) =
      Inr (affected (n + length (filter (\<lambda>k. rowMatches m (rowAt t k)) keys))) \<and>
    (\<forall>k. mget (Rows (snd (updateScan (\<lambda>_. None) i m col v keys n t))) k =
      (if k \<in> set keys \<and> rowMatches m (rowAt t k) then Some (mset_at (rowAt t k) col v) else mget (Rows t) k)) \<and>
    Order (snd (updateScan (\<lambda>_. None) i m col v keys n t)) = Order t \<and>
    Columns (snd (updateScan (\<lambda>_. None) i m col v keys n t)) = Columns t"
    using assms
  proof (induction keys arbitrary: i n t)
    case (Cons key keys)
    let ?t = "setCell key col v t"
    have same: "k \<noteq> key \<Longrightarrow> rowAt ?t k = rowAt t k" for k by (simp add: rowAt_def gomap_simps)
    have has: "\<forall>k \<in> set keys. mhas (Rows ?t) k" using Cons.prems(2) by (auto simp: gomap_simps)
    have f: "filter (\<lambda>k. rowMatches m (rowAt ?t k)) keys = filter (\<lambda>k. rowMatches m (rowAt t k)) keys"
      using Cons.prems(1) same by (intro filter_cong refl) (metis distinct.simps(2))
    show ?case
    proof (cases "rowMatches m (rowAt t key)")
      case True
      have g: "mget (Rows (snd (updateScan (\<lambda>_. None) (Suc i) m col v keys (Suc n) ?t))) k =
        (if k \<in> set (key # keys) \<and> rowMatches m (rowAt t k) then Some (mset_at (rowAt t k) col v) else mget (Rows t) k)" for k
        using Cons.IH[of ?t "Suc i" "Suc n"] Cons.prems(1) has True same[of k]
        by (cases "k = key") (auto simp: gomap_simps)
      show ?thesis using True Cons.IH[of ?t "Suc i" "Suc n"] Cons.prems(1) has f g by simp
    next
      case False
      then show ?thesis using Cons.IH[of t "Suc i" n] Cons.prems by auto
    qed
  qed simp
  then show "fst (updateScan (\<lambda>_. None) i m col v keys n t) =
      Inr (affected (n + length (filter (\<lambda>k. rowMatches m (rowAt t k)) keys)))"
    and "mget (Rows (snd (updateScan (\<lambda>_. None) i m col v keys n t))) k =
      (if k \<in> set keys \<and> rowMatches m (rowAt t k) then Some (mset_at (rowAt t k) col v) else mget (Rows t) k)"
    and "Order (snd (updateScan (\<lambda>_. None) i m col v keys n t)) = Order t"
    and "Columns (snd (updateScan (\<lambda>_. None) i m col v keys n t)) = Columns t" by blast+
qed

text \<open>
  The row key stands for the primary value: on a column whose values are not NULL, the lookup by
  key and the comparison of the scan pick the same row.
\<close>

definition noNullKey :: "table \<Rightarrow> bool" where
  "noNullKey t \<longleftrightarrow> (\<forall>k row. mget (Rows t) k = Some row \<longrightarrow> rget row (primaryColumn t) \<noteq> VNil)"

lemma matchWhereValue_key: "v \<noteq> VNil \<Longrightarrow> matchWhereValue v wv \<longleftrightarrow> valueKey v = wv"
  by (cases v) (auto simp: matchWhereValue_def)

lemma pk_lookup:
  assumes "wf_table t" "hasPrimaryColumn (Columns t)" "noNullKey t" "primaryColumn t \<noteq> []" "k \<in> set (live t)"
  shows "rowMatches (primaryColumn t, wv, opEq, e) (rowAt t k) \<longleftrightarrow> k = wv"
proof -
  obtain row where row: "mget (Rows t) k = Some row" using assms(5) by (auto simp: live_def)
  with assms have "k = valueKey (rget row (primaryColumn t))" "rget row (primaryColumn t) \<noteq> VNil"
    by (auto simp: wf_table_def keys_ok_def noNullKey_def)
  with row assms(4) matchWhereValue_key show ?thesis by (auto simp: rowMatches_def matchWhereOp_def rowAt_def)
qed

lemma live_iff: "wf_table t \<Longrightarrow> k \<in> set (live t) \<longleftrightarrow> mhas (Rows t) k"
  by (auto simp: live_def wf_table_def wf_rows_def)

lemma primaryColumn_has: "primaryColumn t \<noteq> [] \<Longrightarrow> hasPrimaryColumn (Columns t)"
  using primaryOf_none by (auto simp: primaryColumn_def)

lemma length_filter_single: "x \<in> set xs \<Longrightarrow> distinct xs \<Longrightarrow> length (filter (\<lambda>k. k = x) xs) = 1"
  by (induction xs) (auto simp: filter_empty_conv)

lemma deleteTable_key:
  assumes wf: "wf_table t" and nn: "noNullKey t" and pk: "primaryColumn t \<noteq> []"
    and d: "deleteTable ctx (primaryColumn t, v, opEq, e) t = (r, t')"
  shows "r = Inr (affected (length (filter (\<lambda>k. rowMatches (primaryColumn t, v, opEq, e) (rowAt t k)) (live t)))) \<and>
    live t' = filter (\<lambda>k. \<not> rowMatches (primaryColumn t, v, opEq, e) (rowAt t k)) (live t) \<and>
    (\<forall>k \<in> set (live t'). mget (Rows t') k = mget (Rows t) k) \<and> wf_table t'"
proof -
  have dl: "distinct (live t)" using wf by (simp add: wf_table_def wf_rows_def live_def)
  have m: "k \<in> set (live t) \<Longrightarrow> rowMatches (primaryColumn t, v, opEq, e) (rowAt t k) \<longleftrightarrow> k = v" for k
    using pk_lookup[OF wf primaryColumn_has[OF pk] nn pk] .
  have f: "filter (\<lambda>k. rowMatches (primaryColumn t, v, opEq, e) (rowAt t k)) (live t) = filter (\<lambda>k. k = v) (live t)"
    "filter (\<lambda>k. \<not> rowMatches (primaryColumn t, v, opEq, e) (rowAt t k)) (live t) = filter (\<lambda>k. k \<noteq> v) (live t)"
    using m by (auto intro: filter_cong)
  show ?thesis
  proof (cases "mget (Rows t) v")
    case None
    then have "v \<notin> set (live t)" by (simp add: live_def)
    then have "filter (\<lambda>k. k = v) (live t) = []" "filter (\<lambda>k. k \<noteq> v) (live t) = live t"
      by (auto simp: filter_empty_conv filter_id_conv)
    with None d wf pk f show ?thesis by (auto simp: deleteTable_def affected_def noResult_def)
  next
    case (Some row)
    then have "v \<in> set (live t)" using live_iff[OF wf] by simp
    then have "length (filter (\<lambda>k. k = v) (live t)) = 1"
      using dl by (rule length_filter_single)
    moreover have "t' = deleteKey v t" "r = Inr (affected 1)" using d Some pk by (auto simp: deleteTable_def)
    ultimately show ?thesis using f deleteKey_effect[of v t] deleteKey_wf[OF wf Some]
      by (auto simp: gomap_simps)
  qed
qed

lemma deleteTable_scan:
  assumes wf: "wf_table t" and pk: "\<not> (c \<noteq> [] \<and> c = primaryColumn t \<and> op = opEq)"
    and d: "deleteTable background (c, v, op, e) t = (r, t')"
  shows "r = Inr (affected (length (filter (\<lambda>k. rowMatches (c, v, op, e) (rowAt t k)) (live t)))) \<and>
    live t' = filter (\<lambda>k. \<not> rowMatches (c, v, op, e) (rowAt t k)) (live t) \<and>
    (\<forall>k \<in> set (live t'). mget (Rows t') k = mget (Rows t) k) \<and> wf_table t'"
proof -
  let ?m = "(c, v, op, e)"
  have "wf_mid t" using wf by (simp add: wf_table_mid)
  from deleteScan_background[OF this, of "[]" "[]" "Order t" 0 ?m 0]
  obtain u where u: "deleteScan (\<lambda>_. None) 0 ?m (Order t) [] 0 t =
      (Inr (affected (length (filter (\<lambda>k. rowMatches ?m (rowAt t k)) (live t)))),
       rebuildIfSparse (u\<lparr>Order := live u, dead := 0\<rparr>))" "wf_mid u" "Order u = Order t"
    "\<forall>k. mget (Rows u) k = (if k \<in> set (Order t) \<and> rowMatches ?m (rowAt t k) then None else mget (Rows t) k)"
    by (auto simp: live_def)
  have d': "r = Inr (affected (length (filter (\<lambda>k. rowMatches ?m (rowAt t k)) (live t))))"
    "t' = rebuildIfSparse (u\<lparr>Order := live u, dead := 0\<rparr>)"
    using d u(1) pk by (auto simp: deleteTable_def)
  have rows: "Rows t' = Rows u" "Order t' = live u" using d'(2) by simp_all
  have "live t' = live u" unfolding live_def[of t'] rows by (simp add: live_def)
  also have "live u = filter (\<lambda>k. \<not> rowMatches ?m (rowAt t k)) (live t)"
    using u(3,4) by (auto simp: live_def intro: filter_cong)
  finally have l: "live t' = filter (\<lambda>k. \<not> rowMatches ?m (rowAt t k)) (live t)" .
  moreover have "\<forall>k \<in> set (live t'). mget (Rows t') k = mget (Rows t) k" using l u(4) rows by simp
  moreover have "wf_table t'" unfolding d'(2) by (intro rebuildIfSparse_wf settle_wf u(2))
  ultimately show ?thesis using d'(1) by blast
qed

lemma deleteTable_exact:
  assumes "wf_table t" "noNullKey t" "deleteTable background (c, v, op, e) t = (r, t')"
  shows "r = Inr (affected (length (filter (\<lambda>k. rowMatches (c, v, op, e) (rowAt t k)) (live t)))) \<and>
    live t' = filter (\<lambda>k. \<not> rowMatches (c, v, op, e) (rowAt t k)) (live t) \<and>
    (\<forall>k \<in> set (live t'). mget (Rows t') k = mget (Rows t) k) \<and> wf_table t'"
proof (cases "c \<noteq> [] \<and> c = primaryColumn t \<and> op = opEq")
  case True
  then have "primaryColumn t \<noteq> []" "c = primaryColumn t" "op = opEq" by auto
  with deleteTable_key[OF assms(1,2) this(1)] assms(3) show ?thesis by blast
next
  case False
  show ?thesis by (rule deleteTable_scan[OF assms(1) False assms(3)])
qed

text \<open>\<open>Rows\<close> and the live part of \<open>Order\<close> hold the same keys.\<close>

lemma length_filter_live:
  assumes "wf_table t"
  shows "length (filter P (mkeys (Rows t))) = length (filter P (live t))"
proof (rule distinct_set_length_eq)
  show "distinct (filter P (mkeys (Rows t)))" "distinct (filter P (live t))"
    using assms by (auto simp: wf_table_def wf_rows_def live_def)
  show "set (filter P (mkeys (Rows t))) = set (filter P (live t))"
    using live_iff[OF assms] mhas_iff[of "Rows t"] by auto
qed

definition afterUpdate :: "mutation \<Rightarrow> string \<Rightarrow> goval \<Rightarrow> table \<Rightarrow> table \<Rightarrow> bool" where
  "afterUpdate m col v t t' \<longleftrightarrow>
     live t' = live t \<and>
     (\<forall>k \<in> set (live t). mget (Rows t') k =
        Some (if rowMatches m (rowAt t k) then mset_at (rowAt t k) col v else rowAt t k))"

lemma live_cong: "Order t' = Order t \<Longrightarrow> (\<And>k. mget (Rows t') k = None \<longleftrightarrow> mget (Rows t) k = None) \<Longrightarrow> live t' = live t"
  by (simp add: live_def)

lemma rowAt_Some: "mhas (Rows t) k \<Longrightarrow> mget (Rows t) k = Some (rowAt t k)"
  by (auto simp: rowAt_def)

lemma updateTable_exact:
  assumes wf: "wf_table t" and nn: "noNullKey t"
    and col: "col \<in> cName ` set (Columns t)" "col \<noteq> primaryColumn t" "hasPrimaryColumn (Columns t) \<longrightarrow> primaryColumn t \<noteq> []"
    and u: "updateTable background m col v t = (r, t')"
  shows "r = Inr (affected (length (filter (\<lambda>k. rowMatches m (rowAt t k)) (live t)))) \<and> afterUpdate m col v t t' \<and> wf_table t'"
proof -
  obtain wc wv wop e where m: "m = (wc, wv, wop, e)" by (cases m)
  show ?thesis
  proof (cases "wc \<noteq> [] \<and> wc = primaryColumn t \<and> wop = opEq")
    case True
    then have pk: "primaryColumn t \<noteq> []" and mm: "m = (primaryColumn t, wv, opEq, e)" using m by auto
    have sel: "k \<in> set (live t) \<Longrightarrow> rowMatches m (rowAt t k) \<longleftrightarrow> k = wv" for k
      using pk_lookup[OF wf primaryColumn_has[OF pk] nn pk] mm by simp
    then have f: "filter (\<lambda>k. rowMatches m (rowAt t k)) (live t) = filter (\<lambda>k. k = wv) (live t)"
      by (auto intro: filter_cong)
    show ?thesis
    proof (cases "mget (Rows t) wv")
      case None
      then have "wv \<notin> set (live t)" by (simp add: live_def)
      then have "filter (\<lambda>k. k = wv) (live t) = []" by (auto simp: filter_empty_conv)
      moreover have "r = Inr noResult" "t' = t" using u None pk unfolding mm updateTable_def by auto
      moreover have "afterUpdate m col v t t"
        using sel \<open>wv \<notin> set (live t)\<close> rowAt_Some live_iff[OF wf] by (auto simp: afterUpdate_def)
      ultimately show ?thesis using f wf by (simp add: affected_def noResult_def)
    next
      case (Some row)
      then have in_live: "wv \<in> set (live t)" using live_iff[OF wf] by simp
      then have "length (filter (\<lambda>k. k = wv) (live t)) = 1"
        using wf by (intro length_filter_single) (auto simp: wf_table_def wf_rows_def live_def)
      moreover have r: "r = Inr (affected 1)" "t' = setCell wv col v t" using u Some pk col(2) unfolding mm updateTable_def by auto
      moreover have "wf_table (setCell wv col v t)" using col by (intro setCell_wf[OF wf Some]) auto
      moreover have "live (setCell wv col v t) = live t" using Some by (intro live_cong) (auto simp: gomap_simps)
      then have "afterUpdate m col v t (setCell wv col v t)"
        using sel rowAt_Some live_iff[OF wf] by (auto simp: afterUpdate_def gomap_simps)
      ultimately show ?thesis using f by simp
    qed
  next
    case False
    let ?keys = "mkeys (Rows t)"
    have k: "distinct ?keys" "\<forall>k \<in> set ?keys. mhas (Rows t) k"
      using wf mhas_iff[of "Rows t"] by (auto simp: wf_table_def wf_rows_def simp del: not_None_eq)
    have us: "updateScan (\<lambda>_. None) 0 m col v ?keys 0 t = (r, t')"
      using u False col(2) unfolding m updateTable_def by auto
    note b = updateScan_background[OF k, of 0 m col v 0, unfolded us, simplified]
    have "r = Inr (affected (length (filter (\<lambda>k. rowMatches m (rowAt t k)) (live t))))"
      using b(1) length_filter_live[OF wf] by simp
    moreover have rows: "mget (Rows t') k = (if mhas (Rows t) k \<and> rowMatches m (rowAt t k)
        then Some (mset_at (rowAt t k) col v) else mget (Rows t) k)" for k
      using b(2)[of k] mhas_iff[of "Rows t" k] by (simp del: not_None_eq)
    have "live t' = live t" using rows b(3) by (intro live_cong) auto
    then have "afterUpdate m col v t t'"
      using rows rowAt_Some live_iff[OF wf] by (auto simp: afterUpdate_def)
    moreover have "wf_table t'"
    proof -
      have "\<not> (col = primaryColumn t \<and> primaryColumn t \<noteq> [])" using col(2) by simp
      from updateScan_wf[OF wf col(1) this k(2) col(3), of "\<lambda>_. None" 0 m v 0] us show ?thesis by simp
    qed
    ultimately show ?thesis by blast
  qed
qed
section \<open>Properties\<close>


text \<open>A table with two rows.\<close>

definition twoUsers :: table where
  "twoUsers = users\<lparr>Rows := [(''1'', [(''id'', VInt 1), (''name'', VStr ''a'')]), (''2'', [(''id'', VInt 2), (''name'', VStr ''b'')])],
     Order := [''1'', ''2'']\<rparr>"

lemma twoUsers_wf: "wf_table twoUsers" "fast_big twoUsers" "noNullKey twoUsers" "typed_table twoUsers"
proof -
  have F: "FormatInt 1 = ''1''" "FormatInt 2 = ''2''" by code_simp+
  show "wf_table twoUsers"
    by (auto simp: wf_table_def wf_columns_def wf_rows_def fast_ok_def wf_index_def idx_shape_def wf_names_def
        keys_ok_def primaryColumn_def twoUsers_def users_def newTable_def rget_def F split: if_splits)
  show "fast_big twoUsers" by (simp add: fast_big_def twoUsers_def users_def newTable_def)
  show "noNullKey twoUsers" 
    by (auto simp: noNullKey_def primaryColumn_def twoUsers_def users_def newTable_def rget_def split: if_splits)
  show "typed_table twoUsers"
    by (auto simp: typed_table_def typedRow_def typedVal_def twoUsers_def users_def newTable_def rget_def split: if_splits)
qed




text \<open>
  UPDATE of the primary column moves a row to its new key and keeps the table invariant, when
  the new key is not empty and is not a key of \<open>Order\<close> (neither a row nor a tombstone).
\<close>

theorem rekey_keeps_invariant:
  assumes "wf_table t" "mget (Rows t) old = Some row" "hasPrimaryColumn (Columns t)"
    "valueKey v \<noteq> []" "valueKey v \<noteq> old \<longrightarrow> valueKey v \<notin> set (Order t)"
  shows "wf_table (snd (rekeyPrimaryLocked old v t)) \<and>
    mget (Rows (snd (rekeyPrimaryLocked old v t))) (valueKey v) = Some (mset_at row (primaryColumn t) v)"
proof -
  have "mget (Rows t) (valueKey v) = None" if "valueKey v \<noteq> old"
    using assms(1,5) that by (auto simp: wf_table_def wf_rows_def)
  then have "mget (Rows (snd (rekeyPrimaryLocked old v t))) (valueKey v) = Some (mset_at row (primaryColumn t) v)"
    using assms(2) by (auto simp: rekeyPrimaryLocked_def Let_def rowAt_def gomap_simps)
  with rekey_wf[OF assms(1-4)] assms(5) show ?thesis by blast
qed

theorem rekey_keeps_invariant_witness:
  "wf_table (snd (rekeyPrimaryLocked ''1'' (VInt 3) twoUsers)) \<and>
   mget (Rows (snd (rekeyPrimaryLocked ''1'' (VInt 3) twoUsers))) (valueKey (VInt 3)) =
     Some (mset_at [(''id'', VInt 1), (''name'', VStr ''a'')] (primaryColumn twoUsers) (VInt 3))"
proof -
  have F: "FormatInt 3 = ''3''" by code_simp
  show ?thesis
    by (rule rekey_keeps_invariant[OF twoUsers_wf(1)]) (simp_all add: twoUsers_def users_def newTable_def F)
qed

end
