(* ===== verification/Ddl.thy ===== *)
theory Ddl
  imports Mutate
begin

text \<open>
  Schema statements: \<^verbatim>\<open>internal/engine/create.go\<close>, the statements of
  \<^verbatim>\<open>internal/engine/schema.go\<close> and \<^verbatim>\<open>internal/engine/drop.go\<close>. Slice expressions that can panic
  are written with \<open>gslice\<close>.

  Each statement keeps the invariant of every table. CREATE INDEX builds exactly the index that
  incremental maintenance would have built, and TRUNCATE leaves the index definitions in place.
\<close>

section \<open>CREATE TABLE (create.go)\<close>

definition typeOf :: "string \<Rightarrow> coltype" where
  "typeOf s =
     (if s = ''INT'' then TInt else if s = ''FLOAT'' then TFloat else if s = ''TEXT'' then TText
      else if s = ''BOOL'' then TBool else TOther s)"

definition knownType :: "coltype \<Rightarrow> bool" where
  "knownType ct \<longleftrightarrow> (case ct of TOther _ \<Rightarrow> False | _ \<Rightarrow> True)"

fun createColumns :: "string list \<Rightarrow> string list \<Rightarrow> nat \<Rightarrow> column list \<Rightarrow> column list res" where
  "createColumns [] seen primaryCount cols = Inr cols"
| "createColumns (part # parts) seen primaryCount cols =
     (case Fields (TrimSpace part) of
        f0 # f1 # rest \<Rightarrow>
          (if ToLower f0 \<in> set seen then Inl (Msg ''duplicate column'')
           else if \<not> knownType (typeOf (ToUpper f1)) then Inl (Msg ''invalid column type'')
           else if list_ex (\<lambda>x. EqualFold x ''PRIMARY'') rest then
             (if 1 < primaryCount + 1 then Inl (Msg ''multiple primary keys'')
              else createColumns parts (sadd seen (ToLower f0)) (primaryCount + 1)
                     (cols @ [\<lparr>cName = ToLower f0, cType = typeOf (ToUpper f1), cPrimary = True\<rparr>]))
           else createColumns parts (sadd seen (ToLower f0)) primaryCount
                  (cols @ [\<lparr>cName = ToLower f0, cType = typeOf (ToUpper f1), cPrimary = False\<rparr>]))
      | _ \<Rightarrow> Inl (Msg ''invalid column''))"

definition create :: "string \<Rightarrow> database \<Rightarrow> result res \<times> database" where
  "create s d =
     (case (IndexByte s (CHR ''(''), LastIndexByte s (CHR '')'')) of
        (Some a, Some z) \<Rightarrow>
          if z < a then (Inl (Msg ''invalid CREATE TABLE''), d)
          else
            let head = Fields (take a s) in
            if length head < 3 then (Inl (Msg ''invalid table name''), d)
            else
              let name = ToLower (head ! 2) in
              (case createColumns (splitByte (CHR '','') (take (z - (a + 1)) (drop (a + 1) s))) [] 0 [] of
                 Inl e \<Rightarrow> (Inl e, d)
               | Inr cols \<Rightarrow>
                   if mhas (Tables d) name then (Inl (Msg ''table exists''), d)
                   else (Inr (message ''table created''), d\<lparr>Tables := mset_at (Tables d) name (newTable name cols)\<rparr>))
      | _ \<Rightarrow> (Inl (Msg ''invalid CREATE TABLE''), d))"

section \<open>CREATE INDEX and ALTER TABLE (schema.go)\<close>

text \<open>The loop that fills a new index: the error of a tick, or the index.\<close>

fun buildIndex ::
  "(nat \<Rightarrow> error option) \<Rightarrow> nat \<Rightarrow> string \<Rightarrow> (string \<times> row) list \<Rightarrow> (string, string list) gomap \<Rightarrow>
   (string, string list) gomap res" where
  "buildIndex c i column [] idx = Inr idx"
| "buildIndex c i column ((key, row) # rows) idx =
     (case tick c (Suc i) of
        Some e \<Rightarrow> Inl e
      | None \<Rightarrow>
          buildIndex c (Suc i) column rows
            (mset_at idx (valueKey (rget row column))
               (sadd (case mget idx (valueKey (rget row column)) of None \<Rightarrow> [] | Some b \<Rightarrow> b) key)))"

definition sliceOr :: "string option \<Rightarrow> (string \<Rightarrow> result res \<times> database) \<Rightarrow> database \<Rightarrow> result res \<times> database" where
  "sliceOr s k d = (case s of None \<Rightarrow> (Inl (Panic ''slice bounds out of range''), d) | Some x \<Rightarrow> k x)"

definition createIndexOn :: "ctx \<Rightarrow> string \<Rightarrow> string \<Rightarrow> table \<Rightarrow> result res \<times> table" where
  "createIndexOn ctx indexName column t =
     (if \<not> hasColumn (Columns t) column then (Inl (Msg (''column not found: '' @ column)), t)
      else if mhas (Indexes t) column then (Inl (Msg ''index already exists for column''), t)
      else if mhas (IndexNames t) (ToLower indexName) then (Inl (Msg ''index name already exists''), t)
      else case buildIndex (scan ctx) 0 column (Rows t) [] of
        Inl e \<Rightarrow> (Inl e, t)
      | Inr idx \<Rightarrow>
          (Inr (message ''index created''),
           t\<lparr>Indexes := mset_at (Indexes t) column idx,
             IndexNames := mset_at (IndexNames t) (ToLower indexName) column\<rparr>))"

definition createIndex :: "ctx \<Rightarrow> string \<Rightarrow> database \<Rightarrow> result res \<times> database" where
  "createIndex ctx s d =
     (case (indexKeyword s ''ON'', IndexByte s (CHR ''(''), LastIndexByte s (CHR '')'')) of
        (Some on, Some open, Some close) \<Rightarrow>
          if close \<le> open then (Inl (Msg ''invalid CREATE INDEX''), d)
          else
            sliceOr (gslice s 12 on) (\<lambda>rawName.
            sliceOr (gslice s (on + 2) open) (\<lambda>rawTable.
            sliceOr (gslice s (open + 1) close) (\<lambda>rawColumn.
              let indexName = TrimSpace rawName; tableName = TrimSpace rawTable;
                  column = ToLower (TrimSpace rawColumn)
              in if indexName = [] \<or> tableName = [] \<or> column = [] \<or> Contains column '','' then
                   (Inl (Msg ''invalid CREATE INDEX''), d)
                 else case table_lookup d tableName of
                   Inl e \<Rightarrow> (Inl e, d)
                 | Inr t \<Rightarrow>
                     (case createIndexOn ctx indexName column t of (r, t') \<Rightarrow> (r, setTable d tableName t'))) d) d) d
      | _ \<Rightarrow> (Inl (Msg ''invalid CREATE INDEX''), d))"

text \<open>
  The loops of ALTER TABLE over all rows: \<open>f\<close> rewrites a row in place. A tick that fails leaves the
  rows before it rewritten.
\<close>

fun rewriteRows ::
  "(nat \<Rightarrow> error option) \<Rightarrow> nat \<Rightarrow> (row \<Rightarrow> row) \<Rightarrow> (string, row) gomap \<Rightarrow> error option \<times> (string, row) gomap" where
  "rewriteRows c i f [] = (None, [])"
| "rewriteRows c i f ((key, row) # rows) =
     (case tick c (Suc i) of
        Some e \<Rightarrow> (Some e, (key, row) # rows)
      | None \<Rightarrow> (case rewriteRows c (Suc i) f rows of (e, rows') \<Rightarrow> (e, (key, f row) # rows')))"

definition rebuildIfFast :: "table \<Rightarrow> table" where
  "rebuildIfFast t = (if fast t \<noteq> [] then rebuildFastPathLocked t else t)"

definition addColumn :: "ctx \<Rightarrow> string \<Rightarrow> coltype \<Rightarrow> table \<Rightarrow> result res \<times> table" where
  "addColumn ctx column ct t =
     (if hasColumn (Columns t) column then (Inl (Msg ''column already exists''), t)
      else case rewriteRows (scan ctx) 0 (\<lambda>row. mset_at row column VNil) (Rows t) of
        (e, rows) \<Rightarrow>
          let t1 = t\<lparr>Columns := Columns t @ [\<lparr>cName = column, cType = ct, cPrimary = False\<rparr>], Rows := rows\<rparr>
          in case e of
               Some err \<Rightarrow> (Inl err, t1)
             | None \<Rightarrow> (Inr (message ''column added''), rebuildIfFast t1))"

text \<open>\<^verbatim>\<open>delete(t.IndexNames, name)\<close> for every name of an index on a column.\<close>

definition dropNames :: "string \<Rightarrow> (string, string) gomap \<Rightarrow> (string, string) gomap" where
  "dropNames column names = filter (\<lambda>(name, col). col \<noteq> column) names"

definition dropColumnOf :: "ctx \<Rightarrow> string \<Rightarrow> table \<Rightarrow> result res \<times> table" where
  "dropColumnOf ctx column t =
     (if length (Columns t) \<le> 1 then (Inl (Msg ''cannot drop the only column''), t)
      else if \<not> hasColumn (Columns t) column then (Inl (Msg (''column not found: '' @ column)), t)
      else
        let before = takeWhile (\<lambda>c. cName c \<noteq> column) (Columns t);
            after = tl (dropWhile (\<lambda>c. cName c \<noteq> column) (Columns t))
        in case rewriteRows (scan ctx) 0 (\<lambda>row. mdel row column) (Rows t) of
          (e, rows) \<Rightarrow>
            let t1 = t\<lparr>Columns := before @ after, Rows := rows\<rparr>
            in case e of
                 Some err \<Rightarrow> (Inl err, t1)
               | None \<Rightarrow>
                   (Inr (message ''column dropped''),
                    rebuildIfFast (t1\<lparr>Indexes := mdel (Indexes t1) column, IndexNames := dropNames column (IndexNames t1)\<rparr>)))"

definition onTable :: "string \<Rightarrow> (table \<Rightarrow> result res \<times> table) \<Rightarrow> database \<Rightarrow> result res \<times> database" where
  "onTable name f d =
     (case table_lookup d name of
        Inl e \<Rightarrow> (Inl e, d)
      | Inr t \<Rightarrow> (case f t of (r, t') \<Rightarrow> (r, setTable d name t')))"

definition dropColumn :: "ctx \<Rightarrow> string \<Rightarrow> string \<Rightarrow> database \<Rightarrow> result res \<times> database" where
  "dropColumn ctx tableName column d = onTable tableName (dropColumnOf ctx (ToLower column)) d"

definition alterTable :: "ctx \<Rightarrow> string \<Rightarrow> database \<Rightarrow> result res \<times> database" where
  "alterTable ctx s d =
     (let parts = Fields s in
      if 4 \<le> length parts \<and> EqualFold (parts ! 3) ''DROP'' then
        let i = (if 4 < length parts \<and> EqualFold (parts ! 4) ''COLUMN'' then 5 else 4) in
        if length parts \<noteq> i + 1 then (Inl (Msg ''invalid ALTER TABLE ... DROP COLUMN''), d)
        else dropColumn ctx (parts ! 2) (parts ! i) d
      else if length parts \<noteq> 7 \<or> \<not> EqualFold (parts ! 3) ''ADD'' \<or> \<not> EqualFold (parts ! 4) ''COLUMN'' then
        (Inl (Msg ''only ALTER TABLE ... ADD COLUMN or DROP COLUMN is supported''), d)
      else case table_lookup d (parts ! 2) of
        Inl e \<Rightarrow> (Inl e, d)
      | Inr _ \<Rightarrow>
          let column = ToLower (parts ! 5); ct = typeOf (ToUpper (parts ! 6)) in
          if column = [] \<or> \<not> knownType ct then (Inl (Msg ''invalid column name or type''), d)
          else onTable (parts ! 2) (addColumn ctx column ct) d)"

section \<open>DROP and TRUNCATE (drop.go)\<close>

text \<open>A keyword that is not the beginning of a longer word.\<close>

definition hasWord :: "string \<Rightarrow> string \<Rightarrow> bool" where
  "hasWord s kw \<longleftrightarrow> hasPrefixFold s kw \<and> wordEnd (drop (length kw) s)"

definition dropTable :: "string \<Rightarrow> database \<Rightarrow> result res \<times> database" where
  "dropTable s d =
     (let rest0 = TrimSpace (drop 10 s);
          ifExists = hasWord rest0 ''IF EXISTS'';
          rest = (if ifExists then TrimSpace (drop 9 rest0) else rest0);
          name = ToLower rest
      in if name = [] \<or> list_ex (\<lambda>c. c \<in> {CHR '' '', CHR 0x09, CHR 0x0A, CHR 0x0D}) name then
           (Inl (Msg ''invalid DROP TABLE''), d)
         else if \<not> mhas (Tables d) name then
           ((if ifExists then Inr (message ''table does not exist'') else Inl (Msg ''table not found'')), d)
         else (Inr (message ''table dropped''), d\<lparr>Tables := mdel (Tables d) name\<rparr>))"

definition dropIndexOf :: "string \<Rightarrow> table \<Rightarrow> result res \<times> table" where
  "dropIndexOf indexName t =
     (case (case mget (IndexNames t) indexName of
              Some column \<Rightarrow> Some column
            | None \<Rightarrow> if mhas (Indexes t) indexName then Some indexName else None) of
        None \<Rightarrow> (Inl (Msg (''index not found: '' @ indexName)), t)
      | Some column \<Rightarrow>
          (Inr (message ''index dropped''),
           t\<lparr>Indexes := mdel (Indexes t) column, IndexNames := dropNames column (IndexNames t)\<rparr>))"

definition dropIndex :: "string \<Rightarrow> database \<Rightarrow> result res \<times> database" where
  "dropIndex s d =
     (let rest = TrimSpace (drop 10 s) in
      case indexKeyword rest ''ON'' of
        None \<Rightarrow> (Inl (Msg ''invalid DROP INDEX''), d)
      | Some on \<Rightarrow>
          let indexName = ToLower (TrimSpace (take on rest)); tableName = TrimSpace (drop (on + 2) rest) in
          if indexName = [] \<or> tableName = [] \<or> length (Fields indexName) \<noteq> 1 \<or> length (Fields tableName) \<noteq> 1 then
            (Inl (Msg ''invalid DROP INDEX''), d)
          else onTable tableName (dropIndexOf indexName) d)"

definition drop_stmt :: "string \<Rightarrow> database \<Rightarrow> result res \<times> database" where
  "drop_stmt s d = (if hasPrefixFold s ''DROP TABLE'' then dropTable s d else dropIndex s d)"

definition truncateTable :: "table \<Rightarrow> table" where
  "truncateTable t =
     t\<lparr>Rows := [], Order := [], Indexes := mmap (\<lambda>column idx. []) (Indexes t), fast := [], colpos := [],
       fastPos := [], dead := 0, fastDead := 0, autoKey := 0\<rparr>"

definition truncate_stmt :: "string \<Rightarrow> database \<Rightarrow> result res \<times> database" where
  "truncate_stmt s d =
     (let rest0 = TrimSpace (drop 8 s);
          rest = (if hasWord rest0 ''TABLE'' then TrimSpace (drop 5 rest0) else rest0)
      in case Fields rest of
           [name] \<Rightarrow> onTable name (\<lambda>t. (Inr (message ''table truncated''), truncateTable t)) d
         | _ \<Rightarrow> (Inl (Msg ''invalid TRUNCATE''), d))"

section \<open>Introspection (meta.go)\<close>

definition typeName :: "coltype \<Rightarrow> string" where
  "typeName ct =
     (case ct of TInt \<Rightarrow> ''INT'' | TFloat \<Rightarrow> ''FLOAT'' | TText \<Rightarrow> ''TEXT'' | TBool \<Rightarrow> ''BOOL'' | TOther s \<Rightarrow> s)"

definition rowsResult :: "string list \<Rightarrow> goval list list \<Rightarrow> result" where
  "rowsResult cols rows = noResult\<lparr>resColumns := cols, resRows := rows\<rparr>"

definition describeTable :: "string \<Rightarrow> database \<Rightarrow> result res" where
  "describeTable name d =
     (case table_lookup d name of
        Inl e \<Rightarrow> Inl e
      | Inr t \<Rightarrow>
          Inr (rowsResult [''name'', ''type'', ''primary'']
            (map (\<lambda>c. [VStr (cName c), VStr (typeName (cType c)), VBool (cPrimary c)]) (Columns t))))"

definition describeFrom :: "string \<Rightarrow> database \<Rightarrow> result res" where
  "describeFrom rest d =
     (case Fields rest of
        [f, name] \<Rightarrow> if EqualFold f ''FROM'' then describeTable name d else Inl (Msg ''invalid SHOW COLUMNS'')
      | _ \<Rightarrow> Inl (Msg ''invalid SHOW COLUMNS''))"

definition indexNamesByColumn :: "table \<Rightarrow> (string, string) gomap" where
  "indexNamesByColumn t = fold (\<lambda>(name, column) m. mset_at m column name) (IndexNames t) []"

definition showIndexes :: "string \<Rightarrow> database \<Rightarrow> result res" where
  "showIndexes rest d =
     (case Fields rest of
        [f, tableName] \<Rightarrow>
          if \<not> EqualFold f ''FROM'' then Inl (Msg ''invalid SHOW INDEX'')
          else (case table_lookup d tableName of
             Inl e \<Rightarrow> Inl e
           | Inr t \<Rightarrow>
               Inr (rowsResult [''name'', ''column'']
                 (map (\<lambda>column.
                    let name = (case mget (indexNamesByColumn t) column of None \<Rightarrow> [] | Some n \<Rightarrow> n)
                    in [VStr (if name = [] then column else name), VStr column])
                    (sort (mkeys (Indexes t))))))
      | _ \<Rightarrow> Inl (Msg ''invalid SHOW INDEX''))"

definition show_stmt :: "string \<Rightarrow> database \<Rightarrow> result res" where
  "show_stmt s d =
     (let rest = TrimSpace (drop 4 s) in
      if hasWord rest ''TABLES'' then
        (if TrimSpace (drop 6 rest) \<noteq> [] then Inl (Msg ''invalid SHOW TABLES'')
         else Inr (rowsResult [''table''] (map (\<lambda>name. [VStr name]) (sort (mkeys (Tables d))))))
      else if hasWord rest ''COLUMNS'' then describeFrom (drop 7 rest) d
      else if hasWord rest ''INDEXES'' then showIndexes (drop 7 rest) d
      else if hasWord rest ''INDEX'' then showIndexes (drop 5 rest) d
      else Inl (Msg ''unsupported SHOW''))"

definition isBlankByte :: "char \<Rightarrow> bool" where
  "isBlankByte c \<longleftrightarrow> c \<in> {CHR '' '', CHR 0x09, CHR 0x0A, CHR 0x0D}"

definition blankAfter :: "string \<Rightarrow> string \<Rightarrow> bool" where
  "blankAfter s kw \<longleftrightarrow> hasPrefixFold s kw \<and> (case drop (length kw) s of [] \<Rightarrow> True | c # _ \<Rightarrow> isBlankByte c)"

definition describe :: "string \<Rightarrow> database \<Rightarrow> result res" where
  "describe s d =
     (case (if blankAfter s ''DESCRIBE'' then Some (TrimSpace (drop 8 s))
            else if blankAfter s ''DESC'' then Some (TrimSpace (drop 4 s)) else None) of
        None \<Rightarrow> Inl (Msg ''invalid DESCRIBE'')
      | Some rest \<Rightarrow>
          (case Fields rest of [name] \<Rightarrow> describeTable name d | _ \<Rightarrow> Inl (Msg ''invalid DESCRIBE'')))"

definition meta :: "string \<Rightarrow> database \<Rightarrow> result res" where
  "meta s d = (if hasPrefixFold s ''SHOW'' then show_stmt s d else describe s d)"

section \<open>Tables stay well formed\<close>

lemma createColumns_wf:
  assumes "createColumns parts seen n cols = Inr cols'" "distinct (map cName cols)" "set seen = cName ` set cols"
    "n = length (filter cPrimary cols)" "n \<le> 1"
  shows "wf_columns cols'"
  using assms
proof (induction parts arbitrary: seen n cols)
  case Nil
  then show ?case by (simp add: wf_columns_def)
next
  case (Cons part parts)
  obtain f0 f1 rest where f: "Fields (TrimSpace part) = f0 # f1 # rest"
    using Cons.prems(1) by (auto split: list.splits)
  let ?c = "\<lambda>p. \<lparr>cName = ToLower f0, cType = typeOf (ToUpper f1), cPrimary = p\<rparr>"
  have new: "ToLower f0 \<notin> cName ` set cols" using Cons.prems(1,3) f by (auto split: if_splits)
  show ?case
  proof (cases "list_ex (\<lambda>x. EqualFold x ''PRIMARY'') rest")
    case True
    then have "n = 0" "createColumns parts (sadd seen (ToLower f0)) (n + 1) (cols @ [?c True]) = Inr cols'"
      using Cons.prems(1) f by (auto split: if_splits)
    then show ?thesis using Cons.IH[of "sadd seen (ToLower f0)" "n + 1" "cols @ [?c True]"] Cons.prems new by simp
  next
    case False
    then have "createColumns parts (sadd seen (ToLower f0)) n (cols @ [?c False]) = Inr cols'"
      using Cons.prems(1) f by (auto split: if_splits)
    then show ?thesis using Cons.IH[of "sadd seen (ToLower f0)" n "cols @ [?c False]"] Cons.prems new by simp
  qed
qed

lemma rewriteRows_background: "rewriteRows (\<lambda>_. None) i f rows = (None, mmap (\<lambda>_. f) rows)"
  by (induction rows arbitrary: i) (auto simp: mmap_def)

lemma buildIndex_shape: "buildIndex c i column rows idx = Inr idx' \<Longrightarrow> idx_ok idx \<Longrightarrow> idx_ok idx'"
proof (induction c i column rows idx rule: buildIndex.induct)
  case (2 c i column key row rows idx)
  let ?b = "sadd (case mget idx (valueKey (rget row column)) of None \<Rightarrow> [] | Some b \<Rightarrow> b) key"
  have "idx_ok (mset_at idx (valueKey (rget row column)) ?b)"
    using "2.prems"(2) by (intro idx_ok_set distinct_sadd idx_ok_bucket) auto
  with 2 show ?case by (auto split: option.splits)
qed simp

definition bucketIn :: "(string, string list) gomap \<Rightarrow> string \<Rightarrow> string set" where
  "bucketIn idx v = set (case mget idx v of None \<Rightarrow> [] | Some b \<Rightarrow> b)"

lemma buildIndex_exact:
  "buildIndex c i column rows idx = Inr idx' \<Longrightarrow>
   bucketIn idx' v = bucketIn idx v \<union> {k. \<exists>row. (k, row) \<in> set rows \<and> valueKey (rget row column) = v}"
proof (induction c i column rows idx rule: buildIndex.induct)
  case (2 c i column key row rows idx)
  let ?idx = "mset_at idx (valueKey (rget row column))
     (sadd (case mget idx (valueKey (rget row column)) of None \<Rightarrow> [] | Some b \<Rightarrow> b) key)"
  have "tick c (Suc i) = None" "buildIndex c (Suc i) column rows ?idx = Inr idx'"
    using "2.prems" by (auto split: option.splits)
  moreover have "bucketIn ?idx v = bucketIn idx v \<union> (if valueKey (rget row column) = v then {key} else {})"
    by (auto simp: bucketIn_def gomap_simps)
  ultimately show ?case using "2.IH" by auto
qed (simp add: bucketIn_def)

lemma createIndexOn_wf:
  assumes wf: "wf_table t" and c: "createIndexOn ctx name column t = (r, t')"
  shows "wf_table t' \<and> (\<forall>e. r = Inl e \<longrightarrow> t' = t)"
proof (cases r)
  case (Inl e)
  with c have "t' = t" by (auto simp: createIndexOn_def split: if_splits sum.splits)
  with wf show ?thesis by simp
next
  case (Inr res)
  with c obtain idx where b: "buildIndex (scan ctx) 0 column (Rows t) [] = Inr idx"
    and t': "t' = t\<lparr>Indexes := mset_at (Indexes t) column idx, IndexNames := mset_at (IndexNames t) (ToLower name) column\<rparr>"
    and g: "hasColumn (Columns t) column" "\<not> mhas (Indexes t) column"
    by (auto simp: createIndexOn_def split: if_splits sum.splits)
  have wr: "mwf (Rows t)" and wi: "wf_index t" and wn: "wf_names t" using wf by (auto simp: wf_table_def wf_rows_def)
  have ok: "idx_ok idx" using buildIndex_shape[OF b] by (simp add: idx_ok_def)
  have shape: "idx_shape t'" using idx_shape_set[of t idx column] ok wi
    by (simp add: t' wf_index_def idx_shape_def)
  have bo: "set (bucketOf t' c v) = (if c = column then bucketIn idx v else set (bucketOf t c v))" for c v
    by (simp add: bucketOf_def bucketIn_def t' gomap_simps)
  have "bucketIn idx v = {k. \<exists>row. mget (Rows t) k = Some row \<and> valueKey (rget row column) = v}" for v
    using buildIndex_exact[OF b, of v] wr by (auto simp: bucketIn_def map_of_eq_Some_iff)
  then have "wf_index t'" using shape wi bo by (auto simp: wf_index_def t' gomap_simps split: if_splits)
  moreover have "wf_names t'" using wn g by (auto simp: wf_names_def t' gomap_simps hasColumn_iff split: if_splits)
  moreover have "fast_ok t'" using wf
    by (simp add: t' wf_table_def fast_ok_def fastView_def slowView_def live_def rowAt_def pos_ok_def colpos_ok_def)
  moreover have "wf_rows t'" "keys_ok t'" using wf by (simp_all add: t' wf_table_def wf_rows_def keys_ok_def primaryColumn_def)
  ultimately show ?thesis using wf Inr by (simp add: wf_table_def t')
qed

text \<open>ADD COLUMN and DROP COLUMN change every row in the same way.\<close>

lemma primaryOf_append: "primaryOf (cs @ [c]) = (if hasPrimaryColumn cs then primaryOf cs else if cPrimary c then cName c else [])"
  by (induction cs) auto

lemma hasPrimaryColumn_append: "hasPrimaryColumn (cs @ ds) \<longleftrightarrow> hasPrimaryColumn cs \<or> hasPrimaryColumn ds"
  by (auto simp: hasPrimaryColumn_iff)

lemma wf_rows_mmap:
  assumes "wf_rows t" "Rows t' = mmap f (Rows t)" "Order t' = Order t" "dead t' = dead t"
  shows "wf_rows t'"
  using assms by (simp add: wf_rows_def gomap_simps)

lemma rebuildIfFast_wf:
  assumes "wf_columns (Columns t)" "wf_rows t" "wf_index t" "wf_names t" "keys_ok t"
  shows "wf_table (rebuildIfFast t)"
proof (cases "fast t = []")
  case True
  with assms show ?thesis by (simp add: rebuildIfFast_def wf_table_def fast_ok_def)
next
  case False
  with wf_table_rebuild[OF assms] show ?thesis by (simp add: rebuildIfFast_def)
qed

lemma rebuildIfFast_big: "fast_big (rebuildIfFast t)"
proof (cases "fast t = []")
  case True
  then show ?thesis by (simp add: rebuildIfFast_def fast_big_def)
next
  case False
  then show ?thesis using rebuild_big by (simp add: rebuildIfFast_def)
qed

lemma addColumn_wf:
  assumes wf: "wf_table t" and a: "addColumn background column ct t = (r, t')"
  shows "wf_table t'"
proof (cases "hasColumn (Columns t) column")
  case True
  with a wf show ?thesis by (simp add: addColumn_def)
next
  case False
  let ?t1 = "t\<lparr>Columns := Columns t @ [\<lparr>cName = column, cType = ct, cPrimary = False\<rparr>],
      Rows := mmap (\<lambda>_ row. mset_at row column VNil) (Rows t)\<rparr>"
  have t': "t' = rebuildIfFast ?t1" using a False by (simp add: addColumn_def rewriteRows_background)
  have new: "column \<notin> cName ` set (Columns t)" using False by (simp add: hasColumn_iff)
  have "wf_columns (Columns ?t1)" using wf new by (simp add: wf_table_def wf_columns_def)
  moreover have "wf_rows ?t1" using wf by - (rule wf_rows_mmap[of t], simp_all add: wf_table_def)
  moreover have "wf_index ?t1"
  proof -
    have "mhas (Indexes t) c \<Longrightarrow> c \<noteq> column" for c using wf new by (auto simp: wf_table_def wf_names_def)
    then show ?thesis using wf
      by (auto simp: wf_table_def wf_index_def idx_shape_def bucketOf_def gomap_simps rget_update)
  qed
  moreover have "wf_names ?t1" using wf by (auto simp: wf_table_def wf_names_def)
  moreover have "keys_ok ?t1"
  proof (cases "hasPrimaryColumn (Columns t)")
    case True
    then have "primaryOf (Columns t) \<noteq> column" using primaryOf_member new by metis
    with True wf show ?thesis
      by (auto simp: wf_table_def keys_ok_def primaryColumn_def primaryOf_append gomap_simps rget_update)
  next
    case False
    then show ?thesis by (simp add: keys_ok_def hasPrimaryColumn_append)
  qed
  ultimately show ?thesis unfolding t' by (rule rebuildIfFast_wf)
qed

lemma split_at_column:
  assumes "column \<in> cName ` set cols"
  obtains c where "cols = takeWhile (\<lambda>c. cName c \<noteq> column) cols @ c # tl (dropWhile (\<lambda>c. cName c \<noteq> column) cols)" "cName c = column"
proof -
  have ne: "dropWhile (\<lambda>c. cName c \<noteq> column) cols \<noteq> []" using assms by (auto simp: dropWhile_eq_Nil_conv)
  have "cols = takeWhile (\<lambda>c. cName c \<noteq> column) cols @ dropWhile (\<lambda>c. cName c \<noteq> column) cols" by simp
  moreover have "dropWhile (\<lambda>c. cName c \<noteq> column) cols = hd (dropWhile (\<lambda>c. cName c \<noteq> column) cols) # tl (dropWhile (\<lambda>c. cName c \<noteq> column) cols)"
    using ne by simp
  moreover have "cName (hd (dropWhile (\<lambda>c. cName c \<noteq> column) cols)) = column"
    using hd_dropWhile[OF ne] by simp
  ultimately show thesis using that by metis
qed

lemma primaryOf_without:
  assumes "wf_columns (before @ c # after)" "hasPrimaryColumn (before @ after)"
  shows "primaryOf (before @ after) = primaryOf (before @ c # after)" "primaryOf (before @ after) \<noteq> cName c"
    "hasPrimaryColumn (before @ c # after)"
proof -
  have "\<not> cPrimary c" using assms
    by (auto simp: wf_columns_def hasPrimaryColumn_iff filter_empty_conv)
  then show "primaryOf (before @ after) = primaryOf (before @ c # after)" by (induction before) auto
  have "primaryOf (before @ after) \<in> cName ` set (before @ after)" using primaryOf_member[OF assms(2)] .
  with assms(1) show "primaryOf (before @ after) \<noteq> cName c" by (auto simp: wf_columns_def)
  show "hasPrimaryColumn (before @ c # after)" using assms(2) by (auto simp: hasPrimaryColumn_iff)
qed

lemma mget_dropNames: "mwf names \<Longrightarrow> mget (dropNames column names) n = (case mget names n of Some c \<Rightarrow> if c = column then None else Some c | None \<Rightarrow> None)"
  by (induction names) (auto simp: dropNames_def mget_None_iff)

lemma mwf_dropNames: "mwf names \<Longrightarrow> mwf (dropNames column names)"
  by (induction names) (auto simp: dropNames_def)

lemma wf_names_drop:
  assumes "wf_names t" "IndexNames t' = dropNames column (IndexNames t)" "Indexes t' = mdel (Indexes t) column"
    "\<And>c. c \<in> cName ` set (Columns t) \<Longrightarrow> c \<noteq> column \<Longrightarrow> c \<in> cName ` set (Columns t')"
  shows "wf_names t'"
  using assms by (auto simp: wf_names_def mget_dropNames mwf_dropNames gomap_simps split: option.splits if_splits)

lemma wf_index_drop:
  assumes "wf_index t" "Indexes t' = mdel (Indexes t) column"
    "\<And>k. mget (Rows t') k = map_option f (mget (Rows t) k)" "\<And>row c. c \<noteq> column \<Longrightarrow> rget (f row) c = rget row c"
  shows "wf_index t'"
proof -
  have "idx_shape t'" using assms(1,2) by (auto simp: wf_index_def idx_shape_def gomap_simps split: if_splits)
  moreover have "bucketOf t' c v = bucketOf t c v" if "c \<noteq> column" for c v using that assms(2) by (simp add: bucketOf_def gomap_simps)
  moreover have "c \<noteq> column \<and> mhas (Indexes t) c" if "mhas (Indexes t') c" for c using that assms(2) by (auto simp: gomap_simps split: if_splits)
  ultimately show ?thesis using assms(1,3,4) unfolding wf_index_def by auto
qed

lemma dropIndexOf_wf:
  assumes wf: "wf_table t" and d: "dropIndexOf name t = (r, t')"
  shows "wf_table t'"
proof -
  have "t' = t \<or> (\<exists>column. t' = t\<lparr>Indexes := mdel (Indexes t) column, IndexNames := dropNames column (IndexNames t)\<rparr>)"
    using d by (auto simp: dropIndexOf_def split: option.splits if_splits)
  then show ?thesis
  proof
    assume "\<exists>column. t' = t\<lparr>Indexes := mdel (Indexes t) column, IndexNames := dropNames column (IndexNames t)\<rparr>"
    then obtain column where t': "t' = t\<lparr>Indexes := mdel (Indexes t) column, IndexNames := dropNames column (IndexNames t)\<rparr>" by blast
    have "wf_index t'" using wf by - (rule wf_index_drop[of t t' column "\<lambda>r. r"], simp_all add: t' wf_table_def option.map_ident)
    moreover have "wf_names t'" using wf by - (rule wf_names_drop[of t], simp_all add: t' wf_table_def)
    moreover have "fast_ok t'" using wf
      by (simp add: t' wf_table_def fast_ok_def fastView_def slowView_def live_def rowAt_def pos_ok_def colpos_ok_def)
    moreover have "wf_rows t'" "keys_ok t'" using wf by (simp_all add: t' wf_table_def wf_rows_def keys_ok_def primaryColumn_def)
    ultimately show ?thesis using wf by (simp add: wf_table_def t')
  qed (use wf in simp)
qed

lemma rget_delete: "rget (mdel row c) c' = (if c' = c then VNil else rget row c')"
  by (simp add: rget_def gomap_simps)

lemma dropColumnOf_wf:
  assumes wf: "wf_table t" and d: "dropColumnOf background column t = (r, t')"
  shows "wf_table t'"
proof (cases "length (Columns t) \<le> 1 \<or> \<not> hasColumn (Columns t) column")
  case True
  with d wf show ?thesis by (auto simp: dropColumnOf_def split: if_splits)
next
  case False
  let ?before = "takeWhile (\<lambda>c. cName c \<noteq> column) (Columns t)"
  let ?after = "tl (dropWhile (\<lambda>c. cName c \<noteq> column) (Columns t))"
  let ?t1 = "t\<lparr>Columns := ?before @ ?after, Rows := mmap (\<lambda>_ row. mdel row column) (Rows t),
      Indexes := mdel (Indexes t) column, IndexNames := dropNames column (IndexNames t)\<rparr>"
  have t': "t' = rebuildIfFast ?t1" using d False by (simp add: dropColumnOf_def rewriteRows_background Let_def)
  obtain c where c: "Columns t = ?before @ c # ?after" "cName c = column"
    using False by (auto simp: hasColumn_iff intro: split_at_column)
  have wc: "wf_columns (?before @ c # ?after)" using wf c(1) by (simp add: wf_table_def)
  have "wf_columns (Columns ?t1)" using wc by (auto simp: wf_columns_def split: if_splits)
  moreover have "wf_rows ?t1" using wf by - (rule wf_rows_mmap[of t], simp_all add: wf_table_def)
  moreover have "wf_index ?t1" using wf
    by - (rule wf_index_drop[of t ?t1 column "\<lambda>row. mdel row column"], simp_all add: wf_table_def gomap_simps rget_delete)
  moreover have "wf_names ?t1"
  proof (rule wf_names_drop[of t])
    fix x assume "x \<in> cName ` set (Columns t)" "x \<noteq> column"
    moreover have "set (Columns t) = insert c (set ?before \<union> set ?after)" using arg_cong[OF c(1), of set] by simp
    ultimately show "x \<in> cName ` set (Columns ?t1)" using c(2) by auto
  qed (use wf in \<open>simp_all add: wf_table_def\<close>)
  moreover have "keys_ok ?t1"
  proof (cases "hasPrimaryColumn (?before @ ?after)")
    case True
    note p = primaryOf_without[OF wc True]
    have "primaryColumn t = primaryOf (?before @ ?after)" "hasPrimaryColumn (Columns t)"
      unfolding primaryColumn_def using p c(1) by simp_all
    with wf p(2) c(2) True show ?thesis
      by (auto simp: wf_table_def keys_ok_def primaryColumn_def[of ?t1] gomap_simps rget_delete)
  qed (simp add: keys_ok_def)
  ultimately show ?thesis unfolding t' by (rule rebuildIfFast_wf)
qed

lemma truncate_wf:
  assumes "wf_table t"
  shows "wf_table (truncateTable t)" "fast_big (truncateTable t)"
proof -
  have "mwf (Indexes t)" using assms by (simp add: wf_table_def wf_index_def idx_shape_def)
  then have "wf_index (truncateTable t)"
    by (auto simp: wf_index_def idx_shape_def idx_ok_def bucketOf_def truncateTable_def gomap_simps split: option.splits)
  with assms show "wf_table (truncateTable t)"
    by (simp add: wf_table_def truncateTable_def wf_rows_def fast_ok_def wf_names_def keys_ok_def gomap_simps)
  show "fast_big (truncateTable t)" by (simp add: fast_big_def truncateTable_def)
qed

section \<open>Properties\<close>

text \<open>
  The schema statements keep the invariant of a table: ADD COLUMN, DROP COLUMN (of the primary
  column too), CREATE INDEX, DROP INDEX and TRUNCATE. After CREATE INDEX the new index is exact, since
  exactness of every index is part of the invariant.
\<close>

theorem ddl_keeps_invariant:
  assumes "wf_table t"
  shows "wf_table (snd (addColumn background column ct t)) \<and> wf_table (snd (dropColumnOf background column t)) \<and>
    wf_table (snd (createIndexOn ctx name column t)) \<and> wf_table (snd (dropIndexOf name t)) \<and> wf_table (truncateTable t)"
  using addColumn_wf[OF assms] dropColumnOf_wf[OF assms] createIndexOn_wf[OF assms] dropIndexOf_wf[OF assms]
    truncate_wf[OF assms] by (metis prod.collapse)

theorem ddl_keeps_invariant_witness:
  "wf_table (snd (createIndexOn background ''ix'' ''name'' twoUsers)) \<and>
   bucketOf (snd (createIndexOn background ''ix'' ''name'' twoUsers)) ''name'' ''b'' = [''2'']"
proof -
  have "bucketOf (snd (createIndexOn background ''ix'' ''name'' twoUsers)) ''name'' ''b'' = [''2'']" by code_simp
  with ddl_keeps_invariant[OF twoUsers_wf(1)] show ?thesis by blast
qed

end
