(* ===== verification/Go_Sort.thy ===== *)
theory Go_Sort
  imports Prelude "HOL-Library.Multiset"
begin

text \<open>
  The two pieces of Go's library that ORDER BY rests on: \<^verbatim>\<open>sort.Slice\<close> and \<^verbatim>\<open>container/heap\<close>,
  with the interface they ask of a comparison: a strict weak order of the sort values
  (\<open>weak_order\<close>), which a tie break by position makes a strict total order (\<open>strict_total\<close>).

  \<^verbatim>\<open>sort.Slice\<close> promises a sorted permutation and no stability. Under a strict total order there is one
  sorted permutation only (\<open>sorted_unique\<close>), so every sorting algorithm returns it; the model is
  insertion sort. \<^verbatim>\<open>heap.Push\<close> and \<^verbatim>\<open>heap.Pop\<close> are the sift loops of the library.
\<close>

section \<open>Sorting\<close>

fun insertBefore :: "('a \<Rightarrow> 'a \<Rightarrow> bool) \<Rightarrow> 'a \<Rightarrow> 'a list \<Rightarrow> 'a list" where
  "insertBefore lt x [] = [x]"
| "insertBefore lt x (y # ys) = (if lt y x then y # insertBefore lt x ys else x # y # ys)"

fun sortSlice :: "('a \<Rightarrow> 'a \<Rightarrow> bool) \<Rightarrow> 'a list \<Rightarrow> 'a list" where
  "sortSlice lt [] = []"
| "sortSlice lt (x # xs) = insertBefore lt x (sortSlice lt xs)"

lemma mset_insertBefore [simp]: "mset (insertBefore lt x ys) = add_mset x (mset ys)"
  by (induction ys) auto

lemma mset_sortSlice [simp]: "mset (sortSlice lt xs) = mset xs"
  by (induction xs) auto

lemma set_insertBefore [simp]: "set (insertBefore lt x ys) = insert x (set ys)"
  by (induction ys) auto

lemma set_sortSlice [simp]: "set (sortSlice lt xs) = set xs"
  by (induction xs) auto

lemma length_insertBefore [simp]: "length (insertBefore lt x ys) = Suc (length ys)"
  by (induction ys) auto

lemma length_sortSlice [simp]: "length (sortSlice lt xs) = length xs"
  by (induction xs) auto

section \<open>Heaps (container/heap)\<close>

abbreviation parent :: "nat \<Rightarrow> nat" where
  "parent j \<equiv> (j - 1) div 2"

definition swapAt :: "nat \<Rightarrow> nat \<Rightarrow> 'a list \<Rightarrow> 'a list" where
  "swapAt i j h = h[i := h ! j, j := h ! i]"

function heapUp :: "('a \<Rightarrow> 'a \<Rightarrow> bool) \<Rightarrow> nat \<Rightarrow> 'a list \<Rightarrow> 'a list" where
  "heapUp lt j h =
     (if parent j = j \<or> \<not> lt (h ! j) (h ! parent j) then h else heapUp lt (parent j) (swapAt (parent j) j h))"
  by pat_completeness auto
termination
  by (relation "measure (\<lambda>(lt, j, h). j)") auto

function heapDown :: "('a \<Rightarrow> 'a \<Rightarrow> bool) \<Rightarrow> nat \<Rightarrow> nat \<Rightarrow> 'a list \<Rightarrow> 'a list" where
  "heapDown lt i n h =
     (if n \<le> 2 * i + 1 then h
      else if 2 * i + 2 < n \<and> lt (h ! (2 * i + 2)) (h ! (2 * i + 1)) then
        (if \<not> lt (h ! (2 * i + 2)) (h ! i) then h else heapDown lt (2 * i + 2) n (swapAt i (2 * i + 2) h))
      else
        (if \<not> lt (h ! (2 * i + 1)) (h ! i) then h else heapDown lt (2 * i + 1) n (swapAt i (2 * i + 1) h)))"
  by pat_completeness auto
termination
  by (relation "measure (\<lambda>(lt, i, n, h). n - i)") auto

declare heapUp.simps [simp del] heapDown.simps [simp del]

definition heapPush :: "('a \<Rightarrow> 'a \<Rightarrow> bool) \<Rightarrow> 'a \<Rightarrow> 'a list \<Rightarrow> 'a list" where
  "heapPush lt x h = heapUp lt (length h) (h @ [x])"

text \<open>\<^verbatim>\<open>heap.Pop\<close> on a heap that is not empty: the array left behind.\<close>

definition heapPop :: "('a \<Rightarrow> 'a \<Rightarrow> bool) \<Rightarrow> 'a list \<Rightarrow> 'a list" where
  "heapPop lt h = (let n = length h - 1 in take n (heapDown lt 0 n (swapAt 0 n h)))"

lemma nth_swapAt:
  "i < length h \<Longrightarrow> j < length h \<Longrightarrow> swapAt i j h ! k = (if k = i then h ! j else if k = j then h ! i else h ! k)"
  by (simp add: swapAt_def nth_list_update)

lemma length_swapAt [simp]: "length (swapAt i j h) = length h"
  by (simp add: swapAt_def)

lemma mset_swapAt: "i < length h \<Longrightarrow> j < length h \<Longrightarrow> mset (swapAt i j h) = mset h"
  by (simp add: swapAt_def mset_swap)

lemma length_heapUp [simp]: "length (heapUp lt j h) = length h"
  by (induction lt j h rule: heapUp.induct) (subst heapUp.simps, simp)

lemma mset_heapUp: "j < length h \<Longrightarrow> mset (heapUp lt j h) = mset h"
proof (induction lt j h rule: heapUp.induct)
  case (1 lt j h)
  then show ?case by (subst heapUp.simps) (simp add: mset_swapAt)
qed

lemma length_heapDown [simp]: "length (heapDown lt i n h) = length h"
  by (induction lt i n h rule: heapDown.induct) (subst heapDown.simps, simp)

lemma mset_heapDown: "n \<le> length h \<Longrightarrow> mset (heapDown lt i n h) = mset h"
proof (induction lt i n h rule: heapDown.induct)
  case (1 lt i n h)
  then show ?case by (subst heapDown.simps) (simp add: mset_swapAt)
qed

lemma heapDown_above: "n \<le> length h \<Longrightarrow> n \<le> k \<Longrightarrow> heapDown lt i n h ! k = h ! k"
proof (induction lt i n h rule: heapDown.induct)
  case (1 lt i n h)
  then show ?case by (subst heapDown.simps) (auto simp: nth_swapAt)
qed

text \<open>
  The heap order on the first \<open>n\<close> entries, the same with a hole above \<open>p\<close> (its subtree may hold
  smaller entries than \<open>p\<close>), and with a hole below: \<open>j\<close> may be smaller than its parent.
\<close>

definition heap_below :: "('a \<Rightarrow> 'a \<Rightarrow> bool) \<Rightarrow> nat \<Rightarrow> 'a list \<Rightarrow> bool" where
  "heap_below lt n h \<longleftrightarrow> (\<forall>k. 0 < k \<and> k < n \<longrightarrow> \<not> lt (h ! k) (h ! parent k))"

definition heap_hole_down :: "('a \<Rightarrow> 'a \<Rightarrow> bool) \<Rightarrow> nat \<Rightarrow> nat \<Rightarrow> 'a list \<Rightarrow> bool" where
  "heap_hole_down lt p n h \<longleftrightarrow>
     (\<forall>k. 0 < k \<and> k < n \<and> parent k \<noteq> p \<longrightarrow> \<not> lt (h ! k) (h ! parent k)) \<and>
     (\<forall>k. 0 < k \<and> k < n \<and> parent k = p \<and> 0 < p \<longrightarrow> \<not> lt (h ! k) (h ! parent p))"

definition heap_hole_up :: "('a \<Rightarrow> 'a \<Rightarrow> bool) \<Rightarrow> nat \<Rightarrow> nat \<Rightarrow> 'a list \<Rightarrow> bool" where
  "heap_hole_up lt j n h \<longleftrightarrow>
     (\<forall>k. 0 < k \<and> k < n \<and> k \<noteq> j \<longrightarrow> \<not> lt (h ! k) (h ! parent k)) \<and>
     (\<forall>k. 0 < k \<and> k < n \<and> parent k = j \<and> 0 < j \<longrightarrow> \<not> lt (h ! k) (h ! parent j))"

lemma parent_less: "0 < k \<Longrightarrow> parent k < k"
  by (cases k) auto

lemma parent_eq_iff: "0 < k \<Longrightarrow> parent k = i \<longleftrightarrow> k = 2 * i + 1 \<or> k = 2 * i + 2"
  by (cases k) auto

lemma parent_child [simp]: "parent (2 * i + 1) = i" "parent (2 * i + 2) = i"
  by auto

section \<open>Strict total orders: the interface of a ranking\<close>

locale strict_total =
  fixes A :: "'a set" and lt :: "'a \<Rightarrow> 'a \<Rightarrow> bool"
  assumes irrefl: "a \<in> A \<Longrightarrow> \<not> lt a a"
    and trans: "a \<in> A \<Longrightarrow> b \<in> A \<Longrightarrow> c \<in> A \<Longrightarrow> lt a b \<Longrightarrow> lt b c \<Longrightarrow> lt a c"
    and total: "a \<in> A \<Longrightarrow> b \<in> A \<Longrightarrow> a \<noteq> b \<Longrightarrow> lt a b \<or> lt b a"
begin

lemma asym: "a \<in> A \<Longrightarrow> b \<in> A \<Longrightarrow> lt a b \<Longrightarrow> \<not> lt b a"
  using irrefl trans by blast

lemma not_lt: "a \<in> A \<Longrightarrow> b \<in> A \<Longrightarrow> \<not> lt a b \<longleftrightarrow> a = b \<or> lt b a"
  using irrefl total asym by blast

lemma not_trans: "a \<in> A \<Longrightarrow> b \<in> A \<Longrightarrow> c \<in> A \<Longrightarrow> \<not> lt a b \<Longrightarrow> \<not> lt b c \<Longrightarrow> \<not> lt a c"
  using not_lt trans by metis

lemma converse: "strict_total A (\<lambda>a b. lt b a)"
  by unfold_locales (use irrefl trans total in blast)+

lemma sorted_insertBefore:
  assumes "sorted_wrt lt ys" "x \<notin> set ys" "insert x (set ys) \<subseteq> A"
  shows "sorted_wrt lt (insertBefore lt x ys)"
  using assms
proof (induction ys)
  case (Cons y ys)
  show ?case
  proof (cases "lt y x")
    case True
    with Cons show ?thesis by auto
  next
    case False
    with Cons.prems have "lt x y" using total by auto
    with Cons.prems False show ?thesis using trans by simp blast
  qed
qed simp

lemma sorted_sortSlice: "distinct xs \<Longrightarrow> set xs \<subseteq> A \<Longrightarrow> sorted_wrt lt (sortSlice lt xs)"
proof (induction xs)
  case (Cons x xs)
  then show ?case using sorted_insertBefore[of "sortSlice lt xs" x] by simp
qed simp

text \<open>There is one sorted permutation: the result does not depend on the algorithm.\<close>

lemma sorted_unique:
  assumes "sorted_wrt lt xs" "sorted_wrt lt ys" "mset xs = mset ys" "set xs \<subseteq> A"
  shows "xs = ys"
  using assms
proof (induction xs arbitrary: ys)
  case (Cons x xs)
  then obtain y ys' where y: "ys = y # ys'" by (cases ys) auto
  have sets: "insert x (set xs) = insert y (set ys')"
    using Cons.prems(3) y by (metis list.set(2) mset_eq_setD)
  have "x = y"
  proof (rule ccontr)
    assume "x \<noteq> y"
    with sets have "x \<in> set ys'" "y \<in> set xs" by auto
    with Cons.prems y sets asym[of x y] show False by auto
  qed
  with Cons y show ?case by auto
qed simp

text \<open>Sifting up from a hole restores the heap order.\<close>

lemma heapUp_heap:
  assumes "j < n" "n \<le> length h" "set h \<subseteq> A" "heap_hole_up lt j n h"
  shows "heap_below lt n (heapUp lt j h)"
  using assms
proof (induction j arbitrary: h rule: less_induct)
  case (less j)
  let ?p = "parent j" and ?h = "swapAt (parent j) j h"
  have inA: "k < n \<Longrightarrow> h ! k \<in> A" for k using less.prems nth_mem[of k h] by auto
  show ?case
  proof (cases "?p = j \<or> \<not> lt (h ! j) (h ! ?p)")
    case True
    have "\<not> lt (h ! k) (h ! parent k)" if "0 < k" "k < n" for k
      using less.prems(4) True that parent_less[of k] unfolding heap_hole_up_def by (cases "k = j") auto
    with True show ?thesis by (subst heapUp.simps) (auto simp: heap_below_def)
  next
    case False
    then have p: "?p < j" by linarith
    have nth: "?h ! k = (if k = ?p then h ! j else if k = j then h ! ?p else h ! k)" for k
      using p less.prems by (intro nth_swapAt) auto
    have hole: "heap_hole_up lt ?p n ?h"
      unfolding heap_hole_up_def
    proof (intro conjI allI impI)
      fix k assume k: "0 < k \<and> k < n \<and> k \<noteq> ?p"
      show "\<not> lt (?h ! k) (?h ! parent k)"
      proof (cases "k = j")
        case True
        with p False inA less.prems show ?thesis unfolding nth using asym by auto
      next
        case k_j: False
        consider "parent k = j" | "parent k = ?p" | "parent k \<noteq> j" "parent k \<noteq> ?p" by blast
        then show ?thesis
        proof cases
          case 1
          with k k_j p less.prems(4) show ?thesis unfolding nth heap_hole_up_def by auto
        next
          case 2
          with k k_j less.prems(4) have "\<not> lt (h ! k) (h ! ?p)" unfolding heap_hole_up_def by metis
          with False have "\<not> lt (h ! k) (h ! j)"
            using k p less.prems(1) inA not_trans[of "h ! k" "h ! ?p" "h ! j"] asym[of "h ! j" "h ! ?p"] by auto
          with 2 k k_j p show ?thesis unfolding nth by auto
        next
          case 3
          with k k_j less.prems(4) show ?thesis unfolding nth heap_hole_up_def by auto
        qed
      qed
    next
      fix k assume k: "0 < k \<and> k < n \<and> parent k = ?p \<and> 0 < ?p"
      then have pp: "parent ?p < ?p" using parent_less[of ?p] by blast
      have "\<not> lt (h ! ?p) (h ! parent ?p)" using less.prems(1,4) k p unfolding heap_hole_up_def by auto
      moreover have "k \<noteq> j \<Longrightarrow> \<not> lt (h ! k) (h ! ?p)" using less.prems(4) k unfolding heap_hole_up_def by metis
      ultimately have "k \<noteq> j \<Longrightarrow> \<not> lt (h ! k) (h ! parent ?p)"
        using k p pp less.prems(1) inA not_trans[of "h ! k" "h ! ?p" "h ! parent ?p"] by auto
      with k p pp \<open>\<not> lt (h ! ?p) (h ! parent ?p)\<close> show "\<not> lt (?h ! k) (?h ! parent ?p)"
        unfolding nth using parent_less[of k] by auto
    qed
    have "set ?h \<subseteq> A" using less.prems p by (metis mset_swapAt mset_eq_setD less_trans order.strict_trans2)
    with less.IH[of ?p ?h] hole p less.prems have "heap_below lt n (heapUp lt ?p ?h)" by simp
    with False show ?thesis by (subst heapUp.simps) simp
  qed
qed

text \<open>Sifting down: one step moves the hole to the child that is swapped up.\<close>

lemma heap_hole_step:
  assumes hole: "heap_hole_down lt i n h" and n: "n \<le> length h" and A: "set h \<subseteq> A"
    and c: "c < n" "parent c = i" "0 < c" and small: "lt (h ! c) (h ! i)"
    and least: "\<And>k. 0 < k \<Longrightarrow> k < n \<Longrightarrow> parent k = i \<Longrightarrow> \<not> lt (h ! k) (h ! c)"
  shows "heap_hole_down lt c n (swapAt i c h)"
proof -
  have i: "i < c" using c parent_less by blast
  have inA: "k < n \<Longrightarrow> h ! k \<in> A" for k using n A nth_mem[of k h] by auto
  have nth: "swapAt i c h ! k = (if k = i then h ! c else if k = c then h ! i else h ! k)" for k
    using i c n by (intro nth_swapAt) auto
  have h1: "\<not> lt (h ! k) (h ! parent k)" if "0 < k" "k < n" "parent k \<noteq> i" for k
    using hole that unfolding heap_hole_down_def by blast
  have h2: "0 < i \<Longrightarrow> \<not> lt (h ! c) (h ! parent i)"
    using hole c unfolding heap_hole_down_def by blast
  show ?thesis
    unfolding heap_hole_down_def
  proof (intro conjI allI impI)
    fix k assume k: "0 < k \<and> k < n \<and> parent k \<noteq> c"
    have pk: "parent k < k" using k parent_less by blast
    consider "k = c" | "k = i" | "k \<noteq> c" "parent k = i" | "k \<noteq> c" "k \<noteq> i" "parent k \<noteq> i" by blast
    then show "\<not> lt (swapAt i c h ! k) (swapAt i c h ! parent k)"
    proof cases
      case 1
      have "\<not> lt (h ! i) (h ! c)" using asym[OF _ _ small] inA[of c] inA[of i] c(1) i by simp
      with i show ?thesis unfolding nth 1 c(2) by simp
    next
      case 2
      with k pk i have "0 < i" "parent i \<noteq> i" "parent i \<noteq> c" by linarith+
      with h2 2 i show ?thesis unfolding nth by simp
    next
      case 3
      with least[of k] k pk show ?thesis unfolding nth by auto
    next
      case 4
      with h1[of k] k show ?thesis unfolding nth by auto
    qed
  next
    fix k assume k: "0 < k \<and> k < n \<and> parent k = c \<and> 0 < c"
    then have pk: "c < k" using parent_less[of k] by auto
    have "parent k \<noteq> i" using k i by auto
    with h1[of k] k i pk show "\<not> lt (swapAt i c h ! k) (swapAt i c h ! parent c)" unfolding nth c by auto
  qed
qed

lemma heapDown_heap:
  assumes "n \<le> length h" "set h \<subseteq> A" "heap_hole_down lt i n h"
  shows "heap_below lt n (heapDown lt i n h)"
  using assms
proof (induction "n - i" arbitrary: i h rule: less_induct)
  case (less i h)
  have inA: "k < n \<Longrightarrow> h ! k \<in> A" for k using less.prems nth_mem[of k h] by auto
  have h1: "\<not> lt (h ! k) (h ! parent k)" if "0 < k" "k < n" "parent k \<noteq> i" for k
    using less.prems(3) that unfolding heap_hole_down_def by blast
  have stop: "heap_below lt n h"
    if "\<And>k. k < n \<Longrightarrow> k = 2 * i + 1 \<or> k = 2 * i + 2 \<Longrightarrow> \<not> lt (h ! k) (h ! i)"
    unfolding heap_below_def using h1 that parent_eq_iff by metis
  have go: "heap_below lt n (heapDown lt c n (swapAt i c h))"
    if c: "c < n" "c = 2 * i + 1 \<or> c = 2 * i + 2" and small: "lt (h ! c) (h ! i)"
      and least: "\<And>k. k < n \<Longrightarrow> k = 2 * i + 1 \<or> k = 2 * i + 2 \<Longrightarrow> \<not> lt (h ! k) (h ! c)" for c
  proof (rule less.hyps)
    show "n - c < n - i" using c by auto
    show "n \<le> length (swapAt i c h)" using less.prems by simp
    have "i < length h" "c < length h" using c less.prems(1) by linarith+
    then have "set (swapAt i c h) = set h" by (metis mset_swapAt mset_eq_setD)
    then show "set (swapAt i c h) \<subseteq> A" using less.prems(2) by simp
    show "heap_hole_down lt c n (swapAt i c h)"
    proof (rule heap_hole_step[OF less.prems(3,1,2) c(1) _ _ small])
      show "parent c = i" "0 < c" using c(2) by auto
      show "\<not> lt (h ! k) (h ! c)" if "0 < k" "k < n" "parent k = i" for k
        using least[of k] that parent_eq_iff[of k i] by blast
    qed
  qed
  let ?l = "2 * i + 1" and ?r = "2 * i + 2"
  consider "n \<le> ?l" | "?r < n" "lt (h ! ?r) (h ! ?l)" | "?l < n" "\<not> (?r < n \<and> lt (h ! ?r) (h ! ?l))" by linarith
  then show ?case
  proof cases
    case 1
    with stop show ?thesis by (subst heapDown.simps) auto
  next
    case 2
    have least: "\<not> lt (h ! k) (h ! ?r)" if "k < n" "k = ?l \<or> k = ?r" for k
      using that(2)
    proof
      assume "k = ?l"
      with 2 inA[of ?l] inA[of ?r] asym[of "h ! ?r" "h ! ?l"] show ?thesis by simp
    next
      assume "k = ?r"
      with 2 inA[of ?r] irrefl show ?thesis by simp
    qed
    have "\<not> lt (h ! ?l) (h ! i)" if "\<not> lt (h ! ?r) (h ! i)"
      using that not_trans[of "h ! ?l" "h ! ?r" "h ! i"] least[of ?l] 2 inA by auto
    with 2 stop go[of ?r] least show ?thesis by (subst heapDown.simps) auto
  next
    case 3
    then have least: "\<not> lt (h ! k) (h ! ?l)" if "k < n" "k = ?l \<or> k = ?r" for k
      using that inA irrefl by auto
    have "\<not> lt (h ! ?r) (h ! i)" if "\<not> lt (h ! ?l) (h ! i)" "?r < n"
      using that not_trans[of "h ! ?r" "h ! ?l" "h ! i"] least[of ?r] 3 inA by auto
    with 3 stop go[of ?l] least show ?thesis by (subst heapDown.simps) auto
  qed
qed

lemma heap_root:
  assumes "heap_below lt (length h) h" "set h \<subseteq> A" "k < length h"
  shows "\<not> lt (h ! k) (h ! 0)"
  using assms(3)
proof (induction k rule: less_induct)
  case (less k)
  show ?case
  proof (cases "k = 0")
    case True
    with irrefl[of "h ! 0"] nth_mem[OF less.prems] assms(2) show ?thesis by auto
  next
    case False
    then have "parent k < k" using parent_less by blast
    with less False assms(1,2) not_trans[of "h ! k" "h ! parent k" "h ! 0"] show ?thesis
      unfolding heap_below_def by (meson gr_zeroI less_trans nth_mem subsetD)
  qed
qed

lemma heapPush_heap:
  assumes "heap_below lt (length h) h" "set h \<subseteq> A" "x \<in> A"
  shows "heap_below lt (length (heapPush lt x h)) (heapPush lt x h)" "mset (heapPush lt x h) = add_mset x (mset h)"
proof -
  have "\<not> lt ((h @ [x]) ! k) ((h @ [x]) ! parent k)" if "0 < k" "k < length h" for k
    using assms(1) that parent_less[of k] unfolding heap_below_def by (simp add: nth_append)
  moreover have "parent k = length h \<Longrightarrow> 0 < k \<Longrightarrow> \<not> k < Suc (length h)" for k
    using parent_less[of k] by linarith
  ultimately have "heap_hole_up lt (length h) (Suc (length h)) (h @ [x])"
    unfolding heap_hole_up_def by (metis less_SucE)
  then show "heap_below lt (length (heapPush lt x h)) (heapPush lt x h)"
    using heapUp_heap[of "length h" "Suc (length h)" "h @ [x]"] assms by (simp add: heapPush_def)
  show "mset (heapPush lt x h) = add_mset x (mset h)" by (simp add: heapPush_def mset_heapUp)
qed

lemma heapPop_heap:
  assumes "heap_below lt (length h) h" "set h \<subseteq> A" "h \<noteq> []"
  shows "heap_below lt (length (heapPop lt h)) (heapPop lt h)" "add_mset (hd h) (mset (heapPop lt h)) = mset h"
proof -
  define n where "n = length h - 1"
  define s where "s = swapAt 0 n h"
  have len: "length h = Suc n" using assms(3) n_def by (cases h) auto
  have nth: "s ! k = (if k = 0 then h ! n else if k = n then h ! 0 else h ! k)" for k
    unfolding s_def by (rule nth_swapAt) (use len in auto)
  have ms: "mset s = mset h" unfolding s_def by (rule mset_swapAt) (use len in auto)
  then have A: "set s \<subseteq> A" and l: "length s = Suc n" using assms(2) len mset_eq_setD mset_eq_length by metis+
  have "heap_hole_down lt 0 n s"
    unfolding heap_hole_down_def
  proof (intro conjI allI impI)
    fix k assume k: "0 < k \<and> k < n \<and> parent k \<noteq> 0"
    then have "parent k < n" using parent_less[of k] by linarith
    then show "\<not> lt (s ! k) (s ! parent k)" using k assms(1) len unfolding nth heap_below_def by auto
  qed simp
  then have hb: "heap_below lt n (heapDown lt 0 n s)" using heapDown_heap[of n s 0] A l by simp
  have eq: "heapPop lt h = take n (heapDown lt 0 n s)" by (simp add: heapPop_def n_def s_def Let_def)
  have lh: "length (heapPop lt h) = n" using l by (simp add: eq)
  have "parent k < n" if "k < n" for k using that by linarith
  with hb show "heap_below lt (length (heapPop lt h)) (heapPop lt h)" unfolding lh by (simp add: eq heap_below_def)
  have "mset (heapDown lt 0 n s) = mset h" using mset_heapDown[of n s lt 0] l ms by simp
  moreover have "heapDown lt 0 n s = heapPop lt h @ [heapDown lt 0 n s ! n]"
    unfolding eq using take_Suc_conv_app_nth[of n "heapDown lt 0 n s"] l by simp
  moreover have "heapDown lt 0 n s ! n = hd h"
    using heapDown_above[of n s n lt 0] l nth[of n] assms(3) by (simp add: hd_conv_nth)
  ultimately show "add_mset (hd h) (mset (heapPop lt h)) = mset h"
    by (metis add_mset_add_single mset_append mset_single_iff mset.simps)
qed

end

section \<open>The K best entries\<close>

text \<open>
  The loop of \<^verbatim>\<open>topKEntries\<close>: a heap of at most \<open>k\<close> entries whose root ranks last. Reading the
  root of an empty heap panics, which happens for \<open>k = 0\<close>.
\<close>

fun topKLoop :: "('a \<Rightarrow> 'a \<Rightarrow> bool) \<Rightarrow> nat \<Rightarrow> 'a list \<Rightarrow> 'a list \<Rightarrow> 'a list res" where
  "topKLoop rank k [] h = Inr h"
| "topKLoop rank k (e # es) h =
     (if length h < k then topKLoop rank k es (heapPush (\<lambda>a b. rank b a) e h)
      else case h of
        [] \<Rightarrow> Inl (Panic ''index out of range'')
      | root # _ \<Rightarrow>
          if rank e root then topKLoop rank k es (heapPush (\<lambda>a b. rank b a) e (heapPop (\<lambda>a b. rank b a) h))
          else topKLoop rank k es h)"

context strict_total
begin

abbreviation worst_first :: "'a list \<Rightarrow> bool" where
  "worst_first h \<equiv> heap_below (\<lambda>a b. lt b a) (length h) h"

lemmas push_worst = strict_total.heapPush_heap[OF converse]
lemmas pop_worst = strict_total.heapPop_heap[OF converse]
lemmas root_worst = strict_total.heap_root[OF converse]

lemma root_ranks_last:
  assumes "worst_first h" "set h \<subseteq> A" "h = r # h'" "distinct h" "x \<in> set h'"
  shows "lt x r"
proof -
  obtain k where k: "k < length h" "h ! k = x" using assms by (metis in_set_conv_nth list.set_intros(2))
  have "\<not> lt r x" using root_worst[OF assms(1,2) k(1)] k(2) assms(3) by simp
  with total[of x r] assms show ?thesis by auto
qed

text \<open>The heap holds the best of the entries read so far; the others, \<open>D\<close>, rank after all of them.\<close>

lemma topKLoop_best:
  assumes "0 < k" "worst_first h" "distinct (h @ D @ es)" "set (h @ D @ es) \<subseteq> A"
    and "length h \<le> k" "length h < k \<Longrightarrow> D = []" "\<And>x y. x \<in> set h \<Longrightarrow> y \<in> set D \<Longrightarrow> lt x y"
  shows "\<exists>R D'. topKLoop lt k es h = Inr R \<and> mset (R @ D') = mset (h @ D @ es) \<and>
    length R = min k (length (h @ D @ es)) \<and> (\<forall>x\<in>set R. \<forall>y\<in>set D'. lt x y)"
  using assms(2-)
proof (induction es arbitrary: h D)
  case Nil
  have "length h = min k (length (h @ D))" using Nil.prems(4,5) by (cases "length h < k") auto
  then show ?case using Nil.prems(6) by (intro exI[of _ h] exI[of _ D]) auto
next
  case (Cons e es)
  have eA: "e \<in> A" "set h \<subseteq> A" using Cons.prems by auto
  show ?case
  proof (cases "length h < k")
    case True
    let ?h = "heapPush (\<lambda>a b. lt b a) e h"
    note p = push_worst[OF Cons.prems(1) eA(2,1)]
    have s: "set ?h = insert e (set h)" and l: "length ?h = Suc (length h)"
      using p(2) by (metis set_mset_add_mset_insert set_mset_mset, metis size_add_mset size_mset)
    have "D = []" using True Cons.prems by simp
    have d: "distinct ?h" using p(2) Cons.prems(2) \<open>D = []\<close>
      by (metis distinct.simps(2) distinct_append mset.simps(2) mset_eq_imp_distinct_iff append_Nil Int_iff disjoint_iff list.set_intros(1))
    have "\<exists>R D'. topKLoop lt k es ?h = Inr R \<and> mset (R @ D') = mset (?h @ [] @ es) \<and>
        length R = min k (length (?h @ [] @ es)) \<and> (\<forall>x\<in>set R. \<forall>y\<in>set D'. lt x y)"
      by (rule Cons.IH[OF p(1)]) (use True Cons.prems d s l \<open>D = []\<close> in auto)
    with True \<open>D = []\<close> l p(2) show ?thesis by simp
  next
    case False
    then have len: "length h = k" using Cons.prems by simp
    with assms(1) obtain r h' where h: "h = r # h'" by (cases h) auto
    show ?thesis
    proof (cases "lt e r")
      case True
      let ?p = "heapPop (\<lambda>a b. lt b a) h"
      let ?h = "heapPush (\<lambda>a b. lt b a) e ?p"
      note q = pop_worst[OF Cons.prems(1) eA(2)]
      have pm: "mset ?p = mset h'" "?p \<noteq> [] \<or> h' = []" using q(2) h by auto
      then have sp: "set ?p = set h'" and lp: "length ?p = length h'" using mset_eq_setD mset_eq_length by blast+
      have "worst_first ?p" using q(1) h by simp
      note p = push_worst[OF this, of e]
      have pA: "set ?p \<subseteq> A" using sp h eA by auto
      have hm: "mset ?h = add_mset e (mset h')" using p(2)[OF pA eA(1)] pm by simp
      then have s: "set ?h = insert e (set h')" and l: "length ?h = length h"
        using h by (metis set_mset_add_mset_insert set_mset_mset, metis size_add_mset size_mset length_Cons)
      have d: "distinct ?h" using hm Cons.prems(2) h by (metis distinct.simps(2) distinct_append mset.simps(2)
          mset_eq_imp_distinct_iff Int_iff Un_iff disjoint_iff list.set_intros set_append)
      have last: "lt x r" if "x \<in> set h'" for x
        using root_ranks_last[OF Cons.prems(1) eA(2) h _ that] Cons.prems(2) by simp
      have best: "lt x y" if "x \<in> set ?h" "y \<in> set (r # D)" for x y
        using that s last True Cons.prems(6)[of r] Cons.prems(6)[of x y] h Cons.prems(3) trans[of e r y] by auto
      have "\<exists>R D'. topKLoop lt k es ?h = Inr R \<and> mset (R @ D') = mset (?h @ (r # D) @ es) \<and>
          length R = min k (length (?h @ (r # D) @ es)) \<and> (\<forall>x\<in>set R. \<forall>y\<in>set D'. lt x y)"
        by (rule Cons.IH[OF p(1)[OF pA eA(1)] _ _ _ _ best]) (use len l d s h Cons.prems in auto)
      with False True h hm l len show ?thesis by simp
    next
      case worse: False
      then have re: "lt r e" using total[of r e] Cons.prems h by auto
      have best: "lt x y" if "x \<in> set h" "y \<in> set (e # D)" for x y
        using that re root_ranks_last[OF Cons.prems(1) eA(2) h, of x] Cons.prems(2,3) h trans[of x r e]
          Cons.prems(6)[of x y] by auto
      have "\<exists>R D'. topKLoop lt k es h = Inr R \<and> mset (R @ D') = mset (h @ (e # D) @ es) \<and>
          length R = min k (length (h @ (e # D) @ es)) \<and> (\<forall>x\<in>set R. \<forall>y\<in>set D'. lt x y)"
        by (rule Cons.IH[OF Cons.prems(1) _ _ _ _ best]) (use len Cons.prems in auto)
      with False worse h show ?thesis by simp
    qed
  qed
qed

text \<open>Selecting the K best and sorting them is the head of the full sort.\<close>

lemma topK_sorted:
  assumes "0 < k" "distinct es" "set es \<subseteq> A"
  shows "\<exists>R. topKLoop lt k es [] = Inr R \<and> sortSlice lt R = take k (sortSlice lt es)"
proof -
  obtain R D where R: "topKLoop lt k es [] = Inr R" "mset (R @ D) = mset es" "length R = min k (length es)"
    "\<forall>x\<in>set R. \<forall>y\<in>set D. lt x y"
    using topKLoop_best[of k "[]" "[]" es] assms by (auto simp: heap_below_def)
  then have d: "distinct (R @ D)" and s: "set (R @ D) \<subseteq> A"
    using assms by (metis mset_eq_imp_distinct_iff, metis mset_eq_setD)
  have "sortSlice lt R @ sortSlice lt D = sortSlice lt es"
  proof (rule sorted_unique)
    show "sorted_wrt lt (sortSlice lt R @ sortSlice lt D)"
      using d s R(4) sorted_sortSlice by (simp add: sorted_wrt_append)
    show "sorted_wrt lt (sortSlice lt es)" using assms sorted_sortSlice by blast
    show "mset (sortSlice lt R @ sortSlice lt D) = mset (sortSlice lt es)" using R(2) by simp
    show "set (sortSlice lt R @ sortSlice lt D) \<subseteq> A" using s by simp
  qed
  then have "take (length R) (sortSlice lt es) = sortSlice lt R" by (metis append_eq_conv_conj length_sortSlice)
  moreover have "take (length R) (sortSlice lt es) = take k (sortSlice lt es)" using R(3) by (simp add: min_def)
  ultimately show ?thesis using R(1) by metis
qed

end

end
