(* ===== verification/Orderby.thy ===== *)
theory Orderby
  imports Go_Sort Mutate "HOL-Library.Product_Lexorder"
begin

text \<open>
  ORDER BY (\<^verbatim>\<open>internal/engine/orderby.go\<close>). A candidate row is an \<open>orderEntry\<close>: its key, its sort
  value, and its position among the candidates, which breaks ties. With a cap smaller than the number of
  candidates only the best are kept in a heap (\<open>Go_Sort\<close>), then sorted.

  The values of one column that are not NaN are weakly ordered by \<^verbatim>\<open>valueLess\<close>, NULL included
  (\<open>comparableAs\<close>, interpretation \<open>sortval\<close>). On such values the result is the head of a stable sort
  by value alone, ascending or descending (\<open>orderKeys_stable\<close>). A cap of zero panics.
\<close>

declare map_of_eq_Some_iff [simp del] Some_eq_map_of_iff [simp del]

section \<open>Entries and their rank\<close>

record orderEntry =
  oKey :: string
  oVal :: goval
  oSeq :: nat

definition rankBefore :: "bool \<Rightarrow> orderEntry \<Rightarrow> orderEntry \<Rightarrow> bool" where
  "rankBefore descending a b =
     (if valueLess (oVal a) (oVal b) then \<not> descending
      else if valueLess (oVal b) (oVal a) then descending
      else oSeq a < oSeq b)"

definition topKEntries :: "orderEntry list \<Rightarrow> nat \<Rightarrow> bool \<Rightarrow> orderEntry list res" where
  "topKEntries entries k descending = topKLoop (rankBefore descending) k entries []"

text \<open>The sort value of a row: from the fast array where it holds the row, else from the row map.\<close>

definition orderValue :: "table \<Rightarrow> string \<Rightarrow> string \<Rightarrow> goval" where
  "orderValue t column key =
     (case (if fast t = [] then None else mget (colpos t) column) of
        None \<Rightarrow> rget (rowAt t key) column
      | Some ci \<Rightarrow>
          (case mget (fastPos t) key of
             None \<Rightarrow> rget (rowAt t key) column
           | Some fi \<Rightarrow>
               if fi < length (fast t) \<and> fkey (fast t ! fi) \<noteq> [] \<and> ci < length (fvalues (fast t ! fi))
               then fvalues (fast t ! fi) ! ci else rget (rowAt t key) column))"

fun orderEntries :: "table \<Rightarrow> string \<Rightarrow> nat \<Rightarrow> string list \<Rightarrow> orderEntry list" where
  "orderEntries t column i [] = []"
| "orderEntries t column i (key # keys) =
     \<lparr>oKey = key, oVal = orderValue t column key, oSeq = i\<rparr> # orderEntries t column (Suc i) keys"

text \<open>A negative cap stands for no cap.\<close>

definition orderKeys :: "table \<Rightarrow> string list \<Rightarrow> string \<Rightarrow> bool \<Rightarrow> int \<Rightarrow> string list res" where
  "orderKeys t keys column descending cap =
     (let entries = orderEntries t column 0 keys in
      case (if 0 \<le> cap \<and> cap < int (length entries) then topKEntries entries (nat cap) descending else Inr entries) of
        Inl e \<Rightarrow> Inl e
      | Inr best \<Rightarrow> Inr (map oKey (sortSlice (rankBefore descending) best)))"

section \<open>Weak orders, and ranks with a tie break\<close>

locale weak_order =
  fixes A :: "'a set" and lt :: "'a \<Rightarrow> 'a \<Rightarrow> bool"
  assumes asymmetric: "a \<in> A \<Longrightarrow> b \<in> A \<Longrightarrow> lt a b \<Longrightarrow> \<not> lt b a"
    and negtrans: "a \<in> A \<Longrightarrow> b \<in> A \<Longrightarrow> c \<in> A \<Longrightarrow> \<not> lt a b \<Longrightarrow> \<not> lt b c \<Longrightarrow> \<not> lt a c"
begin

definition ranks :: "bool \<Rightarrow> ('b \<Rightarrow> 'a) \<Rightarrow> ('b \<Rightarrow> nat) \<Rightarrow> 'b \<Rightarrow> 'b \<Rightarrow> bool" where
  "ranks desc val seq a b =
     (if lt (val a) (val b) then \<not> desc else if lt (val b) (val a) then desc else seq a < seq b)"

text \<open>The weak order, read upwards or downwards, and its ties.\<close>

definition bef_of :: "bool \<Rightarrow> 'a \<Rightarrow> 'a \<Rightarrow> bool" where
  "bef_of desc x y = (if desc then lt y x else lt x y)"

definition tie :: "'a \<Rightarrow> 'a \<Rightarrow> bool" where
  "tie x y \<longleftrightarrow> \<not> lt x y \<and> \<not> lt y x"

lemma bef_tie_laws:
  assumes "x \<in> A" "y \<in> A" "z \<in> A"
  shows "(bef_of desc x y \<longrightarrow> bef_of desc y z \<longrightarrow> bef_of desc x z) \<and> (bef_of desc x y \<longrightarrow> tie y z \<longrightarrow> bef_of desc x z) \<and>
    (tie x y \<longrightarrow> bef_of desc y z \<longrightarrow> bef_of desc x z) \<and> (tie x y \<longrightarrow> tie y z \<longrightarrow> tie x z)"
proof -
  note ns = negtrans[OF assms(1,3,2)] negtrans[OF assms(2,1,3)] negtrans[OF assms(3,1,2)] negtrans[OF assms(2,3,1)]
    negtrans[OF assms] negtrans[OF assms(3,2,1)] asymmetric[OF assms(1,2)] asymmetric[OF assms(2,3)]
  consider "desc = True" | "desc = False" by blast
  then show ?thesis
  proof cases
    case 1
    show ?thesis using ns unfolding 1 bef_of_def tie_def if_True by blast
  next
    case 2
    show ?thesis using ns unfolding 2 bef_of_def tie_def if_False by blast
  qed
qed

text \<open>A weak order of the values with a tie break on distinct numbers is a strict total order.\<close>

lemma ranks_total:
  assumes "\<And>b. b \<in> B \<Longrightarrow> val b \<in> A" "inj_on seq B"
  shows "strict_total B (ranks desc val seq)"
proof
  show "\<not> ranks desc val seq a a" if "a \<in> B" for a
    using asymmetric[of "val a" "val a"] assms(1)[OF that] by (auto simp: ranks_def)
  show "ranks desc val seq a b \<or> ranks desc val seq b a" if "a \<in> B" "b \<in> B" "a \<noteq> b" for a b
  proof -
    have "seq a \<noteq> seq b" using assms(2) that by (auto simp: inj_on_def)
    then show ?thesis using asymmetric[of "val a" "val b"] assms(1) that by (auto simp: ranks_def)
  qed
  show "ranks desc val seq a c" if "a \<in> B" "b \<in> B" "c \<in> B" and r: "ranks desc val seq a b" "ranks desc val seq b c" for a b c
  proof -
    have A: "val a \<in> A" "val b \<in> A" "val c \<in> A" using that assms(1) by auto
    have before: "ranks desc val seq x y \<longleftrightarrow> bef_of desc (val x) (val y) \<or> tie (val x) (val y) \<and> seq x < seq y"
      if "val x \<in> A" "val y \<in> A" for x y
      using asymmetric[OF that] unfolding ranks_def bef_of_def tie_def by auto
    show ?thesis
      using r unfolding before[OF A(1,2)] before[OF A(2,3)] before[OF A(1,3)]
      using bef_tie_laws[OF A] less_trans[of "seq a" "seq b" "seq c"] by blast
  qed
qed

end

section \<open>The values of a column are weakly ordered\<close>

text \<open>
  What a sort column can hold: the values of a column type that are not NaN, NULL among them, or
  (\<open>None\<close>) the \<^verbatim>\<open>int\<close> results of COUNT.
\<close>

definition comparableAs :: "coltype option \<Rightarrow> goval set" where
  "comparableAs c = (case c of Some ct \<Rightarrow> {v. typedVal ct v \<and> v \<noteq> VFloat FNaN} | None \<Rightarrow> range VGoInt)"

lemma valueLess_same:
  "valueLess (VInt i) (VInt j) \<longleftrightarrow> i < j" "valueLess (VStr x) (VStr y) \<longleftrightarrow> x < y"
  "valueLess (VBool a) (VBool b) \<longleftrightarrow> \<not> a \<and> b" "valueLess (VFloat f) (VFloat g) \<longleftrightarrow> fLess f g"
  "valueLess VNil VNil \<longleftrightarrow> False" "valueLess (VGoInt i) (VGoInt j) \<longleftrightarrow> FormatInt i < FormatInt j"
  by (simp_all add: valueLess_def numeric_def)

text \<open>NULL comes after every number, before every boolean, and at \<^verbatim>\<open><nil>\<close> among the texts.\<close>

lemma valueLess_nil:
  "\<not> valueLess VNil (VInt i)" "valueLess (VInt i) VNil"
  "f \<noteq> FNaN \<Longrightarrow> \<not> valueLess VNil (VFloat f)" "f \<noteq> FNaN \<Longrightarrow> valueLess (VFloat f) VNil"
  "valueLess VNil (VBool b)" "\<not> valueLess (VBool b) VNil"
  "valueLess VNil (VStr s) \<longleftrightarrow> ''<nil>'' < s" "valueLess (VStr s) VNil \<longleftrightarrow> s < ''<nil>''"
proof -
  have n: "x < ''<nil>''" "\<not> ''<nil>'' < x" if "\<exists>c cs. x = c # cs \<and> numberByte c" for x
    using that number_below_nil by (auto simp: not_less_iff_gr_or_eq simp del: less_char_def dest: less_not_sym)
  show "\<not> valueLess VNil (VInt i)" "valueLess (VInt i) VNil"
    using n[OF FormatInt_hd[of i]] by (simp_all add: valueLess_def numeric_def)
  show "f \<noteq> FNaN \<Longrightarrow> \<not> valueLess VNil (VFloat f)" "f \<noteq> FNaN \<Longrightarrow> valueLess (VFloat f) VNil"
    using n[OF FormatFloat_hd[of f]] by (simp_all add: valueLess_def numeric_def)
  show "valueLess VNil (VBool b)" "\<not> valueLess (VBool b) VNil"
    by (cases b; simp add: valueLess_def numeric_def less_char_def)+
  show "valueLess VNil (VStr s) \<longleftrightarrow> ''<nil>'' < s" "valueLess (VStr s) VNil \<longleftrightarrow> s < ''<nil>''"
    by (simp_all add: valueLess_def numeric_def)
qed

lemmas valueLess_simps = valueLess_same valueLess_nil

lemma comparable_shapes:
  "comparableAs None = range VGoInt" "comparableAs (Some TInt) \<subseteq> insert VNil (range VInt)"
  "comparableAs (Some TFloat) \<subseteq> insert VNil (VFloat ` (- {FNaN}))" "comparableAs (Some TText) \<subseteq> insert VNil (range VStr)"
  "comparableAs (Some TBool) \<subseteq> insert VNil (range VBool)" "comparableAs (Some (TOther x)) \<subseteq> {VNil}"
proof -
  have "v = VNil \<or> v \<in> range VInt \<or> v \<in> range VFloat \<or> v \<in> range VStr \<or> v \<in> range VBool \<or> v \<in> range VGoInt \<or> v \<in> range VList"
    for v by (cases v) auto
  note v = this
  show "comparableAs None = range VGoInt" "comparableAs (Some TInt) \<subseteq> insert VNil (range VInt)"
    "comparableAs (Some TFloat) \<subseteq> insert VNil (VFloat ` (- {FNaN}))" "comparableAs (Some TText) \<subseteq> insert VNil (range VStr)"
    "comparableAs (Some TBool) \<subseteq> insert VNil (range VBool)" "comparableAs (Some (TOther x)) \<subseteq> {VNil}"
    using v by (fastforce simp: comparableAs_def typedVal_def)+
qed

lemma weak_order_subset:
  assumes "weak_order B lt" "A \<subseteq> B"
  shows "weak_order A lt"
  using assms(2) weak_order.asymmetric[OF assms(1)] weak_order.negtrans[OF assms(1)]
  by unfold_locales (meson subsetD)+

text \<open>A comparison that reads a key of a linear order is a weak order.\<close>

lemma weak_order_key:
  fixes key :: "'a \<Rightarrow> 'k::linorder"
  assumes "\<And>x y. x \<in> A \<Longrightarrow> y \<in> A \<Longrightarrow> lt x y \<longleftrightarrow> key x < key y"
  shows "weak_order A lt"
  using assms by (auto simp: weak_order_def not_less)

fun floatRank :: "goval \<Rightarrow> int \<times> int" where
  "floatRank (VFloat (FInf n)) = (if n then - 1 else 1, 0)"
| "floatRank (VFloat (FFin a m e)) = (0, scaled a m e)"
| "floatRank _ = (2, 0)"

lemma fLess_rank: "f \<noteq> FNaN \<Longrightarrow> g \<noteq> FNaN \<Longrightarrow> fLess f g \<longleftrightarrow> floatRank (VFloat f) < floatRank (VFloat g)"
  by (cases f; cases g) auto

lemma floatRank_below_nil: "f \<noteq> FNaN \<Longrightarrow> floatRank (VFloat f) < floatRank VNil"
  by (cases f) auto

lemma weak_order_float: "weak_order (insert VNil (VFloat ` (- {FNaN}))) valueLess"
proof (rule weak_order_key[where key = floatRank])
  fix x y assume "x \<in> insert VNil (VFloat ` (- {FNaN}))" "y \<in> insert VNil (VFloat ` (- {FNaN}))"
  moreover have "\<not> floatRank VNil < floatRank (VFloat f)" if "f \<noteq> FNaN" for f
    using floatRank_below_nil[OF that] by (rule less_not_sym)
  ultimately show "valueLess x y \<longleftrightarrow> floatRank x < floatRank y"
    using fLess_rank floatRank_below_nil
    by (auto simp: valueLess_same valueLess_nil simp del: floatRank.simps)
qed

lemma valueLess_weak: "weak_order (comparableAs c) valueLess"
proof (cases c)
  case None
  have "weak_order (range VGoInt) valueLess"
    by (rule weak_order_key[where key = Sprint]) (auto simp: valueLess_simps)
  with None show ?thesis by (simp add: comparable_shapes)
next
  case (Some ct)
  have i: "weak_order (insert VNil (range VInt)) valueLess"
    by (rule weak_order_key[where key = "\<lambda>v. case v of VInt i \<Rightarrow> (0, i) | _ \<Rightarrow> (1 :: int, 0)"])
       (auto simp: valueLess_simps)
  have t: "weak_order (insert VNil (range VStr)) valueLess" "weak_order (insert VNil (range VBool)) valueLess"
    by (rule weak_order_key[where key = Sprint]; auto simp: valueLess_simps less_char_def split: if_splits)+
  have n: "weak_order {VNil} valueLess" by (rule weak_order_key[where key = Sprint]) (simp add: valueLess_simps)
  show ?thesis
    using weak_order_subset[OF i comparable_shapes(2)] weak_order_subset[OF weak_order_float comparable_shapes(3)]
      weak_order_subset[OF t(1) comparable_shapes(4)] weak_order_subset[OF t(2) comparable_shapes(5)]
      weak_order_subset[OF n comparable_shapes(6)] Some by (cases ct) simp_all
qed

interpretation sortval: weak_order "comparableAs c" valueLess for c
  by (rule valueLess_weak)

section \<open>The result of ORDER BY\<close>

lemma rankBefore_ranks: "rankBefore desc = sortval.ranks desc oVal oSeq"
  by (intro ext) (simp add: rankBefore_def sortval.ranks_def)

lemma length_orderEntries [simp]: "length (orderEntries t column i keys) = length keys"
  by (induction keys arbitrary: i) auto

lemma orderEntries_seq: "map oSeq (orderEntries t column i keys) = [i..<i + length keys]"
  by (induction keys arbitrary: i) (auto simp: upt_conv_Cons simp del: upt_Suc)

lemma orderEntries_val: "e \<in> set (orderEntries t column i keys) \<Longrightarrow> oKey e \<in> set keys \<and> oVal e = orderValue t column (oKey e)"
  by (induction keys arbitrary: i) auto

text \<open>The entries are ranked by a strict total order, whatever the order of the candidates.\<close>

lemma entries_strict_total:
  assumes "\<And>k. k \<in> set keys \<Longrightarrow> orderValue t column k \<in> comparableAs c"
  shows "strict_total (set (orderEntries t column i keys)) (rankBefore desc)" "distinct (orderEntries t column i keys)"
proof -
  have d: "distinct (map oSeq (orderEntries t column i keys))" by (simp add: orderEntries_seq)
  then show "distinct (orderEntries t column i keys)" by (metis distinct_map)
  show "strict_total (set (orderEntries t column i keys)) (rankBefore desc)"
    unfolding rankBefore_ranks using d assms orderEntries_val
    by (intro sortval.ranks_total[where c = c]) (auto simp: distinct_map)
qed

definition rankable :: "table \<Rightarrow> string \<Rightarrow> nat \<Rightarrow> string list \<Rightarrow> orderEntry set" where
  "rankable t column i keys =
     (if \<exists>c. \<forall>k \<in> set keys. orderValue t column k \<in> comparableAs c then set (orderEntries t column i keys) else {})"

interpretation ranked: strict_total "rankable t column i keys" "rankBefore desc" for t column i keys desc
proof (cases "\<exists>c. \<forall>k \<in> set keys. orderValue t column k \<in> comparableAs c")
  case True
  then show "strict_total (rankable t column i keys) (rankBefore desc)"
    unfolding rankable_def using entries_strict_total(1)[of keys t column] by auto
next
  case False
  then have "rankable t column i keys = {}" unfolding rankable_def by (simp only: if_False)
  then show "strict_total (rankable t column i keys) (rankBefore desc)" by (auto intro: strict_total.intro)
qed

text \<open>Among entries that come later, the tie break never moves an entry: the rank is the value order.\<close>

definition valueBefore :: "bool \<Rightarrow> (string \<Rightarrow> goval) \<Rightarrow> string \<Rightarrow> string \<Rightarrow> bool" where
  "valueBefore desc val a b = (if desc then valueLess (val b) (val a) else valueLess (val a) (val b))"

lemma insertBefore_rank:
  assumes "\<And>e. e \<in> set es \<Longrightarrow> oVal e = val (oKey e) \<and> oSeq x < oSeq e \<and> oVal e \<in> A" "oVal x = val (oKey x)" "oVal x \<in> A"
    and "weak_order A valueLess"
  shows "map oKey (insertBefore (rankBefore desc) x es) = insertBefore (valueBefore desc val) (oKey x) (map oKey es)"
  using assms(1)
proof (induction es)
  case (Cons e es)
  have "rankBefore desc e x = valueBefore desc val (oKey e) (oKey x)"
    using Cons.prems[of e] assms(2,3) weak_order.asymmetric[OF assms(4), of "oVal e" "oVal x"]
    by (auto simp: rankBefore_def valueBefore_def)
  moreover have "map oKey (insertBefore (rankBefore desc) x es) = insertBefore (valueBefore desc val) (oKey x) (map oKey es)"
    using Cons.IH Cons.prems by (meson list.set_intros(2))
  ultimately show ?case by simp
qed simp

lemma sort_entries_stable:
  assumes "\<And>k. k \<in> set keys \<Longrightarrow> orderValue t column k \<in> comparableAs c"
  shows "map oKey (sortSlice (rankBefore desc) (orderEntries t column i keys)) =
    sortSlice (valueBefore desc (orderValue t column)) keys"
  using assms
proof (induction keys arbitrary: i)
  case (Cons key keys)
  have "oSeq e \<in> set [Suc i..<Suc i + length keys]" if "e \<in> set (orderEntries t column (Suc i) keys)" for e
    using that by (metis image_eqI image_set orderEntries_seq)
  then have "map oKey (insertBefore (rankBefore desc) \<lparr>oKey = key, oVal = orderValue t column key, oSeq = i\<rparr>
        (sortSlice (rankBefore desc) (orderEntries t column (Suc i) keys))) =
      insertBefore (valueBefore desc (orderValue t column)) key
        (map oKey (sortSlice (rankBefore desc) (orderEntries t column (Suc i) keys)))"
    using Cons.prems orderEntries_val[of _ t column "Suc i" keys]
    by (subst insertBefore_rank[where val = "orderValue t column" and A = "comparableAs c", OF _ _ _ valueLess_weak]) fastforce+
  with Cons show ?case by simp
qed simp

definition takeCap :: "int \<Rightarrow> 'a list \<Rightarrow> 'a list" where
  "takeCap cap xs = (if 0 \<le> cap \<and> cap < int (length xs) then take (nat cap) xs else xs)"

lemma orderKeys_stable:
  assumes "\<And>k. k \<in> set keys \<Longrightarrow> orderValue t column k \<in> comparableAs c" "cap \<noteq> 0"
  shows "orderKeys t keys column desc cap =
    Inr (takeCap cap (sortSlice (valueBefore desc (orderValue t column)) keys))"
proof (cases "0 \<le> cap \<and> cap < int (length keys)")
  case True
  let ?es = "orderEntries t column 0 keys"
  have "\<exists>c. \<forall>k \<in> set keys. orderValue t column k \<in> comparableAs c" using assms(1) by blast
  then have et: "set ?es \<subseteq> rankable t column 0 keys" "distinct ?es"
    unfolding rankable_def using entries_strict_total(2)[OF assms(1), of keys] by auto
  obtain R where "topKLoop (rankBefore desc) (nat cap) ?es [] = Inr R"
    "sortSlice (rankBefore desc) R = take (nat cap) (sortSlice (rankBefore desc) ?es)"
    using ranked.topK_sorted[OF _ et(2) et(1), of "nat cap"] True assms(2) by auto
  with True sort_entries_stable[OF assms(1), of keys] show ?thesis
    by (simp add: orderKeys_def Let_def topKEntries_def takeCap_def flip: take_map)
next
  case False
  with sort_entries_stable[OF assms(1), of keys] show ?thesis
    by (auto simp: orderKeys_def Let_def takeCap_def)
qed

lemma orderKeys_zero_panics:
  "keys \<noteq> [] \<Longrightarrow> orderKeys t keys column desc 0 = Inl (Panic ''index out of range'')"
  by (cases keys) (simp_all add: orderKeys_def topKEntries_def)

text \<open>On a well-formed table the sort value is the value of the row map, with and without the fast array.\<close>

lemma fast_at_pos:
  assumes "fast_ok t" "fast t \<noteq> []" "mget (fastPos t) key = Some fi"
  shows "fi < length (fast t)" "fkey (fast t ! fi) = key" "key \<noteq> []"
    "fvalues (fast t ! fi) = fastValues (Columns t) (rowAt t key)"
proof -
  have "pos_ok t" using assms by (simp add: fast_ok_def)
  with assms(3) show p: "fi < length (fast t)" "fkey (fast t ! fi) = key" "key \<noteq> []" by (auto simp: pos_ok_def)
  then show "fvalues (fast t ! fi) = fastValues (Columns t) (rowAt t key)"
    using fast_values_of[OF assms(1), of "fast t ! fi"] by simp
qed

lemma colpos_nth:
  assumes "fast_ok t" "fast t \<noteq> []" "mget (colpos t) c = Some j"
  shows "j < length (Columns t)" "cName (Columns t ! j) = c" "fastValues (Columns t) row ! j = rget row c"
  using assms by (auto simp: fast_ok_def colpos_ok_def fastValues_def)

lemma orderValue_row:
  assumes "fast_ok t"
  shows "orderValue t column key = rget (rowAt t key) column"
proof (cases "fast t = []")
  case True
  then show ?thesis by (simp add: orderValue_def)
next
  case False
  then show ?thesis
    using fast_at_pos[OF assms False] colpos_nth[OF assms False]
    by (auto simp: orderValue_def split: option.splits)
qed

section \<open>Property\<close>

text \<open>
  C34: ORDER BY with any nonzero cap returns the head of the stable sort of the candidates by the column's
  value, ascending or descending, whether the values are read from the fast array or from the rows,
  and whether or not the bounded heap is used. NULL takes part in the order.
\<close>

theorem orderBy_is_stable_sort:
  assumes "wf_table t" "cap \<noteq> 0" "\<forall>k\<in>set keys. rget (rowAt t k) column \<in> comparableAs c"
  shows "orderKeys t keys column desc cap =
    Inr (takeCap cap (sortSlice (valueBefore desc (\<lambda>k. rget (rowAt t k) column)) keys))"
proof -
  have "orderValue t column = (\<lambda>k. rget (rowAt t k) column)"
    using assms(1) orderValue_row by (auto simp: wf_table_def)
  then show ?thesis using orderKeys_stable[of keys t column c cap desc] assms by simp
qed

theorem orderBy_is_stable_sort_witness:
  "orderKeys twoUsers [''1'', ''2''] ''name'' True 1 =
     Inr (takeCap 1 (sortSlice (valueBefore True (\<lambda>k. rget (rowAt twoUsers k) ''name'')) [''1'', ''2''])) \<and>
   orderKeys twoUsers [''1'', ''2''] ''name'' True 1 = Inr [''2'']"
proof
  have "\<forall>k\<in>set [''1'', ''2'']. rget (rowAt twoUsers k) ''name'' \<in> comparableAs (Some TText)"
    by (simp add: rget_def rowAt_def twoUsers_def comparableAs_def typedVal_def)
  then show "orderKeys twoUsers [''1'', ''2''] ''name'' True 1 =
     Inr (takeCap 1 (sortSlice (valueBefore True (\<lambda>k. rget (rowAt twoUsers k) ''name'')) [''1'', ''2'']))"
    using orderBy_is_stable_sort[OF twoUsers_wf(1)] by simp
  show "orderKeys twoUsers [''1'', ''2''] ''name'' True 1 = Inr [''2'']" by code_simp
qed

end
