(* ===== verification/Query.thy ===== *)
theory Query
  imports Ddl Orderby
begin

text \<open>
  The parts that every SELECT shares (\<^verbatim>\<open>internal/engine/select.go\<close>): the clauses after FROM, the
  bare-equality terms, projections, the keys of DISTINCT, row caps, and the scan loop.

  Go's \<^verbatim>\<open>int\<close> (limits, offsets, caps) is \<open>int\<close> here; the only addition is \<^verbatim>\<open>satAdd\<close>, which stays within
  64 bits (\<open>satAdd_spec\<close>). A negative cap stands for no cap, as in the code.

  Every read path runs the same loop: poll the context, skip what is not a live row, skip what does not
  match, take the row, stop when the cap is reached. \<open>scanRows\<close> is that loop; its arguments are how an
  item is seen as a row (\<open>view\<close>), the filter, what is done with a row, and when to stop. The fast path
  reads \<^verbatim>\<open>t.fast\<close>, the other path \<^verbatim>\<open>t.Order\<close>; the locale \<open>row_source\<close> states what makes the two the same.
\<close>

declare map_of_eq_Some_iff [simp del] Some_eq_map_of_iff [simp del]

section \<open>Results of two steps\<close>

definition rbind :: "'a res \<Rightarrow> ('a \<Rightarrow> 'b res) \<Rightarrow> 'b res" where
  "rbind r k = (case r of Inl e \<Rightarrow> Inl e | Inr x \<Rightarrow> k x)"

lemma rbind_simps [simp]: "rbind (Inl e) k = Inl e" "rbind (Inr x) k = k x"
  by (simp_all add: rbind_def)

lemma rbind_Inr_iff: "rbind r k = Inr y \<longleftrightarrow> (\<exists>x. r = Inr x \<and> k x = Inr y)"
  by (cases r) auto

section \<open>Caps\<close>

definition maxInt :: int where
  "maxInt = 9223372036854775807"

definition satAdd :: "int \<Rightarrow> int \<Rightarrow> int" where
  "satAdd a b = (if a > maxInt - b then maxInt else a + b)"

definition rowCapOf :: "int \<Rightarrow> int \<Rightarrow> int \<Rightarrow> int" where
  "rowCapOf limit offset maxRows =
     (let rowCap = (if limit \<ge> 0 then satAdd limit offset else - 1) in
      if maxRows > 0 then
        let emitCap = satAdd (satAdd maxRows offset) 1
        in if rowCap < 0 \<or> rowCap > emitCap then emitCap else rowCap
      else rowCap)"

definition capReached :: "int \<Rightarrow> 'a list \<Rightarrow> bool" where
  "capReached rowCap rows \<longleftrightarrow> rowCap \<ge> 0 \<and> int (length rows) \<ge> rowCap"

definition applyOffset :: "int \<Rightarrow> 'a list \<Rightarrow> 'a list" where
  "applyOffset offset rows =
     (if offset \<le> 0 then rows else if offset \<ge> int (length rows) then [] else drop (nat offset) rows)"

definition capResultRows :: "result \<Rightarrow> int \<Rightarrow> result res" where
  "capResultRows r maxRows =
     (if maxRows > 0 \<and> int (length (resRows r)) > maxRows then
        Inl (TooLarge (''result row limit exceeded: '' @ FormatInt (int (length (resRows r))) @
               '' rows emitted (limit '' @ FormatInt maxRows @ '')''))
      else Inr r)"

section \<open>Projections\<close>

definition selectedValues :: "row \<Rightarrow> string list \<Rightarrow> goval list" where
  "selectedValues row names = map (rget row) names"

definition selectedFastValues :: "fastRow \<Rightarrow> string list \<Rightarrow> (string, nat) gomap \<Rightarrow> goval list" where
  "selectedFastValues row names columns =
     map (\<lambda>name. case mget columns name of
            None \<Rightarrow> VNil
          | Some i \<Rightarrow> if i \<ge> length (fvalues row) then VNil else fvalues row ! i) names"

definition typeTag :: "goval \<Rightarrow> char" where
  "typeTag v = (case v of VInt _ \<Rightarrow> CHR ''i'' | VFloat _ \<Rightarrow> CHR ''f'' | VStr _ \<Rightarrow> CHR ''s'' | VBool _ \<Rightarrow> CHR ''b'' | _ \<Rightarrow> CHR ''n'')"

fun rowProjectionKey :: "goval list \<Rightarrow> string" where
  "rowProjectionKey [] = []"
| "rowProjectionKey (v # vs) =
     typeTag v # fmtNat (length (valueKey v)) @ CHR '':'' # valueKey v @ rowProjectionKey vs"

section \<open>Bare equalities\<close>

definition hasLogical :: "string \<Rightarrow> bool" where
  "hasLogical expression \<longleftrightarrow> indexFold expression '' AND '' \<noteq> None \<or> indexFold expression '' OR '' \<noteq> None"

definition simpleEquality :: "string \<Rightarrow> (string \<times> string) option" where
  "simpleEquality expression =
     (if expression = [] \<or> hasLogical expression then None
      else case splitByte2 (CHR ''='') expression of
        None \<Rightarrow> None
      | Some (lhs, rhs) \<Rightarrow> Some (ToLower (TrimSpace lhs), unquoteLiteral rhs))"

fun equalityKeyIn :: "column list \<Rightarrow> string \<Rightarrow> string \<Rightarrow> string" where
  "equalityKeyIn [] column val = val"
| "equalityKeyIn (c # cs) column val =
     (if cName c = column then (case parseVal val (cType c) of Inr v \<Rightarrow> valueKey v | Inl _ \<Rightarrow> val)
      else equalityKeyIn cs column val)"

definition equalityKey :: "table \<Rightarrow> string \<Rightarrow> string \<Rightarrow> string" where
  "equalityKey t column val = equalityKeyIn (Columns t) column val"

datatype fastKind = kindFastGeneric | fastInt | fastString | fastBool | fastFloat

record fastTerm =
  ftIndex :: nat
  ftExpected :: goval
  ftKind :: fastKind

definition termKind :: "coltype \<Rightarrow> goval \<Rightarrow> fastKind" where
  "termKind ct expected =
     (case (ct, expected) of
        (TInt, VInt _) \<Rightarrow> fastInt
      | (TText, VStr _) \<Rightarrow> fastString
      | (TBool, VBool _) \<Rightarrow> fastBool
      | (TFloat, VFloat _) \<Rightarrow> fastFloat
      | _ \<Rightarrow> kindFastGeneric)"

definition simpleFastTerm :: "string \<Rightarrow> table \<Rightarrow> fastTerm option" where
  "simpleFastTerm expression t =
     (if expression = [] \<or> hasLogical expression then None
      else case splitByte2 (CHR ''='') expression of
        None \<Rightarrow> None
      | Some (lhs, rhs) \<Rightarrow>
          let column = ToLower (TrimSpace lhs) in
          if column = [] then None
          else case mget (colpos t) column of
            None \<Rightarrow> None
          | Some i \<Rightarrow>
              if i \<ge> length (Columns t) then None
              else
                let colType = cType (Columns t ! i); raw = unquoteLiteral rhs;
                    expected = (case parseVal raw colType of Inr v \<Rightarrow> v | Inl _ \<Rightarrow> VStr raw)
                in Some \<lparr>ftIndex = i, ftExpected = expected, ftKind = termKind colType expected\<rparr>)"

definition matchFastTerm :: "goval list \<Rightarrow> fastTerm \<Rightarrow> bool" where
  "matchFastTerm vals term =
     (case ftKind term of
        fastInt \<Rightarrow> (case (vals ! ftIndex term, ftExpected term) of (VInt v, VInt x) \<Rightarrow> v = x | _ \<Rightarrow> False)
      | fastString \<Rightarrow> (case (vals ! ftIndex term, ftExpected term) of (VStr v, VStr x) \<Rightarrow> v = x | _ \<Rightarrow> False)
      | fastBool \<Rightarrow> (case (vals ! ftIndex term, ftExpected term) of (VBool v, VBool x) \<Rightarrow> v = x | _ \<Rightarrow> False)
      | fastFloat \<Rightarrow> (case (vals ! ftIndex term, ftExpected term) of (VFloat v, VFloat x) \<Rightarrow> fEq v x | _ \<Rightarrow> False)
      | kindFastGeneric \<Rightarrow> conditionValueEqual (vals ! ftIndex term) (ftExpected term))"

section \<open>The clauses after FROM\<close>

function pairKeywordLoop :: "string \<Rightarrow> string \<Rightarrow> nat \<Rightarrow> string \<Rightarrow> (nat \<times> nat) option" where
  "pairKeywordLoop first second start s =
     (case indexKeyword s first of
        None \<Rightarrow> None
      | Some i \<Rightarrow>
          if first = [] then None
          else
            let rest = drop (i + length first) s; body = skipBlank rest in
            if foldEqualAt body second \<and> wordEnd (drop (length second) body) then
              Some (start + i, start + i + length first + (length rest - length body) + length second)
            else pairKeywordLoop first second (start + i + length first) rest)"
  by pat_completeness auto
termination
proof (relation "measure (\<lambda>(first, second, start, s). length s)", goal_cases)
  case (2 first second start s i x xa)
  then have "s \<noteq> []" by (auto simp: indexKeyword_def indexKeywordLoop.simps[of _ _ _ _ "[]"] split: if_splits)
  with 2 show ?case by (auto simp: less_diff_conv2)
qed simp

declare pairKeywordLoop.simps [simp del]

definition indexPairKeyword :: "string \<Rightarrow> string \<Rightarrow> string \<Rightarrow> (nat \<times> nat) option" where
  "indexPairKeyword s first second = pairKeywordLoop first second 0 s"

definition indexOrderBy :: "string \<Rightarrow> (nat \<times> nat) option" where
  "indexOrderBy s = indexPairKeyword s ''ORDER'' ''BY''"

definition indexGroupBy :: "string \<Rightarrow> (nat \<times> nat) option" where
  "indexGroupBy s = indexPairKeyword s ''GROUP'' ''BY''"

record selectTail =
  stWhere :: string
  stOrder :: string
  stDesc :: bool
  stLimit :: int
  stOffset :: int
  stGroup :: "string list"
  stHaving :: string
  stHeadEnd :: nat

fun clauseOrderOK :: "nat option \<Rightarrow> nat option list \<Rightarrow> bool" where
  "clauseOrderOK prev [] \<longleftrightarrow> True"
| "clauseOrderOK prev (None # ps) \<longleftrightarrow> clauseOrderOK prev ps"
| "clauseOrderOK prev (Some p # ps) \<longleftrightarrow> (case prev of None \<Rightarrow> True | Some q \<Rightarrow> q < p) \<and> clauseOrderOK (Some p) ps"

fun headEndOf :: "nat \<Rightarrow> nat option list \<Rightarrow> nat" where
  "headEndOf end [] = end"
| "headEndOf end (None # ps) = headEndOf end ps"
| "headEndOf end (Some p # ps) = headEndOf (if p < end then p else end) ps"

fun clauseEnd :: "nat \<Rightarrow> nat \<Rightarrow> nat option list \<Rightarrow> nat" where
  "clauseEnd from end [] = end"
| "clauseEnd from end (None # ps) = clauseEnd from end ps"
| "clauseEnd from end (Some p # ps) = clauseEnd from (if from < p \<and> p < end then p else end) ps"

definition clauseText :: "string \<Rightarrow> nat \<Rightarrow> nat \<Rightarrow> string res" where
  "clauseText rest a b =
     (case gslice rest a b of None \<Rightarrow> Inl (Panic ''slice bounds out of range'') | Some s \<Rightarrow> Inr (TrimSpace s))"

fun groupNames :: "string list \<Rightarrow> string list res" where
  "groupNames [] = Inr []"
| "groupNames (g # gs) =
     (if ToLower (TrimSpace g) = [] then Inl (Msg ''invalid GROUP BY expression'')
      else map_sum id (\<lambda>ns. ToLower (TrimSpace g) # ns) (groupNames gs))"

definition orderClause :: "string \<Rightarrow> (string \<times> bool) res" where
  "orderClause body =
     (case Fields body of
        [] \<Rightarrow> Inl (Msg ''ORDER BY requires a column'')
      | [c] \<Rightarrow> Inr (ToLower c, False)
      | [c, dir] \<Rightarrow>
          (if ToUpper dir = ''ASC'' then Inr (ToLower c, False)
           else if ToUpper dir = ''DESC'' then Inr (ToLower c, True)
           else Inl (Msg ''ORDER BY expects ASC or DESC''))
      | _ \<Rightarrow> Inl (Msg ''invalid ORDER BY expression''))"

definition countClause :: "string \<Rightarrow> string \<Rightarrow> int res" where
  "countClause word body =
     (case Atoi body of
        Inr n \<Rightarrow> if n < 0 then Inl (Msg (word @ '' must be a non-negative integer'')) else Inr n
      | Inl _ \<Rightarrow> Inl (Msg (word @ '' must be a non-negative integer'')))"

text \<open>A clause that is absent leaves its default; one that is present is read up to the next clause.\<close>

definition onClause :: "'p option \<Rightarrow> 'a \<Rightarrow> ('p \<Rightarrow> 'a res) \<Rightarrow> 'a res" where
  "onClause p dflt k = (case p of None \<Rightarrow> Inr dflt | Some x \<Rightarrow> k x)"

definition nonempty :: "string \<Rightarrow> string \<Rightarrow> string res" where
  "nonempty msg s = (if s = [] then Inl (Msg msg) else Inr s)"

definition parseSelectTail :: "string \<Rightarrow> selectTail res" where
  "parseSelectTail rest =
     (let whereStart = indexKeyword rest ''WHERE''; group_at = indexGroupBy rest; havingStart = indexKeyword rest ''HAVING'';
          order_at = indexOrderBy rest; limitStart = indexKeyword rest ''LIMIT''; offsetStart = indexKeyword rest ''OFFSET'';
          ps = [whereStart, map_option fst group_at, havingStart, map_option fst order_at, limitStart, offsetStart];
          body = (\<lambda>start from. clauseText rest from (clauseEnd start (length rest) ps))
      in if \<not> clauseOrderOK None ps then Inl (Msg ''invalid SELECT clause order'')
         else
           rbind (onClause whereStart [] (\<lambda>i. rbind (body i (i + 5)) (nonempty ''invalid WHERE expression''))) (\<lambda>wh.
           rbind (onClause group_at [] (\<lambda>(i, j). rbind (body i j) (\<lambda>grp.
                    rbind (nonempty ''GROUP BY requires a column'' grp) (\<lambda>g. groupNames (splitVals g))))) (\<lambda>groupBy.
           rbind (onClause havingStart [] (\<lambda>i. rbind (body i (i + 6)) (nonempty ''invalid HAVING expression''))) (\<lambda>having.
           if having \<noteq> [] \<and> groupBy = [] then Inl (Msg ''HAVING requires GROUP BY'')
           else
             rbind (onClause order_at ([], False) (\<lambda>(i, j). rbind (body i j) orderClause)) (\<lambda>(orderColumn, descending).
             rbind (onClause limitStart (- 1) (\<lambda>i. rbind (body i (i + 5)) (countClause ''LIMIT''))) (\<lambda>limit.
             rbind (onClause offsetStart 0 (\<lambda>i. rbind (body i (i + 6)) (countClause ''OFFSET''))) (\<lambda>offset.
             Inr \<lparr>stWhere = wh, stOrder = orderColumn, stDesc = descending, stLimit = limit, stOffset = offset,
                  stGroup = groupBy, stHaving = having, stHeadEnd = headEndOf (length rest) ps\<rparr>)))))))"

section \<open>The scan loop\<close>

fun scanRows ::
  "(nat \<Rightarrow> error option) \<Rightarrow> nat \<Rightarrow> ('i \<Rightarrow> 'r option) \<Rightarrow> ('r \<Rightarrow> bool) \<Rightarrow> ('r \<Rightarrow> 's \<Rightarrow> 's res) \<Rightarrow> ('s \<Rightarrow> bool) \<Rightarrow>
   'i list \<Rightarrow> 's \<Rightarrow> 's res" where
  "scanRows c i view keep step stop [] s = Inr s"
| "scanRows c i view keep step stop (x # xs) s =
     (case tick c (Suc i) of
        Some e \<Rightarrow> Inl e
      | None \<Rightarrow>
          (case view x of
             None \<Rightarrow> scanRows c (Suc i) view keep step stop xs s
           | Some r \<Rightarrow>
               if \<not> keep r then scanRows c (Suc i) view keep step stop xs s
               else case step r s of
                 Inl e \<Rightarrow> Inl e
               | Inr s' \<Rightarrow> if stop s' then Inr s' else scanRows c (Suc i) view keep step stop xs s'))"

text \<open>How the two arrays show a row: \<^verbatim>\<open>row.key == ""\<close> and \<^verbatim>\<open>!exists\<close> are skipped.\<close>

definition viewFast :: "fastRow \<Rightarrow> fastRow option" where
  "viewFast r = (if fkey r = [] then None else Some r)"

definition viewOrder :: "table \<Rightarrow> string \<Rightarrow> (string \<times> row) option" where
  "viewOrder t key = map_option (Pair key) (mget (Rows t) key)"

section \<open>Caps stay within 64 bits\<close>

lemma satAdd_spec:
  assumes "0 \<le> a" "a \<le> maxInt" "0 \<le> b" "b \<le> maxInt"
  shows "satAdd a b = min maxInt (a + b)" "0 \<le> satAdd a b" "satAdd a b \<le> maxInt"
  using assms by (auto simp: satAdd_def)

text \<open>
  What the cap does to a list no longer than the largest \<^verbatim>\<open>int\<close>: skipping the offset of the capped list
  is skipping the offset and keeping the limit, or one row more than the row policy allows.
\<close>

definition window :: "int \<Rightarrow> int \<Rightarrow> 'a list \<Rightarrow> 'a list" where
  "window limit offset xs = (if limit < 0 then drop (nat offset) xs else take (nat limit) (drop (nat offset) xs))"

lemma applyOffset_drop: "applyOffset offset xs = drop (nat offset) xs"
  by (auto simp: applyOffset_def)

lemma takeCap_take: "0 \<le> cap \<Longrightarrow> takeCap cap xs = take (nat cap) xs"
  by (auto simp: takeCap_def)

lemma nat_satAdd:
  assumes "0 \<le> a" "a \<le> maxInt" "0 \<le> b" "b \<le> maxInt" "int n \<le> maxInt"
  shows "min (nat (satAdd a b)) n = min (nat a + nat b) n"
  using satAdd_spec[OF assms(1-4)] assms by (auto simp: min_def nat_add_distrib)

lemma take_min: "take (min k (length xs)) xs = take k xs"
  by (simp add: min_def)

lemma take_satAdd:
  assumes "0 \<le> a" "a \<le> maxInt" "0 \<le> b" "b \<le> maxInt" "int (length xs) \<le> maxInt"
  shows "take (nat (satAdd a b)) xs = take (nat a + nat b) xs"
  using nat_satAdd[OF assms] by (metis take_min)

definition inCaps :: "int \<Rightarrow> int \<Rightarrow> int \<Rightarrow> bool" where
  "inCaps limit offset maxRows \<longleftrightarrow> limit \<le> maxInt \<and> 0 \<le> offset \<and> offset \<le> maxInt \<and> maxRows \<le> maxInt"

lemma capped_rows:
  assumes "inCaps limit offset maxRows" "int (length xs) \<le> maxInt"
  shows "applyOffset offset (takeCap (rowCapOf limit offset maxRows) xs) =
    (if maxRows > 0 then take (nat maxRows + 1) (window limit offset xs) else window limit offset xs)"
proof -
  note c = assms(1)[unfolded inCaps_def]
  have L: "takeCap (satAdd limit offset) xs = take (nat limit + nat offset) xs" if "0 \<le> limit"
    using that c assms(2) take_satAdd[of limit offset xs] satAdd_spec(2)[of limit offset] by (simp add: takeCap_take)
  let ?e = "satAdd (satAdd maxRows offset) 1"
  have e: "0 \<le> ?e" "take (nat ?e) xs = take (nat maxRows + nat offset + 1) xs" if "0 < maxRows"
  proof -
    have s: "0 \<le> satAdd maxRows offset" "satAdd maxRows offset \<le> maxInt" using that c satAdd_spec[of maxRows offset] by auto
    then show "0 \<le> ?e" using satAdd_spec(2)[of "satAdd maxRows offset" 1] by (simp add: maxInt_def)
    have "min (nat ?e) (length xs) = min (nat (satAdd maxRows offset) + 1) (length xs)"
      using nat_satAdd[of "satAdd maxRows offset" 1 "length xs"] s assms(2) by (simp add: maxInt_def)
    also have "\<dots> = min (nat maxRows + nat offset + 1) (length xs)"
      using satAdd_spec(1)[of maxRows offset] that c assms(2) by (auto simp: min_def nat_add_distrib)
    finally show "take (nat ?e) xs = take (nat maxRows + nat offset + 1) xs" by (metis take_min)
  qed
  show ?thesis
  proof (cases "maxRows > 0")
    case False
    then show ?thesis using L c
      by (auto simp: rowCapOf_def applyOffset_drop window_def takeCap_def[of "- 1"] drop_take)
  next
    case m: True
    show ?thesis
    proof (cases "limit < 0 \<or> satAdd limit offset > ?e")
      case True
      then have r: "rowCapOf limit offset maxRows = ?e" using m by (auto simp: rowCapOf_def Let_def)
      have "0 \<le> limit \<Longrightarrow> nat maxRows + 1 \<le> nat limit"
        using True m c by (auto simp: satAdd_def maxInt_def split: if_splits)
      then show ?thesis using m e[OF m] by (auto simp: r takeCap_take applyOffset_drop window_def drop_take min_def)
    next
      case False
      then have r: "rowCapOf limit offset maxRows = satAdd limit offset" "0 \<le> limit"
        using m c satAdd_spec(2)[of limit offset] by (auto simp: rowCapOf_def Let_def)
      have "nat limit \<le> nat maxRows + 1 \<or> length xs \<le> nat maxRows + nat offset + 1"
        using False m c assms(2) by (auto simp: satAdd_def maxInt_def split: if_splits)
      then show ?thesis using m L[OF r(2)] r by (auto simp: applyOffset_drop window_def drop_take min_def)
    qed
  qed
qed

section \<open>Keys of DISTINCT and of groups\<close>

lemma digits_colon_inject:
  assumes "list_all isDigit a" "list_all isDigit b" "a @ CHR '':'' # x = b @ CHR '':'' # y"
  shows "a = b \<and> x = y"
proof -
  have "takeWhile isDigit (a @ CHR '':'' # x) = a" "takeWhile isDigit (b @ CHR '':'' # y) = b"
    using assms(1,2) by (auto simp: list_all_iff takeWhile_append isDigit_def)
  with assms(3) show ?thesis by auto
qed

text \<open>A key determines the type and the rendering of every value of the row.\<close>

lemma rowProjectionKey_inject:
  "rowProjectionKey r = rowProjectionKey r' \<longleftrightarrow> map (\<lambda>v. (typeTag v, valueKey v)) r = map (\<lambda>v. (typeTag v, valueKey v)) r'"
proof (induction r arbitrary: r')
  case Nil
  then show ?case by (cases r') auto
next
  case (Cons v vs)
  show ?case
  proof (cases r')
    case (Cons w ws)
    have f: "fmtNat m @ CHR '':'' # x = fmtNat n @ CHR '':'' # y \<longleftrightarrow> m = n \<and> x = y" for m n x y
      using digits_colon_inject[OF fmtNat_digits fmtNat_digits, of m x n y] by auto
    have a: "length v' = length w' \<and> v' @ x = w' @ y \<longleftrightarrow> v' = w' \<and> x = y" for v' w' x y :: string
      by auto
    have "rowProjectionKey (v # vs) = rowProjectionKey (w # ws) \<longleftrightarrow>
        typeTag v = typeTag w \<and> valueKey v = valueKey w \<and> rowProjectionKey vs = rowProjectionKey ws"
      by (simp only: rowProjectionKey.simps list.inject f a)
    then show ?thesis unfolding Cons using Cons.IH[of ws] by simp
  qed simp
qed

text \<open>Stored values other than floats are determined by their tag and rendering.\<close>

definition plainVal :: "goval \<Rightarrow> bool" where
  "plainVal v \<longleftrightarrow> (case v of VFloat _ \<Rightarrow> False | VGoInt _ \<Rightarrow> False | VList _ \<Rightarrow> False | _ \<Rightarrow> True)"

lemma tagged_inject: "plainVal v \<Longrightarrow> plainVal w \<Longrightarrow> (typeTag v, valueKey v) = (typeTag w, valueKey w) \<longleftrightarrow> v = w"
  by (cases v; cases w) (auto simp: plainVal_def typeTag_def split: if_splits)

lemma rowProjectionKey_plain:
  assumes "list_all plainVal r" "list_all plainVal r'"
  shows "rowProjectionKey r = rowProjectionKey r' \<longleftrightarrow> r = r'"
proof -
  have "inj_on (\<lambda>v. (typeTag v, valueKey v)) (set r \<union> set r')"
    using assms tagged_inject unfolding inj_on_def list_all_iff by blast
  then show ?thesis unfolding rowProjectionKey_inject by (auto dest: map_inj_on)
qed

text \<open>Keeping the first of the items with the same key.\<close>

fun dedupBy :: "('a \<Rightarrow> string) \<Rightarrow> string list \<Rightarrow> 'a list \<Rightarrow> 'a list" where
  "dedupBy f seen [] = []"
| "dedupBy f seen (x # xs) = (if f x \<in> set seen then dedupBy f seen xs else x # dedupBy f (sadd seen (f x)) xs)"

definition dedupIf :: "bool \<Rightarrow> ('a \<Rightarrow> string) \<Rightarrow> string list \<Rightarrow> 'a list \<Rightarrow> 'a list" where
  "dedupIf dst f seen xs = (if dst then dedupBy f seen xs else xs)"

lemma map_dedupBy: "map g (dedupBy (f \<circ> g) seen xs) = dedupBy f seen (map g xs)"
  by (induction xs arbitrary: seen) auto

lemma set_dedupBy_subset: "set (dedupBy f seen xs) \<subseteq> set xs"
proof (induction xs arbitrary: seen)
  case (Cons x xs)
  from Cons[of seen] Cons[of "sadd seen (f x)"] show ?case by auto
qed simp

lemma dedupBy_keys: "f ` set (dedupBy f seen xs) = f ` set xs - set seen"
  by (induction xs arbitrary: seen) auto

lemma distinct_dedupBy: "distinct (map f (dedupBy f seen xs))"
proof (induction xs arbitrary: seen)
  case (Cons x xs)
  with dedupBy_keys[of f "sadd seen (f x)" xs] show ?case by simp
qed simp

lemma dedupBy_cong: "(\<And>x. x \<in> set xs \<Longrightarrow> f x = g x) \<Longrightarrow> dedupBy f seen xs = dedupBy g seen xs"
  by (induction xs arbitrary: seen) auto

lemma length_dedupIf: "length (dedupIf dst f seen xs) \<le> length xs"
proof -
  have "length (dedupBy f seen xs) \<le> length xs"
  proof (induction xs arbitrary: seen)
    case (Cons x xs)
    from Cons[of seen] Cons[of "sadd seen (f x)"] show ?case by simp
  qed simp
  then show ?thesis by (simp add: dedupIf_def)
qed

section \<open>The scan loop without cancellation\<close>

fun foldRows :: "('r \<Rightarrow> 's \<Rightarrow> 's res) \<Rightarrow> ('s \<Rightarrow> bool) \<Rightarrow> 'r list \<Rightarrow> 's \<Rightarrow> 's res" where
  "foldRows step stop [] s = Inr s"
| "foldRows step stop (r # rs) s =
     (case step r s of Inl e \<Rightarrow> Inl e | Inr s' \<Rightarrow> if stop s' then Inr s' else foldRows step stop rs s')"

lemma scanRows_fold:
  "scanRows (\<lambda>_. None) i view keep step stop xs s = foldRows step stop (filter keep (List.map_filter view xs)) s"
  by (induction xs arbitrary: i s) (auto simp: List.map_filter_def split: option.splits sum.splits)

text \<open>A step that reads a row only through \<open>f\<close> gives the same result on the images.\<close>

lemma foldRows_map: "foldRows (\<lambda>r. step (f r)) stop rs s = foldRows step stop (map f rs) s"
  by (induction rs arbitrary: s) (auto split: sum.splits)

lemma foldRows_cong: "(\<And>r s. r \<in> set rs \<Longrightarrow> step r s = step' r s) \<Longrightarrow> foldRows step stop rs s = foldRows step' stop rs s"
  by (induction rs arbitrary: s) (auto split: sum.splits)

text \<open>Appending the items, once per key, until the cap.\<close>

definition appendOnce :: "bool \<Rightarrow> ('a \<Rightarrow> string) \<Rightarrow> 'a \<Rightarrow> string list \<times> 'a list \<Rightarrow> string list \<times> 'a list" where
  "appendOnce dst f x sr =
     (case sr of (seen, rows) \<Rightarrow>
        if dst then (if f x \<in> set seen then (seen, rows) else (sadd seen (f x), rows @ [x])) else (seen, rows @ [x]))"

lemma foldRows_append:
  assumes "cap \<noteq> 0" "\<not> capReached cap rows"
  shows "map_sum id snd (foldRows (\<lambda>x s. Inr (appendOnce dst f x s)) (\<lambda>s. capReached cap (snd s)) xs (seen, rows)) =
    Inr (takeCap cap (rows @ dedupIf dst f seen xs))"
  using assms(2)
proof (induction xs arbitrary: seen rows)
  case Nil
  then show ?case by (auto simp: takeCap_def capReached_def dedupIf_def)
next
  case (Cons x xs)
  show ?case
  proof (cases "dst \<and> f x \<in> set seen")
    case True
    with Cons show ?thesis by (simp add: appendOnce_def dedupIf_def)
  next
    case False
    let ?seen = "if dst then sadd seen (f x) else seen"
    have step: "appendOnce dst f x (seen, rows) = (?seen, rows @ [x])" using False by (auto simp: appendOnce_def)
    have d: "dedupIf dst f seen (x # xs) = x # dedupIf dst f ?seen xs" using False by (auto simp: dedupIf_def)
    show ?thesis
    proof (cases "capReached cap (rows @ [x])")
      case True
      have "takeCap cap (rows @ x # ys) = rows @ [x]" for ys
      proof -
        have "nat cap = Suc (length rows)" "0 \<le> cap" using True Cons.prems by (auto simp: capReached_def)
        then show ?thesis by (simp add: takeCap_take)
      qed
      with True show ?thesis by (simp add: step d)
    next
      case False
      with Cons.IH[of "rows @ [x]" ?seen] show ?thesis by (simp add: step d)
    qed
  qed
qed

section \<open>The two sources of rows\<close>

text \<open>
  What a scan relies on: where the source is usable, the rows it shows are the live rows in table order,
  and the values it shows are those of the row maps.
\<close>

locale row_source =
  fixes usable :: "table \<Rightarrow> bool" and items :: "table \<Rightarrow> 'i list" and view :: "table \<Rightarrow> 'i \<Rightarrow> 'r option"
    and key :: "'r \<Rightarrow> string" and cell :: "table \<Rightarrow> string \<Rightarrow> 'r \<Rightarrow> goval"
  assumes keys: "wf_table t \<Longrightarrow> usable t \<Longrightarrow> map key (List.map_filter (view t) (items t)) = live t"
    and cells: "wf_table t \<Longrightarrow> usable t \<Longrightarrow> r \<in> set (List.map_filter (view t) (items t)) \<Longrightarrow>
      c \<in> cName ` set (Columns t) \<Longrightarrow> cell t c r = rget (rowAt t (key r)) c"
begin

abbreviation shown :: "table \<Rightarrow> 'r list" where
  "shown t \<equiv> List.map_filter (view t) (items t)"

text \<open>A scan whose filter and step read a row through its key is a loop over the live keys.\<close>

lemma scan_live:
  assumes "wf_table t" "usable t"
    and "\<And>r. r \<in> set (shown t) \<Longrightarrow> keep r \<longleftrightarrow> P (key r)"
    and "\<And>r s. r \<in> set (shown t) \<Longrightarrow> step r s = stepk (key r) s"
  shows "scanRows (\<lambda>_. None) i (view t) keep step stop (items t) s = foldRows stepk stop (filter P (live t)) s"
proof -
  have "filter keep (shown t) = filter (\<lambda>r. P (key r)) (shown t)" using assms(3) by (rule filter_cong[OF refl])
  then have "scanRows (\<lambda>_. None) i (view t) keep step stop (items t) s =
      foldRows (\<lambda>r. stepk (key r)) stop (filter (\<lambda>r. P (key r)) (shown t)) s"
    unfolding scanRows_fold using assms(4) by (auto intro: foldRows_cong)
  also have "\<dots> = foldRows stepk stop (filter P (map key (shown t))) s"
    by (simp add: foldRows_map filter_map comp_def)
  finally show ?thesis using keys[OF assms(1,2)] by simp
qed

lemma shown_live: "wf_table t \<Longrightarrow> usable t \<Longrightarrow> r \<in> set (shown t) \<Longrightarrow> key r \<in> set (live t)"
  by (metis keys image_eqI image_set)

end

definition fastCell :: "table \<Rightarrow> string \<Rightarrow> fastRow \<Rightarrow> goval" where
  "fastCell t c r = (case mget (colpos t) c of Some i \<Rightarrow> fvalues r ! i | None \<Rightarrow> VNil)"

lemma map_filter_viewFast: "List.map_filter viewFast fs = filter (\<lambda>r. fkey r \<noteq> []) fs"
  by (induction fs) (auto simp: List.map_filter_def viewFast_def)

lemma map_filter_viewOrder: "List.map_filter (viewOrder t) ks = map (\<lambda>k. (k, rowAt t k)) (filter (\<lambda>k. mhas (Rows t) k) ks)"
  by (induction ks) (auto simp: List.map_filter_def viewOrder_def rowAt_def)

interpretation fastSource: row_source "\<lambda>t. fast t \<noteq> []" fast "\<lambda>t. viewFast" fkey fastCell
proof
  fix t assume t: "wf_table t" "fast t \<noteq> []"
  then have ok: "fast_ok t" by (simp add: wf_table_def)
  have "map fst (fastView t) = map fst (slowView t)" using t by (simp add: wf_table_def fast_ok_def)
  then show "map fkey (List.map_filter viewFast (fast t)) = live t"
    by (simp add: map_filter_viewFast fastView_def slowView_def comp_def)
  fix r c assume r: "r \<in> set (List.map_filter viewFast (fast t))" and c: "c \<in> cName ` set (Columns t)"
  then have v: "fvalues r = fastValues (Columns t) (rowAt t (fkey r))"
    using fast_values_of[OF ok, of r] by (simp add: map_filter_viewFast)
  obtain j where j: "mget (colpos t) c = Some j" using colpos_has[OF _ c] t by (auto simp: wf_table_def fast_ok_def)
  with v colpos_nth(3)[OF ok t(2) j] show "fastCell t c r = rget (rowAt t (fkey r)) c" by (simp add: fastCell_def)
qed

interpretation orderSource: row_source "\<lambda>t. True" Order viewOrder fst "\<lambda>t c (k, row). rget row c"
proof
  fix t assume "wf_table t"
  show "map fst (List.map_filter (viewOrder t) (Order t)) = live t"
    by (simp add: map_filter_viewOrder live_def comp_def)
  fix r c assume "r \<in> set (List.map_filter (viewOrder t) (Order t))"
  then show "(case r of (k, row) \<Rightarrow> rget row c) = rget (rowAt t (fst r)) c" by (auto simp: map_filter_viewOrder)
qed

text \<open>What the fast array shows of a live row: conditions and projections agree with the row map.\<close>

lemma fast_row_values:
  assumes "wf_table t" "fast t \<noteq> []" "r \<in> set (fast t)" "fkey r \<noteq> []"
  shows "fvalues r = fastValues (Columns t) (rowAt t (fkey r))"
  using assms fast_values_of by (auto simp: wf_table_def)

lemma matchesFast_row:
  assumes "wf_table t" "fast t \<noteq> []" "compileCondition wh (Columns t) = Some c"
  shows "matchesFast c (fastValues (Columns t) row) (colpos t) \<longleftrightarrow> matchesMap c row"
proof -
  have ok: "fast_ok t" using assms by (simp add: wf_table_def)
  have "(case mget (colpos t) (ctColumn tm) of None \<Rightarrow> False
         | Some i \<Rightarrow> conditionValueCompare (fastValues (Columns t) row ! i) (ctExpected tm) (ctOp tm)) \<longleftrightarrow>
      conditionValueCompare (rget row (ctColumn tm)) (ctExpected tm) (ctOp tm)" if g: "g \<in> set c" "tm \<in> set g" for g tm
  proof -
    obtain j where j: "mget (colpos t) (ctColumn tm) = Some j"
      using colpos_has[of t "ctColumn tm"] compileCondition_columns[OF assms(3) g] assms(1,2)
      by (auto simp: wf_table_def fast_ok_def)
    with colpos_nth(3)[OF ok assms(2) j] show ?thesis by simp
  qed
  then show ?thesis unfolding matchesFast_def matchesMap_def list_ex_iff list_all_iff by blast
qed

lemma selectedFastValues_row:
  assumes "wf_table t" "fast t \<noteq> []" "set names \<subseteq> cName ` set (Columns t)" "fvalues r = fastValues (Columns t) row"
  shows "selectedFastValues r names (colpos t) = selectedValues row names"
proof -
  have ok: "fast_ok t" using assms by (simp add: wf_table_def)
  have "(case mget (colpos t) n of None \<Rightarrow> VNil | Some i \<Rightarrow> if i \<ge> length (fvalues r) then VNil else fvalues r ! i) = rget row n"
    if n: "n \<in> set names" for n
  proof -
    have "n \<in> cName ` set (Columns t)" using n assms(3) by blast
    then obtain j where j: "mget (colpos t) n = Some j"
      using colpos_has[of t n] assms(1,2) by (auto simp: wf_table_def fast_ok_def)
    with colpos_nth[OF ok assms(2) j] assms(4) show ?thesis by (simp add: fastValues_def)
  qed
  then show ?thesis by (simp add: selectedFastValues_def selectedValues_def)
qed

lemma fast_pos_row:
  assumes "wf_table t" "fast t \<noteq> []" "mget (fastPos t) key = Some fi"
  shows "fi < length (fast t)" "fkey (fast t ! fi) = key" "key \<noteq> []"
    "fvalues (fast t ! fi) = fastValues (Columns t) (rowAt t key)"
  using fast_at_pos[of t key fi] assms by (auto simp: wf_table_def)

end
