(* ===== verification/Equality.thy ===== *)
theory Equality
  imports Query
begin

text \<open>
  The bare-equality shortcut of SELECT and COUNT against the compiled condition it stands for. A WHERE
  text that the shortcut accepts (\<^verbatim>\<open>simpleEquality\<close>, \<^verbatim>\<open>simpleFastTerm\<close>), on a column that exists and whose name
  is plain, and that compiles at all, compiles to the one term \<^verbatim>\<open>column = value\<close> with the same expected
  value. So the three ways to test a row agree: by the resolved term, by the key of an index or of the
  primary column, and by the compiled condition.

  The shortcut accepts an empty right-hand side, which the compiler rejects: this is why compilation is
  a hypothesis.
\<close>

declare map_of_eq_Some_iff [simp del] Some_eq_map_of_iff [simp del]

section \<open>No logical operator\<close>

lemma indexFoldLoop_None:
  assumes "indexFoldLoop i s sub = None" "sub \<noteq> []"
  shows "\<not> foldEqualAt (drop k s) sub"
  using assms(1)
proof (induction s arbitrary: i k)
  case Nil
  then show ?case using assms(2) by (cases sub) auto
next
  case (Cons c cs)
  show ?case
  proof (cases "length (c # cs) < length sub")
    case True
    with foldEqualAt_length show ?thesis by (metis dual_order.strict_trans2 length_drop diff_le_self linorder_not_less)
  next
    case False
    with Cons.prems have "\<not> foldEqualAt (c # cs) sub" "indexFoldLoop (Suc i) cs sub = None"
      by (auto simp: indexFoldLoop.simps[of i "c # cs"] split: if_splits)
    with Cons.IH show ?thesis by (cases k) auto
  qed
qed

lemma indexFold_None: "indexFold s sub = None \<Longrightarrow> sub \<noteq> [] \<Longrightarrow> \<not> foldEqualAt (drop k s) sub"
  using indexFoldLoop_None[of 0 s sub k] foldEqualAt_length[of "drop k s" sub]
  by (auto simp: indexFold_def split: if_splits)

lemma splitLogicalLoop_single:
  assumes "\<And>k. \<not> foldEqualAt (drop k s) (CHR '' '' # operator @ '' '')"
  shows "splitLogicalLoop operator q pending prev cur s = [TrimSpace (cur @ s)]"
  using assms
proof (induction "length s" arbitrary: q pending prev cur s rule: less_induct)
  case less
  show ?case
  proof (cases "length s < length (CHR '' '' # operator @ '' '') \<or> s = []")
    case True
    then show ?thesis by (subst splitLogicalLoop.simps) (auto simp: Let_def)
  next
    case False
    then obtain c cs where s: "s = c # cs" by (cases s) auto
    have no: "\<not> foldEqualAt s (CHR '' '' # operator @ '' '')" using less.prems[of 0] by simp
    have one: "splitLogicalLoop operator q' p' pr cu cs = [TrimSpace (cu @ cs)]" for q' p' pr cu
    proof (rule less.hyps)
      show "\<not> foldEqualAt (drop k cs) (CHR '' '' # operator @ '' '')" for k using less.prems[of "Suc k"] s by simp
    qed (simp add: s)
    have two: "splitLogicalLoop operator q' p' pr cu ds = [TrimSpace (cu @ ds)]" if "cs = d # ds" for q' p' pr cu d ds
    proof (rule less.hyps)
      show "\<not> foldEqualAt (drop k ds) (CHR '' '' # operator @ '' '')" for k using less.prems[of "Suc (Suc k)"] s that by simp
    qed (simp add: s that)
    show ?thesis
      using False s no one two by (subst splitLogicalLoop.simps) (auto simp: Let_def neq_Nil_conv)
  qed
qed

lemma splitLogical_single:
  assumes "indexFold s (CHR '' '' # operator @ '' '') = None"
  shows "splitLogical s operator = [TrimSpace s]"
  unfolding splitLogical_def using splitLogicalLoop_single[of s operator] indexFold_None[OF assms] by simp

section \<open>The single term\<close>

definition opByte :: "char \<Rightarrow> bool" where
  "opByte c \<longleftrightarrow> c = quoteChar \<or> c = CHR ''!'' \<or> c = CHR ''<'' \<or> c = CHR ''>'' \<or> c = CHR ''=''"

text \<open>Column names without quotes and comparison signs: every name that can be compared at all.\<close>

definition plainColumns :: "column list \<Rightarrow> bool" where
  "plainColumns cols \<longleftrightarrow> list_all (\<lambda>c. \<not> list_ex opByte (cName c)) cols"

lemma splitByte2_Some: "splitByte2 sep s = Some (l, r) \<Longrightarrow> s = l @ sep # r \<and> sep \<notin> set l"
  by (induction s arbitrary: l) (auto split: if_splits)

lemma splitConditionTermLoop_eq:
  "\<not> list_ex opByte l \<Longrightarrow> splitConditionTermLoop False lhs (l @ CHR ''='' # r) = Some (lhs @ l, opEq, r)"
proof (induction l arbitrary: lhs)
  case Nil
  then show ?case by (simp add: splitConditionTermLoop.simps(2))
next
  case (Cons c l)
  then show ?case by (simp add: splitConditionTermLoop.simps(2) opByte_def)
qed

lemma downcase_opByte: "opByte c \<Longrightarrow> opByte (downcase c)"
  by (auto simp: opByte_def downcase_def)

lemma opByte_not_space: "opByte c \<Longrightarrow> \<not> asciiSpace c \<and> byte c < 128"
  by (auto simp: opByte_def asciiSpace_def)

lemma lhs_plain:
  assumes "\<not> list_ex opByte (ToLower (TrimSpace l))"
  shows "\<not> list_ex opByte l"
proof -
  obtain ls rs where d: "set ls \<subseteq> spaceEncs multiSpaces" "set rs \<subseteq> spaceEncs multiSpaces"
    "l = concat ls @ TrimSpace l @ concat rs" using TrimSpace_decomp by blast
  have sp: "\<not> opByte c" if "c \<in> set (concat ls @ concat rs)" for c
    using that d(1,2) spaceEncs_bytes opByte_not_space[of c] by fastforce
  have "\<not> list_ex opByte (TrimSpace l)"
    using assms downcase_opByte by (auto simp: list_ex_iff ToLower_def)
  with sp d(3) show ?thesis by (metis Un_iff list_ex_iff set_append)
qed

lemma columnTypes_get:
  assumes "distinct (map cName cols)" "c \<in> set cols"
  shows "mget (columnTypes cols) (cName c) = Some (cType c)"
proof -
  have other: "mget (fold (\<lambda>c m. mset_at m (cName c) (cType c)) cols m) n = mget m n" if "n \<notin> cName ` set cols" for cols m n
    using that by (induction cols arbitrary: m) (auto simp: gomap_simps)
  have "mget (fold (\<lambda>c m. mset_at m (cName c) (cType c)) cols m) (cName c) = Some (cType c)" for m
    using assms by (induction cols arbitrary: m) (auto simp: gomap_simps other)
  then show ?thesis by (simp add: columnTypes_def)
qed

lemma TrimSpace_unquote: "unquoteLiteral (TrimSpace s) = unquoteLiteral s"
  by (simp add: unquoteLiteral_def)

definition expectedOf :: "string \<Rightarrow> coltype \<Rightarrow> goval" where
  "expectedOf raw ct = (case parseVal raw ct of Inr v \<Rightarrow> v | Inl _ \<Rightarrow> VStr raw)"

text \<open>A bare equality that compiles is the one term with the expected value of the shortcut.\<close>

lemma simpleEquality_compiles_to:
  assumes se: "simpleEquality wh = Some (column, raw)" and trim: "TrimSpace wh = wh"
    and cols: "plainColumns cols" "distinct (map cName cols)" and c: "c \<in> set cols" "cName c = column"
    and ok: "compileCondition wh cols = Some cond"
  shows "cond = [[\<lparr>ctColumn = column, ctExpected = expectedOf raw (cType c), ctOp = opEq\<rparr>]]"
proof -
  from se obtain l r where lr: "wh \<noteq> []" "\<not> hasLogical wh" "splitByte2 (CHR ''='') wh = Some (l, r)"
    "column = ToLower (TrimSpace l)" "raw = unquoteLiteral r"
    by (auto simp: simpleEquality_def split: if_splits option.splits prod.splits)
  have "\<not> list_ex opByte column" using cols(1) c by (auto simp: plainColumns_def list_all_iff)
  then have "splitTerm wh = Some (l, opEq, r)"
    using splitConditionTermLoop_eq[of l "[]" r] lhs_plain[of l] splitByte2_Some[OF lr(3)] lr(4)
    by (simp add: splitTerm_def splitConditionTerm_def)
  moreover have "splitLogical wh ''OR'' = [wh]" "splitLogical wh ''AND'' = [wh]"
    using splitLogical_single[of wh "''OR''"] splitLogical_single[of wh "''AND''"] lr(2) trim by (auto simp: hasLogical_def)
  ultimately show ?thesis
    using ok trim lr(1,4,5) columnTypes_get[OF cols(2) c(1)] c(2)
    by (auto simp: compileCondition_def compileTerm_def Let_def literalValue_def expectedOf_def TrimSpace_unquote
        split: option.splits if_splits)
qed

lemma simpleFastTerm_of:
  assumes "simpleFastTerm wh t = Some tm" "fast_ok t" "fast t \<noteq> []"
  obtains column raw i where "simpleEquality wh = Some (column, raw)" "column \<noteq> []" "ftIndex tm = i" "i < length (Columns t)"
    "cName (Columns t ! i) = column" "ftExpected tm = expectedOf raw (cType (Columns t ! i))"
    "ftKind tm = termKind (cType (Columns t ! i)) (ftExpected tm)"
proof -
  from assms(1) obtain l r i where lr: "wh \<noteq> []" "\<not> hasLogical wh" "splitByte2 (CHR ''='') wh = Some (l, r)"
    "ToLower (TrimSpace l) \<noteq> []" "mget (colpos t) (ToLower (TrimSpace l)) = Some i" "i < length (Columns t)"
    "ftIndex tm = i" "ftExpected tm = expectedOf (unquoteLiteral r) (cType (Columns t ! i))"
    "ftKind tm = termKind (cType (Columns t ! i)) (ftExpected tm)"
    by (auto simp: simpleFastTerm_def Let_def expectedOf_def split: if_splits option.splits prod.splits)
  have "cName (Columns t ! i) = ToLower (TrimSpace l)" using colpos_nth(2)[OF assms(2,3) lr(5)] .
  with lr that[of "ToLower (TrimSpace l)" "unquoteLiteral r" i] show ?thesis by (simp add: simpleEquality_def)
qed

lemma matchFastTerm_equal:
  "ftKind tm = termKind ct (ftExpected tm) \<Longrightarrow> matchFastTerm vals tm = conditionValueEqual (vals ! ftIndex tm) (ftExpected tm)"
  by (auto simp: matchFastTerm_def termKind_def conditionValueEqual_def split: coltype.splits goval.splits)

lemma matchesMap_equality: "matchesMap [[\<lparr>ctColumn = c, ctExpected = e, ctOp = opEq\<rparr>]] row \<longleftrightarrow> conditionValueEqual (rget row c) e"
  by (simp add: matchesMap_def conditionValueCompare_def)

text \<open>The resolved term of the fast path tests a row as the compiled condition does.\<close>

lemma matchFastTerm_compiled:
  assumes wf: "wf_table t" and f: "fast t \<noteq> []" and tm: "simpleFastTerm wh t = Some tm" and trim: "TrimSpace wh = wh"
    and plain: "plainColumns (Columns t)" and ok: "compileCondition wh (Columns t) = Some cond"
  shows "matchFastTerm (fastValues (Columns t) row) tm \<longleftrightarrow> matchesMap cond row"
proof -
  have fo: "fast_ok t" and d: "distinct (map cName (Columns t))" using wf by (auto simp: wf_table_def wf_columns_def)
  from simpleFastTerm_of[OF tm fo f] obtain column raw i where s: "simpleEquality wh = Some (column, raw)"
    "ftIndex tm = i" "i < length (Columns t)" "cName (Columns t ! i) = column"
    "ftExpected tm = expectedOf raw (cType (Columns t ! i))" "ftKind tm = termKind (cType (Columns t ! i)) (ftExpected tm)"
    by blast
  have c: "Columns t ! i \<in> set (Columns t)" using s(3) by simp
  from simpleEquality_compiles_to[OF s(1) trim plain d c s(4) ok]
  show ?thesis using matchFastTerm_equal[OF s(6)] s by (simp add: matchesMap_equality fastValues_def)
qed

section \<open>Keys of rows and buckets\<close>

lemma FormatInt_trim: "TrimSpace (FormatInt i) = FormatInt i"
proof -
  have d: "isDigit c \<Longrightarrow> byte c < 128 \<and> \<not> asciiSpace c" for c by (auto simp: isDigit_def asciiSpace_def)
  have l: "isDigit (last (fmtNat n))" for n using fmtNat_digits[of n] by (simp add: list_all_iff)
  show ?thesis
    using d[OF fmtNat_hd_digit] d[OF l] by (intro TrimSpace_solid) (auto simp: FormatInt_def asciiSpace_def)
qed

lemma FormatInt_not_NULL: "\<not> EqualFold (FormatInt i) ''NULL''"
proof -
  obtain c cs where c: "FormatInt i = c # cs" "numberByte c" using FormatInt_hd by blast
  then have "byte c < 65" by (auto simp: numberByte_def isDigit_def)
  then have "downcase c \<noteq> CHR ''n''" by (auto simp: downcase_def)
  moreover have "downcase (CHR ''N'') = CHR ''n''" by code_simp
  ultimately show ?thesis using c by (simp add: EqualFold_def ToLower_def)
qed

definition keyOf :: "string \<Rightarrow> coltype \<Rightarrow> string" where
  "keyOf raw ct = (case parseVal raw ct of Inr v \<Rightarrow> valueKey v | Inl _ \<Rightarrow> raw)"

lemma equalityKey_keyOf:
  assumes "distinct (map cName (Columns t))" "c \<in> set (Columns t)"
  shows "equalityKey t (cName c) raw = keyOf raw (cType c)"
proof -
  have "equalityKeyIn cols (cName c) raw = keyOf raw (cType c)" if "distinct (map cName cols)" "c \<in> set cols" for cols
    using that by (induction cols) (auto simp: keyOf_def)
  with assms show ?thesis by (simp add: equalityKey_def)
qed

text \<open>A stored value that equals the literal is stored under the literal's key.\<close>

lemma equal_value_key:
  assumes "typedVal ct x" "ct \<noteq> TFloat" "conditionValueEqual x (expectedOf raw ct)"
  shows "valueKey x = keyOf raw ct"
proof (cases "parseVal raw ct")
  case (Inr v)
  have "typedVal ct v" using parseVal_typed[OF Inr] .
  with assms Inr show ?thesis
    by (cases x; cases v) (auto simp: expectedOf_def keyOf_def conditionValueEqual_def typedVal_def)
next
  case (Inl e)
  then have "ct \<noteq> TText" by (auto simp: parseVal_def Let_def split: if_splits)
  with assms Inl show ?thesis
    by (cases x) (auto simp: expectedOf_def conditionValueEqual_def typedVal_def)
qed

text \<open>Conversely, away from NULL, the key of the literal is the key of equal values only.\<close>

lemma key_equal_value:
  assumes x: "typedVal ct x" "x \<noteq> VNil" and ct: "ct \<noteq> TFloat" and e: "expectedOf raw ct \<noteq> VNil"
    and k: "valueKey x = keyOf raw ct"
  shows "conditionValueEqual x (expectedOf raw ct)"
proof (cases "parseVal raw ct")
  case (Inr v)
  have v: "typedVal ct v" using parseVal_typed[OF Inr] .
  have e': "expectedOf raw ct = v" "valueKey x = valueKey v" "v \<noteq> VNil" using Inr k e by (auto simp: expectedOf_def keyOf_def)
  have b: "(if a then ''true'' else ''false'') = (if b then ''true'' else ''false'') \<longleftrightarrow> a = b" for a b by simp
  show ?thesis
    using x v e' ct unfolding e'(1) by (cases x; cases v) (simp_all add: conditionValueEqual_def typedVal_def b)
next
  case (Inl err)
  with k have key: "valueKey x = raw" by (simp add: keyOf_def)
  have False
  proof (cases x)
    case (VInt i)
    then have "ct = TInt" "- (2 ^ 63) \<le> i" "i < 2 ^ 63" "raw = FormatInt i" using x key by (auto simp: typedVal_def)
    with Inl ParseInt_FormatInt[of i] show False
      by (auto simp: parseVal_def Let_def FormatInt_trim FormatInt_not_NULL)
  next
    case (VStr s)
    with x Inl show False by (auto simp: typedVal_def parseVal_def Let_def split: if_splits)
  next
    case (VBool b)
    have "parseVal ''true'' TBool = Inr (VBool True)" "parseVal ''false'' TBool = Inr (VBool False)" by code_simp+
    with VBool x key Inl show False by (cases b) (auto simp: typedVal_def)
  qed (use x ct in \<open>auto simp: typedVal_def\<close>)
  then show ?thesis ..
qed

end
