(* ===== verification/Group.thy ===== *)
theory Group
  imports Equality
begin

text \<open>
  Aggregates: \<^verbatim>\<open>aggregateResult\<close> and \<^verbatim>\<open>countIndexEquality\<close> of \<^verbatim>\<open>internal/engine/select.go\<close>, and GROUP BY
  (\<^verbatim>\<open>internal/engine/group.go\<close>).

  A group keeps one cell per aggregate of the select list (the code keeps three parallel slices). The Go
  map from group keys to accumulators and the slice of accumulators in first-seen order are one
  association list: a new key goes to its end, and a known key keeps its place.
\<close>

declare map_of_eq_Some_iff [simp del] Some_eq_map_of_iff [simp del]

section \<open>Aggregates over a whole table (select.go)\<close>

definition isAggregate :: "string \<Rightarrow> bool" where
  "isAggregate expression \<longleftrightarrow>
     (let trimmed = TrimSpace expression in
      hasPrefixFold trimmed ''COUNT('' \<or> hasPrefixFold trimmed ''SUM('' \<or> hasPrefixFold trimmed ''MIN('' \<or>
      hasPrefixFold trimmed ''MAX('' \<or> hasPrefixFold trimmed ''AVG('')"

record aggState =
  agCount :: int
  agTotal :: float64
  agMin :: goval
  agMax :: goval

definition aggInit :: aggState where
  "aggInit = \<lparr>agCount = 0, agTotal = FFin False 0 (- 1074), agMin = VNil, agMax = VNil\<rparr>"

definition aggStep :: "string \<Rightarrow> bool \<Rightarrow> string \<Rightarrow> goval \<Rightarrow> aggState \<Rightarrow> aggState res" where
  "aggStep trimmed isCountStar aggName v st =
     (if isCountStar then Inr (st\<lparr>agCount := agCount st + 1\<rparr>)
      else if v = VNil then Inr st
      else
        let st = st\<lparr>agCount := agCount st + 1\<rparr> in
        if hasPrefixFold trimmed ''SUM('' \<or> hasPrefixFold trimmed ''AVG('' then
          (case numeric v of
             None \<Rightarrow> Inl (Msg (aggName @ '' requires numeric values''))
           | Some x \<Rightarrow> Inr (st\<lparr>agTotal := fAdd (agTotal st) x\<rparr>))
        else if hasPrefixFold trimmed ''MIN('' then
          Inr (if agMin st = VNil \<or> valueLess v (agMin st) then st\<lparr>agMin := v\<rparr> else st)
        else if hasPrefixFold trimmed ''MAX('' then
          Inr (if agMax st = VNil \<or> valueLess (agMax st) v then st\<lparr>agMax := v\<rparr> else st)
        else Inr st)"

definition aggValue :: "string \<Rightarrow> aggState \<Rightarrow> goval res" where
  "aggValue trimmed st =
     (if hasPrefixFold trimmed ''SUM('' then Inr (VFloat (agTotal st))
      else if hasPrefixFold trimmed ''AVG('' then
        Inr (if agCount st = 0 then VNil else VFloat (fDiv (agTotal st) (fOfInt (agCount st))))
      else if hasPrefixFold trimmed ''MIN('' then Inr (agMin st)
      else if hasPrefixFold trimmed ''MAX('' then Inr (agMax st)
      else if \<not> hasPrefixFold trimmed ''COUNT('' then Inl (Msg ''unsupported aggregate'')
      else Inr (VGoInt (agCount st)))"

text \<open>
  Whether a candidate of an index bucket matches: by the fast array where the row is in it, else by the
  row map, else (no resolved term) by the compiled condition. The SELECT path reads \<^verbatim>\<open>t.fast[fi]\<close>
  without the bounds check of the COUNT path; positions are in bounds on every well-formed table.
\<close>

definition indexHit :: "table \<Rightarrow> string \<Rightarrow> fastTerm option \<Rightarrow> compiledCondition \<Rightarrow> string \<Rightarrow> bool" where
  "indexHit t column term compiled key =
     (case term of
        Some tm \<Rightarrow>
          (case mget (fastPos t) key of
             Some fi \<Rightarrow>
               if fi < length (fast t) \<and> fkey (fast t ! fi) \<noteq> [] then matchFastTerm (fvalues (fast t ! fi)) tm
               else (case mget (Rows t) key of
                       None \<Rightarrow> False | Some row \<Rightarrow> conditionValueEqual (rget row column) (ftExpected tm))
           | None \<Rightarrow>
               (case mget (Rows t) key of
                  None \<Rightarrow> False | Some row \<Rightarrow> conditionValueEqual (rget row column) (ftExpected tm)))
      | None \<Rightarrow> (case mget (Rows t) key of None \<Rightarrow> False | Some row \<Rightarrow> matchesMap compiled row))"

definition countIndexEquality ::
  "ctx \<Rightarrow> string \<Rightarrow> string \<Rightarrow> fastTerm option \<Rightarrow> compiledCondition \<Rightarrow> table \<Rightarrow> int res" where
  "countIndexEquality ctx column val term compiled t =
     scanRows (scan ctx) 0 Some (indexHit t column term compiled) (\<lambda>_ n. Inr (n + 1)) (\<lambda>_. False) (bucketOf t column val) 0"

definition fastCondition :: "string \<Rightarrow> fastTerm option \<Rightarrow> compiledCondition \<Rightarrow> table \<Rightarrow> goval list \<Rightarrow> bool" where
  "fastCondition wh term compiled t vals \<longleftrightarrow>
     wh = [] \<or> (case term of Some tm \<Rightarrow> matchFastTerm vals tm | None \<Rightarrow> matchesFast compiled vals (colpos t))"

definition slowCondition :: "string \<Rightarrow> compiledCondition \<Rightarrow> row \<Rightarrow> bool" where
  "slowCondition wh compiled row \<longleftrightarrow> wh = [] \<or> matchesMap compiled row"

definition oneValue :: "string \<Rightarrow> goval \<Rightarrow> result" where
  "oneValue name v = rowsResult [name] [[v]]"

definition aggregateScan :: "ctx \<Rightarrow> table \<Rightarrow> string \<Rightarrow> bool \<Rightarrow> string \<Rightarrow> string \<Rightarrow> string \<Rightarrow> compiledCondition \<Rightarrow> aggState res" where
  "aggregateScan ctx t trimmed isCountStar aggName column wh compiled =
     (if fast t \<noteq> [] then
        (case mget (colpos t) column of
           None \<Rightarrow>
             if column \<noteq> ''*'' then Inl (Msg ''column not found'')
             else scanRows (scan ctx) 0 viewFast (\<lambda>r. fastCondition wh (simpleFastTerm wh t) compiled t (fvalues r))
                    (\<lambda>r. aggStep trimmed isCountStar aggName VNil) (\<lambda>_. False) (fast t) aggInit
         | Some ci \<Rightarrow>
             scanRows (scan ctx) 0 viewFast (\<lambda>r. fastCondition wh (simpleFastTerm wh t) compiled t (fvalues r))
               (\<lambda>r. aggStep trimmed isCountStar aggName (fvalues r ! ci)) (\<lambda>_. False) (fast t) aggInit)
      else
        scanRows (scan ctx) 0 (viewOrder t) (\<lambda>(key, row). slowCondition wh compiled row)
          (\<lambda>(key, row). aggStep trimmed isCountStar aggName (rget row column)) (\<lambda>_. False) (Order t) aggInit)"

definition aggregateResult :: "ctx \<Rightarrow> table \<Rightarrow> string \<Rightarrow> string \<Rightarrow> result res" where
  "aggregateResult ctx t expression wh =
     (let trimmed = TrimSpace expression; aggName = ToLower trimmed in
      case (IndexByte expression (CHR ''(''), LastIndexByte expression (CHR '')'')) of
        (Some open, Some close) \<Rightarrow>
          if close \<le> open then Inl (Msg ''invalid aggregate'')
          else
            let column = ToLower (TrimSpace (take (close - (open + 1)) (drop (open + 1) expression)));
                isCountStar = (hasPrefixFold trimmed ''COUNT('' \<and> column = ''*'')
            in if column = ''*'' \<and> \<not> isCountStar then Inl (Msg ''invalid aggregate: only COUNT(*) supports *'')
               else if column \<noteq> ''*'' \<and> \<not> hasColumn (Columns t) column then Inl (Msg (''column not found: '' @ column))
               else case compileCondition wh (Columns t) of
                 None \<Rightarrow> Inl (Msg ''invalid WHERE expression'')
               | Some compiled \<Rightarrow>
                   if isCountStar \<and> wh = [] then Inr (oneValue aggName (VGoInt (int (length (Rows t)))))
                   else
                     let general = rbind (aggregateScan ctx t trimmed isCountStar aggName column wh compiled)
                           (\<lambda>st. map_sum id (oneValue aggName) (aggValue trimmed st))
                     in case (if isCountStar then simpleEquality wh else None) of
                          None \<Rightarrow> general
                        | Some (simpleColumn, raw) \<Rightarrow>
                            let simpleValue = equalityKey t simpleColumn raw in
                            if simpleColumn = primaryColumn t then
                              Inr (oneValue aggName (VGoInt (if mhas (Rows t) simpleValue then 1 else 0)))
                            else if mhas (Indexes t) simpleColumn then
                              map_sum id (\<lambda>n. oneValue aggName (VGoInt n))
                                (countIndexEquality ctx simpleColumn simpleValue (simpleFastTerm wh t) compiled t)
                            else general
      | _ \<Rightarrow> Inl (Msg ''invalid aggregate''))"

section \<open>GROUP BY (group.go)\<close>

datatype aggKind = aggCount | aggSum | aggMin | aggMax | aggAvg

text \<open>\<open>giKind\<close> is None for a plain grouping column, \<open>giArgIdx\<close> is None for \<^verbatim>\<open>*\<close>.\<close>

record groupItem =
  giName :: string
  giKind :: "aggKind option"
  giArg :: string
  giArgIdx :: "nat option"

record aggCell =
  acCount :: int
  acTotal :: float64
  acExt :: goval

record groupAccum =
  gaVals :: "goval list"
  gaCells :: "aggCell list"

definition parseAggExpr :: "string \<Rightarrow> (aggKind \<times> string) option" where
  "parseAggExpr item =
     (case IndexByte item (CHR ''('') of
        None \<Rightarrow> None
      | Some open \<Rightarrow>
          if \<not> HasSuffix (TrimSpace item) '')'' then None
          else
            let fn = ToUpper (TrimSpace (take open item)) in
            case (if fn = ''COUNT'' then Some aggCount else if fn = ''SUM'' then Some aggSum
                  else if fn = ''MIN'' then Some aggMin else if fn = ''MAX'' then Some aggMax
                  else if fn = ''AVG'' then Some aggAvg else None) of
              None \<Rightarrow> None
            | Some kind \<Rightarrow>
                let arg = ToLower (TrimSpace (take (length item - 1 - (open + 1)) (drop (open + 1) item))) in
                if arg = [] \<or> arg = ''*'' \<and> kind \<noteq> aggCount then None else Some (kind, arg))"

fun splitSelectLoop :: "int \<Rightarrow> bool \<Rightarrow> string \<Rightarrow> string \<Rightarrow> string list" where
  "splitSelectLoop depth q cur [] = [TrimSpace cur]"
| "splitSelectLoop depth q cur (c # cs) =
     (if c = quoteChar then
        (case cs of
           d # ds \<Rightarrow>
             if q \<and> d = quoteChar then splitSelectLoop depth q (cur @ [c, d]) ds
             else splitSelectLoop depth (\<not> q) (cur @ [c]) cs
         | [] \<Rightarrow> splitSelectLoop depth (\<not> q) (cur @ [c]) cs)
      else if q then splitSelectLoop depth q (cur @ [c]) cs
      else if c = CHR ''('' then splitSelectLoop (depth + 1) q (cur @ [c]) cs
      else if c = CHR '')'' then splitSelectLoop (depth - 1) q (cur @ [c]) cs
      else if c = CHR '','' \<and> depth = 0 then TrimSpace cur # splitSelectLoop depth q [] cs
      else splitSelectLoop depth q (cur @ [c]) cs)"

definition splitSelectList :: "string \<Rightarrow> string list" where
  "splitSelectList s = splitSelectLoop 0 False [] s"

definition groupItemOf :: "(string, nat) gomap \<Rightarrow> string list \<Rightarrow> string \<Rightarrow> groupItem res" where
  "groupItemOf colIndex groupBy part =
     (let p = TrimSpace part in
      if p = [] then Inl (Msg ''invalid select list'')
      else case parseAggExpr p of
        Some (kind, arg) \<Rightarrow>
          if arg = ''*'' then Inr \<lparr>giName = ToLower p, giKind = Some kind, giArg = arg, giArgIdx = None\<rparr>
          else (case mget colIndex arg of
                  None \<Rightarrow> Inl (Msg (''column not found: '' @ arg))
                | Some i \<Rightarrow> Inr \<lparr>giName = ToLower p, giKind = Some kind, giArg = arg, giArgIdx = Some i\<rparr>)
      | None \<Rightarrow>
          if ToLower p \<notin> set groupBy then Inl (Msg (''column must appear in GROUP BY: '' @ ToLower p))
          else Inr \<lparr>giName = ToLower p, giKind = None, giArg = ToLower p, giArgIdx = None\<rparr>)"

fun mapR :: "('a \<Rightarrow> 'b res) \<Rightarrow> 'a list \<Rightarrow> 'b list res" where
  "mapR f [] = Inr []"
| "mapR f (x # xs) = (case f x of Inl e \<Rightarrow> Inl e | Inr y \<Rightarrow> map_sum id ((#) y) (mapR f xs))"

text \<open>The items that are aggregates, in order: \<^verbatim>\<open>aggIdxs\<close>.\<close>

definition aggItems :: "groupItem list \<Rightarrow> groupItem list" where
  "aggItems items = filter (\<lambda>it. giKind it \<noteq> None) items"

definition newCell :: aggCell where
  "newCell = \<lparr>acCount = 0, acTotal = FFin False 0 (- 1074), acExt = VNil\<rparr>"

definition accumulateCell :: "groupItem \<Rightarrow> (nat \<Rightarrow> goval) \<Rightarrow> aggCell \<Rightarrow> aggCell res" where
  "accumulateCell it val cell =
     (let v = (case giArgIdx it of Some i \<Rightarrow> val i | None \<Rightarrow> VNil) in
      case giKind it of
        Some aggCount \<Rightarrow> Inr (if giArgIdx it = None \<or> v \<noteq> VNil then cell\<lparr>acCount := acCount cell + 1\<rparr> else cell)
      | Some aggMin \<Rightarrow> Inr (if v \<noteq> VNil \<and> (acExt cell = VNil \<or> valueLess v (acExt cell)) then cell\<lparr>acExt := v\<rparr> else cell)
      | Some aggMax \<Rightarrow> Inr (if v \<noteq> VNil \<and> (acExt cell = VNil \<or> valueLess (acExt cell) v) then cell\<lparr>acExt := v\<rparr> else cell)
      | _ \<Rightarrow>
          if v = VNil then Inr cell
          else (case numeric v of
                  None \<Rightarrow> Inl (Msg (giName it @ '' requires numeric values''))
                | Some n \<Rightarrow> Inr (cell\<lparr>acCount := acCount cell + 1, acTotal := fAdd (acTotal cell) n\<rparr>)))"

fun accumulateCells :: "groupItem list \<Rightarrow> (nat \<Rightarrow> goval) \<Rightarrow> aggCell list \<Rightarrow> aggCell list res" where
  "accumulateCells (it # its) val (cell # cells) =
     (case accumulateCell it val cell of
        Inl e \<Rightarrow> Inl e
      | Inr cell' \<Rightarrow> map_sum id ((#) cell') (accumulateCells its val cells))"
| "accumulateCells _ val cells = Inr cells"

definition accumulate ::
  "groupItem list \<Rightarrow> goval list \<Rightarrow> (nat \<Rightarrow> goval) \<Rightarrow> (string, groupAccum) gomap \<Rightarrow> (string, groupAccum) gomap res" where
  "accumulate aggs gvals val groups =
     (let key = rowProjectionKey gvals;
          g = (case mget groups key of
                 Some g \<Rightarrow> g
               | None \<Rightarrow> \<lparr>gaVals = gvals, gaCells = replicate (length aggs) newCell\<rparr>)
      in map_sum id (\<lambda>cells. mset_at groups key (g\<lparr>gaCells := cells\<rparr>)) (accumulateCells aggs val (gaCells g)))"

definition cellValue :: "groupItem \<Rightarrow> aggCell \<Rightarrow> goval" where
  "cellValue it cell =
     (case giKind it of
        Some aggCount \<Rightarrow> VGoInt (acCount cell)
      | Some aggSum \<Rightarrow> VFloat (acTotal cell)
      | Some aggAvg \<Rightarrow> (if acCount cell > 0 then VFloat (fDiv (acTotal cell) (fOfInt (acCount cell))) else VNil)
      | Some _ \<Rightarrow> acExt cell
      | None \<Rightarrow> VNil)"

definition synthColumns :: "table \<Rightarrow> (string, nat) gomap \<Rightarrow> string list \<Rightarrow> groupItem list \<Rightarrow> column list" where
  "synthColumns t colIndex groupBy aggs =
     map (\<lambda>g. \<lparr>cName = g, cType = (case mget colIndex g of Some i \<Rightarrow> cType (Columns t ! i) | None \<Rightarrow> TOther []), cPrimary = False\<rparr>) groupBy @
     map (\<lambda>it. \<lparr>cName = giName it,
            cType = (case giKind it of
                       Some aggCount \<Rightarrow> TInt
                     | Some aggMin \<Rightarrow> (case giArgIdx it of Some i \<Rightarrow> cType (Columns t ! i) | None \<Rightarrow> TFloat)
                     | Some aggMax \<Rightarrow> (case giArgIdx it of Some i \<Rightarrow> cType (Columns t ! i) | None \<Rightarrow> TFloat)
                     | _ \<Rightarrow> TFloat), cPrimary = False\<rparr>) aggs"

record outRow =
  orEval :: row
  orLine :: "goval list"
  orSeq :: nat

definition evalRow :: "string list \<Rightarrow> groupItem list \<Rightarrow> groupAccum \<Rightarrow> row" where
  "evalRow groupBy aggs g =
     fold (\<lambda>(it, cell) m. mset_at m (giName it) (cellValue it cell)) (zip aggs (gaCells g))
       (fold (\<lambda>(gc, v) m. mset_at m gc v) (zip groupBy (gaVals g)) [])"

definition groupLine :: "groupItem list \<Rightarrow> row \<Rightarrow> goval list" where
  "groupLine items eval = map (\<lambda>it. rget eval (if giKind it \<noteq> None then giName it else giArg it)) items"

fun groupRows ::
  "string list \<Rightarrow> groupItem list \<Rightarrow> compiledCondition option \<Rightarrow> nat \<Rightarrow> groupAccum list \<Rightarrow> outRow list" where
  "groupRows groupBy items having seq [] = []"
| "groupRows groupBy items having seq (g # gs) =
     (if (case having of None \<Rightarrow> False | Some h \<Rightarrow> \<not> matchesMap h (evalRow groupBy (aggItems items) g))
      then groupRows groupBy items having (Suc seq) gs
      else \<lparr>orEval = evalRow groupBy (aggItems items) g,
            orLine = groupLine items (evalRow groupBy (aggItems items) g), orSeq = seq\<rparr> #
           groupRows groupBy items having (Suc seq) gs)"

definition groupBefore :: "string \<Rightarrow> bool \<Rightarrow> outRow \<Rightarrow> outRow \<Rightarrow> bool" where
  "groupBefore column descending x y =
     (let a = rget (orEval x) column; b = rget (orEval y) column in
      if valueLess a b then \<not> descending else if valueLess b a then descending else orSeq x < orSeq y)"

fun distinctLines :: "bool \<Rightarrow> string list \<Rightarrow> goval list list \<Rightarrow> goval list list" where
  "distinctLines dst seen [] = []"
| "distinctLines dst seen (l # ls) =
     (if dst then
        (if rowProjectionKey l \<in> set seen then distinctLines dst seen ls
         else l # distinctLines dst (sadd seen (rowProjectionKey l)) ls)
      else l # distinctLines dst seen ls)"

definition groupScan ::
  "ctx \<Rightarrow> table \<Rightarrow> selectTail \<Rightarrow> nat list \<Rightarrow> groupItem list \<Rightarrow> compiledCondition \<Rightarrow> (string, groupAccum) gomap res" where
  "groupScan ctx t tail gIdx aggs compiled =
     (if fast t \<noteq> [] then
        scanRows (scan ctx) 0 viewFast (\<lambda>r. stWhere tail = [] \<or> matchesFast compiled (fvalues r) (colpos t))
          (\<lambda>r. accumulate aggs (map ((!) (fvalues r)) gIdx) ((!) (fvalues r))) (\<lambda>_. False) (fast t) []
      else
        scanRows (scan ctx) 0 (viewOrder t) (\<lambda>(key, row). stWhere tail = [] \<or> matchesMap compiled row)
          (\<lambda>(key, row). accumulate aggs (map (rget row) (stGroup tail)) (\<lambda>i. rget row (cName (Columns t ! i))))
          (\<lambda>_. False) (Order t) [])"

definition groupOutput :: "table \<Rightarrow> (string, nat) gomap \<Rightarrow> groupItem list \<Rightarrow> selectTail \<Rightarrow> bool \<Rightarrow> int \<Rightarrow> groupAccum list \<Rightarrow> result res" where
  "groupOutput t colIndex items tail dst maxRows gs =
     (let aggs = aggItems items; synth = synthColumns t colIndex (stGroup tail) aggs in
      rbind (if stHaving tail = [] then Inr None
             else case compileCondition (stHaving tail) synth of
               None \<Rightarrow> Inl (Msg ''invalid HAVING expression'') | Some h \<Rightarrow> Inr (Some h)) (\<lambda>having.
        let out = groupRows (stGroup tail) items having 0 gs in
        if stOrder tail \<noteq> [] \<and> \<not> hasColumn synth (stOrder tail) then
          Inl (Msg (''ORDER BY column not found: '' @ stOrder tail))
        else
          let out = (if stOrder tail \<noteq> [] then sortSlice (groupBefore (stOrder tail) (stDesc tail)) out else out);
              rows = applyOffset (stOffset tail) (distinctLines dst [] (map orLine out));
              rows = (if stLimit tail \<ge> 0 \<and> int (length rows) > stLimit tail then take (nat (stLimit tail)) rows else rows)
          in capResultRows (rowsResult (map giName items) rows) maxRows))"

definition groupedResult :: "ctx \<Rightarrow> table \<Rightarrow> string \<Rightarrow> selectTail \<Rightarrow> bool \<Rightarrow> int \<Rightarrow> result res" where
  "groupedResult ctx t selectExpr tail dst maxRows =
     (let colIndex = columnIndexes 0 (Columns t) [] in
      rbind (mapR (\<lambda>g. case mget colIndex g of None \<Rightarrow> Inl (Msg (''column not found: '' @ g)) | Some i \<Rightarrow> Inr i) (stGroup tail)) (\<lambda>gIdx.
      rbind (mapR (groupItemOf colIndex (stGroup tail)) (splitSelectList selectExpr)) (\<lambda>items.
      case compileCondition (stWhere tail) (Columns t) of
        None \<Rightarrow> Inl (Msg ''invalid WHERE expression'')
      | Some compiled \<Rightarrow>
          rbind (groupScan ctx t tail gIdx (aggItems items) compiled) (\<lambda>groups.
            groupOutput t colIndex items tail dst maxRows (map snd groups)))))"

section \<open>Facts\<close>

lemma distinctLines_dedup: "distinctLines dst seen ls = dedupIf dst rowProjectionKey seen ls"
  by (induction ls arbitrary: seen) (auto simp: dedupIf_def)

end
