(* ===== verification/Select.thy ===== *)
theory Select
  imports Group
begin

text \<open>
  SELECT (\<^verbatim>\<open>selectRows\<close> of \<^verbatim>\<open>internal/engine/select.go\<close>). After parsing there are four ways to
  find the rows: a lookup of the primary key (\<open>selectByKey\<close>), a scan of the fast array
  (\<open>selectFastScan\<close>), the bucket of a secondary index (\<open>indexKeys\<close>) and a scan of the row order
  (\<open>orderScanKeys\<close>); the last two collect keys, sort them when there is an ORDER BY, and read the rows
  at the end (\<open>materialize\<close>).

  Where the code returns a result together with the \<^verbatim>\<open>ErrResultTooLarge\<close> error, the model keeps the error.
\<close>

declare map_of_eq_Some_iff [simp del] Some_eq_map_of_iff [simp del]

section \<open>Collecting rows\<close>

definition addLine :: "bool \<Rightarrow> goval list \<Rightarrow> string list \<times> goval list list \<Rightarrow> string list \<times> goval list list" where
  "addLine dst line sr =
     (case sr of (seen, rows) \<Rightarrow>
        if dst then
          (if rowProjectionKey line \<in> set seen then (seen, rows)
           else (sadd seen (rowProjectionKey line), rows @ [line]))
        else (seen, rows @ [line]))"

definition projectedKey :: "table \<Rightarrow> string list \<Rightarrow> string \<Rightarrow> string option" where
  "projectedKey t names key =
     (case mget (fastPos t) key of
        Some fi \<Rightarrow>
          if fi < length (fast t) \<and> fkey (fast t ! fi) \<noteq> []
          then Some (rowProjectionKey (selectedFastValues (fast t ! fi) names (colpos t)))
          else map_option (\<lambda>row. rowProjectionKey (selectedValues row names)) (mget (Rows t) key)
      | None \<Rightarrow> map_option (\<lambda>row. rowProjectionKey (selectedValues row names)) (mget (Rows t) key))"

text \<open>\<^verbatim>\<open>!dedupKey(key)\<close> and the append that follows: the keys seen and the keys kept.\<close>

definition addKey :: "bool \<Rightarrow> table \<Rightarrow> string list \<Rightarrow> string \<Rightarrow> string list \<times> string list \<Rightarrow> string list \<times> string list" where
  "addKey dst t names key sk =
     (case sk of (seen, keys) \<Rightarrow>
        if \<not> dst then (seen, keys @ [key])
        else case projectedKey t names key of
          None \<Rightarrow> (seen, keys @ [key])
        | Some pk \<Rightarrow> if pk \<in> set seen then (seen, keys) else (sadd seen pk, keys @ [key]))"

section \<open>Lookup of the primary key\<close>

definition limitOffset :: "int \<Rightarrow> int \<Rightarrow> goval list list \<Rightarrow> goval list list" where
  "limitOffset limit offset rows = applyOffset offset (if limit = 0 then [] else rows)"

definition selectByKey :: "table \<Rightarrow> string list \<Rightarrow> string \<Rightarrow> int \<Rightarrow> int \<Rightarrow> result" where
  "selectByKey t names simpleValue limit offset =
     (case mget (fastPos t) simpleValue of
        Some rowIndex \<Rightarrow>
          rowsResult names (limitOffset limit offset
            (if rowIndex < length (fast t) \<and> fkey (fast t ! rowIndex) \<noteq> []
             then [selectedFastValues (fast t ! rowIndex) names (colpos t)] else []))
      | None \<Rightarrow>
          rowsResult names (limitOffset limit offset
            (case mget (Rows t) simpleValue of Some row \<Rightarrow> [selectedValues row names] | None \<Rightarrow> [])))"

section \<open>Scan of the fast array\<close>

text \<open>
  The loop over \<^verbatim>\<open>t.fast\<close>: with a resolved bare equality it compares one value per row, in one loop per
  type (\<open>matchFastTerm\<close>); otherwise it evaluates the compiled condition.
\<close>

definition selectFastScan ::
  "ctx \<Rightarrow> table \<Rightarrow> string list \<Rightarrow> bool \<Rightarrow> string \<Rightarrow> fastTerm option \<Rightarrow> compiledCondition \<Rightarrow> int \<Rightarrow> int \<Rightarrow> int \<Rightarrow> int \<Rightarrow> result res" where
  "selectFastScan ctx t names dst wh term compiled limit offset rowCap maxRows =
     (if limit = 0 then Inr (rowsResult names [])
      else
        rbind (scanRows (scan ctx) 0 viewFast
            (\<lambda>r. case term of
                Some tm \<Rightarrow> matchFastTerm (fvalues r) tm
              | None \<Rightarrow> wh = [] \<or> matchesFast compiled (fvalues r) (colpos t))
            (\<lambda>r sr. Inr (addLine dst (selectedFastValues r names (colpos t)) sr))
            (\<lambda>(seen, rows). capReached rowCap rows) (fast t) ([], []))
          (\<lambda>(seen, rows). capResultRows (rowsResult names (applyOffset offset rows)) maxRows))"

section \<open>Collecting keys\<close>

text \<open>
  The loop over an index bucket. Without ORDER BY it checks the cap after the poll and before the
  candidate, so a cap of zero collects nothing.
\<close>

fun indexKeysLoop ::
  "(nat \<Rightarrow> error option) \<Rightarrow> nat \<Rightarrow> bool \<Rightarrow> int \<Rightarrow> (string \<Rightarrow> bool) \<Rightarrow> (string \<Rightarrow> string list \<times> string list \<Rightarrow> string list \<times> string list) \<Rightarrow>
   string list \<Rightarrow> string list \<times> string list \<Rightarrow> string list res" where
  "indexKeysLoop c i ordered rowCap hit add [] sk = Inr (snd sk)"
| "indexKeysLoop c i ordered rowCap hit add (key # keys) sk =
     (case tick c (Suc i) of
        Some e \<Rightarrow> Inl e
      | None \<Rightarrow>
          if \<not> ordered \<and> capReached rowCap (snd sk) then Inr (snd sk)
          else indexKeysLoop c (Suc i) ordered rowCap hit add keys (if hit key then add key sk else sk))"

definition indexKeys ::
  "ctx \<Rightarrow> table \<Rightarrow> string list \<Rightarrow> bool \<Rightarrow> bool \<Rightarrow> string \<Rightarrow> string \<Rightarrow> fastTerm option \<Rightarrow> compiledCondition \<Rightarrow> int \<Rightarrow> string list res" where
  "indexKeys ctx t names dst ordered column val term compiled rowCap =
     indexKeysLoop (scan ctx) 0 ordered rowCap (indexHit t column term compiled) (addKey dst t names)
       (bucketOf t column val) ([], [])"

definition orderScanKeys ::
  "ctx \<Rightarrow> table \<Rightarrow> string list \<Rightarrow> bool \<Rightarrow> bool \<Rightarrow> string \<Rightarrow> compiledCondition \<Rightarrow> int \<Rightarrow> string list res" where
  "orderScanKeys ctx t names dst ordered wh compiled rowCap =
     map_sum id snd (scanRows (scan ctx) 0 (viewOrder t) (\<lambda>(key, row). slowCondition wh compiled row)
       (\<lambda>(key, row) sk. Inr (addKey dst t names key sk))
       (\<lambda>(seen, keys). \<not> ordered \<and> capReached rowCap keys) (Order t) ([], []))"

section \<open>Reading the rows\<close>

definition lineOf :: "table \<Rightarrow> string list \<Rightarrow> string \<Rightarrow> goval list" where
  "lineOf t names key =
     (if fast t \<noteq> [] then
        (case mget (fastPos t) key of
           Some fi \<Rightarrow>
             if fi < length (fast t) \<and> fkey (fast t ! fi) \<noteq> [] then selectedFastValues (fast t ! fi) names (colpos t)
             else selectedValues (rowAt t key) names
         | None \<Rightarrow> selectedValues (rowAt t key) names)
      else selectedValues (rowAt t key) names)"

fun materialize :: "table \<Rightarrow> string list \<Rightarrow> int \<Rightarrow> string list \<Rightarrow> goval list list \<Rightarrow> goval list list" where
  "materialize t names rowCap [] rows = rows"
| "materialize t names rowCap (key # keys) rows =
     (if capReached rowCap (rows @ [lineOf t names key]) then rows @ [lineOf t names key]
      else materialize t names rowCap keys (rows @ [lineOf t names key]))"

definition selectKeys ::
  "ctx \<Rightarrow> table \<Rightarrow> string list \<Rightarrow> bool \<Rightarrow> selectTail \<Rightarrow> int \<Rightarrow> int \<Rightarrow> string list res \<Rightarrow> result res" where
  "selectKeys ctx t names dst tail rowCap maxRows collected =
     rbind collected (\<lambda>keys.
     rbind (if stOrder tail \<noteq> [] then
              (case sorting ctx of
                 Some e \<Rightarrow> Inl e
               | None \<Rightarrow> orderKeys t keys (stOrder tail) (stDesc tail) (if dst then - 1 else rowCap))
            else Inr keys) (\<lambda>keys.
     let keys = (if \<not> dst \<and> rowCap \<ge> 0 \<and> int (length keys) > rowCap then take (nat rowCap) keys else keys) in
     capResultRows (rowsResult names (applyOffset (stOffset tail) (materialize t names rowCap keys []))) maxRows))"

section \<open>The statement\<close>

definition selectScan :: "ctx \<Rightarrow> table \<Rightarrow> string list \<Rightarrow> bool \<Rightarrow> selectTail \<Rightarrow> int \<Rightarrow> int \<Rightarrow> (string \<times> string) option \<Rightarrow> result res" where
  "selectScan ctx t names dst tail maxRows rowCap simple =
     (let wh = stWhere tail; ordered = (stOrder tail \<noteq> []);
          term = (if fast t \<noteq> [] then simpleFastTerm wh t else None)
      in rbind (if wh \<noteq> [] \<and> (term = None \<or> ordered)
                then (case compileCondition wh (Columns t) of None \<Rightarrow> Inl invalidWhere | Some c \<Rightarrow> Inr c)
                else Inr []) (\<lambda>compiled.
         case (case simple of Some (column, val) \<Rightarrow> if mhas (Indexes t) column then simple else None | None \<Rightarrow> None) of
           Some (column, val) \<Rightarrow>
             selectKeys ctx t names dst tail rowCap maxRows
               (indexKeys ctx t names dst ordered column val term compiled rowCap)
         | None \<Rightarrow>
             if fast t \<noteq> [] \<and> \<not> ordered then
               selectFastScan ctx t names dst wh term compiled (stLimit tail) (stOffset tail) rowCap maxRows
             else
               selectKeys ctx t names dst tail rowCap maxRows (orderScanKeys ctx t names dst ordered wh compiled rowCap)))"

definition selectPlain :: "ctx \<Rightarrow> table \<Rightarrow> string list \<Rightarrow> bool \<Rightarrow> selectTail \<Rightarrow> int \<Rightarrow> result res" where
  "selectPlain ctx t names dst tail maxRows =
     (let rowCap = rowCapOf (stLimit tail) (stOffset tail) maxRows;
          simple = map_option (\<lambda>(c, raw). (c, equalityKey t c raw)) (simpleEquality (stWhere tail))
      in case simple of
           Some (c, key) \<Rightarrow>
             if c = primaryColumn t then Inr (selectByKey t names key (stLimit tail) (stOffset tail))
             else selectScan ctx t names dst tail maxRows rowCap simple
         | None \<Rightarrow> selectScan ctx t names dst tail maxRows rowCap simple)"

definition selectNames :: "table \<Rightarrow> string \<Rightarrow> string list" where
  "selectNames t selectExpr =
     (if selectExpr = ''*'' then map cName (Columns t)
      else map (\<lambda>x. ToLower (TrimSpace x)) (splitByte (CHR '','') selectExpr))"

fun missingColumn :: "column list \<Rightarrow> string list \<Rightarrow> string option" where
  "missingColumn cols [] = None"
| "missingColumn cols (n # ns) = (if hasColumn cols n then missingColumn cols ns else Some n)"

definition selectFrom :: "ctx \<Rightarrow> table \<Rightarrow> string \<Rightarrow> bool \<Rightarrow> string \<Rightarrow> int \<Rightarrow> result res" where
  "selectFrom ctx t selectExpr dst rest maxRows =
     (let names = selectNames t selectExpr in
      rbind (parseSelectTail rest) (\<lambda>tail.
        if length (Fields (take (stHeadEnd tail) rest)) \<noteq> 1 then Inl (Msg ''invalid FROM clause'')
        else if stGroup tail \<noteq> [] then groupedResult ctx t selectExpr tail dst maxRows
        else if stOrder tail \<noteq> [] \<and> \<not> hasColumn (Columns t) (stOrder tail) then
          Inl (Msg (''ORDER BY column not found: '' @ stOrder tail))
        else if isAggregate selectExpr then
          map_sum id (\<lambda>r. if stLimit tail = 0 \<or> stOffset tail > 0 then r\<lparr>resRows := []\<rparr> else r)
            (aggregateResult ctx t selectExpr (stWhere tail))
        else case missingColumn (Columns t) names of
          Some n \<Rightarrow> Inl (Msg (''column not found: '' @ n))
        | None \<Rightarrow> selectPlain ctx t names dst tail maxRows))"

definition distinctPrefix :: "string \<Rightarrow> bool" where
  "distinctPrefix selectExpr = blankAfter selectExpr ''DISTINCT''"

definition selectRows :: "ctx \<Rightarrow> string \<Rightarrow> int \<Rightarrow> database \<Rightarrow> result res" where
  "selectRows ctx s maxRows d =
     (case indexKeyword s ''FROM'' of
        None \<Rightarrow> Inl (Msg ''SELECT requires FROM'')
      | Some fi \<Rightarrow>
          let rest = TrimSpace (drop (fi + 4) s) in
          case firstField rest of
            None \<Rightarrow> Inl (Msg ''table required'')
          | Some tableName \<Rightarrow>
              rbind (table_lookup d tableName) (\<lambda>t.
              rbind (clauseText s 6 fi) (\<lambda>selectExpr.
              if distinctPrefix selectExpr then
                (let selectExpr = TrimSpace (drop 8 selectExpr) in
                 if selectExpr = [] then Inl (Msg ''SELECT DISTINCT requires columns'')
                 else selectFrom ctx t selectExpr True rest maxRows)
              else selectFrom ctx t selectExpr False rest maxRows)))"

section \<open>SELECT against its specification\<close>

text \<open>
  The rows of a SELECT, without indexes, fast arrays or heaps: the live rows that satisfy the condition,
  the first of those with equal projections under DISTINCT, stably sorted by the ORDER BY column, and of
  these the window of LIMIT and OFFSET.
\<close>

definition lineKey :: "table \<Rightarrow> string list \<Rightarrow> string \<Rightarrow> string" where
  "lineKey t names k = rowProjectionKey (selectedValues (rowAt t k) names)"

definition selectSpecKeys :: "table \<Rightarrow> string list \<Rightarrow> bool \<Rightarrow> (row \<Rightarrow> bool) \<Rightarrow> string \<Rightarrow> bool \<Rightarrow> string list" where
  "selectSpecKeys t names dst cond order desc =
     (let keys = dedupIf dst (lineKey t names) [] (filter (\<lambda>k. cond (rowAt t k)) (live t))
      in if order = [] then keys else sortSlice (valueBefore desc (\<lambda>k. rget (rowAt t k) order)) keys)"

definition selectSpec ::
  "table \<Rightarrow> string list \<Rightarrow> bool \<Rightarrow> (row \<Rightarrow> bool) \<Rightarrow> string \<Rightarrow> bool \<Rightarrow> int \<Rightarrow> int \<Rightarrow> goval list list" where
  "selectSpec t names dst cond order desc limit offset =
     window limit offset (map (\<lambda>k. selectedValues (rowAt t k) names) (selectSpecKeys t names dst cond order desc))"

text \<open>The row policy: a result with more rows than allowed is an error.\<close>

definition policed :: "int \<Rightarrow> string list \<Rightarrow> goval list list \<Rightarrow> result res" where
  "policed maxRows names rows =
     (if maxRows > 0 \<and> int (length rows) > maxRows then
        Inl (TooLarge (''result row limit exceeded: '' @ FormatInt (maxRows + 1) @
               '' rows emitted (limit '' @ FormatInt maxRows @ '')''))
      else Inr (rowsResult names rows))"

lemma rowsResult_simps [simp]: "resRows (rowsResult names rows) = rows" "resColumns (rowsResult names rows) = names"
  by (simp_all add: rowsResult_def)

lemma capResultRows_policed:
  "capResultRows (rowsResult names (if maxRows > 0 then take (nat maxRows + 1) rows else rows)) maxRows = policed maxRows names rows"
proof (cases "maxRows > 0 \<and> int (length rows) > maxRows")
  case True
  then have "length (take (nat maxRows + 1) rows) = nat maxRows + 1" by auto
  with True show ?thesis by (simp add: capResultRows_def policed_def)
next
  case False
  then have "maxRows > 0 \<Longrightarrow> take (nat maxRows + 1) rows = rows" by auto
  with False show ?thesis by (auto simp: capResultRows_def policed_def)
qed

lemma rowCapOf_nonzero: "inCaps limit offset maxRows \<Longrightarrow> limit \<noteq> 0 \<Longrightarrow> rowCapOf limit offset maxRows \<noteq> 0"
  by (auto simp: rowCapOf_def inCaps_def satAdd_def maxInt_def Let_def)

lemma takeCap_twice [simp]: "takeCap cap (takeCap cap xs) = takeCap cap xs"
  by (auto simp: takeCap_def)

lemma takeCap_map: "takeCap cap (map f xs) = map f (takeCap cap xs)"
  by (simp add: takeCap_def take_map)

lemma takeCap_neg [simp]: "takeCap (- 1) xs = xs"
  by (simp add: takeCap_def)

lemma lineOf_row:
  assumes "wf_table t" "set names \<subseteq> cName ` set (Columns t)"
  shows "lineOf t names key = selectedValues (rowAt t key) names"
proof (cases "fast t = []")
  case True
  then show ?thesis by (simp add: lineOf_def)
next
  case False
  show ?thesis
    using fast_pos_row[OF assms(1) False] selectedFastValues_row[OF assms(1) False assms(2)]
    by (auto simp: lineOf_def False split: option.splits)
qed

lemma projectedKey_row:
  assumes "wf_table t" "set names \<subseteq> cName ` set (Columns t)" "k \<in> set (live t)"
  shows "projectedKey t names k = Some (lineKey t names k)"
proof -
  have row: "mget (Rows t) k = Some (rowAt t k)" using assms(3) by (auto simp: live_def rowAt_def)
  show ?thesis
  proof (cases "fast t = []")
    case True
    with row show ?thesis by (auto simp: projectedKey_def lineKey_def split: option.splits)
  next
    case False
    show ?thesis
      using fast_pos_row[OF assms(1) False] selectedFastValues_row[OF assms(1) False assms(2)] row
      by (auto simp: projectedKey_def lineKey_def split: option.splits)
  qed
qed

lemma addKey_once:
  assumes "wf_table t" "set names \<subseteq> cName ` set (Columns t)" "k \<in> set (live t)"
  shows "addKey dst t names k s = appendOnce dst (lineKey t names) k s"
  using projectedKey_row[OF assms] by (simp add: addKey_def appendOnce_def split: prod.splits)

lemma addLine_once: "addLine dst line s = appendOnce dst rowProjectionKey line s"
  by (simp add: addLine_def appendOnce_def split: prod.splits)

lemma materialize_map:
  "cap \<noteq> 0 \<Longrightarrow> \<not> capReached cap rows \<Longrightarrow> materialize t names cap keys rows = takeCap cap (rows @ map (lineOf t names) keys)"
proof (induction keys arbitrary: rows)
  case Nil
  then show ?case by (auto simp: takeCap_def capReached_def)
next
  case (Cons k keys)
  show ?case
  proof (cases "capReached cap (rows @ [lineOf t names k])")
    case True
    then have "nat cap = Suc (length rows)" "0 \<le> cap" using Cons.prems by (auto simp: capReached_def)
    with True show ?thesis by (simp add: takeCap_take)
  next
    case False
    with Cons show ?thesis by simp
  qed
qed

lemma orderScanKeys_spec:
  assumes "wf_table t" "set names \<subseteq> cName ` set (Columns t)" "cap \<noteq> 0"
  shows "orderScanKeys background t names dst ordered wh compiled cap =
    Inr (takeCap (if ordered then - 1 else cap)
      (dedupIf dst (lineKey t names) [] (filter (\<lambda>k. slowCondition wh compiled (rowAt t k)) (live t))))"
proof -
  let ?cap = "if ordered then - 1 else cap"
  let ?live = "filter (\<lambda>k. slowCondition wh compiled (rowAt t k)) (live t)"
  have stop: "(\<lambda>(seen, keys). \<not> ordered \<and> capReached cap keys) = (\<lambda>s. capReached ?cap (snd s))"
    by (auto simp: capReached_def fun_eq_iff)
  have "scanRows (\<lambda>_. None) 0 (viewOrder t) (\<lambda>(key, row). slowCondition wh compiled row)
       (\<lambda>(key, row) sk. Inr (addKey dst t names key sk)) (\<lambda>s. capReached ?cap (snd s)) (Order t) ([], []) =
     foldRows (\<lambda>k sk. Inr (addKey dst t names k sk)) (\<lambda>s. capReached ?cap (snd s)) ?live ([], [])"
    by (rule orderSource.scan_live[OF assms(1)]) (auto simp: map_filter_viewOrder)
  also have "\<dots> = foldRows (\<lambda>k sk. Inr (appendOnce dst (lineKey t names) k sk)) (\<lambda>s. capReached ?cap (snd s)) ?live ([], [])"
    by (rule foldRows_cong) (simp add: addKey_once[OF assms(1,2)])
  finally show ?thesis
    unfolding orderScanKeys_def background_simps stop
    using foldRows_append[of ?cap "[]" dst "lineKey t names" ?live "[]"] assms(3) by (simp add: capReached_def)
qed

lemma selectKeys_spec:
  assumes wf: "wf_table t" and names: "set names \<subseteq> cName ` set (Columns t)" and cap: "cap \<noteq> 0"
    and ord: "stOrder tail \<noteq> [] \<Longrightarrow> \<forall>k\<in>set keys. rget (rowAt t k) (stOrder tail) \<in> comparableAs c"
  shows "selectKeys background t names dst tail cap maxRows (Inr (takeCap (if stOrder tail \<noteq> [] then - 1 else cap) keys)) =
    capResultRows (rowsResult names (applyOffset (stOffset tail) (takeCap cap (map (\<lambda>k. selectedValues (rowAt t k) names)
      (if stOrder tail = [] then keys
       else sortSlice (valueBefore (stDesc tail) (\<lambda>k. rget (rowAt t k) (stOrder tail))) keys))))) maxRows"
proof -
  have m: "materialize t names cap ks [] = map (\<lambda>k. selectedValues (rowAt t k) names) (takeCap cap ks)" for ks
    using cap materialize_map[of cap "[]" t names ks] lineOf_row[OF wf names] by (simp add: capReached_def takeCap_map)
  have keep: "(if \<not> dst \<and> cap \<ge> 0 \<and> int (length ks) > cap then take (nat cap) ks else ks) =
      (if dst then ks else takeCap cap ks)" for ks :: "string list" by (auto simp: takeCap_def)
  show ?thesis
  proof (cases "stOrder tail = []")
    case True
    then show ?thesis unfolding selectKeys_def Let_def by (simp add: keep m takeCap_map)
  next
    case False
    have o: "orderValue t (stOrder tail) = (\<lambda>k. rget (rowAt t k) (stOrder tail))"
      using wf orderValue_row by (auto simp: wf_table_def)
    have "orderKeys t keys (stOrder tail) (stDesc tail) (if dst then - 1 else cap) =
        Inr (takeCap (if dst then - 1 else cap) (sortSlice (valueBefore (stDesc tail) (\<lambda>k. rget (rowAt t k) (stOrder tail))) keys))"
      using orderKeys_stable[of keys t "stOrder tail" c "if dst then - 1 else cap" "stDesc tail"] ord[OF False] cap
      by (simp add: o)
    with False show ?thesis unfolding selectKeys_def Let_def by (simp add: keep m takeCap_map)
  qed
qed

lemma selectFastScan_spec:
  assumes wf: "wf_table t" and names: "set names \<subseteq> cName ` set (Columns t)" and cap: "cap \<noteq> 0" "limit \<noteq> 0" and f: "fast t \<noteq> []"
    and keep: "\<And>row. (case term of Some tm \<Rightarrow> matchFastTerm (fastValues (Columns t) row) tm
        | None \<Rightarrow> wh = [] \<or> matchesFast compiled (fastValues (Columns t) row) (colpos t)) \<longleftrightarrow> P row"
  shows "selectFastScan background t names dst wh term compiled limit offset cap maxRows =
    capResultRows (rowsResult names (applyOffset offset (takeCap cap (map (\<lambda>k. selectedValues (rowAt t k) names)
      (dedupIf dst (lineKey t names) [] (filter (\<lambda>k. P (rowAt t k)) (live t))))))) maxRows"
proof -
  let ?line = "\<lambda>k. selectedValues (rowAt t k) names"
  let ?live = "filter (\<lambda>k. P (rowAt t k)) (live t)"
  have row: "fvalues r = fastValues (Columns t) (rowAt t (fkey r))" if "r \<in> set (fastSource.shown t)" for r
    using that fast_row_values[OF wf f] by (simp add: map_filter_viewFast)
  have stop: "(\<lambda>(seen, rows). capReached cap rows) = (\<lambda>s. capReached cap (snd s))" by auto
  have "scanRows (\<lambda>_. None) 0 viewFast
      (\<lambda>r. case term of Some tm \<Rightarrow> matchFastTerm (fvalues r) tm
           | None \<Rightarrow> wh = [] \<or> matchesFast compiled (fvalues r) (colpos t))
      (\<lambda>r sr. Inr (addLine dst (selectedFastValues r names (colpos t)) sr)) (\<lambda>s. capReached cap (snd s)) (fast t) ([], []) =
    foldRows (\<lambda>k sr. Inr (appendOnce dst rowProjectionKey (?line k) sr)) (\<lambda>s. capReached cap (snd s)) ?live ([], [])"
    by (rule fastSource.scan_live[OF wf f])
       (simp_all only: row keep selectedFastValues_row[OF wf f names row] addLine_once)
  also have "\<dots> = foldRows (\<lambda>l sr. Inr (appendOnce dst rowProjectionKey l sr)) (\<lambda>s. capReached cap (snd s)) (map ?line ?live) ([], [])"
    by (rule foldRows_map)
  finally have "map_sum id snd (scanRows (\<lambda>_. None) 0 viewFast
      (\<lambda>r. case term of Some tm \<Rightarrow> matchFastTerm (fvalues r) tm
           | None \<Rightarrow> wh = [] \<or> matchesFast compiled (fvalues r) (colpos t))
      (\<lambda>r sr. Inr (addLine dst (selectedFastValues r names (colpos t)) sr)) (\<lambda>s. capReached cap (snd s)) (fast t) ([], [])) =
      Inr (takeCap cap (dedupIf dst rowProjectionKey [] (map ?line ?live)))"
    using foldRows_append[of cap "[]" dst rowProjectionKey "map ?line ?live" "[]"] cap(1) by (simp add: capReached_def)
  moreover have "dedupIf dst rowProjectionKey [] (map ?line ?live) = map ?line (dedupIf dst (lineKey t names) [] ?live)"
    unfolding dedupIf_def lineKey_def by (simp add: map_dedupBy[symmetric] comp_def)
  moreover have "rbind r (\<lambda>(seen, rows). k rows) = rbind (map_sum id snd r) k" for r :: "(string list \<times> goval list list) res" and k :: "goval list list \<Rightarrow> result res"
    by (cases r) auto
  ultimately show ?thesis
    using cap(2) by (simp add: selectFastScan_def stop)
qed

text \<open>
  A query the theorems speak about: its table is well formed, its columns exist, its WHERE compiles (the
  text is trimmed, as the clause parser leaves it), it has no LIMIT 0, and its ORDER BY column holds
  comparable values.
\<close>

definition validQuery :: "table \<Rightarrow> string list \<Rightarrow> selectTail \<Rightarrow> int \<Rightarrow> compiledCondition \<Rightarrow> coltype option \<Rightarrow> bool" where
  "validQuery t names tail maxRows cond c \<longleftrightarrow>
     wf_table t \<and> plainColumns (Columns t) \<and> int (length (Order t)) \<le> maxInt \<and>
     list_all (hasColumn (Columns t)) names \<and> TrimSpace (stWhere tail) = stWhere tail \<and>
     compileCondition (stWhere tail) (Columns t) = Some cond \<and>
     inCaps (stLimit tail) (stOffset tail) maxRows \<and> stLimit tail \<noteq> 0 \<and>
     (stOrder tail \<noteq> [] \<longrightarrow> (\<forall>k\<in>set (live t). rget (rowAt t k) (stOrder tail) \<in> comparableAs c))"

abbreviation specOf :: "table \<Rightarrow> string list \<Rightarrow> bool \<Rightarrow> selectTail \<Rightarrow> compiledCondition \<Rightarrow> goval list list" where
  "specOf t names dst tail cond \<equiv>
     selectSpec t names dst (slowCondition (stWhere tail) cond) (stOrder tail) (stDesc tail) (stLimit tail) (stOffset tail)"

lemma validQuery_names: "validQuery t names tail maxRows cond c \<Longrightarrow> set names \<subseteq> cName ` set (Columns t)"
  by (auto simp: validQuery_def list_all_iff hasColumn_iff)

lemma length_live: "length (live t) \<le> length (Order t)"
  by (simp add: live_def)

lemma length_specKeys: "length (selectSpecKeys t names dst P order desc) \<le> length (Order t)"
proof -
  have "length (dedupIf dst (lineKey t names) [] (filter (\<lambda>k. P (rowAt t k)) (live t))) \<le> length (Order t)"
    using length_dedupIf length_filter_le length_live by (meson le_trans)
  then show ?thesis by (simp add: selectSpecKeys_def Let_def)
qed

lemma set_dedupIf_subset: "set (dedupIf dst f seen xs) \<subseteq> set xs"
  using set_dedupBy_subset[of f seen xs] by (simp add: dedupIf_def)

text \<open>Cutting the rows at the cap and then skipping the offset is the window, policed.\<close>

lemma capped_spec:
  assumes "validQuery t names tail maxRows cond c"
  shows "capResultRows (rowsResult names (applyOffset (stOffset tail) (takeCap (rowCapOf (stLimit tail) (stOffset tail) maxRows)
      (map (\<lambda>k. selectedValues (rowAt t k) names)
        (selectSpecKeys t names dst P (stOrder tail) (stDesc tail)))))) maxRows =
    policed maxRows names (selectSpec t names dst P (stOrder tail) (stDesc tail) (stLimit tail) (stOffset tail))"
proof -
  let ?rows = "map (\<lambda>k. selectedValues (rowAt t k) names) (selectSpecKeys t names dst P (stOrder tail) (stDesc tail))"
  have "int (length ?rows) \<le> maxInt"
    using assms length_specKeys[of t names dst P "stOrder tail" "stDesc tail"] by (simp add: validQuery_def)
  with capped_rows[of "stLimit tail" "stOffset tail" maxRows ?rows] assms show ?thesis
    by (simp only: validQuery_def selectSpec_def capResultRows_policed)
qed

lemma selectScan_spec:
  assumes v: "validQuery t names tail maxRows cond c"
    and ix: "\<And>col key. simple = Some (col, key) \<Longrightarrow> \<not> mhas (Indexes t) col"
  shows "selectScan background t names dst tail maxRows (rowCapOf (stLimit tail) (stOffset tail) maxRows) simple =
    policed maxRows names (specOf t names dst tail cond)"
proof -
  let ?cap = "rowCapOf (stLimit tail) (stOffset tail) maxRows" and ?wh = "stWhere tail"
  let ?P = "slowCondition ?wh cond"
  let ?keys = "dedupIf dst (lineKey t names) [] (filter (\<lambda>k. ?P (rowAt t k)) (live t))"
  have wf: "wf_table t" and cc: "compileCondition ?wh (Columns t) = Some cond" using v by (auto simp: validQuery_def)
  note names = validQuery_names[OF v]
  have cap: "?cap \<noteq> 0" "stLimit tail \<noteq> 0" using v rowCapOf_nonzero by (auto simp: validQuery_def)
  have empty: "slowCondition [] x = slowCondition [] y" for x y by (simp add: slowCondition_def fun_eq_iff)
  have sub: "set ?keys \<subseteq> set (live t)" using set_dedupIf_subset filter_is_subset by (meson subset_trans)
  have ord: "\<forall>k\<in>set ?keys. rget (rowAt t k) (stOrder tail) \<in> comparableAs c" if "stOrder tail \<noteq> []"
    using that v sub unfolding validQuery_def by blast
  have slow: "selectKeys background t names dst tail ?cap maxRows
      (orderScanKeys background t names dst (stOrder tail \<noteq> []) ?wh cond' ?cap) = policed maxRows names (specOf t names dst tail cond)"
    if "slowCondition ?wh cond' = ?P" for cond'
  proof -
    have "selectKeys background t names dst tail ?cap maxRows
        (orderScanKeys background t names dst (stOrder tail \<noteq> []) ?wh cond' ?cap) =
      selectKeys background t names dst tail ?cap maxRows (Inr (takeCap (if stOrder tail \<noteq> [] then - 1 else ?cap) ?keys))"
      by (simp only: orderScanKeys_spec[OF wf names cap(1)] that)
    also have "\<dots> = capResultRows (rowsResult names (applyOffset (stOffset tail) (takeCap ?cap
        (map (\<lambda>k. selectedValues (rowAt t k) names) (selectSpecKeys t names dst ?P (stOrder tail) (stDesc tail)))))) maxRows"
      unfolding selectSpecKeys_def Let_def by (rule selectKeys_spec[OF wf names cap(1)]) (rule ord)
    finally show ?thesis using capped_spec[OF v] by simp
  qed
  have fastP: "(case tm of Some x \<Rightarrow> matchFastTerm (fastValues (Columns t) row) x
        | None \<Rightarrow> ?wh = [] \<or> matchesFast cond' (fastValues (Columns t) row) (colpos t)) \<longleftrightarrow> ?P row"
    if f: "fast t \<noteq> []" and tm: "tm = simpleFastTerm ?wh t" and c': "?wh \<noteq> [] \<and> tm = None \<Longrightarrow> cond' = cond" for tm cond' row
  proof (cases tm)
    case None
    with c' matchesFast_row[OF wf f cc] show ?thesis by (auto simp: slowCondition_def)
  next
    case (Some x)
    then have "?wh \<noteq> []" using tm by (auto simp: simpleFastTerm_def)
    with Some matchFastTerm_compiled[OF wf f _ _ _ cc, of x] tm v show ?thesis
      by (simp add: slowCondition_def validQuery_def)
  qed
  let ?tm = "if fast t \<noteq> [] then simpleFastTerm ?wh t else None"
  define cond' where "cond' = (if ?wh \<noteq> [] \<and> (?tm = None \<or> stOrder tail \<noteq> []) then cond else [])"
  have comp: "(if ?wh \<noteq> [] \<and> (?tm = None \<or> stOrder tail \<noteq> [])
      then (case compileCondition ?wh (Columns t) of None \<Rightarrow> Inl invalidWhere | Some c \<Rightarrow> Inr c) else Inr []) = Inr cond'"
    by (simp add: cond'_def cc)
  have noix: "(case simple of Some (column, val) \<Rightarrow> if mhas (Indexes t) column then simple else None | None \<Rightarrow> None) = None"
    using ix by (cases simple) auto
  have sel: "selectScan background t names dst tail maxRows ?cap simple =
      (if fast t \<noteq> [] \<and> stOrder tail = [] then
         selectFastScan background t names dst ?wh ?tm cond' (stLimit tail) (stOffset tail) ?cap maxRows
       else selectKeys background t names dst tail ?cap maxRows
              (orderScanKeys background t names dst (stOrder tail \<noteq> []) ?wh cond' ?cap))"
    unfolding selectScan_def Let_def comp noix by simp
  show ?thesis
  proof (cases "fast t \<noteq> [] \<and> stOrder tail = []")
    case True
    then have f: "fast t \<noteq> []" and o: "stOrder tail = []" by auto
    have "selectFastScan background t names dst ?wh ?tm cond' (stLimit tail) (stOffset tail) ?cap maxRows =
        capResultRows (rowsResult names (applyOffset (stOffset tail) (takeCap ?cap (map (\<lambda>k. selectedValues (rowAt t k) names) ?keys)))) maxRows"
      by (rule selectFastScan_spec[OF wf names cap f]) (rule fastP[OF f], use f in \<open>auto simp: cond'_def\<close>)
    with capped_spec[OF v, of dst ?P] o show ?thesis
      unfolding sel by (simp add: True selectSpecKeys_def)
  next
    case False
    have "slowCondition ?wh cond' = ?P"
      using False by (cases "?wh = []") (auto simp: cond'_def slowCondition_def fun_eq_iff split: if_splits)
    from slow[OF this] False show ?thesis unfolding sel by auto
  qed
qed

section \<open>Lookup by key\<close>

lemma selectByKey_row:
  assumes "wf_table t" "pos_nil t" "set names \<subseteq> cName ` set (Columns t)"
  shows "selectByKey t names key limit offset =
    rowsResult names (limitOffset limit offset (if mhas (Rows t) key then [selectedValues (rowAt t key) names] else []))"
proof (cases "mget (fastPos t) key")
  case None
  then show ?thesis by (auto simp: selectByKey_def rowAt_def split: option.splits)
next
  case (Some fi)
  then have f: "fast t \<noteq> []" using assms(2) by (auto simp: pos_nil_def)
  note p = fast_pos_row[OF assms(1) f Some]
  have "key \<in> set (live t)"
    using fastSource.shown_live[OF assms(1) f, of "fast t ! fi"] p by (simp add: map_filter_viewFast)
  then have "mhas (Rows t) key" by (simp add: live_def)
  with p Some selectedFastValues_row[OF assms(1) f assms(3) p(4)] show ?thesis
    by (simp add: selectByKey_def)
qed

lemma window_single: "limit \<noteq> 0 \<Longrightarrow> length xs \<le> 1 \<Longrightarrow> window limit offset xs = limitOffset limit offset xs"
  by (auto simp: window_def limitOffset_def applyOffset_drop)

lemma filter_eq_single: "distinct xs \<Longrightarrow> filter (\<lambda>k. k = x) xs = (if x \<in> set xs then [x] else [])"
  by (induction xs) auto

text \<open>A literal that no NULL is involved in, on a column whose stored keys are canonical.\<close>

definition keyComparable :: "table \<Rightarrow> string \<Rightarrow> string \<Rightarrow> bool" where
  "keyComparable t column raw \<longleftrightarrow>
     typed_table t \<and> (\<exists>c\<in>set (Columns t). cName c = column \<and> cType c \<noteq> TFloat \<and> expectedOf raw (cType c) \<noteq> VNil)"

lemma equality_condition:
  assumes v: "validQuery t names tail maxRows cond ct" and se: "simpleEquality (stWhere tail) = Some (column, raw)"
    and c: "c \<in> set (Columns t)" "cName c = column"
  shows "slowCondition (stWhere tail) cond row \<longleftrightarrow> conditionValueEqual (rget row column) (expectedOf raw (cType c))"
proof -
  have "stWhere tail \<noteq> []" using se by (auto simp: simpleEquality_def)
  with simpleEquality_compiles_to[OF se _ _ _ c] v show ?thesis
    by (simp add: slowCondition_def validQuery_def wf_table_def wf_columns_def matchesMap_equality)
qed

lemma typed_cell:
  assumes "typed_table t" "mget (Rows t) k = Some row" "c \<in> set (Columns t)"
  shows "typedVal (cType c) (rget row (cName c))"
  using assms by (auto simp: typed_table_def typedRow_def)

text \<open>The matching live rows of a lookup by primary key: the row stored under the key, if any.\<close>

lemma key_condition:
  assumes v: "validQuery t names tail maxRows cond ct" and nn: "noNullKey t" and pk: "hasPrimaryColumn (Columns t)"
    and se: "simpleEquality (stWhere tail) = Some (primaryColumn t, raw)" and kc: "keyComparable t (primaryColumn t) raw"
  shows "filter (\<lambda>k. slowCondition (stWhere tail) cond (rowAt t k)) (live t) =
    (if mhas (Rows t) (equalityKey t (primaryColumn t) raw) then [equalityKey t (primaryColumn t) raw] else [])"
proof -
  let ?P = "slowCondition (stWhere tail) cond"
  obtain c where c: "c \<in> set (Columns t)" "cName c = primaryColumn t" "cType c \<noteq> TFloat" "expectedOf raw (cType c) \<noteq> VNil"
    and ty: "typed_table t" using kc by (auto simp: keyComparable_def)
  have wf: "wf_table t" using v by (simp add: validQuery_def)
  let ?key = "keyOf raw (cType c)"
  have key: "equalityKey t (primaryColumn t) raw = ?key"
    using equalityKey_keyOf[of t c raw] c wf by (simp add: wf_table_def wf_columns_def)
  have match: "?P (rowAt t k) \<longleftrightarrow> k = ?key" if k: "k \<in> set (live t)" for k
  proof -
    obtain row where row: "mget (Rows t) k = Some row" using k by (auto simp: live_def)
    have k': "k = valueKey (rget row (primaryColumn t))" "rget row (primaryColumn t) \<noteq> VNil"
      using wf pk row nn by (auto simp: wf_table_def keys_ok_def noNullKey_def)
    have tv: "typedVal (cType c) (rget row (primaryColumn t))" using typed_cell[OF ty row c(1)] c(2) by simp
    have "rowAt t k = row" using row by (simp add: rowAt_def)
    with equality_condition[OF v se c(1,2), of row] equal_value_key[OF tv c(3)] key_equal_value[OF tv k'(2) c(3,4)] k'(1)
    show ?thesis by metis
  qed
  have "distinct (live t)" using wf by (simp add: wf_table_def wf_rows_def live_def)
  then show ?thesis
    unfolding key using match live_iff[OF wf, of ?key] filter_eq_single[of "live t" ?key] by (simp cong: filter_cong)
qed

lemma selectPlain_key:
  assumes v: "validQuery t names tail maxRows cond ct" and pn: "pos_nil t" and nn: "noNullKey t" and pk: "hasPrimaryColumn (Columns t)"
    and se: "simpleEquality (stWhere tail) = Some (primaryColumn t, raw)" and kc: "keyComparable t (primaryColumn t) raw"
  shows "selectPlain background t names dst tail maxRows = policed maxRows names (specOf t names dst tail cond)"
proof -
  let ?P = "slowCondition (stWhere tail) cond"
  let ?key = "equalityKey t (primaryColumn t) raw"
  have wf: "wf_table t" using v by (simp add: validQuery_def)
  note f = key_condition[OF v nn pk se kc]
  have one: "selectSpecKeys t names dst ?P (stOrder tail) (stDesc tail) = (if mhas (Rows t) ?key then [?key] else [])"
    by (simp add: selectSpecKeys_def f dedupIf_def)
  let ?rows = "if mhas (Rows t) ?key then [selectedValues (rowAt t ?key) names] else []"
  have "specOf t names dst tail cond = limitOffset (stLimit tail) (stOffset tail) ?rows"
    using window_single[of "stLimit tail" "[selectedValues (rowAt t ?key) names]" "stOffset tail"]
      window_single[of "stLimit tail" "[]" "stOffset tail"] v
    unfolding selectSpec_def one validQuery_def by (cases "mhas (Rows t) ?key") simp_all
  moreover have "selectPlain background t names dst tail maxRows =
      Inr (rowsResult names (limitOffset (stLimit tail) (stOffset tail) ?rows))"
    using selectByKey_row[OF wf pn validQuery_names[OF v]] by (simp add: selectPlain_def se Let_def)
  moreover have "length (limitOffset (stLimit tail) (stOffset tail) ?rows) \<le> 1"
    by (auto simp: limitOffset_def applyOffset_drop)
  ultimately show ?thesis by (simp add: policed_def)
qed

section \<open>Lookup by index\<close>

lemma indexHit_condition:
  assumes v: "validQuery t names tail maxRows cond ct" and se: "simpleEquality (stWhere tail) = Some (column, raw)"
    and c: "c \<in> set (Columns t)" "cName c = column" and k: "mget (Rows t) k = Some row"
    and tm: "tm = (if fast t \<noteq> [] then simpleFastTerm (stWhere tail) t else None)" and cond': "tm = None \<Longrightarrow> cond' = cond"
  shows "indexHit t column tm cond' k \<longleftrightarrow> slowCondition (stWhere tail) cond row"
proof -
  have wf: "wf_table t" and ne: "stWhere tail \<noteq> []" using v se by (auto simp: validQuery_def simpleEquality_def)
  have r: "rowAt t k = row" using k by (simp add: rowAt_def)
  show ?thesis
  proof (cases tm)
    case None
    with cond' k ne show ?thesis by (simp add: indexHit_def slowCondition_def)
  next
    case (Some x)
    then have f: "fast t \<noteq> []" and x: "simpleFastTerm (stWhere tail) t = Some x" using tm by (auto split: if_splits)
    obtain col' raw' i where s: "simpleEquality (stWhere tail) = Some (col', raw')" "i < length (Columns t)" "cName (Columns t ! i) = col'"
      "ftExpected x = expectedOf raw' (cType (Columns t ! i))"
      using simpleFastTerm_of[OF x _ f] wf unfolding wf_table_def by blast
    have "inj_on cName (set (Columns t))" using wf by (simp add: wf_table_def wf_columns_def distinct_map)
    then have "Columns t ! i = c" using s(1,2,3) c se by (auto simp: inj_on_def)
    with s se have e: "ftExpected x = expectedOf raw (cType c)" by simp
    have m: "matchFastTerm (fastValues (Columns t) row) x \<longleftrightarrow> slowCondition (stWhere tail) cond row"
      using matchFastTerm_compiled[OF wf f x, of cond row] v ne by (simp add: validQuery_def slowCondition_def)
    show ?thesis
      using Some k m fast_pos_row[OF wf f] equality_condition[OF v se c, of row] e r
      by (auto simp: indexHit_def split: option.splits)
  qed
qed

lemma indexKeysLoop_all:
  assumes "ordered \<or> cap < 0"
  shows "indexKeysLoop (\<lambda>_. None) i ordered cap hit add ks sk = Inr (snd (fold (\<lambda>k s. if hit k then add k s else s) ks sk))"
  using assms by (induction ks arbitrary: i sk) (auto simp: capReached_def)

lemma fold_addKey: "snd (fold (\<lambda>k s. if hit k then addKey False t names k s else s) ks (seen, acc)) = acc @ filter hit ks"
  by (induction ks arbitrary: acc) (auto simp: addKey_def)

lemma bucket_distinct: "wf_table t \<Longrightarrow> distinct (bucketOf t c v)"
proof -
  assume "wf_table t"
  then have "idx_shape t" by (simp add: wf_table_def wf_index_def)
  then have "idx_ok idx" if "mget (Indexes t) c = Some idx" for idx using that by (simp add: idx_shape_def)
  from idx_ok_bucket[OF this] show ?thesis by (cases "mget (Indexes t) c") (simp_all add: bucketOf_def)
qed

text \<open>The keys an index yields are the matching live keys, in the bucket's order.\<close>

lemma index_bucket_keys:
  assumes v: "validQuery t names tail maxRows cond ct" and se: "simpleEquality (stWhere tail) = Some (column, raw)"
    and ix: "mhas (Indexes t) column" and c: "c \<in> set (Columns t)" "cName c = column" "cType c \<noteq> TFloat" and ty: "typed_table t"
    and hit: "\<And>k row. mget (Rows t) k = Some row \<Longrightarrow> hit k \<longleftrightarrow> slowCondition (stWhere tail) cond row"
  shows "mset (filter hit (bucketOf t column (keyOf raw (cType c)))) = mset (filter (\<lambda>k. slowCondition (stWhere tail) cond (rowAt t k)) (live t))"
proof (rule set_eq_iff_mset_eq_distinct[THEN iffD1])
  have wf: "wf_table t" using v by (simp add: validQuery_def)
  show "distinct (filter hit (bucketOf t column (keyOf raw (cType c))))" using bucket_distinct[OF wf] by simp
  show "distinct (filter (\<lambda>k. slowCondition (stWhere tail) cond (rowAt t k)) (live t))"
    using wf by (simp add: wf_table_def wf_rows_def live_def)
  have b: "k \<in> set (bucketOf t column (keyOf raw (cType c))) \<longleftrightarrow>
      (\<exists>row. mget (Rows t) k = Some row \<and> valueKey (rget row column) = keyOf raw (cType c))" for k
    using wf_indexD[of t column k] wf ix by (simp add: wf_table_def)
  have key: "valueKey (rget row column) = keyOf raw (cType c)" if "mget (Rows t) k = Some row" "slowCondition (stWhere tail) cond row" for k row
    using that equality_condition[OF v se c(1,2), of row] equal_value_key[OF typed_cell[OF ty that(1) c(1)] c(3)] c(2) by simp
  have "k \<in> set (filter hit (bucketOf t column (keyOf raw (cType c)))) \<longleftrightarrow>
      k \<in> set (filter (\<lambda>k. slowCondition (stWhere tail) cond (rowAt t k)) (live t))" for k
  proof (cases "mget (Rows t) k")
    case None
    then show ?thesis using b[of k] by (auto simp: live_def)
  next
    case (Some row)
    then have "k \<in> set (live t)" "rowAt t k = row" using live_iff[OF wf, of k] by (auto simp: rowAt_def)
    with Some b[of k] key[OF Some] hit[OF Some] show ?thesis by auto
  qed
  then show "set (filter hit (bucketOf t column (keyOf raw (cType c)))) =
      set (filter (\<lambda>k. slowCondition (stWhere tail) cond (rowAt t k)) (live t))" by blast
qed

lemma selectPlain_index:
  assumes v: "validQuery t names tail 0 cond ct" and se: "simpleEquality (stWhere tail) = Some (column, raw)"
    and ix: "mhas (Indexes t) column" "column \<noteq> primaryColumn t" and ty: "typed_table t"
    and c: "c \<in> set (Columns t)" "cName c = column" "cType c \<noteq> TFloat"
    and all: "stLimit tail < 0" "stOffset tail = 0"
  shows "\<exists>rows. selectPlain background t names False tail 0 = Inr (rowsResult names rows) \<and>
    mset rows = mset (specOf t names False tail cond)"
proof -
  let ?wh = "stWhere tail" and ?P = "slowCondition (stWhere tail) cond"
  let ?tm = "if fast t \<noteq> [] then simpleFastTerm ?wh t else None"
  have wf: "wf_table t" and cc: "compileCondition ?wh (Columns t) = Some cond" and ne: "?wh \<noteq> []"
    using v se by (auto simp: validQuery_def simpleEquality_def)
  define cond' where "cond' = (if ?tm = None \<or> stOrder tail \<noteq> [] then cond else [])"
  have key: "equalityKey t column raw = keyOf raw (cType c)"
    using equalityKey_keyOf[of t c raw] c wf by (simp add: wf_table_def wf_columns_def)
  have cap: "rowCapOf (stLimit tail) (stOffset tail) 0 = - 1" using all by (simp add: rowCapOf_def)
  let ?keys = "filter (indexHit t column ?tm cond') (bucketOf t column (keyOf raw (cType c)))"
  have hit: "indexHit t column ?tm cond' k \<longleftrightarrow> ?P row" if "mget (Rows t) k = Some row" for k row
    by (rule indexHit_condition[OF v se c(1,2) that refl]) (simp add: cond'_def)
  have m: "mset ?keys = mset (filter (\<lambda>k. ?P (rowAt t k)) (live t))"
    by (rule index_bucket_keys[OF v se ix(1) c ty hit])
  then have sub: "set ?keys \<subseteq> set (live t)" by (metis filter_is_subset mset_eq_setD)
  have "indexKeys background t names False (stOrder tail \<noteq> []) column (keyOf raw (cType c)) ?tm cond' (- 1) = Inr (takeCap (if stOrder tail \<noteq> [] then - 1 else - 1) ?keys)"
    using indexKeysLoop_all[of "stOrder tail \<noteq> []" "- 1"] by (simp add: indexKeys_def fold_addKey)
  moreover have "selectPlain background t names False tail 0 = selectKeys background t names False tail (- 1) 0
      (indexKeys background t names False (stOrder tail \<noteq> []) column (keyOf raw (cType c)) ?tm cond' (- 1))"
    using ix ne by (auto simp: selectPlain_def selectScan_def se key cap cc cond'_def Let_def)
  moreover have "stOrder tail \<noteq> [] \<Longrightarrow> \<forall>k\<in>set ?keys. rget (rowAt t k) (stOrder tail) \<in> comparableAs ct"
    using v sub unfolding validQuery_def by blast
  moreover note selectKeys_spec[OF wf validQuery_names[OF v], of "- 1" tail ?keys ct False 0]
  ultimately have "selectPlain background t names False tail 0 =
      capResultRows (rowsResult names (map (\<lambda>k. selectedValues (rowAt t k) names)
        (if stOrder tail = [] then ?keys
         else sortSlice (valueBefore (stDesc tail) (\<lambda>k. rget (rowAt t k) (stOrder tail))) ?keys))) 0"
    using all by (simp add: applyOffset_drop)
  moreover have "mset (map (\<lambda>k. selectedValues (rowAt t k) names)
        (if stOrder tail = [] then ?keys
         else sortSlice (valueBefore (stDesc tail) (\<lambda>k. rget (rowAt t k) (stOrder tail))) ?keys)) = mset (specOf t names False tail cond)"
    using m all by (simp add: selectSpec_def selectSpecKeys_def window_def dedupIf_def)
  ultimately show ?thesis by (auto simp: capResultRows_def)
qed

section \<open>Properties\<close>

text \<open>
  A sample query: the condition \<^verbatim>\<open>id >= 1\<close> (or another text), names of both users, last name first, one row.
\<close>

definition sampleTail :: "string \<Rightarrow> selectTail" where
  "sampleTail wh = \<lparr>stWhere = wh, stOrder = ''name'', stDesc = True, stLimit = 1, stOffset = 0, stGroup = [],
     stHaving = [], stHeadEnd = 0\<rparr>"

lemma twoUsers_valid:
  assumes "compileCondition wh (Columns twoUsers) = Some cond" "TrimSpace wh = wh"
  shows "validQuery twoUsers [''name''] (sampleTail wh) 0 cond (Some TText)"
  using assms twoUsers_wf(1)
  by (auto simp: validQuery_def sampleTail_def inCaps_def maxInt_def plainColumns_def opByte_def comparableAs_def typedVal_def
      live_def rowAt_def rget_def twoUsers_def users_def newTable_def)

text \<open>
  C23: a SELECT without an index to use returns what the specification says (\<open>selectSpec\<close>): the live rows
  that satisfy the compiled WHERE, deduplicated by projection under DISTINCT, stably sorted by the ORDER BY
  column, and cut to LIMIT and OFFSET. This holds for the scan of the fast array and for the scan of the
  row order, with the bounded heap and without, and the row policy turns exactly the results with too many
  rows into an error.
\<close>

theorem select_refines_spec:
  assumes "validQuery t names tail maxRows cond c"
    and "\<forall>column raw. simpleEquality (stWhere tail) = Some (column, raw) \<longrightarrow>
      column \<noteq> primaryColumn t \<and> \<not> mhas (Indexes t) column"
  shows "selectPlain background t names dst tail maxRows =
    policed maxRows names (selectSpec t names dst (slowCondition (stWhere tail) cond) (stOrder tail) (stDesc tail)
      (stLimit tail) (stOffset tail))"
proof (cases "simpleEquality (stWhere tail)")
  case None
  with selectScan_spec[OF assms(1), of None] show ?thesis by (simp add: selectPlain_def Let_def)
next
  case (Some cr)
  then obtain column raw where cr: "simpleEquality (stWhere tail) = Some (column, raw)" by (cases cr) auto
  with assms(2) have "column \<noteq> primaryColumn t" "\<not> mhas (Indexes t) column" by auto
  with cr selectScan_spec[OF assms(1), of "Some (column, equalityKey t column raw)"] show ?thesis
    by (simp add: selectPlain_def Let_def)
qed

theorem select_refines_spec_witness:
  "selectPlain background twoUsers [''name''] True (sampleTail ''id >= 1'') 0 =
     policed 0 [''name''] (selectSpec twoUsers [''name''] True
       (slowCondition ''id >= 1'' [[\<lparr>ctColumn = ''id'', ctExpected = VInt 1, ctOp = opGe\<rparr>]]) ''name'' True 1 0) \<and>
   selectPlain background twoUsers [''name''] True (sampleTail ''id >= 1'') 0 = Inr (rowsResult [''name''] [[VStr ''b'']])"
proof
  have c: "compileCondition ''id >= 1'' (Columns twoUsers) = Some [[\<lparr>ctColumn = ''id'', ctExpected = VInt 1, ctOp = opGe\<rparr>]]"
    "TrimSpace ''id >= 1'' = ''id >= 1''" by code_simp+
  have "simpleEquality ''id >= 1'' = Some (''id >'', ''1'')" by code_simp
  then have "\<forall>column raw. simpleEquality (stWhere (sampleTail ''id >= 1'')) = Some (column, raw) \<longrightarrow>
      column \<noteq> primaryColumn twoUsers \<and> \<not> mhas (Indexes twoUsers) column"
    by (simp add: sampleTail_def primaryColumn_def twoUsers_def users_def newTable_def)
  from select_refines_spec[OF twoUsers_valid[OF c] this, of True]
  show "selectPlain background twoUsers [''name''] True (sampleTail ''id >= 1'') 0 =
     policed 0 [''name''] (selectSpec twoUsers [''name''] True
       (slowCondition ''id >= 1'' [[\<lparr>ctColumn = ''id'', ctExpected = VInt 1, ctOp = opGe\<rparr>]]) ''name'' True 1 0)"
    by (simp add: sampleTail_def)
  show "selectPlain background twoUsers [''name''] True (sampleTail ''id >= 1'') 0 = Inr (rowsResult [''name''] [[VStr ''b'']])"
    by code_simp
qed

text \<open>
  C32: looking a primary key up returns what scanning for it would: for a literal that is not NULL, on a key
  column that is not FLOAT and holds no NULL, \<^verbatim>\<open>WHERE key = literal\<close> gives the specified rows, whether the row
  is found through the fast positions or through the row map.
\<close>

theorem select_by_key_agrees:
  assumes "validQuery t names tail maxRows cond c" "pos_nil t" "noNullKey t" "hasPrimaryColumn (Columns t)"
    and "simpleEquality (stWhere tail) = Some (primaryColumn t, raw)" "keyComparable t (primaryColumn t) raw"
  shows "selectPlain background t names dst tail maxRows =
    policed maxRows names (selectSpec t names dst (slowCondition (stWhere tail) cond) (stOrder tail) (stDesc tail)
      (stLimit tail) (stOffset tail))"
  using assms by (rule selectPlain_key)

theorem select_by_key_agrees_witness:
  "selectPlain background twoUsers [''name''] False (sampleTail ''id = 02'') 0 =
     policed 0 [''name''] (selectSpec twoUsers [''name''] False
       (slowCondition ''id = 02'' [[\<lparr>ctColumn = ''id'', ctExpected = VInt 2, ctOp = opEq\<rparr>]]) ''name'' True 1 0) \<and>
   selectPlain background twoUsers [''name''] False (sampleTail ''id = 02'') 0 = Inr (rowsResult [''name''] [[VStr ''b'']])"
proof
  have c: "compileCondition ''id = 02'' (Columns twoUsers) = Some [[\<lparr>ctColumn = ''id'', ctExpected = VInt 2, ctOp = opEq\<rparr>]]"
    "TrimSpace ''id = 02'' = ''id = 02''" by code_simp+
  have pk: "primaryColumn twoUsers = ''id''" "hasPrimaryColumn (Columns twoUsers)" by code_simp+
  have se: "simpleEquality (stWhere (sampleTail ''id = 02'')) = Some (primaryColumn twoUsers, ''02'')" by code_simp
  have "expectedOf ''02'' TInt = VInt 2" by code_simp
  then have kc: "keyComparable twoUsers (primaryColumn twoUsers) ''02''"
    using twoUsers_wf(4) unfolding pk by (simp add: keyComparable_def twoUsers_def users_def newTable_def)
  have pn: "pos_nil twoUsers" by (simp add: pos_nil_def twoUsers_def users_def newTable_def)
  from select_by_key_agrees[OF twoUsers_valid[OF c] pn twoUsers_wf(3) pk(2) se kc, of False]
  show "selectPlain background twoUsers [''name''] False (sampleTail ''id = 02'') 0 =
     policed 0 [''name''] (selectSpec twoUsers [''name''] False
       (slowCondition ''id = 02'' [[\<lparr>ctColumn = ''id'', ctExpected = VInt 2, ctOp = opEq\<rparr>]]) ''name'' True 1 0)"
    by (simp add: sampleTail_def)
  show "selectPlain background twoUsers [''name''] False (sampleTail ''id = 02'') 0 = Inr (rowsResult [''name''] [[VStr ''b'']])"
    by code_simp
qed

text \<open>
  C33: a secondary index returns the same rows as a scan: on a column that is not FLOAT, \<^verbatim>\<open>WHERE column = literal\<close>
  without LIMIT, OFFSET and DISTINCT gives the specified rows, as a multiset (an index bucket is a Go map, whose
  order is unspecified).
\<close>

theorem select_by_index_agrees:
  assumes "validQuery t names tail 0 cond ct" "simpleEquality (stWhere tail) = Some (column, raw)"
    and "mhas (Indexes t) column" "column \<noteq> primaryColumn t" "typed_table t"
    and "c \<in> set (Columns t)" "cName c = column" "cType c \<noteq> TFloat" "stLimit tail < 0" "stOffset tail = 0"
  shows "\<exists>rows. selectPlain background t names False tail 0 = Inr (rowsResult names rows) \<and>
    mset rows = mset (selectSpec t names False (slowCondition (stWhere tail) cond) (stOrder tail) (stDesc tail)
      (stLimit tail) (stOffset tail))"
  using assms by (rule selectPlain_index)

text \<open>The users with an index on their names.\<close>

definition indexedUsers :: table where
  "indexedUsers = snd (createIndexOn background ''ix'' ''name'' twoUsers)"

lemma indexedUsers_eq:
  "indexedUsers = twoUsers\<lparr>Indexes := [(''name'', [(''a'', [''1'']), (''b'', [''2''])])], IndexNames := [(''ix'', ''name'')]\<rparr>"
  unfolding indexedUsers_def by code_simp

lemma indexedUsers_wf: "wf_table indexedUsers" "typed_table indexedUsers"
proof -
  show "wf_table indexedUsers" unfolding indexedUsers_def using createIndexOn_wf[OF twoUsers_wf(1)] by (metis prod.collapse)
  show "typed_table indexedUsers" using twoUsers_wf(4) by (simp add: indexedUsers_eq typed_table_def)
qed

theorem select_by_index_agrees_witness:
  "\<exists>rows. selectPlain background indexedUsers [''name''] False (sampleTail ''name = b''\<lparr>stLimit := - 1\<rparr>) 0 = Inr (rowsResult [''name''] rows) \<and>
     mset rows = mset (selectSpec indexedUsers [''name''] False
       (slowCondition ''name = b'' [[\<lparr>ctColumn = ''name'', ctExpected = VStr ''b'', ctOp = opEq\<rparr>]]) ''name'' True (- 1) 0)"
proof -
  let ?tail = "sampleTail ''name = b''\<lparr>stLimit := - 1\<rparr>" and ?c = "\<lparr>cName = ''name'', cType = TText, cPrimary = False\<rparr>"
  have c: "compileCondition ''name = b'' (Columns twoUsers) = Some [[\<lparr>ctColumn = ''name'', ctExpected = VStr ''b'', ctOp = opEq\<rparr>]]"
    "TrimSpace ''name = b'' = ''name = b''" by code_simp+
  have v: "validQuery indexedUsers [''name''] ?tail 0 [[\<lparr>ctColumn = ''name'', ctExpected = VStr ''b'', ctOp = opEq\<rparr>]] (Some TText)"
    using twoUsers_valid[OF c] indexedUsers_wf(1) unfolding validQuery_def indexedUsers_eq
    by (simp add: sampleTail_def inCaps_def maxInt_def live_def rowAt_def)
  have se: "simpleEquality (stWhere ?tail) = Some (''name'', ''b'')" by code_simp
  have "mhas (Indexes indexedUsers) ''name''" "''name'' \<noteq> primaryColumn indexedUsers" "?c \<in> set (Columns indexedUsers)"
    by (simp_all add: indexedUsers_eq twoUsers_def users_def newTable_def primaryColumn_def)
  from select_by_index_agrees[OF v se this(1,2) indexedUsers_wf(2) this(3)] show ?thesis by (simp add: sampleTail_def)
qed

section \<open>LIMIT 0\<close>

text \<open>
  The theorems leave LIMIT 0 out, and rightly: with ORDER BY the bounded heap is asked for zero entries and reads
  its root, which panics; with DISTINCT on a table without fast array one row is returned.
\<close>

lemma order_by_limit_zero_panics:
  "selectRows background ''SELECT name FROM users ORDER BY name LIMIT 0'' 0 (newDatabase\<lparr>Tables := [(''users'', twoUsers)]\<rparr>) =
     Inl (Panic ''index out of range'')"
  by code_simp

lemma distinct_limit_zero_returns_a_row:
  "selectRows background ''SELECT DISTINCT name FROM users LIMIT 0'' 0 (newDatabase\<lparr>Tables := [(''users'', twoUsers)]\<rparr>) =
     Inr (rowsResult [''name''] [[VStr ''a'']])"
  by code_simp

end
