(* ===== verification/Aggregate.thy ===== *)
theory Aggregate
  imports Select
begin

text \<open>
  What the aggregates compute. The rows an aggregate is over are the live rows that satisfy the compiled
  WHERE (\<open>matching\<close>). A whole-table aggregate folds them in table order on either source of rows
  (\<open>aggregateScan_spec\<close>), so COUNT(*) is their number, also where it is answered from the row map, by a
  primary-key lookup or by an index, and MIN and MAX are extremal among their cells. GROUP BY partitions
  them (\<open>groups_of_rows\<close>): the groups stand in first-seen order and the cells of a group are those of its own
  rows.
\<close>

declare map_of_eq_Some_iff [simp del] Some_eq_map_of_iff [simp del]

section \<open>The rows an aggregate is over\<close>

definition matching :: "table \<Rightarrow> string \<Rightarrow> compiledCondition \<Rightarrow> string list" where
  "matching t wh cond = filter (\<lambda>k. slowCondition wh cond (rowAt t k)) (live t)"

lemma fastCondition_row:
  assumes "wf_table t" "fast t \<noteq> []" "compileCondition wh (Columns t) = Some cond" "TrimSpace wh = wh" "plainColumns (Columns t)"
  shows "fastCondition wh (simpleFastTerm wh t) cond t (fastValues (Columns t) row) \<longleftrightarrow> slowCondition wh cond row"
  using matchesFast_row[OF assms(1-3)] matchFastTerm_compiled[OF assms(1,2) _ assms(4,5,3)]
  by (auto simp: fastCondition_def slowCondition_def split: option.splits)

lemma shown_fast_row: "wf_table t \<Longrightarrow> r \<in> set (fastSource.shown t) \<Longrightarrow> fvalues r = fastValues (Columns t) (rowAt t (fkey r))"
  using fast_row_values[of t r] by (cases "fast t = []") (auto simp: map_filter_viewFast)

lemma aggregateScan_spec:
  assumes v: "validQuery t names tail maxRows cond ct" and col: "column \<in> cName ` set (Columns t) \<or> star \<and> column = ''*''"
  shows "aggregateScan background t trimmed star aggName column (stWhere tail) cond =
    foldRows (\<lambda>k. aggStep trimmed star aggName (rget (rowAt t k) column)) (\<lambda>_. False) (matching t (stWhere tail) cond) aggInit"
proof -
  let ?wh = "stWhere tail"
  have wf: "wf_table t" and q: "compileCondition ?wh (Columns t) = Some cond" "TrimSpace ?wh = ?wh" "plainColumns (Columns t)"
    using v by (auto simp: validQuery_def)
  have star: "star \<Longrightarrow> aggStep trimmed star aggName x = aggStep trimmed star aggName y" for x y by (simp add: aggStep_def fun_eq_iff)
  show ?thesis
  proof (cases "fast t = []")
    case True
    have "scanRows (\<lambda>_. None) 0 (viewOrder t) (\<lambda>(key, row). slowCondition ?wh cond row)
        (\<lambda>(key, row). aggStep trimmed star aggName (rget row column)) (\<lambda>_. False) (Order t) aggInit =
      foldRows (\<lambda>k. aggStep trimmed star aggName (rget (rowAt t k) column)) (\<lambda>_. False) (matching t ?wh cond) aggInit"
      unfolding matching_def by (rule orderSource.scan_live[OF wf]) (auto simp: map_filter_viewOrder)
    with True show ?thesis by (simp add: aggregateScan_def)
  next
    case False
    have scan: "scanRows (\<lambda>_. None) 0 viewFast (\<lambda>r. fastCondition ?wh (simpleFastTerm ?wh t) cond t (fvalues r)) step (\<lambda>_. False) (fast t) aggInit =
      foldRows (\<lambda>k. aggStep trimmed star aggName (rget (rowAt t k) column)) (\<lambda>_. False) (matching t ?wh cond) aggInit"
      if "\<And>r. r \<in> set (fastSource.shown t) \<Longrightarrow> step r = aggStep trimmed star aggName (rget (rowAt t (fkey r)) column)" for step
      unfolding matching_def
      by (rule fastSource.scan_live[OF wf False]) (auto simp: shown_fast_row[OF wf] fastCondition_row[OF wf False q] that)
    show ?thesis
    proof (cases "mget (colpos t) column")
      case None
      then have "column \<notin> cName ` set (Columns t)" using colpos_has[of t column] wf False by (auto simp: wf_table_def fast_ok_def)
      with col have s: "star" "column = ''*''" by auto
      with scan[of "\<lambda>r. aggStep trimmed star aggName VNil"] star[OF s(1)] None False show ?thesis
        by (simp add: aggregateScan_def)
    next
      case (Some ci)
      have "fast_ok t" using wf by (simp add: wf_table_def)
      from scan[of "\<lambda>r. aggStep trimmed star aggName (fvalues r ! ci)"] colpos_nth(3)[OF this False Some] shown_fast_row[OF wf] Some False
      show ?thesis by (simp add: aggregateScan_def)
    qed
  qed
qed

lemma foldRows_count: "foldRows (\<lambda>k. aggStep trimmed True aggName (f k)) (\<lambda>_. False) ks st = Inr (st\<lparr>agCount := agCount st + int (length ks)\<rparr>)"
  by (induction ks arbitrary: st) (auto simp: aggStep_def)

lemma countRows_fold: "foldRows (\<lambda>_ n. Inr (n + 1)) (\<lambda>_. False) ks (n::int) = Inr (n + int (length ks))"
  by (induction ks arbitrary: n) auto

lemma length_live_Rows: "wf_table t \<Longrightarrow> length (live t) = length (Rows t)"
proof -
  assume wf: "wf_table t"
  then have d: "distinct (live t)" "distinct (mkeys (Rows t))"
    by (auto simp: wf_table_def wf_rows_def live_def)
  have "set (live t) = set (mkeys (Rows t))" using live_iff[OF wf] by (auto simp: mget_ex_iff)
  with d have "length (live t) = length (mkeys (Rows t))" by (metis distinct_card)
  then show ?thesis by simp
qed

lemma countIndexEquality_spec:
  assumes v: "validQuery t names tail maxRows cond ct" and se: "simpleEquality (stWhere tail) = Some (column, raw)"
    and ix: "mhas (Indexes t) column" and c: "c \<in> set (Columns t)" "cName c = column" "cType c \<noteq> TFloat" and ty: "typed_table t"
    and nil: "fast t = [] \<Longrightarrow> colpos t = []"
  shows "countIndexEquality background column (equalityKey t column raw) (simpleFastTerm (stWhere tail) t) cond t =
    Inr (int (length (matching t (stWhere tail) cond)))"
proof -
  let ?tm = "simpleFastTerm (stWhere tail) t"
  have wf: "wf_table t" using v by (simp add: validQuery_def)
  have tm: "?tm = (if fast t \<noteq> [] then simpleFastTerm (stWhere tail) t else None)"
    using nil by (auto simp: simpleFastTerm_def Let_def split: option.splits)
  have key: "equalityKey t column raw = keyOf raw (cType c)"
    using equalityKey_keyOf[of t c raw] c wf by (simp add: wf_table_def wf_columns_def)
  have "mset (filter (indexHit t column ?tm cond) (bucketOf t column (keyOf raw (cType c)))) = mset (matching t (stWhere tail) cond)"
    unfolding matching_def
    by (rule index_bucket_keys[OF v se ix c ty]) (rule indexHit_condition[OF v se c(1,2) _ tm], auto)
  then have "length (filter (indexHit t column ?tm cond) (bucketOf t column (keyOf raw (cType c)))) = length (matching t (stWhere tail) cond)"
    by (rule mset_eq_length)
  moreover have "List.map_filter Some xs = xs" for xs :: "string list" by (induction xs) (auto simp: List.map_filter_def)
  ultimately show ?thesis
    by (simp add: countIndexEquality_def key scanRows_fold countRows_fold)
qed

text \<open>What the shortcuts of an equality need: no NULL and no FLOAT is involved.\<close>

definition shortcutsFit :: "table \<Rightarrow> string \<Rightarrow> bool" where
  "shortcutsFit t wh \<longleftrightarrow>
     (case simpleEquality wh of
        None \<Rightarrow> True
      | Some (column, raw) \<Rightarrow>
          if column = primaryColumn t then noNullKey t \<and> hasPrimaryColumn (Columns t) \<and> keyComparable t column raw
          else if mhas (Indexes t) column then
            typed_table t \<and> (fast t = [] \<longrightarrow> colpos t = []) \<and> (\<exists>c\<in>set (Columns t). cName c = column \<and> cType c \<noteq> TFloat)
          else True)"

lemma count_star_parts:
  "IndexByte ''COUNT(*)'' (CHR ''('') = Some 5" "LastIndexByte ''COUNT(*)'' (CHR '')'') = Some 7"
  "TrimSpace ''COUNT(*)'' = ''COUNT(*)''" "ToLower ''COUNT(*)'' = ''count(*)''"
  "ToLower (TrimSpace (take (7 - (5 + 1)) (drop (5 + 1) ''COUNT(*)''))) = ''*''"
  "hasPrefixFold ''COUNT(*)'' ''COUNT(''" "\<not> hasPrefixFold ''COUNT(*)'' ''SUM(''"
  "\<not> hasPrefixFold ''COUNT(*)'' ''AVG(''" "\<not> hasPrefixFold ''COUNT(*)'' ''MIN(''" "\<not> hasPrefixFold ''COUNT(*)'' ''MAX(''"
  by code_simp+

lemma aggValue_count: "aggValue ''COUNT(*)'' st = Inr (VGoInt (agCount st))"
  by (simp only: aggValue_def count_star_parts if_False if_True not_True_eq_False)

section \<open>MIN and MAX\<close>

definition isExtremum :: "(goval \<Rightarrow> goval \<Rightarrow> bool) \<Rightarrow> goval list \<Rightarrow> goval \<Rightarrow> bool" where
  "isExtremum lt vs m \<longleftrightarrow> (if vs = [] then m = VNil else m \<in> set vs \<and> (\<forall>v\<in>set vs. \<not> lt v m))"

definition cellsOf :: "table \<Rightarrow> string \<Rightarrow> string list \<Rightarrow> goval list" where
  "cellsOf t column ks = filter (\<lambda>v. v \<noteq> VNil) (map (\<lambda>k. rget (rowAt t k) column) ks)"

fun extremum :: "(goval \<Rightarrow> goval \<Rightarrow> bool) \<Rightarrow> goval list \<Rightarrow> goval \<Rightarrow> goval" where
  "extremum lt [] m = m"
| "extremum lt (v # vs) m = extremum lt vs (if m = VNil \<or> lt v m then v else m)"

lemma extremum_least:
  assumes "weak_order A lt" "set vs \<subseteq> A - {VNil}" "isExtremum lt us m" "set us \<subseteq> A - {VNil}"
  shows "isExtremum lt (us @ vs) (extremum lt vs m)"
  using assms(2-)
proof (induction vs arbitrary: us m)
  case (Cons v vs)
  let ?m = "if m = VNil \<or> lt v m then v else m"
  have v: "v \<in> A" "v \<noteq> VNil" using Cons.prems by auto
  have irr: "\<not> lt v v" using weak_order.asymmetric[OF assms(1) v(1) v(1)] by blast
  have "isExtremum lt (us @ [v]) ?m"
  proof (cases "us = []")
    case True
    with Cons.prems irr show ?thesis by (simp add: isExtremum_def)
  next
    case False
    then have m: "m \<in> set us" "m \<noteq> VNil" "m \<in> A" "\<And>u. u \<in> set us \<Longrightarrow> \<not> lt u m" using Cons.prems by (auto simp: isExtremum_def)
    have "\<not> lt u v" if "lt v m" "u \<in> set us" for u
    proof
      assume "lt u v"
      have u: "u \<in> A" using that Cons.prems by auto
      have "\<not> lt m v" using weak_order.asymmetric[OF assms(1) v(1) m(3) that(1)] .
      from weak_order.negtrans[OF assms(1) u m(3) v(1) m(4)[OF that(2)] this] \<open>lt u v\<close> show False ..
    qed
    with m irr show ?thesis by (auto simp: isExtremum_def)
  qed
  from Cons.IH[OF _ this] Cons.prems show ?case by simp
qed simp

lemma extremum_append: "extremum lt (us @ vs) m = extremum lt vs (extremum lt us m)"
  by (induction us arbitrary: m) auto

lemma cellsOf_Cons: "cellsOf t column (k # ks) = cellsOf t column [k] @ cellsOf t column ks"
  by (simp add: cellsOf_def)

lemma foldRows_min:
  assumes "hasPrefixFold tr ''MIN(''" "\<not> hasPrefixFold tr ''SUM(''" "\<not> hasPrefixFold tr ''AVG(''"
  shows "\<exists>st'. foldRows (\<lambda>k. aggStep tr False n (rget (rowAt t k) column)) (\<lambda>_. False) ks st = Inr st' \<and>
    agMin st' = extremum valueLess (cellsOf t column ks) (agMin st)"
proof (induction ks arbitrary: st)
  case (Cons k ks)
  have "\<exists>st1. aggStep tr False n (rget (rowAt t k) column) st = Inr st1 \<and>
    agMin st1 = extremum valueLess (cellsOf t column [k]) (agMin st)"
    by (simp add: aggStep_def assms cellsOf_def Let_def)
  then obtain st1 where "aggStep tr False n (rget (rowAt t k) column) st = Inr st1"
    "agMin st1 = extremum valueLess (cellsOf t column [k]) (agMin st)" by blast
  with Cons[of st1] show ?case unfolding cellsOf_Cons[of t column k ks] by (simp add: extremum_append)
qed (simp add: cellsOf_def)

lemma foldRows_max:
  assumes "hasPrefixFold tr ''MAX(''" "\<not> hasPrefixFold tr ''MIN(''" "\<not> hasPrefixFold tr ''SUM(''" "\<not> hasPrefixFold tr ''AVG(''"
  shows "\<exists>st'. foldRows (\<lambda>k. aggStep tr False n (rget (rowAt t k) column)) (\<lambda>_. False) ks st = Inr st' \<and>
    agMax st' = extremum (\<lambda>a b. valueLess b a) (cellsOf t column ks) (agMax st)"
proof (induction ks arbitrary: st)
  case (Cons k ks)
  have "\<exists>st1. aggStep tr False n (rget (rowAt t k) column) st = Inr st1 \<and>
    agMax st1 = extremum (\<lambda>a b. valueLess b a) (cellsOf t column [k]) (agMax st)"
    by (simp add: aggStep_def assms cellsOf_def Let_def)
  then obtain st1 where "aggStep tr False n (rget (rowAt t k) column) st = Inr st1"
    "agMax st1 = extremum (\<lambda>a b. valueLess b a) (cellsOf t column [k]) (agMax st)" by blast
  with Cons[of st1] show ?case unfolding cellsOf_Cons[of t column k ks] by (simp add: extremum_append)
qed (simp add: cellsOf_def)

text \<open>How a call \<open>F(column)\<close> is read.\<close>

definition callOf :: "string \<Rightarrow> string \<Rightarrow> string" where
  "callOf f column = f @ CHR ''('' # column @ '')''"

lemma IndexByte_first: "c \<notin> set p \<Longrightarrow> IndexByte (p @ c # q) c = Some (length p)"
  by (induction p) (auto simp: IndexByte_def Index.simps)

lemma LastIndexByte_end: "LastIndexByte (p @ [c]) c = Some (length p)"
  by (simp add: LastIndexByte_def Index.simps)

lemma callOf_aggregate:
  assumes "f \<in> {''MIN'', ''MAX''}" "ToLower (TrimSpace column) = column" "column \<noteq> ''*''" "hasColumn (Columns t) column"
    "compileCondition wh (Columns t) = Some cond"
  shows "aggregateResult ctx t (callOf f column) wh =
    rbind (aggregateScan ctx t (callOf f column) False (ToLower (callOf f column)) column wh cond)
      (\<lambda>st. map_sum id (oneValue (ToLower (callOf f column))) (aggValue (callOf f column) st))"
proof -
  have f: "f \<noteq> []" "byte (hd f) < 128" "\<not> asciiSpace (hd f)" "CHR ''('' \<notin> set f" using assms(1) by (auto simp: asciiSpace_def)
  have trim: "TrimSpace (callOf f column) = callOf f column"
    by (rule TrimSpace_solid) (use f in \<open>auto simp: callOf_def asciiSpace_def\<close>)
  have o: "IndexByte (callOf f column) (CHR ''('') = Some (length f)" unfolding callOf_def by (rule IndexByte_first[OF f(4)])
  have cl: "LastIndexByte (callOf f column) (CHR '')'') = Some (length f + 1 + length column)"
    using LastIndexByte_end[of "f @ CHR ''('' # column"] by (simp add: callOf_def)
  have arg: "take (length f + 1 + length column - (length f + 1)) (drop (length f + 1) (callOf f column)) = column"
    by (simp add: callOf_def)
  show ?thesis
    unfolding aggregateResult_def Let_def trim o cl prod.case option.case arg assms(2)
    using assms(3-) by simp
qed

lemma callOf_prefixes:
  "hasPrefixFold (callOf ''MIN'' x) ''MIN(''" "\<not> hasPrefixFold (callOf ''MIN'' x) ''SUM(''" "\<not> hasPrefixFold (callOf ''MIN'' x) ''AVG(''"
  "hasPrefixFold (callOf ''MAX'' x) ''MAX(''" "\<not> hasPrefixFold (callOf ''MAX'' x) ''MIN(''"
  "\<not> hasPrefixFold (callOf ''MAX'' x) ''SUM(''" "\<not> hasPrefixFold (callOf ''MAX'' x) ''AVG(''"
  by (simp_all add: callOf_def upcase_def)

lemma weak_order_converse: "weak_order A lt \<Longrightarrow> weak_order A (\<lambda>a b. lt b a)"
  unfolding weak_order_def by blast

section \<open>GROUP BY\<close>

text \<open>The key of the group a row belongs to, and the group's cells after some rows.\<close>

definition groupKeyOf :: "table \<Rightarrow> string list \<Rightarrow> string \<Rightarrow> string" where
  "groupKeyOf t groupBy k = rowProjectionKey (map (rget (rowAt t k)) groupBy)"

definition cellAt :: "table \<Rightarrow> string \<Rightarrow> nat \<Rightarrow> goval" where
  "cellAt t k i = rget (rowAt t k) (cName (Columns t ! i))"

definition groupCells :: "table \<Rightarrow> groupItem list \<Rightarrow> string list \<Rightarrow> aggCell list res" where
  "groupCells t aggs ks = foldRows (\<lambda>k. accumulateCells aggs (cellAt t k)) (\<lambda>_. False) ks (replicate (length aggs) newCell)"

definition groupStep :: "table \<Rightarrow> string list \<Rightarrow> groupItem list \<Rightarrow> string \<Rightarrow> (string, groupAccum) gomap \<Rightarrow> (string, groupAccum) gomap res" where
  "groupStep t groupBy aggs k = accumulate aggs (map (rget (rowAt t k)) groupBy) (cellAt t k)"

lemma foldRows_append_rows:
  "foldRows step (\<lambda>_. False) (xs @ ys) s = rbind (foldRows step (\<lambda>_. False) xs s) (foldRows step (\<lambda>_. False) ys)"
  by (induction xs arbitrary: s) (auto split: sum.splits)

lemma dedupBy_snoc: "dedupBy f seen (xs @ [x]) = dedupBy f seen xs @ (if f x \<in> set seen \<union> f ` set xs then [] else [x])"
  by (induction xs arbitrary: seen) auto

text \<open>
  After the rows: the groups stand in first-seen order, every group's cells are those of its own rows, and
  its values are those of its first row.
\<close>

lemma groups_of_rows:
  assumes "foldRows (groupStep t groupBy aggs) (\<lambda>_. False) ks [] = Inr groups"
  shows "mkeys groups = map (groupKeyOf t groupBy) (dedupBy (groupKeyOf t groupBy) [] ks) \<and>
    (\<forall>key g. mget groups key = Some g \<longrightarrow>
       groupCells t aggs (filter (\<lambda>k. groupKeyOf t groupBy k = key) ks) = Inr (gaCells g) \<and> rowProjectionKey (gaVals g) = key)"
  using assms
proof (induction ks arbitrary: groups rule: rev_induct)
  case (snoc k ks)
  let ?f = "groupKeyOf t groupBy"
  from snoc.prems obtain gs where gs: "foldRows (groupStep t groupBy aggs) (\<lambda>_. False) ks [] = Inr gs" "groupStep t groupBy aggs k gs = Inr groups"
    by (cases "foldRows (groupStep t groupBy aggs) (\<lambda>_. False) ks []") (auto simp: foldRows_append_rows split: sum.splits)
  note IH = snoc.IH[OF gs(1)]
  have keys: "mkeys gs = map ?f (dedupBy ?f [] ks)" using IH by blast
  have cells: "groupCells t aggs (filter (\<lambda>k. ?f k = key) ks) = Inr (gaCells g) \<and> rowProjectionKey (gaVals g) = key" if "mget gs key = Some g" for key g
    using IH that by blast
  have known: "mhas gs key \<longleftrightarrow> key \<in> ?f ` set ks" for key
    using dedupBy_keys[of ?f "[]" ks] unfolding mhas_iff keys by simp
  define g where "g = (case mget gs (?f k) of Some g \<Rightarrow> g
      | None \<Rightarrow> \<lparr>gaVals = map (rget (rowAt t k)) groupBy, gaCells = replicate (length aggs) newCell\<rparr>)"
  have old: "groupCells t aggs (filter (\<lambda>j. ?f j = ?f k) ks) = Inr (gaCells g)" "rowProjectionKey (gaVals g) = ?f k"
  proof -
    have "groupCells t aggs (filter (\<lambda>j. ?f j = ?f k) ks) = Inr (gaCells g) \<and> rowProjectionKey (gaVals g) = ?f k"
    proof (cases "mget gs (?f k)")
      case None
      then have "filter (\<lambda>j. ?f j = ?f k) ks = []" using known[of "?f k"] by (simp add: filter_empty_conv image_iff) metis
      with None show ?thesis by (simp add: g_def groupCells_def groupKeyOf_def)
    next
      case (Some g')
      with cells[OF Some] show ?thesis by (simp add: g_def)
    qed
    then show "groupCells t aggs (filter (\<lambda>j. ?f j = ?f k) ks) = Inr (gaCells g)" "rowProjectionKey (gaVals g) = ?f k" by auto
  qed
  obtain cs where cs: "accumulateCells aggs (cellAt t k) (gaCells g) = Inr cs" "groups = mset_at gs (?f k) (g\<lparr>gaCells := cs\<rparr>)"
    using gs(2) unfolding groupStep_def accumulate_def Let_def groupKeyOf_def[symmetric] g_def[symmetric]
    by (cases "accumulateCells aggs (cellAt t k) (gaCells g)") auto
  have new: "groupCells t aggs (filter (\<lambda>j. ?f j = ?f k) (ks @ [k])) = Inr cs"
    using old(1) cs(1) by (simp add: groupCells_def foldRows_append_rows)
  have "mkeys groups = map ?f (dedupBy ?f [] (ks @ [k]))"
    using keys known[of "?f k"] unfolding cs(2)
    by (cases "?f k \<in> ?f ` set ks") (simp_all add: dedupBy_snoc mkeys_update_present length_update_absent)
  moreover have "groupCells t aggs (filter (\<lambda>j. ?f j = key) (ks @ [k])) = Inr (gaCells g') \<and> rowProjectionKey (gaVals g') = key"
    if "mget groups key = Some g'" for key g'
  proof (cases "key = ?f k")
    case True
    with that new old(2) show ?thesis by (auto simp: cs(2) gomap_simps)
  next
    case False
    with that cells[of key g'] show ?thesis by (simp add: cs(2) gomap_simps)
  qed
  ultimately show ?case by blast
qed simp

text \<open>COUNT(*) counts the rows of the group.\<close>

lemma accumulateCells_nth:
  assumes "accumulateCells aggs val cells = Inr cells'" "j < length aggs" "length cells = length aggs"
  shows "length cells' = length aggs \<and> accumulateCell (aggs ! j) val (cells ! j) = Inr (cells' ! j)"
  using assms
proof (induction aggs val cells arbitrary: cells' j rule: accumulateCells.induct)
  case (1 it its val cell cells)
  from "1.prems"(1) obtain c cs where cs: "accumulateCell it val cell = Inr c" "accumulateCells its val cells = Inr cs" "cells' = c # cs"
    by (cases "accumulateCell it val cell"; cases "accumulateCells its val cells") auto
  have "length cs = length its"
  proof (cases its)
    case Nil
    with cs(2) "1.prems"(3) show ?thesis by (cases cells) auto
  next
    case (Cons a b)
    with "1.IH"[OF cs(1,2), of 0] "1.prems" show ?thesis by simp
  qed
  moreover have "accumulateCell (its ! i) val (cells ! i) = Inr (cs ! i)" if "j = Suc i" for i
    using "1.IH"[OF cs(1,2), of i] "1.prems" that by simp
  ultimately show ?case using cs by (cases j) simp_all
qed auto

lemma groupCells_count:
  assumes "groupCells t aggs ks = Inr cells" "j < length aggs" "giKind (aggs ! j) = Some aggCount" "giArgIdx (aggs ! j) = None"
  shows "length cells = length aggs \<and> acCount (cells ! j) = int (length ks)"
  using assms(1)
proof (induction ks arbitrary: cells rule: rev_induct)
  case Nil
  with assms(2) show ?case by (auto simp: groupCells_def newCell_def)
next
  case (snoc k ks)
  then obtain cs where cs: "groupCells t aggs ks = Inr cs" "accumulateCells aggs (cellAt t k) cs = Inr cells"
    by (cases "groupCells t aggs ks") (auto simp: groupCells_def foldRows_append_rows split: sum.splits)
  have "length cells = length aggs" "accumulateCell (aggs ! j) (cellAt t k) (cs ! j) = Inr (cells ! j)"
    using snoc.IH[OF cs(1)] accumulateCells_nth[OF cs(2) assms(2)] by auto
  moreover have "cells ! j = (cs ! j)\<lparr>acCount := int (length ks) + 1\<rparr>"
    using calculation(2) snoc.IH[OF cs(1)] assms(3,4) by (simp add: accumulateCell_def)
  ultimately show ?case by simp
qed

text \<open>The scan of GROUP BY over either source.\<close>

lemma accumulateCells_cong:
  assumes "\<And>it i. it \<in> set aggs \<Longrightarrow> giArgIdx it = Some i \<Longrightarrow> v i = w i"
  shows "accumulateCells aggs v cells = accumulateCells aggs w cells"
  using assms
proof (induction aggs v cells rule: accumulateCells.induct)
  case (1 it its v cell cells)
  have "accumulateCell it v cell = accumulateCell it w cell"
    using "1.prems"[of it] by (auto simp: accumulateCell_def split: option.splits)
  moreover have "accumulateCell it v cell = Inr c \<Longrightarrow> accumulateCells its v cells = accumulateCells its w cells" for c
    using 1 by auto
  ultimately show ?case by (auto split: sum.splits)
qed auto

lemma accumulate_cong:
  assumes "\<And>it i. it \<in> set aggs \<Longrightarrow> giArgIdx it = Some i \<Longrightarrow> v i = w i"
  shows "accumulate aggs gvals v = accumulate aggs gvals w"
  using accumulateCells_cong[of aggs v w, OF assms] by (simp add: accumulate_def fun_eq_iff)

definition groupable :: "table \<Rightarrow> string list \<Rightarrow> nat list \<Rightarrow> groupItem list \<Rightarrow> bool" where
  "groupable t groupBy gIdx aggs \<longleftrightarrow>
     list_all2 (\<lambda>g i. mget (columnIndexes 0 (Columns t) []) g = Some i) groupBy gIdx \<and>
     list_all (\<lambda>it. case giArgIdx it of Some i \<Rightarrow> i < length (Columns t) | None \<Rightarrow> True) aggs"

lemma groupScan_spec:
  assumes v: "validQuery t names tail maxRows cond ct" and g: "groupable t (stGroup tail) gIdx aggs"
  shows "groupScan background t tail gIdx aggs cond =
    foldRows (groupStep t (stGroup tail) aggs) (\<lambda>_. False) (matching t (stWhere tail) cond) []"
proof -
  have wf: "wf_table t" and cc: "compileCondition (stWhere tail) (Columns t) = Some cond" using v by (auto simp: validQuery_def)
  show ?thesis
  proof (cases "fast t = []")
    case True
    have "scanRows (\<lambda>_. None) 0 (viewOrder t) (\<lambda>(key, row). stWhere tail = [] \<or> matchesMap cond row)
          (\<lambda>(key, row). accumulate aggs (map (rget row) (stGroup tail)) (\<lambda>i. rget row (cName (Columns t ! i))))
          (\<lambda>_. False) (Order t) [] = foldRows (groupStep t (stGroup tail) aggs) (\<lambda>_. False) (matching t (stWhere tail) cond) []"
      unfolding matching_def
      by (rule orderSource.scan_live[OF wf]) (auto simp: map_filter_viewOrder slowCondition_def groupStep_def cellAt_def[abs_def])
    with True show ?thesis by (simp add: groupScan_def)
  next
    case False
    have gv: "map ((!) (fastValues (Columns t) row)) gIdx = map (rget row) (stGroup tail)" for row
    proof -
      have "fastValues (Columns t) row ! i = rget row x" if "mget (columnIndexes 0 (Columns t) []) x = Some i" for x i
        using that mget_columnIndexes[of "Columns t" 0 "[]" x i] wf by (auto simp: wf_table_def wf_columns_def fastValues_def split: if_splits)
      with g show ?thesis unfolding groupable_def list_all2_conv_all_nth by (auto intro!: nth_equalityI)
    qed
    have av: "accumulate aggs gvals ((!) (fastValues (Columns t) (rowAt t k))) = accumulate aggs gvals (cellAt t k)" for gvals k
      by (rule accumulate_cong) (use g in \<open>auto simp: groupable_def list_all_iff fastValues_def cellAt_def split: option.splits\<close>)
    have "scanRows (\<lambda>_. None) 0 viewFast (\<lambda>r. stWhere tail = [] \<or> matchesFast cond (fvalues r) (colpos t))
          (\<lambda>r. accumulate aggs (map ((!) (fvalues r)) gIdx) ((!) (fvalues r))) (\<lambda>_. False) (fast t) [] =
        foldRows (groupStep t (stGroup tail) aggs) (\<lambda>_. False) (matching t (stWhere tail) cond) []"
      unfolding matching_def
      by (rule fastSource.scan_live[OF wf False])
         (simp_all only: shown_fast_row[OF wf] matchesFast_row[OF wf False cc] slowCondition_def groupStep_def gv av)
    with False show ?thesis by (simp add: groupScan_def)
  qed
qed

section \<open>Properties\<close>

text \<open>
  C35: \<^verbatim>\<open>SELECT COUNT(*)\<close> is the number of live rows that satisfy WHERE, whichever way it is computed: from the
  length of the row map, by a primary-key lookup, by a secondary index, or by a scan of the fast array or of
  the row order.
\<close>

theorem count_star_correct:
  assumes v: "validQuery t [] tail 0 cond ct" and fit: "shortcutsFit t (stWhere tail)"
  shows "aggregateResult background t ''COUNT(*)'' (stWhere tail) =
    Inr (oneValue ''count(*)'' (VGoInt (int (length (matching t (stWhere tail) cond)))))"
proof -
  let ?wh = "stWhere tail" and ?n = "int (length (matching t (stWhere tail) cond))"
  have wf: "wf_table t" and cc: "compileCondition ?wh (Columns t) = Some cond" using v by (auto simp: validQuery_def)
  have none: "?wh = [] \<Longrightarrow> ?n = int (length (Rows t))"
    using length_live_Rows[OF wf] by (simp add: matching_def slowCondition_def)
  let ?general = "rbind (aggregateScan background t ''COUNT(*)'' True ''count(*)'' ''*'' ?wh cond)
      (\<lambda>st. map_sum id (oneValue ''count(*)'') (aggValue ''COUNT(*)'' st))"
  have gen: "?general = Inr (oneValue ''count(*)'' (VGoInt ?n))"
    by (simp add: aggregateScan_spec[OF v] foldRows_count aggValue_count aggInit_def)
  have red: "aggregateResult background t ''COUNT(*)'' ?wh =
      (if ?wh = [] then Inr (oneValue ''count(*)'' (VGoInt (int (length (Rows t)))))
       else case simpleEquality ?wh of
          None \<Rightarrow> ?general
        | Some (col, raw) \<Rightarrow>
            if col = primaryColumn t then Inr (oneValue ''count(*)'' (VGoInt (if mhas (Rows t) (equalityKey t col raw) then 1 else 0)))
            else if mhas (Indexes t) col then
              map_sum id (\<lambda>n. oneValue ''count(*)'' (VGoInt n)) (countIndexEquality background col (equalityKey t col raw) (simpleFastTerm ?wh t) cond t)
            else ?general)"
    unfolding aggregateResult_def Let_def count_star_parts(1-4) option.case prod.case count_star_parts(5) eqTrueI[OF count_star_parts(6)] simp_thms
    by (simp add: cc)
  show ?thesis
  proof (cases "?wh = [] \<or> simpleEquality ?wh = None")
    case True
    with gen none show ?thesis by (auto simp: red)
  next
    case False
    then obtain col raw where se: "simpleEquality ?wh = Some (col, raw)" "?wh \<noteq> []" by auto
    show ?thesis
    proof (cases "col = primaryColumn t")
      case True
      with fit se have "?n = (if mhas (Rows t) (equalityKey t col raw) then 1 else 0)"
        using key_condition[OF v, of raw] by (simp add: shortcutsFit_def matching_def)
      with True se show ?thesis by (simp add: red)
    next
      case F: False
      show ?thesis
      proof (cases "mhas (Indexes t) col")
        case True
        with F fit se obtain c where "c \<in> set (Columns t)" "cName c = col" "cType c \<noteq> TFloat" "typed_table t" "fast t = [] \<Longrightarrow> colpos t = []"
          by (auto simp: shortcutsFit_def)
        from countIndexEquality_spec[OF v se(1) True this] True F se show ?thesis by (simp add: red)
      next
        case False
        with F se gen show ?thesis by (simp add: red)
      qed
    qed
  qed
qed

theorem count_star_correct_witness:
  "aggregateResult background indexedUsers ''COUNT(*)'' ''name = b'' =
     Inr (oneValue ''count(*)'' (VGoInt (int (length (matching indexedUsers ''name = b''
       [[\<lparr>ctColumn = ''name'', ctExpected = VStr ''b'', ctOp = opEq\<rparr>]])))))"
proof -
  let ?tail = "sampleTail ''name = b''\<lparr>stOrder := []\<rparr>" and ?c = "\<lparr>cName = ''name'', cType = TText, cPrimary = False\<rparr>"
  have c: "compileCondition ''name = b'' (Columns twoUsers) = Some [[\<lparr>ctColumn = ''name'', ctExpected = VStr ''b'', ctOp = opEq\<rparr>]]"
    "TrimSpace ''name = b'' = ''name = b''" by code_simp+
  have v: "validQuery indexedUsers [] ?tail 0 [[\<lparr>ctColumn = ''name'', ctExpected = VStr ''b'', ctOp = opEq\<rparr>]] (Some TText)"
    using twoUsers_valid[OF c] indexedUsers_wf(1) unfolding validQuery_def indexedUsers_eq
    by (simp add: sampleTail_def inCaps_def maxInt_def)
  have "simpleEquality ''name = b'' = Some (''name'', ''b'')" by code_simp
  then have "shortcutsFit indexedUsers (stWhere ?tail)"
    using indexedUsers_wf(2)
    by (simp add: shortcutsFit_def sampleTail_def indexedUsers_eq twoUsers_def users_def newTable_def primaryColumn_def)
  from count_star_correct[OF v this] show ?thesis by (simp add: sampleTail_def)
qed

text \<open>
  MIN and MAX of a column return a non-NULL cell of a matching row that no other such cell is below
  (above), and NULL when there is none.
\<close>

theorem min_max_correct:
  assumes v: "validQuery t [column] tail 0 cond ct" and name: "ToLower (TrimSpace column) = column" "column \<noteq> ''*''"
    and cmp: "\<forall>k\<in>set (live t). rget (rowAt t k) column \<in> comparableAs c"
  shows "(\<exists>m. aggregateResult background t (callOf ''MIN'' column) (stWhere tail) = Inr (oneValue (ToLower (callOf ''MIN'' column)) m) \<and>
      isExtremum valueLess (cellsOf t column (matching t (stWhere tail) cond)) m) \<and>
    (\<exists>m. aggregateResult background t (callOf ''MAX'' column) (stWhere tail) = Inr (oneValue (ToLower (callOf ''MAX'' column)) m) \<and>
      isExtremum (\<lambda>a b. valueLess b a) (cellsOf t column (matching t (stWhere tail) cond)) m)" (is "?min \<and> ?max")
proof -
  have cc: "compileCondition (stWhere tail) (Columns t) = Some cond" "hasColumn (Columns t) column" using v by (auto simp: validQuery_def)
  have col: "column \<in> cName ` set (Columns t) \<or> False \<and> column = ''*''" using cc(2) by (simp add: hasColumn_iff)
  let ?ks = "matching t (stWhere tail) cond"
  have sub: "set (cellsOf t column ?ks) \<subseteq> comparableAs c - {VNil}"
    using cmp by (auto simp: cellsOf_def matching_def)
  have ext: "isExtremum lt (cellsOf t column ?ks) (extremum lt (cellsOf t column ?ks) VNil)" if "weak_order (comparableAs c) lt" for lt
    using extremum_least[OF that sub, of "[]" VNil] by (simp add: isExtremum_def)
  obtain st where "foldRows (\<lambda>k. aggStep (callOf ''MIN'' column) False (ToLower (callOf ''MIN'' column)) (rget (rowAt t k) column)) (\<lambda>_. False) ?ks aggInit = Inr st"
    "agMin st = extremum valueLess (cellsOf t column ?ks) (agMin aggInit)" using foldRows_min[OF callOf_prefixes(1-3)] by blast
  with ext[OF valueLess_weak] have ?min
    using callOf_aggregate[OF _ name cc(2,1), of "''MIN''" background]
    by (auto simp: aggregateScan_spec[OF v col] aggInit_def aggValue_def callOf_prefixes)
  moreover obtain st' where "foldRows (\<lambda>k. aggStep (callOf ''MAX'' column) False (ToLower (callOf ''MAX'' column)) (rget (rowAt t k) column)) (\<lambda>_. False) ?ks aggInit = Inr st'"
    "agMax st' = extremum (\<lambda>a b. valueLess b a) (cellsOf t column ?ks) (agMax aggInit)" using foldRows_max[OF callOf_prefixes(4-7)] by blast
  with ext[OF weak_order_converse[OF valueLess_weak]] have ?max
    using callOf_aggregate[OF _ name cc(2,1), of "''MAX''" background]
    by (auto simp: aggregateScan_spec[OF v col] aggInit_def aggValue_def callOf_prefixes)
  ultimately show ?thesis ..
qed

theorem min_max_correct_witness:
  "(\<exists>m. aggregateResult background twoUsers (callOf ''MIN'' ''name'') ''id >= 1'' = Inr (oneValue (ToLower (callOf ''MIN'' ''name'')) m) \<and>
      isExtremum valueLess (cellsOf twoUsers ''name'' (matching twoUsers ''id >= 1'' [[\<lparr>ctColumn = ''id'', ctExpected = VInt 1, ctOp = opGe\<rparr>]])) m) \<and>
   aggregateResult background twoUsers (callOf ''MIN'' ''name'') ''id >= 1'' = Inr (oneValue ''min(name)'' (VStr ''a''))"
proof
  let ?tail = "sampleTail ''id >= 1''\<lparr>stOrder := []\<rparr>"
  have c: "compileCondition ''id >= 1'' (Columns twoUsers) = Some [[\<lparr>ctColumn = ''id'', ctExpected = VInt 1, ctOp = opGe\<rparr>]]"
    "TrimSpace ''id >= 1'' = ''id >= 1''" by code_simp+
  have v: "validQuery twoUsers [''name''] ?tail 0 [[\<lparr>ctColumn = ''id'', ctExpected = VInt 1, ctOp = opGe\<rparr>]] (Some TText)"
    using twoUsers_valid[OF c] unfolding validQuery_def by (simp add: sampleTail_def)
  have n: "ToLower (TrimSpace ''name'') = ''name''" "''name'' \<noteq> ''*''" by code_simp+
  have "\<forall>k\<in>set (live twoUsers). rget (rowAt twoUsers k) ''name'' \<in> comparableAs (Some TText)"
    using twoUsers_valid[OF c] by (simp add: validQuery_def sampleTail_def)
  from min_max_correct[OF v n this]
  show "\<exists>m. aggregateResult background twoUsers (callOf ''MIN'' ''name'') ''id >= 1'' = Inr (oneValue (ToLower (callOf ''MIN'' ''name'')) m) \<and>
      isExtremum valueLess (cellsOf twoUsers ''name'' (matching twoUsers ''id >= 1'' [[\<lparr>ctColumn = ''id'', ctExpected = VInt 1, ctOp = opGe\<rparr>]])) m"
    by (simp add: sampleTail_def)
  show "aggregateResult background twoUsers (callOf ''MIN'' ''name'') ''id >= 1'' = Inr (oneValue ''min(name)'' (VStr ''a''))"
    by code_simp
qed

text \<open>\<^verbatim>\<open>COUNT(*)\<close> as an item of a select list.\<close>

definition countItem :: groupItem where
  "countItem = \<lparr>giName = ''count(*)'', giKind = Some aggCount, giArg = ''*'', giArgIdx = None\<rparr>"

text \<open>
  C36: GROUP BY partitions the matching rows: there is one group per distinct combination of the grouping
  columns, in the order the combinations are first seen, the cells of a group are accumulated over exactly
  its own rows, and a COUNT(*) cell is the number of those rows.
\<close>

theorem group_by_partitions:
  assumes v: "validQuery t names tail maxRows cond ct" and g: "groupable t (stGroup tail) gIdx aggs"
    and r: "groupScan background t tail gIdx aggs cond = Inr groups"
  shows "mkeys groups = map (groupKeyOf t (stGroup tail)) (dedupBy (groupKeyOf t (stGroup tail)) [] (matching t (stWhere tail) cond)) \<and>
    (\<forall>key acc. mget groups key = Some acc \<longrightarrow>
       groupCells t aggs (filter (\<lambda>k. groupKeyOf t (stGroup tail) k = key) (matching t (stWhere tail) cond)) = Inr (gaCells acc) \<and>
       rowProjectionKey (gaVals acc) = key \<and>
       (\<forall>j < length aggs. giKind (aggs ! j) = Some aggCount \<and> giArgIdx (aggs ! j) = None \<longrightarrow>
          acCount (gaCells acc ! j) = int (length (filter (\<lambda>k. groupKeyOf t (stGroup tail) k = key) (matching t (stWhere tail) cond)))))"
  using groups_of_rows[OF r[unfolded groupScan_spec[OF v g]]] groupCells_count by blast

theorem group_by_partitions_witness:
  "groupScan background twoUsers (sampleTail []\<lparr>stGroup := [''name'']\<rparr>) [1] [countItem] [] =
     Inr [(''s1:a'', \<lparr>gaVals = [VStr ''a''], gaCells = [newCell\<lparr>acCount := 1\<rparr>]\<rparr>),
          (''s1:b'', \<lparr>gaVals = [VStr ''b''], gaCells = [newCell\<lparr>acCount := 1\<rparr>]\<rparr>)] \<and>
   [''s1:a'', ''s1:b''] = map (groupKeyOf twoUsers [''name'']) (dedupBy (groupKeyOf twoUsers [''name'']) [] (matching twoUsers [] []))"
proof
  let ?tail = "sampleTail []\<lparr>stGroup := [''name'']\<rparr>"
  show r: "groupScan background twoUsers (sampleTail []\<lparr>stGroup := [''name'']\<rparr>) [1] [countItem] [] =
     Inr [(''s1:a'', \<lparr>gaVals = [VStr ''a''], gaCells = [newCell\<lparr>acCount := 1\<rparr>]\<rparr>),
          (''s1:b'', \<lparr>gaVals = [VStr ''b''], gaCells = [newCell\<lparr>acCount := 1\<rparr>]\<rparr>)]" by code_simp
  have c: "compileCondition [] (Columns twoUsers) = Some []" "TrimSpace [] = []" by code_simp+
  have v: "validQuery twoUsers [''name''] ?tail 0 [] (Some TText)"
    using twoUsers_valid[OF c] unfolding validQuery_def by (simp add: sampleTail_def)
  have g: "groupable twoUsers (stGroup ?tail) [1] [countItem]"
    by (simp add: groupable_def countItem_def twoUsers_def users_def newTable_def)
  from group_by_partitions[OF v g r]
  show "[''s1:a'', ''s1:b''] = map (groupKeyOf twoUsers [''name'']) (dedupBy (groupKeyOf twoUsers [''name'']) [] (matching twoUsers [] []))"
    by (simp add: sampleTail_def)
qed

end
