(* ===== verification/Engine.thy ===== *)
theory Engine
  imports Aggregate
begin

text \<open>
  Whole statements: the INSERT statement of \<^verbatim>\<open>internal/engine/insert.go\<close> (VALUES and SELECT forms) and the
  dispatch of \<^verbatim>\<open>internal/engine/database.go\<close> (\<^verbatim>\<open>exec\<close>, \<^verbatim>\<open>ExecWithOptions\<close>, \<^verbatim>\<open>ExecBatchContext\<close>,
  \<^verbatim>\<open>IsReadOnly\<close>, \<^verbatim>\<open>RowCount\<close>).

  A statement is a step of a state machine on databases (\<open>db_step\<close>, with the table operations as
  \<open>table_step\<close>): \<open>exec_step\<close> shows that the dispatcher and the statement parsers only ever take such steps.
  The properties of statements follow by cases on the steps: what keeps the invariant of every table, that a
  failed statement changes nothing, and that a read-only statement changes nothing.
\<close>

declare map_of_eq_Some_iff [simp del] Some_eq_map_of_iff [simp del]

section \<open>INSERT, the whole statement (insert.go)\<close>

text \<open>The rows of the source query, coerced to the destination's columns.\<close>

fun selectedColumns :: "column list \<Rightarrow> goval list \<Rightarrow> row \<Rightarrow> string \<Rightarrow> (row \<times> string) res" where
  "selectedColumns [] line row key = Inr (row, key)"
| "selectedColumns (c # cs) line row key =
     (case coerceValue (case line of [] \<Rightarrow> VNil | v # _ \<Rightarrow> v) (cType c) of
        Inl e \<Rightarrow> Inl e
      | Inr cv \<Rightarrow> selectedColumns cs (tl line) (mset_at row (cName c) cv) (if cPrimary c then valueKey cv else key))"

definition selectedRow :: "column list \<Rightarrow> goval list \<Rightarrow> insertRow res" where
  "selectedRow cols line =
     (case selectedColumns cols line [] [] of
        Inl e \<Rightarrow> Inl e
      | Inr (row, key) \<Rightarrow>
          if key = [] \<and> hasPrimaryColumn cols then Inl (Msg ''primary key required'')
          else Inr \<lparr>irKey = key, irRow = row\<rparr>)"

text \<open>\<^verbatim>\<open>s[a:b]\<close> of a string, a panic where the bounds are out of range.\<close>

definition sliceText :: "string \<Rightarrow> nat \<Rightarrow> nat \<Rightarrow> string res" where
  "sliceText s a b = (case gslice s a b of None \<Rightarrow> Inl (Panic ''slice bounds out of range'') | Some x \<Rightarrow> Inr x)"

definition intoTable :: "string \<Rightarrow> nat \<Rightarrow> nat \<Rightarrow> database \<Rightarrow> (string \<times> table) res" where
  "intoTable s off stop d =
     rbind (sliceText s off stop) (\<lambda>target.
       case firstField target of
         None \<Rightarrow> Inl (Msg ''invalid INSERT'')
       | Some tableName \<Rightarrow> rbind (table_lookup d tableName) (\<lambda>t. Inr (tableName, t)))"

definition insertSelect :: "ctx \<Rightarrow> string \<Rightarrow> nat \<Rightarrow> nat \<Rightarrow> bool \<Rightarrow> int \<Rightarrow> database \<Rightarrow> result res \<times> database" where
  "insertSelect ctx s intoEnd selectStart replace maxRows d =
     (case intoTable s intoEnd selectStart d of
        Inl e \<Rightarrow> (Inl e, d)
      | Inr (tableName, t) \<Rightarrow>
          (case selectRows ctx (TrimSpace (drop selectStart s)) maxRows d of
             Inl e \<Rightarrow> (Inl e, d)
           | Inr src \<Rightarrow>
               if length (resColumns src) \<noteq> length (Columns t) then (Inl (Msg ''column count mismatch''), d)
               else case mapR (selectedRow (Columns t)) (resRows src) of
                 Inl e \<Rightarrow> (Inl e, d)
               | Inr rows \<Rightarrow>
                   (case applyInsertRows ctx rows replace t of (r, t') \<Rightarrow> (r, setTable d tableName t'))))"

text \<open>\<^verbatim>\<open>OR REPLACE\<close> after INSERT, and the keyword INTO.\<close>

definition insertHead :: "string \<Rightarrow> (bool \<times> string) res" where
  "insertHead s =
     (let body = TrimSpace (drop 6 s);
          orReplace = hasWord body ''OR'';
          body2 = TrimSpace (drop 2 body)
      in rbind (if orReplace then
                  (if \<not> hasWord body2 ''REPLACE'' then Inl (Msg ''invalid INSERT'') else Inr (TrimSpace (drop 7 body2)))
                else Inr body) (\<lambda>body.
           if \<not> hasWord body ''INTO'' then Inl (Msg ''invalid INSERT'') else Inr (orReplace, body)))"

definition insertInto :: "ctx \<Rightarrow> string \<Rightarrow> nat \<Rightarrow> nat \<Rightarrow> bool \<Rightarrow> database \<Rightarrow> result res \<times> database" where
  "insertInto ctx s intoEnd vi replace d =
     (case intoTable s intoEnd vi d of
        Inl e \<Rightarrow> (Inl e, d)
      | Inr (tableName, t) \<Rightarrow>
          (case insertValues ctx (drop (vi + 6) s) replace t of (r, t') \<Rightarrow> (r, setTable d tableName t')))"

definition insert_stmt :: "ctx \<Rightarrow> string \<Rightarrow> int \<Rightarrow> database \<Rightarrow> result res \<times> database" where
  "insert_stmt ctx s maxRows d =
     (case insertHead s of
        Inl e \<Rightarrow> (Inl e, d)
      | Inr (replace, body) \<Rightarrow>
          let off = length s - length body + 4 in
          (case (indexKeyword s ''VALUES'', indexKeyword s ''SELECT'') of
             (None, None) \<Rightarrow> (Inl (Msg ''INSERT requires VALUES or SELECT''), d)
           | (None, Some si) \<Rightarrow> insertSelect ctx s off si replace maxRows d
           | (Some vi, None) \<Rightarrow> insertInto ctx s off vi replace d
           | (Some vi, Some si) \<Rightarrow>
               if si < vi then insertSelect ctx s off si replace maxRows d else insertInto ctx s off vi replace d))"

section \<open>Statements (database.go)\<close>

definition IsReadOnly :: "string \<Rightarrow> bool" where
  "IsReadOnly sql \<longleftrightarrow>
     (let s = TrimSpace sql in
      hasPrefixFold s ''SELECT'' \<or> hasPrefixFold s ''SHOW'' \<or> hasPrefixFold s ''DESCRIBE'' \<or> hasPrefixFold s ''DESC'')"

definition exec :: "ctx \<Rightarrow> string \<Rightarrow> int \<Rightarrow> database \<Rightarrow> result res \<times> database" where
  "exec ctx sql maxRows d =
     (let s = TrimSpace (TrimSuffix (TrimSpace sql) '';'') in
      if hasPrefixFold s ''CREATE TABLE'' then create s d
      else if hasPrefixFold s ''CREATE INDEX'' then createIndex ctx s d
      else if hasPrefixFold s ''ALTER TABLE'' then alterTable ctx s d
      else if hasPrefixFold s ''DROP TABLE'' \<or> hasPrefixFold s ''DROP INDEX'' then drop_stmt s d
      else if hasPrefixFold s ''TRUNCATE'' then truncate_stmt s d
      else if hasPrefixFold s ''INSERT'' then insert_stmt ctx s maxRows d
      else if hasPrefixFold s ''SELECT'' then (selectRows ctx s maxRows d, d)
      else if hasPrefixFold s ''SHOW'' \<or> hasPrefixFold s ''DESC'' then (meta s d, d)
      else if hasPrefixFold s ''UPDATE'' then update ctx s d
      else if hasPrefixFold s ''DELETE FROM'' then delete ctx s d
      else (Inl (Msg ''unsupported SQL''), d))"

text \<open>The revision is an \<^verbatim>\<open>atomic.Uint64\<close>: it wraps.\<close>

definition ExecWithOptions :: "ctx \<Rightarrow> string \<Rightarrow> int \<Rightarrow> database \<Rightarrow> result res \<times> database" where
  "ExecWithOptions ctx sql maxRows d =
     (case entry ctx of
        Some e \<Rightarrow> (Inl e, d)
      | None \<Rightarrow>
          (case exec ctx sql maxRows d of
             (r, d') \<Rightarrow>
               (r, if \<not> IsReadOnly sql \<and> (case r of Inr _ \<Rightarrow> True | Inl _ \<Rightarrow> False) then d'\<lparr>revision := revision d' + 1\<rparr> else d')))"

definition Exec :: "string \<Rightarrow> database \<Rightarrow> result res \<times> database" where
  "Exec sql d = ExecWithOptions background sql 0 d"

text \<open>\<^verbatim>\<open>fmt.Errorf("statement %d: %w")\<close>: the number of the statement and the error it wraps.\<close>

record batchError =
  beStatement :: nat
  beCause :: error

fun execBatchLoop ::
  "(nat \<Rightarrow> ctx) \<Rightarrow> nat \<Rightarrow> string list \<Rightarrow> int \<Rightarrow> result list \<Rightarrow> database \<Rightarrow> result list \<times> batchError option \<times> database" where
  "execBatchLoop ctxs i [] maxRows results d = (results, None, d)"
| "execBatchLoop ctxs i (sql # sqls) maxRows results d =
     (case ExecWithOptions (ctxs i) sql maxRows d of
        (Inl e, d') \<Rightarrow> (results, Some \<lparr>beStatement = i + 1, beCause = e\<rparr>, d')
      | (Inr r, d') \<Rightarrow> execBatchLoop ctxs (Suc i) sqls maxRows (results @ [r]) d')"

definition ExecBatchContext :: "(nat \<Rightarrow> ctx) \<Rightarrow> string list \<Rightarrow> int \<Rightarrow> database \<Rightarrow> result list \<times> batchError option \<times> database" where
  "ExecBatchContext ctxs sqls maxRows d = execBatchLoop ctxs 0 sqls maxRows [] d"

definition RowCount :: "database \<Rightarrow> nat" where
  "RowCount d = fold (\<lambda>(name, t) n. n + length (Rows t)) (Tables d) 0"


section \<open>Statements as steps\<close>

text \<open>
  A statement is a step on a database: it changes nothing, adds or removes a table, or applies one table
  operation to one table. Steps carry the kind of their statement.
\<close>

datatype stmtKind = InsertStmt | UpdateStmt | OtherStmt

text \<open>The Go type of a cell is the one of its column, or it is \<^verbatim>\<open>nil\<close>.\<close>

definition ofType :: "coltype \<Rightarrow> goval \<Rightarrow> bool" where
  "ofType typ v \<longleftrightarrow>
     (case v of
        VNil \<Rightarrow> True
      | VInt i \<Rightarrow> typ = TInt
      | VFloat f \<Rightarrow> typ = TFloat
      | VStr s \<Rightarrow> typ = TText
      | VBool b \<Rightarrow> typ = TBool
      | _ \<Rightarrow> False)"

definition rowTyped :: "column list \<Rightarrow> row \<Rightarrow> bool" where
  "rowTyped cols row \<longleftrightarrow> (\<forall>c \<in> set cols. ofType (cType c) (rget row (cName c)))"

lemma typedVal_ofType: "typedVal typ v \<Longrightarrow> ofType typ v"
  by (auto simp: typedVal_def ofType_def split: goval.splits)

lemma typedRow_rowTyped: "typedRow cols row \<Longrightarrow> rowTyped cols row"
  by (simp add: typedRow_def rowTyped_def typedVal_ofType)

lemma coerceValue_ofType: "coerceValue v typ = Inr x \<Longrightarrow> ofType typ x"
  by (auto simp: coerceValue_def ofType_def Let_def split: if_splits coltype.splits goval.splits sum.splits)

inductive table_step :: "ctx \<Rightarrow> stmtKind \<Rightarrow> table \<Rightarrow> result res \<Rightarrow> table \<Rightarrow> bool" for ctx :: ctx where
  step_index: "createIndexOn ctx name column t = (r, t') \<Longrightarrow> table_step ctx OtherStmt t r t'"
| step_unindex: "dropIndexOf name t = (r, t') \<Longrightarrow> table_step ctx OtherStmt t r t'"
| step_add: "column \<noteq> [] \<Longrightarrow> addColumn ctx column ct t = (r, t') \<Longrightarrow> table_step ctx OtherStmt t r t'"
| step_drop: "dropColumnOf ctx column t = (r, t') \<Longrightarrow> table_step ctx OtherStmt t r t'"
| step_truncate: "table_step ctx OtherStmt t (Inr m) (truncateTable t)"
| step_insert: "wf_columns (Columns t) \<longrightarrow> (\<forall>r \<in> set rows. rowFits (Columns t) r \<and> rowTyped (Columns t) (irRow r)) \<Longrightarrow> applyInsertRows ctx rows replace t = (r, t') \<Longrightarrow> table_step ctx InsertStmt t r t'"
| step_update: "columnType (Columns t) col = Some ct \<Longrightarrow> ofType ct v \<Longrightarrow> updateTable ctx m col v t = (r, t') \<Longrightarrow> table_step ctx UpdateStmt t r t'"
| step_delete: "deleteTable ctx m t = (r, t') \<Longrightarrow> table_step ctx OtherStmt t r t'"

definition namedColumns :: "column list \<Rightarrow> bool" where
  "namedColumns cols \<longleftrightarrow> list_all (\<lambda>c. cName c \<noteq> []) cols"

inductive db_step :: "ctx \<Rightarrow> stmtKind \<Rightarrow> database \<Rightarrow> result res \<Rightarrow> database \<Rightarrow> bool" for ctx :: ctx where
  step_none: "db_step ctx k d r d"
| step_create: "wf_columns cols \<Longrightarrow> namedColumns cols \<Longrightarrow> \<not> mhas (Tables d) name \<Longrightarrow>
    db_step ctx k d (Inr m) (d\<lparr>Tables := mset_at (Tables d) name (newTable name cols)\<rparr>)"
| step_remove: "db_step ctx k d (Inr m) (d\<lparr>Tables := mdel (Tables d) name\<rparr>)"
| step_table: "table_lookup d name = Inr t \<Longrightarrow> table_step ctx k t r t' \<Longrightarrow> db_step ctx k d r (setTable d name t')"

definition dbAll :: "(table \<Rightarrow> bool) \<Rightarrow> database \<Rightarrow> bool" where
  "dbAll P d \<longleftrightarrow> (\<forall>n t. mget (Tables d) n = Some t \<longrightarrow> P t)"

lemma dbAll_lookup: "dbAll P d \<Longrightarrow> table_lookup d n = Inr t \<Longrightarrow> P t"
  by (auto simp: dbAll_def table_lookup_def split: option.splits)

lemma dbAll_set: "dbAll P d \<Longrightarrow> P t \<Longrightarrow> dbAll P (setTable d n t)"
  by (auto simp: dbAll_def setTable_def gomap_simps split: if_splits)

lemma mset_at_same: "mget m k = Some v \<Longrightarrow> mset_at m k v = m"
  by (induction m) (auto split: if_splits)

lemma setTable_same: "table_lookup d n = Inr t \<Longrightarrow> setTable d n t = d"
  using mset_at_same[of "Tables d" "ToLower n" t] by (auto simp: table_lookup_def setTable_def split: option.splits)

lemma onTable_step:
  assumes "onTable name f d = (r, d')" "\<And>t r t'. table_lookup d name = Inr t \<Longrightarrow> f t = (r, t') \<Longrightarrow> table_step ctx k t r t'"
  shows "db_step ctx k d r d'"
  using assms by (auto simp: onTable_def split: sum.splits prod.splits intro: db_step.intros)

lemma selectedColumns_Inr:
  assumes "selectedColumns cs line row key = Inr (row', key')" "wf_columns cs"
  shows "n \<notin> cName ` set cs \<Longrightarrow> mget row' n = mget row n"
    "key' = (if hasPrimaryColumn cs then valueKey (rget row' (primaryOf cs)) else key)"
    "rowTyped cs row'"
proof -
  have "(\<forall>n. n \<notin> cName ` set cs \<longrightarrow> mget row' n = mget row n) \<and>
    key' = (if hasPrimaryColumn cs then valueKey (rget row' (primaryOf cs)) else key) \<and> rowTyped cs row'"
    using assms
  proof (induction cs line row key rule: selectedColumns.induct)
    case (2 c cs line row key)
    then obtain x where x: "coerceValue (case line of [] \<Rightarrow> VNil | v # _ \<Rightarrow> v) (cType c) = Inr x" by (auto split: sum.splits)
    have wf: "wf_columns cs" "cName c \<notin> cName ` set cs" using "2.prems"(2) by (auto simp: wf_columns_def split: if_splits)
    note IH = "2.IH"[OF x _ wf(1)]
    have IH': "\<forall>n. n \<notin> cName ` set cs \<longrightarrow> mget row' n = mget (mset_at row (cName c) x) n"
      "key' = (if hasPrimaryColumn cs then valueKey (rget row' (primaryOf cs)) else if cPrimary c then valueKey x else key)" "rowTyped cs row'"
      using IH "2.prems"(1) x by auto
    have rc: "rget row' (cName c) = x" using IH'(1) wf(2) by (simp add: rget_def gomap_simps)
    have "\<not> hasPrimaryColumn cs" if "cPrimary c"
      using "2.prems"(2) that by (auto simp: wf_columns_def hasPrimaryColumn_iff filter_empty_conv)
    moreover have "rowTyped (c # cs) row'" using IH'(3) rc coerceValue_ofType[OF x] by (simp add: rowTyped_def)
    ultimately show ?case using IH' rc by (auto simp: gomap_simps)
  qed (simp add: rowTyped_def)
  then show "n \<notin> cName ` set cs \<Longrightarrow> mget row' n = mget row n"
    "key' = (if hasPrimaryColumn cs then valueKey (rget row' (primaryOf cs)) else key)" "rowTyped cs row'" by blast+
qed

lemma selectedRow_fits: "selectedRow cols line = Inr r \<Longrightarrow> wf_columns cols \<Longrightarrow> rowFits cols r \<and> rowTyped cols (irRow r)"
  using selectedColumns_Inr(2,3)[of cols line "[]" "[]" "irRow r" "irKey r"]
  by (auto simp: selectedRow_def rowFits_def keyFits_def split: if_splits sum.splits prod.splits)

lemma mapR_Inr: "mapR f xs = Inr ys \<Longrightarrow> (\<And>x y. f x = Inr y \<Longrightarrow> P y) \<Longrightarrow> \<forall>y \<in> set ys. P y"
proof (induction xs arbitrary: ys)
  case (Cons x xs)
  then show ?case by (cases "f x"; cases "mapR f xs") auto
qed simp

lemma insert_step:
  assumes "insert_stmt ctx s maxRows d = (r, d')"
  shows "db_step ctx InsertStmt d r d'"
proof -
  have into: "db_step ctx InsertStmt d r d'" if i: "insertInto ctx s off vi replace d = (r, d')" for off vi replace
  proof (cases "intoTable s off vi d")
    case (Inr nt)
    then obtain n t where nt: "intoTable s off vi d = Inr (n, t)" "table_lookup d n = Inr t"
      by (auto simp: intoTable_def sliceText_def rbind_def split: option.splits sum.splits)
    obtain t' where a: "insertValues ctx (drop (vi + 6) s) replace t = (r, t')" "d' = setTable d n t'"
      using i nt(1) by (auto simp: insertInto_def split: prod.splits)
    show ?thesis
    proof (cases "parseInsertRowsMode (drop (vi + 6) s) (Columns t) replace")
      case (Inl e)
      with a setTable_same[OF nt(2)] show ?thesis by (auto simp: insertValues_def intro: db_step.intros)
    next
      case (Inr rows)
      have "wf_columns (Columns t) \<longrightarrow> (\<forall>r \<in> set rows. rowFits (Columns t) r \<and> rowTyped (Columns t) (irRow r))"
        using parseInsertRowsMode_good[OF Inr] by (simp add: goodRow_def typedRow_rowTyped)
      with Inr a nt(2) show ?thesis by (auto simp: insertValues_def intro: db_step.step_table table_step.step_insert)
    qed
  qed (use that in \<open>auto simp: insertInto_def intro: db_step.intros\<close>)
  moreover have "db_step ctx InsertStmt d r d'" if i: "insertSelect ctx s off si replace maxRows d = (r, d')" for off si replace
  proof (cases "intoTable s off si d")
    case (Inr nt)
    then obtain n t where nt: "intoTable s off si d = Inr (n, t)" "table_lookup d n = Inr t"
      by (auto simp: intoTable_def sliceText_def rbind_def split: option.splits sum.splits)
    consider "d' = d" | rows rs t' where "mapR (selectedRow (Columns t)) rs = Inr rows"
        "applyInsertRows ctx rows replace t = (r, t')" "d' = setTable d n t'"
      using i nt(1) by (auto simp: insertSelect_def split: prod.splits sum.splits if_splits)
    then show ?thesis
    proof cases
      case 2
      have "wf_columns (Columns t) \<longrightarrow> (\<forall>r \<in> set rows. rowFits (Columns t) r \<and> rowTyped (Columns t) (irRow r))"
      proof
        assume "wf_columns (Columns t)"
        then show "\<forall>r \<in> set rows. rowFits (Columns t) r \<and> rowTyped (Columns t) (irRow r)" by (intro mapR_Inr[OF 2(1)] selectedRow_fits)
      qed
      with 2 nt(2) show ?thesis by (auto intro: db_step.step_table table_step.step_insert)
    qed (auto intro: db_step.intros)
  qed (use that in \<open>auto simp: insertSelect_def intro: db_step.intros\<close>)
  ultimately show ?thesis using assms
    by (auto simp: insert_stmt_def Let_def split: sum.splits prod.splits option.splits if_splits intro: db_step.intros)
qed

text \<open>The other statements.\<close>

lemma fieldsLoop_nonempty: "w \<in> set (fieldsLoop cur s) \<Longrightarrow> w \<noteq> []"
proof (induction cur s rule: fieldsLoop.induct)
  case (1 cur s)
  let ?n = "spaceLen multiSpaces s"
  show ?case
  proof (cases s)
    case Nil
    with "1.prems" show ?thesis by (auto simp: fieldsLoop.simps split: if_splits)
  next
    case (Cons c cs)
    have "w \<noteq> []" if "?n = 0" "w \<in> set (fieldsLoop (c # cur) cs)" using "1.IH"(1)[OF refl Cons] that by blast
    moreover have "w \<noteq> []" if "?n \<noteq> 0" "w \<in> set (fieldsLoop [] (drop (?n - 1) cs))" using "1.IH"(2)[OF refl Cons] that by blast
    ultimately show ?thesis
      using "1.prems" Cons fieldsLoop.simps[of cur s] by (auto simp: Let_def split: if_splits)
  qed
qed

lemma Fields_nonempty: "w \<in> set (Fields s) \<Longrightarrow> w \<noteq> []"
  by (simp add: Fields_def fieldsLoop_nonempty)

lemma createColumns_named:
  "createColumns parts seen n cols = Inr cols' \<Longrightarrow> namedColumns cols \<Longrightarrow> namedColumns cols'"
proof (induction parts seen n cols rule: createColumns.induct)
  case (2 part parts seen n cols)
  from "2.prems"(1) obtain f0 f1 rest where f: "Fields (TrimSpace part) = f0 # f1 # rest" by (auto split: list.splits)
  then have "f0 \<noteq> []" using Fields_nonempty[of f0 "TrimSpace part"] by auto
  then have "namedColumns (cols @ [\<lparr>cName = ToLower f0, cType = ct, cPrimary = p\<rparr>])" for ct p
    using "2.prems"(2) by (simp add: namedColumns_def ToLower_def)
  with 2 f show ?case by (auto split: if_splits)
qed simp

lemma create_step: "create s d = (r, d') \<Longrightarrow> db_step ctx OtherStmt d r d'"
  using createColumns_wf[of _ "[]" 0 "[]"] createColumns_named[of _ "[]" 0 "[]"]
  by (fastforce simp: create_def Let_def namedColumns_def split: option.splits if_splits sum.splits intro: db_step.intros)

lemma createIndex_step: "createIndex ctx s d = (r, d') \<Longrightarrow> db_step ctx OtherStmt d r d'"
  by (auto simp: createIndex_def sliceOr_def Let_def split: option.splits if_splits sum.splits prod.splits
      intro: db_step.step_none db_step.step_table table_step.step_index)

lemma alterTable_step: "alterTable ctx s d = (r, d') \<Longrightarrow> db_step ctx OtherStmt d r d'"
  by (auto simp: alterTable_def dropColumn_def Let_def split: if_splits sum.splits
      intro: db_step.step_none table_step.step_add table_step.step_drop elim!: onTable_step)

lemma drop_step: "drop_stmt s d = (r, d') \<Longrightarrow> db_step ctx OtherStmt d r d'"
  by (auto simp: drop_stmt_def dropTable_def dropIndex_def Let_def split: if_splits option.splits
      intro: db_step.step_none db_step.step_remove table_step.step_unindex elim!: onTable_step)

lemma truncate_step: "truncate_stmt s d = (r, d') \<Longrightarrow> db_step ctx OtherStmt d r d'"
  by (auto simp: truncate_stmt_def Let_def split: list.splits
      intro: db_step.step_none table_step.step_truncate elim!: onTable_step)

lemma columnType_in: "columnType cols c = Some ct \<Longrightarrow> c \<in> cName ` set cols"
  by (induction cols) (auto split: if_splits)

lemma update_table_step:
  "updateTable ctx m col v t = (r, t') \<Longrightarrow> columnType (Columns t) col = Some ct \<Longrightarrow> parseVal rhs ct = Inr v \<Longrightarrow> table_lookup d n = Inr t \<Longrightarrow>
   db_step ctx UpdateStmt d r (setTable d n t')"
  by (blast intro: db_step.step_table table_step.step_update typedVal_ofType parseVal_typed)

lemma update_step: "update ctx s d = (r, d') \<Longrightarrow> db_step ctx UpdateStmt d r d'"
  by (auto simp: update_def Let_def split: option.splits if_splits sum.splits prod.splits
      intro: db_step.step_none update_table_step)

lemma delete_step: "delete ctx s d = (r, d') \<Longrightarrow> db_step ctx OtherStmt d r d'"
  by (auto simp: delete_def Let_def split: option.splits if_splits sum.splits prod.splits
      intro: db_step.step_none db_step.step_table table_step.step_delete)

text \<open>The text a statement is dispatched on, and its kind.\<close>

definition stmtText :: "string \<Rightarrow> string" where
  "stmtText sql = TrimSpace (TrimSuffix (TrimSpace sql) '';'')"

definition kindOf :: "string \<Rightarrow> stmtKind" where
  "kindOf sql =
     (if hasPrefixFold (stmtText sql) ''INSERT'' then InsertStmt
      else if hasPrefixFold (stmtText sql) ''UPDATE'' then UpdateStmt else OtherStmt)"

lemma prefix_clash: "hasPrefixFold s p \<Longrightarrow> hasPrefixFold s q \<Longrightarrow> take (length q) p = q \<or> take (length p) q = p"
proof (induction s p arbitrary: q rule: hasPrefixFold.induct)
  case (3 c cs p ps)
  then show ?case by (cases q) auto
qed auto

lemma exec_step:
  assumes "exec ctx sql maxRows d = (r, d')"
  shows "db_step ctx (kindOf sql) d r d'"
proof -
  let ?s = "stmtText sql"
  have k: "hasPrefixFold ?s p \<Longrightarrow> take 6 p \<noteq> ''INSERT'' \<Longrightarrow> take 6 p \<noteq> ''UPDATE'' \<Longrightarrow> length p \<ge> 6 \<Longrightarrow> kindOf sql = OtherStmt" for p
    using prefix_clash[of ?s p "''INSERT''"] prefix_clash[of ?s p "''UPDATE''"] by (auto simp: kindOf_def numeral_eq_Suc)
  have u: "hasPrefixFold ?s ''UPDATE'' \<Longrightarrow> kindOf sql = UpdateStmt" "hasPrefixFold ?s ''INSERT'' \<Longrightarrow> kindOf sql = InsertStmt"
    using prefix_clash[of ?s "''INSERT''" "''UPDATE''"] by (auto simp: kindOf_def)
  show ?thesis
    using assms k[of "''CREATE TABLE''"] k[of "''CREATE INDEX''"] k[of "''ALTER TABLE''"] k[of "''DROP TABLE''"] k[of "''DROP INDEX''"]
      k[of "''TRUNCATE''"] k[of "''DELETE FROM''"] u
    unfolding exec_def Let_def stmtText_def[symmetric]
    by (auto split: if_splits
      intro: db_step.step_none create_step createIndex_step alterTable_step drop_step truncate_step insert_step update_step delete_step)
qed

section \<open>Failures change nothing\<close>

lemma updateScan_ok: "\<exists>m t'. updateScan (\<lambda>_. None) i w col v keys n t = (Inr m, t')"
  by (induction keys arbitrary: i n t) auto

lemma deleteScan_ok: "\<exists>m t'. deleteScan (\<lambda>_. None) i w ks remaining n t = (Inr m, t')"
  by (induction ks arbitrary: i remaining n t) auto

lemma table_step_error:
  assumes "table_step background k t r t'" "r = Inl e"
  shows "t' = t"
  using assms
proof cases
  case (step_insert rows replace)
  then show ?thesis using assms(2) applyInsertRows_error[of background rows replace t e] by simp
next
  case (step_update col ct v m)
  obtain wc wv wop x where m: "m = (wc, wv, wop, x)" by (cases m)
  obtain j u where s: "updateScan (\<lambda>_. None) 0 m col v (mkeys (Rows t)) 0 t = (Inr j, u)" using updateScan_ok by blast
  from step_update(4) assms(2) s show ?thesis
    by (auto simp: updateTable_def updatePrimaryMultiLocked_def rekeyPrimaryLocked_def m Let_def split: if_splits list.splits)
next
  case (step_delete m)
  obtain c v op x where m: "m = (c, v, op, x)" by (cases m)
  obtain j u where s: "deleteScan (\<lambda>_. None) 0 m (Order t) [] 0 t = (Inr j, u)" using deleteScan_ok by blast
  from step_delete assms(2) s show ?thesis by (auto simp: deleteTable_def m split: if_splits)
qed (auto simp: createIndexOn_def dropIndexOf_def addColumn_def dropColumnOf_def rewriteRows_background Let_def
    split: if_splits sum.splits option.splits)

lemma db_step_error: "db_step background k d (Inl e) d' \<Longrightarrow> d' = d"
  by (cases rule: db_step.cases) (auto dest: table_step_error simp: setTable_same)

section \<open>The invariant of a database\<close>

definition tableOk :: "table \<Rightarrow> bool" where
  "tableOk t \<longleftrightarrow> wf_table t \<and> namedColumns (Columns t)"

lemma primary_named: "namedColumns cols \<Longrightarrow> hasPrimaryColumn cols \<Longrightarrow> primaryOf cols \<noteq> []"
  using primaryOf_in[of cols] by (auto simp: namedColumns_def list_all_iff)

lemma updateTable_wf:
  assumes wf: "wf_table t" and col: "col \<in> cName ` set (Columns t)" "col \<noteq> primaryColumn t"
    and pk: "hasPrimaryColumn (Columns t) \<longrightarrow> primaryColumn t \<noteq> []"
  shows "wf_table (snd (updateTable ctx m col v t))"
proof -
  obtain wc wv wop x where m: "m = (wc, wv, wop, x)" by (cases m)
  have "wf_table (setCell wv col v t)" if "mget (Rows t) wv = Some row" for row
    by (rule setCell_wf[OF wf that col(1)]) (use col(2) in auto)
  moreover have "wf_table (snd (updateScan (scan ctx) 0 m col v (mkeys (Rows t)) 0 t))"
    by (rule updateScan_wf[OF wf col(1)]) (use col(2) pk mhas_iff[of "Rows t"] in blast)+
  ultimately show ?thesis using wf col(2) by (auto simp: updateTable_def m)
qed

lemma updateScan_Columns: "Columns (snd (updateScan c i m col v keys n t)) = Columns t"
  by (induction keys arbitrary: i n t) (auto split: option.splits)

lemma indexing_Columns [simp]: "Columns (indexRow k row t) = Columns t" "Columns (unindexRow k row t) = Columns t"
  using indexRow_upd[of k row t] unindexRow_upd[of k row t] by auto

lemma rekey_Columns: "Columns (snd (rekeyPrimaryLocked old v t)) = Columns t"
  by (simp add: rekeyPrimaryLocked_def Let_def)

lemma updateTable_Columns: "Columns (snd (updateTable ctx m col v t)) = Columns t"
  by (auto simp: updateTable_def updatePrimaryMultiLocked_def Let_def rekey_Columns updateScan_Columns split: prod.splits list.splits)

lemma putRows_Columns: "putRows replace rows t = Some t' \<Longrightarrow> Columns t' = Columns t"
proof (induction replace rows t rule: putRows.induct)
  case (2 replace r rs t)
  show ?case
  proof (cases "irKey r = []")
    case True
    with "2.prems" obtain key u where u: "nextSyntheticKeyLocked t = Some (key, u)" "putRows replace rs (putRow replace key (irRow r) u) = Some t'"
      by (auto split: option.splits)
    from "2.IH"(1)[OF True u(1) refl u(2)] nextSyntheticKey_Some[OF u(1)] show ?thesis by auto
  qed (use 2 in auto)
qed simp

lemma applyInsertRows_Columns: "Columns (snd (applyInsertRows ctx rows replace t)) = Columns t"
  by (auto simp: applyInsertRows_def dest!: putRows_Columns split: option.splits)

lemma deleteTable_wf:
  assumes wf: "wf_table t"
  shows "wf_table (snd (deleteTable background m t)) \<and> Columns (snd (deleteTable background m t)) = Columns t"
proof -
  obtain c v op e where m: "m = (c, v, op, e)" by (cases m)
  show ?thesis
  proof (cases "c \<noteq> [] \<and> c = primaryColumn t \<and> op = opEq")
    case True
    with wf deleteKey_wf[OF wf] deleteKey_effect(2) show ?thesis by (auto simp: deleteTable_def m)
  next
    case False
    obtain t' where "deleteScan (\<lambda>_. None) 0 m (Order t) [] 0 t =
        (Inr (affected (length (filter (\<lambda>k. rowMatches m (rowAt t k)) (filter (\<lambda>k. mhas (Rows t) k) (Order t))))),
         rebuildIfSparse (t'\<lparr>Order := live t', dead := 0\<rparr>))" "wf_mid t'" "Columns t' = Columns t"
      using deleteScan_background[of t "[]" "[]" "Order t" 0 m 0] wf by (auto simp: wf_table_mid)
    with False rebuildIfSparse_wf[OF settle_wf[of t']] show ?thesis by (auto simp: deleteTable_def m rebuildIfSparse_def)
  qed
qed

text \<open>
  Whether an UPDATE statement assigns the primary column: its target table and column are read as the
  statement reads them.
\<close>

definition updatesKey :: "string \<Rightarrow> database \<Rightarrow> bool" where
  "updatesKey s d \<longleftrightarrow>
     (case indexKeyword s ''SET'' of
        None \<Rightarrow> False
      | Some si \<Rightarrow>
          let head = Fields (take si s); tail = drop (si + 3) s;
              assign = TrimSpace (case indexKeyword tail ''WHERE'' of None \<Rightarrow> tail | Some i \<Rightarrow> take i tail)
          in length head \<ge> 2 \<and>
             (case (table_lookup d (head ! 1), splitByte2 (CHR ''='') assign) of
                (Inr t, Some (lhs, rhs)) \<Rightarrow> ToLower (TrimSpace lhs) = primaryColumn t
              | _ \<Rightarrow> False))"

lemma tableOk_update:
  "tableOk t \<Longrightarrow> columnType (Columns t) col = Some ct \<Longrightarrow> col \<noteq> primaryColumn t \<Longrightarrow> tableOk (snd (updateTable ctx m col v t))"
  using updateTable_wf[of t col ctx m v] primary_named[of "Columns t"]
  by (auto simp: tableOk_def updateTable_Columns primaryColumn_def dest: columnType_in)

lemma newTable_ok: "wf_columns cols \<Longrightarrow> namedColumns cols \<Longrightarrow> tableOk (newTable name cols)"
  by (simp add: tableOk_def newTable_def wf_table_def wf_rows_def fast_ok_def wf_index_def idx_shape_def wf_names_def keys_ok_def)

lemma take_drop_named: "namedColumns cols \<Longrightarrow> namedColumns (takeWhile P cols @ tl (dropWhile P cols))"
proof -
  have tl: "set (tl xs) \<subseteq> set xs" for xs :: "column list" by (cases xs) auto
  have "set (takeWhile P cols @ tl (dropWhile P cols)) \<subseteq> set cols"
    using tl[of "dropWhile P cols"] by (auto dest: set_takeWhileD set_dropWhileD)
  then show "namedColumns cols \<Longrightarrow> namedColumns (takeWhile P cols @ tl (dropWhile P cols))"
    unfolding namedColumns_def list_all_iff by blast
qed

lemma table_step_ok:
  assumes "table_step background k t r t'" "tableOk t" "k \<noteq> UpdateStmt" "k = InsertStmt \<Longrightarrow> fast_big t"
  shows "tableOk t'"
  using assms(1)
proof cases
  case (step_insert rows replace)
  with assms(4) applyInsertRows_wf[of t rows background replace] applyInsertRows_Columns[of background rows replace t] assms(2)
  show ?thesis by (simp add: tableOk_def wf_table_def)
next
  case (step_delete m)
  with deleteTable_wf[of t m] assms(2) show ?thesis by (simp add: tableOk_def)
next
  case (step_index name column)
  with createIndexOn_wf[of t background name column r t'] assms(2) show ?thesis
    by (auto simp: tableOk_def createIndexOn_def split: if_splits sum.splits)
next
  case (step_unindex name)
  with dropIndexOf_wf[of t name r t'] assms(2) show ?thesis
    by (auto simp: tableOk_def dropIndexOf_def split: if_splits option.splits)
next
  case (step_add column ct)
  with addColumn_wf[of t column ct r t'] assms(2) show ?thesis
    by (auto simp: tableOk_def addColumn_def rewriteRows_background Let_def namedColumns_def rebuildIfFast_def split: if_splits)
next
  case (step_drop column)
  with dropColumnOf_wf[of t column r t'] take_drop_named[of "Columns t"] assms(2) show ?thesis
    by (auto simp: tableOk_def dropColumnOf_def rewriteRows_background Let_def rebuildIfFast_def split: if_splits)
next
  case (step_truncate m)
  with truncate_wf(1)[of t] assms(2) show ?thesis by (simp add: tableOk_def truncateTable_def)
qed (use assms(3) in auto)

lemma exec_update: "kindOf sql = UpdateStmt \<Longrightarrow> exec ctx sql maxRows d = update ctx (stmtText sql) d"
proof -
  assume True: "kindOf sql = UpdateStmt"
  then have u: "hasPrefixFold (stmtText sql) ''UPDATE''" by (auto simp: kindOf_def split: if_splits)
  have "\<not> hasPrefixFold (stmtText sql) p" if "take 6 p \<noteq> ''UPDATE''" "take (length p) ''UPDATE'' \<noteq> p" for p
    using prefix_clash[OF u, of p] prefix_clash[of "stmtText sql" p "''UPDATE''"] u that by (auto simp: numeral_eq_Suc)
  from this[of "''CREATE TABLE''"] this[of "''CREATE INDEX''"] this[of "''ALTER TABLE''"] this[of "''DROP TABLE''"] this[of "''DROP INDEX''"]
    this[of "''TRUNCATE''"] this[of "''INSERT''"] this[of "''SELECT''"] this[of "''SHOW''"] this[of "''DESC''"] u
  show "exec ctx sql maxRows d = update ctx (stmtText sql) d"
    unfolding exec_def Let_def stmtText_def[symmetric] by simp
qed

section \<open>Invariants of tables through statements\<close>

text \<open>
  What a property \<open>P\<close> of tables needs to hold after every statement: new tables have it, every table operation
  keeps it (an INSERT may need \<open>Q\<close> too), and so does writing a cell outside the primary column.
\<close>

locale table_invariant =
  fixes P Q :: "table \<Rightarrow> bool"
  assumes fresh: "wf_columns cols \<Longrightarrow> namedColumns cols \<Longrightarrow> P (newTable name cols)"
    and step: "table_step background k t r t' \<Longrightarrow> P t \<Longrightarrow> k \<noteq> UpdateStmt \<Longrightarrow> (k = InsertStmt \<Longrightarrow> Q t) \<Longrightarrow> P t'"
    and set_cell: "P t \<Longrightarrow> columnType (Columns t) col = Some ct \<Longrightarrow> col \<noteq> primaryColumn t \<Longrightarrow> P (snd (updateTable background m col v t))"
begin

lemma update_keeps:
  assumes "update background s d = (r, d')" "dbAll P d" "\<not> updatesKey s d"
  shows "dbAll P d'"
proof -
  have "dbAll P (setTable d n t')"
    if "updateTable background m col v t = (r, t')" "columnType (Columns t) col = Some ct" "col \<noteq> primaryColumn t" "table_lookup d n = Inr t"
    for m col v t t' ct n
    using set_cell[OF dbAll_lookup[OF assms(2) that(4)] that(2,3), of m v] that(1) dbAll_set[OF assms(2)] by simp
  with assms show ?thesis
    by (auto simp: update_def updatesKey_def Let_def split: option.splits if_splits sum.splits prod.splits)
qed

lemma db_step_keeps:
  assumes "db_step background k d r d'" "dbAll P d" "k \<noteq> UpdateStmt" "k = InsertStmt \<Longrightarrow> dbAll Q d"
  shows "dbAll P d'"
  using assms(1)
proof cases
  case (step_table name t t')
  with step[OF step_table(3)] dbAll_lookup[OF assms(2) step_table(2)] dbAll_lookup[OF assms(4) step_table(2)] assms(3)
  show ?thesis by (auto intro: dbAll_set[OF assms(2)])
next
  case (step_create cols name m)
  with fresh[of cols name] assms(2) show ?thesis by (auto simp: dbAll_def gomap_simps split: if_splits)
next
  case (step_remove m name)
  with assms(2) show ?thesis by (auto simp: dbAll_def gomap_simps split: if_splits)
qed (use assms in auto)

lemma exec_keeps:
  assumes "exec background sql maxRows d = (r, d')" "dbAll P d"
    and "kindOf sql = InsertStmt \<Longrightarrow> dbAll Q d" "kindOf sql = UpdateStmt \<Longrightarrow> \<not> updatesKey (stmtText sql) d"
  shows "dbAll P d'"
proof (cases "kindOf sql = UpdateStmt")
  case True
  then have "update background (stmtText sql) d = (r, d')" using exec_update[of sql background maxRows d] assms(1) by simp
  then show ?thesis by (rule update_keeps[OF _ assms(2) assms(4)[OF True]])
next
  case False
  with db_step_keeps[OF exec_step[OF assms(1)] assms(2)] assms(3) show ?thesis by blast
qed

end

interpretation tables_ok: table_invariant tableOk fast_big
  by unfold_locales (blast intro: newTable_ok table_step_ok tableOk_update)+

lemmas exec_ok = tables_ok.exec_keeps

section \<open>Read-only statements\<close>

definition solidByte :: "char \<Rightarrow> bool" where
  "solidByte c \<longleftrightarrow> byte c < 128 \<and> \<not> asciiSpace c"

lemma solid_not_space: "set rs \<subseteq> spaceEncs multiSpaces \<Longrightarrow> c \<in> set (concat rs) \<Longrightarrow> \<not> solidByte c"
  using spaceEncs_bytes by (fastforce simp: solidByte_def)

lemma TrimSpace_prefix:
  assumes "p \<noteq> []" "list_all solidByte p"
  shows "\<exists>w'. TrimSpace (p @ w) = p @ w'"
proof -
  obtain ls rs where d: "set ls \<subseteq> spaceEncs multiSpaces" "set rs \<subseteq> spaceEncs multiSpaces"
    "p @ w = concat ls @ TrimSpace (p @ w) @ concat rs" using TrimSpace_decomp by blast
  have hd: "solidByte (hd (p @ w))" using assms by (cases p) auto
  have ls: "concat ls = []"
  proof (rule ccontr)
    assume "concat ls \<noteq> []"
    then have "hd (p @ w) \<in> set (concat ls)" using d(3) by (metis hd_append2 hd_in_set)
    with solid_not_space[OF d(1)] hd show False by blast
  qed
  show ?thesis
  proof (cases "length p \<le> length (TrimSpace (p @ w))")
    case True
    have "take (length p) (TrimSpace (p @ w)) = p"
      using d(3) ls True by (metis append_Nil append_eq_conv_conj take_append diff_is_0_eq' take0 append_Nil2 take_all_iff order_refl)
    then show ?thesis by (metis append_take_drop_id)
  next
    case False
    have "last p \<in> set (concat rs)"
    proof -
      let ?i = "length p - 1"
      have i: "?i < length p" "\<not> ?i < length (TrimSpace (p @ w))" using False assms(1) by auto
      have "last p = (TrimSpace (p @ w) @ concat rs) ! ?i" using d(3) ls i(1) assms(1) by (metis append_Nil last_conv_nth nth_append)
      also have "\<dots> = concat rs ! (?i - length (TrimSpace (p @ w)))" using i(2) by (simp add: nth_append)
      finally have e: "last p = concat rs ! (?i - length (TrimSpace (p @ w)))" .
      have "length p \<le> length (TrimSpace (p @ w)) + length (concat rs)"
        using d(3) ls by (metis append_Nil length_append le_add1)
      then have "?i - length (TrimSpace (p @ w)) < length (concat rs)" using i by linarith
      with e show ?thesis by (metis nth_mem)
    qed
    then have "\<not> solidByte (last p)" by (rule solid_not_space[OF d(2)])
    with assms show ?thesis by (simp add: list_all_iff)
  qed
qed

lemma upcase_solid: "solidByte (upcase c) \<Longrightarrow> upcase c \<noteq> CHR '';'' \<Longrightarrow> solidByte c \<and> c \<noteq> CHR '';''"
  by (cases "97 \<le> byte c \<and> byte c \<le> 122") (auto simp: solidByte_def upcase_def asciiSpace_def)

lemma prefix_split:
  "hasPrefixFold s p \<Longrightarrow> \<exists>q w. s = q @ w \<and> length q = length p \<and> map upcase q = p"
  using append_take_drop_id[of "length p" s] unfolding hasPrefixFold_iff by (metis length_map)

lemma stmtText_prefix:
  assumes "hasPrefixFold (TrimSpace sql) p" "p \<noteq> []" "list_all (\<lambda>c. solidByte c \<and> c \<noteq> CHR '';'') p"
  shows "hasPrefixFold (stmtText sql) p"
proof -
  obtain q w where q: "TrimSpace sql = q @ w" "length q = length p" "map upcase q = p" using prefix_split[OF assms(1)] by blast
  have "solidByte c \<and> c \<noteq> CHR '';''" if "c \<in> set q" for c
  proof -
    have "upcase c \<in> set p" using that q(3) by (metis image_eqI list.set_map)
    with assms(3) have "solidByte (upcase c) \<and> upcase c \<noteq> CHR '';''" unfolding list_all_iff by blast
    then show ?thesis using upcase_solid by blast
  qed
  then have solid: "list_all solidByte q" "CHR '';'' \<notin> set q" unfolding list_all_iff by blast+
  have ne: "q \<noteq> []" using q(2) assms(2) by auto
  have "\<exists>w'. TrimSuffix (q @ w) '';'' = q @ w'"
  proof (cases "HasSuffix (q @ w) '';''")
    case True
    have "w \<noteq> []"
    proof
      assume "w = []"
      with True have "drop (length q - 1) q = '';''" by (simp add: HasSuffix_def)
      then have "CHR '';'' \<in> set q" by (metis in_set_dropD list.set_intros(1))
      with solid(2) show False ..
    qed
    then have "take (length (q @ w) - 1) (q @ w) = q @ butlast w" by (cases w rule: rev_cases) simp_all
    with True show ?thesis by (auto simp: TrimSuffix_def)
  qed (auto simp: TrimSuffix_def)
  then obtain w1 where "TrimSuffix (q @ w) '';'' = q @ w1" by blast
  moreover obtain w2 where "TrimSpace (q @ w1) = q @ w2" using TrimSpace_prefix[OF ne solid(1)] by blast
  ultimately show ?thesis unfolding stmtText_def q(1) by (simp add: hasPrefixFold_iff q(2,3)[symmetric])
qed

lemma prefix_shorter: "hasPrefixFold s (p @ q) \<Longrightarrow> hasPrefixFold s p"
proof (induction s p rule: hasPrefixFold.induct)
qed auto

lemma exec_read_only:
  assumes "IsReadOnly sql"
  shows "snd (exec ctx sql maxRows d) = d"
proof -
  have s: "list_all (\<lambda>c. solidByte c \<and> c \<noteq> CHR '';'') ''SELECT''" "list_all (\<lambda>c. solidByte c \<and> c \<noteq> CHR '';'') ''SHOW''"
    "list_all (\<lambda>c. solidByte c \<and> c \<noteq> CHR '';'') ''DESCRIBE''" "list_all (\<lambda>c. solidByte c \<and> c \<noteq> CHR '';'') ''DESC''" by code_simp+
  have desc: "hasPrefixFold (stmtText sql) ''DESCRIBE'' \<Longrightarrow> hasPrefixFold (stmtText sql) ''DESC''"
    using prefix_shorter[of "stmtText sql" "''DESC''" "''RIBE''"] by simp
  from assms consider p where "hasPrefixFold (stmtText sql) p" "p \<in> {''SELECT'', ''SHOW'', ''DESC''}"
    using stmtText_prefix[OF _ _ s(1)] stmtText_prefix[OF _ _ s(2)] stmtText_prefix[OF _ _ s(3)] stmtText_prefix[OF _ _ s(4)] desc
    unfolding IsReadOnly_def Let_def by blast
  then show ?thesis
  proof cases
    case 1
    have no: "\<not> hasPrefixFold (stmtText sql) q" if "take (length q) p \<noteq> q" "take (length p) q \<noteq> p" for q
      using prefix_clash[OF 1(1), of q] that by blast
    have "\<not> hasPrefixFold (stmtText sql) q"
      if "q \<in> {''CREATE TABLE'', ''CREATE INDEX'', ''ALTER TABLE'', ''DROP TABLE'', ''DROP INDEX'', ''TRUNCATE'', ''INSERT''}" for q
      by (rule no) (use 1(2) that in \<open>elim insertE emptyE; simp\<close>)+
    then have "\<not> hasPrefixFold (stmtText sql) ''CREATE TABLE''" "\<not> hasPrefixFold (stmtText sql) ''CREATE INDEX''"
      "\<not> hasPrefixFold (stmtText sql) ''ALTER TABLE''" "\<not> hasPrefixFold (stmtText sql) ''DROP TABLE''"
      "\<not> hasPrefixFold (stmtText sql) ''DROP INDEX''" "\<not> hasPrefixFold (stmtText sql) ''TRUNCATE''"
      "\<not> hasPrefixFold (stmtText sql) ''INSERT''" by blast+
    moreover have "hasPrefixFold (stmtText sql) ''SELECT'' \<or> hasPrefixFold (stmtText sql) ''SHOW'' \<or> hasPrefixFold (stmtText sql) ''DESC''"
      using 1 by blast
    ultimately show ?thesis unfolding exec_def Let_def stmtText_def[symmetric] by auto
  qed
qed

section \<open>Properties\<close>

text \<open>A database with the two users.\<close>

definition usersDb :: database where
  "usersDb = newDatabase\<lparr>Tables := [(''users'', twoUsers)]\<rparr>"

lemma usersDb_ok: "dbAll tableOk usersDb" "dbAll fast_big usersDb" "mwf (Tables usersDb)" "dbAll wf_table usersDb"
  using twoUsers_wf
  by (auto simp: dbAll_def usersDb_def newDatabase_def tableOk_def namedColumns_def twoUsers_def users_def newTable_def split: if_splits)





text \<open>
  A statement that \<^verbatim>\<open>IsReadOnly\<close> classifies as a read never changes the database, whatever its context
  does. The classification looks at the text before the trailing semicolon is cut, the dispatcher at the text
  after it.
\<close>

theorem read_only_statement_changes_nothing:
  assumes "IsReadOnly sql"
  shows "snd (ExecWithOptions ctx sql maxRows d) = d"
  using exec_read_only[OF assms, of ctx maxRows d] assms
  by (auto simp: ExecWithOptions_def split: option.splits prod.splits)

theorem read_only_statement_changes_nothing_witness:
  "snd (ExecWithOptions background '' select * from users;'' 0 usersDb) = usersDb"
proof -
  have "IsReadOnly '' select * from users;''" by code_simp
  from read_only_statement_changes_nothing[OF this] show ?thesis .
qed

text \<open>
  Six rows. One is deleted by key, which leaves its key in \<open>Order\<close>, and its key is then given to another row:
  that row is in \<open>Order\<close> twice, and a scan shows it twice.
\<close>

definition sixUsers :: table where
  "sixUsers = users\<lparr>
     Rows := map (\<lambda>i. (FormatInt i, [(''id'', VInt i), (''name'', VStr ''x'')])) [1, 2, 3, 4, 5, 6],
     Order := map FormatInt [1, 2, 3, 4, 5, 6]\<rparr>"

definition keyReused :: table where
  "keyReused = snd (updateTable background (''id'', ''2'', opEq, VInt 2) ''id'' (VInt 1)
     (snd (deleteTable background (''id'', ''1'', opEq, VInt 1) sixUsers)))"

lemma reused_key_is_listed_twice: "live keyReused = [''1'', ''1'', ''3'', ''4'', ''5'', ''6'']" "length (Rows keyReused) = 5"
  by code_simp+

end
