(* ===== verification/Typing.thy ===== *)
theory Typing
  imports Engine
begin

text \<open>
  Types of stored values: every statement leaves every cell \<^verbatim>\<open>nil\<close> or of the Go type of its column
  (\<open>statement_keeps_types\<close>), over the table operations that \<open>exec_step\<close> of \<open>Engine\<close> reduces statements to.
\<close>

section \<open>Typed tables\<close>

definition cellsTyped :: "column list \<Rightarrow> (string, row) gomap \<Rightarrow> bool" where
  "cellsTyped cols rows \<longleftrightarrow> (\<forall>k row. mget rows k = Some row \<longrightarrow> rowTyped cols row)"

definition typedTable :: "table \<Rightarrow> bool" where
  "typedTable t \<longleftrightarrow> wf_columns (Columns t) \<and> cellsTyped (Columns t) (Rows t)"

lemma columnType_unique: "columnType cols col = Some ct \<Longrightarrow> wf_columns cols \<Longrightarrow> c \<in> set cols \<Longrightarrow> cName c = col \<Longrightarrow> cType c = ct"
  by (induction cols) (force simp: wf_columns_def split: if_splits)+

lemma rowTyped_set:
  assumes "rowTyped cols row" "wf_columns cols" "columnType cols col = Some ct" "ofType ct v"
  shows "rowTyped cols (mset_at row col v)"
  using assms columnType_unique[OF assms(3,2)] by (auto simp: rowTyped_def rget_def gomap_simps)

lemma rowTyped_empty: "rowTyped cols []"
  by (simp add: rowTyped_def rget_def ofType_def)

lemma cellsTyped_rowAt: "cellsTyped (Columns t) (Rows t) \<Longrightarrow> rowTyped (Columns t) (rowAt t k)"
  using rowTyped_empty by (auto simp: cellsTyped_def rowAt_def split: option.splits)

lemma cellsTyped_set: "cellsTyped cols rows \<Longrightarrow> rowTyped cols row \<Longrightarrow> cellsTyped cols (mset_at rows k row)"
  by (auto simp: cellsTyped_def gomap_simps)

lemma cellsTyped_del: "cellsTyped cols rows \<Longrightarrow> cellsTyped cols (mdel rows k)"
  by (auto simp: cellsTyped_def gomap_simps split: if_splits)

lemmas cellsTyped_rules = cellsTyped_set cellsTyped_del cellsTyped_rowAt rowTyped_set

section \<open>Every operation keeps the types\<close>

lemma setCell_typed:
  assumes "typedTable t" "columnType (Columns t) col = Some ct" "ofType ct v"
  shows "typedTable (setCell key col v t)"
  using assms by (simp add: typedTable_def cellsTyped_rules)

lemma updateScan_typed:
  "typedTable t \<Longrightarrow> columnType (Columns t) col = Some ct \<Longrightarrow> ofType ct v \<Longrightarrow> typedTable (snd (updateScan c i m col v keys n t))"
  by (induction c i m col v keys n t rule: updateScan.induct) (auto simp: setCell_typed split: option.splits)

lemma rekey_typed:
  assumes "typedTable t" "columnType (Columns t) (primaryColumn t) = Some ct" "ofType ct v"
  shows "typedTable (snd (rekeyPrimaryLocked old v t))"
  using assms setCell_typed[OF assms(1,2,3), of old]
  by (simp add: rekeyPrimaryLocked_def Let_def typedTable_def cellsTyped_rules)

lemma updateTable_typed:
  assumes "updateTable ctx m col v t = (r, t')" "typedTable t" "columnType (Columns t) col = Some ct" "ofType ct v"
  shows "typedTable t'"
proof -
  obtain wc wv wop x where m: "m = (wc, wv, wop, x)" by (cases m)
  have "typedTable (snd (updateTable ctx m col v t))"
    using assms(2-4) setCell_typed[OF assms(2-4)] rekey_typed[OF assms(2) _ assms(4)] updateScan_typed[OF assms(2-4)]
    by (auto simp: m updateTable_def updatePrimaryMultiLocked_def Let_def split: list.splits)
  then show ?thesis using assms(1) by simp
qed

lemma deleteScan_typed: "typedTable t \<Longrightarrow> typedTable (snd (deleteScan c i m ks remaining n t))"
  by (induction c i m ks remaining n t rule: deleteScan.induct) (auto simp: typedTable_def cellsTyped_del split: option.splits)

lemma deleteTable_typed:
  assumes "deleteTable ctx m t = (r, t')" "typedTable t"
  shows "typedTable t'"
proof -
  have "typedTable (deleteKey v t)" for v using assms(2) by (simp add: deleteKey_def Let_def typedTable_def cellsTyped_del)
  then show ?thesis using assms deleteScan_typed[OF assms(2), of "scan ctx" 0 m "Order t" "[]" 0]
    by (auto simp: deleteTable_def split: if_splits prod.splits)
qed

lemma putRows_cells:
  "putRows replace rs t = Some t' \<Longrightarrow> typedTable t \<Longrightarrow> \<forall>r \<in> set rs. rowTyped (Columns t) (irRow r) \<Longrightarrow> typedTable t'"
proof (induction rs arbitrary: t)
  case (Cons r rs)
  obtain key t1 where p: "putOne replace r t = Some (key, t1)" "putRows replace rs t1 = Some t'"
    using Cons.prems(1) unfolding putRows_Cons by (auto split: option.splits)
  from p(1) obtain a where "t1 = putRow replace key (irRow r) (t\<lparr>autoKey := a\<rparr>)" by (rule putOne_Some)
  then have t1: "Rows t1 = mset_at (Rows t) key (irRow r)" "Columns t1 = Columns t" by simp_all
  then have "typedTable t1" using Cons.prems(2,3) by (simp add: typedTable_def cellsTyped_set)
  then show ?case using Cons.IH[OF p(2)] Cons.prems(3) t1(2) by simp
qed simp

lemma applyInsertRows_typed:
  assumes "applyInsertRows ctx rows replace t = (r, t')" "typedTable t" "\<forall>r \<in> set rows. rowTyped (Columns t) (irRow r)"
  shows "typedTable t'"
proof -
  have "typedTable (reclaimOrder t)" using assms(2) by (simp add: typedTable_def)
  then show ?thesis using assms putRows_cells[of replace rows "reclaimOrder t"] by (auto simp: applyInsertRows_def split: option.splits)
qed

lemma rebuildIfFast_typed: "typedTable (rebuildIfFast t) = typedTable t"
  by (simp add: rebuildIfFast_def typedTable_def)

lemma addColumn_typed:
  assumes "addColumn background column ct t = (r, t')" "typedTable t"
  shows "typedTable t'"
proof (cases "hasColumn (Columns t) column")
  case False
  have wf: "wf_columns (Columns t @ [\<lparr>cName = column, cType = ct, cPrimary = False\<rparr>])"
    using assms(2) False by (auto simp: typedTable_def wf_columns_def hasColumn_iff)
  have "rowTyped (Columns t @ [\<lparr>cName = column, cType = ct, cPrimary = False\<rparr>]) (mset_at row column VNil)" if "rowTyped (Columns t) row" for row
    using that by (auto simp: rowTyped_def rget_def gomap_simps ofType_def)
  then have "cellsTyped (Columns t @ [\<lparr>cName = column, cType = ct, cPrimary = False\<rparr>]) (mmap (\<lambda>_ row. mset_at row column VNil) (Rows t))"
    using assms(2) by (auto simp: typedTable_def cellsTyped_def gomap_simps)
  moreover have "t' = rebuildIfFast (t\<lparr>Columns := Columns t @ [\<lparr>cName = column, cType = ct, cPrimary = False\<rparr>],
      Rows := mmap (\<lambda>_ row. mset_at row column VNil) (Rows t)\<rparr>)"
    using assms(1) False by (simp add: addColumn_def rewriteRows_background)
  ultimately show ?thesis using wf by (simp add: rebuildIfFast_typed) (simp add: typedTable_def)
qed (use assms in \<open>simp add: addColumn_def\<close>)

lemma dropColumnOf_typed:
  assumes "dropColumnOf background column t = (r, t')" "typedTable t"
  shows "typedTable t'"
proof (cases "length (Columns t) \<le> 1 \<or> \<not> hasColumn (Columns t) column")
  case False
  let ?cols = "takeWhile (\<lambda>c. cName c \<noteq> column) (Columns t) @ tl (dropWhile (\<lambda>c. cName c \<noteq> column) (Columns t))"
  have tl: "set (tl xs) \<subseteq> set xs" for xs :: "column list" by (cases xs) auto
  have sub: "set ?cols \<subseteq> set (Columns t)" using tl[of "dropWhile (\<lambda>c. cName c \<noteq> column) (Columns t)"] by (auto dest: set_takeWhileD set_dropWhileD)
  have "rowTyped ?cols (mdel row column)" if "rowTyped (Columns t) row" for row
    using that sub by (auto simp: rowTyped_def rget_def gomap_simps ofType_def)
  then have "cellsTyped ?cols (mmap (\<lambda>_ row. mdel row column) (Rows t))"
    using assms(2) by (auto simp: typedTable_def cellsTyped_def gomap_simps)
  moreover have "wf_columns ?cols"
  proof -
    obtain c where c: "Columns t = takeWhile (\<lambda>c. cName c \<noteq> column) (Columns t) @ c # tl (dropWhile (\<lambda>c. cName c \<noteq> column) (Columns t))"
      using False by (auto simp: hasColumn_iff intro: split_at_column)
    have "wf_columns (takeWhile (\<lambda>c. cName c \<noteq> column) (Columns t) @ c # tl (dropWhile (\<lambda>c. cName c \<noteq> column) (Columns t)))"
      using assms(2) c by (simp add: typedTable_def)
    then show ?thesis by (auto simp: wf_columns_def split: if_splits)
  qed
  ultimately show ?thesis using assms(1) False
    by (auto simp: dropColumnOf_def rewriteRows_background typedTable_def rebuildIfFast_def Let_def)
qed (use assms in \<open>auto simp: dropColumnOf_def split: if_splits\<close>)

lemma table_step_typed:
  assumes "table_step background k t r t'" "typedTable t"
  shows "typedTable t'"
  using assms(1)
proof cases
  case (step_insert rows replace)
  then show ?thesis using applyInsertRows_typed assms(2) by (auto simp: typedTable_def)
next
  case (step_update col ct v m)
  then show ?thesis using updateTable_typed assms(2) by blast
next
  case (step_delete m)
  then show ?thesis using deleteTable_typed assms(2) by blast
next
  case (step_add column ct)
  then show ?thesis using addColumn_typed assms(2) by blast
next
  case (step_drop column)
  then show ?thesis using dropColumnOf_typed assms(2) by blast
next
  case (step_truncate m)
  then show ?thesis using assms(2) by (simp add: truncateTable_def typedTable_def cellsTyped_def)
qed (use assms(2) in \<open>auto simp: createIndexOn_def dropIndexOf_def typedTable_def split: if_splits sum.splits option.splits\<close>)

lemma db_step_typed:
  assumes "db_step background k d r d'" "dbAll typedTable d"
  shows "dbAll typedTable d'"
  using assms(1)
proof cases
  case (step_table name t t')
  then show ?thesis using table_step_typed dbAll_lookup[OF assms(2)] dbAll_set[OF assms(2)] by blast
next
  case (step_create cols name m)
  then show ?thesis using assms(2) by (auto simp: dbAll_def gomap_simps typedTable_def cellsTyped_def newTable_def split: if_splits)
next
  case (step_remove m name)
  then show ?thesis using assms(2) by (auto simp: dbAll_def gomap_simps split: if_splits)
qed (use assms(2) in simp)

text \<open>
  C16: type soundness. Every statement, run to its end, leaves every cell of every table \<^verbatim>\<open>nil\<close> or of the Go type of its
  column, with the columns of a table named apart: literals are parsed and selected values are coerced to the type of
  the column before they are stored, an UPDATE of the primary key included, and adding or dropping a column takes the
  cells along.
\<close>

theorem statement_keeps_types:
  assumes "ExecWithOptions background sql maxRows d = (r, d')" "dbAll typedTable d"
  shows "dbAll typedTable d'"
proof -
  obtain r1 d1 where e: "exec background sql maxRows d = (r1, d1)" by (metis prod.exhaust)
  have "dbAll typedTable d1" by (rule db_step_typed[OF exec_step[OF e] assms(2)])
  moreover have "Tables d' = Tables d1 \<or> Tables d' = Tables d" using assms(1) e by (auto simp: ExecWithOptions_def Let_def split: if_splits sum.splits prod.splits)
  ultimately show ?thesis using assms(2) by (auto simp: dbAll_def)
qed

theorem statement_keeps_types_witness:
  "\<exists>r d'. ExecWithOptions background ''UPDATE users SET name = 1 WHERE id = 2'' 0 (newDatabase\<lparr>Tables := [(''users'', twoUsers)]\<rparr>) = (r, d') \<and> dbAll typedTable d'"
proof -
  let ?d = "newDatabase\<lparr>Tables := [(''users'', twoUsers)]\<rparr>"
  have "typedTable twoUsers" using twoUsers_wf typedRow_rowTyped by (auto simp: typedTable_def cellsTyped_def wf_table_def typed_table_def)
  then have d: "dbAll typedTable ?d" by (simp add: dbAll_def)
  obtain r d' where e: "ExecWithOptions background ''UPDATE users SET name = 1 WHERE id = 2'' 0 ?d = (r, d')" by (metis prod.exhaust)
  show ?thesis using statement_keeps_types[OF e d] e by blast
qed

end
