(* ===== verification/Txn.thy ===== *)
theory Txn
  imports Engine
begin

text \<open>
  Copies, commits and batches: \<^verbatim>\<open>internal/engine/clone.go\<close>, the commit protocol of
  \<^verbatim>\<open>internal/engine/snapshot.go\<close> (\<^verbatim>\<open>Clone\<close>, \<^verbatim>\<open>ReplaceFrom\<close>, \<^verbatim>\<open>CommitFrom\<close>) and sequences of statements.

  A transaction runs on a copy that remembers the revision it was taken at. Statements read and write tables
  only, so the revisions are a frame around them (\<open>exec_frame\<close>), every successful write adds one to the
  revision (\<open>run_frame\<close>, modulo \<^verbatim>\<open>2^64\<close>), and a commit finds a conflict exactly when that sum moved.
\<close>

declare map_of_eq_Some_iff [simp del] Some_eq_map_of_iff [simp del]

section \<open>Copies and commits (clone.go, snapshot.go)\<close>

text \<open>
  A copy shares nothing with its source: tables are values here. Without a fast array the copy has no
  positions and no tombstone count of it either.
\<close>

definition cloneLocked :: "table \<Rightarrow> table" where
  "cloneLocked t =
     (let cp = \<lparr>tName = tName t, Columns = Columns t, Rows = mmap (\<lambda>key row. row) (Rows t), Order = Order t,
                Indexes = mmap (\<lambda>column idx. mmap (\<lambda>val members. members) idx) (Indexes t), IndexNames = IndexNames t,
                fast = [], colpos = [], fastPos = [], dead = dead t, fastDead = 0, autoKey = autoKey t\<rparr>
      in if fast t \<noteq> [] then
           cp\<lparr>colpos := colpos t, fast := map (\<lambda>fr. \<lparr>fkey = fkey fr, fvalues = fvalues fr\<rparr>) (fast t), fastPos := fastPos t,
              fastDead := fastDead t\<rparr>
         else cp)"

definition cloneTablesLocked :: "database \<Rightarrow> database" where
  "cloneTablesLocked d = newDatabase\<lparr>Tables := mmap (\<lambda>name t. cloneLocked t) (Tables d)\<rparr>"

definition cloneImage :: "database \<Rightarrow> database" where
  "cloneImage d = cloneTablesLocked d"

definition Clone :: "database \<Rightarrow> database" where
  "Clone d = (cloneImage d)\<lparr>baseRevision := revision d\<rparr>"

definition replace_db :: "database \<Rightarrow> bool \<Rightarrow> (database \<Rightarrow> error option) option \<Rightarrow> database \<Rightarrow> error option \<times> database" where
  "replace_db source check persist d =
     (let clone = cloneImage source in
      if check \<and> revision d \<noteq> baseRevision source then
        (Some (Msg ''transaction conflict: database changed since BEGIN''), d)
      else case (case persist of None \<Rightarrow> None | Some p \<Rightarrow> p clone) of
        Some e \<Rightarrow> (Some e, d)
      | None \<Rightarrow> (None, d\<lparr>Tables := Tables clone, revision := revision d + 1\<rparr>))"

definition ReplaceFrom :: "database \<Rightarrow> database \<Rightarrow> error option \<times> database" where
  "ReplaceFrom source d = replace_db source False None d"

definition CommitFrom :: "database \<Rightarrow> (database \<Rightarrow> error option) \<Rightarrow> database \<Rightarrow> error option \<times> database" where
  "CommitFrom source persist d = replace_db source True (Some persist) d"

section \<open>Revisions\<close>

text \<open>Statements read and write the tables only: the revisions are a frame around them.\<close>

definition framed :: "64 word \<Rightarrow> 64 word \<Rightarrow> database \<Rightarrow> database" where
  "framed a b d = d\<lparr>revision := a, baseRevision := b\<rparr>"

lemma framed_simps [simp]:
  "Tables (framed a b d) = Tables d" "table_lookup (framed a b d) n = table_lookup d n"
  "setTable (framed a b d) n t = framed a b (setTable d n t)" "framed a b (framed a' b' d) = framed a b d"
  "revision (framed a b d) = a" "baseRevision (framed a b d) = b" "framed a b (d\<lparr>Tables := T\<rparr>) = framed a b d\<lparr>Tables := T\<rparr>"
  by (simp_all add: framed_def table_lookup_def setTable_def)

definition inFrame :: "(database \<Rightarrow> result res \<times> database) \<Rightarrow> bool" where
  "inFrame f \<longleftrightarrow> (\<forall>a b d. f (framed a b d) = map_prod id (framed a b) (f d))"

lemma inFrame_same: "inFrame f \<Longrightarrow> revision (snd (f d)) = revision d \<and> baseRevision (snd (f d)) = baseRevision d"
proof -
  assume f: "inFrame f"
  have d: "framed (revision d) (baseRevision d) d = d" by (simp add: framed_def)
  with f have "f d = map_prod id (framed (revision d) (baseRevision d)) (f d)" unfolding inFrame_def by metis
  then have "snd (f d) = framed (revision d) (baseRevision d) (snd (f d))" by (metis snd_map_prod)
  then show ?thesis by (metis framed_simps(5,6))
qed

lemma onTable_frame: "inFrame (onTable name f)"
  by (auto simp: inFrame_def onTable_def split: sum.splits prod.splits)

lemma selectRows_frame: "selectRows ctx s maxRows (framed a b d) = selectRows ctx s maxRows d"
  unfolding selectRows_def framed_simps ..

lemma meta_frame: "meta s (framed a b d) = meta s d"
  unfolding meta_def show_stmt_def describe_def describeFrom_def describeTable_def showIndexes_def framed_simps ..

lemma create_frame: "inFrame (create s)"
  by (auto simp: inFrame_def create_def Let_def split: option.splits sum.splits)

lemma createIndex_frame: "inFrame (createIndex ctx s)"
  by (auto simp: inFrame_def createIndex_def sliceOr_def Let_def split: option.splits sum.splits prod.splits)

lemma alterTable_frame: "inFrame (alterTable ctx s)"
  using onTable_frame by (auto simp: inFrame_def alterTable_def dropColumn_def Let_def split: sum.splits)

lemma drop_frame: "inFrame (drop_stmt s)"
  using onTable_frame by (auto simp: inFrame_def drop_stmt_def dropTable_def dropIndex_def Let_def split: option.splits)

lemma truncate_frame: "inFrame (truncate_stmt s)"
  using onTable_frame by (auto simp: inFrame_def truncate_stmt_def Let_def split: list.splits)

lemma intoTable_frame: "intoTable s off stop (framed a b d) = intoTable s off stop d"
  unfolding intoTable_def framed_simps ..

lemma insertInto_frame: "inFrame (insertInto ctx s off vi replace)"
  by (auto simp: inFrame_def insertInto_def intoTable_frame split: sum.splits prod.splits)

lemma insertSelect_frame: "inFrame (insertSelect ctx s off si replace maxRows)"
  by (auto simp: inFrame_def insertSelect_def intoTable_frame selectRows_frame split: sum.splits prod.splits)

lemma insert_frame: "inFrame (insert_stmt ctx s maxRows)"
  using insertInto_frame insertSelect_frame
  by (auto simp: inFrame_def insert_stmt_def Let_def split: option.splits sum.splits prod.splits)

lemma update_frame: "inFrame (update ctx s)"
  by (auto simp: inFrame_def update_def Let_def split: option.splits sum.splits prod.splits)

lemma delete_frame: "inFrame (delete ctx s)"
  by (auto simp: inFrame_def delete_def Let_def split: option.splits sum.splits prod.splits)

lemma exec_frame: "inFrame (exec ctx sql maxRows)"
  using create_frame createIndex_frame alterTable_frame drop_frame truncate_frame insert_frame update_frame delete_frame
  by (simp add: inFrame_def exec_def Let_def meta_frame selectRows_frame)

section \<open>Sequences of statements\<close>

definition run :: "string list \<Rightarrow> database \<Rightarrow> database" where
  "run sqls d = fold (\<lambda>sql d. snd (Exec sql d)) sqls d"

text \<open>How many of the statements write and succeed.\<close>

fun writes :: "string list \<Rightarrow> database \<Rightarrow> nat" where
  "writes [] d = 0"
| "writes (sql # sqls) d =
     (if \<not> IsReadOnly sql \<and> (case fst (Exec sql d) of Inr _ \<Rightarrow> True | Inl _ \<Rightarrow> False) then 1 else 0) + writes sqls (snd (Exec sql d))"

lemma Exec_frame:
  "baseRevision (snd (Exec sql d)) = baseRevision d"
  "revision (snd (Exec sql d)) = revision d + of_nat (writes [sql] d)"
  using inFrame_same[OF exec_frame, of background sql 0 d]
  by (auto simp: Exec_def ExecWithOptions_def split: prod.splits sum.splits)

lemma run_Cons: "run (sql # sqls) d = run sqls (snd (Exec sql d))"
  by (simp add: run_def)

lemma run_frame: "baseRevision (run sqls d) = baseRevision d" "revision (run sqls d) = revision d + of_nat (writes sqls d)"
proof (induction sqls arbitrary: d)
  case (Cons sql sqls)
  { case 1 show ?case using Cons(1)[of "snd (Exec sql d)"] Exec_frame(1)[of sql d] by (simp add: run_Cons) }
  { case 2 show ?case using Cons(2)[of "snd (Exec sql d)"] Exec_frame(2)[of sql d] by (simp add: run_Cons) }
qed (simp_all add: run_def)

lemma Clone_base: "baseRevision (Clone d) = revision d"
  by (simp add: Clone_def)

section \<open>Copies\<close>

lemma mmap_id [simp]: "mmap (\<lambda>k v. v) m = m"
  by (simp add: mmap_def)

lemma cloneLocked_eq: "cloneLocked t = (if fast t = [] then t\<lparr>colpos := [], fastPos := [], fastDead := 0\<rparr> else t)"
proof -
  have f: "map (\<lambda>fr. \<lparr>fkey = fkey fr, fvalues = fvalues fr\<rparr>) fs = fs" for fs :: "fastRow list" by (induction fs) auto
  show ?thesis by (cases "fast t = []") (auto simp: cloneLocked_def Let_def f intro: table.equality)
qed

lemma cloneLocked_wf: "wf_table (cloneLocked t) \<longleftrightarrow> wf_table t"
proof (cases "fast t = []")
  case True
  then have c: "cloneLocked t = t\<lparr>colpos := [], fastPos := [], fastDead := 0\<rparr>" by (simp add: cloneLocked_eq)
  have "wf_index (t\<lparr>colpos := [], fastPos := [], fastDead := 0\<rparr>) = wf_index t"
    by (simp add: wf_index_def idx_shape_def bucketOf_def)
  with True show ?thesis unfolding c
    by (simp add: wf_table_def wf_rows_def fast_ok_def wf_names_def keys_ok_def primaryColumn_def)
qed (simp add: cloneLocked_eq)

text \<open>A table whose copy is itself: positions are kept only with a fast array.\<close>

definition copyExact :: "table \<Rightarrow> bool" where
  "copyExact t \<longleftrightarrow> (fast t = [] \<longrightarrow> colpos t = [] \<and> fastPos t = [] \<and> fastDead t = 0)"

lemma copyExact_same: "copyExact t \<Longrightarrow> cloneLocked t = t"
  by (simp add: copyExact_def cloneLocked_eq)

lemma mmap_same: "(\<And>k v. (k, v) \<in> set m \<Longrightarrow> f k v = v) \<Longrightarrow> mmap f m = m"
  by (induction m) (auto simp: mmap_def)

lemma Clone_exact:
  assumes "dbAll copyExact d" "mwf (Tables d)"
  shows "Tables (Clone d) = Tables d"
proof -
  have "mmap (\<lambda>name t. cloneLocked t) (Tables d) = Tables d"
    by (rule mmap_same) (use assms copyExact_same in \<open>auto simp: dbAll_def intro: map_of_is_SomeI\<close>)
  then show ?thesis by (simp add: Clone_def cloneImage_def cloneTablesLocked_def)
qed

section \<open>Transactions\<close>

lemma Exec_Tables: "Tables d1 = Tables d2 \<Longrightarrow> Tables (snd (Exec sql d1)) = Tables (snd (Exec sql d2))"
proof -
  assume t: "Tables d1 = Tables d2"
  then have d: "d2 = framed (revision d2) (baseRevision d2) d1" by (simp add: framed_def)
  have "Tables (snd (exec background sql 0 (framed a b d1))) = Tables (snd (exec background sql 0 d1))" for a b
    using exec_frame[of background sql 0] unfolding inFrame_def by (simp add: snd_map_prod)
  with d have "Tables (snd (exec background sql 0 d2)) = Tables (snd (exec background sql 0 d1))" by metis
  moreover have "Tables (snd (Exec sql d)) = Tables (snd (exec background sql 0 d))" for d
    by (simp add: Exec_def ExecWithOptions_def split: prod.splits)
  ultimately show ?thesis by simp
qed

lemma run_Tables: "Tables d1 = Tables d2 \<Longrightarrow> Tables (run sqls d1) = Tables (run sqls d2)"
proof (induction sqls arbitrary: d1 d2)
  case (Cons sql sqls)
  from Cons.IH[OF Exec_Tables[OF Cons.prems]] show ?case by (simp add: run_Cons)
qed (simp add: run_def)

lemma Exec_failure: "fst (Exec sql d) = Inl e \<Longrightarrow> snd (Exec sql d) = d"
  using exec_step[of background sql 0 d] db_step_error
  by (auto simp: Exec_def ExecWithOptions_def split: prod.splits)

lemma Exec_read_only: "IsReadOnly sql \<Longrightarrow> snd (Exec sql d) = d"
  using exec_read_only[of sql background 0 d] by (auto simp: Exec_def ExecWithOptions_def split: prod.splits)

lemma run_no_writes: "writes sqls d = 0 \<Longrightarrow> run sqls d = d"
proof (induction sqls arbitrary: d)
  case (Cons sql sqls)
  have "snd (Exec sql d) = d"
    using Cons.prems Exec_read_only[of sql d] Exec_failure[of sql d] by (auto split: if_splits sum.splits)
  with Cons show ?case by (simp add: run_Cons split: if_splits)
qed (simp add: run_def)

lemma cloneImage_Tables: "Tables d1 = Tables d2 \<Longrightarrow> cloneImage d1 = cloneImage d2"
  by (simp add: cloneImage_def cloneTablesLocked_def)

section \<open>Batches\<close>

lemma execBatchLoop_acc:
  "execBatchLoop (\<lambda>_. background) i sqls 0 results d =
     (case execBatchLoop (\<lambda>_. background) i sqls 0 [] d of (rs, e, d') \<Rightarrow> (results @ rs, e, d'))"
proof (induction sqls arbitrary: i results d)
  case (Cons sql sqls)
  show ?case
  proof (cases "ExecWithOptions background sql 0 d")
    case (Pair r d')
    show ?thesis
    proof (cases r)
      case (Inr x)
      show ?thesis
        using Cons[of "Suc i" "results @ [x]" d'] Cons[of "Suc i" "[x]" d'] Pair Inr by (simp split: prod.splits)
    qed (simp add: Pair)
  qed
qed simp

lemma batch_spec:
  assumes "execBatchLoop (\<lambda>_. background) i sqls 0 [] d = (rs, e, d')"
  shows "length rs \<le> length sqls \<and> (e = None \<longleftrightarrow> length rs = length sqls) \<and>
    (\<forall>j < length rs. fst (Exec (sqls ! j) (run (take j sqls) d)) = Inr (rs ! j)) \<and>
    (case e of
       None \<Rightarrow> d' = run sqls d
     | Some b \<Rightarrow> beStatement b = i + length rs + 1 \<and> fst (Exec (sqls ! length rs) (run (take (length rs) sqls) d)) = Inl (beCause b) \<and>
         d' = run (take (Suc (length rs)) sqls) d)"
  using assms
proof (induction sqls arbitrary: i d rs)
  case Nil
  then show ?case by (auto simp: run_def)
next
  case (Cons sql sqls)
  obtain r d1 where x: "ExecWithOptions background sql 0 d = (r, d1)" by force
  then have ex: "fst (Exec sql d) = r" "snd (Exec sql d) = d1" by (simp_all add: Exec_def)
  show ?case
  proof (cases r)
    case (Inl err)
    with Cons.prems x have "rs = []" "e = Some \<lparr>beStatement = i + 1, beCause = err\<rparr>" "d' = d1" by auto
    with ex Inl show ?thesis by (simp add: run_def)
  next
    case (Inr res)
    obtain rs1 where rs: "execBatchLoop (\<lambda>_. background) (Suc i) sqls 0 [] d1 = (rs1, e, d')" "rs = res # rs1"
      using Cons.prems x Inr execBatchLoop_acc[of "Suc i" sqls "[res]" d1] by (auto split: prod.splits)
    note IH = Cons.IH[OF rs(1)]
    have "fst (Exec ((sql # sqls) ! j) (run (take j (sql # sqls)) d)) = Inr (rs ! j)" if "j < length rs" for j
      using that IH ex Inr rs(2) by (cases j) (auto simp: run_Cons run_def[of "[]"])
    with IH ex rs(2) show ?thesis by (auto simp: run_Cons split: option.splits)
  qed
qed

section \<open>Properties\<close>

text \<open>
  C20: first committer wins. A transaction that began on \<open>d\<close> while other statements ran on \<open>d\<close> commits
  exactly when none of them was a successful write (their number is a multiple of \<^verbatim>\<open>2^64\<close>) and the image
  was persisted; then its image becomes the database under the next revision. Otherwise the database stays as
  the other statements left it.
\<close>

theorem transaction_conflicts:
  "CommitFrom (run txn (Clone d)) persist (run others d) =
     (if (of_nat (writes others d) :: 64 word) \<noteq> 0 then
        (Some (Msg ''transaction conflict: database changed since BEGIN''), run others d)
      else case persist (cloneImage (run txn (Clone d))) of
        Some e \<Rightarrow> (Some e, run others d)
      | None \<Rightarrow> (None, (run others d)\<lparr>Tables := Tables (cloneImage (run txn (Clone d))), revision := revision d + 1\<rparr>))"
  by (auto simp: CommitFrom_def replace_db_def Let_def run_frame Clone_base split: option.splits)

text \<open>
  C21: a committed transaction is serial: when it commits, the tables are those that its statements would have
  left if they had run on the database directly.
\<close>

theorem transaction_is_serial:
  assumes "dbAll copyExact d" "mwf (Tables d)" "writes others d = 0" "persist (cloneImage (run txn d)) = None"
  shows "CommitFrom (run txn (Clone d)) persist (run others d) =
    (None, d\<lparr>Tables := Tables (cloneImage (run txn d)), revision := revision d + 1\<rparr>)"
proof -
  have "cloneImage (run txn (Clone d)) = cloneImage (run txn d)"
    using cloneImage_Tables[OF run_Tables[OF Clone_exact[OF assms(1,2)]]] .
  then show ?thesis
    using assms(4) run_no_writes[OF assms(3)] by (simp add: CommitFrom_def replace_db_def Let_def run_frame Clone_base)
qed

lemma usersDb_copy: "dbAll copyExact usersDb"
  by (auto simp: dbAll_def usersDb_def newDatabase_def copyExact_def twoUsers_def users_def newTable_def split: if_splits)

theorem transaction_is_serial_witness:
  "CommitFrom (run [''DELETE FROM users WHERE id = 1''] (Clone usersDb)) (\<lambda>_. None) (run [''SELECT * FROM users'', ''DROP TABLE nope''] usersDb) =
    (None, usersDb\<lparr>Tables := Tables (cloneImage (run [''DELETE FROM users WHERE id = 1''] usersDb)), revision := revision usersDb + 1\<rparr>)"
proof -
  have "writes [''SELECT * FROM users'', ''DROP TABLE nope''] usersDb = 0" by code_simp
  from transaction_is_serial[OF usersDb_copy usersDb_ok(3) this] show ?thesis by simp
qed

text \<open>
  A batch runs its statements in order and stops at the first that fails: the results are those of the
  statements before it, the error carries its number and cause, and no later statement runs.
\<close>

theorem batch_stops_at_first_error:
  assumes "ExecBatchContext (\<lambda>_. background) sqls 0 d = (rs, e, d')"
  shows "length rs \<le> length sqls \<and> (e = None \<longleftrightarrow> length rs = length sqls) \<and>
    (\<forall>j < length rs. fst (Exec (sqls ! j) (run (take j sqls) d)) = Inr (rs ! j)) \<and>
    (case e of
       None \<Rightarrow> d' = run sqls d
     | Some b \<Rightarrow> beStatement b = length rs + 1 \<and> fst (Exec (sqls ! length rs) (run (take (length rs) sqls) d)) = Inl (beCause b) \<and>
         d' = run (take (Suc (length rs)) sqls) d)"
  using batch_spec[of 0 sqls d rs e d', OF assms[unfolded ExecBatchContext_def]] unfolding add_0 .

theorem batch_stops_at_first_error_witness:
  "\<exists>rs d'. ExecBatchContext (\<lambda>_. background) [''DELETE FROM users WHERE id = 1'', ''DROP TABLE nope'', ''DROP TABLE users''] 0 usersDb =
      (rs, Some \<lparr>beStatement = 2, beCause = Msg ''table not found''\<rparr>, d') \<and>
    d' = run [''DELETE FROM users WHERE id = 1'', ''DROP TABLE nope''] usersDb"
proof -
  let ?sqls = "[''DELETE FROM users WHERE id = 1'', ''DROP TABLE nope'', ''DROP TABLE users'']"
  let ?b = "ExecBatchContext (\<lambda>_. background) ?sqls 0 usersDb"
  have "map_prod length fst ?b = (1, Some \<lparr>beStatement = 2, beCause = Msg ''table not found''\<rparr>)" by code_simp
  then obtain rs d' where b: "?b = (rs, Some \<lparr>beStatement = 2, beCause = Msg ''table not found''\<rparr>, d')" "length rs = 1"
    by (cases ?b) auto
  from batch_stops_at_first_error[OF b(1)] b show ?thesis by auto
qed

end
