(* ===== verification/Bind.thy ===== *)
theory Bind
  imports Equality
begin

text \<open>
  Parameters of statements (\<^verbatim>\<open>internal/engine/bind.go\<close>): \<^verbatim>\<open>BindParams\<close>, \<^verbatim>\<open>PlaceholderCount\<close>,
  \<^verbatim>\<open>hasPlaceholder\<close> and \<^verbatim>\<open>formatParam\<close>. A parameter is a value of type \<open>param\<close>: the signed and the unsigned
  integer types of the type switch are \<open>PInt\<close> and \<open>PUint\<close>, a \<^verbatim>\<open>float32\<close> is the \<^verbatim>\<open>float64\<close> it converts to, and
  \<open>POther\<close> carries the text that \<^verbatim>\<open>fmt.Sprint\<close> gives of a value of any other type.

  The three loops read a statement in one way (\<open>slots\<close>, a list of bytes and holes), so binding fills the
  holes (\<open>BindParams_spec\<close>). What a statement is outside its literals (\<open>outside\<close>) depends on the template
  and on the kinds of the parameters only: a string parameter cannot leave its literal.
\<close>

declare map_of_eq_Some_iff [simp del] Some_eq_map_of_iff [simp del]

section \<open>Binding parameters (bind.go)\<close>

datatype param =
    PNil
  | PStr string
  | PBool bool
  | PInt int
  | PUint nat
  | PFloat float64
  | PBytes string
  | POther string

definition quoted :: "string \<Rightarrow> string" where
  "quoted s = quoteChar # double s @ [quoteChar]"

definition formatParam :: "param \<Rightarrow> string" where
  "formatParam v =
     (case v of
        PNil \<Rightarrow> ''NULL''
      | PStr s \<Rightarrow> quoted s
      | PBool b \<Rightarrow> (if b then ''true'' else ''false'')
      | PInt i \<Rightarrow> FormatInt i
      | PUint n \<Rightarrow> fmtNat n
      | PFloat f \<Rightarrow> FormatFloat f
      | PBytes s \<Rightarrow> quoted s
      | POther s \<Rightarrow> quoted s)"

fun hasPlaceholderLoop :: "bool \<Rightarrow> string \<Rightarrow> bool" where
  "hasPlaceholderLoop inQuote [] \<longleftrightarrow> False"
| "hasPlaceholderLoop inQuote (c # cs) \<longleftrightarrow>
     (if c = quoteChar then
        (case cs of
           d # ds \<Rightarrow>
             if inQuote \<and> d = quoteChar then hasPlaceholderLoop inQuote ds else hasPlaceholderLoop (\<not> inQuote) cs
         | [] \<Rightarrow> hasPlaceholderLoop (\<not> inQuote) cs)
      else if c = CHR ''?'' \<and> \<not> inQuote then True
      else hasPlaceholderLoop inQuote cs)"

definition hasPlaceholder :: "string \<Rightarrow> bool" where
  "hasPlaceholder sql = hasPlaceholderLoop False sql"

fun placeholderLoop :: "bool \<Rightarrow> nat \<Rightarrow> string \<Rightarrow> nat" where
  "placeholderLoop inQuote n [] = n"
| "placeholderLoop inQuote n (c # cs) =
     (if c = quoteChar then
        (case cs of
           d # ds \<Rightarrow>
             if inQuote \<and> d = quoteChar then placeholderLoop inQuote n ds else placeholderLoop (\<not> inQuote) n cs
         | [] \<Rightarrow> placeholderLoop (\<not> inQuote) n cs)
      else if c = CHR ''?'' \<and> \<not> inQuote then placeholderLoop inQuote (n + 1) cs
      else placeholderLoop inQuote n cs)"

definition PlaceholderCount :: "string \<Rightarrow> nat" where
  "PlaceholderCount sql = placeholderLoop False 0 sql"

fun bindLoop :: "bool \<Rightarrow> nat \<Rightarrow> param list \<Rightarrow> string \<Rightarrow> string \<Rightarrow> string res" where
  "bindLoop inQuote arg args out [] =
     (if arg \<noteq> length args then
        Inl (Msg (''too many params: have '' @ fmtNat (length args) @ '' args for '' @ fmtNat arg @ '' placeholders''))
      else Inr out)"
| "bindLoop inQuote arg args out (c # cs) =
     (if c = quoteChar then
        (case cs of
           d # ds \<Rightarrow>
             if inQuote \<and> d = quoteChar then bindLoop inQuote arg args (out @ [quoteChar, quoteChar]) ds
             else bindLoop (\<not> inQuote) arg args (out @ [c]) cs
         | [] \<Rightarrow> bindLoop (\<not> inQuote) arg args (out @ [c]) cs)
      else if c = CHR ''?'' \<and> \<not> inQuote then
        (if arg \<ge> length args then Inl (Msg (''too few params: placeholder '' @ fmtNat (arg + 1) @ '' has no value''))
         else bindLoop inQuote (arg + 1) args (out @ formatParam (args ! arg)) cs)
      else bindLoop inQuote arg args (out @ [c]) cs)"

definition BindParams :: "string \<Rightarrow> param list \<Rightarrow> string res" where
  "BindParams sql args =
     (if args = [] then
        (if hasPlaceholder sql then Inl (Msg ''missing params: query has placeholders but no args'') else Inr sql)
      else bindLoop False 0 args [] sql)"

section \<open>Templates\<close>

text \<open>A statement as a list of bytes and holes: the one reading that the three loops share.\<close>

fun slots :: "bool \<Rightarrow> string \<Rightarrow> char option list" where
  "slots q [] = []"
| "slots q (c # cs) =
     (if c = quoteChar then
        (case cs of
           d # ds \<Rightarrow> if q \<and> d = quoteChar then Some quoteChar # Some quoteChar # slots q ds else Some c # slots (\<not> q) cs
         | [] \<Rightarrow> [Some c])
      else if c = CHR ''?'' \<and> \<not> q then None # slots q cs
      else Some c # slots q cs)"

definition holes :: "char option list \<Rightarrow> nat" where
  "holes ts = length (filter (\<lambda>t. t = None) ts)"

fun fillSlots :: "string list \<Rightarrow> char option list \<Rightarrow> string" where
  "fillSlots ps [] = []"
| "fillSlots ps (Some c # ts) = c # fillSlots ps ts"
| "fillSlots (p # ps) (None # ts) = p @ fillSlots ps ts"
| "fillSlots [] (None # ts) = []"

lemma holes_simps [simp]: "holes [] = 0" "holes (Some c # ts) = holes ts" "holes (None # ts) = Suc (holes ts)"
  by (simp_all add: holes_def)

text \<open>
  The scanners read a statement in the same four ways: a quote opens a literal, two quotes inside it stand
  for one, a quote closes it, and any other byte leaves the state. This is their common induction.
\<close>

definition noQuote :: "string \<Rightarrow> bool" where
  "noQuote s \<longleftrightarrow> s = [] \<or> hd s \<noteq> quoteChar"

lemma noQuote_simps [simp]: "noQuote []" "noQuote (c # cs) \<longleftrightarrow> c \<noteq> quoteChar"
  by (simp_all add: noQuote_def)

lemma quote_induct [case_names Nil Open Escape Close Plain]:
  assumes "\<And>q. P q []" "\<And>cs. P True cs \<Longrightarrow> P False (quoteChar # cs)"
    "\<And>cs. P True cs \<Longrightarrow> P True (quoteChar # quoteChar # cs)"
    "\<And>cs. noQuote cs \<Longrightarrow> P False cs \<Longrightarrow> P True (quoteChar # cs)"
    "\<And>q c cs. c \<noteq> quoteChar \<Longrightarrow> P q cs \<Longrightarrow> P q (c # cs)"
  shows "P q s"
proof (induction "length s" arbitrary: q s rule: less_induct)
  case less
  show ?case
  proof (cases s)
    case (Cons c cs)
    show ?thesis
    proof (cases "c = quoteChar")
      case c: True
      show ?thesis
      proof (cases q)
        case True
        show ?thesis
        proof (cases "noQuote cs")
          case False
          then obtain ds where "cs = quoteChar # ds" by (cases cs) auto
          with assms(3)[of ds] less[of ds True] Cons c True show ?thesis by simp
        qed (use assms(4)[of cs] less[of cs False] Cons c True in simp)
      qed (use assms(2)[of cs] less[of cs True] Cons c in simp)
    qed (use assms(5)[of c q cs] less[of cs q] Cons in simp)
  qed (simp add: assms(1))
qed

declare slots.simps(2) [simp del] hasPlaceholderLoop.simps(2) [simp del] placeholderLoop.simps(2) [simp del] bindLoop.simps(2) [simp del]

lemma slots_scan:
  "slots False (quoteChar # cs) = Some quoteChar # slots True cs"
  "slots True (quoteChar # quoteChar # cs) = Some quoteChar # Some quoteChar # slots True cs"
  "noQuote cs \<Longrightarrow> slots True (quoteChar # cs) = Some quoteChar # slots False cs"
  "c \<noteq> quoteChar \<Longrightarrow> slots q (c # cs) = (if c = CHR ''?'' \<and> \<not> q then None else Some c) # slots q cs"
  by (subst slots.simps(2); cases cs; simp)+

lemma hasPlaceholder_scan:
  "hasPlaceholderLoop False (quoteChar # cs) = hasPlaceholderLoop True cs"
  "hasPlaceholderLoop True (quoteChar # quoteChar # cs) = hasPlaceholderLoop True cs"
  "noQuote cs \<Longrightarrow> hasPlaceholderLoop True (quoteChar # cs) = hasPlaceholderLoop False cs"
  by (subst hasPlaceholderLoop.simps(2); cases cs; simp)+

lemma hasPlaceholder_plain:
  "c \<noteq> quoteChar \<Longrightarrow> hasPlaceholderLoop q (c # cs) \<longleftrightarrow> c = CHR ''?'' \<and> \<not> q \<or> hasPlaceholderLoop q cs"
  by (auto simp: hasPlaceholderLoop.simps(2)[of q c cs])

lemma placeholder_scan:
  "placeholderLoop False n (quoteChar # cs) = placeholderLoop True n cs"
  "placeholderLoop True n (quoteChar # quoteChar # cs) = placeholderLoop True n cs"
  "noQuote cs \<Longrightarrow> placeholderLoop True n (quoteChar # cs) = placeholderLoop False n cs"
  "c \<noteq> quoteChar \<Longrightarrow> placeholderLoop q n (c # cs) = placeholderLoop q (if c = CHR ''?'' \<and> \<not> q then n + 1 else n) cs"
  by (subst placeholderLoop.simps(2); cases cs; simp)+

lemma bind_scan:
  "bindLoop False arg args out (quoteChar # cs) = bindLoop True arg args (out @ [quoteChar]) cs"
  "bindLoop True arg args out (quoteChar # quoteChar # cs) = bindLoop True arg args (out @ [quoteChar, quoteChar]) cs"
  "noQuote cs \<Longrightarrow> bindLoop True arg args out (quoteChar # cs) = bindLoop False arg args (out @ [quoteChar]) cs"
  "c \<noteq> quoteChar \<Longrightarrow> bindLoop q arg args out (c # cs) =
     (if c = CHR ''?'' \<and> \<not> q then
        (if arg \<ge> length args then Inl (Msg (''too few params: placeholder '' @ fmtNat (arg + 1) @ '' has no value''))
         else bindLoop q (arg + 1) args (out @ formatParam (args ! arg)) cs)
      else bindLoop q arg args (out @ [c]) cs)"
  by (subst bindLoop.simps(2); cases cs; simp)+

lemma hasPlaceholder_slots: "hasPlaceholderLoop q s \<longleftrightarrow> holes (slots q s) > 0"
  by (induction q s rule: quote_induct) (auto simp: hasPlaceholder_scan hasPlaceholder_plain slots_scan)

lemma placeholder_slots: "placeholderLoop q n s = n + holes (slots q s)"
  by (induction q s arbitrary: n rule: quote_induct) (auto simp: placeholder_scan slots_scan)

lemma fillSlots_nil: "holes (slots q s) = 0 \<Longrightarrow> fillSlots [] (slots q s) = s"
  by (induction q s rule: quote_induct) (auto simp: slots_scan split: if_splits)

lemma bindLoop_slots:
  "arg \<le> length args \<Longrightarrow>
   (arg + holes (slots q s) = length args \<longrightarrow> bindLoop q arg args out s = Inr (out @ fillSlots (map formatParam (drop arg args)) (slots q s))) \<and>
   (arg + holes (slots q s) \<noteq> length args \<longrightarrow> (\<exists>e. bindLoop q arg args out s = Inl e))"
proof (induction q s arbitrary: arg out rule: quote_induct)
  case (Plain q c cs)
  show ?case
  proof (cases "c = CHR ''?'' \<and> \<not> q \<and> arg < length args")
    case True
    then have "drop arg args = args ! arg # drop (Suc arg) args" by (simp add: Cons_nth_drop_Suc)
    with True Plain.IH[of "Suc arg" "out @ formatParam (args ! arg)"] Plain.hyps show ?thesis by (simp add: slots_scan bind_scan)
  next
    case False
    with Plain.IH[of arg "out @ [c]"] Plain.hyps Plain.prems show ?thesis by (auto simp: slots_scan bind_scan)
  qed
qed (auto simp: bind_scan slots_scan)

lemma BindParams_spec:
  "BindParams sql args = Inr out \<longleftrightarrow> PlaceholderCount sql = length args \<and> out = fillSlots (map formatParam args) (slots False sql)"
proof (cases "args = []")
  case True
  then show ?thesis
    by (auto simp: BindParams_def hasPlaceholder_def hasPlaceholder_slots PlaceholderCount_def placeholder_slots fillSlots_nil)
next
  case False
  then show ?thesis
    using bindLoop_slots[of 0 args False sql "[]"]
    by (auto simp: BindParams_def PlaceholderCount_def placeholder_slots)
qed

section \<open>Structure\<close>

text \<open>What is left of a statement without the contents of its literals.\<close>

fun outside :: "bool \<Rightarrow> string \<Rightarrow> string" where
  "outside q [] = []"
| "outside q (c # cs) =
     (if c = quoteChar then
        (case cs of
           d # ds \<Rightarrow> if q \<and> d = quoteChar then outside q ds else c # outside (\<not> q) cs
         | [] \<Rightarrow> [c])
      else if q then outside q cs
      else c # outside q cs)"

fun outsideSlots :: "bool \<Rightarrow> char option list \<Rightarrow> char option list" where
  "outsideSlots q [] = []"
| "outsideSlots q (None # ts) = None # outsideSlots q ts"
| "outsideSlots q (Some c # ts) =
     (if c = quoteChar then
        (case ts of
           Some d # us \<Rightarrow> if q \<and> d = quoteChar then outsideSlots q us else Some c # outsideSlots (\<not> q) ts
         | _ \<Rightarrow> Some c # outsideSlots (\<not> q) ts)
      else if q then outsideSlots q ts
      else Some c # outsideSlots q ts)"

text \<open>No hole touches a quote or another hole.\<close>

fun apart :: "char option list \<Rightarrow> bool" where
  "apart (None # None # ts) \<longleftrightarrow> False"
| "apart (None # Some c # ts) \<longleftrightarrow> c \<noteq> quoteChar \<and> apart (Some c # ts)"
| "apart (Some c # None # ts) \<longleftrightarrow> c \<noteq> quoteChar \<and> apart (None # ts)"
| "apart (Some c # Some d # ts) \<longleftrightarrow> apart (Some d # ts)"
| "apart _ \<longleftrightarrow> True"

lemma apart_tail: "apart (t # ts) \<Longrightarrow> apart ts"
  by (cases t; cases ts; cases "hd ts") auto

definition closedToken :: "string \<Rightarrow> bool" where
  "closedToken p \<longleftrightarrow> (\<forall>w. noQuote w \<longrightarrow> outside False (p @ w) = outside False p @ outside False w)"

declare outside.simps(2) [simp del]

lemma outside_scan:
  "outside False (quoteChar # cs) = quoteChar # outside True cs"
  "outside True (quoteChar # quoteChar # cs) = outside True cs"
  "noQuote cs \<Longrightarrow> outside True (quoteChar # cs) = quoteChar # outside False cs"
  "c \<noteq> quoteChar \<Longrightarrow> outside q (c # cs) = (if q then outside q cs else c # outside q cs)"
  by (subst outside.simps(2); cases cs; simp)+

lemma outside_plain: "quoteChar \<notin> set p \<Longrightarrow> outside False (p @ w) = p @ outside False w"
  by (induction p) (auto simp: outside_scan)

lemma outside_literal: "noQuote w \<Longrightarrow> outside True (double s @ quoteChar # w) = quoteChar # outside False w"
  by (induction s) (auto simp: double_def outside_scan)

lemma outside_quoted: "noQuote w \<Longrightarrow> outside False (quoted s @ w) = quoteChar # quoteChar # outside False w"
  by (simp add: quoted_def outside_scan outside_literal)

lemma fmtNat_plain: "quoteChar \<notin> set (fmtNat n)"
  using fmtNat_digits[of n] by (auto simp: list_all_iff isDigit_def)

lemma FormatFloat_plain: "quoteChar \<notin> set (FormatFloat f)"
proof (cases f)
  case (FFin neg m e)
  have ds: "quoteChar \<notin> set (stripZeros (fmtNat n))" for n
    using fmtNat_plain[of n] set_dropWhileD by (fastforce simp: stripZeros_def)
  have e: "quoteChar \<notin> set (fmtE ds x)" if "quoteChar \<notin> set ds" for ds x
    using that fmtNat_plain by (auto simp: fmtE_def Let_def dest: in_set_takeD in_set_dropD)
  have ff: "quoteChar \<notin> set (fmtF ds x)" if "quoteChar \<notin> set ds" for ds x
    using that by (auto simp: fmtF_def dest: in_set_takeD in_set_dropD)
  show ?thesis using FFin ds e ff by (auto simp: Let_def split: prod.splits)
qed auto

lemma formatParam_closed: "closedToken (formatParam v)"
proof (cases "\<exists>s. formatParam v = quoted s")
  case True
  then obtain s where s: "formatParam v = quoted s" by blast
  show ?thesis
    using outside_quoted[of _ s] outside_quoted[of "[]" s] by (auto simp: closedToken_def s noQuote_def)
next
  case False
  have "quoteChar \<notin> set (formatParam v)" using False FormatFloat_plain fmtNat_plain
    by (cases v) (auto simp: formatParam_def FormatInt_def)
  then show ?thesis using outside_plain[of "formatParam v"] outside_plain[of "formatParam v" "[]"] by (simp add: closedToken_def)
qed

lemma noQuote_fill:
  assumes "noQuote s" "apart (Some quoteChar # slots False s)"
  shows "noQuote (fillSlots ps (slots False s))"
  using assms by (cases s) (auto simp: slots_scan split: if_splits)

lemma noQuote_after: "apart (None # ts) \<Longrightarrow> noQuote (fillSlots ps ts)"
  by (cases ts; cases "hd ts") auto

lemma outside_fill:
  assumes "apart (slots q s)" "\<forall>p \<in> set ps. closedToken p" "holes (slots q s) \<le> length ps"
  shows "outside q (fillSlots ps (slots q s)) = fillSlots (map (outside False) ps) (outsideSlots q (slots q s))"
  using assms
proof (induction q s arbitrary: ps rule: quote_induct)
  case (Open cs)
  have "outsideSlots False (Some quoteChar # slots True cs) = Some quoteChar # outsideSlots True (slots True cs)"
    by (cases "slots True cs"; cases "hd (slots True cs)") auto
  with Open apart_tail[of "Some quoteChar" "slots True cs"] show ?case by (simp add: slots_scan outside_scan)
next
  case (Escape cs)
  with apart_tail[of "Some quoteChar"] show ?case by (simp add: slots_scan outside_scan)
next
  case (Close cs)
  have a: "apart (Some quoteChar # slots False cs)" using Close.prems(1) Close.hyps by (simp add: slots_scan)
  have "outsideSlots True (Some quoteChar # slots False cs) = Some quoteChar # outsideSlots False (slots False cs)"
    using a Close.hyps by (cases cs) (auto simp: slots_scan)
  with Close apart_tail[OF a] noQuote_fill[OF Close.hyps a] show ?case by (simp add: slots_scan outside_scan)
next
  case (Plain q c cs)
  show ?case
  proof (cases "c = CHR ''?'' \<and> \<not> q")
    case True
    then obtain p ps' where ps: "ps = p # ps'" using Plain.prems(3) Plain.hyps by (cases ps) (auto simp: slots_scan)
    have a: "apart (None # slots False cs)" using Plain.prems(1) Plain.hyps True by (simp add: slots_scan)
    have "closedToken p" using Plain.prems(2) ps by simp
    then have "outside False (p @ fillSlots ps' (slots False cs)) = outside False p @ outside False (fillSlots ps' (slots False cs))"
      using noQuote_after[OF a] by (simp add: closedToken_def)
    with Plain True ps apart_tail[OF a] show ?thesis by (simp add: slots_scan)
  next
    case False
    then have "slots q (c # cs) = Some c # slots q cs" using Plain.hyps by (auto simp: slots_scan)
    with Plain apart_tail[of "Some c" "slots q cs"] show ?thesis by (cases q) (simp_all add: outside_scan)
  qed
qed simp

lemma outside_formatted:
  "outside False (formatParam v) =
     (case v of PStr _ \<Rightarrow> [quoteChar, quoteChar] | PBytes _ \<Rightarrow> [quoteChar, quoteChar] | POther _ \<Rightarrow> [quoteChar, quoteChar] | _ \<Rightarrow> formatParam v)"
proof -
  have q: "outside False (quoted s) = [quoteChar, quoteChar]" for s using outside_quoted[of "[]" s] by simp
  have "outside False p = p" if "quoteChar \<notin> set p" for p using outside_plain[OF that, of "[]"] by simp
  with q show ?thesis using FormatFloat_plain fmtNat_plain by (cases v) (auto simp: formatParam_def FormatInt_def)
qed

lemma quoted_solid: "TrimSpace (quoted s) = quoted s" "\<not> EqualFold (quoted s) ''NULL''"
proof -
  show "TrimSpace (quoted s) = quoted s" by (rule TrimSpace_solid) (auto simp: quoted_def asciiSpace_def)
  have "downcase quoteChar \<noteq> CHR ''n''" "downcase (CHR ''N'') = CHR ''n''" by code_simp+
  then show "\<not> EqualFold (quoted s) ''NULL''" by (simp add: quoted_def EqualFold_def ToLower_def)
qed

section \<open>Properties\<close>

text \<open>Binding succeeds exactly when there are as many parameters as placeholders outside literals.\<close>

theorem bind_succeeds_iff:
  "(\<exists>out. BindParams sql args = Inr out) \<longleftrightarrow> PlaceholderCount sql = length args"
  by (simp add: BindParams_spec)

text \<open>
  C38: parameters cannot change the structure of a statement: where no placeholder touches a quote or another
  placeholder, the bound statement outside its literals is the template with each placeholder replaced by the
  parameter's own text outside literals, which for a string is an empty pair of quotes, whatever the string.
\<close>

theorem bind_keeps_structure:
  assumes "BindParams sql args = Inr out" "apart (slots False sql)"
  shows "outside False out = fillSlots (map (\<lambda>v. outside False (formatParam v)) args) (outsideSlots False (slots False sql)) \<and>
    (\<forall>s. outside False (formatParam (PStr s)) = [quoteChar, quoteChar])"
proof -
  from assms(1) have b: "PlaceholderCount sql = length args" "out = fillSlots (map formatParam args) (slots False sql)"
    by (simp_all add: BindParams_spec)
  with outside_fill[OF assms(2), of "map formatParam args"] show ?thesis
    using formatParam_closed by (simp add: PlaceholderCount_def placeholder_slots comp_def outside_formatted)
qed

theorem bind_keeps_structure_witness:
  "BindParams ''SELECT * FROM t WHERE a = ? AND b = ?'' [PStr (quoteChar # '' OR 1=1''), PInt 7] =
     Inr (''SELECT * FROM t WHERE a = '' @ [quoteChar, quoteChar, quoteChar] @ '' OR 1=1'' @ [quoteChar] @ '' AND b = 7'') \<and>
   outside False (''SELECT * FROM t WHERE a = '' @ [quoteChar, quoteChar, quoteChar] @ '' OR 1=1'' @ [quoteChar] @ '' AND b = 7'') =
     ''SELECT * FROM t WHERE a = '' @ [quoteChar, quoteChar] @ '' AND b = 7''"
proof
  let ?sql = "''SELECT * FROM t WHERE a = ? AND b = ?''" and ?args = "[PStr (quoteChar # '' OR 1=1''), PInt 7]"
  show r: "BindParams ?sql ?args = Inr (''SELECT * FROM t WHERE a = '' @ [quoteChar, quoteChar, quoteChar] @ '' OR 1=1'' @ [quoteChar] @ '' AND b = 7'')"
    by code_simp
  have a: "apart (slots False ?sql)" by code_simp
  have f: "fillSlots (map (\<lambda>v. outside False (formatParam v)) ?args) (outsideSlots False (slots False ?sql)) =
      ''SELECT * FROM t WHERE a = '' @ [quoteChar, quoteChar] @ '' AND b = 7''" by code_simp
  from bind_keeps_structure[OF r a] f
  show "outside False (''SELECT * FROM t WHERE a = '' @ [quoteChar, quoteChar, quoteChar] @ '' OR 1=1'' @ [quoteChar] @ '' AND b = 7'') =
     ''SELECT * FROM t WHERE a = '' @ [quoteChar, quoteChar] @ '' AND b = 7''" by metis
qed

text \<open>
  A bound value reads back as itself where VALUES and SET read it: every string (quotes, white space and
  the text NULL included), every 64-bit integer, both booleans, and NULL.
\<close>

theorem bound_value_reads_back:
  "parseVal (formatParam (PStr s)) TText = Inr (VStr s) \<and>
   (- (2 ^ 63) \<le> i \<and> i < 2 ^ 63 \<longrightarrow> parseVal (formatParam (PInt i)) TInt = Inr (VInt i)) \<and>
   parseVal (formatParam (PBool b)) TBool = Inr (VBool b) \<and> parseVal (formatParam PNil) ct = Inr VNil"
proof (intro conjI impI)
  show "parseVal (formatParam (PStr s)) TText = Inr (VStr s)"
    using quoted_solid[of s] unquoteLiteral_quoted[of s] by (simp add: formatParam_def parseVal_def quoted_def)
  show "parseVal (formatParam (PInt i)) TInt = Inr (VInt i)" if "- (2 ^ 63) \<le> i \<and> i < 2 ^ 63"
    using that ParseInt_FormatInt[of i] by (simp add: formatParam_def parseVal_def FormatInt_trim FormatInt_not_NULL)
  have "parseVal ''true'' TBool = Inr (VBool True)" "parseVal ''false'' TBool = Inr (VBool False)" by code_simp+
  then show "parseVal (formatParam (PBool b)) TBool = Inr (VBool b)" by (simp add: formatParam_def)
  have "EqualFold (TrimSpace ''NULL'') ''NULL''" by code_simp
  then show "parseVal (formatParam PNil) ct = Inr VNil" by (simp add: formatParam_def parseVal_def)
qed

theorem bound_value_reads_back_witness: "parseVal (formatParam (PInt (- 42))) TInt = Inr (VInt (- 42))"
  using bound_value_reads_back[of "[]" "- 42" True TInt] by simp

text \<open>
  In a compiled WHERE the literal is unquoted and then read again: the text \<open>NULL\<close> becomes NULL, and outer white
  space and quotes of the value are lost.
\<close>

lemma bound_where_text_is_not_kept:
  "literalValue (formatParam (PStr ''NULL'')) TText = VNil" "literalValue (formatParam (PStr '' a'')) TText = VStr ''a''"
  by code_simp+

end
