(* ===== verification/Storage.thy ===== *)
theory Storage
  imports Go_Strings
begin

text \<open>
  Durable storage (\<^verbatim>\<open>internal/storage\<close>): the framing of \<^verbatim>\<open>format.go\<close> with its CRC-32C, the write-ahead log of
  \<^verbatim>\<open>wal.go\<close>, snapshots (\<^verbatim>\<open>snapshot.go\<close>) and the replacement of a file (\<^verbatim>\<open>atomic.go\<close>). Bytes are characters; a
  file is the string of its bytes.

  Parameters of the model, for code that is not in the repository: the compressor and decompressor of
  \<^verbatim>\<open>compress/zlib\<close>, the JSON package, and the outcome of each call of the operating system. A write that fails or is
  short leaves the bytes it did write.

  \<open>frame_roundtrip\<close> shows that a frame reads back at any offset; the locale \<open>record_stream\<close> states what a log
  needs of its record format, and its interpretation \<open>wal\<close> gives it for the records of the log. The replay of
  a log is compared with the plain execution of its statements (\<open>applyAll\<close>), for a whole log, a torn log and a
  log with a damaged byte.
\<close>

unbundle bit_operations_syntax

section \<open>Big-endian integers\<close>

text \<open>\<^verbatim>\<open>binary.BigEndian\<close>: the bytes of a word, most significant first, and back.\<close>

fun beBytes :: "nat \<Rightarrow> nat \<Rightarrow> string" where
  "beBytes 0 n = []"
| "beBytes (Suc k) n = char_of (n div 256 ^ k mod 256) # beBytes k n"

definition beValue :: "string \<Rightarrow> nat" where
  "beValue s = foldl (\<lambda>a c. a * 256 + of_char c) 0 s"

lemma length_beBytes [simp]: "length (beBytes k n) = k"
  by (induction k) auto

lemma foldl_be: "foldl (\<lambda>a c. a * 256 + of_char c) a s = a * 256 ^ length s + foldl (\<lambda>a c. a * 256 + of_char c) (0::nat) s"
proof (induction s arbitrary: a)
  case (Cons c s)
  show ?case using Cons[of "a * 256 + of_char c"] Cons[of "of_char c"] by (simp add: algebra_simps)
qed simp

lemma beValue_Cons: "beValue (c # s) = of_char c * 256 ^ length s + beValue s"
  using foldl_be[of "of_char c" s] by (simp add: beValue_def)

lemma beValue_beBytes: "beValue (beBytes k n) = n mod 256 ^ k"
proof (induction k)
  case 0
  then show ?case by (simp add: beValue_def)
next
  case (Suc k)
  have "of_char (char_of (n div 256 ^ k mod 256) :: char) = n div 256 ^ k mod 256" by (simp add: of_char_of)
  moreover have "n mod 256 ^ Suc k = (n div 256 ^ k mod 256) * 256 ^ k + n mod 256 ^ k"
    using mod_mult2_eq[of n "256 ^ k" 256] by (simp add: algebra_simps)
  ultimately show ?case using Suc by (simp add: beValue_Cons)
qed

section \<open>CRC-32C\<close>

text \<open>
  \<^verbatim>\<open>crc32.Checksum\<close> with the Castagnoli table, bit by bit: the reflected polynomial, all-ones start and final
  complement.
\<close>

definition castagnoli :: "32 word" where
  "castagnoli = 0x82F63B78"

definition crcBit :: "32 word \<Rightarrow> 32 word" where
  "crcBit c = (if bit c 0 then drop_bit 1 c XOR castagnoli else drop_bit 1 c)"

definition crcByte :: "char \<Rightarrow> 32 word \<Rightarrow> 32 word" where
  "crcByte b c = (crcBit ^^ 8) (c XOR word_of_nat (of_char b))"

definition crc32c :: "string \<Rightarrow> 32 word" where
  "crc32c s = NOT (fold crcByte s (NOT 0))"

lemma xor_cancel: "(a XOR b = a XOR c) = (b = c)" for a b c :: "32 word"
  by (metis xor.assoc xor_self_eq xor.left_neutral)

lemma crcBit_top: "bit (crcBit c) 31 \<longleftrightarrow> bit c 0"
proof -
  have p: "bit castagnoli 31" by code_simp
  have "\<not> bit (drop_bit 1 c) 31" using bit_imp_le_length[of c 32] by (auto simp: bit_drop_bit_eq)
  with p show ?thesis by (simp add: crcBit_def bit_xor_iff)
qed

lemma crcBit_inj: "crcBit c = crcBit c' \<Longrightarrow> c = c'"
proof -
  assume e: "crcBit c = crcBit c'"
  then have b: "bit c 0 \<longleftrightarrow> bit c' 0" using crcBit_top by metis
  have "drop_bit 1 c = drop_bit 1 c'"
  proof (cases "bit c 0")
    case True
    with e b have "castagnoli XOR drop_bit 1 c = castagnoli XOR drop_bit 1 c'" by (simp add: crcBit_def xor.commute)
    then show ?thesis by (simp only: xor_cancel)
  next
    case False
    with e b show ?thesis by (simp add: crcBit_def)
  qed
  show "c = c'"
  proof (rule bit_word_eqI)
    fix n assume "n < LENGTH(32)"
    show "bit c n = bit c' n"
    proof (cases n)
      case (Suc m)
      have "bit (drop_bit 1 c) m = bit (drop_bit 1 c') m" using \<open>drop_bit 1 c = drop_bit 1 c'\<close> by simp
      with Suc show ?thesis by (simp add: bit_drop_bit_eq)
    qed (use b in simp)
  qed
qed

lemma crcByte_inj: "crcByte b c = crcByte b' c' \<Longrightarrow> c XOR word_of_nat (of_char b) = c' XOR word_of_nat (of_char b')"
proof -
  have "inj crcBit" using crcBit_inj by (rule injI)
  then have "inj (crcBit ^^ 8)" by (rule inj_fn)
  then show "crcByte b c = crcByte b' c' \<Longrightarrow> c XOR word_of_nat (of_char b) = c' XOR word_of_nat (of_char b')"
    by (simp add: crcByte_def inj_eq)
qed

lemma crc_state_inj: "fold crcByte s c = fold crcByte s c' \<Longrightarrow> c = c'"
proof (induction s arbitrary: c c')
  case (Cons b s)
  then have "crcByte b c = crcByte b c'" by simp
  from crcByte_inj[OF this] show ?case by (metis xor.commute xor_cancel)
qed simp

lemma byte_word_inj: "(word_of_nat (of_char b) :: 32 word) = word_of_nat (of_char b') \<Longrightarrow> b = b'"
proof -
  assume "(word_of_nat (of_char b) :: 32 word) = word_of_nat (of_char b')"
  then have "(of_char b :: nat) mod 2 ^ 32 = of_char b' mod 2 ^ 32" by (simp add: word_of_nat_eq_iff take_bit_eq_mod)
  moreover have "of_char c < (2 ^ 32 :: nat)" for c by (rule less_le_trans[OF nat_of_char_less_256]) simp
  ultimately show "b = b'" by (metis mod_less of_char_eq_iff)
qed

lemma crc_detects_one_byte: "b \<noteq> b' \<Longrightarrow> crc32c (p @ b # s) \<noteq> crc32c (p @ b' # s)"
proof
  assume ne: "b \<noteq> b'" and "crc32c (p @ b # s) = crc32c (p @ b' # s)"
  then have "fold crcByte s (crcByte b (fold crcByte p (NOT 0))) = fold crcByte s (crcByte b' (fold crcByte p (NOT 0)))"
    by (simp add: crc32c_def)
  then have "crcByte b (fold crcByte p (NOT 0)) = crcByte b' (fold crcByte p (NOT 0))" by (rule crc_state_inj)
  from crcByte_inj[OF this] have "b = b'" by (simp add: xor_cancel byte_word_inj)
  with ne show False ..
qed

section \<open>Frames (format.go)\<close>

definition magic :: string where
  "magic = ''SUPERDB1''"

definition version :: nat where "version = 1"
definition walVersion :: nat where "walVersion = 2"
definition checksumVersion :: nat where "checksumVersion = 3"
definition snapshotKind :: char where "snapshotKind = CHR ''S''"
definition walKind :: char where "walKind = CHR ''W''"
definition headerSize :: nat where "headerSize = 20"
definition checksumHeaderSize :: nat where "checksumHeaderSize = 24"
definition maxPayloadSize :: int where "maxPayloadSize = 268435456"

lemmas frame_consts = version_def walVersion_def checksumVersion_def headerSize_def checksumHeaderSize_def

definition checksumStored :: "string \<Rightarrow> 32 word" where
  "checksumStored stored = crc32c stored"

definition validFrameVersion :: "char \<Rightarrow> nat \<Rightarrow> bool" where
  "validFrameVersion kind v \<longleftrightarrow>
     (if v = version then True else if v = walVersion then kind = walKind else v = checksumVersion)"

text \<open>\<^verbatim>\<open>%q\<close> of a byte.\<close>

definition lowerHexDigit :: "nat \<Rightarrow> char" where
  "lowerHexDigit n = (if n < 10 then char_of (48 + n) else char_of (87 + n))"

definition quoteByte :: "char \<Rightarrow> string" where
  "quoteByte c =
     (let n = of_char c :: nat; x = [lowerHexDigit (n div 16), lowerHexDigit (n mod 16)] in
      CHR 0x27 #
      (if n = 7 then [CHR 0x5C, CHR ''a''] else if n = 8 then [CHR 0x5C, CHR ''b''] else if n = 9 then [CHR 0x5C, CHR ''t'']
       else if n = 10 then [CHR 0x5C, CHR ''n''] else if n = 11 then [CHR 0x5C, CHR ''v''] else if n = 12 then [CHR 0x5C, CHR ''f'']
       else if n = 13 then [CHR 0x5C, CHR ''r''] else if n = 39 \<or> n = 92 then [CHR 0x5C, c]
       else if n < 32 \<or> n = 127 then CHR 0x5C # CHR ''x'' # x
       else if n < 127 then [c]
       else if n < 161 \<or> n = 173 then CHR 0x5C # ''u00'' @ x
       else [char_of (192 + n div 64), char_of (128 + n mod 64)]) @ [CHR 0x27])"

text \<open>The compressor of \<^verbatim>\<open>compress/zlib\<close> is a parameter; \<open>inflated\<close> is what reading a stream up to a limit gives.\<close>

datatype inflated = OpenError error | ReadError error | CloseError error | Inflated string

definition frameSize :: "nat \<Rightarrow> nat" where
  "frameSize v = (if v = checksumVersion then checksumHeaderSize else headerSize)"

definition frameHeader :: "char \<Rightarrow> nat \<Rightarrow> nat \<Rightarrow> string \<Rightarrow> string" where
  "frameHeader kind v rawLen encoded =
     magic @ [kind, char_of v, CHR 0x00, CHR 0x00] @ beBytes 4 rawLen @ beBytes 4 (length encoded) @
     (if v = checksumVersion then beBytes 4 (unat (checksumStored encoded)) else [])"

definition encodeFrame :: "(string \<Rightarrow> string res) \<Rightarrow> char \<Rightarrow> nat \<Rightarrow> string \<Rightarrow> bool \<Rightarrow> string res" where
  "encodeFrame deflate kind v payload compress =
     (if kind = snapshotKind \<and> v = walVersion then Inl (Msg ''invalid snapshot version'')
      else if kind = snapshotKind \<and> \<not> compress then Inl (Msg ''snapshot frames must be compressed'')
      else if kind = walKind \<and> v = version \<and> \<not> compress then Inl (Msg ''v1 WAL frames must be compressed'')
      else if kind = walKind \<and> v \<ge> walVersion \<and> compress then Inl (Msg ''v2/v3 WAL frames must be raw'')
      else if int (length payload) > maxPayloadSize then Inl (Msg ''payload exceeds SUPERDB size limit'')
      else case (if compress then deflate payload else Inr payload) of
        Inl e \<Rightarrow> Inl e
      | Inr encoded \<Rightarrow>
          if int (length encoded) > maxPayloadSize then Inl (Msg ''compressed payload exceeds SUPERDB size limit'')
          else Inr (frameHeader kind v (length payload) encoded @ encoded))"

definition encode :: "(string \<Rightarrow> string res) \<Rightarrow> char \<Rightarrow> string \<Rightarrow> string res" where
  "encode deflate kind payload = encodeFrame deflate kind checksumVersion payload (kind \<noteq> walKind)"

definition lengthMismatch :: "nat \<Rightarrow> nat \<Rightarrow> error" where
  "lengthMismatch got want = Msg (''payload length mismatch: got '' @ fmtNat got @ '', want '' @ fmtNat want)"

text \<open>Decoding at the start of \<^verbatim>\<open>h := b[offset:]\<close>: the payload and the length of the frame.\<close>

definition decodeAt :: "(string \<Rightarrow> nat \<Rightarrow> inflated) \<Rightarrow> char \<Rightarrow> string \<Rightarrow> (string \<times> nat) res" where
  "decodeAt inflate expectedKind h =
     (if length h < headerSize then Inl (Msg ''truncated SUPERDB header'')
      else if take 8 h \<noteq> magic then Inl (Msg ''invalid SUPERDB magic'')
      else if h ! 8 \<noteq> expectedKind then Inl (Msg (''unexpected SUPERDB record kind '' @ quoteByte (h ! 8)))
      else
        let v = of_char (h ! 9) in
        if \<not> validFrameVersion expectedKind v then Inl (Msg (''unsupported SUPERDB version '' @ fmtNat v))
        else if v = checksumVersion \<and> length h < checksumHeaderSize then Inl (Msg ''truncated SUPERDB checksum header'')
        else
          let size = frameSize v;
              rawLen = beValue (take 4 (drop 12 h)); storedLen = beValue (take 4 (drop 16 h))
          in if int rawLen > maxPayloadSize \<or> int storedLen > maxPayloadSize then Inl (Msg ''SUPERDB payload exceeds size limit'')
             else if size + storedLen > length h then Inl (Msg ''truncated SUPERDB payload'')
             else
               let stored = take storedLen (drop size h) in
               if v = checksumVersion \<and> beValue (take 4 (drop 20 h)) \<noteq> unat (checksumStored stored) then Inl (Msg ''SUPERDB checksum mismatch'')
               else if expectedKind = walKind \<and> v \<ge> walVersion then
                 (if length stored \<noteq> rawLen then Inl (lengthMismatch (length stored) rawLen)
                  else Inr (stored, size + storedLen))
               else case inflate stored (rawLen + 1) of
                 OpenError e \<Rightarrow> Inl (Wrapped ''open compressed payload: '' e)
               | ReadError e \<Rightarrow> Inl (Wrapped ''read compressed payload: '' e)
               | CloseError e \<Rightarrow> Inl (Wrapped ''close compressed payload: '' e)
               | Inflated payload \<Rightarrow>
                   if length payload \<noteq> rawLen then Inl (lengthMismatch (length payload) rawLen)
                   else Inr (payload, size + storedLen))"

definition decodeFrame :: "(string \<Rightarrow> nat \<Rightarrow> inflated) \<Rightarrow> string \<Rightarrow> nat \<Rightarrow> char \<Rightarrow> (string \<times> nat) res" where
  "decodeFrame inflate b offset expectedKind =
     (if offset > length b then Inl (Msg ''truncated SUPERDB header'')
      else map_sum id (map_prod id ((+) offset)) (decodeAt inflate expectedKind (drop offset b)))"

section \<open>The write-ahead log (wal.go)\<close>

definition walRecord :: "string \<Rightarrow> string" where
  "walRecord sql =
     magic @ [walKind, char_of checksumVersion, CHR 0x00, CHR 0x00] @ beBytes 4 (length sql) @ beBytes 4 (length sql) @
     beBytes 4 (unat (checksumStored sql)) @ sql"

text \<open>
  An open log is the bytes of its file, a closed one is None. \<open>write\<close> is the outcome of \<^verbatim>\<open>file.Write\<close>: how many
  bytes were written, and the error.
\<close>

definition tooLarge :: error where
  "tooLarge = Msg ''payload exceeds SUPERDB size limit''"

definition Append :: "(string \<Rightarrow> nat \<times> error option) \<Rightarrow> error option \<Rightarrow> string list \<Rightarrow> string option \<Rightarrow> error option \<times> string option" where
  "Append write sync sqls file =
     (if sqls = [] then (None, file)
      else if list_ex (\<lambda>sql. int (length sql) > maxPayloadSize) sqls then (Some tooLarge, file)
      else
        let encoded = concat (map walRecord sqls) in
        case file of
          None \<Rightarrow> (Some (Msg ''WAL writer closed''), None)
        | Some bytes \<Rightarrow>
            (case write encoded of
               (n, Some e) \<Rightarrow> (Some e, Some (bytes @ take n encoded))
             | (n, None) \<Rightarrow>
                 if n \<noteq> length encoded then (Some (Msg ''short WAL write''), Some (bytes @ take n encoded))
                 else (sync, Some (bytes @ encoded))))"

definition recordError :: "nat \<Rightarrow> error \<Rightarrow> error" where
  "recordError n e = Wrapped (''WAL record '' @ fmtNat n @ '': '') e"

definition applyError :: "nat \<Rightarrow> error \<Rightarrow> error" where
  "applyError n e = Wrapped (''replay WAL record '' @ fmtNat n @ '': '') e"

definition legacyError :: "nat \<Rightarrow> error \<Rightarrow> error" where
  "legacyError n e = Wrapped (''replay legacy WAL line '' @ fmtNat n @ '': '') e"

text \<open>\<^verbatim>\<open>apply\<close> acts on a state.\<close>

lemma decodeFrame_next: "decodeFrame inflate b offset k = Inr (p, next) \<Longrightarrow> offset < next \<and> next \<le> length b"
  by (auto simp: decodeFrame_def decodeAt_def Let_def frameSize_def frame_consts split: if_splits inflated.splits)

function replayFrames ::
  "(string \<Rightarrow> nat \<Rightarrow> inflated) \<Rightarrow> (string \<Rightarrow> 's \<Rightarrow> error option \<times> 's) \<Rightarrow> string \<Rightarrow> nat \<Rightarrow> nat \<Rightarrow> 's \<Rightarrow> error option \<times> 's" where
  "replayFrames inflate apply_sql b offset record s =
     (if offset \<ge> length b then (None, s)
      else case decodeFrame inflate b offset walKind of
        Inl e \<Rightarrow> (Some (recordError record e), s)
      | Inr (payload, next) \<Rightarrow>
          (case apply_sql payload s of
             (Some e, s') \<Rightarrow> (Some (applyError record e), s')
           | (None, s') \<Rightarrow> replayFrames inflate apply_sql b next (record + 1) s'))"
  by pat_completeness auto
termination
  by (relation "measure (\<lambda>(inflate, apply_sql, b, offset, record, s). length b - offset)") (auto dest: decodeFrame_next)

declare replayFrames.simps [simp del]

fun replayLines :: "(string \<Rightarrow> 's \<Rightarrow> error option \<times> 's) \<Rightarrow> nat \<Rightarrow> string list \<Rightarrow> 's \<Rightarrow> error option \<times> 's" where
  "replayLines apply_sql lineNo [] s = (None, s)"
| "replayLines apply_sql lineNo (line # ls) s =
     (if TrimSpace line = [] then replayLines apply_sql (lineNo + 1) ls s
      else case apply_sql (TrimSpace line) s of
        (Some e, s') \<Rightarrow> (Some (legacyError (lineNo + 1) e), s')
      | (None, s') \<Rightarrow> replayLines apply_sql (lineNo + 1) ls s')"

text \<open>The file: an error of reading it, no file, or its bytes.\<close>

definition ReplayWAL ::
  "(string \<Rightarrow> nat \<Rightarrow> inflated) \<Rightarrow> (string \<Rightarrow> 's \<Rightarrow> error option \<times> 's) \<Rightarrow> error + string option \<Rightarrow> 's \<Rightarrow> error option \<times> 's" where
  "ReplayWAL inflate apply_sql file s =
     (case file of
        Inl e \<Rightarrow> (Some e, s)
      | Inr None \<Rightarrow> (None, s)
      | Inr (Some b) \<Rightarrow>
          if length magic \<le> length b \<and> take (length magic) b = magic then replayFrames inflate apply_sql b 0 1 s
          else replayLines apply_sql 0 (splitByte (CHR 0x0A) b) s)"

lemma length_magic [simp]: "length magic = 8"
  by (simp add: magic_def)

lemma be4 [simp]: "n < 2 ^ 32 \<Longrightarrow> beValue (beBytes 4 n) = n"
  by (simp add: beValue_beBytes)

lemma be4_word [simp]: "beValue (beBytes 4 (unat (w :: 32 word))) = unat w"
  using unsigned_less[of w] by (intro be4) simp

lemma payload_fits: "int n \<le> maxPayloadSize \<Longrightarrow> n < 2 ^ 32"
  by (simp add: maxPayloadSize_def)

text \<open>The fields of a frame, read back from its front.\<close>

lemma frame_fields:
  assumes "h = frameHeader kind v rawLen encoded @ rest"
  shows "take 8 h = magic" "h ! 8 = kind" "h ! 9 = char_of v"
    "take 4 (drop 12 h) = beBytes 4 rawLen" "take 4 (drop 16 h) = beBytes 4 (length encoded)"
    "v = checksumVersion \<Longrightarrow> take 4 (drop 20 h) = beBytes 4 (unat (checksumStored encoded))"
  using assms by (simp_all add: frameHeader_def nth_append)

lemma length_frameHeader [simp]: "length (frameHeader kind v rawLen encoded) = frameSize v"
  by (simp add: frameHeader_def frameSize_def frame_consts)

lemma decodeAt_frame:
  assumes fits: "int rawLen \<le> maxPayloadSize" "int (length encoded) \<le> maxPayloadSize"
    and v: "validFrameVersion kind v"
  shows "decodeAt inflate kind (frameHeader kind v rawLen encoded @ encoded @ rest) =
    (if kind = walKind \<and> v \<ge> walVersion then
       (if length encoded \<noteq> rawLen then Inl (lengthMismatch (length encoded) rawLen)
        else Inr (encoded, frameSize v + length encoded))
     else case inflate encoded (rawLen + 1) of
        OpenError e \<Rightarrow> Inl (Wrapped ''open compressed payload: '' e)
      | ReadError e \<Rightarrow> Inl (Wrapped ''read compressed payload: '' e)
      | CloseError e \<Rightarrow> Inl (Wrapped ''close compressed payload: '' e)
      | Inflated payload \<Rightarrow>
          if length payload \<noteq> rawLen then Inl (lengthMismatch (length payload) rawLen)
          else Inr (payload, frameSize v + length encoded))"
proof -
  let ?h = "frameHeader kind v rawLen encoded @ encoded @ rest"
  note fields = frame_fields[of "frameHeader kind v rawLen encoded @ encoded @ rest" kind v rawLen encoded "encoded @ rest", OF refl]
  have "v < 256" using v by (auto simp: validFrameVersion_def frame_consts split: if_splits)
  then have of_v: "of_char (char_of v :: char) = v" by (simp add: of_char_of)
  have "headerSize \<le> frameSize v" "v = checksumVersion \<Longrightarrow> checksumHeaderSize \<le> frameSize v"
    by (simp_all add: frameSize_def frame_consts)
  then have sizes: "length ?h < headerSize \<longleftrightarrow> False" "v = checksumVersion \<and> length ?h < checksumHeaderSize \<longleftrightarrow> False"
      "length ?h < frameSize v + length encoded \<longleftrightarrow> False"
    by auto
  have stored: "take (length encoded) (drop (frameSize v) ?h) = encoded" by simp
  have crc: "v = checksumVersion \<and> beValue (take 4 (drop 20 ?h)) \<noteq> unat (checksumStored encoded) \<longleftrightarrow> False"
    using fields(6) be4_word by metis
  show ?thesis
    unfolding decodeAt_def Let_def fields(1-5) of_v be4[OF payload_fits[OF fits(1)]] be4[OF payload_fits[OF fits(2)]]
      sizes stored crc
    using fits v by simp
qed

lemma frame_roundtrip:
  assumes enc: "encodeFrame deflate kind v payload compress = Inr frame"
    and v: "validFrameVersion kind v" and k: "kind = snapshotKind \<or> kind = walKind"
    and zlib: "\<And>p z n. deflate p = Inr z \<Longrightarrow> length p < n \<Longrightarrow> inflate z n = Inflated p"
  shows "decodeFrame inflate (pre @ frame @ rest) (length pre) kind = Inr (payload, length pre + length frame)"
proof -
  have kinds: "snapshotKind \<noteq> walKind" by (simp add: snapshotKind_def walKind_def)
  obtain encoded where e: "(if compress then deflate payload else Inr payload) = Inr encoded"
    and fits: "int (length payload) \<le> maxPayloadSize" "int (length encoded) \<le> maxPayloadSize"
    and f: "frame = frameHeader kind v (length payload) encoded @ encoded"
    using enc unfolding encodeFrame_def by (auto split: if_splits sum.splits)
  have c: "compress \<longleftrightarrow> \<not> (kind = walKind \<and> v \<ge> walVersion)"
    using enc v k kinds unfolding encodeFrame_def
    by (auto simp: validFrameVersion_def frame_consts split: if_splits)
  show ?thesis
  proof (cases compress)
    case True
    with e have "inflate encoded (length payload + 1) = Inflated payload" by (intro zlib) auto
    with True c show ?thesis
      unfolding decodeFrame_def f by (auto simp: decodeAt_frame[OF fits v] simp del: One_nat_def add_Suc_right)
  next
    case False
    with e c have k: "kind = walKind \<and> walVersion \<le> v" and p: "encoded = payload" by auto
    have "decodeAt inflate kind (frame @ rest) = Inr (payload, frameSize v + length payload)"
      using decodeAt_frame[OF fits v, of inflate rest] k p f by simp
    then show ?thesis unfolding decodeFrame_def by (simp add: f p)
  qed
qed

lemma walRecord_is_encode:
  "int (length sql) \<le> maxPayloadSize \<Longrightarrow> encode deflate walKind sql = Inr (walRecord sql)"
  by (simp add: encode_def encodeFrame_def walRecord_def frameHeader_def snapshotKind_def walKind_def frame_consts)

section \<open>Records in a row: the interface of a log format\<close>

locale record_stream =
  fixes fits :: "string \<Rightarrow> bool" and enc :: "string \<Rightarrow> string" and dec :: "string \<Rightarrow> nat \<Rightarrow> (string \<times> nat) res"
  assumes dec_enc: "fits p \<Longrightarrow> dec (pre @ enc p @ rest) (length pre) = Inr (p, length (pre @ enc p))"
    and enc_nonempty: "enc p \<noteq> []"
begin

lemma split_unique:
  assumes "fits p" "fits q" "enc p @ x = enc q @ y"
  shows "p = q \<and> x = y"
  using dec_enc[OF assms(1), of "[]" x] dec_enc[OF assms(2), of "[]" y] assms(3) by simp

text \<open>No log reads in two ways.\<close>

lemma concat_inj:
  assumes "list_all fits ps" "list_all fits qs" "concat (map enc ps) = concat (map enc qs)"
  shows "ps = qs"
  using assms
proof (induction ps arbitrary: qs)
  case Nil
  then show ?case using enc_nonempty by (cases qs) auto
next
  case (Cons p ps)
  have "qs \<noteq> []" using Cons.prems(3) enc_nonempty[of p] by auto
  then obtain q qs' where qs: "qs = q # qs'" by (cases qs) auto
  with Cons.prems have "p = q \<and> concat (map enc ps) = concat (map enc qs')" by (intro split_unique) simp_all
  with Cons.prems qs show ?case using Cons.IH[of qs'] by simp
qed

end

section \<open>What a log replays\<close>

abbreviation recordFits :: "string \<Rightarrow> bool" where
  "recordFits sql \<equiv> int (length sql) \<le> maxPayloadSize"

definition logOf :: "string list \<Rightarrow> string" where
  "logOf sqls = concat (map walRecord sqls)"

text \<open>The reference for a replay: the statements in order, up to the first one that is refused.\<close>

fun applyAll :: "(string \<Rightarrow> 's \<Rightarrow> error option \<times> 's) \<Rightarrow> nat \<Rightarrow> string list \<Rightarrow> 's \<Rightarrow> error option \<times> 's" where
  "applyAll f n [] s = (None, s)"
| "applyAll f n (q # qs) s =
     (case f q s of (Some e, s') \<Rightarrow> (Some (applyError n e), s') | (None, s') \<Rightarrow> applyAll f (n + 1) qs s')"

lemma logOf_simps [simp]: "logOf [] = []" "logOf (q # qs) = walRecord q @ logOf qs" "logOf (xs @ ys) = logOf xs @ logOf ys"
  by (simp_all add: logOf_def)

lemma walRecord_header: "walRecord sql = frameHeader walKind checksumVersion (length sql) sql @ sql"
  by (simp add: walRecord_def frameHeader_def)

lemma length_walRecord: "length (walRecord sql) = checksumHeaderSize + length sql"
  by (simp add: walRecord_def frame_consts)

lemma decodeFrame_record:
  assumes "recordFits sql"
  shows "decodeFrame inflate (pre @ walRecord sql @ rest) (length pre) walKind = Inr (sql, length (pre @ walRecord sql))"
proof -
  have v: "validFrameVersion walKind checksumVersion" by (simp add: validFrameVersion_def)
  show ?thesis
    unfolding decodeFrame_def walRecord_header
    using decodeAt_frame[OF assms assms v, of inflate rest]
    by (simp add: frame_consts frameSize_def)
qed

interpretation wal: record_stream recordFits walRecord "\<lambda>b offset. decodeFrame inflate b offset walKind" for inflate
  by unfold_locales (rule decodeFrame_record, simp_all add: walRecord_def)

lemma log_determines_records: "list_all recordFits ps \<Longrightarrow> list_all recordFits qs \<Longrightarrow> logOf ps = logOf qs \<Longrightarrow> ps = qs"
  unfolding logOf_def by (rule wal.concat_inj)

lemma replay_records:
  assumes "list_all recordFits sqls"
  shows "replayFrames inflate f (pre @ logOf sqls @ rest) (length pre) n s =
    (case applyAll f n sqls s of
       (Some e, s') \<Rightarrow> (Some e, s')
     | (None, s') \<Rightarrow> replayFrames inflate f (pre @ logOf sqls @ rest) (length (pre @ logOf sqls)) (n + length sqls) s')"
  using assms
proof (induction sqls arbitrary: pre n s)
  case (Cons q qs)
  have "walRecord q \<noteq> []" by (rule wal.enc_nonempty)
  then have "replayFrames inflate f (pre @ logOf (q # qs) @ rest) (length pre) n s =
      (case f q s of (Some e, s') \<Rightarrow> (Some (applyError n e), s')
       | (None, s') \<Rightarrow> replayFrames inflate f (pre @ logOf (q # qs) @ rest) (length (pre @ walRecord q)) (n + 1) s')"
    using wal.dec_enc[of q inflate pre "logOf qs @ rest"] Cons.prems
    by (subst replayFrames.simps) (simp split: prod.splits option.splits)
  then show ?case
    using Cons.IH[of "pre @ walRecord q" "n + 1"] Cons.prems by (simp split: prod.splits option.splits)
qed simp

lemma replayFrames_end: "length b \<le> offset \<Longrightarrow> replayFrames inflate f b offset n s = (None, s)"
  by (subst replayFrames.simps) simp

lemma log_starts_with_magic:
  assumes "sqls \<noteq> []"
  shows "8 \<le> length (logOf sqls @ rest) \<and> take 8 (logOf sqls @ rest) = magic"
  using assms by (cases sqls) (auto simp: walRecord_def)

lemma splitByte_Nil [simp]: "splitByte c [] = [[]]"
  by (simp add: splitByte.simps)

lemma ReplayWAL_log:
  assumes "list_all recordFits sqls" "sqls \<noteq> [] \<or> 8 \<le> length rest \<and> take 8 rest = magic"
  shows "ReplayWAL inflate f (Inr (Some (logOf sqls @ rest))) s =
    (case applyAll f 1 sqls s of
       (Some e, s') \<Rightarrow> (Some e, s')
     | (None, s') \<Rightarrow> replayFrames inflate f (logOf sqls @ rest) (length (logOf sqls)) (1 + length sqls) s')"
proof -
  have "8 \<le> length (logOf sqls @ rest) \<and> take 8 (logOf sqls @ rest) = magic"
    using assms(2) log_starts_with_magic[of sqls rest] by (cases "sqls = []") auto
  then show ?thesis
    using replay_records[OF assms(1), of inflate f "[]" rest 1 s] unfolding ReplayWAL_def length_magic
    by (simp split: prod.splits option.splits)
qed

lemma ReplayWAL_whole:
  assumes "list_all recordFits sqls"
  shows "ReplayWAL inflate f (Inr (Some (logOf sqls))) s = applyAll f 1 sqls s"
proof (cases "sqls = []")
  case True
  then show ?thesis by (simp add: ReplayWAL_def)
next
  case False
  then show ?thesis
    using ReplayWAL_log[OF assms, of "[]" inflate f s] by (auto simp: replayFrames_end split: prod.splits option.splits)
qed

lemma Append_ok:
  assumes "Append write sync sqls (Some file) = (None, Some file')"
  shows "list_all recordFits sqls \<and> file' = file @ logOf sqls"
  using assms
  by (auto simp: Append_def logOf_def Let_def list_ex_iff list_all_iff split: if_splits prod.splits option.splits)

text \<open>
  A batch that the log writer acknowledged is replayed: after the statements that were already in the log, in the
  order they were appended, stopping only at a statement that the replay refuses.
\<close>

theorem acknowledged_log_replays:
  assumes "list_all recordFits olds" "Append write sync sqls (Some (logOf olds)) = (None, Some file')"
  shows "ReplayWAL inflate f (Inr (Some file')) s = applyAll f 1 (olds @ sqls) s"
  using Append_ok[OF assms(2)] assms(1) ReplayWAL_whole[of "olds @ sqls" inflate f s] by simp

section \<open>Torn and damaged logs\<close>

definition truncatedError :: "error \<Rightarrow> bool" where
  "truncatedError e \<longleftrightarrow> e \<in> {Msg ''truncated SUPERDB header'', Msg ''truncated SUPERDB checksum header'', Msg ''truncated SUPERDB payload''}"

lemma torn_record:
  assumes "recordFits sql" "0 < k" "k < length (walRecord sql)"
  shows "\<exists>e. decodeAt inflate walKind (take k (walRecord sql)) = Inl e \<and> truncatedError e"
proof -
  let ?h = "take k (walRecord sql)"
  have len: "length ?h = k" using assms by simp
  show ?thesis
  proof (cases "k < headerSize")
    case True
    then show ?thesis unfolding decodeAt_def len by (simp add: truncatedError_def)
  next
    case False
    then have k: "20 \<le> k" by (simp add: frame_consts)
    have front: "take n ?h = take n (walRecord sql)" "take m (drop n ?h) = take m (drop n (walRecord sql))" if "n + m \<le> 20" for n m
      using k that by (simp_all add: take_drop min_def)
    note fields = frame_fields[of "walRecord sql" walKind checksumVersion "length sql" sql sql, OF walRecord_header]
    have "take 8 ?h = magic" using fields(1) front(1)[of 8 0] by simp
    moreover have "?h ! 8 = walKind" "?h ! 9 = char_of checksumVersion" using fields(2,3) k by simp_all
    moreover have "take 4 (drop 12 ?h) = beBytes 4 (length sql)" "take 4 (drop 16 ?h) = beBytes 4 (length sql)"
      using fields(4,5) front(2)[of 12 4] front(2)[of 16 4] by simp_all
    moreover have "of_char (char_of checksumVersion :: char) = checksumVersion" by (simp add: frame_consts)
    moreover have "beValue (beBytes 4 (length sql)) = length sql" using assms(1) payload_fits be4 by blast
    moreover have "validFrameVersion walKind checksumVersion" by (simp add: validFrameVersion_def)
    ultimately show ?thesis
      unfolding decodeAt_def len Let_def using assms False
      by (auto simp: truncatedError_def frameSize_def length_walRecord)
  qed
qed

lemma replay_torn_record:
  assumes "recordFits sql" "0 < k" "k < length (walRecord sql)"
  shows "\<exists>e. replayFrames inflate f (pre @ take k (walRecord sql)) (length pre) n s = (Some (recordError n e), s) \<and> truncatedError e"
proof -
  obtain e where e: "decodeAt inflate walKind (take k (walRecord sql)) = Inl e" "truncatedError e" using torn_record[OF assms] by blast
  have "decodeFrame inflate (pre @ take k (walRecord sql)) (length pre) walKind = Inl e"
    unfolding decodeFrame_def using e by simp
  then show ?thesis using e(2) assms by (subst replayFrames.simps) auto
qed

text \<open>A cut of a log leaves whole records and at most one torn one.\<close>

lemma cut_log:
  "\<exists>j k. j \<le> length sqls \<and> take n (logOf sqls) = logOf (take j sqls) @ k \<and>
     (k = [] \<or> j < length sqls \<and> (\<exists>i. 0 < i \<and> i < length (walRecord (sqls ! j)) \<and> k = take i (walRecord (sqls ! j))))"
proof (induction sqls arbitrary: n)
  case (Cons q qs)
  show ?case
  proof (cases "n < length (walRecord q)")
    case True
    then show ?thesis by (intro exI[of _ 0] exI[of _ "take n (walRecord q)"]) (cases "n = 0"; auto)
  next
    case False
    obtain j k where "j \<le> length qs" "take (n - length (walRecord q)) (logOf qs) = logOf (take j qs) @ k"
      "k = [] \<or> j < length qs \<and> (\<exists>i. 0 < i \<and> i < length (walRecord (qs ! j)) \<and> k = take i (walRecord (qs ! j)))"
      using Cons[of "n - length (walRecord q)"] by blast
    with False show ?thesis by (intro exI[of _ "Suc j"] exI[of _ k]) auto
  qed
qed simp

text \<open>
  C27: a log cut at any byte of its last batch replays the statements whose records are whole, in order, and then reports
  a truncated record with its number, or no error when the cut falls between two records.
\<close>

theorem torn_log_replays_a_prefix:
  assumes fits: "list_all recordFits (olds @ sqls)" and "olds \<noteq> []"
  shows "\<exists>j \<le> length sqls.
    (case applyAll f 1 (olds @ take j sqls) s of
       (Some e, s') \<Rightarrow> ReplayWAL inflate f (Inr (Some (logOf olds @ take n (logOf sqls)))) s = (Some e, s')
     | (None, s') \<Rightarrow>
         if take n (logOf sqls) = logOf (take j sqls)
         then ReplayWAL inflate f (Inr (Some (logOf olds @ take n (logOf sqls)))) s = (None, s')
         else \<exists>e. ReplayWAL inflate f (Inr (Some (logOf olds @ take n (logOf sqls)))) s =
                  (Some (recordError (length olds + j + 1) e), s') \<and> truncatedError e)"
proof -
  obtain j k where j: "j \<le> length sqls" "take n (logOf sqls) = logOf (take j sqls) @ k"
    and k: "k = [] \<or> j < length sqls \<and> (\<exists>i. 0 < i \<and> i < length (walRecord (sqls ! j)) \<and> k = take i (walRecord (sqls ! j)))"
    using cut_log[of sqls n] by blast
  let ?done = "olds @ take j sqls"
  have d: "list_all recordFits ?done" using fits by (auto simp: list_all_iff dest: in_set_takeD)
  have whole: "logOf olds @ take n (logOf sqls) = logOf ?done @ k" using j(2) by simp
  note replay = ReplayWAL_log[OF d, of k inflate f s, folded whole]
  have len: "length ?done = length olds + j" using j(1) by simp
  have "case applyAll f 1 ?done s of
       (Some e, s') \<Rightarrow> ReplayWAL inflate f (Inr (Some (logOf ?done @ k))) s = (Some e, s')
     | (None, s') \<Rightarrow> if k = [] then ReplayWAL inflate f (Inr (Some (logOf ?done @ k))) s = (None, s')
         else \<exists>e. ReplayWAL inflate f (Inr (Some (logOf ?done @ k))) s = (Some (recordError (length olds + j + 1) e), s') \<and> truncatedError e"
  proof (cases "k = []")
    case True
    then show ?thesis using ReplayWAL_whole[OF d, of inflate f s] by (simp split: prod.splits option.splits)
  next
    case False
    with k obtain i where i: "j < length sqls" "0 < i" "i < length (walRecord (sqls ! j))" "k = take i (walRecord (sqls ! j))" by blast
    have "recordFits (sqls ! j)" using fits i(1) by (simp add: list_all_iff)
    from replay_torn_record[OF this i(2,3), of inflate f "logOf ?done" "1 + length ?done"]
    show ?thesis
      using False ReplayWAL_log[OF d, of k inflate f s] assms(2) unfolding i(4)[symmetric] len by (auto split: prod.splits option.splits)
  qed
  then show ?thesis using j unfolding whole by (intro exI[of _ j]) (auto split: prod.splits option.splits)
qed

text \<open>One changed byte of a stored statement.\<close>

lemma damaged_record:
  assumes "recordFits (p @ b # q)" "b \<noteq> b'"
  shows "decodeAt inflate walKind (frameHeader walKind checksumVersion (length (p @ b # q)) (p @ b # q) @ (p @ b' # q) @ rest) =
    Inl (Msg ''SUPERDB checksum mismatch'')"
proof -
  let ?sql = "p @ b # q" and ?bad = "p @ b' # q"
  let ?h = "frameHeader walKind checksumVersion (length ?sql) ?sql @ ?bad @ rest"
  note fields = frame_fields[of ?h walKind checksumVersion "length ?sql" ?sql "?bad @ rest", OF refl]
  have len: "length ?bad = length ?sql" by simp
  have sum: "beValue (take 4 (drop 20 ?h)) = unat (checksumStored ?sql)" using fields(6)[OF refl] be4_word by metis
  have "take (length ?sql) (drop (frameSize checksumVersion) ?h) = ?bad" by simp
  moreover have "unat (checksumStored ?sql) \<noteq> unat (checksumStored ?bad)"
    using crc_detects_one_byte[OF assms(2), of p q] by (metis checksumStored_def word_unat_eq_iff)
  moreover have "of_char (char_of checksumVersion :: char) = checksumVersion" by (simp add: frame_consts)
  moreover have "\<not> length ?h < headerSize" "\<not> length ?h < checksumHeaderSize" "\<not> length ?h < frameSize checksumVersion + length ?sql"
    by (simp_all add: frameSize_def frame_consts)
  moreover have "validFrameVersion walKind checksumVersion" by (simp add: validFrameVersion_def)
  ultimately show ?thesis
    unfolding decodeAt_def Let_def fields(1-5) be4[OF payload_fits[OF assms(1)]] using assms(1) sum by presburger
qed

text \<open>
  C26: one changed byte of a stored statement is always detected: the records before it are replayed, then the replay
  stops with a checksum error that names the record; nothing behind it is applied.
\<close>

theorem damaged_log_stops_at_the_damage:
  assumes fits: "list_all recordFits (before @ [sql])" and i: "i < length sql" "b' \<noteq> sql ! i"
  shows "ReplayWAL inflate f
      (Inr (Some ((logOf (before @ sql # after))[length (logOf before) + checksumHeaderSize + i := b']))) s =
    (case applyAll f 1 before s of
       (Some e, s') \<Rightarrow> (Some e, s')
     | (None, s') \<Rightarrow> (Some (recordError (length before + 1) (Msg ''SUPERDB checksum mismatch'')), s'))"
proof -
  define p b q where "p = take i sql" and "b = sql ! i" and "q = drop (Suc i) sql"
  have sql: "sql = p @ b # q" and ne: "b \<noteq> b'" and p: "length p = i" using i by (simp_all add: p_def b_def q_def id_take_nth_drop)
  let ?bad = "p @ b' # q" and ?head = "frameHeader walKind checksumVersion (length sql) sql"
  have b: "(logOf (before @ sql # after))[length (logOf before) + checksumHeaderSize + i := b'] =
      logOf before @ ?head @ ?bad @ logOf after"
    using p i(1) by (simp add: walRecord_header list_update_append frameSize_def sql)
  have "decodeFrame inflate (logOf before @ ?head @ ?bad @ logOf after) (length (logOf before)) walKind = Inl (Msg ''SUPERDB checksum mismatch'')"
    using damaged_record[of p b q b' inflate "logOf after"] fits ne unfolding decodeFrame_def sql by simp
  then have "replayFrames inflate f (logOf before @ ?head @ ?bad @ logOf after) (length (logOf before)) n s' =
      (Some (recordError n (Msg ''SUPERDB checksum mismatch'')), s')" for n s'
    by (subst replayFrames.simps) (simp add: frameSize_def frame_consts)
  moreover have "8 \<le> length (?head @ ?bad @ logOf after) \<and> take 8 (?head @ ?bad @ logOf after) = magic"
    by (simp add: frameHeader_def frame_consts)
  ultimately show ?thesis
    using ReplayWAL_log[of before "?head @ ?bad @ logOf after" inflate f s] fits unfolding b by (simp split: prod.splits option.splits)
qed

section \<open>Writers that open the log for one call\<close>

definition Close :: "error option \<Rightarrow> string option \<Rightarrow> error option \<times> string option" where
  "Close closing file = (case file of None \<Rightarrow> (None, None) | Some _ \<Rightarrow> (closing, None))"

text \<open>\<open>opened\<close> is what \<^verbatim>\<open>OpenWALWriter\<close> gives: the bytes already in the log, or the error of opening it.\<close>

definition AppendWALBatch ::
  "(string \<Rightarrow> nat \<times> error option) \<Rightarrow> error option \<Rightarrow> error + string \<Rightarrow> string list \<Rightarrow> error option \<times> string option" where
  "AppendWALBatch write sync opened sqls =
     (if sqls = [] then (None, None)
      else if list_ex (\<lambda>sql. int (length sql) > maxPayloadSize) sqls then (Some tooLarge, None)
      else case opened of Inl e \<Rightarrow> (Some e, None) | Inr bytes \<Rightarrow> Append write sync sqls (Some bytes))"

definition AppendWAL ::
  "(string \<Rightarrow> nat \<times> error option) \<Rightarrow> error option \<Rightarrow> error + string \<Rightarrow> string \<Rightarrow> error option \<times> string option" where
  "AppendWAL write sync opened sql = AppendWALBatch write sync opened [sql]"

section \<open>Snapshots (snapshot.go, atomic.go)\<close>

text \<open>
  \<^verbatim>\<open>json.Marshal\<close> and \<^verbatim>\<open>json.Unmarshal\<close> of the snapshot value are parameters.
\<close>

definition wrap :: "string \<Rightarrow> 'a res \<Rightarrow> 'a res" where
  "wrap prefix r = (case r of Inl e \<Rightarrow> Inl (Wrapped prefix e) | Inr x \<Rightarrow> Inr x)"

definition WriteSnapshot :: "('v \<Rightarrow> string res) \<Rightarrow> (string \<Rightarrow> string res) \<Rightarrow> 'v \<Rightarrow> string res" where
  "WriteSnapshot marshal deflate value =
     (case wrap ''marshal snapshot: '' (marshal value) of
        Inl e \<Rightarrow> Inl e
      | Inr payload \<Rightarrow> wrap ''encode snapshot: '' (encode deflate snapshotKind payload))"

definition ReadSnapshot ::
  "(string \<Rightarrow> 'v res) \<Rightarrow> (string \<Rightarrow> nat \<Rightarrow> inflated) \<Rightarrow> error + string option \<Rightarrow> bool \<times> 'v option res" where
  "ReadSnapshot unmarshal inflate contents =
     (case contents of
        Inl e \<Rightarrow> (False, Inl e)
      | Inr None \<Rightarrow> (False, Inr None)
      | Inr (Some b) \<Rightarrow>
          (True,
           case (if length magic \<le> length b \<and> take (length magic) b = magic then
                   (case wrap ''decode snapshot: '' (decodeFrame inflate b 0 snapshotKind) of
                      Inl e \<Rightarrow> Inl e
                    | Inr (payload, next) \<Rightarrow>
                        if next \<noteq> length b then Inl (Msg ''decode snapshot: trailing data'') else Inr payload)
                 else Inr b) of
             Inl e \<Rightarrow> Inl e
           | Inr payload \<Rightarrow> map_sum id Some (wrap ''parse snapshot: '' (unmarshal payload))))"

text \<open>The outcome of each call \<^verbatim>\<open>atomicWrite\<close> makes of the operating system; a directory maps names to contents.\<close>

record osCalls =
  osMkdir :: "error option"
  osTemp :: "error + string"
  osWrite :: "nat \<times> error option"
  osSync :: "error option"
  osClose :: "error option"
  osRename :: "error option"
  osRemove :: "(error \<times> bool) option"
  osRename2 :: "error option"
  osCleanup :: bool

definition renamed :: "string \<Rightarrow> string \<Rightarrow> (string \<rightharpoonup> string) \<Rightarrow> (string \<rightharpoonup> string)" where
  "renamed old new fs = (fs(new := fs old))(old := None)"

definition atomicWrite :: "osCalls \<Rightarrow> string \<Rightarrow> string \<Rightarrow> (string \<rightharpoonup> string) \<Rightarrow> error option \<times> (string \<rightharpoonup> string)" where
  "atomicWrite os path data fs =
     (case osMkdir os of
        Some e \<Rightarrow> (Some e, fs)
      | None \<Rightarrow>
        (case osTemp os of
           Inl e \<Rightarrow> (Some e, fs)
         | Inr tmp \<Rightarrow>
             let drop_tmp = (\<lambda>fs. if osCleanup os then fs(tmp := None) else fs);
                 written = fs(tmp \<mapsto> take (fst (osWrite os)) data)
             in (case snd (osWrite os) of
                   Some e \<Rightarrow> (Some e, drop_tmp written)
                 | None \<Rightarrow>
                     if fst (osWrite os) \<noteq> length data then (Some (Msg ''short snapshot write''), drop_tmp written)
                     else case osSync os of
                       Some e \<Rightarrow> (Some e, drop_tmp written)
                     | None \<Rightarrow>
                       (case osClose os of
                          Some e \<Rightarrow> (Some e, drop_tmp written)
                        | None \<Rightarrow>
                          (case osRename os of
                             None \<Rightarrow> (None, renamed tmp path written)
                           | Some _ \<Rightarrow>
                               (case osRemove os of
                                  Some (e, notExist) \<Rightarrow>
                                    if \<not> notExist then (Some e, drop_tmp written)
                                    else (case osRename2 os of
                                            None \<Rightarrow> (None, renamed tmp path written)
                                          | Some e2 \<Rightarrow> (Some e2, drop_tmp written))
                                | None \<Rightarrow>
                                    let removed = written(path := None) in
                                    (case osRename2 os of
                                       None \<Rightarrow> (None, renamed tmp path removed)
                                     | Some e2 \<Rightarrow> (Some e2, drop_tmp removed))))))))"

text \<open>A failed write leaves the old contents, except when the target was removed for a second rename.\<close>

definition targetRemoved :: "osCalls \<Rightarrow> bool" where
  "targetRemoved os \<longleftrightarrow> osRename os \<noteq> None \<and> osRemove os = None \<and> osRename2 os \<noteq> None"

text \<open>
  A snapshot write that succeeds puts exactly the new bytes under the name; one that fails leaves the old file, unless
  the target was removed for a second rename that failed; no other file but the temporary one changes.
\<close>

theorem snapshot_write_is_atomic:
  assumes "osTemp os \<noteq> Inr path"
  shows "(case atomicWrite os path data fs of
      (None, fs') \<Rightarrow> fs' path = Some data
    | (Some e, fs') \<Rightarrow> fs' path = fs path \<or> targetRemoved os \<and> fs' path = None) \<and>
    (\<forall>p. p \<noteq> path \<longrightarrow> osTemp os \<noteq> Inr p \<longrightarrow> snd (atomicWrite os path data fs) p = fs p)"
  using assms
  by (auto simp: atomicWrite_def Let_def renamed_def targetRemoved_def split: option.splits sum.splits prod.splits)

text \<open>
  A written snapshot reads back as the value that was written, and a snapshot with trailing bytes is refused, given
  that zlib and JSON read back what they write.
\<close>

theorem snapshot_roundtrip:
  assumes zlib: "\<And>p z n. deflate p = Inr z \<Longrightarrow> length p < n \<Longrightarrow> inflate z n = Inflated p"
    and json: "\<And>b. marshal value = Inr b \<Longrightarrow> unmarshal b = Inr value"
    and w: "WriteSnapshot marshal deflate value = Inr data"
  shows "ReadSnapshot unmarshal inflate (Inr (Some data)) = (True, Inr (Some value)) \<and>
    ReadSnapshot unmarshal inflate (Inr (Some (data @ [c]))) = (True, Inl (Msg ''decode snapshot: trailing data''))"
proof -
  obtain payload where m: "marshal value = Inr payload" and e: "encode deflate snapshotKind payload = Inr data"
    using w by (auto simp: WriteSnapshot_def wrap_def split: sum.splits)
  have v: "validFrameVersion snapshotKind checksumVersion" by (simp add: validFrameVersion_def frame_consts)
  have d: "decodeFrame inflate (data @ rest) 0 snapshotKind = Inr (payload, length data)" for rest
    using frame_roundtrip[OF e[unfolded encode_def] v _ zlib, where pre = "[]" and rest = rest] by simp
  have "\<exists>x. data = magic @ x" using e by (auto simp: encode_def encodeFrame_def frameHeader_def split: if_splits sum.splits)
  then have front: "8 \<le> length data" "take 8 (data @ rest) = magic" for rest by auto
  then show ?thesis
    using d[of "[]"] d[of "[c]"] json[OF m] front front(2)[of "[]"] by (simp add: ReadSnapshot_def wrap_def)
qed

text \<open>Instances.\<close>

theorem acknowledged_log_replays_witness:
  "Append (\<lambda>e. (length e, None)) None [''B''] (Some (logOf [''A''])) = (None, Some (logOf [''A''] @ logOf [''B''])) \<and>
   ReplayWAL (\<lambda>z n. Inflated z) (\<lambda>q s. (None, s @ [q])) (Inr (Some (logOf [''A''] @ logOf [''B'']))) [] = (None, [''A'', ''B''])"
proof -
  have a: "Append (\<lambda>e. (length e, None)) None [''B''] (Some (logOf [''A''])) = (None, Some (logOf [''A''] @ logOf [''B'']))"
    by (simp add: Append_def maxPayloadSize_def)
  then show ?thesis
    using acknowledged_log_replays[of "[''A'']", OF _ a, of "\<lambda>z n. Inflated z" "\<lambda>q s. (None, s @ [q])" "[]"]
    by (simp add: maxPayloadSize_def)
qed

theorem torn_log_replays_a_prefix_witness:
  "\<exists>j \<le> length [''B''].
    (case applyAll (\<lambda>q s. (None, s @ [q])) 1 ([''A''] @ take j [''B'']) [] of
       (Some e, s') \<Rightarrow> ReplayWAL (\<lambda>z n. Inflated z) (\<lambda>q s. (None, s @ [q])) (Inr (Some (logOf [''A''] @ take 7 (logOf [''B''])))) [] = (Some e, s')
     | (None, s') \<Rightarrow>
         if take 7 (logOf [''B'']) = logOf (take j [''B''])
         then ReplayWAL (\<lambda>z n. Inflated z) (\<lambda>q s. (None, s @ [q])) (Inr (Some (logOf [''A''] @ take 7 (logOf [''B''])))) [] = (None, s')
         else \<exists>e. ReplayWAL (\<lambda>z n. Inflated z) (\<lambda>q s. (None, s @ [q])) (Inr (Some (logOf [''A''] @ take 7 (logOf [''B''])))) [] =
                  (Some (recordError (length [''A''] + j + 1) e), s') \<and> truncatedError e)"
  by (rule torn_log_replays_a_prefix) (simp_all add: maxPayloadSize_def)

theorem damaged_log_stops_at_the_damage_witness:
  "ReplayWAL (\<lambda>z n. Inflated z) (\<lambda>q s. (None, s @ [q]))
     (Inr (Some ((logOf ([''A''] @ ''BC'' # [''D'']))[length (logOf [''A'']) + checksumHeaderSize + 1 := CHR ''X'']))) [] =
   (Some (recordError 2 (Msg ''SUPERDB checksum mismatch'')), [''A''])"
  using damaged_log_stops_at_the_damage[where before = "[''A'']" and sql = "''BC''" and i = 1 and b' = "CHR ''X''" and inflate = "\<lambda>z n. Inflated z" and f = "\<lambda>q s. (None, s @ [q])" and after = "[''D'']" and s = "[]"]
  by (simp add: maxPayloadSize_def numeral_2_eq_2 del: logOf_simps)

definition calmOs :: osCalls where
  "calmOs = \<lparr>osMkdir = None, osTemp = Inr ''snapshot.tmp-1'', osWrite = (3, None), osSync = None, osClose = None,
             osRename = None, osRemove = None, osRename2 = None, osCleanup = True\<rparr>"

theorem snapshot_write_is_atomic_witness:
  "osTemp calmOs \<noteq> Inr ''snapshot'' \<and> fst (atomicWrite calmOs ''snapshot'' ''abc'' (Map.empty(''snapshot'' \<mapsto> ''old''))) = None \<and>
   (case atomicWrite calmOs ''snapshot'' ''abc'' (Map.empty(''snapshot'' \<mapsto> ''old'')) of
      (None, fs') \<Rightarrow> fs' ''snapshot'' = Some ''abc''
    | (Some e, fs') \<Rightarrow> fs' ''snapshot'' = Some ''old'' \<or> targetRemoved calmOs \<and> fs' ''snapshot'' = None)"
  using snapshot_write_is_atomic[of calmOs "''snapshot''" "''abc''" "Map.empty(''snapshot'' \<mapsto> ''old'')"]
  by (simp add: calmOs_def atomicWrite_def)

theorem snapshot_roundtrip_witness:
  "case WriteSnapshot Inr Inr ''{}'' of
     Inr data \<Rightarrow> ReadSnapshot Inr (\<lambda>z n. Inflated z) (Inr (Some data)) = (True, Inr (Some ''{}'')) \<and>
       ReadSnapshot Inr (\<lambda>z n. Inflated z) (Inr (Some (data @ [CHR ''x'']))) = (True, Inl (Msg ''decode snapshot: trailing data''))
   | Inl _ \<Rightarrow> False"
proof -
  obtain data where f: "WriteSnapshot Inr Inr ''{}'' = Inr data"
    by (simp add: WriteSnapshot_def wrap_def encode_def encodeFrame_def frame_consts maxPayloadSize_def snapshotKind_def walKind_def)
  show ?thesis
    using snapshot_roundtrip[where deflate = Inr and inflate = "\<lambda>z n. Inflated z" and marshal = Inr and unmarshal = Inr, OF _ _ f, of "CHR ''x''"]
    by (simp add: f)
qed

text \<open>The snapshot is lost, old and new, when the second rename fails.\<close>

lemma failed_second_rename_loses_both:
  "let os = calmOs\<lparr>osRename := Some (Msg ''rename''), osRename2 := Some (Msg ''rename'')\<rparr>;
       (err, fs') = atomicWrite os ''snapshot'' ''abc'' (Map.empty(''snapshot'' \<mapsto> ''old''))
   in err = Some (Msg ''rename'') \<and> fs' = Map.empty"
  by (simp add: calmOs_def atomicWrite_def)

end
