(* ===== verification/Wire.thy ===== *)
theory Wire
  imports Storage
begin

text \<open>
  The hosted wire protocol (\<^verbatim>\<open>internal/wire/wire.go\<close>): the frame header, encoder, decoder and both writers. A
  reader is the bytes it still holds; a reader that ends inside a field is \<^verbatim>\<open>io.ErrUnexpectedEOF\<close>, at its start
  \<^verbatim>\<open>io.EOF\<close>. The integers keep their widths as words.
\<close>

section \<open>Frames\<close>

definition Magic :: string where
  "Magic = ''SDB1''"

definition Version :: "16 word" where
  "Version = 1"

definition HeaderLen :: nat where
  "HeaderLen = 20"

definition MaxFrameSize :: int where
  "MaxFrameSize = 16777216"

datatype wireError = Eof | UnexpectedEof | WireMsg string | VersionError "16 word" | WriteFailed error

definition versionErrorText :: "16 word \<Rightarrow> string" where
  "versionErrorText v =
     ''unsupported protocol version '' @ fmtNat (unat v) @ '' (server speaks '' @ fmtNat (unat Version) @ '')''"

record Header =
  hVersion :: "16 word"
  hType :: "8 word"
  hFlags :: "8 word"
  hRequestID :: "64 word"
  hLength :: "32 word"

definition byteOf :: "8 word \<Rightarrow> char" where
  "byteOf w = char_of (unat w)"

definition wordOf :: "char \<Rightarrow> 8 word" where
  "wordOf c = word_of_nat (of_char c)"

definition headerBytes :: "8 word \<Rightarrow> 64 word \<Rightarrow> 32 word \<Rightarrow> string" where
  "headerBytes msgType requestID len =
     Magic @ beBytes 2 (unat Version) @ [byteOf msgType, CHR 0x00] @ beBytes 8 (unat requestID) @ beBytes 4 (unat len)"

definition EncodeFrame :: "8 word \<Rightarrow> 64 word \<Rightarrow> string \<Rightarrow> string" where
  "EncodeFrame msgType requestID payload = headerBytes msgType requestID (word_of_nat (length payload)) @ payload"

text \<open>A writer is a state and what one \<^verbatim>\<open>Write\<close> does to it.\<close>

definition payloadTooLarge :: "nat \<Rightarrow> wireError" where
  "payloadTooLarge n = WireMsg (''payload too large: '' @ fmtNat n)"

definition WriteFrame ::
  "(string \<Rightarrow> 'w \<Rightarrow> error option \<times> 'w) \<Rightarrow> 8 word \<Rightarrow> 64 word \<Rightarrow> string \<Rightarrow> 'w \<Rightarrow> wireError option \<times> 'w" where
  "WriteFrame write msgType requestID payload w =
     (if int (length payload) > MaxFrameSize then (Some (payloadTooLarge (length payload)), w)
      else case write (EncodeFrame msgType requestID payload) w of (err, w') \<Rightarrow> (map_option WriteFailed err, w'))"

definition WriteFrameRaw ::
  "(string \<Rightarrow> 'w \<Rightarrow> error option \<times> 'w) \<Rightarrow> 8 word \<Rightarrow> 64 word \<Rightarrow> string \<Rightarrow> 'w \<Rightarrow> wireError option \<times> 'w" where
  "WriteFrameRaw write msgType requestID payload w =
     (if int (length payload) > MaxFrameSize then (Some (payloadTooLarge (length payload)), w)
      else case write (headerBytes msgType requestID (word_of_nat (length payload))) w of
        (Some e, w') \<Rightarrow> (Some (WriteFailed e), w')
      | (None, w') \<Rightarrow> (case write payload w' of (err, w'') \<Rightarrow> (map_option WriteFailed err, w'')))"

definition ReadFull :: "nat \<Rightarrow> string \<Rightarrow> wireError + string \<times> string" where
  "ReadFull n r =
     (if n \<le> length r then Inr (take n r, drop n r) else Inl (if r = [] then Eof else UnexpectedEof))"

definition ReadHeader :: "string \<Rightarrow> wireError + Header \<times> string" where
  "ReadHeader r =
     (case ReadFull HeaderLen r of
        Inl e \<Rightarrow> Inl e
      | Inr (h, rest) \<Rightarrow>
          if take 4 h \<noteq> Magic then Inl (WireMsg ''bad magic: expected SDB1'')
          else let ver = word_of_nat (beValue (take 2 (drop 4 h))) in
            if ver \<noteq> Version then Inl (VersionError ver)
            else if wordOf (h ! 7) \<noteq> 0 then Inl (WireMsg ''unsupported flags'')
            else let len = word_of_nat (beValue (take 4 (drop 16 h))) :: 32 word in
              if int (unat len) > MaxFrameSize then Inl (WireMsg (''frame too large: '' @ fmtNat (unat len) @ '' bytes''))
              else Inr (\<lparr>hVersion = ver, hType = wordOf (h ! 6), hFlags = wordOf (h ! 7),
                         hRequestID = word_of_nat (beValue (take 8 (drop 8 h))), hLength = len\<rparr>, rest))"

definition ReadFrame :: "string \<Rightarrow> wireError + (Header \<times> string) \<times> string" where
  "ReadFrame r =
     (case ReadHeader r of
        Inl e \<Rightarrow> Inl e
      | Inr (h, rest) \<Rightarrow>
          (case ReadFull (unat (hLength h)) rest of
             Inl e \<Rightarrow> Inl e
           | Inr (payload, rest') \<Rightarrow> Inr ((h, payload), rest')))"

section \<open>The response envelope\<close>

record 'v Response =
  respRequestID :: "64 word"
  respStatus :: string
  respErrorCode :: string
  respErrorMessage :: string
  respColumns :: "string list"
  respRows :: "'v list list"
  respAffectedRows :: int
  respMessage :: string
  respLeaderAddr :: string
  respRetryable :: bool

definition responseError :: "'v Response \<Rightarrow> string" where
  "responseError r =
     (if respStatus r = ''ok'' then []
      else if respErrorCode r \<noteq> [] then respErrorCode r @ '': '' @ respErrorMessage r
      else respErrorMessage r)"

definition emptyResponse :: "64 word \<Rightarrow> string \<Rightarrow> 'v Response" where
  "emptyResponse requestID status =
     \<lparr>respRequestID = requestID, respStatus = status, respErrorCode = [], respErrorMessage = [], respColumns = [], respRows = [],
      respAffectedRows = 0, respMessage = [], respLeaderAddr = [], respRetryable = False\<rparr>"

definition ErrorResponse :: "64 word \<Rightarrow> string \<Rightarrow> string \<Rightarrow> 'v Response" where
  "ErrorResponse requestID code msg = (emptyResponse requestID ''error'')\<lparr>respErrorCode := code, respErrorMessage := msg\<rparr>"

definition OKResponse :: "64 word \<Rightarrow> 'v Response" where
  "OKResponse requestID = emptyResponse requestID ''ok''"

section \<open>What the decoder accepts\<close>

lemma wordOf_byteOf [simp]: "wordOf (byteOf w) = w"
proof -
  have "unat w < 256" using unsigned_less[of w] by simp
  then show ?thesis by (simp add: wordOf_def byteOf_def of_char_of)
qed

lemma byteOf_wordOf [simp]: "byteOf (wordOf c) = c"
  using nat_of_char_less_256[of c] by (simp add: wordOf_def byteOf_def unsigned_of_nat take_bit_eq_mod)

lemma beValue_less: "beValue s < 256 ^ length s"
proof (induction s)
  case Nil
  then show ?case by (simp add: beValue_def)
next
  case (Cons c s)
  have "of_char c * 256 ^ length s + beValue s < (of_char c + 1) * 256 ^ length s" using Cons by simp
  also have "of_char c + 1 \<le> (256 :: nat)" using Suc_leI[OF nat_of_char_less_256[of c]] by (simp only: Suc_eq_plus1)
  then have "(of_char c + 1) * 256 ^ length s \<le> (256 :: nat) * 256 ^ length s" by (rule mult_le_mono1)
  finally show ?case by (simp add: beValue_Cons)
qed

lemma beBytes_mod: "beBytes k (n mod 256 ^ k) = beBytes k n"
proof -
  have "m \<le> k \<Longrightarrow> beBytes m (n mod 256 ^ k) = beBytes m n" for m
  proof (induction m)
    case (Suc m)
    have "256 ^ k = (256::nat) ^ m * 256 ^ (k - m)" "256 dvd (256::nat) ^ (k - m)" using Suc.prems by (simp_all flip: power_add)
    then have "n mod 256 ^ k div 256 ^ m mod 256 = n div 256 ^ m mod 256"
      by (simp add: mod_mult2_eq mod_mod_cancel)
    with Suc show ?case by simp
  qed simp
  then show ?thesis by simp
qed

lemma beBytes_beValue: "beBytes (length s) (beValue s) = s"
proof (induction s)
  case (Cons c s)
  have "beBytes (length s) (beValue (c # s)) = beBytes (length s) (beValue s)"
    using beBytes_mod[of "length s" "beValue (c # s)"] beBytes_mod[of "length s" "beValue s"] by (simp add: beValue_Cons)
  moreover have "beValue (c # s) div 256 ^ length s = of_char c" using beValue_less[of s] by (simp add: beValue_Cons)
  ultimately show ?case using Cons nat_of_char_less_256[of c] by simp
qed simp

lemma wire_lengths [simp]: "length Magic = 4" "length (headerBytes t i n) = 20"
  by (simp_all add: Magic_def headerBytes_def)

lemma be_word: "(word_of_nat (beValue (beBytes k (unat w))) :: 'a::len word) = w" if "256 ^ k = (2::nat) ^ LENGTH('a)"
  for w :: "'a::len word"
  using that unsigned_less[of w, where ?'a = nat] by (simp add: beValue_beBytes)

lemma word_be: "beBytes (length s) (unat (word_of_nat (beValue s) :: 'a::len word)) = s" if "256 ^ length s = (2::nat) ^ LENGTH('a)"
proof -
  have "beValue s < 2 ^ LENGTH('a)" using beValue_less[of s] that by simp
  then show ?thesis using beBytes_beValue[of s] by (simp add: unsigned_of_nat take_bit_eq_mod)
qed

lemma header_fields:
  "take 4 (headerBytes t i n) = Magic" "take 2 (drop 4 (headerBytes t i n)) = beBytes 2 (unat Version)"
  "headerBytes t i n ! 6 = byteOf t" "headerBytes t i n ! 7 = CHR 0x00"
  "take 8 (drop 8 (headerBytes t i n)) = beBytes 8 (unat i)" "take 4 (drop 16 (headerBytes t i n)) = beBytes 4 (unat n)"
  by (simp_all add: headerBytes_def nth_append)

lemma ReadHeader_headerBytes:
  "ReadHeader (headerBytes t i n @ rest) =
     (if int (unat n) > MaxFrameSize then Inl (WireMsg (''frame too large: '' @ fmtNat (unat n) @ '' bytes''))
      else Inr (\<lparr>hVersion = Version, hType = t, hFlags = 0, hRequestID = i, hLength = n\<rparr>, rest))"
proof -
  have "wordOf (CHR 0x00) = 0" by (simp add: wordOf_def)
  then show ?thesis by (simp add: ReadHeader_def ReadFull_def HeaderLen_def header_fields be_word Let_def)
qed

text \<open>A header that is accepted is one that the encoder writes.\<close>

lemma ReadHeader_canonical:
  assumes "ReadHeader r = Inr (h, rest)"
  shows "r = headerBytes (hType h) (hRequestID h) (hLength h) @ rest \<and> hVersion h = Version \<and> hFlags h = 0 \<and>
    int (unat (hLength h)) \<le> MaxFrameSize"
proof -
  define b where "b = take 20 r"
  have len: "20 \<le> length r" and rest: "rest = drop 20 r" and magic: "take 4 b = Magic"
    and ver: "word_of_nat (beValue (take 2 (drop 4 b))) = Version" and flags: "wordOf (b ! 7) = 0"
    and h: "hVersion h = Version" "hType h = wordOf (b ! 6)" "hFlags h = 0"
      "hRequestID h = word_of_nat (beValue (take 8 (drop 8 b)))" "hLength h = word_of_nat (beValue (take 4 (drop 16 b)))"
      "int (unat (hLength h)) \<le> MaxFrameSize"
    using assms by (auto simp: ReadHeader_def ReadFull_def HeaderLen_def Let_def b_def split: if_splits)
  have lb: "length b = 20" using len by (simp add: b_def)
  have "beBytes 2 (unat Version) = take 2 (drop 4 b)" "beBytes 8 (unat (hRequestID h)) = take 8 (drop 8 b)"
    "beBytes 4 (unat (hLength h)) = take 4 (drop 16 b)"
    using word_be[of "take 2 (drop 4 b)", where ?'a = 16] word_be[of "take 8 (drop 8 b)", where ?'a = 64]
      word_be[of "take 4 (drop 16 b)", where ?'a = 32] lb ver h by simp_all
  moreover have "byteOf (hType h) = b ! 6" by (simp add: h)
  moreover have "b ! 7 = CHR 0x00" using flags byteOf_wordOf[of "b ! 7"] by (simp add: byteOf_def char_of_def)
  moreover have "b = take 4 b @ take 2 (drop 4 b) @ [b ! 6, b ! 7] @ take 8 (drop 8 b) @ take 4 (drop 16 b)"
  proof -
    have "b = take 4 b @ drop 4 b" "drop 4 b = take 2 (drop 4 b) @ drop 6 b" "drop 8 b = take 8 (drop 8 b) @ drop 16 b"
      "take 4 (drop 16 b) = drop 16 b"
      using append_take_drop_id[of 2 "drop 4 b"] append_take_drop_id[of 8 "drop 8 b"] lb by simp_all
    moreover have "drop 6 b = b ! 6 # b ! 7 # drop 8 b"
      using lb Cons_nth_drop_Suc[of 6 b] Cons_nth_drop_Suc[of 7 b] by simp
    ultimately show ?thesis by (metis append.left_neutral append_Cons)
  qed
  ultimately have "b = headerBytes (hType h) (hRequestID h) (hLength h)" using magic by (simp add: headerBytes_def)
  moreover have "r = b @ rest" by (simp add: b_def rest)
  ultimately show ?thesis using h by simp
qed

lemma frames_read_iff:
  "ReadFrame r = Inr ((h, payload), rest) \<longleftrightarrow>
     int (length payload) \<le> MaxFrameSize \<and> r = EncodeFrame (hType h) (hRequestID h) payload @ rest \<and>
     hVersion h = Version \<and> hFlags h = 0 \<and> hLength h = word_of_nat (length payload)"
  (is "?read \<longleftrightarrow> ?frame")
proof
  assume ?read
  then obtain mid where "ReadHeader r = Inr (h, mid)" "mid = payload @ rest" "length payload = unat (hLength h)"
    by (auto simp: ReadFrame_def ReadFull_def split: sum.splits if_splits prod.splits)
  with ReadHeader_canonical[OF this(1)] show ?frame by (simp add: EncodeFrame_def)
next
  assume f: ?frame
  then have "length payload < 2 ^ 32" by (simp add: MaxFrameSize_def)
  then have "unat (word_of_nat (length payload) :: 32 word) = length payload" by (simp add: unsigned_of_nat take_bit_eq_mod)
  with f show ?read by (auto simp: ReadFrame_def EncodeFrame_def ReadHeader_headerBytes ReadFull_def)
qed

text \<open>
  C31: the decoder of the hosted protocol accepts exactly what the encoder writes, and never a payload above the size
  limit: reading succeeds if and only if the input starts with the encoding of the result, and it then consumes
  exactly that frame.
\<close>

theorem frames_read_exactly:
  "ReadFrame r = Inr ((h, payload), rest) \<longleftrightarrow>
     int (length payload) \<le> MaxFrameSize \<and> r = EncodeFrame (hType h) (hRequestID h) payload @ rest \<and>
     hVersion h = Version \<and> hFlags h = 0 \<and> hLength h = word_of_nat (length payload)"
  by (rule frames_read_iff)

definition frameAt :: "string \<Rightarrow> nat \<Rightarrow> (string \<times> nat) res" where
  "frameAt b offset =
     (case ReadFrame (drop offset b) of
        Inl e \<Rightarrow> Inl (Msg ''frame'')
      | Inr ((h, payload), rest) \<Rightarrow> Inr (payload, length b - length rest))"

lemma ReadFrame_EncodeFrame:
  "int (length p) \<le> MaxFrameSize \<Longrightarrow>
     ReadFrame (EncodeFrame t i p @ rest) =
       Inr ((\<lparr>hVersion = Version, hType = t, hFlags = 0, hRequestID = i, hLength = word_of_nat (length p)\<rparr>, p), rest)"
  by (simp add: frames_read_iff)

text \<open>Frames in a row read in one way only.\<close>

interpretation wire: record_stream "\<lambda>p. int (length p) \<le> MaxFrameSize" "EncodeFrame t i" frameAt for t i
  by unfold_locales (simp_all add: frameAt_def ReadFrame_EncodeFrame, simp add: EncodeFrame_def headerBytes_def)

lemma WriteFrameRaw_agrees:
  assumes "\<And>a b w. write (a @ b) w = (case write a w of (Some e, w') \<Rightarrow> (Some e, w') | (None, w') \<Rightarrow> write b w')"
  shows "WriteFrameRaw write t i p w = WriteFrame write t i p w"
  by (auto simp: WriteFrameRaw_def WriteFrame_def EncodeFrame_def assms split: prod.splits option.splits)

end
