(* ===== verification/Session.thy ===== *)
theory Session
  imports Txn Bind Wire
begin

text \<open>
  The local server (\<^verbatim>\<open>internal/server\<close>): sessions and requests (\<^verbatim>\<open>server.go\<close>), limits and admission
  (\<^verbatim>\<open>limits.go\<close>), requests on the wire (\<^verbatim>\<open>protocol.go\<close>).

  A session is a record of its transaction and of what it has still to log. The database, the log and the snapshot
  files are shared by all sessions and belong to the record \<open>server\<close>. One request is one step: the interleavings of
  two requests are not modelled, except where a lemma composes their parts by hand. Everything outside the program is
  an argument: the contexts of statements with a timeout, the outcome of each file operation, the wait for a slot, the
  JSON decoder, the zlib encoder and the cluster node. \<open>srvClock\<close> counts the interactions, so that each has an
  outcome of its own.
\<close>

declare map_of_eq_Some_iff [simp del] Some_eq_map_of_iff [simp del]

section \<open>Limits and admission (limits.go)\<close>

record Limits =
  QueryTimeout :: int
  MaxResultRows :: int
  MaxResultBytes :: int
  MaxInflightQueries :: int
  AcquireTimeout :: int
  MaxConnections :: int
  MaxBatchStatements :: int
  MaxTxStatements :: int
  MaxTxDatabaseRows :: int
  MaxRequestBytes :: int

definition ErrBusy :: error where
  "ErrBusy = Msg ''server busy: too many concurrent queries''"

text \<open>A channel used as a semaphore is its capacity and the number of slots taken; a nil channel is None.\<close>

record Limiter =
  connSem :: "(nat \<times> nat) option"
  querySem :: "(nat \<times> nat) option"
  rejectedConns :: "64 word"
  rejectedQueries :: "64 word"

definition semOf :: "int \<Rightarrow> (nat \<times> nat) option" where
  "semOf cap = (if cap > 0 then Some (nat cap, 0) else None)"

definition NewLimiter :: "Limits \<Rightarrow> Limiter" where
  "NewLimiter l =
     \<lparr>connSem = semOf (MaxConnections l), querySem = semOf (MaxInflightQueries l), rejectedConns = 0, rejectedQueries = 0\<rparr>"

definition AcquireConn :: "Limiter option \<Rightarrow> bool \<times> Limiter option" where
  "AcquireConn lim =
     (case lim of
        None \<Rightarrow> (True, None)
      | Some l \<Rightarrow>
          (case connSem l of
             None \<Rightarrow> (True, Some l)
           | Some (cap, used) \<Rightarrow>
               if used < cap then (True, Some (l\<lparr>connSem := Some (cap, used + 1)\<rparr>))
               else (False, Some (l\<lparr>rejectedConns := rejectedConns l + 1\<rparr>))))"

text \<open>Receiving from an empty channel blocks: there is no step then.\<close>

definition ReleaseConn :: "Limiter option \<Rightarrow> Limiter option option" where
  "ReleaseConn lim =
     (case lim of
        None \<Rightarrow> Some None
      | Some l \<Rightarrow>
          (case connSem l of
             None \<Rightarrow> Some (Some l)
           | Some (cap, used) \<Rightarrow> if used = 0 then None else Some (Some (l\<lparr>connSem := Some (cap, used - 1)\<rparr>))))"

text \<open>
  The \<^verbatim>\<open>select\<close> of \<^verbatim>\<open>AcquireQuery\<close>: a slot, the context or the timer, whichever is ready; \<open>fired\<close> says what became
  ready besides the slot. With nothing ready the call waits: there is no step.
\<close>

datatype wait = NotFired | CtxDone error | TimerFired

definition AcquireQuery :: "bool \<Rightarrow> wait \<Rightarrow> Limiter option \<Rightarrow> (error option \<times> Limiter option) option" where
  "AcquireQuery slot fired lim =
     (case lim of
        None \<Rightarrow> Some (None, None)
      | Some l \<Rightarrow>
          (case querySem l of
             None \<Rightarrow> Some (None, Some l)
           | Some (cap, used) \<Rightarrow>
               if slot then (if used < cap then Some (None, Some (l\<lparr>querySem := Some (cap, used + 1)\<rparr>)) else None)
               else case fired of
                 NotFired \<Rightarrow> None
               | CtxDone e \<Rightarrow> Some (Some e, Some (l\<lparr>rejectedQueries := rejectedQueries l + 1\<rparr>))
               | TimerFired \<Rightarrow> Some (Some ErrBusy, Some (l\<lparr>rejectedQueries := rejectedQueries l + 1\<rparr>))))"

definition ReleaseQuery :: "Limiter option \<Rightarrow> Limiter option option" where
  "ReleaseQuery lim =
     (case lim of
        None \<Rightarrow> Some None
      | Some l \<Rightarrow>
          (case querySem l of
             None \<Rightarrow> Some (Some l)
           | Some (cap, used) \<Rightarrow> if used = 0 then None else Some (Some (l\<lparr>querySem := Some (cap, used - 1)\<rparr>))))"

section \<open>The session and what it shares (server.go)\<close>

text \<open>
  The environment: the context of the n-th interaction when a timeout is set, the outcomes of its file operations, and
  the JSON and zlib encoders of a snapshot.
\<close>

record disk =
  dkOpen :: "error option"
  dkWrite :: "string \<Rightarrow> nat \<times> error option"
  dkSync :: "error option"
  dkFiles :: osCalls

record environment =
  deadline :: "nat \<Rightarrow> ctx"
  disks :: "nat \<Rightarrow> disk"
  admission :: "nat \<Rightarrow> error option"
  sent :: "nat \<Rightarrow> bool"
  marshalDb :: "database \<Rightarrow> string res"
  deflateDb :: "string \<Rightarrow> string res"

record 'c clusterExec =
  clExec :: "ctx \<Rightarrow> string \<Rightarrow> 'c \<Rightarrow> result res \<times> 'c"
  clExecAtomic :: "ctx \<Rightarrow> string list \<Rightarrow> 'c \<Rightarrow> result list res \<times> 'c"

record 'c config =
  cfMode :: string
  cfLimits :: Limits
  cfWriter :: "bool option"
  cfCluster :: "'c clusterExec option"

record 'c server =
  srvDb :: database
  srvWal :: string
  srvFiles :: "string \<rightharpoonup> string"
  srvClock :: nat
  srvCluster :: 'c

record session =
  seTx :: "database option"
  seTxSQL :: "string list"
  seBatch :: bool
  sePending :: "string list"

definition newSession :: session where
  "newSession = \<lparr>seTx = None, seTxSQL = [], seBatch = False, sePending = []\<rparr>"

datatype reply = ErrorReply error | MessageReply string | ResultReply result | ListReply "reply list"

definition active :: "session \<Rightarrow> 'c server \<Rightarrow> database" where
  "active s srv = (case seTx s of Some t \<Rightarrow> t | None \<Rightarrow> srvDb srv)"

definition snapshotName :: string where
  "snapshotName = ''snapshot.spdb''"

definition queryContext :: "Limits \<Rightarrow> environment \<Rightarrow> nat \<Rightarrow> ctx" where
  "queryContext l env n = (if QueryTimeout l = 0 then background else deadline env n)"

fun equalFold :: "string \<Rightarrow> string \<Rightarrow> bool" where
  "equalFold [] [] = True"
| "equalFold (c # s) (k # keyword) =
     ((if CHR ''a'' \<le> c \<and> c \<le> CHR ''z'' then char_of (of_char c - 32 :: nat) else c) = k \<and> equalFold s keyword)"
| "equalFold s keyword = False"

definition isWriteSQL :: "string \<Rightarrow> bool" where
  "isWriteSQL raw \<longleftrightarrow> \<not> IsReadOnly raw"

definition writeStatements :: "string list \<Rightarrow> string list" where
  "writeStatements sqls = filter isWriteSQL sqls"

definition capReply :: "result \<Rightarrow> Limits \<Rightarrow> reply" where
  "capReply res l =
     (if MaxResultRows l > 0 \<and> int (length (resRows res)) > MaxResultRows l then
        ErrorReply (Msg (''result row limit exceeded: '' @ fmtNat (length (resRows res)) @ '' rows (limit '' @ FormatInt (MaxResultRows l) @ '')''))
      else ResultReply res)"

fun rootCause :: "error \<Rightarrow> error" where
  "rootCause (Wrapped prefix e) = rootCause e"
| "rootCause e = e"

definition execErrorMessage :: "error \<Rightarrow> error" where
  "execErrorMessage e =
     (if rootCause e = DeadlineExceeded then Msg ''query timeout exceeded''
      else if rootCause e = Canceled then Msg ''query canceled''
      else e)"

definition checkAuth :: "string \<Rightarrow> string \<Rightarrow> bool" where
  "checkAuth supplied required \<longleftrightarrow> required = [] \<or> supplied = required"

definition saveSnapshot :: "environment \<Rightarrow> database \<Rightarrow> 'c server \<Rightarrow> error option \<times> 'c server" where
  "saveSnapshot env img srv =
     (case WriteSnapshot (marshalDb env) (deflateDb env) img of
        Inl e \<Rightarrow> (Some e, srv)
      | Inr data \<Rightarrow>
          (case atomicWrite (dkFiles (disks env (srvClock srv))) snapshotName data (srvFiles srv) of
             (e, fs) \<Rightarrow> (e, srv\<lparr>srvFiles := fs\<rparr>)))"

definition appendLog :: "environment \<Rightarrow> 'c config \<Rightarrow> string list \<Rightarrow> 'c server \<Rightarrow> error option \<times> 'c server" where
  "appendLog env cf sqls srv =
     (let dk = disks env (srvClock srv);
          (e, file) = (case cfWriter cf of
             Some isOpen \<Rightarrow> Append (dkWrite dk) (dkSync dk) sqls (if isOpen then Some (srvWal srv) else None)
           | None \<Rightarrow> AppendWALBatch (dkWrite dk) (dkSync dk) (case dkOpen dk of Some e \<Rightarrow> Inl e | None \<Rightarrow> Inr (srvWal srv)) sqls)
      in (e, srv\<lparr>srvWal := (case file of Some b \<Rightarrow> b | None \<Rightarrow> srvWal srv)\<rparr>))"

definition persistStatements ::
  "environment \<Rightarrow> 'c config \<Rightarrow> string list \<Rightarrow> database \<Rightarrow> 'c server \<Rightarrow> error option \<times> 'c server" where
  "persistStatements env cf sqls img srv =
     (case (if cfMode cf = ''wal'' then appendLog env cf sqls srv
            else if cfMode cf = ''snapshot'' \<and> sqls \<noteq> [] then saveSnapshot env img srv
            else (None, srv)) of
        (e, srv') \<Rightarrow> (e, srv'\<lparr>srvClock := Suc (srvClock srv')\<rparr>))"

text \<open>\<^verbatim>\<open>CommitFrom\<close> with the persistence of the img0, which runs only when there is no conflict.\<close>

definition commitImage ::
  "environment \<Rightarrow> 'c config \<Rightarrow> string list \<Rightarrow> database \<Rightarrow> 'c server \<Rightarrow> error option \<times> 'c server" where
  "commitImage env cf ws img0 srv =
     (let (e, srv') = persistStatements env cf ws (cloneImage img0) srv in
      case CommitFrom img0 (\<lambda>img. fst (persistStatements env cf ws img srv)) (srvDb srv) of
        (err, d) \<Rightarrow>
          (err, (if revision (srvDb srv) = baseRevision img0 then srv' else srv)\<lparr>srvDb := d\<rparr>))"

definition beginTx :: "'c config \<Rightarrow> session \<Rightarrow> 'c server \<Rightarrow> reply \<times> session" where
  "beginTx cf s srv =
     (let lim = MaxTxDatabaseRows (cfLimits cf); n = RowCount (srvDb srv) in
      if seTx s \<noteq> None then (ErrorReply (Msg ''transaction already active''), s)
      else if lim > 0 \<and> int n > lim then
        (ErrorReply (Msg (''transaction rejected: database holds '' @ fmtNat n @ '' rows (limit '' @ FormatInt lim @ '')'')), s)
      else (MessageReply ''BEGIN ok'', s\<lparr>seTx := Some (Clone (srvDb srv)), seTxSQL := []\<rparr>))"

definition rollbackTx :: "session \<Rightarrow> reply \<times> session" where
  "rollbackTx s =
     (if seTx s = None then (ErrorReply (Msg ''no transaction active''), s)
      else (MessageReply ''ROLLBACK ok'', s\<lparr>seTx := None, seTxSQL := []\<rparr>))"

definition commitTx :: "environment \<Rightarrow> 'c config \<Rightarrow> session \<Rightarrow> 'c server \<Rightarrow> reply \<times> session \<times> 'c server" where
  "commitTx env cf s srv =
     (case seTx s of
        None \<Rightarrow> (ErrorReply (Msg ''no transaction active''), s, srv)
      | Some t \<Rightarrow>
          let stmts = writeStatements (seTxSQL s); ended = s\<lparr>seTx := None, seTxSQL := []\<rparr> in
          if stmts = [] then (MessageReply ''COMMIT ok'', ended, srv)
          else case commitImage env cf stmts t srv of
            (Some e, srv') \<Rightarrow> (ErrorReply (Wrapped ''commit: '' e), s, srv')
          | (None, srv') \<Rightarrow> (MessageReply ''COMMIT ok'', ended, srv'))"

definition statement :: "environment \<Rightarrow> 'c config \<Rightarrow> string \<Rightarrow> session \<Rightarrow> 'c server \<Rightarrow> reply \<times> session \<times> 'c server" where
  "statement env cf raw s srv0 =
     (let ctx = queryContext (cfLimits cf) env (srvClock srv0); srv = srv0\<lparr>srvClock := Suc (srvClock srv0)\<rparr>;
          lim = MaxTxStatements (cfLimits cf)
      in case ExecWithOptions ctx raw (MaxResultRows (cfLimits cf)) (active s srv) of
           (r, d) \<Rightarrow>
             (case seTx s of
                Some t \<Rightarrow>
                  (case r of
                     Inl e \<Rightarrow> (ErrorReply (execErrorMessage e), s\<lparr>seTx := Some d\<rparr>, srv)
                   | Inr res \<Rightarrow>
                       if isWriteSQL raw then
                         (if lim > 0 \<and> int (length (seTxSQL s)) \<ge> lim then
                            (ErrorReply (Msg (''transaction aborted: exceeded '' @ FormatInt lim @ '' buffered statements'')),
                             s\<lparr>seTx := None, seTxSQL := []\<rparr>, srv)
                          else (ResultReply res, s\<lparr>seTx := Some d, seTxSQL := seTxSQL s @ [raw]\<rparr>, srv))
                       else (ResultReply res, s\<lparr>seTx := Some d\<rparr>, srv))
              | None \<Rightarrow>
                  let srv1 = srv\<lparr>srvDb := d\<rparr> in
                  (case r of
                     Inl e \<Rightarrow> (ErrorReply (execErrorMessage e), s, srv1)
                   | Inr res \<Rightarrow>
                       if \<not> isWriteSQL raw then (ResultReply res, s, srv1)
                       else if seBatch s then (ResultReply res, s\<lparr>sePending := sePending s @ [raw]\<rparr>, srv1)
                       else case persistStatements env cf [raw] d srv1 of
                         (Some e, srv2) \<Rightarrow> (ErrorReply (Wrapped ''persist: '' e), s, srv2)
                       | (None, srv2) \<Rightarrow> (ResultReply res, s, srv2))))"

definition clusterSQL :: "environment \<Rightarrow> 'c config \<Rightarrow> 'c clusterExec \<Rightarrow> string \<Rightarrow> 'c server \<Rightarrow> reply \<times> 'c server" where
  "clusterSQL env cf c raw srv =
     (let trimmed = TrimSpace raw in
      if equalFold trimmed ''BEGIN'' \<or> equalFold trimmed ''COMMIT'' \<or> equalFold trimmed ''ROLLBACK'' then
        (ErrorReply (Msg ''session transactions are not supported in cluster mode; send atomic batches instead''), srv)
      else case clExec c (queryContext (cfLimits cf) env (srvClock srv)) raw (srvCluster srv) of
        (r, cs) \<Rightarrow>
          ((case r of Inl e \<Rightarrow> ErrorReply e | Inr res \<Rightarrow> capReply res (cfLimits cf)),
           srv\<lparr>srvCluster := cs, srvClock := Suc (srvClock srv)\<rparr>))"

definition executeSQL :: "environment \<Rightarrow> 'c config \<Rightarrow> string \<Rightarrow> session \<Rightarrow> 'c server \<Rightarrow> reply \<times> session \<times> 'c server" where
  "executeSQL env cf raw s srv =
     (case cfCluster cf of
        Some c \<Rightarrow> (case clusterSQL env cf c raw srv of (r, srv') \<Rightarrow> (r, s, srv'))
      | None \<Rightarrow>
          let sql = TrimSpace raw in
          if equalFold sql ''BEGIN'' then (case beginTx cf s srv of (r, s') \<Rightarrow> (r, s', srv))
          else if equalFold sql ''ROLLBACK'' then (case rollbackTx s of (r, s') \<Rightarrow> (r, s', srv))
          else if equalFold sql ''COMMIT'' then commitTx env cf s srv
          else statement env cf raw s srv)"

section \<open>Requests\<close>

fun atomicLoop ::
  "environment \<Rightarrow> Limits \<Rightarrow> nat \<Rightarrow> nat \<Rightarrow> string list \<Rightarrow> database \<Rightarrow> string list \<Rightarrow> reply list \<Rightarrow> error + database \<times> string list \<times> reply list" where
  "atomicLoop env l n i [] clone ws out = Inr (clone, ws, out)"
| "atomicLoop env l n i (sql # sqls) clone ws out =
     (case ExecWithOptions (queryContext l env n) sql (MaxResultRows l) clone of
        (Inl e, _) \<Rightarrow> Inl (Wrapped (''statement '' @ fmtNat (i + 1) @ '': '') (execErrorMessage e))
      | (Inr res, clone') \<Rightarrow>
          atomicLoop env l (Suc n) (Suc i) sqls clone' (if isWriteSQL sql then ws @ [sql] else ws) (out @ [ResultReply res]))"

definition executeAtomicBatch ::
  "environment \<Rightarrow> 'c config \<Rightarrow> string list \<Rightarrow> session \<Rightarrow> 'c server \<Rightarrow> reply \<times> 'c server" where
  "executeAtomicBatch env cf sqls s srv =
     (if seTx s \<noteq> None then (ErrorReply (Msg ''atomic batch not allowed inside a transaction''), srv)
      else let srv1 = srv\<lparr>srvClock := srvClock srv + length sqls\<rparr> in
        case atomicLoop env (cfLimits cf) (srvClock srv) 0 sqls (Clone (srvDb srv)) [] [] of
          Inl e \<Rightarrow> (ErrorReply e, srv1)
        | Inr (clone, ws, out) \<Rightarrow>
            (case commitImage env cf ws clone srv1 of
               (Some e, srv2) \<Rightarrow> (ErrorReply (Wrapped ''batch commit: '' e), srv2)
             | (None, srv2) \<Rightarrow> (ListReply out, srv2)))"

fun batchLoop ::
  "environment \<Rightarrow> 'c config \<Rightarrow> string list \<Rightarrow> reply list \<Rightarrow> session \<Rightarrow> 'c server \<Rightarrow> reply list \<times> session \<times> 'c server" where
  "batchLoop env cf [] out s srv = (out, s, srv)"
| "batchLoop env cf (sql # sqls) out s srv =
     (case executeSQL env cf sql s srv of (r, s', srv') \<Rightarrow> batchLoop env cf sqls (out @ [r]) s' srv')"

definition executeBatch :: "environment \<Rightarrow> 'c config \<Rightarrow> string list \<Rightarrow> session \<Rightarrow> 'c server \<Rightarrow> reply \<times> session \<times> 'c server" where
  "executeBatch env cf sqls s srv =
     (case batchLoop env cf sqls [] (s\<lparr>seBatch := True, sePending := []\<rparr>) srv of
        (out, s1, srv1) \<Rightarrow>
          (case persistStatements env cf (sePending s1) (srvDb srv1) srv1 of
             (e, srv2) \<Rightarrow>
               (ListReply (case e of None \<Rightarrow> out | Some err \<Rightarrow> out @ [ErrorReply (Wrapped ''persist batch: '' err)]),
                s1\<lparr>seBatch := False, sePending := []\<rparr>, srv2)))"

record request =
  qSQL :: string
  qSQLs :: "string list"
  qParams :: "param list"
  qAuth :: string
  qAuthKey :: string
  qAtomic :: bool
  qPing :: bool

definition executeRequest :: "environment \<Rightarrow> 'c config \<Rightarrow> request \<Rightarrow> session \<Rightarrow> 'c server \<Rightarrow> reply \<times> session \<times> 'c server" where
  "executeRequest env cf q s srv =
     (let lim = MaxBatchStatements (cfLimits cf) in
      if qSQLs q \<noteq> [] \<and> qParams q \<noteq> [] then (ErrorReply (Msg ''params are only supported on single sql requests''), s, srv)
      else case (if qSQLs q = [] then BindParams (qSQL q) (qParams q) else Inr (qSQL q)) of
        Inl e \<Rightarrow> (ErrorReply e, s, srv)
      | Inr sql \<Rightarrow>
          (case admission env (srvClock srv) of
             Some e \<Rightarrow> (ErrorReply e, s, srv)
           | None \<Rightarrow>
               if qSQLs q = [] then executeSQL env cf sql s srv
               else if lim > 0 \<and> int (length (qSQLs q)) > lim then
                 (ErrorReply (Msg (''batch exceeds maximum of '' @ FormatInt lim @ '' statements'')), s, srv)
               else if qAtomic q then
                 (case cfCluster cf of
                    Some c \<Rightarrow>
                      (case clExecAtomic c (queryContext (cfLimits cf) env (srvClock srv)) (qSQLs q) (srvCluster srv) of
                         (r, cs) \<Rightarrow>
                           ((case r of Inl e \<Rightarrow> ErrorReply e | Inr rs \<Rightarrow> ListReply (map (\<lambda>res. capReply res (cfLimits cf)) rs)),
                            s, srv\<lparr>srvCluster := cs, srvClock := Suc (srvClock srv)\<rparr>))
                  | None \<Rightarrow> (case executeAtomicBatch env cf (qSQLs q) s srv of (r, srv') \<Rightarrow> (r, s, srv')))
               else executeBatch env cf (qSQLs q) s srv))"

section \<open>Requests on the wire (protocol.go) and the connection loop\<close>

definition maxRequestSize :: int where
  "maxRequestSize = 16777216"

text \<open>\<open>parse\<close> stands for the JSON decoder.\<close>

definition readRequest :: "(string \<Rightarrow> string + request) \<Rightarrow> int \<Rightarrow> string \<Rightarrow> wireError + request \<times> string" where
  "readRequest parse maxBytes0 r =
     (let maxBytes = (if maxBytes0 \<le> 0 then maxRequestSize else maxBytes0) in
      case ReadFull 4 r of
        Inl e \<Rightarrow> Inl e
      | Inr (header, rest) \<Rightarrow>
          let size = beValue header in
          if int size > maxBytes then Inl (WireMsg ''request too large'')
          else case ReadFull size rest of
            Inl e \<Rightarrow> Inl e
          | Inr (payload, rest') \<Rightarrow>
              (case parse payload of
                 Inl e \<Rightarrow> Inl (WireMsg e)
               | Inr q \<Rightarrow>
                   let q' = (if qAuth q = [] \<and> qAuthKey q \<noteq> [] then q\<lparr>qAuth := qAuthKey q\<rparr> else q)\<lparr>qAuthKey := []\<rparr> in
                   if qSQL q' = [] \<and> qSQLs q' = [] \<and> \<not> qPing q' then Inl (WireMsg ''request must contain sql or sqls'')
                   else Inr (q', rest')))"

lemma readRequest_shorter: "readRequest parse maxBytes r = Inr (q, rest) \<Longrightarrow> length rest < length r"
  by (auto simp: readRequest_def ReadFull_def Let_def split: if_splits sum.splits)

definition unauthorized :: reply where
  "unauthorized = ErrorReply (Msg ''unauthorized: invalid or missing auth key'')"

text \<open>The status of a ping is a message here.\<close>

definition pong :: reply where
  "pong = MessageReply ''ok''"

text \<open>The requests of one connection; \<open>sent\<close> says which responses could be written.\<close>

function serve ::
  "environment \<Rightarrow> 'c config \<Rightarrow> (string \<Rightarrow> string + request) \<Rightarrow> string \<Rightarrow> nat \<Rightarrow> string \<Rightarrow> session \<Rightarrow> 'c server \<Rightarrow> reply list \<times> 'c server" where
  "serve env cf parse authKey n r s srv =
     (case readRequest parse (MaxRequestBytes (cfLimits cf)) r of
        Inl e \<Rightarrow> ([], srv)
      | Inr (q, rest) \<Rightarrow>
          (case (if qPing q then (pong, s, srv)
                 else if \<not> checkAuth (qAuth q) authKey then (unauthorized, s, srv)
                 else executeRequest env cf q s srv) of
             (rep, s', srv') \<Rightarrow>
               if \<not> sent env n then ([], srv')
               else case serve env cf parse authKey (Suc n) rest s' srv' of (reps, srv'') \<Rightarrow> (rep # reps, srv'')))"
  by pat_completeness auto
termination
  by (relation "measure (\<lambda>(env, cf, parse, authKey, n, r, s, srv). length r)") (auto dest: readRequest_shorter)

declare serve.simps [simp del]

definition HandleWithOptions ::
  "environment \<Rightarrow> 'c config \<Rightarrow> (string \<Rightarrow> string + request) \<Rightarrow> string \<Rightarrow> Limiter option \<Rightarrow> string \<Rightarrow> 'c server \<Rightarrow> reply list \<times> 'c server" where
  "HandleWithOptions env cf parse authKey lim r srv =
     (if fst (AcquireConn lim) then serve env cf parse authKey 0 r newSession srv
      else ([ErrorReply (Msg ''connection refused: server at connection limit'')], srv))"

end
