(* ===== verification/Durability.thy ===== *)
theory Durability
  imports Session
begin

text \<open>
  What the local server promises: the write-ahead log replays to the tables of the database (\<open>durability\<close>, an
  invariant of the run relation \<open>served\<close>, in which sessions send requests in any order), an atomic batch
  applies all of its statements or none, a transaction is invisible before its commit, no request runs without the key,
  and the slots of the limiter are bounded under every interleaving.

  The log is read as the list of its statements. \<open>yields\<close> relates such a list to the tables it leaves;
  \<open>logged\<close> and \<open>tracked\<close> are the invariant of the server and of a session with an open transaction. Two
  counterexamples at the end show where the code does not keep the order of the log.
\<close>

declare map_of_eq_Some_iff [simp del] Some_eq_map_of_iff [simp del]

section \<open>What the log records\<close>

text \<open>\<^verbatim>\<open>ReplayWAL\<close> of \<^verbatim>\<open>persistence.go\<close> runs each record with \<^verbatim>\<open>db.Exec\<close>.\<close>

definition applySQL :: "string \<Rightarrow> database \<Rightarrow> error option \<times> database" where
  "applySQL sql d = (case Exec sql d of (Inl e, d') \<Rightarrow> (Some (Wrapped ''replay WAL: '' e), d') | (Inr _, d') \<Rightarrow> (None, d'))"

definition replayLog :: "(string \<Rightarrow> nat \<Rightarrow> inflated) \<Rightarrow> error + string option \<Rightarrow> database \<Rightarrow> error option \<times> database" where
  "replayLog inflate contents d = ReplayWAL inflate applySQL contents d"

text \<open>All statements succeed in turn, and leave these tables.\<close>

definition yields :: "string list \<Rightarrow> database \<Rightarrow> database \<Rightarrow> bool" where
  "yields sqls d0 d \<longleftrightarrow> (\<exists>d'. applyAll applySQL 1 sqls d0 = (None, d') \<and> Tables d' = Tables d)"

lemma applyAll_number: "fst (applyAll f n qs s) = None \<longleftrightarrow> fst (applyAll f m qs s) = None" "snd (applyAll f n qs s) = snd (applyAll f m qs s)"
proof -
  have "(fst (applyAll f n qs s) = None \<longleftrightarrow> fst (applyAll f m qs s) = None) \<and> snd (applyAll f n qs s) = snd (applyAll f m qs s)"
  proof (induction qs arbitrary: n m s)
    case (Cons q qs)
    show ?case
    proof (cases "f q s")
      case (Pair e s')
      with Cons[of "n + 1" s' "m + 1"] show ?thesis by (cases e) auto
    qed
  qed simp
  then show "fst (applyAll f n qs s) = None \<longleftrightarrow> fst (applyAll f m qs s) = None" "snd (applyAll f n qs s) = snd (applyAll f m qs s)"
    by blast+
qed

lemma applyAll_None: "applyAll f n qs s = (None, s') \<longleftrightarrow> applyAll f m qs s = (None, s')"
  using applyAll_number[of f n qs s m] by (metis prod.collapse fst_conv snd_conv)

lemma applyAll_append:
  "applyAll f n (xs @ ys) s = (case applyAll f n xs s of (Some e, s') \<Rightarrow> (Some e, s') | (None, s') \<Rightarrow> applyAll f (n + length xs) ys s')"
proof (induction xs arbitrary: n s)
  case (Cons x xs)
  then show ?case by (cases "f x s"; cases "fst (f x s)") (auto split: prod.splits option.splits)
qed simp

lemma applySQL_None: "applySQL sql d = (None, d') \<longleftrightarrow> (\<exists>r. Exec sql d = (Inr r, d'))"
  by (auto simp: applySQL_def split: sum.splits prod.splits)

text \<open>Success depends on the tables only.\<close>

lemma Exec_same:
  assumes "Tables d1 = Tables d2" "Exec sql d1 = (r, d1')"
  shows "\<exists>d2'. Exec sql d2 = (r, d2') \<and> Tables d2' = Tables d1'"
proof -
  have d: "d2 = framed (revision d2) (baseRevision d2) d1" using assms(1) by (simp add: framed_def)
  have "exec background sql 0 (framed a b d1) = map_prod id (framed a b) (exec background sql 0 d1)" for a b
    using exec_frame[of background sql 0] unfolding inFrame_def by blast
  from this[of "revision d2" "baseRevision d2"] d have "fst (exec background sql 0 d2) = fst (exec background sql 0 d1)" by (metis fst_map_prod id_apply)
  then have "fst (Exec sql d2) = r"
    using assms(2) by (auto simp: Exec_def ExecWithOptions_def background_def split: prod.splits)
  moreover have "Tables (snd (Exec sql d2)) = Tables d1'" using Exec_Tables[OF assms(1), of sql] assms(2) by simp
  ultimately show ?thesis by (metis prod.collapse)
qed

lemma yields_same: "yields sqls d0 d \<Longrightarrow> Tables d0 = Tables d0' \<Longrightarrow> Tables d = Tables d' \<Longrightarrow> yields sqls d0' d'"
proof (induction sqls arbitrary: d0 d0')
  case (Cons q qs)
  obtain d1 where d1: "applySQL q d0 = (None, d1)" using Cons.prems(1) by (auto simp: yields_def split: option.splits prod.splits)
  then obtain r where "Exec q d0 = (Inr r, d1)" by (auto simp: applySQL_None)
  with Exec_same[OF Cons.prems(2)] obtain d1' where d1': "applySQL q d0' = (None, d1')" "Tables d1 = Tables d1'" by (metis applySQL_None)
  have "yields qs d1 d" using Cons.prems(1) d1 applyAll_None[of applySQL 2 qs d1 _ 1] by (auto simp: yields_def numeral_2_eq_2)
  from Cons.IH[OF this d1'(2) Cons.prems(3)] d1'(1) show ?case
    using applyAll_None[of applySQL 2 qs d1' _ 1] by (auto simp: yields_def numeral_2_eq_2)
qed (simp add: yields_def)

lemma yields_append: "yields xs d0 d \<Longrightarrow> yields ys d d' \<Longrightarrow> yields (xs @ ys) d0 d'"
proof -
  assume x: "yields xs d0 d" and y: "yields ys d d'"
  from x obtain e where e: "applyAll applySQL 1 xs d0 = (None, e)" "Tables e = Tables d" by (auto simp: yields_def)
  have "yields ys e d'" by (rule yields_same[OF y]) (simp_all add: e)
  then show "yields (xs @ ys) d0 d'"
    using e applyAll_None[of applySQL "1 + length xs" ys e _ 1] by (auto simp: yields_def applyAll_append)
qed

lemma yields_one: "Exec sql d = (Inr r, d') \<Longrightarrow> yields [sql] d d'"
  by (auto simp: yields_def applySQL_def)

lemma yields_nil: "Tables d0 = Tables d \<Longrightarrow> yields [] d0 d"
  by (simp add: yields_def)

text \<open>A log with these records.\<close>

definition logged :: "database \<Rightarrow> string list \<Rightarrow> 'c server \<Rightarrow> bool" where
  "logged d0 pending srv \<longleftrightarrow>
     (\<exists>sqls. list_all recordFits (sqls @ pending) \<and> srvWal srv = logOf sqls \<and> yields (sqls @ pending) d0 (srvDb srv))"

text \<open>
  A session with an open transaction: as long as nobody wrote since it began, its image is what its recorded statements
  leave of the database.
\<close>

definition tracked :: "session \<Rightarrow> 'c server \<Rightarrow> bool" where
  "tracked s srv \<longleftrightarrow>
     list_all recordFits (seTxSQL s) \<and> list_all isWriteSQL (seTxSQL s) \<and>
     (\<forall>t. seTx s = Some t \<longrightarrow>
        unat (baseRevision t) \<le> unat (revision (srvDb srv)) \<and>
        (baseRevision t = revision (srvDb srv) \<longrightarrow> yields (seTxSQL s) (srvDb srv) t))"

lemma logged_replays:
  assumes "logged d0 [] srv"
  shows "\<exists>d'. replayLog inflate (Inr (Some (srvWal srv))) d0 = (None, d') \<and> Tables d' = Tables (srvDb srv)"
proof -
  obtain sqls d' where "list_all recordFits sqls" "srvWal srv = logOf sqls" "applyAll applySQL 1 sqls d0 = (None, d')" "Tables d' = Tables (srvDb srv)"
    using assms by (auto simp: logged_def yields_def)
  then show ?thesis using ReplayWAL_whole[of sqls inflate applySQL d0] by (simp add: replayLog_def)
qed

section \<open>Healthy disks\<close>

definition healthy :: "environment \<Rightarrow> bool" where
  "healthy env \<longleftrightarrow> (\<forall>n. dkOpen (disks env n) = None \<and> dkSync (disks env n) = None \<and> (\<forall>b. dkWrite (disks env n) b = (length b, None)))"

definition walConfig :: "'c config \<Rightarrow> bool" where
  "walConfig cf \<longleftrightarrow> cfMode cf = ''wal'' \<and> cfWriter cf \<noteq> Some False \<and> cfCluster cf = None \<and>
     QueryTimeout (cfLimits cf) = 0 \<and> MaxResultRows (cfLimits cf) = 0"

lemma persist_healthy:
  assumes "healthy env" "walConfig cf" "list_all recordFits sqls"
  shows "persistStatements env cf sqls img srv = (None, srv\<lparr>srvWal := srvWal srv @ logOf sqls, srvClock := Suc (srvClock srv)\<rparr>)"
proof -
  have "\<not> list_ex (\<lambda>sql. maxPayloadSize < int (length sql)) sqls" using assms(3) by (auto simp: list_ex_iff list_all_iff)
  then show ?thesis using assms
    by (cases "cfWriter cf") (auto simp: persistStatements_def appendLog_def Append_def AppendWALBatch_def healthy_def walConfig_def logOf_def Let_def)
qed

lemma statement_Exec: "walConfig cf \<Longrightarrow> ExecWithOptions (queryContext (cfLimits cf) env n) raw (MaxResultRows (cfLimits cf)) d = Exec raw d"
  by (simp add: walConfig_def queryContext_def Exec_def)

lemma tracked_same: "srvDb srv' = srvDb srv \<Longrightarrow> tracked s srv' = tracked s srv"
  by (simp add: tracked_def)

lemma tracked_newer: "unat (revision (srvDb srv)) < unat (revision (srvDb srv')) \<Longrightarrow> tracked s srv \<Longrightarrow> tracked s srv'"
  by (auto simp: tracked_def)

lemma tracked_ended: "tracked (s\<lparr>seTx := None, seTxSQL := []\<rparr>) srv"
  by (simp add: tracked_def)

lemma revision_up: "unat r + 1 < 2 ^ 64 \<Longrightarrow> unat (r + 1) = unat r + 1" for r :: "64 word"
  by (simp add: unat_word_ariths(1))

lemma Exec_write_revision: "Exec sql d = (Inr r, d') \<Longrightarrow> isWriteSQL sql \<Longrightarrow> revision d' = revision d + 1 \<and> baseRevision d' = baseRevision d"
  using Exec_frame[of sql d] by (simp add: isWriteSQL_def)

text \<open>What a step of a session leaves: a log that replays, the session and every other session tracked.\<close>

definition keeps :: "database \<Rightarrow> session \<Rightarrow> 'c server \<Rightarrow> session \<Rightarrow> 'c server \<Rightarrow> bool" where
  "keeps d0 s srv s' srv' \<longleftrightarrow>
     logged d0 (sePending s') srv' \<and> tracked s' srv' \<and> (\<forall>other. tracked other srv \<longrightarrow> tracked other srv') \<and> seBatch s' = seBatch s \<and>
     (seBatch s \<or> sePending s' = []) \<and> unat (revision (srvDb srv')) \<le> unat (revision (srvDb srv)) + 1"

definition ready :: "database \<Rightarrow> session \<Rightarrow> 'c server \<Rightarrow> bool" where
  "ready d0 s srv \<longleftrightarrow> logged d0 (sePending s) srv \<and> tracked s srv \<and> (seBatch s \<or> sePending s = [])"

lemma keeps_session:
  "ready d0 s srv \<Longrightarrow> srvDb srv' = srvDb srv \<Longrightarrow> srvWal srv' = srvWal srv \<Longrightarrow> tracked s' srv \<Longrightarrow> seBatch s' = seBatch s \<Longrightarrow>
   sePending s' = sePending s \<Longrightarrow> keeps d0 s srv s' srv'"
  using tracked_same[of srv' srv] by (auto simp: keeps_def ready_def logged_def)

lemma statement_in_tx:
  assumes cf: "walConfig cf" "recordFits raw" and s: "seTx s = Some t" and r: "ready d0 s srv"
    and st: "statement env cf raw s srv = (rep, s', srv')"
  shows "keeps d0 s srv s' srv'"
proof -
  obtain x d where x: "Exec raw t = (x, d)" by force
  have tr: "tracked s srv" using r by (simp add: ready_def)
  have failed: "x = Inl e \<Longrightarrow> d = t" for e using x Exec_failure[of raw t] by simp
  have read: "\<not> isWriteSQL raw \<Longrightarrow> d = t" using x Exec_read_only[of raw t] by (simp add: isWriteSQL_def)
  have st': "statement env cf raw s srv = (rep, s', srv') \<Longrightarrow> srvDb srv' = srvDb srv \<and> srvWal srv' = srvWal srv \<and> seBatch s' = seBatch s \<and> sePending s' = sePending s"
    using s x by (auto simp: statement_def Let_def active_def statement_Exec[OF cf(1)] split: sum.splits if_splits)
  consider (same) "s' = s\<lparr>seTx := Some d\<rparr>" "d = t" | (ended) "s' = s\<lparr>seTx := None, seTxSQL := []\<rparr>"
    | (wrote) res where "x = Inr res" "isWriteSQL raw" "s' = s\<lparr>seTx := Some d, seTxSQL := seTxSQL s @ [raw]\<rparr>"
    using st s x failed read by (cases x) (auto simp: statement_def Let_def active_def statement_Exec[OF cf(1)] split: if_splits)
  then have "tracked s' srv"
  proof cases
    case same
    then have "s' = s" using s by simp
    then show ?thesis using tr by simp
  next
    case wrote
    with x have b: "baseRevision d = baseRevision t" using Exec_write_revision by blast
    have "yields (seTxSQL s) (srvDb srv) t \<Longrightarrow> yields (seTxSQL s @ [raw]) (srvDb srv) d"
      using yields_append[OF _ yields_one] x wrote(1) by blast
    with tr b wrote s cf(2) show ?thesis by (auto simp: tracked_def)
  qed (simp add: tracked_ended)
  with st'[OF st] r show ?thesis by (intro keeps_session) auto
qed

lemma statement_direct:
  assumes env: "healthy env" "walConfig cf" "recordFits raw" and s: "seTx s = None" and r: "ready d0 s srv"
    and room: "unat (revision (srvDb srv)) + 1 < 2 ^ 64"
    and st: "statement env cf raw s srv = (rep, s', srv')"
  shows "keeps d0 s srv s' srv'"
proof -
  obtain x d where x: "Exec raw (srvDb srv) = (x, d)" by force
  note simps = statement_def Let_def active_def statement_Exec[OF env(2)] persist_healthy[OF env(1,2)] s x
  show ?thesis
  proof (cases "isWriteSQL raw \<and> (\<exists>res. x = Inr res)")
    case True
    then obtain res where w: "isWriteSQL raw" "x = Inr res" by blast
    have rev: "unat (revision d) = unat (revision (srvDb srv)) + 1" using Exec_write_revision w x revision_up[OF room] by simp
    have db: "srvDb srv' = d" "s' = (if seBatch s then s\<lparr>sePending := sePending s @ [raw]\<rparr> else s)"
      "srvWal srv' = (if seBatch s then srvWal srv else srvWal srv @ logOf [raw])"
      using st w env(3) by (auto simp: simps split: if_splits)
    have others: "tracked o' srv \<Longrightarrow> tracked o' srv'" for o' by (rule tracked_newer[of srv srv']) (simp_all add: db rev)
    obtain sqls where l: "list_all recordFits (sqls @ sePending s)" "srvWal srv = logOf sqls" "yields (sqls @ sePending s) d0 (srvDb srv)"
      using r by (auto simp: ready_def logged_def)
    have y: "yields (sqls @ sePending s @ [raw]) d0 d" using yields_append[OF l(3) yields_one] x w(2) by fastforce
    have "logged d0 (sePending s') srv'"
    proof (cases "seBatch s")
      case True
      with l y db env(3) show ?thesis by (auto simp: logged_def)
    next
      case False
      then have "sePending s = []" using r by (simp add: ready_def)
      with l y db False env(3) show ?thesis by (auto simp: logged_def intro!: exI[of _ "sqls @ [raw]"])
    qed
    moreover have "tracked s' srv'" using others[of s] r db(2) s by (auto simp: ready_def tracked_def)
    ultimately show ?thesis using others r db rev by (auto simp: keeps_def ready_def)
  next
    case False
    then have "d = srvDb srv" using x Exec_failure[of raw "srvDb srv"] Exec_read_only[of raw "srvDb srv"] by (cases x) (auto simp: isWriteSQL_def)
    with False have "srvDb srv' = srvDb srv" "srvWal srv' = srvWal srv" "s' = s"
      using st by (auto simp: simps split: sum.splits if_splits)
    with r show ?thesis by (intro keeps_session) (auto simp: ready_def)
  qed
qed

definition exactDb :: "database \<Rightarrow> bool" where
  "exactDb d \<longleftrightarrow> dbAll copyExact d \<and> mwf (Tables d)"

lemma exact_copy: "exactDb d \<Longrightarrow> Tables (cloneImage d) = Tables d"
  using Clone_exact[of d] by (simp add: exactDb_def Clone_def)

lemma begin_keeps:
  assumes "exactDb (srvDb srv)" "ready d0 s srv" "beginTx cf s srv = (rep, s')"
  shows "keeps d0 s srv s' srv"
proof (rule keeps_session[OF assms(2)])
  have "yields [] (srvDb srv) (Clone (srvDb srv))" using exact_copy[OF assms(1)] by (intro yields_nil) (simp add: Clone_def)
  then show "tracked s' srv"
    using assms(2,3) by (auto simp: beginTx_def Let_def ready_def tracked_def Clone_base split: if_splits)
qed (use assms(3) in \<open>auto simp: beginTx_def Let_def split: if_splits\<close>)

lemma rollback_keeps: "ready d0 s srv \<Longrightarrow> rollbackTx s = (rep, s') \<Longrightarrow> keeps d0 s srv s' srv"
  by (rule keeps_session) (auto simp: rollbackTx_def ready_def tracked_ended split: if_splits)

lemma commitImage_healthy:
  assumes "healthy env" "walConfig cf" "list_all recordFits stmts"
  shows "commitImage env cf stmts t srv =
    (if revision (srvDb srv) = baseRevision t then
       (None, srv\<lparr>srvWal := srvWal srv @ logOf stmts, srvClock := Suc (srvClock srv),
                  srvDb := (srvDb srv)\<lparr>Tables := Tables (cloneImage t), revision := revision (srvDb srv) + 1\<rparr>\<rparr>)
     else (Some (Msg ''transaction conflict: database changed since BEGIN''), srv))"
  by (simp add: commitImage_def persist_healthy[OF assms] CommitFrom_def replace_db_def Let_def)

lemma commitImage_keeps:
  assumes env: "healthy env" "walConfig cf" "list_all recordFits stmts"
    and img: "Tables (cloneImage t) = Tables t" "revision (srvDb srv) = baseRevision t \<Longrightarrow> yields stmts (srvDb srv) t"
    and l: "logged d0 [] srv" and room: "unat (revision (srvDb srv)) + 1 < 2 ^ 64"
    and c: "commitImage env cf stmts t srv = (err, srv')"
  shows "logged d0 [] srv' \<and> (\<forall>other. tracked other srv \<longrightarrow> tracked other srv') \<and>
    unat (revision (srvDb srv')) \<le> unat (revision (srvDb srv)) + 1 \<and> (err \<noteq> None \<longrightarrow> srv' = srv)"
proof (cases "revision (srvDb srv) = baseRevision t")
  case True
  with c have srv': "srvDb srv' = (srvDb srv)\<lparr>Tables := Tables t, revision := revision (srvDb srv) + 1\<rparr>"
    "srvWal srv' = srvWal srv @ logOf stmts" "err = None"
    by (auto simp: commitImage_healthy[OF env] img)
  have rev: "unat (revision (srvDb srv')) = unat (revision (srvDb srv)) + 1" using revision_up[OF room] srv' by simp
  obtain sqls where s: "list_all recordFits sqls" "srvWal srv = logOf sqls" "yields sqls d0 (srvDb srv)" using l by (auto simp: logged_def)
  have "yields (sqls @ stmts) d0 t" using yields_append[OF s(3) img(2)[OF True]] .
  then have "yields (sqls @ stmts) d0 (srvDb srv')" by (rule yields_same) (simp_all add: srv')
  with s env(3) srv' have "logged d0 [] srv'" by (auto simp: logged_def intro!: exI[of _ "sqls @ stmts"])
  moreover have "tracked other srv \<Longrightarrow> tracked other srv'" for other by (rule tracked_newer[of srv srv']) (simp_all add: rev)
  ultimately show ?thesis using rev srv' by simp
next
  case False
  with c l show ?thesis by (auto simp: commitImage_healthy[OF env])
qed

lemma commit_keeps:
  assumes env: "healthy env" "walConfig cf" and ex: "\<And>t. seTx s = Some t \<Longrightarrow> exactDb t"
    and r: "ready d0 s srv" "sePending s = []" and room: "unat (revision (srvDb srv)) + 1 < 2 ^ 64"
    and c: "commitTx env cf s srv = (rep, s', srv')"
  shows "keeps d0 s srv s' srv'"
proof (cases "seTx s")
  case None
  with c r show ?thesis by (auto simp: commitTx_def ready_def intro!: keeps_session)
next
  case (Some t)
  have tr: "list_all recordFits (seTxSQL s)" "writeStatements (seTxSQL s) = seTxSQL s"
    "revision (srvDb srv) = baseRevision t \<Longrightarrow> yields (seTxSQL s) (srvDb srv) t"
    using r(1) Some by (auto simp: ready_def tracked_def writeStatements_def list_all_iff)
  show ?thesis
  proof (cases "seTxSQL s = []")
    case True
    with c Some tr r show ?thesis by (auto simp: commitTx_def Let_def tracked_ended intro!: keeps_session)
  next
    case False
    obtain err srv1 where ci: "commitImage env cf (seTxSQL s) t srv = (err, srv1)" by force
    note k = commitImage_keeps[OF env tr(1) exact_copy[OF ex[OF Some]] tr(3) _ room ci, of d0]
    have "logged d0 [] srv" using r by (simp add: ready_def)
    moreover have "srv' = srv1" "s' = (if err = None then s\<lparr>seTx := None, seTxSQL := []\<rparr> else s)"
      using c Some tr(2) False ci by (auto simp: commitTx_def Let_def split: option.splits)
    ultimately show ?thesis using k r tracked_ended[of s] by (auto simp: keeps_def ready_def)
  qed
qed

lemma executeSQL_keeps:
  assumes env: "healthy env" "walConfig cf" "recordFits raw" and r: "ready d0 s srv"
    and room: "unat (revision (srvDb srv)) + 1 < 2 ^ 64"
    and b: "equalFold (TrimSpace raw) ''BEGIN'' \<Longrightarrow> exactDb (srvDb srv)"
    and c: "equalFold (TrimSpace raw) ''COMMIT'' \<Longrightarrow> sePending s = [] \<and> (\<forall>t. seTx s = Some t \<longrightarrow> exactDb t)"
    and e: "executeSQL env cf raw s srv = (rep, s', srv')"
  shows "keeps d0 s srv s' srv'"
proof -
  have cl: "cfCluster cf = None" using env(2) by (simp add: walConfig_def)
  consider (b) rep0 s0 where "equalFold (TrimSpace raw) ''BEGIN''" "beginTx cf s srv = (rep0, s0)" "s' = s0" "srv' = srv"
    | (r) rep0 s0 where "rollbackTx s = (rep0, s0)" "s' = s0" "srv' = srv"
    | (c) "equalFold (TrimSpace raw) ''COMMIT''" "commitTx env cf s srv = (rep, s', srv')"
    | (s) "statement env cf raw s srv = (rep, s', srv')"
    using e cl by (auto simp: executeSQL_def Let_def split: if_splits prod.splits)
  then show ?thesis
  proof cases
    case b
    then show ?thesis using begin_keeps[OF assms(6)[OF b(1)] r] by simp
  next
    case r
    then show ?thesis using rollback_keeps[OF assms(4)] by simp
  next
    case c
    then show ?thesis using commit_keeps[OF env(1,2) _ r _ room c(2)] assms(7)[OF c(1)] by blast
  next
    case s
    then show ?thesis using statement_in_tx[OF env(2,3) _ r s] statement_direct[OF env _ r room s] by (cases "seTx s") auto
  qed
qed

definition plainStatement :: "string \<Rightarrow> bool" where
  "plainStatement q \<longleftrightarrow> \<not> equalFold (TrimSpace q) ''BEGIN'' \<and> \<not> equalFold (TrimSpace q) ''COMMIT''"

lemma keeps_ready: "keeps d0 s srv s' srv' \<Longrightarrow> ready d0 s' srv'"
  by (auto simp: keeps_def ready_def)

lemma batchLoop_keeps:
  assumes "healthy env" "walConfig cf" "list_all recordFits sqls" "list_all plainStatement sqls" "ready d0 s srv"
    and "unat (revision (srvDb srv)) + length sqls < 2 ^ 64" "batchLoop env cf sqls out s srv = (out', s', srv')"
  shows "logged d0 (sePending s') srv' \<and> tracked s' srv' \<and> (\<forall>other. tracked other srv \<longrightarrow> tracked other srv') \<and> seBatch s' = seBatch s \<and>
    (seBatch s \<or> sePending s' = [])"
  using assms(3-)
proof (induction sqls arbitrary: out s srv)
  case Nil
  then show ?case by (auto simp: ready_def)
next
  case (Cons q qs)
  obtain rep s1 srv1 where e: "executeSQL env cf q s srv = (rep, s1, srv1)" by (cases "executeSQL env cf q s srv") auto
  have room: "unat (revision (srvDb srv)) + 1 < 2 ^ 64" using Cons.prems(4) by simp
  have k: "keeps d0 s srv s1 srv1"
    using Cons.prems(1,2) by (intro executeSQL_keeps[OF assms(1,2) _ Cons.prems(3) room _ _ e]) (auto simp: plainStatement_def)
  then have "unat (revision (srvDb srv1)) + length qs < 2 ^ 64" using Cons.prems(4) by (simp add: keeps_def)
  from Cons.IH[OF _ _ keeps_ready[OF k] this, of "out @ [rep]"] Cons.prems e k show ?case by (auto simp: keeps_def)
qed

lemma executeBatch_keeps:
  assumes "healthy env" "walConfig cf" "list_all recordFits sqls" "list_all plainStatement sqls" "ready d0 s srv" "sePending s = []"
    and "unat (revision (srvDb srv)) + length sqls < 2 ^ 64" "executeBatch env cf sqls s srv = (rep, s', srv')"
  shows "logged d0 [] srv' \<and> tracked s' srv' \<and> (\<forall>other. tracked other srv \<longrightarrow> tracked other srv') \<and> \<not> seBatch s' \<and> sePending s' = []"
proof -
  obtain out s1 srv1 where b: "batchLoop env cf sqls [] (s\<lparr>seBatch := True, sePending := []\<rparr>) srv = (out, s1, srv1)"
    by (cases "batchLoop env cf sqls [] (s\<lparr>seBatch := True, sePending := []\<rparr>) srv") auto
  have "ready d0 (s\<lparr>seBatch := True, sePending := []\<rparr>) srv" using assms(5,6) by (simp add: ready_def tracked_def)
  note k = batchLoop_keeps[OF assms(1-4) this assms(7) b]
  obtain e srv2 where p: "persistStatements env cf (sePending s1) (srvDb srv1) srv1 = (e, srv2)" by force
  have s': "s' = s1\<lparr>seBatch := False, sePending := []\<rparr>" "srv' = srv2" using assms(8) b p by (auto simp: executeBatch_def)
  obtain sqls' where l: "list_all recordFits (sqls' @ sePending s1)" "srvWal srv1 = logOf sqls'" "yields (sqls' @ sePending s1) d0 (srvDb srv1)"
    using k by (auto simp: logged_def)
  have srv2: "srv2 = srv1\<lparr>srvWal := srvWal srv1 @ logOf (sePending s1), srvClock := Suc (srvClock srv1)\<rparr>"
    using p persist_healthy[OF assms(1,2), of "sePending s1"] l(1) by simp
  have "logged d0 [] srv'" unfolding logged_def using l s' srv2 by (intro exI[of _ "sqls' @ sePending s1"]) simp
  moreover have same: "tracked o' srv' = tracked o' srv1" for o' using s' srv2 by (intro tracked_same) simp
  moreover have "tracked s' srv'" unfolding same using k s' by (simp add: tracked_def)
  ultimately show ?thesis using k s' by simp
qed

section \<open>Atomic batches\<close>

lemma atomicLoop_spec:
  assumes "walConfig cf" "atomicLoop env (cfLimits cf) n i sqls c ws out = Inr (c', ws', out')"
  shows "c' = run sqls c \<and> ws' = ws @ writeStatements sqls \<and> yields (writeStatements sqls) c c' \<and> length out' = length out + length sqls \<and>
    baseRevision c' = baseRevision c"
  using assms(2)
proof (induction sqls arbitrary: n i c ws out)
  case Nil
  then show ?case by (simp add: run_def writeStatements_def yields_nil)
next
  case (Cons q qs)
  obtain res c1 where x: "Exec q c = (Inr res, c1)"
    using Cons.prems statement_Exec[OF assms(1), of env n q c] by (auto split: prod.splits sum.splits)
  have "atomicLoop env (cfLimits cf) (Suc n) (Suc i) qs c1 (if isWriteSQL q then ws @ [q] else ws) (out @ [ResultReply res]) = Inr (c', ws', out')"
    using Cons.prems statement_Exec[OF assms(1), of env n q c] x by simp
  note IH = Cons.IH[OF this]
  have "yields (writeStatements (q # qs)) c c'"
  proof (cases "isWriteSQL q")
    case True
    with IH yields_append[OF yields_one[OF x], of "writeStatements qs" c'] show ?thesis by (auto simp: writeStatements_def)
  next
    case False
    then have "c1 = c" using Exec_read_only[of q c] x by (simp add: isWriteSQL_def)
    with False IH show ?thesis by (auto simp: writeStatements_def)
  qed
  with IH x Exec_frame(1)[of q c] show ?case by (auto simp: run_Cons writeStatements_def)
qed

lemma executeAtomicBatch_keeps:
  assumes env: "healthy env" "walConfig cf" "list_all recordFits sqls" and ex: "exactDb (srvDb srv)" "exactDb (run sqls (srvDb srv))"
    and l: "logged d0 [] srv" and room: "unat (revision (srvDb srv)) + 1 < 2 ^ 64"
    and a: "executeAtomicBatch env cf sqls s srv = (rep, srv')"
  shows "logged d0 [] srv' \<and> (\<forall>other. tracked other srv \<longrightarrow> tracked other srv')"
proof -
  let ?srv1 = "srv\<lparr>srvClock := srvClock srv + length sqls\<rparr>"
  have l1: "logged d0 [] ?srv1" using l by (simp add: logged_def)
  have same: "tracked o' ?srv1 = tracked o' srv" for o' by (intro tracked_same) simp
  have t: "Tables (Clone (srvDb srv)) = Tables (srvDb srv)" using exact_copy[OF ex(1)] by (simp add: Clone_def)
  consider "srv' = srv" | "srv' = ?srv1"
    | c ws out err where "atomicLoop env (cfLimits cf) (srvClock srv) 0 sqls (Clone (srvDb srv)) [] [] = Inr (c, ws, out)"
        "commitImage env cf ws c ?srv1 = (err, srv')"
    using a by (auto simp: executeAtomicBatch_def Let_def split: if_splits sum.splits prod.splits option.splits)
  then show ?thesis
  proof cases
    case 3
    note spec = atomicLoop_spec[OF env(2) 3(1)]
    have tc: "Tables c = Tables (run sqls (srvDb srv))" using spec run_Tables[OF t] by simp
    have fits: "list_all recordFits ws" using spec env(3) by (auto simp: writeStatements_def list_all_iff)
    have "Tables (cloneImage c) = Tables c" using cloneImage_Tables[OF tc] exact_copy[OF ex(2)] tc by simp
    moreover have "yields ws (srvDb ?srv1) c" using spec yields_same[of ws "Clone (srvDb srv)" c "srvDb ?srv1" c] t by auto
    ultimately have "logged d0 [] srv' \<and> (\<forall>other. tracked other ?srv1 \<longrightarrow> tracked other srv')"
      using commitImage_keeps[OF env(1,2) fits _ _ l1 _ 3(2)] room by simp
    then show ?thesis using same by simp
  qed (use l l1 same in auto)
qed

section \<open>Requests\<close>

lemma equalFold_length: "equalFold s k \<Longrightarrow> length s = length k"
  by (induction s k rule: equalFold.induct) auto

definition idle :: "session \<Rightarrow> bool" where
  "idle s \<longleftrightarrow> \<not> seBatch s \<and> sePending s = []"

text \<open>The databases a request copies, and the statements it may log.\<close>

definition boundSQL :: "request \<Rightarrow> string" where
  "boundSQL q = (case BindParams (qSQL q) (qParams q) of Inr sql \<Rightarrow> sql | Inl _ \<Rightarrow> [])"

definition copied :: "request \<Rightarrow> session \<Rightarrow> 'c server \<Rightarrow> database list" where
  "copied q s srv =
     (if qSQLs q = [] then
        (if equalFold (TrimSpace (boundSQL q)) ''BEGIN'' then [srvDb srv]
         else if equalFold (TrimSpace (boundSQL q)) ''COMMIT'' then (case seTx s of Some t \<Rightarrow> [t] | None \<Rightarrow> [])
         else [])
      else if qAtomic q then [srvDb srv, run (qSQLs q) (srvDb srv)]
      else [])"

definition loggable :: "request \<Rightarrow> bool" where
  "loggable q \<longleftrightarrow>
     (if qSQLs q = [] then recordFits (boundSQL q)
      else list_all recordFits (qSQLs q) \<and> (qAtomic q \<or> list_all plainStatement (qSQLs q)))"

lemma executeRequest_keeps:
  assumes env: "healthy env" "walConfig cf" and s: "idle s" "logged d0 [] srv" "tracked s srv"
    and q: "loggable q" "\<forall>d \<in> set (copied q s srv). exactDb d" "unat (revision (srvDb srv)) + length (qSQLs q) + 1 < 2 ^ 64"
    and e: "executeRequest env cf q s srv = (rep, s', srv')"
  shows "idle s' \<and> logged d0 [] srv' \<and> tracked s' srv' \<and> (\<forall>other. tracked other srv \<longrightarrow> tracked other srv')"
proof -
  have r: "ready d0 s srv" using s by (simp add: ready_def idle_def)
  have cl: "cfCluster cf = None" using env(2) by (simp add: walConfig_def)
  consider (none) "s' = s" "srv' = srv"
    | (sql) "qSQLs q = []" "executeSQL env cf (boundSQL q) s srv = (rep, s', srv')"
    | (atomic) "qSQLs q \<noteq> []" "qAtomic q" "executeAtomicBatch env cf (qSQLs q) s srv = (rep, srv')" "s' = s"
    | (batch) "qSQLs q \<noteq> []" "\<not> qAtomic q" "executeBatch env cf (qSQLs q) s srv = (rep, s', srv')"
  proof (cases "qSQLs q = []")
    case True
    show ?thesis
    proof (cases "BindParams (qSQL q) (qParams q)")
      case (Inl err)
      with e True that(1) show ?thesis by (simp add: executeRequest_def)
    next
      case (Inr sql)
      with e True that(1,2) show ?thesis by (cases "admission env (srvClock srv)") (simp_all add: executeRequest_def boundSQL_def)
    qed
  next
    case False
    let ?lim = "MaxBatchStatements (cfLimits cf)"
    show ?thesis
    proof (cases "qParams q = [] \<and> admission env (srvClock srv) = None \<and> \<not> (?lim > 0 \<and> int (length (qSQLs q)) > ?lim)")
      case True
      have "executeRequest env cf q s srv = (if qAtomic q then (case executeAtomicBatch env cf (qSQLs q) s srv of (r, srv') \<Rightarrow> (r, s, srv'))
          else executeBatch env cf (qSQLs q) s srv)"
        using True False by (auto simp: executeRequest_def Let_def cl)
      with e have "(rep, s', srv') = (if qAtomic q then (case executeAtomicBatch env cf (qSQLs q) s srv of (r, srv') \<Rightarrow> (r, s, srv'))
          else executeBatch env cf (qSQLs q) s srv)" by (simp only:)
      then show ?thesis using that(3,4) False by (cases "qAtomic q") (simp_all split: prod.splits)
    next
      case False
      with \<open>qSQLs q \<noteq> []\<close> have "snd (executeRequest env cf q s srv) = (s, srv)"
        by (cases "admission env (srvClock srv)") (auto simp: executeRequest_def Let_def)
      then show ?thesis using that(1) e by simp
    qed
  qed
  then show ?thesis
  proof cases
    case none
    then show ?thesis using s by simp
  next
    case sql
    have bc: "\<not> (equalFold (TrimSpace (boundSQL q)) ''COMMIT'' \<and> equalFold (TrimSpace (boundSQL q)) ''BEGIN'')"
      using equalFold_length[of "TrimSpace (boundSQL q)" "''COMMIT''"] equalFold_length[of "TrimSpace (boundSQL q)" "''BEGIN''"] by auto
    have "keeps d0 s srv s' srv'"
      using q sql s(1) bc by (intro executeSQL_keeps[OF env _ r _ _ _ sql(2)])
        (auto simp: loggable_def copied_def idle_def plainStatement_def split: if_splits)
    then show ?thesis using s(1) by (auto simp: keeps_def idle_def)
  next
    case atomic
    then show ?thesis
      using executeAtomicBatch_keeps[OF env _ _ _ s(2) _ atomic(3)] q s by (auto simp: loggable_def copied_def)
  next
    case batch
    then show ?thesis
      using executeBatch_keeps[OF env _ _ r _ _ batch(3)] q s by (auto simp: loggable_def idle_def)
  qed
qed

text \<open>A run of a server: sessions send requests, one after the other.\<close>

inductive served :: "environment \<Rightarrow> 'c config \<Rightarrow> database \<Rightarrow> session list \<Rightarrow> 'c server \<Rightarrow> bool"
  for env :: environment and cf :: "'c config" and d0 :: database where
  start: "srvDb srv = d0 \<Longrightarrow> srvWal srv = [] \<Longrightarrow> served env cf d0 [] srv"
| connect: "served env cf d0 ss srv \<Longrightarrow> served env cf d0 (ss @ [newSession]) srv"
| answer: "served env cf d0 ss srv \<Longrightarrow> i < length ss \<Longrightarrow> loggable q \<Longrightarrow> \<forall>d \<in> set (copied q (ss ! i) srv). exactDb d \<Longrightarrow>
    unat (revision (srvDb srv)) + length (qSQLs q) + 1 < 2 ^ 64 \<Longrightarrow>
    executeRequest env cf q (ss ! i) srv = (rep, s', srv') \<Longrightarrow> served env cf d0 (ss[i := s']) srv'"

lemma served_logged:
  assumes "served env cf d0 ss srv" "healthy env" "walConfig cf"
  shows "logged d0 [] srv \<and> (\<forall>s \<in> set ss. idle s \<and> tracked s srv)"
  using assms(1)
proof (induction rule: served.induct)
  case (start srv)
  then show ?case by (auto simp: logged_def yields_nil intro!: exI[of _ "[]"])
next
  case (connect ss srv)
  then show ?case by (auto simp: newSession_def idle_def tracked_def)
next
  case (answer ss srv i q rep s' srv')
  then have "idle (ss ! i)" "tracked (ss ! i) srv" by auto
  note k = executeRequest_keeps[OF assms(2,3) this(1) _ this(2) answer.hyps(3-6), of d0]
  from k answer.IH show ?case by (auto dest!: set_update_subset_insert[THEN subsetD])
qed


section \<open>Atomic batches, isolation\<close>

text \<open>The statements of a batch, all of them or none.\<close>

fun execAll :: "(nat \<Rightarrow> ctx) \<Rightarrow> int \<Rightarrow> nat \<Rightarrow> string list \<Rightarrow> database \<Rightarrow> (result list \<times> database) option" where
  "execAll ctxs m n [] d = Some ([], d)"
| "execAll ctxs m n (q # qs) d =
     (case ExecWithOptions (ctxs n) q m d of
        (Inl e, _) \<Rightarrow> None
      | (Inr r, d') \<Rightarrow> (case execAll ctxs m (Suc n) qs d' of None \<Rightarrow> None | Some (rs, d'') \<Rightarrow> Some (r # rs, d'')))"

lemma atomicLoop_execAll:
  "case execAll (queryContext l env) (MaxResultRows l) n sqls c of
     None \<Rightarrow> \<exists>e. atomicLoop env l n i sqls c ws out = Inl e
   | Some (rs, c') \<Rightarrow> atomicLoop env l n i sqls c ws out = Inr (c', ws @ writeStatements sqls, out @ map ResultReply rs)"
proof (induction sqls arbitrary: n i c ws out)
  case (Cons q qs)
  show ?case
  proof (cases "ExecWithOptions (queryContext l env n) q (MaxResultRows l) c")
    case (Pair x c1)
    show ?thesis
    proof (cases x)
      case (Inr r)
      from Cons[where n = "Suc n" and c = c1 and i = "Suc i" and ws = "if isWriteSQL q then ws @ [q] else ws" and out = "out @ [ResultReply r]"] Pair Inr
      show ?thesis by (auto simp: writeStatements_def split: option.splits prod.splits if_splits)
    qed (simp add: Pair)
  qed
qed (simp add: writeStatements_def)

lemma execAll_base: "execAll ctxs m n sqls d = Some (rs, d') \<Longrightarrow> baseRevision d' = baseRevision d"
proof (induction sqls arbitrary: n d rs)
  case (Cons q qs)
  then obtain r d1 rs' where x: "ExecWithOptions (ctxs n) q m d = (Inr r, d1)" "execAll ctxs m (Suc n) qs d1 = Some (rs', d')"
    by (auto split: prod.splits sum.splits option.splits)
  have "baseRevision d1 = baseRevision d"
    using x(1) inFrame_same[OF exec_frame, of "ctxs n" q m d] by (auto simp: ExecWithOptions_def split: option.splits prod.splits if_splits)
  with Cons.IH[OF x(2)] show ?case by simp
qed simp

lemma persist_db [simp]: "persistStatements env cf sqls img srv = (e, srv') \<Longrightarrow> srvDb srv' = srvDb srv"
  by (auto simp: persistStatements_def appendLog_def saveSnapshot_def Let_def split: prod.splits if_splits sum.splits option.splits)

lemma commitImage_cases:
  assumes "commitImage env cf ws c srv = (err, srv')"
  shows "(err = None \<and> srvDb srv' = (srvDb srv)\<lparr>Tables := Tables (cloneImage c), revision := revision (srvDb srv) + 1\<rparr> \<and>
      revision (srvDb srv) = baseRevision c) \<or> (err \<noteq> None \<and> srvDb srv' = srvDb srv)"
  using assms by (auto simp: commitImage_def CommitFrom_def replace_db_def Let_def split: prod.splits if_splits option.splits)



text \<open>The key a request supplies, under either name.\<close>

definition suppliedKey :: "request \<Rightarrow> string" where
  "suppliedKey q = (if qAuth q = [] then qAuthKey q else qAuth q)"

lemma readRequest_parsed:
  assumes "readRequest parse m r = Inr (q, rest)"
  shows "\<exists>p q0. parse p = Inr q0 \<and> qAuth q = suppliedKey q0"
proof -
  obtain p q0 where "parse p = Inr q0" "q = (if qAuth q0 = [] \<and> qAuthKey q0 \<noteq> [] then q0\<lparr>qAuth := qAuthKey q0\<rparr> else q0)\<lparr>qAuthKey := []\<rparr>"
    using assms by (auto simp: readRequest_def Let_def split: if_splits sum.splits prod.splits)
  then show ?thesis by (intro exI[of _ p] exI[of _ q0]) (auto simp: suppliedKey_def)
qed

text \<open>
  A connection that never supplies the key gets nothing executed: the server keeps its state and every answer is
  a ping answer or a refusal.
\<close>

theorem wrong_key_runs_nothing:
  assumes "authKey \<noteq> []"
    and "\<And>p q. parse p = Inr q \<Longrightarrow> suppliedKey q \<noteq> authKey"
  shows "snd (HandleWithOptions env cf parse authKey lim r srv) = srv \<and>
    set (fst (HandleWithOptions env cf parse authKey lim r srv)) \<subseteq>
      {pong, unauthorized, ErrorReply (Msg ''connection refused: server at connection limit'')}"
proof -
  have "snd (serve env cf parse authKey n r s srv) = srv \<and> set (fst (serve env cf parse authKey n r s srv)) \<subseteq> {pong, unauthorized}" for n s
  proof (induction "length r" arbitrary: n r s rule: less_induct)
    case less
    show ?case
    proof (cases "readRequest parse (MaxRequestBytes (cfLimits cf)) r")
      case (Inl e)
      then show ?thesis by (subst (1 2) serve.simps) simp
    next
      case (Inr qr)
      obtain q rest where qr: "readRequest parse (MaxRequestBytes (cfLimits cf)) r = Inr (q, rest)" using Inr by (cases qr) auto
      obtain p q0 where p: "parse p = Inr q0" "qAuth q = suppliedKey q0" using readRequest_parsed[OF qr] by blast
      have na: "\<not> checkAuth (qAuth q) authKey" using assms(2)[OF p(1)] p(2) assms(1) by (simp add: checkAuth_def)
      from less[OF readRequest_shorter[OF qr], of "Suc n" s] qr na show ?thesis
        by (subst (1 2) serve.simps) (auto split: prod.splits)
    qed
  qed
  then show ?thesis by (auto simp: HandleWithOptions_def)
qed

section \<open>Admission\<close>

text \<open>The connections and queries that hold a slot, with every interleaving of their steps.\<close>

inductive admitted :: "Limits \<Rightarrow> Limiter option \<Rightarrow> nat \<Rightarrow> nat \<Rightarrow> bool" for l :: Limits where
  fresh: "admitted l (Some (NewLimiter l)) 0 0"
| conn: "admitted l lim c q \<Longrightarrow> AcquireConn lim = (ok, lim') \<Longrightarrow> admitted l lim' (if ok then c + 1 else c) q"
| leave: "admitted l lim (Suc c) q \<Longrightarrow> ReleaseConn lim = Some lim' \<Longrightarrow> admitted l lim' c q"
| query: "admitted l lim c q \<Longrightarrow> AcquireQuery slot fired lim = Some (err, lim') \<Longrightarrow> admitted l lim' c (if err = None then q + 1 else q)"
| finish: "admitted l lim c (Suc q) \<Longrightarrow> ReleaseQuery lim = Some lim' \<Longrightarrow> admitted l lim' c q"

definition slots_ok :: "int \<Rightarrow> (nat \<times> nat) option \<Rightarrow> nat \<Rightarrow> bool" where
  "slots_ok cap sem used \<longleftrightarrow> sem = (if cap > 0 then Some (nat cap, used) else None) \<and> (cap > 0 \<longrightarrow> int used \<le> cap)"

lemma admitted_slots:
  assumes "admitted l lim c q"
  shows "\<exists>x. lim = Some x \<and> slots_ok (MaxConnections l) (connSem x) c \<and> slots_ok (MaxInflightQueries l) (querySem x) q"
  using assms
proof (induction rule: admitted.induct)
  case fresh
  then show ?case by (simp add: NewLimiter_def slots_ok_def semOf_def)
next
  case (conn lim c q ok lim')
  then show ?case by (auto simp: AcquireConn_def slots_ok_def split: if_splits)
next
  case (leave lim c q lim')
  then show ?case by (auto simp: ReleaseConn_def slots_ok_def split: if_splits)
next
  case (query lim c q slot fired err lim')
  then show ?case by (auto simp: AcquireQuery_def slots_ok_def split: if_splits wait.splits)
next
  case (finish lim c q lim')
  then show ?case by (auto simp: ReleaseQuery_def slots_ok_def split: if_splits)
qed

text \<open>
  C30: under every interleaving the connections and the running queries stay within their limits, a connection is refused
  exactly at the limit, and a holder can always give its slot back.
\<close>

theorem admission_is_bounded:
  assumes "admitted l lim c q"
  shows "(MaxConnections l > 0 \<longrightarrow> int c \<le> MaxConnections l) \<and> (MaxInflightQueries l > 0 \<longrightarrow> int q \<le> MaxInflightQueries l) \<and>
    (c > 0 \<longrightarrow> ReleaseConn lim \<noteq> None) \<and> (q > 0 \<longrightarrow> ReleaseQuery lim \<noteq> None) \<and>
    (MaxConnections l > 0 \<longrightarrow> (fst (AcquireConn lim) \<longleftrightarrow> int c < MaxConnections l))"
  using admitted_slots[OF assms] by (auto simp: slots_ok_def ReleaseConn_def ReleaseQuery_def AcquireConn_def split: if_splits)

section \<open>Instances\<close>

definition noLimits :: Limits where
  "noLimits = \<lparr>QueryTimeout = 0, MaxResultRows = 0, MaxResultBytes = 0, MaxInflightQueries = 0, AcquireTimeout = 0, MaxConnections = 0,
               MaxBatchStatements = 0, MaxTxStatements = 0, MaxTxDatabaseRows = 0, MaxRequestBytes = 0\<rparr>"

definition calmEnv :: environment where
  "calmEnv = \<lparr>deadline = (\<lambda>_. background), disks = (\<lambda>_. \<lparr>dkOpen = None, dkWrite = (\<lambda>b. (length b, None)), dkSync = None, dkFiles = calmOs\<rparr>),
              admission = (\<lambda>_. None), sent = (\<lambda>_. True), marshalDb = (\<lambda>_. Inr ''{}''), deflateDb = Inr\<rparr>"

definition walCf :: "unit config" where
  "walCf = \<lparr>cfMode = ''wal'', cfLimits = noLimits, cfWriter = Some True, cfCluster = None\<rparr>"

definition emptyServer :: "unit server" where
  "emptyServer = \<lparr>srvDb = newDatabase, srvWal = [], srvFiles = Map.empty, srvClock = 0, srvCluster = ()\<rparr>"

definition oneSQL :: "string \<Rightarrow> request" where
  "oneSQL sql = \<lparr>qSQL = sql, qSQLs = [], qParams = [], qAuth = [], qAuthKey = [], qAtomic = False, qPing = False\<rparr>"

lemma calm: "healthy calmEnv" "walConfig walCf"
  by (simp_all add: healthy_def calmEnv_def walConfig_def walCf_def noLimits_def)


text \<open>
  A batch that is not atomic logs the statements of a transaction it contains at COMMIT, before the statements that ran
  in front of it: the log is out of order and does not replay.
\<close>

definition createT :: string where "createT = ''CREATE TABLE t (id INT)''"
definition insertT :: string where "insertT = ''INSERT INTO t VALUES (1)''"

lemma fits_T: "recordFits createT" "recordFits insertT"
  by (simp_all add: createT_def insertT_def maxPayloadSize_def)

lemma replay_fails: "fst (replayLog (\<lambda>z n. Inflated z) (Inr (Some (logOf [insertT, createT]))) newDatabase) \<noteq> None"
proof -
  have "isl (fst (Exec insertT newDatabase)) = True" by code_simp
  then obtain e where "fst (applySQL insertT newDatabase) = Some e"
    by (cases "Exec insertT newDatabase"; cases "fst (Exec insertT newDatabase)") (auto simp: applySQL_def)
  then show "fst (replayLog (\<lambda>z n. Inflated z) (Inr (Some (logOf [insertT, createT]))) newDatabase) \<noteq> None"
    using ReplayWAL_whole[of "[insertT, createT]" "\<lambda>z n. Inflated z" applySQL newDatabase] fits_T
    by (simp add: replayLog_def del: logOf_simps split: prod.splits option.splits)
qed

lemma batch_commit_reorders_log:
  "case executeBatch calmEnv walCf [createT, ''BEGIN'', insertT, ''COMMIT''] newSession emptyServer of
     (rep, s, srv) \<Rightarrow>
       srvWal srv = logOf [insertT, createT] \<and> fst (replayLog (\<lambda>z n. Inflated z) (Inr (Some (srvWal srv))) newDatabase) \<noteq> None"
proof -
  define d1 where "d1 = snd (Exec createT newDatabase)"
  define d2 where "d2 = snd (Exec insertT (Clone d1))"
  have kw: "equalFold (TrimSpace createT) ''BEGIN'' = False" "equalFold (TrimSpace createT) ''ROLLBACK'' = False"
    "equalFold (TrimSpace createT) ''COMMIT'' = False" "equalFold (TrimSpace insertT) ''BEGIN'' = False"
    "equalFold (TrimSpace insertT) ''ROLLBACK'' = False" "equalFold (TrimSpace insertT) ''COMMIT'' = False"
    "equalFold (TrimSpace ''BEGIN'') ''BEGIN'' = True" "equalFold (TrimSpace ''COMMIT'') ''COMMIT'' = True"
    "equalFold (TrimSpace ''COMMIT'') ''BEGIN'' = False" "equalFold (TrimSpace ''COMMIT'') ''ROLLBACK'' = False"
    "isWriteSQL createT" "isWriteSQL insertT" by code_simp+
  have "isl (fst (Exec createT newDatabase)) = False" "isl (fst (Exec insertT (Clone (snd (Exec createT newDatabase))))) = False" by code_simp+
  then obtain r1 r2 where ex: "Exec createT newDatabase = (Inr r1, d1)" "Exec insertT (Clone d1) = (Inr r2, d2)"
    unfolding d1_def d2_def by (metis isl_def obj_sumE prod.collapse)
  have rev: "baseRevision d2 = revision d1" using Exec_frame(1)[of insertT "Clone d1"] by (simp add: d2_def Clone_base)
  note fits = fits_T
  note st = statement_def Let_def active_def statement_Exec[OF calm(2)] ex kw
  have cl: "cfCluster walCf = None" "MaxTxStatements (cfLimits walCf) = 0" "MaxTxDatabaseRows (cfLimits walCf) = 0" by (simp_all add: walCf_def noLimits_def)
  have db: "srvDb emptyServer = newDatabase" "srvWal emptyServer = []" "seTx newSession = None" by (simp_all add: emptyServer_def newSession_def)
  let ?s0 = "newSession\<lparr>seBatch := True, sePending := []\<rparr>"
  obtain s1 srv1 where e1: "executeSQL calmEnv walCf createT ?s0 emptyServer = (ResultReply r1, s1, srv1)"
    "seTx s1 = None" "sePending s1 = [createT]" "srvDb srv1 = d1" "srvWal srv1 = []"
    by (simp add: executeSQL_def cl st db)
  obtain s2 where e2: "executeSQL calmEnv walCf ''BEGIN'' s1 srv1 = (MessageReply ''BEGIN ok'', s2, srv1)"
    "seTx s2 = Some (Clone d1)" "seTxSQL s2 = []" "sePending s2 = [createT]"
    by (simp add: executeSQL_def cl kw beginTx_def e1 Let_def)
  obtain s3 srv3 where e3: "executeSQL calmEnv walCf insertT s2 srv1 = (ResultReply r2, s3, srv3)" "seTx s3 = Some d2" "seTxSQL s3 = [insertT]"
    "sePending s3 = [createT]" "srvDb srv3 = d1" "srvWal srv3 = []"
    by (simp add: executeSQL_def cl st e1 e2)
  obtain s4 srv4 where e4: "executeSQL calmEnv walCf ''COMMIT'' s3 srv3 = (MessageReply ''COMMIT ok'', s4, srv4)" "srvWal srv4 = logOf [insertT]"
    "sePending s4 = [createT]"
    using fits(2) by (simp add: executeSQL_def cl kw commitTx_def writeStatements_def commitImage_healthy[OF calm] rev e3 Let_def)
  obtain rep s srv where b: "executeBatch calmEnv walCf [createT, ''BEGIN'', insertT, ''COMMIT''] newSession emptyServer = (rep, s, srv)"
    "srvWal srv = logOf [insertT, createT]"
    using fits(1) by (simp add: executeBatch_def e1(1) e2(1) e3(1) e4 persist_healthy[OF calm])
  then show ?thesis using b replay_fails by simp
qed

theorem wrong_key_runs_nothing_witness:
  "snd (HandleWithOptions calmEnv walCf (\<lambda>p. Inr (oneSQL p)) ''secret'' None ([CHR 0x00, CHR 0x00, CHR 0x00, CHR 0x01] @ ''x'') emptyServer) = emptyServer \<and>
   fst (HandleWithOptions calmEnv walCf (\<lambda>p. Inr (oneSQL p)) ''secret'' None ([CHR 0x00, CHR 0x00, CHR 0x00, CHR 0x01] @ ''x'') emptyServer) = [unauthorized]"
proof -
  let ?h = "HandleWithOptions calmEnv walCf (\<lambda>p. Inr (oneSQL p)) ''secret'' None ([CHR 0x00, CHR 0x00, CHR 0x00, CHR 0x01] @ ''x'') emptyServer"
  have "fst ?h = [unauthorized]" by code_simp
  moreover have "snd ?h = emptyServer" using wrong_key_runs_nothing[of "''secret''" "\<lambda>p. Inr (oneSQL p)" calmEnv walCf] by (simp add: suppliedKey_def oneSQL_def)
  ultimately show ?thesis by blast
qed


theorem admission_is_bounded_witness:
  "\<exists>lim. admitted (noLimits\<lparr>MaxConnections := 1\<rparr>) lim 1 0 \<and> ReleaseConn lim \<noteq> None \<and> \<not> fst (AcquireConn lim)"
proof -
  let ?l = "noLimits\<lparr>MaxConnections := 1\<rparr>"
  obtain ok lim where a: "AcquireConn (Some (NewLimiter ?l)) = (ok, lim)" by force
  then have ok by (auto simp: AcquireConn_def NewLimiter_def semOf_def split: if_splits)
  with admitted.conn[OF admitted.fresh a] have ad: "admitted ?l lim 1 0" by simp
  from admission_is_bounded[OF this] ad show ?thesis by auto
qed

text \<open>
  Two sessions outside a transaction: the statements run one after the other, the appends to the log are made after them
  and without a common lock, so they can be made in the other order.
\<close>

lemma autocommit_log_can_invert:
  "let d1 = snd (Exec createT newDatabase); d2 = snd (Exec insertT d1); srv = emptyServer\<lparr>srvDb := d2\<rparr>;
       srv1 = snd (persistStatements calmEnv walCf [insertT] d2 srv); srv2 = snd (persistStatements calmEnv walCf [createT] d2 srv1)
   in srvWal srv2 = logOf [insertT, createT] \<and> fst (replayLog (\<lambda>z n. Inflated z) (Inr (Some (srvWal srv2))) newDatabase) \<noteq> None"
proof -
  note fits = fits_T
  have "srvWal (snd (persistStatements calmEnv walCf [createT] d (snd (persistStatements calmEnv walCf [insertT] d (emptyServer\<lparr>srvDb := d\<rparr>))))) =
      logOf [insertT, createT]" for d
    using fits by (simp add: persist_healthy[OF calm] emptyServer_def)
  with replay_fails show ?thesis by (simp add: Let_def del: logOf_simps)
qed

end
