(* ===== verification/Cluster.thy ===== *)
theory Cluster
  imports Durability
begin

text \<open>
  The replicated state of a cluster node: the errors of \<^verbatim>\<open>internal/cluster/errors.go\<close>, the range directory of
  \<^verbatim>\<open>ranges.go\<close>, the log entries of \<^verbatim>\<open>fsm.go\<close> and the state machine of \<^verbatim>\<open>state.go\<close> that
  applies them to the database, the directory and the side copy of the write-ahead log. Maps are association lists in
  the order \<^verbatim>\<open>range\<close> would visit them; locks are left out, one entry is one step.
\<close>

declare map_of_eq_Some_iff [simp del] Some_eq_map_of_iff [simp del]

section \<open>Errors of the cluster (errors.go)\<close>

datatype code =
    CodeNotFound | CodeUnavailable | CodeTimeout | CodeVersionMismatch | CodeCorruptMetadata | CodeClusterMismatch
  | CodeNotImplemented | CodeNoQuorum | CodeNoLeader | CodeShutdown | CodeInvalidArgument | CodePersist | CodeTransport
  | CodeRangeNotFound | CodeDurabilityUnsure

definition codeText :: "code \<Rightarrow> string" where
  "codeText c =
     (case c of
        CodeNotFound \<Rightarrow> ''not_found'' | CodeUnavailable \<Rightarrow> ''unavailable'' | CodeTimeout \<Rightarrow> ''timeout''
      | CodeVersionMismatch \<Rightarrow> ''version_mismatch'' | CodeCorruptMetadata \<Rightarrow> ''corrupt_metadata''
      | CodeClusterMismatch \<Rightarrow> ''cluster_mismatch'' | CodeNotImplemented \<Rightarrow> ''not_implemented''
      | CodeNoQuorum \<Rightarrow> ''no_quorum'' | CodeNoLeader \<Rightarrow> ''no_leader'' | CodeShutdown \<Rightarrow> ''shutdown''
      | CodeInvalidArgument \<Rightarrow> ''invalid_argument'' | CodePersist \<Rightarrow> ''persist'' | CodeTransport \<Rightarrow> ''transport''
      | CodeRangeNotFound \<Rightarrow> ''range_not_found'' | CodeDurabilityUnsure \<Rightarrow> ''durability_unsure'')"

record clusterError =
  ceCode :: code
  ceMessage :: error
  ceNodeID :: string
  ceRetryable :: bool

definition NewError :: "code \<Rightarrow> error \<Rightarrow> clusterError" where
  "NewError code msg = \<lparr>ceCode = code, ceMessage = msg, ceNodeID = [], ceRetryable = False\<rparr>"

definition errorText :: "clusterError \<Rightarrow> error" where
  "errorText e =
     (if ceNodeID e \<noteq> [] then
        Wrapped (''cluster '' @ codeText (ceCode e) @ '' (node '' @ ceNodeID e @ ''): '') (ceMessage e)
      else Wrapped (''cluster '' @ codeText (ceCode e) @ '': '') (ceMessage e))"

section \<open>The range directory (ranges.go)\<close>

record Range =
  rID :: "64 word"
  rStart :: string
  rEnd :: string
  rReplicas :: "string list"
  rLeader :: string
  rGeneration :: "64 word"

definition Contains_key :: "Range \<Rightarrow> string \<Rightarrow> bool" where
  "Contains_key r key \<longleftrightarrow> \<not> (key < rStart r) \<and> \<not> (rEnd r \<noteq> [] \<and> key \<ge> rEnd r)"

definition HasReplica :: "Range \<Rightarrow> string \<Rightarrow> bool" where
  "HasReplica r nodeID \<longleftrightarrow> nodeID \<in> set (rReplicas r)"

record RangeStore =
  rsRanges :: "(64 word, Range) gomap"
  rsAssign :: "(string, 64 word) gomap"
  rsNext :: "64 word"

definition NewRangeStore :: RangeStore where
  "NewRangeStore = \<lparr>rsRanges = [], rsAssign = [], rsNext = 1\<rparr>"

definition EnsureSingleRange :: "string \<Rightarrow> RangeStore \<Rightarrow> Range \<times> RangeStore" where
  "EnsureSingleRange nodeID s =
     (case rsRanges s of
        (i, r) # _ \<Rightarrow> (r, s)
      | [] \<Rightarrow>
          let r = \<lparr>rID = rsNext s, rStart = [], rEnd = [], rReplicas = [nodeID], rLeader = nodeID, rGeneration = 1\<rparr>
          in (r, s\<lparr>rsRanges := mset_at (rsRanges s) (rID r) r, rsNext := rsNext s + 1\<rparr>))"

definition All_ranges :: "RangeStore \<Rightarrow> Range list" where
  "All_ranges s = sortSlice (\<lambda>a b. rID a < rID b) (map snd (rsRanges s))"

definition rangeNotFound :: "64 word \<Rightarrow> clusterError" where
  "rangeNotFound i = NewError CodeRangeNotFound (Msg (''range '' @ fmtNat (unat i) @ '' not found''))"

definition Lookup :: "string \<Rightarrow> RangeStore \<Rightarrow> clusterError + Range" where
  "Lookup key s =
     (case find (\<lambda>(i, r). Contains_key r key) (rsRanges s) of
        Some (i, r) \<Rightarrow> Inr r
      | None \<Rightarrow> Inl (NewError CodeRangeNotFound (Msg ''no range owns key'')))"

definition ByID :: "64 word \<Rightarrow> RangeStore \<Rightarrow> clusterError + Range" where
  "ByID i s = (case mget (rsRanges s) i of None \<Rightarrow> Inl (rangeNotFound i) | Some r \<Rightarrow> Inr r)"

definition zeroRange :: Range where
  "zeroRange = \<lparr>rID = 0, rStart = [], rEnd = [], rReplicas = [], rLeader = [], rGeneration = 0\<rparr>"

fun lowestID :: "Range option \<Rightarrow> Range list \<Rightarrow> Range" where
  "lowestID None [] = zeroRange"
| "lowestID (Some best) [] = best"
| "lowestID None (r # rs) = lowestID (Some r) rs"
| "lowestID (Some best) (r # rs) = lowestID (Some (if rID r < rID best then r else best)) rs"

definition TableRange :: "string \<Rightarrow> RangeStore \<Rightarrow> Range" where
  "TableRange table s =
     (case (case mget (rsAssign s) table of None \<Rightarrow> None | Some i \<Rightarrow> mget (rsRanges s) i) of
        Some r \<Rightarrow> r
      | None \<Rightarrow> lowestID None (map snd (rsRanges s)))"

definition maxID :: "Range list \<Rightarrow> 64 word" where
  "maxID ranges = fold (\<lambda>r m. if rID r > m then rID r else m) ranges 0"

definition rangeMap :: "Range list \<Rightarrow> (64 word, Range) gomap" where
  "rangeMap ranges = fold (\<lambda>r m. mset_at m (rID r) r) ranges []"

definition ReplaceBulk :: "Range list \<Rightarrow> RangeStore \<Rightarrow> RangeStore" where
  "ReplaceBulk ranges s =
     (let next = maxID ranges + 1 in s\<lparr>rsRanges := rangeMap ranges, rsNext := (if next = 0 then 1 else next)\<rparr>)"

definition restoreRanges :: "Range list \<Rightarrow> (string, 64 word) gomap \<Rightarrow> 64 word \<Rightarrow> RangeStore \<Rightarrow> RangeStore" where
  "restoreRanges ranges assign nextID s =
     (let next = (if nextID \<le> maxID ranges then maxID ranges + 1 else nextID)
      in s\<lparr>rsRanges := rangeMap ranges, rsAssign := fold (\<lambda>(k, v) m. mset_at m k v) assign [],
           rsNext := (if next = 0 then 1 else next)\<rparr>)"

definition UpdateLeader :: "64 word \<Rightarrow> string \<Rightarrow> RangeStore \<Rightarrow> clusterError option \<times> RangeStore" where
  "UpdateLeader i leader s =
     (case mget (rsRanges s) i of
        None \<Rightarrow> (Some (NewError CodeRangeNotFound (Msg ''range not found'')), s)
      | Some r \<Rightarrow> (None, s\<lparr>rsRanges := mset_at (rsRanges s) i (r\<lparr>rLeader := leader, rGeneration := rGeneration r + 1\<rparr>)\<rparr>))"

definition SetRangeLeader :: "64 word \<Rightarrow> string \<Rightarrow> RangeStore \<Rightarrow> RangeStore" where
  "SetRangeLeader i leader s =
     (case mget (rsRanges s) i of
        None \<Rightarrow> s
      | Some r \<Rightarrow> s\<lparr>rsRanges := mset_at (rsRanges s) i (r\<lparr>rLeader := leader\<rparr>)\<rparr>)"

section \<open>Log entries (fsm.go)\<close>

datatype rangeOpType = RangeOpSplit | RangeOpMerge | RangeOpMove | RangeOpAssign

record RangeOp =
  opType :: rangeOpType
  opRanges :: "Range list"
  opRemove :: "64 word list"
  opAssign :: "(string, 64 word) gomap"
  opUnassign :: "string list"
  opBase :: "(64 word, 64 word) gomap"

datatype entryKind = EntryExec | EntryRange | EntryOther string

record Entry =
  eV :: int
  eKind :: entryKind
  eSQLs :: "string list"
  eAtomic :: bool
  eRangeID :: "64 word"
  eGeneration :: "64 word"
  eOp :: "RangeOp option"

text \<open>The outcome of an entry: \<^verbatim>\<open>OK\<close> with the affected rows, or the message of a failure.\<close>

datatype EntryResult = EntryOK nat | EntryFailed error

text \<open>The fencing checks; \<^verbatim>\<open>range\<close> over a map visits the entries in some order.\<close>

fun checkBase :: "(64 word, 64 word) gomap \<Rightarrow> (64 word, Range) gomap \<Rightarrow> error option" where
  "checkBase [] ranges = None"
| "checkBase ((i, gen) # base) ranges =
     (case mget ranges i of
        None \<Rightarrow> Some (errorText (rangeNotFound i))
      | Some r \<Rightarrow>
          if rGeneration r \<noteq> gen then
            Some (Msg (''stale range generation for '' @ fmtNat (unat i) @ '': have '' @ fmtNat (unat (rGeneration r)) @ '' want '' @ fmtNat (unat gen)))
          else checkBase base ranges)"

definition putRange :: "Range \<Rightarrow> RangeStore \<Rightarrow> RangeStore" where
  "putRange r s =
     (let r' = (if rID r = 0 then r\<lparr>rID := rsNext s\<rparr> else r);
          next = (if rID r = 0 then rsNext s + 1 else if rID r \<ge> rsNext s then rID r + 1 else rsNext s)
      in s\<lparr>rsRanges := mset_at (rsRanges s) (rID r') r', rsNext := next\<rparr>)"

definition applyOp :: "RangeOp \<Rightarrow> RangeStore \<Rightarrow> error option \<times> RangeStore" where
  "applyOp op s =
     (case checkBase (opBase op) (rsRanges s) of
        Some e \<Rightarrow> (Some e, s)
      | None \<Rightarrow>
          let s1 = s\<lparr>rsRanges := fold (\<lambda>i m. mdel m i) (opRemove op) (rsRanges s)\<rparr>;
              s2 = fold putRange (opRanges op) s1;
              s3 = s2\<lparr>rsAssign := fold (\<lambda>(t, i) m. mset_at m t i) (opAssign op) (rsAssign s2)\<rparr>
          in (None, s3\<lparr>rsAssign := fold (\<lambda>t m. mdel m t) (opUnassign op) (rsAssign s3)\<rparr>))"

section \<open>The replicated state machine (state.go)\<close>

record ReplicatedState =
  stDb :: database
  stRanges :: RangeStore
  stWalPath :: string
  stIndex :: "64 word"
  stWal :: string

fun execEntry :: "nat \<Rightarrow> nat \<Rightarrow> string list \<Rightarrow> database \<Rightarrow> EntryResult \<times> database" where
  "execEntry n acc [] d = (EntryOK acc, d)"
| "execEntry n acc (sql # sqls) d =
     (case Exec sql d of
        (Inl e, d') \<Rightarrow> (EntryFailed (Wrapped (''statement '' @ fmtNat (n + 1) @ '': '') e), d')
      | (Inr r, d') \<Rightarrow> execEntry (n + 1) (acc + Affected r) sqls d')"

text \<open>
  The log beside the Raft log is advisory: its errors are dropped. \<open>disk\<close> is the outcome of the append.
\<close>

definition appendWAL :: "(string \<Rightarrow> nat \<times> error option) \<Rightarrow> string list \<Rightarrow> ReplicatedState \<Rightarrow> ReplicatedState" where
  "appendWAL disk sqls st =
     (if stWalPath st = [] \<or> sqls = [] then st
      else case snd (AppendWALBatch disk None (Inr (stWal st)) sqls) of
        None \<Rightarrow> st
      | Some b \<Rightarrow> st\<lparr>stWal := b\<rparr>)"

definition fenced :: "Entry \<Rightarrow> RangeStore \<Rightarrow> error option" where
  "fenced e s =
     (if eRangeID e = 0 then None
      else case ByID (eRangeID e) s of
        Inl err \<Rightarrow> Some (errorText err)
      | Inr r \<Rightarrow>
          if eGeneration e \<noteq> 0 \<and> eGeneration e \<noteq> rGeneration r then
            Some (Msg (''stale range generation: have '' @ fmtNat (unat (rGeneration r)) @ '' want '' @ fmtNat (unat (eGeneration e))))
          else None)"

definition execLocked :: "(string \<Rightarrow> nat \<times> error option) \<Rightarrow> Entry \<Rightarrow> ReplicatedState \<Rightarrow> EntryResult \<times> ReplicatedState" where
  "execLocked disk e st =
     (case fenced e (stRanges st) of
        Some err \<Rightarrow> (EntryFailed err, st)
      | None \<Rightarrow>
          if eAtomic e then
            (case execEntry 0 0 (eSQLs e) (Clone (stDb st)) of
               (EntryFailed err, _) \<Rightarrow> (EntryFailed err, st)
             | (EntryOK n, clone) \<Rightarrow>
                 (case ReplaceFrom clone (stDb st) of
                    (Some err, d) \<Rightarrow> (EntryFailed (Wrapped ''commit: '' err), st\<lparr>stDb := d\<rparr>)
                  | (None, d) \<Rightarrow> (EntryOK n, appendWAL disk (eSQLs e) (st\<lparr>stDb := d\<rparr>))))
          else
            (case execEntry 0 0 (eSQLs e) (stDb st) of
               (EntryFailed err, d) \<Rightarrow> (EntryFailed err, st\<lparr>stDb := d\<rparr>)
             | (EntryOK n, d) \<Rightarrow> (EntryOK n, appendWAL disk (eSQLs e) (st\<lparr>stDb := d\<rparr>))))"

definition rangeLocked :: "Entry \<Rightarrow> ReplicatedState \<Rightarrow> EntryResult \<times> ReplicatedState" where
  "rangeLocked e st =
     (case eOp e of
        None \<Rightarrow> (EntryFailed (Msg ''range entry without op''), st)
      | Some op \<Rightarrow>
          (case applyOp op (stRanges st) of
             (Some err, s) \<Rightarrow> (EntryFailed err, st\<lparr>stRanges := s\<rparr>)
           | (None, s) \<Rightarrow> (EntryOK 0, st\<lparr>stRanges := s\<rparr>)))"

definition applyCommitted :: "(string \<Rightarrow> nat \<times> error option) \<Rightarrow> 64 word \<Rightarrow> Entry \<Rightarrow> ReplicatedState \<Rightarrow> EntryResult \<times> ReplicatedState" where
  "applyCommitted disk idx e st =
     (case eKind e of
        EntryExec \<Rightarrow> (case execLocked disk e st of (r, st') \<Rightarrow> (r, st'\<lparr>stIndex := idx\<rparr>))
      | EntryRange \<Rightarrow> (case rangeLocked e st of (r, st') \<Rightarrow> (r, st'\<lparr>stIndex := idx\<rparr>))
      | EntryOther k \<Rightarrow> (EntryFailed (Msg ''unknown entry kind''), st))"

end
