(* ===== verification/Node.thy ===== *)
theory Node
  imports Cluster
begin

text \<open>
  The operations of a cluster node (\<^verbatim>\<open>node.go\<close>, \<^verbatim>\<open>raft.go\<close>, \<^verbatim>\<open>routing.go\<close>): proposing a range
  operation, splitting, moving, assigning and rebalancing ranges, and running statements, with the handlers of forwarded
  statements and range operations. Raft and the peers are a parameter, the record \<open>raftEnv\<close>; statistics are left out.
\<close>

declare map_of_eq_Some_iff [simp del] Some_eq_map_of_iff [simp del]

section \<open>Proposals (raft.go)\<close>

datatype raftError = ErrNotLeader | ErrLeadershipLost | ErrRaft string

definition raftApplyError :: "raftError option \<Rightarrow> clusterError option" where
  "raftApplyError err =
     (case err of
        None \<Rightarrow> None
      | Some ErrNotLeader \<Rightarrow> Some ((NewError CodeNoLeader (Msg ''not the leader''))\<lparr>ceRetryable := True\<rparr>)
      | Some ErrLeadershipLost \<Rightarrow> Some ((NewError CodeNoLeader (Msg ''leadership lost during commit''))\<lparr>ceRetryable := True\<rparr>)
      | Some (ErrRaft s) \<Rightarrow> Some (NewError CodeUnavailable (Msg s)))"

text \<open>
  What a node sees of Raft and of its peers during one operation. \<open>commits\<close> is the outcome of proposing an entry and
  \<open>indexOf\<close> the log index the entry gets; \<open>servers\<close> the configuration, with the voters marked; \<open>callRange\<close> and
  \<open>callForward\<close> the answer of a peer to a forwarded range operation and write; \<open>polls\<close> the successive local states
  while a follower waits for an operation to reach it; \<open>walDisk\<close> the outcome of an append to the side copy.
\<close>

record forwardPayload =
  fpSQL :: string
  fpSQLs :: "string list"
  fpAtomic :: bool
  fpRangeID :: "64 word"
  fpConsistent :: bool

record raftEnv =
  isLeader :: bool
  leaderID :: string
  leaderAddr :: string
  leaderAddr2 :: string
  servers :: "clusterError + (string \<times> bool) list"
  commits :: "Entry \<Rightarrow> raftError option"
  indexOf :: "Entry \<Rightarrow> 64 word"
  barrier :: "raftError option"
  callRange :: "string \<Rightarrow> RangeOp \<Rightarrow> clusterError + EntryResult"
  callForward :: "string \<Rightarrow> forwardPayload \<Rightarrow> clusterError + result"
  polls :: "RangeOp \<Rightarrow> ReplicatedState list"
  walDisk :: "string \<Rightarrow> nat \<times> error option"

text \<open>
  \<^verbatim>\<open>raftNode.Apply\<close>: the call returns once the entry is committed and applied to the local state, or with an error.
  The JSON text of an entry is decoded as it was encoded.
\<close>

definition raftApply :: "raftEnv \<Rightarrow> Entry \<Rightarrow> ReplicatedState \<Rightarrow> (clusterError + nat) \<times> ReplicatedState" where
  "raftApply env e st =
     (case raftApplyError (commits env e) of
        Some err \<Rightarrow> (Inl err, st)
      | None \<Rightarrow>
          (case applyCommitted (walDisk env) (indexOf env e) e st of
             (EntryFailed msg, st') \<Rightarrow> (Inl (NewError CodeTransport msg), st')
           | (EntryOK n, st') \<Rightarrow> (Inr n, st')))"

section \<open>Range operations of the node (node.go)\<close>

definition rangeEntry :: "RangeOp \<Rightarrow> Entry" where
  "rangeEntry op = \<lparr>eV = 1, eKind = EntryRange, eSQLs = [], eAtomic = False, eRangeID = 0, eGeneration = 0, eOp = Some op\<rparr>"

definition rangeOpVisible :: "RangeOp \<Rightarrow> RangeStore \<Rightarrow> bool" where
  "rangeOpVisible op s \<longleftrightarrow>
     list_all (\<lambda>(t, i). rID (TableRange t s) = i) (opAssign op) \<and>
     list_all (\<lambda>i. mget (rsRanges s) i = None) (opRemove op)"

fun awaitVisible :: "RangeOp \<Rightarrow> ReplicatedState list \<Rightarrow> ReplicatedState \<Rightarrow> ReplicatedState" where
  "awaitVisible op [] st = st"
| "awaitVisible op (st' # sts) st = (if rangeOpVisible op (stRanges st') then st' else awaitVisible op sts st')"

definition proposeRange :: "raftEnv \<Rightarrow> RangeOp \<Rightarrow> ReplicatedState \<Rightarrow> clusterError option \<times> ReplicatedState" where
  "proposeRange env op st =
     (if \<not> isLeader env then
        if leaderAddr env \<noteq> [] then
          (case callRange env (leaderAddr env) op of
             Inl e \<Rightarrow> (Some e, st)
           | Inr (EntryFailed msg) \<Rightarrow> (Some (NewError CodeTransport msg), st)
           | Inr (EntryOK n) \<Rightarrow> (None, awaitVisible op (polls env op) st))
        else (Some (NewError CodeNoLeader (Msg ''no leader for range operation'')), st)
      else case raftApply env (rangeEntry op) st of
        (Inl e, st') \<Rightarrow> (Some e, st')
      | (Inr n, st') \<Rightarrow> (None, st'))"

definition splitOp :: "64 word \<Rightarrow> Range \<Rightarrow> string \<Rightarrow> RangeOp" where
  "splitOp rangeID rng splitKey =
     (let left = \<lparr>rID = 0, rStart = rStart rng, rEnd = splitKey, rReplicas = rReplicas rng, rLeader = rLeader rng, rGeneration = rGeneration rng + 1\<rparr>;
          right = \<lparr>rID = 0, rStart = splitKey, rEnd = rEnd rng, rReplicas = rReplicas rng, rLeader = rLeader rng, rGeneration = rGeneration rng + 1\<rparr>
      in \<lparr>opType = RangeOpSplit, opRanges = [left, right], opRemove = [rangeID], opAssign = [], opUnassign = [],
          opBase = [(rangeID, rGeneration rng)]\<rparr>)"

definition childrenOf :: "string \<Rightarrow> RangeStore \<Rightarrow> Range list" where
  "childrenOf splitKey s = filter (\<lambda>r. rEnd r = splitKey \<or> rStart r = splitKey) (All_ranges s)"

definition tablesOn :: "64 word \<Rightarrow> RangeStore \<Rightarrow> string list" where
  "tablesOn rangeID s = map fst (filter (\<lambda>(t, i). i = rangeID) (rsAssign s))"

definition splitAssign :: "Range \<Rightarrow> Range \<Rightarrow> string list \<Rightarrow> string list \<Rightarrow> (string, 64 word) gomap" where
  "splitAssign l r leftTables others =
     fold (\<lambda>t m. if mhas m (ToLower t) then m else mset_at m (ToLower t) (rID r)) others
       (fold (\<lambda>t m. mset_at m (ToLower t) (rID l)) leftTables [])"

definition assignOp :: "(string, 64 word) gomap \<Rightarrow> (64 word, 64 word) gomap \<Rightarrow> RangeOp" where
  "assignOp a base = \<lparr>opType = RangeOpAssign, opRanges = [], opRemove = [], opAssign = a, opUnassign = [], opBase = base\<rparr>"

definition rangeOrZero :: "64 word \<Rightarrow> RangeStore \<Rightarrow> Range" where
  "rangeOrZero i s = (case ByID i s of Inl _ \<Rightarrow> zeroRange | Inr r \<Rightarrow> r)"

definition SplitRange ::
  "raftEnv \<Rightarrow> 64 word \<Rightarrow> string \<Rightarrow> string list \<Rightarrow> ReplicatedState \<Rightarrow> (clusterError + Range \<times> Range) \<times> ReplicatedState" where
  "SplitRange env rangeID splitKey leftTables st =
     (case ByID rangeID (stRanges st) of
        Inl e \<Rightarrow> (Inl e, st)
      | Inr rng \<Rightarrow>
          (case proposeRange env (splitOp rangeID rng splitKey) st of
             (Some e, st1) \<Rightarrow> (Inl e, st1)
           | (None, st1) \<Rightarrow>
               (case childrenOf splitKey (stRanges st1) of
                  [l, r] \<Rightarrow>
                    (case proposeRange env
                            (assignOp (splitAssign l r leftTables (tablesOn rangeID (stRanges st1)))
                              (mset_at [(rID l, rGeneration l)] (rID r) (rGeneration r))) st1 of
                       (Some e, st2) \<Rightarrow> (Inl e, st2)
                     | (None, st2) \<Rightarrow> (Inr (rangeOrZero (rID l) (stRanges st2), rangeOrZero (rID r) (stRanges st2)), st2))
                | _ \<Rightarrow> (Inl (NewError CodeTransport (Msg ''split did not yield two ranges'')), st1))))"

definition moveOp :: "64 word \<Rightarrow> Range \<Rightarrow> string list \<Rightarrow> RangeOp" where
  "moveOp rangeID rng replicas =
     (let leader = (if rLeader rng \<notin> set replicas \<and> replicas \<noteq> [] then hd replicas else rLeader rng)
      in \<lparr>opType = RangeOpMove, opRanges = [rng\<lparr>rReplicas := replicas, rLeader := leader, rGeneration := rGeneration rng + 1\<rparr>],
          opRemove = [], opAssign = [], opUnassign = [], opBase = [(rangeID, rGeneration rng)]\<rparr>)"

definition MoveRange :: "raftEnv \<Rightarrow> 64 word \<Rightarrow> string list \<Rightarrow> ReplicatedState \<Rightarrow> (clusterError + Range) \<times> ReplicatedState" where
  "MoveRange env rangeID replicas st =
     (case ByID rangeID (stRanges st) of
        Inl e \<Rightarrow> (Inl e, st)
      | Inr rng \<Rightarrow>
          (case proposeRange env (moveOp rangeID rng replicas) st of
             (Some e, st1) \<Rightarrow> (Inl e, st1)
           | (None, st1) \<Rightarrow> (ByID rangeID (stRanges st1), st1)))"

definition AssignTable :: "raftEnv \<Rightarrow> string \<Rightarrow> 64 word \<Rightarrow> ReplicatedState \<Rightarrow> clusterError option \<times> ReplicatedState" where
  "AssignTable env table rangeID st =
     (case ByID rangeID (stRanges st) of
        Inl e \<Rightarrow> (Some e, st)
      | Inr rng \<Rightarrow> proposeRange env (assignOp [(ToLower table, rangeID)] [(rangeID, rGeneration rng)]) st)"

fun countDown :: "(string, int) gomap \<Rightarrow> string list \<Rightarrow> bool" where
  "countDown seen [] = True"
| "countDown seen (s # b) =
     (let n = (case mget seen s of None \<Rightarrow> 0 | Some k \<Rightarrow> k) - 1 in if n < 0 then False else countDown (mset_at seen s n) b)"

definition sameStrings :: "string list \<Rightarrow> string list \<Rightarrow> bool" where
  "sameStrings a b \<longleftrightarrow>
     length a = length b \<and>
     countDown (fold (\<lambda>s m. mset_at m s ((case mget m s of None \<Rightarrow> 0 | Some k \<Rightarrow> k) + 1)) a []) b"

definition rebalanceOp :: "string list \<Rightarrow> string \<Rightarrow> RangeStore \<Rightarrow> RangeOp" where
  "rebalanceOp voters lid s =
     (let stale = filter (\<lambda>r. \<not> (sameStrings (rReplicas r) voters \<and> rLeader r = lid)) (All_ranges s)
      in \<lparr>opType = RangeOpMove, opRanges = map (\<lambda>r. r\<lparr>rReplicas := voters, rLeader := lid, rGeneration := rGeneration r + 1\<rparr>) stale,
          opRemove = [], opAssign = [], opUnassign = [],
          opBase = fold (\<lambda>r m. mset_at m (rID r) (rGeneration r)) stale []\<rparr>)"

definition Rebalance :: "raftEnv \<Rightarrow> ReplicatedState \<Rightarrow> clusterError option \<times> ReplicatedState" where
  "Rebalance env st =
     (case servers env of
        Inl e \<Rightarrow> (Some e, st)
      | Inr srvs \<Rightarrow>
          if leaderID env = [] then (Some (NewError CodeNoLeader (Msg ''no leader to rebalance toward'')), st)
          else let op = rebalanceOp (map fst (filter snd srvs)) (leaderID env) (stRanges st) in
            if opRanges op = [] then (None, st) else proposeRange env op st)"

text \<open>The first range of a new cluster, committed by \<^verbatim>\<open>ensureGenesis\<close>.\<close>

definition genesisOp :: "string \<Rightarrow> RangeOp" where
  "genesisOp nodeID =
     \<lparr>opType = RangeOpSplit,
      opRanges = [\<lparr>rID = 1, rStart = [], rEnd = [], rReplicas = [nodeID], rLeader = nodeID, rGeneration = 1\<rparr>],
      opRemove = [], opAssign = [], opUnassign = [], opBase = []\<rparr>"

text \<open>A node follows an election by naming the new leader in every range, without a log entry.\<close>

definition syncLeaderRanges :: "string \<Rightarrow> RangeStore \<Rightarrow> RangeStore" where
  "syncLeaderRanges lid s = (if lid = [] then s else fold (\<lambda>r. SetRangeLeader (rID r) lid) (All_ranges s) s)"

section \<open>Statements of the node (node.go, routing.go)\<close>

fun matchesFold :: "string \<Rightarrow> string \<Rightarrow> bool" where
  "matchesFold s [] = True"
| "matchesFold [] (k # ks) = False"
| "matchesFold (c # s) (k # ks) = (upcase c = k \<and> matchesFold s ks)"

fun indexFoldASCII :: "string \<Rightarrow> string \<Rightarrow> nat option" where
  "indexFoldASCII s sub =
     (if length sub > length s then None
      else if matchesFold s sub then Some 0
      else case s of [] \<Rightarrow> None | _ # cs \<Rightarrow> map_option Suc (indexFoldASCII cs sub))"

declare indexFoldASCII.simps [simp del]

definition nameSeparator :: "char \<Rightarrow> bool" where
  "nameSeparator c \<longleftrightarrow> c \<in> {CHR '' '', CHR 0x09, CHR 0x0A, CHR ''('', CHR '';'', CHR '',''}"

definition firstName :: "string \<Rightarrow> string" where
  "firstName s = takeWhile (\<lambda>c. \<not> nameSeparator c) (dropWhile nameSeparator s)"

fun tableAfter :: "string list \<Rightarrow> string \<Rightarrow> string" where
  "tableAfter [] sql = []"
| "tableAfter (kw # kws) sql =
     (case indexFoldASCII sql kw of
        None \<Rightarrow> tableAfter kws sql
      | Some i \<Rightarrow>
          let field = firstName (drop (i + length kw) sql) in
          if field \<noteq> [] then ToLower field else tableAfter kws sql)"

definition ExtractTable :: "string \<Rightarrow> string" where
  "ExtractTable sql = tableAfter [''INTO '', ''FROM '', ''TABLE '', ''UPDATE ''] sql"

definition sqlKeywordIs :: "string \<Rightarrow> string \<Rightarrow> bool" where
  "sqlKeywordIs sql keyword = matchesFold (TrimSpace sql) keyword"

definition resultFor :: "nat \<Rightarrow> string list \<Rightarrow> result" where
  "resultFor n sqls =
     (if length sqls = 1 \<and> \<not> IsReadOnly (hd sqls) then
        if sqlKeywordIs (hd sqls) ''INSERT'' \<or> sqlKeywordIs (hd sqls) ''UPDATE'' \<or> sqlKeywordIs (hd sqls) ''DELETE''
        then noResult\<lparr>Affected := n\<rparr>
        else noResult\<lparr>Message := ''ok''\<rparr>
      else noResult\<lparr>Affected := n\<rparr>)"

definition execEntryOf :: "string list \<Rightarrow> bool \<Rightarrow> 64 word \<Rightarrow> 64 word \<Rightarrow> Entry" where
  "execEntryOf sqls atomic rangeID gen =
     \<lparr>eV = 1, eKind = EntryExec, eSQLs = sqls, eAtomic = atomic, eRangeID = rangeID, eGeneration = gen, eOp = None\<rparr>"

definition commitWrite ::
  "raftEnv \<Rightarrow> string list \<Rightarrow> bool \<Rightarrow> 64 word \<Rightarrow> 64 word \<Rightarrow> ReplicatedState \<Rightarrow> (clusterError + result) \<times> ReplicatedState" where
  "commitWrite env sqls atomic rangeID gen st =
     (case raftApply env (execEntryOf sqls atomic rangeID gen) st of
        (Inl e, st') \<Rightarrow> (Inl e, st')
      | (Inr n, st') \<Rightarrow> (Inr (resultFor n sqls), st'))"

definition forwardWrite :: "raftEnv \<Rightarrow> forwardPayload \<Rightarrow> clusterError + result" where
  "forwardWrite env fp =
     (let none = Inl (NewError CodeNoLeader (Msg ''no leader available for write'')) in
      if leaderAddr env = [] then none
      else case callForward env (leaderAddr env) fp of
        Inr res \<Rightarrow> Inr res
      | Inl e \<Rightarrow>
          if ceCode e = CodeNoLeader then
            if leaderAddr2 env \<noteq> [] \<and> leaderAddr2 env \<noteq> leaderAddr env then callForward env (leaderAddr2 env) fp else none
          else Inl e)"

definition concernError :: "raftEnv \<Rightarrow> int \<Rightarrow> clusterError option" where
  "concernError env acks =
     (if acks > 0 then
        (case servers env of
           Inl e \<Rightarrow> Some e
         | Inr srvs \<Rightarrow>
             if acks > int (length (filter snd srvs)) then Some (NewError CodeNoQuorum (Msg ''write concern exceeds voter count'')) else None)
      else None)"

definition writeCommitted ::
  "raftEnv \<Rightarrow> string list \<Rightarrow> bool \<Rightarrow> 64 word \<Rightarrow> int \<Rightarrow> ReplicatedState \<Rightarrow> (clusterError + result) \<times> ReplicatedState" where
  "writeCommitted env sqls atomic rangeID acks st =
     (case concernError env acks of
        Some e \<Rightarrow> (Inl e, st)
      | None \<Rightarrow>
          if \<not> isLeader env then
            (forwardWrite env \<lparr>fpSQL = (if length sqls = 1 then hd sqls else []), fpSQLs = sqls, fpAtomic = atomic, fpRangeID = rangeID, fpConsistent = False\<rparr>, st)
          else case ByID rangeID (stRanges st) of
            Inl e \<Rightarrow> (Inl e, st)
          | Inr rng \<Rightarrow> commitWrite env sqls atomic rangeID (rGeneration rng) st)"

definition localRead :: "string \<Rightarrow> ReplicatedState \<Rightarrow> (clusterError + result) \<times> ReplicatedState" where
  "localRead sql st =
     (case Exec sql (stDb st) of
        (Inl e, d) \<Rightarrow> (Inl (NewError CodeTransport e), st\<lparr>stDb := d\<rparr>)
      | (Inr r, d) \<Rightarrow> (Inr r, st\<lparr>stDb := d\<rparr>))"

definition Exec_node :: "raftEnv \<Rightarrow> string \<Rightarrow> ReplicatedState \<Rightarrow> (clusterError + result) \<times> ReplicatedState" where
  "Exec_node env sql st =
     (if IsReadOnly sql then localRead sql st
      else writeCommitted env [sql] False (rID (TableRange (ToLower (ExtractTable sql)) (stRanges st))) 0 st)"

definition ExecAtomic :: "raftEnv \<Rightarrow> string list \<Rightarrow> ReplicatedState \<Rightarrow> (clusterError + result list) \<times> ReplicatedState" where
  "ExecAtomic env sqls st =
     (if sqls = [] then (Inl (NewError CodeInvalidArgument (Msg ''empty batch'')), st)
      else if list_ex IsReadOnly sqls then (Inl (NewError CodeInvalidArgument (Msg ''atomic batches accept writes only'')), st)
      else case writeCommitted env sqls True (rID (TableRange (ToLower (ExtractTable (hd sqls))) (stRanges st))) 0 st of
        (Inl e, st') \<Rightarrow> (Inl e, st')
      | (Inr res, st') \<Rightarrow> (Inr [res], st'))"

definition ExecConsistent :: "raftEnv \<Rightarrow> string \<Rightarrow> string \<Rightarrow> ReplicatedState \<Rightarrow> (clusterError + result) \<times> ReplicatedState" where
  "ExecConsistent env self sql st =
     (if \<not> IsReadOnly sql then Exec_node env sql st
      else
        let atBarrier = (case raftApplyError (barrier env) of Some e \<Rightarrow> (Inl e, st) | None \<Rightarrow> localRead sql st) in
        if \<not> isLeader env \<and> leaderAddr env \<noteq> [] \<and> leaderAddr env \<noteq> self then
          (case callForward env (leaderAddr env) \<lparr>fpSQL = sql, fpSQLs = [], fpAtomic = False, fpRangeID = 0, fpConsistent = True\<rparr> of
             Inr res \<Rightarrow> (Inr res, st)
           | Inl e \<Rightarrow> atBarrier)
        else atBarrier)"

text \<open>The handler of a forwarded statement on the node that receives it.\<close>

definition handleForward :: "raftEnv \<Rightarrow> forwardPayload \<Rightarrow> ReplicatedState \<Rightarrow> (clusterError + result) \<times> ReplicatedState" where
  "handleForward env p st =
     (if fpSQLs p = [] \<and> fpSQL p = [] then (Inl (NewError CodeInvalidArgument (Msg ''forward requires sql'')), st)
      else
        let sqls = (if fpSQLs p = [] then [fpSQL p] else fpSQLs p) in
        if fpConsistent p \<and> length sqls = 1 \<and> IsReadOnly (hd sqls) then
          if \<not> isLeader env then (Inl (NewError CodeNoLeader (Msg ''consistent read requires leader'')), st)
          else (case raftApplyError (barrier env) of Some e \<Rightarrow> (Inl e, st) | None \<Rightarrow> localRead (hd sqls) st)
        else case find IsReadOnly sqls of
          Some sql \<Rightarrow> localRead sql st
        | None \<Rightarrow>
            if \<not> isLeader env then
              (Inl ((NewError CodeNoLeader (Msg (''forward to leader '' @ leaderAddr env)))\<lparr>ceRetryable := True\<rparr>), st)
            else case ByID (fpRangeID p) (stRanges st) of
              Inl e \<Rightarrow> if fpRangeID p \<noteq> 0 then (Inl e, st) else commitWrite env sqls (fpAtomic p) 0 0 st
            | Inr rng \<Rightarrow> commitWrite env sqls (fpAtomic p) (fpRangeID p) (rGeneration rng) st)"

definition handleRangeOp :: "raftEnv \<Rightarrow> RangeOp \<Rightarrow> ReplicatedState \<Rightarrow> (clusterError + EntryResult) \<times> ReplicatedState" where
  "handleRangeOp env op st =
     (if \<not> isLeader env then (Inl (NewError CodeNoLeader (Msg ''only the leader applies range ops'')), st)
      else case raftApply env (rangeEntry op) st of
        (Inl e, st') \<Rightarrow> (Inl e, st')
      | (Inr n, st') \<Rightarrow> (Inr (EntryOK n), st'))"

end
