(* ===== verification/Directory.thy ===== *)
theory Directory
  imports Node
begin

text \<open>
  The range directory partitions the keys. \<open>partitioned\<close> is the invariant; \<open>reached\<close> is the relation of
  histories, in which proposals computed from any earlier directory are applied to the current one, and
  \<open>later\<close> what one directory knows about every later one. The properties: every key has one owner in every history,
  a write prepared for an outdated generation is rejected, and a split divides its range at the key.
\<close>

declare map_of_eq_Some_iff [simp del] Some_eq_map_of_iff [simp del]

section \<open>The keyspace is partitioned\<close>

text \<open>The directory is keyed by the identifiers of its ranges, all of them below the next one.\<close>

definition ids_ok :: "RangeStore \<Rightarrow> bool" where
  "ids_ok s \<longleftrightarrow> mwf (rsRanges s) \<and> 0 < rsNext s \<and> (\<forall>i r. mget (rsRanges s) i = Some r \<longrightarrow> rID r = i \<and> 0 < i \<and> i < rsNext s)"

definition bounds_ok :: "Range \<Rightarrow> bool" where
  "bounds_ok r \<longleftrightarrow> rEnd r = [] \<or> rStart r < rEnd r"

definition owners :: "RangeStore \<Rightarrow> string \<Rightarrow> 64 word set" where
  "owners s key = {i. \<exists>r. mget (rsRanges s) i = Some r \<and> Contains_key r key}"

definition partitioned :: "RangeStore \<Rightarrow> bool" where
  "partitioned s \<longleftrightarrow> ids_ok s \<and> (\<forall>i r. mget (rsRanges s) i = Some r \<longrightarrow> bounds_ok r) \<and> (\<forall>key. \<exists>i. owners s key = {i})"

lemma partitionedD:
  assumes "partitioned s"
  shows "mwf (rsRanges s)" "0 < rsNext s" "mget (rsRanges s) i = Some r \<Longrightarrow> rID r = i \<and> 0 < i \<and> i < rsNext s \<and> bounds_ok r"
    "\<exists>i. owners s key = {i}"
  using assms by (auto simp: partitioned_def ids_ok_def)

lemma Contains_key_iff: "Contains_key r key \<longleftrightarrow> rStart r \<le> key \<and> (rEnd r = [] \<or> key < rEnd r)"
  by (auto simp: Contains_key_def)

lemma one_owner:
  assumes "partitioned s" "mget (rsRanges s) i = Some r" "Contains_key r key" "mget (rsRanges s) j = Some q" "Contains_key q key"
  shows "i = j"
proof -
  have "i \<in> owners s key" "j \<in> owners s key" using assms by (auto simp: owners_def)
  then show ?thesis using partitionedD(4)[OF assms(1), of key] by auto
qed

lemma genesis_partitioned: "partitioned (snd (applyOp (genesisOp node) NewRangeStore))"
proof -
  let ?r = "\<lparr>rID = 1, rStart = [], rEnd = [], rReplicas = [node], rLeader = node, rGeneration = 1\<rparr>"
  have s: "snd (applyOp (genesisOp node) NewRangeStore) = \<lparr>rsRanges = [(1, ?r)], rsAssign = [], rsNext = 2\<rparr>"
    by (simp add: applyOp_def genesisOp_def NewRangeStore_def putRange_def)
  have "owners \<lparr>rsRanges = [(1, ?r)], rsAssign = [], rsNext = 2\<rparr> key = {1}" for key
    by (auto simp: owners_def Contains_key_iff split: if_splits)
  then show ?thesis unfolding s partitioned_def ids_ok_def bounds_ok_def by (auto split: if_splits)
qed

text \<open>Looking a key up finds its one owner, whatever order the map is visited in.\<close>

lemma Lookup_iff:
  assumes "partitioned s"
  shows "Lookup key s = Inr r \<longleftrightarrow> mget (rsRanges s) (rID r) = Some r \<and> Contains_key r key"
proof -
  obtain i where i: "owners s key = {i}" using partitionedD(4)[OF assms] by blast
  then obtain p where p: "mget (rsRanges s) i = Some p" "Contains_key p key" by (auto simp: owners_def)
  obtain j q where f: "find (\<lambda>(i, r). Contains_key r key) (rsRanges s) = Some (j, q)"
    using map_of_SomeD[OF p(1)] p(2) by (cases "find (\<lambda>(i, r). Contains_key r key) (rsRanges s)") (auto simp: find_None_iff)
  then have "(j, q) \<in> set (rsRanges s)" and q: "Contains_key q key" by (auto simp: find_Some_iff in_set_conv_nth)
  then have m: "mget (rsRanges s) j = Some q" using partitionedD(1)[OF assms] by (auto intro: map_of_is_SomeI)
  have j: "rID q = j" using partitionedD(3)[OF assms m] by simp
  have "Lookup key s = Inr q" using f by (simp add: Lookup_def)
  moreover have "mget (rsRanges s) (rID r) = Some r \<and> Contains_key r key \<longleftrightarrow> r = q"
    using m q j one_owner[OF assms m q, of "rID r" r] by auto
  ultimately show ?thesis by auto
qed

lemma Lookup_total: "partitioned s \<Longrightarrow> \<exists>r. Lookup key s = Inr r"
proof -
  assume p: "partitioned s"
  obtain i where "owners s key = {i}" using partitionedD(4)[OF p] by blast
  then obtain r where r: "mget (rsRanges s) i = Some r" "Contains_key r key" by (auto simp: owners_def)
  then show ?thesis using Lookup_iff[OF p, of key r] partitionedD(3)[OF p r(1)] by auto
qed

interpretation byID: strict_total "{r. mget m (rID r) = Some r}" "\<lambda>a b. rID a < rID b" for m
proof unfold_locales
  fix a b assume "a \<in> {r. mget m (rID r) = Some r}" "b \<in> {r. mget m (rID r) = Some r}" "a \<noteq> b"
  then have "rID a \<noteq> rID b" by auto
  then show "rID a < rID b \<or> rID b < rID a" by auto
qed auto

text \<open>Two ranges of a list sorted by identifier that are the only ones with a feature.\<close>

lemma ranges_sorted:
  assumes "ids_ok s"
  shows "set (All_ranges s) = {r. mget (rsRanges s) (rID r) = Some r}" "sorted_wrt (\<lambda>a b. rID a < rID b) (All_ranges s)"
proof -
  have w: "mwf (rsRanges s)" and i: "\<And>i r. mget (rsRanges s) i = Some r \<Longrightarrow> rID r = i" using assms by (auto simp: ids_ok_def)
  have e: "(i, r) \<in> set (rsRanges s) \<longleftrightarrow> mget (rsRanges s) i = Some r" for i r using w by (simp add: map_of_eq_Some_iff)
  show s: "set (All_ranges s) = {r. mget (rsRanges s) (rID r) = Some r}"
  proof (intro set_eqI iffI)
    fix r assume "r \<in> set (All_ranges s)"
    then obtain k where "(k, r) \<in> set (rsRanges s)" by (auto simp: All_ranges_def)
    then show "r \<in> {r. mget (rsRanges s) (rID r) = Some r}" using i[of k r] by (simp add: e)
  next
    fix r assume "r \<in> {r. mget (rsRanges s) (rID r) = Some r}"
    then have "(rID r, r) \<in> set (rsRanges s)" by (simp add: e)
    then show "r \<in> set (All_ranges s)" unfolding All_ranges_def set_sortSlice by (metis image_eqI image_set snd_conv)
  qed
  have "map rID (map snd (rsRanges s)) = map fst (rsRanges s)" using i e by (auto simp: map_eq_conv)
  then have "distinct (map snd (rsRanges s))" using w by (metis distinct_map)
  then show "sorted_wrt (\<lambda>a b. rID a < rID b) (All_ranges s)"
    unfolding All_ranges_def using s by (intro byID.sorted_sortSlice[where m = "rsRanges s"]) (auto simp: All_ranges_def)
qed

lemma sorted_wrt_distinct: "sorted_wrt (\<lambda>a b. rID a < rID b) rs \<Longrightarrow> distinct rs"
  by (induction rs) auto

lemma filter_ranges_pair:
  assumes "ids_ok s" "mget (rsRanges s) (rID a) = Some a" "mget (rsRanges s) (rID b) = Some b" "rID a < rID b"
    and "\<And>r. mget (rsRanges s) (rID r) = Some r \<Longrightarrow> P r \<longleftrightarrow> r = a \<or> r = b"
  shows "filter P (All_ranges s) = [a, b]"
proof (rule byID.sorted_unique[where m = "rsRanges s"])
  have srt: "sorted_wrt (\<lambda>a b. rID a < rID b) (filter P (All_ranges s))" using ranges_sorted(2)[OF assms(1)] by (rule sorted_wrt_filter)
  then show "sorted_wrt (\<lambda>a b. rID a < rID b) (filter P (All_ranges s))" .
  show "sorted_wrt (\<lambda>a b. rID a < rID b) [a, b]" using assms(4) by simp
  have "set (filter P (All_ranges s)) = {a, b}" using assms(2,3,5) by (auto simp: ranges_sorted(1)[OF assms(1)])
  moreover have "distinct (filter P (All_ranges s))" using srt by (rule sorted_wrt_distinct)
  ultimately show "mset (filter P (All_ranges s)) = mset [a, b]" using assms(4) by (intro set_eq_iff_mset_eq_distinct[THEN iffD1]) auto
  show "set (filter P (All_ranges s)) \<subseteq> {r. mget (rsRanges s) (rID r) = Some r}" by (auto simp: ranges_sorted(1)[OF assms(1)])
qed

lemma next_free: "partitioned s \<Longrightarrow> rsNext s \<le> j \<Longrightarrow> mget (rsRanges s) j = None"
  by (metis option.exhaust partitionedD(3) leD)

text \<open>
  The identifier and the bounds of a range. A proposal carries copies of ranges the proposer has seen; it \<^emph>\<open>refreshes\<close>
  a range when the directory still has it with these bounds.
\<close>

definition shape :: "Range \<Rightarrow> 64 word \<times> string \<times> string" where
  "shape r = (rID r, rStart r, rEnd r)"

definition refreshes :: "RangeStore \<Rightarrow> Range \<Rightarrow> bool" where
  "refreshes s r \<longleftrightarrow> (\<exists>r0. mget (rsRanges s) (rID r) = Some r0 \<and> shape r = shape r0)"

lemma shape_Contains: "shape r = shape q \<Longrightarrow> Contains_key r = Contains_key q \<and> bounds_ok r = bounds_ok q \<and> rID r = rID q"
  by (simp add: shape_def fun_eq_iff Contains_key_iff bounds_ok_def)

text \<open>The directory a split leaves: the parent is gone and its two halves take the next identifiers.\<close>

definition halves :: "Range \<Rightarrow> string \<Rightarrow> 64 word \<Rightarrow> Range \<times> Range" where
  "halves rng k n =
     (\<lparr>rID = n, rStart = rStart rng, rEnd = k, rReplicas = rReplicas rng, rLeader = rLeader rng, rGeneration = rGeneration rng + 1\<rparr>,
      \<lparr>rID = n + 1, rStart = k, rEnd = rEnd rng, rReplicas = rReplicas rng, rLeader = rLeader rng, rGeneration = rGeneration rng + 1\<rparr>)"

definition splitAt :: "Range \<Rightarrow> string \<Rightarrow> RangeStore \<Rightarrow> RangeStore" where
  "splitAt rng k s =
     (case halves rng k (rsNext s) of (l, r) \<Rightarrow>
        s\<lparr>rsRanges := mset_at (mset_at (mdel (rsRanges s) (rID rng)) (rID l) l) (rID r) r, rsNext := rsNext s + 2\<rparr>)"

lemma apply_split:
  assumes "mget (rsRanges s) (rID rng) = Some r0" "rGeneration r0 = rGeneration rng"
  shows "applyOp (splitOp (rID rng) rng k) s = (None, splitAt rng k s)"
  using assms by (simp add: applyOp_def splitOp_def splitAt_def halves_def putRange_def Let_def add.assoc)

lemma word_room: "unat n + 2 < 2 ^ 64 \<Longrightarrow> n < n + 1 \<and> n + 1 < n + 2 \<and> 0 < n + 1" for n :: "64 word"
  by (simp add: word_less_nat_alt unat_word_ariths)

definition splits :: "Range \<Rightarrow> string \<Rightarrow> bool" where
  "splits r k \<longleftrightarrow> rStart r < k \<and> (rEnd r = [] \<or> k < rEnd r)"

lemma halves_simps [simp]:
  "rID (fst (halves r k n)) = n" "rStart (fst (halves r k n)) = rStart r" "rEnd (fst (halves r k n)) = k"
  "rID (snd (halves r k n)) = n + 1" "rStart (snd (halves r k n)) = k" "rEnd (snd (halves r k n)) = rEnd r"
  "rGeneration (fst (halves r k n)) = rGeneration r + 1" "rGeneration (snd (halves r k n)) = rGeneration r + 1"
  "rReplicas (fst (halves r k n)) = rReplicas r" "rReplicas (snd (halves r k n)) = rReplicas r"
  by (simp_all add: halves_def)

lemma halves_Contains:
  assumes "splits r k"
  shows "Contains_key (fst (halves r k n)) key \<longleftrightarrow> Contains_key r key \<and> key < k"
    "Contains_key (snd (halves r k n)) key \<longleftrightarrow> Contains_key r key \<and> \<not> key < k"
  using assms by (auto simp: Contains_key_iff splits_def)

lemma splitAt_get:
  assumes "partitioned s" "refreshes s rng" "unat (rsNext s) + 2 < 2 ^ 64"
  shows "mget (rsRanges (splitAt rng k s)) j =
    (if j = rsNext s then Some (fst (halves rng k (rsNext s))) else if j = rsNext s + 1 then Some (snd (halves rng k (rsNext s)))
     else if j = rID rng then None else mget (rsRanges s) j)"
  by (simp add: splitAt_def split_beta gomap_simps)

lemma refreshes_owner:
  assumes "partitioned s" "refreshes s rng"
  shows "rID rng \<in> owners s key \<longleftrightarrow> Contains_key rng key"
    and "Contains_key rng key \<Longrightarrow> mget (rsRanges s) j = Some q \<Longrightarrow> Contains_key q key \<Longrightarrow> j = rID rng"
proof -
  obtain r0 where r0: "mget (rsRanges s) (rID rng) = Some r0" "Contains_key rng = Contains_key r0"
    using assms(2) shape_Contains unfolding refreshes_def by blast
  then show "rID rng \<in> owners s key \<longleftrightarrow> Contains_key rng key" by (auto simp: owners_def)
  show "j = rID rng" if "Contains_key rng key" "mget (rsRanges s) j = Some q" "Contains_key q key"
    using one_owner[OF assms(1) that(2,3) r0(1)] that(1) r0(2) by simp
qed

lemma splitAt_owners:
  assumes "partitioned s" "refreshes s rng" "unat (rsNext s) + 2 < 2 ^ 64" "splits rng k"
  shows "owners (splitAt rng k s) key =
    (if Contains_key rng key then {if key < k then rsNext s else rsNext s + 1} else owners s key)"
proof -
  have n: "mget (rsRanges s) (rsNext s) = None" "mget (rsRanges s) (rsNext s + 1) = None"
    using next_free[OF assms(1)] word_room[OF assms(3)] by auto
  have o: "j \<in> owners (splitAt rng k s) key \<longleftrightarrow>
      j = rsNext s \<and> Contains_key rng key \<and> key < k \<or> j = rsNext s + 1 \<and> Contains_key rng key \<and> \<not> key < k
      \<or> j \<in> owners s key \<and> j \<noteq> rID rng" for j
    unfolding owners_def mem_Collect_eq splitAt_get[OF assms(1-3)]
    using n halves_Contains[OF assms(4)] by (auto split: if_splits)
  show ?thesis
  proof (cases "Contains_key rng key")
    case True
    then have "rID rng \<in> owners s key" using refreshes_owner(1)[OF assms(1,2)] by simp
    then have "owners s key = {rID rng}" using partitionedD(4)[OF assms(1), of key] by auto
    then show ?thesis using True o by auto
  next
    case False
    then have "rID rng \<notin> owners s key" using refreshes_owner(1)[OF assms(1,2)] by simp
    then show ?thesis using False o by auto
  qed
qed

lemma split_partitioned:
  assumes "partitioned s" "refreshes s rng" "unat (rsNext s) + 2 < 2 ^ 64" "splits rng k"
  shows "partitioned (splitAt rng k s)"
  unfolding partitioned_def ids_ok_def
proof (intro conjI allI impI)
  show "mwf (rsRanges (splitAt rng k s))" using partitionedD(1)[OF assms(1)] by (simp add: splitAt_def split_beta)
  show "0 < rsNext (splitAt rng k s)" using word_room[OF assms(3)] by (auto simp: splitAt_def split_beta)
  show "\<exists>i. owners (splitAt rng k s) key = {i}" for key
    using splitAt_owners[OF assms] partitionedD(4)[OF assms(1), of key] by auto
  fix j r assume r: "mget (rsRanges (splitAt rng k s)) j = Some r"
  have nx: "rsNext (splitAt rng k s) = rsNext s + 2" by (simp add: splitAt_def split_beta)
  consider "j = rsNext s" "r = fst (halves rng k (rsNext s))" | "j = rsNext s + 1" "r = snd (halves rng k (rsNext s))"
    | "mget (rsRanges s) j = Some r" using r unfolding splitAt_get[OF assms(1-3)] by (metis option.distinct(1) option.inject)
  then have "rID r = j \<and> 0 < j \<and> j < rsNext s + 2 \<and> bounds_ok r"
  proof cases
    case 3
    then show ?thesis using partitionedD(3)[OF assms(1) 3] word_room[OF assms(3)] by (meson less_trans)
  next
    case 1
    then show ?thesis using word_room[OF assms(3)] partitionedD(2)[OF assms(1)] assms(4)
      by (simp add: bounds_ok_def splits_def) (meson less_trans)
  next
    case 2
    then show ?thesis using word_room[OF assms(3)] assms(4) by (simp add: bounds_ok_def splits_def)
  qed
  then show "rID r = j" "0 < j" "j < rsNext (splitAt rng k s)" "bounds_ok r" by (simp_all add: nx)
qed

text \<open>No other range ends or starts at the new boundary, so the two halves are the children the node looks for.\<close>

lemma no_other_boundary:
  assumes "partitioned s" "refreshes s rng" "splits rng k" "mget (rsRanges s) j = Some q" "j \<noteq> rID rng"
  shows "rEnd q \<noteq> k \<and> rStart q \<noteq> k"
proof -
  have b: "bounds_ok q" using partitionedD(3)[OF assms(1,4)] by simp
  have k: "k \<noteq> []" using assms(3) by (auto simp: splits_def)
  have one: "\<not> (Contains_key q key \<and> Contains_key rng key)" for key
    using refreshes_owner(2)[OF assms(1,2) _ assms(4)] assms(5) by blast
  have "Contains_key q (max (rStart q) (rStart rng)) \<and> Contains_key rng (max (rStart q) (rStart rng))" if "rEnd q = k"
    using b k assms(3) that by (auto simp: Contains_key_iff splits_def bounds_ok_def max_def)
  moreover have "Contains_key q k \<and> Contains_key rng k" if "rStart q = k"
    using b assms(3) that by (auto simp: Contains_key_iff splits_def bounds_ok_def)
  ultimately show ?thesis using one by blast
qed

lemma children_of_split:
  assumes "partitioned s" "refreshes s rng" "unat (rsNext s) + 2 < 2 ^ 64" "splits rng k"
  shows "childrenOf k (splitAt rng k s) = [fst (halves rng k (rsNext s)), snd (halves rng k (rsNext s))]"
  unfolding childrenOf_def
proof (rule filter_ranges_pair)
  let ?s = "splitAt rng k s"
  show "ids_ok ?s" using split_partitioned[OF assms] by (simp add: partitioned_def)
  show "rID (fst (halves rng k (rsNext s))) < rID (snd (halves rng k (rsNext s)))" using word_room[OF assms(3)] by simp
  show "mget (rsRanges ?s) (rID (fst (halves rng k (rsNext s)))) = Some (fst (halves rng k (rsNext s)))"
    by (simp add: splitAt_get[OF assms(1-3)])
  show "mget (rsRanges ?s) (rID (snd (halves rng k (rsNext s)))) = Some (snd (halves rng k (rsNext s)))"
    using word_room[OF assms(3)] by (simp add: splitAt_get[OF assms(1-3)])
  fix r assume "mget (rsRanges ?s) (rID r) = Some r"
  then show "(rEnd r = k \<or> rStart r = k) \<longleftrightarrow> r = fst (halves rng k (rsNext s)) \<or> r = snd (halves rng k (rsNext s))"
    using no_other_boundary[OF assms(1,2,4)] by (auto simp: splitAt_get[OF assms(1-3)] split: if_splits)
qed

section \<open>Operations that keep the bounds\<close>

text \<open>Moving, reassigning, electing and restoring change no identifier and no bound.\<close>

definition same_shape :: "RangeStore \<Rightarrow> RangeStore \<Rightarrow> bool" where
  "same_shape s s' \<longleftrightarrow> (mwf (rsRanges s) \<longrightarrow> mwf (rsRanges s')) \<and> rsNext s' = rsNext s \<and>
     (\<forall>i. map_option shape (mget (rsRanges s') i) = map_option shape (mget (rsRanges s) i))"

lemma same_shape_refl [simp]: "same_shape s s"
  by (simp add: same_shape_def)

lemma same_shape_trans: "same_shape s s' \<Longrightarrow> same_shape s' s'' \<Longrightarrow> same_shape s s''"
  by (simp add: same_shape_def)

lemma same_shape_sym: "partitioned s \<Longrightarrow> same_shape s s' \<Longrightarrow> same_shape s' s"
  by (simp add: same_shape_def partitionedD)

lemma same_shape_get:
  assumes "same_shape s s'" "mget (rsRanges s') i = Some r'"
  obtains r where "mget (rsRanges s) i = Some r" "shape r' = shape r"
proof -
  have "map_option shape (mget (rsRanges s') i) = map_option shape (mget (rsRanges s) i)" using assms(1) by (simp add: same_shape_def)
  then show thesis using assms(2) that by (cases "mget (rsRanges s) i") auto
qed

lemma same_shape_owners:
  assumes "same_shape s s'"
  shows "owners s' key = owners s key"
proof -
  have "map_option (\<lambda>(i, st, en). st \<le> key \<and> (en = [] \<or> key < en)) (map_option shape (mget (rsRanges s') i)) =
        map_option (\<lambda>(i, st, en). st \<le> key \<and> (en = [] \<or> key < en)) (map_option shape (mget (rsRanges s) i))" for i
    using assms by (simp add: same_shape_def)
  then have e: "map_option (\<lambda>r. Contains_key r key) (mget (rsRanges s') i) = map_option (\<lambda>r. Contains_key r key) (mget (rsRanges s) i)" for i
    by (simp add: option.map_comp o_def shape_def Contains_key_iff)
  have "i \<in> owners t key \<longleftrightarrow> map_option (\<lambda>r. Contains_key r key) (mget (rsRanges t) i) = Some True" for i t
    by (auto simp: owners_def)
  then show ?thesis using e by (intro set_eqI) (simp only:)
qed

lemma same_shape_partitioned:
  assumes "partitioned s" "same_shape s s'"
  shows "partitioned s'"
  unfolding partitioned_def ids_ok_def
proof (intro conjI allI impI)
  show "mwf (rsRanges s')" "0 < rsNext s'" using assms partitionedD(1,2)[OF assms(1)] by (simp_all add: same_shape_def)
  show "\<exists>i. owners s' key = {i}" for key using partitionedD(4)[OF assms(1)] same_shape_owners[OF assms(2)] by simp
  fix i r' assume "mget (rsRanges s') i = Some r'"
  then obtain r where r: "mget (rsRanges s) i = Some r" "shape r' = shape r" using same_shape_get[OF assms(2)] by blast
  have "rsNext s' = rsNext s" using assms(2) by (simp add: same_shape_def)
  then show "rID r' = i" "0 < i" "i < rsNext s'" "bounds_ok r'"
    using partitionedD(3)[OF assms(1) r(1)] shape_Contains[OF r(2)] by simp_all
qed

lemma same_shape_assign [simp]: "same_shape s (s'\<lparr>rsAssign := a\<rparr>) = same_shape s s'"
  by (simp add: same_shape_def)

lemma same_shape_update:
  assumes "mget (rsRanges s) i = Some r" "shape r' = shape r"
  shows "same_shape s (s\<lparr>rsRanges := mset_at (rsRanges s) i r'\<rparr>)"
  using assms by (auto simp: same_shape_def gomap_simps)

lemma SetRangeLeader_shape: "same_shape s (SetRangeLeader i l s)"
  by (auto simp: SetRangeLeader_def shape_def intro!: same_shape_update split: option.splits)

lemma syncLeaderRanges_shape: "same_shape s (syncLeaderRanges l s)"
proof -
  have "same_shape s (fold (\<lambda>r. SetRangeLeader (rID r) l) rs s)" for rs :: "Range list"
    by (induction rs arbitrary: s) (auto intro: same_shape_trans SetRangeLeader_shape)
  then show ?thesis by (simp add: syncLeaderRanges_def)
qed

text \<open>A committed operation that only rewrites ranges the directory has, keeping their bounds.\<close>

lemma refreshes_same: "same_shape s s' \<Longrightarrow> partitioned s \<Longrightarrow> refreshes s r \<Longrightarrow> refreshes s' r"
  unfolding refreshes_def using same_shape_get[OF same_shape_sym] by metis

lemma putRange_shape:
  assumes "partitioned s" "refreshes s r"
  shows "same_shape s (putRange r s)"
proof -
  obtain r0 where r0: "mget (rsRanges s) (rID r) = Some r0" "shape r = shape r0" using assms(2) by (auto simp: refreshes_def)
  have "0 < rID r" "rID r < rsNext s" using partitionedD(3)[OF assms(1) r0(1)] by auto
  then have "putRange r s = s\<lparr>rsRanges := mset_at (rsRanges s) (rID r) r\<rparr>" by (auto simp: putRange_def Let_def)
  then show ?thesis using same_shape_update[OF r0] by simp
qed

lemma putRanges_shape:
  "partitioned s \<Longrightarrow> \<forall>r \<in> set rs. refreshes s r \<Longrightarrow> same_shape s (fold putRange rs s)"
proof (induction rs arbitrary: s)
  case (Cons r rs)
  have one: "same_shape s (putRange r s)" using Cons.prems by (intro putRange_shape) auto
  have "same_shape (putRange r s) (fold putRange rs (putRange r s))"
    using Cons.prems one by (intro Cons.IH) (auto intro: same_shape_partitioned refreshes_same)
  then show ?case using one same_shape_trans by auto
qed simp

lemma applyOp_shape:
  assumes "partitioned s" "opRemove op = []" "\<forall>r \<in> set (opRanges op). refreshes s r"
  shows "same_shape s (snd (applyOp op s))"
  using putRanges_shape[OF assms(1,3)] assms(2) by (auto simp: applyOp_def Let_def split: option.splits)

lemma moveOp_rewrites: "mget (rsRanges s) i = Some rng \<Longrightarrow> rID rng = i \<Longrightarrow> \<forall>r \<in> set (opRanges (moveOp i rng reps)). refreshes s r"
  by (simp add: moveOp_def refreshes_def shape_def Let_def)

lemma rebalanceOp_rewrites: "ids_ok s \<Longrightarrow> \<forall>r \<in> set (opRanges (rebalanceOp vs l s)). refreshes s r"
  by (auto simp: rebalanceOp_def refreshes_def shape_def Let_def ranges_sorted(1))

section \<open>Committed range operations\<close>

text \<open>The leader can commit: Raft takes every entry.\<close>

definition leads :: "raftEnv \<Rightarrow> bool" where
  "leads env \<longleftrightarrow> isLeader env \<and> (\<forall>e. commits env e = None)"

lemma raftApply_leads:
  "leads env \<Longrightarrow> raftApply env e st =
     (case applyCommitted (walDisk env) (indexOf env e) e st of
        (EntryFailed msg, st') \<Rightarrow> (Inl (NewError CodeTransport msg), st')
      | (EntryOK n, st') \<Rightarrow> (Inr n, st'))"
  by (simp add: raftApply_def leads_def raftApplyError_def)

lemma proposeRange_leads:
  "leads env \<Longrightarrow> proposeRange env op st =
     (case applyOp op (stRanges st) of
        (Some msg, s) \<Rightarrow> (Some (NewError CodeTransport msg), st\<lparr>stRanges := s, stIndex := indexOf env (rangeEntry op)\<rparr>)
      | (None, s) \<Rightarrow> (None, st\<lparr>stRanges := s, stIndex := indexOf env (rangeEntry op)\<rparr>))"
  by (simp add: proposeRange_def raftApply_leads applyCommitted_def rangeLocked_def rangeEntry_def leads_def split: option.splits prod.splits EntryResult.splits)

lemma mget_fold_update: "mget (fold (\<lambda>(t, i) m. mset_at m t i) a m) t = (case mget (rev a) t of None \<Rightarrow> mget m t | Some i \<Rightarrow> Some i)"
  by (induction a arbitrary: m) (auto simp: gomap_simps map_add_def split: option.splits)

lemma mget_rev_mwf: "mwf a \<Longrightarrow> mget (rev a) = mget a"
  by (subst map_of_inject_set) (auto simp: rev_map[symmetric])

lemma apply_assign:
  assumes "checkBase base (rsRanges s) = None"
  shows "applyOp (assignOp a base) s = (None, s\<lparr>rsAssign := fold (\<lambda>(t, i) m. mset_at m t i) a (rsAssign s)\<rparr>)"
  using assms by (simp add: applyOp_def assignOp_def)

lemma left_tables: "mget (fold (\<lambda>t m. mset_at m (ToLower t) i) ts m) t =
    (if t \<in> ToLower ` set ts then Some i else mget m t)"
  by (induction ts arbitrary: m) (auto simp: gomap_simps)

lemma right_tables: "mget (fold (\<lambda>t m. if mhas m (ToLower t) then m else mset_at m (ToLower t) i) ts m) t =
    (if mget m t = None \<and> t \<in> ToLower ` set ts then Some i else mget m t)"
  by (induction ts arbitrary: m) (auto simp: gomap_simps split: if_splits)

lemma splitAssign_get: "mget (splitAssign l r ls os) t =
    (if t \<in> ToLower ` set ls then Some (rID l) else if t \<in> ToLower ` set os then Some (rID r) else None)"
  unfolding splitAssign_def right_tables left_tables by simp

lemma splitAssign_mwf: "mwf (splitAssign l r ls os)"
proof -
  have "mwf (fold (\<lambda>t m. mset_at m (ToLower t) i) ts m)" if "mwf m" for i ts and m :: "(string, 64 word) gomap"
    using that by (induction ts arbitrary: m) auto
  moreover have "mwf (fold (\<lambda>t m. if mhas m (ToLower t) then m else mset_at m (ToLower t) i) ts m)" if "mwf m" for i ts and m :: "(string, 64 word) gomap"
    using that by (induction ts arbitrary: m) auto
  ultimately show ?thesis by (simp add: splitAssign_def)
qed

text \<open>The assignment of the tables after a split.\<close>

definition afterSplit :: "Range \<Rightarrow> Range \<Rightarrow> string list \<Rightarrow> 64 word \<Rightarrow> RangeStore \<Rightarrow> RangeStore \<Rightarrow> bool" where
  "afterSplit l r leftTables i s s' \<longleftrightarrow>
     (\<forall>t. mget (rsAssign s') t =
        (if t \<in> ToLower ` set leftTables then Some (rID l)
         else if t \<in> ToLower ` set (tablesOn i s) then Some (rID r) else mget (rsAssign s) t))"

lemma SplitRange_leads:
  assumes "partitioned (stRanges st)" "mget (rsRanges (stRanges st)) i = Some rng" "splits rng k"
    and "unat (rsNext (stRanges st)) + 2 < 2 ^ 64" "leads env"
  shows "\<exists>st'. SplitRange env i k ls st = (Inr (halves rng k (rsNext (stRanges st))), st') \<and>
      (\<exists>a. stRanges st' = (splitAt rng k (stRanges st))\<lparr>rsAssign := a\<rparr>) \<and>
      afterSplit (fst (halves rng k (rsNext (stRanges st)))) (snd (halves rng k (rsNext (stRanges st)))) ls i (stRanges st) (stRanges st') \<and>
      stDb st' = stDb st"
proof -
  let ?s = "stRanges st" let ?s1 = "splitAt rng k ?s"
  have i: "rID rng = i" using partitionedD(3)[OF assms(1,2)] by simp
  have g: "mget (rsRanges ?s) (rID rng) = Some rng" using assms(2) i by simp
  then have rf: "refreshes ?s rng" by (simp add: refreshes_def)
  obtain l r where lr: "halves rng k (rsNext ?s) = (l, r)" by fastforce
  have ids: "rID l = rsNext ?s" "rID r = rsNext ?s + 1" using lr halves_simps(1,4)[of rng k "rsNext ?s"] by simp_all
  define a where "a = splitAssign l r ls (tablesOn i ?s1)"
  let ?st1 = "st\<lparr>stRanges := ?s1, stIndex := indexOf env (rangeEntry (splitOp i rng k))\<rparr>"
  have p1: "proposeRange env (splitOp i rng k) st = (None, ?st1)"
    using apply_split[OF g refl, of k] i by (simp add: proposeRange_leads[OF assms(5)])
  have ch: "childrenOf k ?s1 = [l, r]" using children_of_split[OF assms(1) rf assms(4,3)] lr by simp
  have get: "mget (rsRanges ?s1) (rID l) = Some l" "mget (rsRanges ?s1) (rID r) = Some r"
    using splitAt_get[OF assms(1) rf assms(4)] lr ids by simp_all
  have base: "checkBase (mset_at [(rID l, rGeneration l)] (rID r) (rGeneration r)) (rsRanges ?s1) = None"
    using get ids by simp
  let ?op = "assignOp a (mset_at [(rID l, rGeneration l)] (rID r) (rGeneration r))"
  let ?s2 = "?s1\<lparr>rsAssign := fold (\<lambda>(t, i) m. mset_at m t i) a (rsAssign ?s1)\<rparr>"
  have p2: "proposeRange env ?op ?st1 = (None, st\<lparr>stRanges := ?s2, stIndex := indexOf env (rangeEntry ?op)\<rparr>)"
    using apply_assign[OF base, of a] by (simp add: proposeRange_leads[OF assms(5)])
  have as: "rsAssign ?s1 = rsAssign ?s" by (simp add: splitAt_def split_beta)
  have "SplitRange env i k ls st = (Inr (l, r), st\<lparr>stRanges := ?s2, stIndex := indexOf env (rangeEntry ?op)\<rparr>)"
    using assms(2) p1 ch p2 get by (simp add: SplitRange_def ByID_def rangeOrZero_def a_def)
  moreover have "afterSplit l r ls i ?s ?s2"
    unfolding afterSplit_def
    by (simp add: mget_fold_update a_def mget_rev_mwf[OF splitAssign_mwf] splitAssign_get tablesOn_def as)
  ultimately show ?thesis using lr by auto
qed

section \<open>Histories of the directory\<close>

text \<open>
  Nodes propose from the directory they have, which may be any earlier one, and the entry is applied to the current one.
  \<open>reached past s\<close>: \<open>s\<close> is the current directory and \<open>past\<close> the directories some node has had.
  The guards are the ones the code relies on: the split key lies inside the range, and the counters do not wrap.
\<close>

definition room :: "64 word \<Rightarrow> bool" where
  "room n \<longleftrightarrow> unat n + 2 < 2 ^ 64"

inductive reached :: "RangeStore set \<Rightarrow> RangeStore \<Rightarrow> bool" where
  genesis: "s = snd (applyOp (genesisOp node) NewRangeStore) \<Longrightarrow> reached {s} s"
| split_range: "reached past s \<Longrightarrow> s0 \<in> past \<Longrightarrow> mget (rsRanges s0) i = Some rng \<Longrightarrow> splits rng k \<Longrightarrow>
    room (rsNext s) \<Longrightarrow> room (rGeneration rng) \<Longrightarrow> s' = snd (applyOp (splitOp i rng k) s) \<Longrightarrow> reached (insert s' past) s'"
| move_range: "reached past s \<Longrightarrow> s0 \<in> past \<Longrightarrow> mget (rsRanges s0) i = Some rng \<Longrightarrow>
    room (rGeneration rng) \<Longrightarrow> s' = snd (applyOp (moveOp i rng replicas) s) \<Longrightarrow> reached (insert s' past) s'"
| rebalance: "reached past s \<Longrightarrow> s0 \<in> past \<Longrightarrow> (\<And>i r. mget (rsRanges s0) i = Some r \<Longrightarrow> room (rGeneration r)) \<Longrightarrow>
    s' = snd (applyOp (rebalanceOp voters lid s0) s) \<Longrightarrow> reached (insert s' past) s'"
| assign: "reached past s \<Longrightarrow> s' = snd (applyOp (assignOp a base) s) \<Longrightarrow> reached (insert s' past) s'"
| elected: "reached past s \<Longrightarrow> s0 \<in> past \<Longrightarrow> reached (insert (syncLeaderRanges lid s0) past) s"
| elected_here: "reached past s \<Longrightarrow> reached (insert (syncLeaderRanges lid s) past) (syncLeaderRanges lid s)"

text \<open>
  A later directory: identifiers are never used again, a range keeps its bounds for as long as it exists, and
  generations only grow.
\<close>

definition later :: "RangeStore \<Rightarrow> RangeStore \<Rightarrow> bool" where
  "later s0 s \<longleftrightarrow> rsNext s0 \<le> rsNext s \<and>
     (\<forall>i r. mget (rsRanges s) i = Some r \<longrightarrow> i < rsNext s0 \<longrightarrow>
        (\<exists>r0. mget (rsRanges s0) i = Some r0 \<and> shape r = shape r0 \<and> rGeneration r0 \<le> rGeneration r))"

lemma later_refl [simp]: "later s s"
  by (simp add: later_def)

lemma later_trans: "later s0 s1 \<Longrightarrow> later s1 s2 \<Longrightarrow> later s0 s2"
  unfolding later_def by (smt (verit) order_trans less_le_trans)

text \<open>What an accepted base says: the proposer's copy is current.\<close>

lemma checkBase_None: "checkBase base m = None \<longleftrightarrow> (\<forall>(i, g) \<in> set base. \<exists>r. mget m i = Some r \<and> rGeneration r = g)"
  by (induction base m rule: checkBase.induct) (auto split: option.splits)

lemma applyOp_stale: "checkBase (opBase op) (rsRanges s) \<noteq> None \<Longrightarrow> snd (applyOp op s) = s"
  by (auto simp: applyOp_def split: option.splits)

lemma later_get:
  assumes "later s0 s" "partitioned s0" "mget (rsRanges s0) i = Some r0" "mget (rsRanges s) i = Some r"
  shows "shape r = shape r0 \<and> rGeneration r0 \<le> rGeneration r"
  using assms partitionedD(3)[OF assms(2,3)] unfolding later_def by (metis option.inject)

lemma generation_up: "room g \<Longrightarrow> g \<le> g + 1" for g :: "64 word"
  by (simp add: room_def word_le_nat_alt unat_word_ariths)

lemma later_update:
  assumes "mget (rsRanges s) i = Some r0" "shape r = shape r0" "rGeneration r0 \<le> rGeneration r"
  shows "later s (s\<lparr>rsRanges := mset_at (rsRanges s) i r\<rparr>)"
  using assms by (simp add: later_def gomap_simps)

lemma later_assign [simp]: "later s0 (s\<lparr>rsAssign := a\<rparr>) = later s0 s"
  by (simp add: later_def)

definition renews :: "RangeStore \<Rightarrow> Range \<Rightarrow> bool" where
  "renews s r \<longleftrightarrow> (\<exists>r0. mget (rsRanges s) (rID r) = Some r0 \<and> shape r = shape r0 \<and> rGeneration r0 \<le> rGeneration r)"

lemma renews_refreshes: "renews s r \<Longrightarrow> refreshes s r"
  by (auto simp: renews_def refreshes_def)

lemma putRange_present:
  assumes "partitioned s" "refreshes s r"
  shows "putRange r s = s\<lparr>rsRanges := mset_at (rsRanges s) (rID r) r\<rparr>"
proof -
  obtain r0 where "mget (rsRanges s) (rID r) = Some r0" using assms(2) by (auto simp: refreshes_def)
  then have "0 < rID r" "rID r < rsNext s" using partitionedD(3)[OF assms(1)] by auto
  then show ?thesis by (auto simp: putRange_def Let_def)
qed

lemma putRanges_later:
  "partitioned s \<Longrightarrow> \<forall>r \<in> set rs. renews s r \<Longrightarrow> distinct (map rID rs) \<Longrightarrow> later s (fold putRange rs s)"
proof (induction rs arbitrary: s)
  case (Cons r rs)
  have r: "renews s r" "refreshes s r" using Cons.prems(2) renews_refreshes by auto
  note p = putRange_present[OF Cons.prems(1) r(2)]
  have one: "later s (putRange r s)" using r(1) later_update unfolding p renews_def by blast
  have "partitioned (putRange r s)" using same_shape_partitioned[OF Cons.prems(1) putRange_shape[OF Cons.prems(1) r(2)]] .
  moreover have "rID q \<noteq> rID r" if "q \<in> set rs" for q using Cons.prems(3) that by (metis distinct.simps(2) image_eqI image_set list.simps(9))
  then have "\<forall>q \<in> set rs. renews (putRange r s) q"
    using Cons.prems(2) by (simp add: p renews_def gomap_simps)
  ultimately have "later (putRange r s) (fold putRange rs (putRange r s))" using Cons.prems(3) by (intro Cons.IH) auto
  then show ?case using one later_trans by simp
qed simp

text \<open>A committed operation leads to a partitioned, later directory.\<close>

definition advances :: "RangeStore \<Rightarrow> RangeStore \<Rightarrow> bool" where
  "advances s s' \<longleftrightarrow> partitioned s' \<and> later s s'"

lemma advances_refl: "partitioned s \<Longrightarrow> advances s s"
  by (simp add: advances_def)

lemma applyOp_advances:
  assumes "partitioned s" "opRemove op = []" "distinct (map rID (opRanges op))"
    and "checkBase (opBase op) (rsRanges s) = None \<Longrightarrow> \<forall>r \<in> set (opRanges op). renews s r"
  shows "advances s (snd (applyOp op s))"
proof (cases "checkBase (opBase op) (rsRanges s)")
  case None
  then have r: "\<forall>r \<in> set (opRanges op). renews s r" using assms(4) by simp
  then have "partitioned (snd (applyOp op s))"
    using same_shape_partitioned[OF assms(1) applyOp_shape[OF assms(1,2)]] renews_refreshes by blast
  moreover have "later s (snd (applyOp op s))"
    using putRanges_later[OF assms(1) r assms(3)] None assms(2) by (simp add: applyOp_def Let_def)
  ultimately show ?thesis by (simp add: advances_def)
qed (simp add: applyOp_stale advances_refl assms(1))

lemma move_advances:
  assumes "partitioned s" "partitioned s0" "later s0 s" "mget (rsRanges s0) i = Some rng" "room (rGeneration rng)"
  shows "advances s (snd (applyOp (moveOp i rng replicas) s))"
proof (rule applyOp_advances[OF assms(1)])
  have i: "rID rng = i" using partitionedD(3)[OF assms(2,4)] by simp
  assume "checkBase (opBase (moveOp i rng replicas)) (rsRanges s) = None"
  then obtain r where r: "mget (rsRanges s) i = Some r" "rGeneration r = rGeneration rng"
    by (auto simp: moveOp_def Let_def split: option.splits if_splits)
  then show "\<forall>r \<in> set (opRanges (moveOp i rng replicas)). renews s r"
    using later_get[OF assms(3,2,4) r(1)] generation_up[OF assms(5)] i by (simp add: moveOp_def renews_def shape_def Let_def)
qed (simp_all add: moveOp_def Let_def)

lemma split_advances:
  assumes "partitioned s" "partitioned s0" "later s0 s" "mget (rsRanges s0) i = Some rng" "splits rng k" "room (rsNext s)"
  shows "advances s (snd (applyOp (splitOp i rng k) s))"
proof (cases "checkBase (opBase (splitOp i rng k)) (rsRanges s)")
  case None
  have i: "rID rng = i" using partitionedD(3)[OF assms(2,4)] by simp
  obtain r where r: "mget (rsRanges s) i = Some r" "rGeneration r = rGeneration rng"
    using None by (auto simp: splitOp_def Let_def split: option.splits if_splits)
  then have rf: "refreshes s rng" using later_get[OF assms(3,2,4) r(1)] i by (simp add: refreshes_def)
  have rm: "unat (rsNext s) + 2 < 2 ^ 64" using assms(6) by (simp add: room_def)
  have e: "snd (applyOp (splitOp i rng k) s) = splitAt rng k s" using apply_split[of s rng r k] r i by simp
  have nx: "rsNext (splitAt rng k s) = rsNext s + 2" by (simp add: splitAt_def split_beta)
  have w: "rsNext s \<le> rsNext s + 2" using word_room[OF rm] by (meson less_imp_le less_trans)
  have "later s (splitAt rng k s)" unfolding later_def nx
  proof (intro conjI allI impI w)
    fix j q assume q: "mget (rsRanges (splitAt rng k s)) j = Some q" "j < rsNext s"
    have "j \<noteq> rsNext s" "j \<noteq> rsNext s + 1" using q(2) word_room[OF rm] by auto
    then have "mget (rsRanges s) j = Some q" using q(1) by (simp add: splitAt_get[OF assms(1) rf rm] split: if_splits)
    then show "\<exists>r0. mget (rsRanges s) j = Some r0 \<and> shape q = shape r0 \<and> rGeneration r0 \<le> rGeneration q" by auto
  qed
  then show ?thesis using split_partitioned[OF assms(1) rf rm assms(5)] e by (simp add: advances_def)
qed (simp add: applyOp_stale advances_refl assms(1))

lemma mget_fold_gens: "distinct (map rID rs) \<Longrightarrow> r \<in> set rs \<Longrightarrow>
    (rID r, rGeneration r) \<in> set (fold (\<lambda>r m. mset_at m (rID r) (rGeneration r)) rs m)"
proof (induction rs arbitrary: m)
  case (Cons q rs)
  have keep: "k \<notin> rID ` set rs \<Longrightarrow> mget (fold (\<lambda>r m. mset_at m (rID r) (rGeneration r)) rs m) k = mget m k" for k m
    by (induction rs arbitrary: m) (auto simp: gomap_simps)
  show ?case
  proof (cases "r = q")
    case True
    then have "mget (fold (\<lambda>r m. mset_at m (rID r) (rGeneration r)) rs (mset_at m (rID q) (rGeneration q))) (rID q) = Some (rGeneration q)"
      using Cons.prems(1) keep by (auto simp: gomap_simps)
    then show ?thesis using True map_of_SomeD by fastforce
  qed (use Cons in auto)
qed simp

lemma sorted_ids: "sorted_wrt (\<lambda>a b. rID a < rID b) rs \<Longrightarrow> distinct (map rID rs)"
  by (induction rs) auto

lemma rebalance_advances:
  assumes "partitioned s" "partitioned s0" "later s0 s" "\<And>i r. mget (rsRanges s0) i = Some r \<Longrightarrow> room (rGeneration r)"
  shows "advances s (snd (applyOp (rebalanceOp voters lid s0) s))"
proof (rule applyOp_advances[OF assms(1)])
  let ?stale = "filter (\<lambda>r. \<not> (sameStrings (rReplicas r) voters \<and> rLeader r = lid)) (All_ranges s0)"
  have ok: "ids_ok s0" using assms(2) by (simp add: partitioned_def)
  have d: "distinct (map rID ?stale)"
    using sorted_ids[OF ranges_sorted(2)[OF ok]] by (rule distinct_map_filter)
  show "distinct (map rID (opRanges (rebalanceOp voters lid s0)))" using d by (simp add: rebalanceOp_def Let_def o_def)
  assume c: "checkBase (opBase (rebalanceOp voters lid s0)) (rsRanges s) = None"
  show "\<forall>r \<in> set (opRanges (rebalanceOp voters lid s0)). renews s r"
  proof
    fix q assume "q \<in> set (opRanges (rebalanceOp voters lid s0))"
    then obtain r0 where r0: "r0 \<in> set ?stale" "q = r0\<lparr>rReplicas := voters, rLeader := lid, rGeneration := rGeneration r0 + 1\<rparr>"
      by (auto simp: rebalanceOp_def Let_def)
    have m0: "mget (rsRanges s0) (rID r0) = Some r0" using r0(1) ranges_sorted(1)[OF ok] by auto
    obtain r where r: "mget (rsRanges s) (rID r0) = Some r" "rGeneration r = rGeneration r0"
      using c mget_fold_gens[OF d r0(1), of "[]"] by (force simp: checkBase_None rebalanceOp_def Let_def)
    show "renews s q" unfolding r0(2) renews_def
      using r later_get[OF assms(3,2) m0 r(1)] generation_up[OF assms(4)[OF m0]] by (simp add: shape_def)
  qed
qed (simp add: rebalanceOp_def Let_def)

text \<open>Naming a leader changes neither bounds nor generations.\<close>

definition fence :: "Range \<Rightarrow> (64 word \<times> string \<times> string) \<times> 64 word" where
  "fence r = (shape r, rGeneration r)"

definition same_fences :: "RangeStore \<Rightarrow> RangeStore \<Rightarrow> bool" where
  "same_fences s s' \<longleftrightarrow> rsNext s' = rsNext s \<and> (\<forall>i. map_option fence (mget (rsRanges s') i) = map_option fence (mget (rsRanges s) i))"

lemma sync_fences: "same_fences s (syncLeaderRanges l s)"
proof -
  have one: "same_fences s (SetRangeLeader i l s)" for i s
    by (auto simp: same_fences_def SetRangeLeader_def fence_def shape_def gomap_simps split: option.splits)
  have "same_fences s (fold (\<lambda>r. SetRangeLeader (rID r) l) rs s)" for rs :: "Range list"
  proof (induction rs arbitrary: s)
    case (Cons r rs)
    then show ?case using one[of s "rID r"] by (simp add: same_fences_def)
  qed (simp add: same_fences_def)
  then show ?thesis by (simp add: syncLeaderRanges_def same_fences_def)
qed

lemma later_fence:
  "later s0 s \<longleftrightarrow> rsNext s0 \<le> rsNext s \<and>
     (\<forall>i f. map_option fence (mget (rsRanges s) i) = Some f \<longrightarrow> i < rsNext s0 \<longrightarrow>
        (\<exists>f0. map_option fence (mget (rsRanges s0) i) = Some f0 \<and> fst f = fst f0 \<and> snd f0 \<le> snd f))"
proof -
  have "(\<exists>r0. mget (rsRanges s0) i = Some r0 \<and> shape r = shape r0 \<and> rGeneration r0 \<le> rGeneration r) \<longleftrightarrow>
        (\<exists>f0. map_option fence (mget (rsRanges s0) i) = Some f0 \<and> fst (fence r) = fst f0 \<and> snd f0 \<le> snd (fence r))" for i r
    by (auto simp: fence_def shape_def)
  moreover have "(\<forall>i f. map_option fence (mget (rsRanges s) i) = Some f \<longrightarrow> Q i f) \<longleftrightarrow> (\<forall>i r. mget (rsRanges s) i = Some r \<longrightarrow> Q i (fence r))" for Q
    by (simp only: map_option_eq_Some) blast
  ultimately show ?thesis unfolding later_def by (simp only:)
qed

lemma same_fences_later:
  assumes "same_fences s0 s1"
  shows "later s0 s \<longleftrightarrow> later s1 s" "later s s0 \<longleftrightarrow> later s s1"
  using assms unfolding later_fence same_fences_def by simp_all

definition consistent :: "RangeStore set \<Rightarrow> RangeStore \<Rightarrow> bool" where
  "consistent past s \<longleftrightarrow> partitioned s \<and> (\<forall>s0 \<in> past. partitioned s0 \<and> later s0 s)"

lemma consistent_step: "consistent past s \<Longrightarrow> advances s s' \<Longrightarrow> consistent (insert s' past) s'"
  by (auto simp: consistent_def advances_def intro: later_trans)

lemma sync_advances: "partitioned s \<Longrightarrow> advances s (syncLeaderRanges l s)"
  using same_shape_partitioned[OF _ syncLeaderRanges_shape] same_fences_later(2)[OF sync_fences] later_refl
  by (auto simp: advances_def)

lemma reached_consistent: "reached past s \<Longrightarrow> consistent past s"
proof (induction rule: reached.induct)
  case (genesis s node)
  then show ?case using genesis_partitioned by (simp add: consistent_def)
next
  case (split_range past s s0 i rng k s')
  have "partitioned s0" "later s0 s" "partitioned s" using split_range.IH split_range.hyps(2) by (auto simp: consistent_def)
  then have "advances s s'" using split_advances[OF _ _ _ split_range.hyps(3,4,5)] split_range.hyps(7) by simp
  then show ?case using consistent_step split_range.IH by blast
next
  case (move_range past s s0 i rng s' replicas)
  have "partitioned s0" "later s0 s" "partitioned s" using move_range.IH move_range.hyps(2) by (auto simp: consistent_def)
  then have "advances s s'" using move_advances[OF _ _ _ move_range.hyps(3,4)] move_range.hyps(5) by simp
  then show ?case using consistent_step move_range.IH by blast
next
  case (rebalance past s s0 s' voters lid)
  then show ?case using consistent_step[OF rebalance.IH rebalance_advances[of s s0 voters lid]] by (simp add: consistent_def)
next
  case (assign past s s' a base)
  have "advances s s'" unfolding assign.hyps(2)
    using assign.IH by (intro applyOp_advances) (simp_all add: consistent_def assignOp_def)
  then show ?case using consistent_step assign.IH by blast
next
  case (elected past s s0 lid)
  have c: "partitioned s0" "later s0 s" using elected.IH elected.hyps(2) by (auto simp: consistent_def)
  have "partitioned (syncLeaderRanges lid s0)" using sync_advances[OF c(1)] by (simp add: advances_def)
  moreover have "later (syncLeaderRanges lid s0) s" using same_fences_later(1)[OF sync_fences] c(2) by blast
  ultimately show ?case using elected.IH unfolding consistent_def by blast
next
  case (elected_here past s lid)
  then show ?case using consistent_step sync_advances unfolding consistent_def by blast
qed

section \<open>Fencing\<close>

lemma ByID_Inr: "ByID i s = Inr r \<longleftrightarrow> mget (rsRanges s) i = Some r"
  by (auto simp: ByID_def split: option.splits)

lemma fenced_unchanged: "fenced e (stRanges st) = Some m \<Longrightarrow> eKind e = EntryExec \<Longrightarrow>
    applyCommitted disk idx e st = (EntryFailed m, st\<lparr>stIndex := idx\<rparr>)"
  by (simp add: applyCommitted_def execLocked_def)

text \<open>An entry prepared for a generation of a range that is known to have passed.\<close>

definition outdated :: "Entry \<Rightarrow> RangeStore \<Rightarrow> bool" where
  "outdated e s \<longleftrightarrow> eKind e = EntryExec \<and> eRangeID e \<noteq> 0 \<and> eRangeID e < rsNext s \<and> eGeneration e \<noteq> 0 \<and>
     (case mget (rsRanges s) (eRangeID e) of None \<Rightarrow> True | Some r \<Rightarrow> eGeneration e < rGeneration r)"

lemma outdated_fenced:
  assumes "later s0 s" "outdated e s0"
  shows "\<exists>m. fenced e s = Some m"
proof (cases "mget (rsRanges s) (eRangeID e)")
  case (Some r)
  then obtain r0 where r0: "mget (rsRanges s0) (eRangeID e) = Some r0" "rGeneration r0 \<le> rGeneration r"
    using assms by (auto simp: later_def outdated_def)
  then have "eGeneration e \<noteq> rGeneration r" using assms(2) by (auto simp: outdated_def)
  then show ?thesis using assms(2) Some by (auto simp: fenced_def ByID_def outdated_def)
qed (use assms in \<open>auto simp: fenced_def ByID_def outdated_def\<close>)

section \<open>Properties\<close>


text \<open>
  C12: a write prepared for an older generation of its range, or for a range that has been split, is rejected and changes
  neither the data nor the directory, at any later time.
\<close>

theorem outdated_write_is_rejected:
  assumes "reached past (stRanges st)" "s0 \<in> past" "outdated e s0"
  shows "\<exists>m. applyCommitted disk idx e st = (EntryFailed m, st\<lparr>stIndex := idx\<rparr>)"
proof -
  have "later s0 (stRanges st)" using reached_consistent[OF assms(1)] assms(2) by (simp add: consistent_def)
  then show ?thesis using outdated_fenced[OF _ assms(3)] fenced_unchanged assms(3) unfolding outdated_def by metis
qed

text \<open>
  C13: splitting a range at a key inside it, on a leader that can commit, gives the two halves: keys below the split
  key go to the left one and the others of the range to the right one, other keys stay where they were, the parent is
  gone, and the tables are assigned as requested.
\<close>

theorem split_divides_the_range:
  assumes "partitioned (stRanges st)" "ByID i (stRanges st) = Inr rng" "splits rng k"
    and "unat (rsNext (stRanges st)) + 2 < 2 ^ 64" "leads env"
  shows "\<exists>l r st'. SplitRange env i k leftTables st = (Inr (l, r), st') \<and> partitioned (stRanges st') \<and>
      (\<forall>key. Lookup key (stRanges st') = (if Contains_key rng key then Inr (if key < k then l else r) else Lookup key (stRanges st))) \<and>
      ByID i (stRanges st') = Inl (rangeNotFound i) \<and> rGeneration l = rGeneration rng + 1 \<and> rGeneration r = rGeneration rng + 1 \<and>
      afterSplit l r leftTables i (stRanges st) (stRanges st') \<and> stDb st' = stDb st"
proof -
  let ?s = "stRanges st"
  have g: "mget (rsRanges ?s) i = Some rng" using assms(2) by (simp add: ByID_Inr)
  have i: "rID rng = i" "i < rsNext ?s" using partitionedD(3)[OF assms(1) g] by auto
  have rf: "refreshes ?s rng" using g i by (simp add: refreshes_def)
  obtain l r where lr: "halves rng k (rsNext ?s) = (l, r)" by fastforce
  obtain st' a where st': "SplitRange env i k leftTables st = (Inr (l, r), st')" "stRanges st' = (splitAt rng k ?s)\<lparr>rsAssign := a\<rparr>"
    "afterSplit l r leftTables i ?s (stRanges st')" "stDb st' = stDb st"
    using SplitRange_leads[OF assms(1) g assms(3,4,5), of leftTables] lr by auto
  have p: "partitioned (stRanges st')"
    using same_shape_partitioned[OF split_partitioned[OF assms(1) rf assms(4,3)], of "stRanges st'"] st'(2) by simp
  have get: "mget (rsRanges (stRanges st')) j = (if j = rsNext ?s then Some l else if j = rsNext ?s + 1 then Some r
     else if j = i then None else mget (rsRanges ?s) j)" for j
    using splitAt_get[OF assms(1) rf assms(4), of k j] lr i st'(2) by simp
  have ids: "rID l = rsNext ?s" "rID r = rsNext ?s + 1" "rGeneration l = rGeneration rng + 1" "rGeneration r = rGeneration rng + 1"
    using lr halves_simps[of rng k "rsNext ?s"] by simp_all
  have C: "Contains_key l key \<longleftrightarrow> Contains_key rng key \<and> key < k" "Contains_key r key \<longleftrightarrow> Contains_key rng key \<and> \<not> key < k" for key
    using halves_Contains[OF assms(3), of "rsNext ?s" key] lr by simp_all
  have "Lookup key (stRanges st') = (if Contains_key rng key then Inr (if key < k then l else r) else Lookup key ?s)" for key
  proof (cases "Contains_key rng key")
    case True
    then have "Lookup key (stRanges st') = Inr (if key < k then l else r)"
      using Lookup_iff[OF p] get ids C by simp
    then show ?thesis using True by simp
  next
    case False
    obtain q where q: "Lookup key ?s = Inr q" using Lookup_total[OF assms(1)] by blast
    then have m: "mget (rsRanges ?s) (rID q) = Some q" "Contains_key q key" using Lookup_iff[OF assms(1)] by auto
    then have "rID q < rsNext ?s" "rID q \<noteq> i" using partitionedD(3)[OF assms(1) m(1)] False g by auto
    moreover have "rID q \<noteq> rsNext ?s + 1" using next_free[OF assms(1), of "rsNext ?s + 1"] word_room[OF assms(4)] m(1) by auto
    ultimately have "Lookup key (stRanges st') = Inr q" using m Lookup_iff[OF p] get by simp
    then show ?thesis using q False by simp
  qed
  moreover have "ByID i (stRanges st') = Inl (rangeNotFound i)"
  proof -
    have "i \<noteq> rsNext ?s" "i \<noteq> rsNext ?s + 1" using i(2) word_room[OF assms(4)] by auto
    then show ?thesis using get[of i] by (simp add: ByID_def)
  qed
  ultimately show ?thesis using st' p ids by blast
qed

section \<open>A small cluster\<close>

definition genesisRange :: Range where
  "genesisRange = \<lparr>rID = 1, rStart = [], rEnd = [], rReplicas = [''n1''], rLeader = ''n1'', rGeneration = 1\<rparr>"

definition oneRange :: RangeStore where
  "oneRange = snd (applyOp (genesisOp ''n1'') NewRangeStore)"

definition twoRanges :: RangeStore where
  "twoRanges = snd (applyOp (splitOp 1 genesisRange ''m'') oneRange)"

definition movedRange :: RangeStore where
  "movedRange = snd (applyOp (moveOp 1 genesisRange [''n2'']) oneRange)"

definition memberOf :: "RangeStore \<Rightarrow> ReplicatedState" where
  "memberOf s = \<lparr>stDb = newDatabase, stRanges = s, stWalPath = [], stIndex = 0, stWal = []\<rparr>"

definition calmRaft :: raftEnv where
  "calmRaft =
     \<lparr>isLeader = True, leaderID = ''n1'', leaderAddr = ''a1'', leaderAddr2 = [], servers = Inr [(''n1'', True)], commits = (\<lambda>_. None),
      indexOf = (\<lambda>_. 1), barrier = None, callRange = (\<lambda>_ _. Inr (EntryOK 0)), callForward = (\<lambda>_ _. Inr noResult), polls = (\<lambda>_. []),
      walDisk = (\<lambda>b. (length b, None))\<rparr>"

lemma oneRange_simp: "oneRange = \<lparr>rsRanges = [(1, genesisRange)], rsAssign = [], rsNext = 2\<rparr>"
  by (simp add: oneRange_def applyOp_def genesisOp_def NewRangeStore_def putRange_def genesisRange_def)

lemma reached_one: "reached {oneRange} oneRange"
  by (simp add: oneRange_def reached.genesis)

lemma genesis_gen: "rGeneration genesisRange = 1"
  by (simp add: genesisRange_def)

lemma splits_genesis: "splits genesisRange ''m''"
  by (simp add: splits_def genesisRange_def)

lemma reached_two: "reached {twoRanges, oneRange} twoRanges"
  unfolding twoRanges_def
  by (rule reached.split_range[OF reached_one, of oneRange 1 genesisRange "''m''"])
    (simp_all add: oneRange_simp splits_genesis room_def genesis_gen)

lemma reached_moved: "reached {movedRange, oneRange} movedRange"
  unfolding movedRange_def
  by (rule reached.move_range[OF reached_one, of oneRange 1 genesisRange _ "[''n2'']"])
    (simp_all add: oneRange_simp room_def genesisRange_def)

lemma leads_calm: "leads calmRaft" "isLeader calmRaft"
  by (simp_all add: leads_def calmRaft_def)


theorem outdated_write_is_rejected_witness:
  "\<exists>m. applyCommitted (\<lambda>b. (0, None)) 7 (execEntryOf [''CREATE TABLE t (id INT)''] False 1 1) (memberOf movedRange) =
     (EntryFailed m, (memberOf movedRange)\<lparr>stIndex := 7\<rparr>)"
proof -
  have "outdated (execEntryOf [''CREATE TABLE t (id INT)''] False 1 1) movedRange" by code_simp
  then show ?thesis using outdated_write_is_rejected[of "{movedRange, oneRange}" "memberOf movedRange" movedRange] reached_moved
    by (simp add: memberOf_def)
qed

theorem split_divides_the_range_witness:
  "\<exists>l r st'. SplitRange calmRaft 1 ''m'' [''users''] (memberOf oneRange) = (Inr (l, r), st') \<and>
     Lookup ''apple'' (stRanges st') = Inr l \<and> Lookup ''zebra'' (stRanges st') = Inr r \<and> mget (rsAssign (stRanges st')) ''users'' = Some (rID l)"
proof -
  have "partitioned oneRange" using genesis_partitioned by (simp add: oneRange_def)
  moreover have "ByID 1 oneRange = Inr genesisRange" by (simp add: oneRange_simp ByID_def)
  moreover have "ToLower ''users'' = ''users''" "''apple'' < (''m'' :: string)" "\<not> ''zebra'' < (''m'' :: string)" by code_simp+
  ultimately show ?thesis
    using split_divides_the_range[of "memberOf oneRange" 1 genesisRange "''m''" calmRaft "[''users'']"] splits_genesis leads_calm(1)
    by (auto simp: memberOf_def afterSplit_def oneRange_simp Contains_key_iff genesisRange_def)
qed

text \<open>
  \<^verbatim>\<open>SplitRange\<close> does not look at the key: at the empty key it answers with two ranges that both own every key.
\<close>

lemma split_at_empty_key:
  "case SplitRange calmRaft 1 [] [] (memberOf oneRange) of
     (rep, st') \<Rightarrow> \<not> isl rep \<and> ByID 2 (stRanges st') \<noteq> ByID 3 (stRanges st') \<and>
       (\<forall>i \<in> {2, 3}. case ByID i (stRanges st') of Inl _ \<Rightarrow> False | Inr r \<Rightarrow> \<forall>key. Contains_key r key)"
proof -
  let ?st = "snd (SplitRange calmRaft 1 [] [] (memberOf oneRange))"
  have "\<not> isl (fst (SplitRange calmRaft 1 [] [] (memberOf oneRange)))"
    "map_sum (\<lambda>_. ()) (\<lambda>r. (rID r, rStart r, rEnd r)) (ByID 2 (stRanges ?st)) = Inr (2, [], [])"
    "map_sum (\<lambda>_. ()) (\<lambda>r. (rID r, rStart r, rEnd r)) (ByID 3 (stRanges ?st)) = Inr (3, [], [])" by code_simp+
  then show ?thesis by (cases "ByID 2 (stRanges ?st)"; cases "ByID 3 (stRanges ?st)") (auto simp: split_beta Contains_key_iff)
qed

end
