(* ===== verification/Replica.thy ===== *)
theory Replica
  imports Directory
begin

text \<open>
  Members of a cluster that apply the same entries agree on tables, directory and results (\<open>replicas_converge\<close>), a
  snapshot of the directory restores it, and a batch committed as one entry is atomic. A counterexample shows a node that
  joins with a copied directory and then applies the log from its beginning.
\<close>

declare map_of_eq_Some_iff [simp del] Some_eq_map_of_iff [simp del]

section \<open>Members that apply the same entries agree\<close>

text \<open>
  Members agree when they have the same tables and the same directory. The leader a range names is left out: every node
  sets it by itself after an election.
\<close>

definition leaderless :: "Range \<Rightarrow> Range" where
  "leaderless r = r\<lparr>rLeader := []\<rparr>"

definition agree :: "RangeStore \<Rightarrow> RangeStore \<Rightarrow> bool" where
  "agree s s' \<longleftrightarrow> rsNext s = rsNext s' \<and> mget (rsAssign s) = mget (rsAssign s') \<and>
     (\<forall>i. map_option leaderless (mget (rsRanges s) i) = map_option leaderless (mget (rsRanges s') i))"

definition members_agree :: "ReplicatedState \<Rightarrow> ReplicatedState \<Rightarrow> bool" where
  "members_agree a b \<longleftrightarrow> Tables (stDb a) = Tables (stDb b) \<and> agree (stRanges a) (stRanges b)"

lemma agree_refl [simp]: "agree s s"
  by (simp add: agree_def)

lemma agree_trans: "agree s s' \<Longrightarrow> agree s' s'' \<Longrightarrow> agree s s''"
  by (simp add: agree_def)

lemma agree_sym: "agree s s' \<Longrightarrow> agree s' s"
  by (simp add: agree_def)

lemma agree_get:
  assumes "agree s s'"
  shows "mget (rsRanges s) i = None \<longleftrightarrow> mget (rsRanges s') i = None"
    "mget (rsRanges s) i = Some r \<Longrightarrow> \<exists>r'. mget (rsRanges s') i = Some r' \<and> rGeneration r' = rGeneration r"
proof -
  have e: "map_option leaderless (mget (rsRanges s) i) = map_option leaderless (mget (rsRanges s') i)" using assms by (simp add: agree_def)
  then show "mget (rsRanges s) i = None \<longleftrightarrow> mget (rsRanges s') i = None"
    by (cases "mget (rsRanges s) i"; cases "mget (rsRanges s') i") auto
  assume "mget (rsRanges s) i = Some r"
  with e obtain r' where r': "mget (rsRanges s') i = Some r'" "leaderless r = leaderless r'" by (cases "mget (rsRanges s') i") auto
  then have "rGeneration (leaderless r) = rGeneration (leaderless r')" by simp
  then show "\<exists>r'. mget (rsRanges s') i = Some r' \<and> rGeneration r' = rGeneration r" using r'(1) by (auto simp: leaderless_def)
qed

lemma agree_checkBase:
  assumes "agree s s'"
  shows "checkBase base (rsRanges s) = checkBase base (rsRanges s')"
proof (induction base)
  case (Cons p base)
  obtain i g where p: "p = (i, g)" by fastforce
  show ?case
  proof (cases "mget (rsRanges s) i")
    case None
    then show ?thesis using agree_get(1)[OF assms, of i] p by simp
  next
    case (Some r)
    then obtain r' where "mget (rsRanges s') i = Some r'" "rGeneration r' = rGeneration r" using agree_get(2)[OF assms Some] by blast
    then show ?thesis using Some Cons p by simp
  qed
qed simp

lemma agree_fenced:
  assumes "agree s s'"
  shows "fenced e s = fenced e s'"
proof (cases "mget (rsRanges s) (eRangeID e)")
  case None
  then show ?thesis using agree_get(1)[OF assms, of "eRangeID e"] by (simp add: fenced_def ByID_def)
next
  case (Some r)
  then obtain r' where "mget (rsRanges s') (eRangeID e) = Some r'" "rGeneration r' = rGeneration r" using agree_get(2)[OF assms Some] by blast
  then show ?thesis using Some by (simp add: fenced_def ByID_def)
qed

lemma agree_ranges:
  "agree s s' \<Longrightarrow> agree (s\<lparr>rsRanges := mdel (rsRanges s) i\<rparr>) (s'\<lparr>rsRanges := mdel (rsRanges s') i\<rparr>)"
  "agree s s' \<Longrightarrow> agree (putRange r s) (putRange r s')"
  "agree s s' \<Longrightarrow> mget a = mget a' \<Longrightarrow> agree (s\<lparr>rsAssign := a\<rparr>) (s'\<lparr>rsAssign := a'\<rparr>)"
  by (simp_all add: agree_def gomap_simps putRange_def Let_def)

lemma agree_removes: "agree s s' \<Longrightarrow>
    agree (s\<lparr>rsRanges := fold (\<lambda>i m. mdel m i) is (rsRanges s)\<rparr>) (s'\<lparr>rsRanges := fold (\<lambda>i m. mdel m i) is (rsRanges s')\<rparr>)"
proof (induction "is" arbitrary: s s')
  case (Cons i js)
  show ?case using Cons.IH[OF agree_ranges(1)[OF Cons.prems, of i]] by simp
qed simp

lemma agree_puts: "agree s s' \<Longrightarrow> agree (fold putRange rs s) (fold putRange rs s')"
  by (induction rs arbitrary: s s') (auto intro: agree_ranges(2))

lemma mget_assigns: "mget a = mget a' \<Longrightarrow> mget (fold (\<lambda>(t, i) m. mset_at m t i) xs a) = mget (fold (\<lambda>(t, i) m. mset_at m t i) xs a')"
  unfolding fun_eq_iff mget_fold_update by (simp split: option.splits)

lemma mget_unassigns: "mget a = mget a' \<Longrightarrow> mget (fold (\<lambda>t m. mdel m t) ts a) = mget (fold (\<lambda>t m. mdel m t) ts a')"
  by (induction ts arbitrary: a a') (auto simp: fun_eq_iff gomap_simps)

lemma applyOp_agree:
  assumes "agree s s'"
  shows "fst (applyOp op s) = fst (applyOp op s') \<and> agree (snd (applyOp op s)) (snd (applyOp op s'))"
proof (cases "checkBase (opBase op) (rsRanges s)")
  case None
  let ?t = "\<lambda>s. fold putRange (opRanges op) (s\<lparr>rsRanges := fold (\<lambda>i m. mdel m i) (opRemove op) (rsRanges s)\<rparr>)"
  have t: "agree (?t s) (?t s')" using agree_puts agree_removes assms by blast
  then have "mget (rsAssign (?t s)) = mget (rsAssign (?t s'))" by (simp add: agree_def)
  then show ?thesis using None agree_checkBase[OF assms, of "opBase op"] agree_ranges(3)[OF t mget_unassigns[OF mget_assigns]]
    by (simp add: applyOp_def Let_def)
qed (simp add: applyOp_def agree_checkBase[OF assms, symmetric] assms)

text \<open>The engine's part: results and tables depend on the tables alone.\<close>

lemma execEntry_agree:
  "Tables d = Tables d' \<Longrightarrow> fst (execEntry n acc sqls d) = fst (execEntry n acc sqls d') \<and>
     Tables (snd (execEntry n acc sqls d)) = Tables (snd (execEntry n acc sqls d'))"
proof (induction sqls arbitrary: n acc d d')
  case (Cons sql sqls)
  obtain r d1 where x: "Exec sql d = (r, d1)" by fastforce
  then obtain d2 where y: "Exec sql d' = (r, d2)" "Tables d1 = Tables d2" using Exec_same[OF Cons.prems x] by auto
  show ?case using Cons.IH[OF y(2)] x y by (cases r) auto
qed simp

lemma appendWAL_keeps [simp]: "stDb (appendWAL disk sqls st) = stDb st" "stRanges (appendWAL disk sqls st) = stRanges st"
  by (simp_all add: appendWAL_def split: option.splits)

lemma ReplaceFrom_simp: "ReplaceFrom c d = (None, d\<lparr>Tables := Tables (cloneImage c), revision := revision d + 1\<rparr>)"
  by (simp add: ReplaceFrom_def replace_db_def Let_def)

lemma execLocked_agree:
  assumes "members_agree a b"
  shows "fst (execLocked disk e a) = fst (execLocked disk' e b) \<and> members_agree (snd (execLocked disk e a)) (snd (execLocked disk' e b))"
proof -
  have t: "Tables (stDb a) = Tables (stDb b)" and g: "agree (stRanges a) (stRanges b)" using assms by (auto simp: members_agree_def)
  have c: "Tables (Clone (stDb a)) = Tables (Clone (stDb b))" using cloneImage_Tables[OF t] by (simp add: Clone_def)
  obtain r1 d1 where x: "execEntry 0 0 (eSQLs e) (stDb a) = (r1, d1)" by fastforce
  obtain r2 d2 where y: "execEntry 0 0 (eSQLs e) (Clone (stDb a)) = (r2, d2)" by fastforce
  obtain d1' where x': "execEntry 0 0 (eSQLs e) (stDb b) = (r1, d1')" "Tables d1 = Tables d1'"
    using execEntry_agree[OF t, of 0 0 "eSQLs e"] x by (metis fst_conv prod.collapse snd_conv)
  obtain d2' where y': "execEntry 0 0 (eSQLs e) (Clone (stDb b)) = (r2, d2')" "Tables d2 = Tables d2'"
    using execEntry_agree[OF c, of 0 0 "eSQLs e"] y by (metis fst_conv prod.collapse snd_conv)
  show ?thesis using x x' y y' t g cloneImage_Tables[OF y'(2)] agree_fenced[OF g, of e]
    by (auto simp: execLocked_def members_agree_def ReplaceFrom_simp split: option.splits EntryResult.splits)
qed

lemma rangeLocked_agree:
  assumes "members_agree a b"
  shows "fst (rangeLocked e a) = fst (rangeLocked e b) \<and> members_agree (snd (rangeLocked e a)) (snd (rangeLocked e b))"
proof (cases "eOp e")
  case (Some op)
  then show ?thesis using assms applyOp_agree[of "stRanges a" "stRanges b" op]
    by (auto simp: rangeLocked_def members_agree_def split: prod.splits option.splits)
qed (simp add: rangeLocked_def assms)

lemma applyCommitted_agree:
  assumes "members_agree a b"
  shows "fst (applyCommitted disk i e a) = fst (applyCommitted disk' j e b) \<and>
    members_agree (snd (applyCommitted disk i e a)) (snd (applyCommitted disk' j e b))"
  using execLocked_agree[OF assms, of disk e disk'] rangeLocked_agree[OF assms, of e] assms
  by (cases "eKind e") (auto simp: applyCommitted_def members_agree_def split: prod.splits)

text \<open>What a member does: it applies committed entries and follows elections, on a disk of its own.\<close>

datatype memberEvent = Committed "64 word" Entry | Elected string

fun memberRun :: "(string \<Rightarrow> nat \<times> error option) \<Rightarrow> memberEvent list \<Rightarrow> ReplicatedState \<Rightarrow> EntryResult list \<times> ReplicatedState" where
  "memberRun disk [] st = ([], st)"
| "memberRun disk (Committed i e # evs) st =
     (case applyCommitted disk i e st of (r, st') \<Rightarrow> (case memberRun disk evs st' of (rs, st'') \<Rightarrow> (r # rs, st'')))"
| "memberRun disk (Elected l # evs) st = memberRun disk evs (st\<lparr>stRanges := syncLeaderRanges l (stRanges st)\<rparr>)"

fun entriesOf :: "memberEvent list \<Rightarrow> Entry list" where
  "entriesOf [] = []"
| "entriesOf (Committed i e # evs) = e # entriesOf evs"
| "entriesOf (Elected l # evs) = entriesOf evs"

lemma sync_agree: "agree s (syncLeaderRanges l s)"
proof -
  have one: "agree s (SetRangeLeader i l s)" for i s
    by (auto simp: agree_def SetRangeLeader_def leaderless_def gomap_simps split: option.splits)
  have "agree s (fold (\<lambda>r. SetRangeLeader (rID r) l) rs s)" for rs :: "Range list"
  proof (induction rs arbitrary: s)
    case (Cons r rs)
    show ?case using agree_trans[OF one Cons.IH] by simp
  qed simp
  then show ?thesis by (simp add: syncLeaderRanges_def)
qed

fun execute :: "Entry list \<Rightarrow> ReplicatedState \<Rightarrow> EntryResult list \<times> ReplicatedState" where
  "execute [] st = ([], st)"
| "execute (e # es) st =
     (case applyCommitted (\<lambda>b. (0, None)) 0 e st of (r, st') \<Rightarrow> (case execute es st' of (rs, st'') \<Rightarrow> (r # rs, st'')))"

lemma members_agree_trans: "members_agree a b \<Longrightarrow> members_agree b c \<Longrightarrow> members_agree a c"
  by (auto simp: members_agree_def intro: agree_trans)

lemma members_agree_sym: "members_agree a b \<Longrightarrow> members_agree b a"
  by (auto simp: members_agree_def intro: agree_sym)

text \<open>A member's run is the plain execution of its entries.\<close>

lemma memberRun_execute:
  "members_agree a b \<Longrightarrow> fst (memberRun disk evs a) = fst (execute (entriesOf evs) b) \<and>
     members_agree (snd (memberRun disk evs a)) (snd (execute (entriesOf evs) b))"
proof (induction evs arbitrary: a b rule: entriesOf.induct)
  case (2 i e evs)
  note s = applyCommitted_agree[OF "2.prems", of disk i e "\<lambda>b. (0, None)" 0]
  show ?case using "2.IH"[of "snd (applyCommitted disk i e a)" "snd (applyCommitted (\<lambda>b. (0, None)) 0 e b)"] s
    by (simp add: split_beta)
next
  case (3 l evs)
  have "members_agree (a\<lparr>stRanges := syncLeaderRanges l (stRanges a)\<rparr>) b"
    using "3.prems" agree_trans[OF agree_sym[OF sync_agree]] by (simp add: members_agree_def)
  then show ?case using "3.IH" by simp
qed simp



section \<open>Snapshots of the directory\<close>

lemma mget_rangeMap: "distinct (map rID rs) \<Longrightarrow> mget (fold (\<lambda>r m. mset_at m (rID r) r) rs m) i =
    (case find (\<lambda>r. rID r = i) rs of None \<Rightarrow> mget m i | Some r \<Rightarrow> Some r)"
proof (induction rs arbitrary: m)
  case (Cons r rs)
  have "find (\<lambda>q. rID q = rID r) rs = None" using Cons.prems by (auto simp: find_None_iff) (metis image_eqI)
  then show ?case using Cons by (auto simp: gomap_simps split: option.splits)
qed simp

lemma maxID_bound: "(\<And>r. r \<in> set rs \<Longrightarrow> rID r < n) \<Longrightarrow> m < n \<Longrightarrow> fold (\<lambda>r m. if rID r > m then rID r else m) rs m < n"
  by (induction rs arbitrary: m) auto

lemma rangeMap_All:
  assumes "ids_ok s"
  shows "mget (rangeMap (All_ranges s)) i = mget (rsRanges s) i"
proof -
  have d: "distinct (map rID (All_ranges s))" using sorted_ids[OF ranges_sorted(2)[OF assms]] .
  have m: "r \<in> set (All_ranges s) \<longleftrightarrow> mget (rsRanges s) (rID r) = Some r" for r using ranges_sorted(1)[OF assms] by auto
  have i: "mget (rsRanges s) j = Some r \<Longrightarrow> rID r = j" for j r using assms by (simp add: ids_ok_def)
  show ?thesis
  proof (cases "find (\<lambda>r. rID r = i) (All_ranges s)")
    case None
    then have "mget (rsRanges s) i \<noteq> Some r" for r using m[of r] i[of i r] by (auto simp: find_None_iff)
    then show ?thesis using None by (cases "mget (rsRanges s) i") (auto simp: rangeMap_def mget_rangeMap[OF d])
  next
    case (Some r)
    then have "r \<in> set (All_ranges s)" "rID r = i" by (auto simp: find_Some_iff in_set_conv_nth)
    then show ?thesis using Some m by (auto simp: rangeMap_def mget_rangeMap[OF d])
  qed
qed

lemma restored_directory:
  assumes "ids_ok s" "mwf (rsAssign s)"
  shows "agree (restoreRanges (All_ranges s) (rsAssign s) (rsNext s) s0) s"
proof -
  have "rID r < rsNext s" if "r \<in> set (All_ranges s)" for r
  proof -
    have "mget (rsRanges s) (rID r) = Some r" using that ranges_sorted(1)[OF assms(1)] by simp
    then show ?thesis using assms(1) unfolding ids_ok_def by blast
  qed
  then have "maxID (All_ranges s) < rsNext s" unfolding maxID_def using assms by (intro maxID_bound) (auto simp: ids_ok_def)
  moreover have "0 < rsNext s" using assms(1) by (simp add: ids_ok_def)
  ultimately have n: "rsNext (restoreRanges (All_ranges s) (rsAssign s) (rsNext s) s0) = rsNext s"
    by (auto simp: restoreRanges_def Let_def)
  have "mget (rsAssign (restoreRanges (All_ranges s) (rsAssign s) (rsNext s) s0)) = mget (rsAssign s)"
    by (rule ext) (simp add: restoreRanges_def Let_def mget_fold_update mget_rev_mwf[OF assms(2)] split: option.splits)
  then show ?thesis using n rangeMap_All[OF assms(1)] by (simp add: agree_def) (simp add: restoreRanges_def Let_def)
qed

lemma putRanges_assign: "rsAssign (fold putRange rs s) = rsAssign s"
  by (induction rs arbitrary: s) (auto simp: putRange_def Let_def)

lemma applyOp_assign: "mwf (rsAssign s) \<Longrightarrow> mwf (rsAssign (snd (applyOp op s)))"
proof -
  have "mwf (fold (\<lambda>(t, i) m. mset_at m t i) a m)" if "mwf m" for a :: "(string, 64 word) gomap" and m
    using that by (induction a arbitrary: m) auto
  moreover have "mwf (fold (\<lambda>t m. mdel m t) ts m)" if "mwf m" for ts and m :: "(string, 64 word) gomap"
    using that by (induction ts arbitrary: m) auto
  ultimately show "mwf (rsAssign s) \<Longrightarrow> ?thesis" by (simp add: applyOp_def Let_def putRanges_assign split: option.splits)
qed

lemma sync_assign: "rsAssign (syncLeaderRanges l s) = rsAssign s"
proof -
  have "rsAssign (fold (\<lambda>r. SetRangeLeader (rID r) l) rs s) = rsAssign s" for rs :: "Range list"
    by (induction rs arbitrary: s) (auto simp: SetRangeLeader_def split: option.splits)
  then show ?thesis by (simp add: syncLeaderRanges_def)
qed

lemma reached_assign: "reached past s \<Longrightarrow> mwf (rsAssign s)"
  by (induction rule: reached.induct) (simp_all add: applyOp_assign sync_assign NewRangeStore_def)

text \<open>
  Restoring a snapshot of the directory gives the directory back: every range with its bounds, replicas, leader and
  generation, every assignment, and the next identifier, so that identifiers are not used twice.
\<close>

theorem directory_snapshot_roundtrip:
  assumes "reached past s"
  shows "let s' = restoreRanges (All_ranges s) (rsAssign s) (rsNext s) s0 in
    (\<forall>i. ByID i s' = ByID i s) \<and> (\<forall>key. Lookup key s' = Lookup key s) \<and> (\<forall>t. mget (rsAssign s') t = mget (rsAssign s) t) \<and> rsNext s' = rsNext s"
proof -
  have p: "partitioned s" and ok: "ids_ok s" using reached_consistent[OF assms] by (auto simp: consistent_def partitioned_def)
  let ?s' = "restoreRanges (All_ranges s) (rsAssign s) (rsNext s) s0"
  have a: "agree ?s' s" using restored_directory[OF ok reached_assign[OF assms]] .
  have g: "mget (rsRanges ?s') i = mget (rsRanges s) i" for i using rangeMap_All[OF ok] by (simp add: restoreRanges_def Let_def)
  have n: "rsNext ?s' = rsNext s" using a by (simp add: agree_def)
  have "mwf (fold (\<lambda>r m. mset_at m (rID r) r) rs m)" if "mwf m" for rs and m :: "(64 word, Range) gomap"
    using that by (induction rs arbitrary: m) auto
  then have "same_shape s ?s'" using g n by (simp add: same_shape_def) (simp add: restoreRanges_def rangeMap_def Let_def)
  then have p': "partitioned ?s'" using same_shape_partitioned[OF p] by blast
  have "Lookup key ?s' = Lookup key s" for key
  proof -
    obtain r where r: "Lookup key s = Inr r" using Lookup_total[OF p] by blast
    then show ?thesis using Lookup_iff[OF p, of key r] Lookup_iff[OF p', of key r] g by simp
  qed
  then show ?thesis using a g by (simp add: Let_def agree_def ByID_def)
qed

section \<open>Atomic batches\<close>

lemma execEntry_OK:
  "execEntry n acc sqls d = (EntryOK m, d') \<Longrightarrow>
     d' = run sqls d \<and> (\<forall>k < length sqls. \<not> isl (fst (Exec (sqls ! k) (run (take k sqls) d))))"
proof (induction sqls arbitrary: n acc d)
  case (Cons sql sqls)
  then obtain r d1 where x: "Exec sql d = (Inr r, d1)" "execEntry (n + 1) (acc + Affected r) sqls d1 = (EntryOK m, d')"
    by (auto split: prod.splits sum.splits)
  have "\<not> isl (fst (Exec ((sql # sqls) ! k) (run (take k (sql # sqls)) d)))" if "k < length (sql # sqls)" for k
    using that Cons.IH[OF x(2)] x(1) by (cases k) (auto simp: run_Cons run_def)
  then show ?case using Cons.IH[OF x(2)] x(1) by (simp add: run_Cons)
qed (simp add: run_def)

lemma atomic_entry:
  assumes "raftApply env (execEntryOf sqls True i g) st = (x, st')"
  shows "(\<exists>n c. x = Inr n \<and> execEntry 0 0 sqls (Clone (stDb st)) = (EntryOK n, c) \<and>
      stDb st' = (stDb st)\<lparr>Tables := Tables (cloneImage c), revision := revision (stDb st) + 1\<rparr>) \<or>
    (\<exists>e. x = Inl e \<and> stDb st' = stDb st \<and> stRanges st' = stRanges st \<and> stWal st' = stWal st)"
  using assms by (auto simp: raftApply_def applyCommitted_def execLocked_def execEntryOf_def ReplaceFrom_simp
      split: option.splits prod.splits EntryResult.splits)

lemma atomic_write:
  assumes "writeCommitted env sqls True i acks st = (x, st')" "isLeader env"
  shows "(\<exists>r n c. x = Inr r \<and> execEntry 0 0 sqls (Clone (stDb st)) = (EntryOK n, c) \<and>
      stDb st' = (stDb st)\<lparr>Tables := Tables (cloneImage c), revision := revision (stDb st) + 1\<rparr>) \<or>
    (\<exists>e. x = Inl e \<and> stDb st' = stDb st \<and> stRanges st' = stRanges st \<and> stWal st' = stWal st)"
proof (cases "concernError env acks")
  case None
  show ?thesis
  proof (cases "ByID i (stRanges st)")
    case (Inr rng)
    obtain y st1 where y: "raftApply env (execEntryOf sqls True i (rGeneration rng)) st = (y, st1)" by fastforce
    show ?thesis using atomic_entry[OF y] assms None Inr y by (auto simp: writeCommitted_def commitWrite_def)
  qed (use assms None in \<open>auto simp: writeCommitted_def\<close>)
qed (use assms in \<open>auto simp: writeCommitted_def\<close>)

text \<open>
  A batch sent to the leader as one entry publishes the effect of all of its statements, run one after the other on a
  copy, or answers with an error and leaves the data, the directory and the side copy as they were.
\<close>

theorem committed_batch_all_or_nothing:
  assumes "isLeader env"
  shows "case ExecAtomic env sqls st of (rep, st') \<Rightarrow>
    (\<exists>r. rep = Inr [r] \<and> Tables (stDb st') = Tables (cloneImage (run sqls (Clone (stDb st)))) \<and>
       (\<forall>k < length sqls. \<not> isl (fst (Exec (sqls ! k) (run (take k sqls) (Clone (stDb st))))))) \<or>
    (\<exists>e. rep = Inl e \<and> stDb st' = stDb st \<and> stRanges st' = stRanges st \<and> stWal st' = stWal st)"
proof (cases "sqls = [] \<or> list_ex IsReadOnly sqls")
  case False
  obtain x st' where x: "writeCommitted env sqls True (rID (TableRange (ToLower (ExtractTable (hd sqls))) (stRanges st))) 0 st = (x, st')" by fastforce
  from atomic_write[OF x assms] show ?thesis
  proof (elim disjE exE conjE)
    fix r n c assume r: "x = Inr r" "execEntry 0 0 sqls (Clone (stDb st)) = (EntryOK n, c)"
      "stDb st' = (stDb st)\<lparr>Tables := Tables (cloneImage c), revision := revision (stDb st) + 1\<rparr>"
    show ?thesis using execEntry_OK[OF r(2)] r(1,3) False x by (simp add: ExecAtomic_def)
  next
    fix e assume "x = Inl e" "stDb st' = stDb st" "stRanges st' = stRanges st" "stWal st' = stWal st"
    then show ?thesis using False x by (simp add: ExecAtomic_def)
  qed
qed (auto simp: ExecAtomic_def)

theorem directory_snapshot_roundtrip_witness:
  "ByID 3 (restoreRanges (All_ranges twoRanges) (rsAssign twoRanges) (rsNext twoRanges) NewRangeStore) = ByID 3 twoRanges \<and>
   (\<exists>r. ByID 3 twoRanges = Inr r)"
proof -
  have "isl (ByID 3 twoRanges) = False" by code_simp
  then show ?thesis using directory_snapshot_roundtrip[OF reached_two, of NewRangeStore] by (auto simp: Let_def isl_def) (meson sum.exhaust_sel)
qed

theorem committed_batch_all_or_nothing_witness:
  "case ExecAtomic calmRaft [''CREATE TABLE t (id INT)'', ''INSERT INTO t VALUES (1)''] (memberOf oneRange) of (rep, st') \<Rightarrow>
     \<not> isl rep \<and> Tables (stDb st') = Tables (cloneImage (run [''CREATE TABLE t (id INT)'', ''INSERT INTO t VALUES (1)''] (Clone newDatabase)))"
proof -
  have "\<not> isl (fst (ExecAtomic calmRaft [''CREATE TABLE t (id INT)'', ''INSERT INTO t VALUES (1)''] (memberOf oneRange)))" by code_simp
  moreover have "stDb (memberOf oneRange) = newDatabase" by (simp add: memberOf_def)
  ultimately show ?thesis
    using committed_batch_all_or_nothing[OF leads_calm(2), of "[''CREATE TABLE t (id INT)'', ''INSERT INTO t VALUES (1)'']" "memberOf oneRange"]
    by (auto split: prod.splits)
qed

section \<open>A node that joins\<close>

text \<open>
  A joining node takes over the directory of a seed before it applies the log from its beginning. A write that the
  cluster committed at an earlier generation is then rejected on the joining node alone: its tables differ from then on.
\<close>

definition clusterLog :: "Entry list" where
  "clusterLog =
     [rangeEntry (genesisOp ''n1''), rangeEntry (splitOp 1 genesisRange ''m''), execEntryOf [''CREATE TABLE t (id INT)''] False 2 2,
      rangeEntry (moveOp 2 (rangeOrZero 2 twoRanges) [''n1'', ''n2''])]"

lemma joiner_rejects_committed_write:
  "let leader = snd (execute clusterLog (memberOf NewRangeStore));
       joiner = (memberOf NewRangeStore)\<lparr>stRanges := ReplaceBulk (All_ranges (stRanges leader)) NewRangeStore\<rparr>
   in mkeys (Tables (stDb leader)) = [''t''] \<and> Tables (stDb (snd (execute clusterLog joiner))) = []"
  by code_simp

end
