(* ===== verification/Members.thy ===== *)
theory Members
  imports Replica
begin

text \<open>
  The registry of members (\<^verbatim>\<open>membership.go\<close>), the heartbeat round and the membership requests of
  \<^verbatim>\<open>node.go\<close>, and the routes of \<^verbatim>\<open>routing.go\<close>. A round of heartbeats removes nobody, and every
  table has a route.
\<close>

declare map_of_eq_Some_iff [simp del] Some_eq_map_of_iff [simp del]

section \<open>Members (membership.go)\<close>

datatype memberState = StateAlive | StateSuspect | StateLeaving | StateRemoved

text \<open>Times are nanoseconds on the node's clock; every call gets the time it reads.\<close>

record Member =
  mID :: string
  mAddr :: string
  mState :: memberState
  mLastSeen :: int
  mVersion :: "64 word"
  mRegion :: string

record Membership =
  msMembers :: "(string, Member) gomap"
  msSelf :: string
  msVersion :: "64 word"

definition NewMembership :: "int \<Rightarrow> string \<Rightarrow> string \<Rightarrow> Membership" where
  "NewMembership now selfID selfAddr =
     \<lparr>msMembers = [(selfID, \<lparr>mID = selfID, mAddr = selfAddr, mState = StateAlive, mLastSeen = now, mVersion = 1, mRegion = []\<rparr>)],
      msSelf = selfID, msVersion = 0\<rparr>"

definition putMember :: "string \<Rightarrow> Member \<Rightarrow> Membership \<Rightarrow> Membership" where
  "putMember i mb m = m\<lparr>msMembers := mset_at (msMembers m) i mb\<rparr>"

definition Upsert :: "int \<Rightarrow> string \<Rightarrow> string \<Rightarrow> memberState \<Rightarrow> 64 word \<Rightarrow> Membership \<Rightarrow> Membership" where
  "Upsert now i addr state ver m =
     (if i = [] \<or> addr = [] then m
      else case mget (msMembers m) i of
        None \<Rightarrow> (putMember i \<lparr>mID = i, mAddr = addr, mState = state, mLastSeen = now, mVersion = ver, mRegion = []\<rparr> m)\<lparr>msVersion := msVersion m + 1\<rparr>
      | Some ex \<Rightarrow>
          if mState ex = StateRemoved \<and> state \<noteq> StateAlive then m
          else if ver \<ge> mVersion ex then
            (putMember i (ex\<lparr>mAddr := addr, mState := state, mVersion := ver, mLastSeen := now\<rparr>) m)\<lparr>msVersion := msVersion m + 1\<rparr>
          else putMember i (ex\<lparr>mLastSeen := now\<rparr>) m)"

definition UpsertMember :: "int \<Rightarrow> Member \<Rightarrow> Membership \<Rightarrow> Membership" where
  "UpsertMember now r m =
     (if mID r = [] \<or> mAddr r = [] then m
      else case mget (msMembers m) (mID r) of
        None \<Rightarrow> (putMember (mID r) (r\<lparr>mLastSeen := now\<rparr>) m)\<lparr>msVersion := msVersion m + 1\<rparr>
      | Some ex \<Rightarrow>
          if mState ex = StateRemoved \<and> mState r \<noteq> StateAlive then m
          else
            let region = (if mRegion r \<noteq> [] then mRegion r else mRegion ex) in
            if mVersion r \<ge> mVersion ex then
              (putMember (mID r) (ex\<lparr>mAddr := mAddr r, mState := mState r, mVersion := mVersion r, mRegion := region, mLastSeen := now\<rparr>) m)
                \<lparr>msVersion := msVersion m + 1\<rparr>
            else putMember (mID r) (ex\<lparr>mRegion := region, mLastSeen := now\<rparr>) m)"

definition MergeBulk :: "int \<Rightarrow> Member list \<Rightarrow> Membership \<Rightarrow> Membership" where
  "MergeBulk now remote m =
     fold (\<lambda>r m. if mID r = msSelf m \<or> mID r = [] \<or> mAddr r = [] then m else UpsertMember now r m) remote m"

definition SetRegion :: "string \<Rightarrow> string \<Rightarrow> Membership \<Rightarrow> Membership" where
  "SetRegion i region m =
     (if region = [] then m
      else case mget (msMembers m) i of None \<Rightarrow> m | Some mb \<Rightarrow> putMember i (mb\<lparr>mRegion := region\<rparr>) m)"

definition MarkAlive :: "int \<Rightarrow> string \<Rightarrow> Membership \<Rightarrow> Membership" where
  "MarkAlive now i m =
     (case mget (msMembers m) i of None \<Rightarrow> m | Some mb \<Rightarrow> putMember i (mb\<lparr>mState := StateAlive, mLastSeen := now\<rparr>) m)"

definition MarkSuspect :: "string \<Rightarrow> Membership \<Rightarrow> Membership" where
  "MarkSuspect i m =
     (case mget (msMembers m) i of
        None \<Rightarrow> m
      | Some mb \<Rightarrow> if mState mb = StateAlive then putMember i (mb\<lparr>mState := StateSuspect\<rparr>) m else m)"

definition Remove :: "string \<Rightarrow> Membership \<Rightarrow> Membership" where
  "Remove i m =
     (case mget (msMembers m) i of
        None \<Rightarrow> m
      | Some mb \<Rightarrow> (putMember i (mb\<lparr>mState := StateRemoved\<rparr>) m)\<lparr>msVersion := msVersion m + 1\<rparr>)"

definition AddrOf :: "string \<Rightarrow> Membership \<Rightarrow> string option" where
  "AddrOf i m =
     (case mget (msMembers m) i of
        None \<Rightarrow> None
      | Some mb \<Rightarrow> if mState mb = StateRemoved then None else Some (mAddr mb))"

definition List_members :: "Membership \<Rightarrow> Member list" where
  "List_members m = filter (\<lambda>mb. mState mb \<noteq> StateRemoved) (map snd (msMembers m))"

definition Count :: "Membership \<Rightarrow> nat" where
  "Count m = length (filter (\<lambda>(i, mb). mState mb \<noteq> StateRemoved) (msMembers m))"

definition SweepSuspects :: "int \<Rightarrow> int \<Rightarrow> Membership \<Rightarrow> Membership" where
  "SweepSuspects after now m =
     m\<lparr>msMembers := mmap (\<lambda>i mb. if i = msSelf m \<or> mState mb \<noteq> StateAlive then mb
                                 else if now - mLastSeen mb > after then mb\<lparr>mState := StateSuspect\<rparr> else mb) (msMembers m)\<rparr>"

section \<open>Heartbeats and membership requests (node.go)\<close>

record PingReply =
  prNodeID :: string
  prClusterID :: string
  prRegion :: string
  prMembers :: "Member list"

text \<open>One round of \<^verbatim>\<open>heartbeatLoop\<close>; \<open>ping\<close> is the answer of a peer, if it answers.\<close>

definition heartbeatPeer :: "string \<Rightarrow> (string \<Rightarrow> PingReply option) \<Rightarrow> int \<Rightarrow> Member \<Rightarrow> Membership \<Rightarrow> Membership" where
  "heartbeatPeer clusterID ping now mb m =
     (if mID mb = msSelf m then m
      else case ping (mAddr mb) of
        None \<Rightarrow> MarkSuspect (mID mb) m
      | Some out \<Rightarrow>
          if prClusterID out \<noteq> [] \<and> prClusterID out \<noteq> clusterID then m
          else UpsertMember now
                 \<lparr>mID = prNodeID out, mAddr = mAddr mb, mState = StateAlive, mLastSeen = 0, mVersion = mVersion mb, mRegion = prRegion out\<rparr>
                 (MarkAlive now (mID mb) (MergeBulk now (prMembers out) m)))"

definition heartbeat :: "string \<Rightarrow> int \<Rightarrow> (string \<Rightarrow> PingReply option) \<Rightarrow> int \<Rightarrow> Membership \<Rightarrow> Membership" where
  "heartbeat clusterID after ping now m =
     SweepSuspects after now (fold (heartbeatPeer clusterID ping now) (List_members m) m)"

text \<open>\<open>addVoter\<close> and \<open>removeServer\<close> are the outcomes of Raft's configuration changes.\<close>

definition handleJoin ::
  "raftEnv \<Rightarrow> raftError option \<Rightarrow> string \<Rightarrow> int \<Rightarrow> Member \<Rightarrow> string \<Rightarrow> Membership \<Rightarrow> clusterError option \<times> Membership" where
  "handleJoin env addVoter clusterID now mb theirID m =
     (if theirID \<noteq> [] \<and> theirID \<noteq> clusterID then
        (Some (NewError CodeClusterMismatch (Msg ''joining node belongs to a different cluster'')), m)
      else if mID mb = [] \<or> mAddr mb = [] then (Some (NewError CodeInvalidArgument (Msg ''join requires id and addr'')), m)
      else if \<not> isLeader env then
        if leaderAddr env = [] then (Some ((NewError CodeNoLeader (Msg ''no leader to admit join''))\<lparr>ceRetryable := True\<rparr>), m)
        else (Some ((NewError CodeNoLeader (Msg (''join via leader '' @ leaderAddr env)))\<lparr>ceRetryable := True\<rparr>), m)
      else case raftApplyError addVoter of
        Some e \<Rightarrow> (Some e, m)
      | None \<Rightarrow> (None, UpsertMember now (mb\<lparr>mState := StateAlive, mLastSeen := now\<rparr>) m))"

definition handleLeave :: "string \<Rightarrow> Membership \<Rightarrow> Membership" where
  "handleLeave i m = Remove i m"

definition handleRemove :: "raftEnv \<Rightarrow> raftError option \<Rightarrow> string \<Rightarrow> Membership \<Rightarrow> clusterError option \<times> Membership" where
  "handleRemove env removeServer i m =
     (if \<not> isLeader env then (Some (NewError CodeNoLeader (Msg ''only the leader removes voters'')), m)
      else case raftApplyError removeServer of
        Some e \<Rightarrow> (Some e, m)
      | None \<Rightarrow> (None, Remove i m))"

section \<open>Routes (routing.go)\<close>

record Route =
  rtRange :: Range
  rtAddr :: string
  rtLocal :: bool
  rtLeader :: string

definition routeToRange :: "string \<Rightarrow> Membership \<Rightarrow> Range \<Rightarrow> Route" where
  "routeToRange self m rng =
     (let target = (if rLeader rng = [] \<and> rReplicas rng \<noteq> [] then hd (rReplicas rng) else rLeader rng);
          addr = (case AddrOf target m of None \<Rightarrow> [] | Some a \<Rightarrow> a)
      in \<lparr>rtRange = rng, rtAddr = addr, rtLocal = (target = self \<or> (target = [] \<and> HasReplica rng self)), rtLeader = target\<rparr>)"

definition RouteKey :: "string \<Rightarrow> Membership \<Rightarrow> string \<Rightarrow> string \<Rightarrow> RangeStore \<Rightarrow> clusterError + Route" where
  "RouteKey self m table key s =
     (case Lookup (table @ ''/'' @ key) s of Inl e \<Rightarrow> Inl e | Inr rng \<Rightarrow> Inr (routeToRange self m rng))"

definition RouteTable :: "string \<Rightarrow> Membership \<Rightarrow> string \<Rightarrow> RangeStore \<Rightarrow> clusterError + Route" where
  "RouteTable self m table s =
     (let lowered = ToLower table; assigned = TableRange lowered s in
      if rID assigned \<noteq> 0 then Inr (routeToRange self m assigned) else RouteKey self m lowered [] s)"

section \<open>A failed health check removes nobody\<close>

definition visible :: "string \<Rightarrow> Membership \<Rightarrow> bool" where
  "visible i m \<longleftrightarrow> (\<exists>mb. mget (msMembers m) i = Some mb \<and> mState mb \<noteq> StateRemoved)"

lemma AddrOf_visible: "AddrOf i m = None \<longleftrightarrow> \<not> visible i m"
  by (auto simp: AddrOf_def visible_def split: option.splits)

text \<open>Nobody who could be reached is lost, and the node's own record is as it was.\<close>

definition retains :: "Membership \<Rightarrow> Membership \<Rightarrow> bool" where
  "retains m m' \<longleftrightarrow> msSelf m' = msSelf m \<and> mget (msMembers m') (msSelf m) = mget (msMembers m) (msSelf m) \<and>
     (\<forall>i. visible i m \<longrightarrow> visible i m')"

lemma retains_refl [simp]: "retains m m"
  by (simp add: retains_def)

lemma retains_trans: "retains m m' \<Longrightarrow> retains m' m'' \<Longrightarrow> retains m m''"
  by (simp add: retains_def)

lemma retains_put:
  assumes "i \<noteq> msSelf m" "mState mb \<noteq> StateRemoved"
  shows "retains m (putMember i mb m)" "retains m ((putMember i mb m)\<lparr>msVersion := v\<rparr>)"
  using assms by (simp_all add: retains_def putMember_def visible_def gomap_simps)

lemma retains_same_state:
  assumes "i \<noteq> msSelf m" "mget (msMembers m) i = Some mb0" "mState mb = mState mb0"
  shows "retains m (putMember i mb m)"
  using assms by (auto simp: retains_def putMember_def visible_def gomap_simps)

lemma UpsertMember_retains: "mID r \<noteq> msSelf m \<Longrightarrow> mState r \<noteq> StateRemoved \<Longrightarrow> retains m (UpsertMember now r m)"
  by (cases "mget (msMembers m) (mID r)")
    (auto simp: UpsertMember_def Let_def intro: retains_put retains_same_state)

lemma MarkSuspect_retains: "i \<noteq> msSelf m \<Longrightarrow> retains m (MarkSuspect i m)"
  by (auto simp: MarkSuspect_def intro: retains_put split: option.splits)

lemma MarkAlive_retains: "i \<noteq> msSelf m \<Longrightarrow> retains m (MarkAlive now i m)"
  by (auto simp: MarkAlive_def intro: retains_put split: option.splits)

lemma retains_self: "retains m m' \<Longrightarrow> msSelf m' = msSelf m"
  by (simp add: retains_def)

lemma MergeBulk_retains: "\<forall>r \<in> set rs. mState r \<noteq> StateRemoved \<Longrightarrow> retains m (MergeBulk now rs m)"
proof (induction rs arbitrary: m)
  case (Cons r rs)
  define m1 where "m1 = (if mID r = msSelf m \<or> mID r = [] \<or> mAddr r = [] then m else UpsertMember now r m)"
  have "retains m m1" using Cons.prems UpsertMember_retains by (auto simp: m1_def)
  moreover have "retains m1 (MergeBulk now rs m1)" using Cons.IH[of m1] Cons.prems by simp
  moreover have "MergeBulk now (r # rs) m = MergeBulk now rs m1" by (simp add: MergeBulk_def m1_def)
  ultimately show ?case using retains_trans by metis
qed (simp add: MergeBulk_def)

lemma SweepSuspects_retains: "retains m (SweepSuspects after now m)"
proof -
  let ?f = "\<lambda>i mb. if i = msSelf m \<or> mState mb \<noteq> StateAlive then mb
                    else if now - mLastSeen mb > after then mb\<lparr>mState := StateSuspect\<rparr> else mb"
  have g: "mget (msMembers (SweepSuspects after now m)) i = map_option (?f i) (mget (msMembers m) i)" for i
    by (simp add: SweepSuspects_def mget_mmap)
  have "mState (?f i mb) \<noteq> StateRemoved" if "mState mb \<noteq> StateRemoved" for i mb using that by simp
  then have "visible i (SweepSuspects after now m)" if "visible i m" for i using that g[of i] unfolding visible_def by fastforce
  moreover have "mget (msMembers (SweepSuspects after now m)) (msSelf m) = mget (msMembers m) (msSelf m)"
    using g[of "msSelf m"] by (simp add: option.map_ident)
  ultimately show ?thesis unfolding retains_def by (simp add: SweepSuspects_def)
qed

text \<open>Answers of the peers: they list nobody as removed and do not claim the node's own identifier.\<close>

definition sane_replies :: "string \<Rightarrow> (string \<Rightarrow> PingReply option) \<Rightarrow> bool" where
  "sane_replies self ping \<longleftrightarrow>
     (\<forall>addr out. ping addr = Some out \<longrightarrow> prNodeID out \<noteq> self \<and> (\<forall>r \<in> set (prMembers out). mState r \<noteq> StateRemoved))"

lemma heartbeatPeer_retains:
  assumes "sane_replies (msSelf m) ping"
  shows "retains m (heartbeatPeer c ping now mb m)"
proof (cases "mID mb = msSelf m")
  case False
  show ?thesis
  proof (cases "ping (mAddr mb)")
    case None
    then show ?thesis using False by (simp add: heartbeatPeer_def MarkSuspect_retains)
  next
    case (Some out)
    let ?m1 = "MergeBulk now (prMembers out) m" let ?m2 = "MarkAlive now (mID mb) ?m1"
    have 1: "retains m ?m1" using assms Some by (intro MergeBulk_retains) (auto simp: sane_replies_def)
    have 2: "retains ?m1 ?m2" using False retains_self[OF 1] by (intro MarkAlive_retains) simp
    have "msSelf ?m2 = msSelf m" using retains_self[OF 1] retains_self[OF 2] by simp
    then have "retains ?m2 (UpsertMember now
        \<lparr>mID = prNodeID out, mAddr = mAddr mb, mState = StateAlive, mLastSeen = 0, mVersion = mVersion mb, mRegion = prRegion out\<rparr> ?m2)"
      using assms Some by (intro UpsertMember_retains) (auto simp: sane_replies_def)
    then show ?thesis using Some False retains_trans[OF retains_trans[OF 1 2]] by (simp add: heartbeatPeer_def)
  qed
qed (simp add: heartbeatPeer_def)

text \<open>
  C28: a round of heartbeats loses no member that could be reached before it, however many peers fail to answer, and leaves
  the node's own record alone.
\<close>

theorem heartbeat_removes_nobody:
  assumes "sane_replies (msSelf m) ping"
  shows "retains m (heartbeat clusterID after ping now m)"
proof -
  have "retains m' (fold (heartbeatPeer clusterID ping now) mbs m')" if "msSelf m' = msSelf m" for mbs m'
    using that
  proof (induction mbs arbitrary: m')
    case (Cons mb mbs)
    have "retains m' (heartbeatPeer clusterID ping now mb m')" using assms Cons.prems by (intro heartbeatPeer_retains) simp
    then show ?case using Cons retains_trans retains_self by fastforce
  qed simp
  then show ?thesis using retains_trans[OF _ SweepSuspects_retains] by (simp add: heartbeat_def)
qed

text \<open>
  A member that was removed comes back with the next list of a peer that still has it alive: the removal does not
  raise the version, and an alive record is taken over a removed one.
\<close>

lemma removed_member_returns:
  assumes "visible i m" "i \<noteq> msSelf m" "i \<noteq> []" "mget (msMembers m) i = Some mb" "mID mb = i" "mState mb = StateAlive" "mAddr mb \<noteq> []"
  shows "\<not> visible i (Remove i m) \<and> visible i (MergeBulk now [mb] (Remove i m))"
  using assms by (simp add: Remove_def MergeBulk_def UpsertMember_def visible_def putMember_def gomap_simps)

section \<open>Every table has a route\<close>

lemma lowestID_mem: "rs \<noteq> [] \<Longrightarrow> lowestID None rs \<in> set rs \<and> (\<forall>r \<in> set rs. rID (lowestID None rs) \<le> rID r)"
proof -
  have "lowestID (Some b) rs \<in> insert b (set rs) \<and> (\<forall>r \<in> insert b (set rs). rID (lowestID (Some b) rs) \<le> rID r)" for b rs
  proof (induction rs arbitrary: b)
    case (Cons r rs)
    show ?case
    proof (cases "rID r < rID b")
      case True
      then show ?thesis using Cons.IH[of r] by force
    next
      case False
      then show ?thesis using Cons.IH[of b] by force
    qed
  qed simp
  then show "rs \<noteq> [] \<Longrightarrow> ?thesis" by (cases rs) auto
qed

text \<open>
  In every reachable directory each table is routed to a range of the directory: the one it is assigned to while
  that exists, and the lowest numbered one otherwise.
\<close>

theorem every_table_has_a_route:
  assumes "reached past s"
  shows "\<exists>r. RouteTable self m table s = Inr (routeToRange self m r) \<and> ByID (rID r) s = Inr r \<and>
    (case mget (rsAssign s) (ToLower table) of
       Some i \<Rightarrow> if \<exists>q. ByID i s = Inr q then rID r = i else \<forall>j q. ByID j s = Inr q \<longrightarrow> rID r \<le> j
     | None \<Rightarrow> \<forall>j q. ByID j s = Inr q \<longrightarrow> rID r \<le> j)"
proof -
  have p: "partitioned s" using reached_consistent[OF assms] by (simp add: consistent_def)
  let ?low = "lowestID None (map snd (rsRanges s))"
  have mem: "r \<in> set (map snd (rsRanges s)) \<longleftrightarrow> mget (rsRanges s) (rID r) = Some r" for r
    using ranges_sorted(1)[of s] p by (auto simp: partitioned_def All_ranges_def)
  obtain r0 where "Lookup [] s = Inr r0" using Lookup_total[OF p] by blast
  then have "r0 \<in> set (map snd (rsRanges s))" using Lookup_iff[OF p] mem by blast
  then have "map snd (rsRanges s) \<noteq> []" by (metis empty_iff empty_set)
  from lowestID_mem[OF this] have low: "ByID (rID ?low) s = Inr ?low" "\<forall>j q. ByID j s = Inr q \<longrightarrow> rID ?low \<le> j"
    using partitionedD(3)[OF p] unfolding mem ByID_Inr by (blast, metis mem)
  have route: "RouteTable self m table s = Inr (routeToRange self m r)" if "TableRange (ToLower table) s = r" "ByID (rID r) s = Inr r" for r
    using that partitionedD(3)[OF p, of "rID r" r] unfolding ByID_Inr RouteTable_def Let_def by auto
  show ?thesis
  proof (cases "case mget (rsAssign s) (ToLower table) of None \<Rightarrow> None | Some i \<Rightarrow> mget (rsRanges s) i")
    case None
    then have "TableRange (ToLower table) s = ?low" by (simp add: TableRange_def)
    then show ?thesis using route low None by (auto simp: ByID_Inr intro!: exI[of _ ?low] split: option.splits)
  next
    case (Some r)
    then obtain i where i: "mget (rsAssign s) (ToLower table) = Some i" "mget (rsRanges s) i = Some r" by (auto split: option.splits)
    then have "TableRange (ToLower table) s = r" "rID r = i" using partitionedD(3)[OF p i(2)] by (simp_all add: TableRange_def)
    then show ?thesis using route[of r] i by (auto simp: ByID_Inr intro!: exI[of _ r])
  qed
qed

theorem heartbeat_removes_nobody_witness:
  "visible ''n2'' (heartbeat ''c'' 5 (\<lambda>_. None) 9 (Upsert 0 ''n2'' ''a2'' StateAlive 1 (NewMembership 0 ''n1'' ''a1'')))"
proof -
  let ?m = "Upsert 0 ''n2'' ''a2'' StateAlive 1 (NewMembership 0 ''n1'' ''a1'')"
  have "visible ''n2'' ?m" by (simp add: visible_def Upsert_def NewMembership_def putMember_def)
  then show ?thesis using heartbeat_removes_nobody[of ?m "\<lambda>_. None" "''c''" 5 9] by (simp add: sane_replies_def retains_def)
qed

theorem every_table_has_a_route_witness:
  "\<exists>r. RouteTable ''n1'' (NewMembership 0 ''n1'' ''a1'') ''Users'' twoRanges = Inr (routeToRange ''n1'' (NewMembership 0 ''n1'' ''a1'') r) \<and> ByID (rID r) twoRanges = Inr r"
  using every_table_has_a_route[OF reached_two] by blast

end
