(* ===== verification/Requestfast.thy ===== *)
theory Requestfast
  imports Durability
begin

text \<open>
  The JSON of requests as the server reads it: the string writer of \<^verbatim>\<open>internal/engine/marshal.go\<close> and the fast
  request parser of \<^verbatim>\<open>internal/server/requestfast.go\<close>. The parser's position is the text that is left, so a
  reader takes a text and returns what it read and the rest, or None where the Go method reports false.
\<close>

declare map_of_eq_Some_iff [simp del] Some_eq_map_of_iff [simp del]

section \<open>Writing JSON (marshal.go)\<close>

abbreviation dquote :: char where "dquote \<equiv> CHR 0x22"
abbreviation backslash :: char where "backslash \<equiv> CHR 0x5C"

definition lowerHex :: "nat \<Rightarrow> char" where
  "lowerHex n = ''0123456789abcdef'' ! n"

text \<open>The body of \<^verbatim>\<open>appendJSONString\<close>; \<open>out\<close> ends with what the loop appends.\<close>

definition replacement :: string where
  "replacement = [CHR 0xEF, CHR 0xBF, CHR 0xBD]"

function escapeBytes :: "string \<Rightarrow> string" where
  "escapeBytes s =
     (case s of
        [] \<Rightarrow> []
      | c # cs \<Rightarrow>
          if c = dquote then [backslash, dquote] @ escapeBytes cs
          else if c = backslash then [backslash, backslash] @ escapeBytes cs
          else if c = CHR 0x0A then [backslash, CHR ''n''] @ escapeBytes cs
          else if c = CHR 0x0D then [backslash, CHR ''r''] @ escapeBytes cs
          else if c = CHR 0x09 then [backslash, CHR ''t''] @ escapeBytes cs
          else if c = CHR ''<'' then backslash # ''u003c'' @ escapeBytes cs
          else if c = CHR ''>'' then backslash # ''u003e'' @ escapeBytes cs
          else if c = CHR ''&'' then backslash # ''u0026'' @ escapeBytes cs
          else if byte c < 0x20 then backslash # ''u00'' @ [lowerHex (byte c div 16), lowerHex (byte c mod 16)] @ escapeBytes cs
          else if byte c < 0x80 then c # escapeBytes cs
          else case decodeRune s of
            (r, width) \<Rightarrow>
              if r = 0xFFFD \<and> width \<le> 1 then replacement @ escapeBytes cs
              else (if r = 0x2028 then [CHR 0xE2, CHR 0x80, CHR 0xA8] else if r = 0x2029 then [CHR 0xE2, CHR 0x80, CHR 0xA9] else take width s)
                   @ escapeBytes (drop (width - 1) cs))"
  by pat_completeness auto
termination
  by (relation "measure length") auto

declare escapeBytes.simps [simp del]

definition appendJSONString :: "string \<Rightarrow> string \<Rightarrow> string" where
  "appendJSONString out s = out @ [dquote] @ escapeBytes s @ [dquote]"

section \<open>Reading strings (requestfast.go)\<close>

text \<open>The parser's position is the text that is left.\<close>

definition isJsonSpace :: "char \<Rightarrow> bool" where
  "isJsonSpace c \<longleftrightarrow> c \<in> {CHR '' '', CHR 0x09, CHR 0x0A, CHR 0x0D}"

definition skipSpace :: "string \<Rightarrow> string" where
  "skipSpace = dropWhile isJsonSpace"

definition consume :: "char \<Rightarrow> string \<Rightarrow> string option" where
  "consume c s = (case s of [] \<Rightarrow> None | b # bs \<Rightarrow> if b = c then Some bs else None)"

definition hexValue :: "char \<Rightarrow> nat option" where
  "hexValue c =
     (if 48 \<le> byte c \<and> byte c \<le> 57 then Some (byte c - 48)
      else if 97 \<le> byte c \<and> byte c \<le> 102 then Some (byte c - 97 + 10)
      else if 65 \<le> byte c \<and> byte c \<le> 70 then Some (byte c - 65 + 10)
      else None)"

fun hexLoop :: "nat \<Rightarrow> string \<Rightarrow> nat option" where
  "hexLoop r [] = Some r"
| "hexLoop r (c # cs) = (case hexValue c of None \<Rightarrow> None | Some v \<Rightarrow> hexLoop (r * 16 + v) cs)"

definition decodeU :: "string \<Rightarrow> nat option" where
  "decodeU s = (if length s < 4 then None else hexLoop 0 (take 4 s))"

definition encodeRune :: "nat \<Rightarrow> string" where
  "encodeRune r =
     (if r < 0x80 then [char_of r]
      else if r < 0x800 then [char_of (0xC0 + r div 64), char_of (0x80 + r mod 64)]
      else if r < 0x10000 then [char_of (0xE0 + r div 4096), char_of (0x80 + r div 64 mod 64), char_of (0x80 + r mod 64)]
      else [char_of (0xF0 + r div 262144), char_of (0x80 + r div 4096 mod 64), char_of (0x80 + r div 64 mod 64), char_of (0x80 + r mod 64)])"

text \<open>\<^verbatim>\<open>escapeAt\<close> on the text that starts with the backslash: the bytes it stands for and its length.\<close>

definition escapeAt :: "string \<Rightarrow> (string \<times> nat) option" where
  "escapeAt s =
     (if length s < 2 then None
      else
        let e = s ! 1 in
        if e = dquote \<or> e = backslash \<or> e = CHR ''/'' then Some ([e], 2)
        else if e = CHR ''b'' then Some ([CHR 0x08], 2)
        else if e = CHR ''f'' then Some ([CHR 0x0C], 2)
        else if e = CHR ''n'' then Some ([CHR 0x0A], 2)
        else if e = CHR ''r'' then Some ([CHR 0x0D], 2)
        else if e = CHR ''t'' then Some ([CHR 0x09], 2)
        else if e = CHR ''u'' then
          (case decodeU (drop 2 s) of
             None \<Rightarrow> None
           | Some r \<Rightarrow>
               if 0xD800 \<le> r \<and> r \<le> 0xDBFF \<and> 12 \<le> length s \<and> s ! 6 = backslash \<and> s ! 7 = CHR ''u'' then
                 (case decodeU (drop 8 s) of
                    None \<Rightarrow> None
                  | Some lo \<Rightarrow>
                      if lo < 0xDC00 \<or> lo > 0xDFFF then None
                      else Some (encodeRune (0x10000 + (r - 0xD800) * 1024 + (lo - 0xDC00)), 12))
               else if 0xD800 \<le> r \<and> r \<le> 0xDFFF then None
               else Some (encodeRune r, 6))
        else None)"

lemma escapeAt_length: "escapeAt s = Some (bs, n) \<Longrightarrow> 2 \<le> n"
  by (auto simp: escapeAt_def Let_def split: if_splits option.splits)

function escapedLoop :: "string \<Rightarrow> string \<Rightarrow> (string \<times> string) option" where
  "escapedLoop out s =
     (case s of
        [] \<Rightarrow> None
      | c # cs \<Rightarrow>
          if c = dquote then Some (out, cs)
          else if c = backslash then
            (case escapeAt s of None \<Rightarrow> None | Some (bs, n) \<Rightarrow> escapedLoop (out @ bs) (drop n s))
          else if byte c < 0x20 then None
          else if byte c < 0x80 then escapedLoop (out @ [c]) cs
          else let width = snd (decodeRune s) in
            if width \<le> 1 then None else escapedLoop (out @ take width s) (drop width s))"
  by pat_completeness auto
termination
  by (relation "measure (\<lambda>(out, s). length s)") (auto dest: escapeAt_length)

declare escapedLoop.simps [simp del]

function plainLoop :: "string \<Rightarrow> string \<Rightarrow> (string \<times> string) option" where
  "plainLoop out s =
     (case s of
        [] \<Rightarrow> None
      | c # cs \<Rightarrow>
          if c = dquote then Some (out, cs)
          else if c = backslash then escapedLoop out s
          else if byte c < 0x20 then None
          else if byte c < 0x80 then plainLoop (out @ [c]) cs
          else let width = snd (decodeRune s) in
            if width \<le> 1 then None else plainLoop (out @ take width s) (drop width s))"
  by pat_completeness auto
termination
  by (relation "measure (\<lambda>(out, s). length s)") auto

declare plainLoop.simps [simp del]

definition stringFast :: "string \<Rightarrow> (string \<times> string) option" where
  "stringFast s = (case consume dquote s of None \<Rightarrow> None | Some t \<Rightarrow> plainLoop [] t)"

section \<open>Reading requests (requestfast.go)\<close>

text \<open>
  Loops whose body reads a value carry a bound on the number of rounds; every round consumes text, so a bound linear in
  the length of the text is enough (\<open>skip_enough\<close>, \<open>stringsLoop_enough\<close>, \<open>fieldsFast_enough\<close>).
\<close>

definition dropPrefix :: "string \<Rightarrow> string \<Rightarrow> string option" where
  "dropPrefix lit s = (if take (length lit) s = lit then Some (drop (length lit) s) else None)"

definition skipLiteral :: "string \<Rightarrow> string \<Rightarrow> string option" where
  "skipLiteral lit s = dropPrefix lit s"

definition literal :: "string \<Rightarrow> (string \<times> string) option" where
  "literal s =
     (case dropPrefix ''true'' s of
        Some t \<Rightarrow> Some (''true'', t)
      | None \<Rightarrow>
          (case dropPrefix ''false'' s of
             Some t \<Rightarrow> Some (''false'', t)
           | None \<Rightarrow> (case dropPrefix ''null'' s of Some t \<Rightarrow> Some (''null'', t) | None \<Rightarrow> None)))"

definition simpleEscape :: "char \<Rightarrow> bool" where
  "simpleEscape e \<longleftrightarrow> e \<in> {dquote, backslash, CHR ''/'', CHR ''b'', CHR ''f'', CHR ''n'', CHR ''r'', CHR ''t''}"

function skipStringLoop :: "string \<Rightarrow> string option" where
  "skipStringLoop s =
     (case s of
        [] \<Rightarrow> None
      | c # cs \<Rightarrow>
          if c = dquote then Some cs
          else if c = backslash then
            (case cs of
               [] \<Rightarrow> None
             | e # es \<Rightarrow>
                 if simpleEscape e then skipStringLoop es
                 else if e = CHR ''u'' then (case decodeU es of None \<Rightarrow> None | Some _ \<Rightarrow> skipStringLoop (drop 4 es))
                 else None)
          else if byte c < 0x20 then None
          else skipStringLoop cs)"
  by pat_completeness auto
termination
  by (relation "measure length") auto

declare skipStringLoop.simps [simp del]

definition skipString :: "string \<Rightarrow> string option" where
  "skipString s = (case consume dquote s of None \<Rightarrow> None | Some t \<Rightarrow> skipStringLoop t)"

definition decimal :: "char \<Rightarrow> bool" where
  "decimal c \<longleftrightarrow> 48 \<le> byte c \<and> byte c \<le> 57"

definition skipDigits :: "string \<Rightarrow> string option" where
  "skipDigits s = (case s of c # cs \<Rightarrow> if decimal c then Some (dropWhile decimal s) else None | [] \<Rightarrow> None)"

definition skipInteger :: "string \<Rightarrow> string option" where
  "skipInteger s =
     (case s of
        [] \<Rightarrow> None
      | c # cs \<Rightarrow> if c = CHR ''0'' then Some cs else if decimal c then Some (dropWhile decimal s) else None)"

definition skipFraction :: "string \<Rightarrow> string option" where
  "skipFraction s = (case s of c # cs \<Rightarrow> if c = CHR ''.'' then skipDigits cs else Some s | [] \<Rightarrow> Some s)"

definition skipExponent :: "string \<Rightarrow> string option" where
  "skipExponent s =
     (case s of
        c # cs \<Rightarrow>
          if c = CHR ''e'' \<or> c = CHR ''E'' then
            (case cs of
               d # ds \<Rightarrow> if d = CHR ''+'' \<or> d = CHR ''-'' then skipDigits ds else skipDigits cs
             | [] \<Rightarrow> None)
          else Some s
      | [] \<Rightarrow> Some s)"

definition skipNumber :: "string \<Rightarrow> string option" where
  "skipNumber s =
     (let t = (case s of c # cs \<Rightarrow> if c = CHR ''-'' then cs else s | [] \<Rightarrow> s) in
      case skipInteger t of
        None \<Rightarrow> None
      | Some t1 \<Rightarrow> (case skipFraction t1 of None \<Rightarrow> None | Some t2 \<Rightarrow> skipExponent t2))"

fun skipValue :: "nat \<Rightarrow> string \<Rightarrow> string option"
  and skipMembers :: "nat \<Rightarrow> string \<Rightarrow> string option"
  and skipElements :: "nat \<Rightarrow> string \<Rightarrow> string option" where
  "skipValue 0 s = None"
| "skipValue (Suc n) s =
     (case s of
        [] \<Rightarrow> None
      | c # cs \<Rightarrow>
          if c = dquote then skipString s
          else if c = CHR ''{'' then
            (case consume (CHR ''}'') (skipSpace cs) of Some t \<Rightarrow> Some t | None \<Rightarrow> skipMembers n (skipSpace cs))
          else if c = CHR ''['' then
            (case consume (CHR '']'') (skipSpace cs) of Some t \<Rightarrow> Some t | None \<Rightarrow> skipElements n (skipSpace cs))
          else if c = CHR ''t'' then skipLiteral ''true'' s
          else if c = CHR ''f'' then skipLiteral ''false'' s
          else if c = CHR ''n'' then skipLiteral ''null'' s
          else if c = CHR ''-'' \<or> decimal c then skipNumber s
          else None)"
| "skipMembers 0 s = None"
| "skipMembers (Suc n) s =
     (case skipString (skipSpace s) of
        None \<Rightarrow> None
      | Some t1 \<Rightarrow>
          (case consume (CHR '':'') (skipSpace t1) of
             None \<Rightarrow> None
           | Some t2 \<Rightarrow>
               (case skipValue n (skipSpace t2) of
                  None \<Rightarrow> None
                | Some t3 \<Rightarrow>
                    (case consume (CHR '','') (skipSpace t3) of
                       Some t4 \<Rightarrow> skipMembers n t4
                     | None \<Rightarrow> consume (CHR ''}'') (skipSpace t3)))))"
| "skipElements 0 s = None"
| "skipElements (Suc n) s =
     (case skipValue n (skipSpace s) of
        None \<Rightarrow> None
      | Some t1 \<Rightarrow>
          (case consume (CHR '','') (skipSpace t1) of
             Some t2 \<Rightarrow> skipElements n t2
           | None \<Rightarrow> consume (CHR '']'') (skipSpace t1)))"

fun stringsLoop :: "nat \<Rightarrow> string list \<Rightarrow> string \<Rightarrow> (string list \<times> string) option" where
  "stringsLoop 0 out s = None"
| "stringsLoop (Suc n) out s =
     (case stringFast (skipSpace s) of
        None \<Rightarrow> None
      | Some (v, t) \<Rightarrow>
          (case consume (CHR '','') (skipSpace t) of
             Some t1 \<Rightarrow> stringsLoop n (out @ [v]) t1
           | None \<Rightarrow> (case consume (CHR '']'') (skipSpace t) of Some t1 \<Rightarrow> Some (out @ [v], t1) | None \<Rightarrow> None)))"

definition stringArray :: "string \<Rightarrow> (string list \<times> string) option" where
  "stringArray s =
     (case consume (CHR ''['') s of
        None \<Rightarrow> None
      | Some t \<Rightarrow>
          (case consume (CHR '']'') (skipSpace t) of
             Some t1 \<Rightarrow> Some ([], t1)
           | None \<Rightarrow> stringsLoop (length t) [] (skipSpace t)))"

definition requestKeys :: "string list" where
  "requestKeys = [''sql'', ''sqls'', ''auth'', ''auth_key'', ''params'', ''atomic'', ''ping'']"

text \<open>
  \<^verbatim>\<open>strings.EqualFold\<close> with a name of ASCII letters: besides the two cases of each letter, the long s (U+017F) folds
  to s and the Kelvin sign (U+212A) to k.
\<close>

function foldLetters :: "string \<Rightarrow> string" where
  "foldLetters s =
     (case s of
        [] \<Rightarrow> []
      | c # cs \<Rightarrow>
          if take 2 s = [CHR 0xC5, CHR 0xBF] then CHR ''s'' # foldLetters (drop 2 s)
          else if take 3 s = [CHR 0xE2, CHR 0x84, CHR 0xAA] then CHR ''k'' # foldLetters (drop 3 s)
          else c # foldLetters cs)"
  by pat_completeness auto
termination
  by (relation "measure length") auto

declare foldLetters.simps [simp del]

definition requestKeyVariant :: "string \<Rightarrow> bool" where
  "requestKeyVariant key = list_ex (EqualFold (foldLetters key)) requestKeys"

definition noRequest :: request where
  "noRequest = \<lparr>qSQL = [], qSQLs = [], qParams = [], qAuth = [], qAuthKey = [], qAtomic = False, qPing = False\<rparr>"

text \<open>The \<^verbatim>\<open>switch\<close> on the key: the value is read and stored.\<close>

definition flagOf :: "bool \<Rightarrow> string \<Rightarrow> (bool \<times> string) option" where
  "flagOf old s =
     (case literal s of
        None \<Rightarrow> None
      | Some (v, t) \<Rightarrow> Some (if v = ''true'' then True else if v = ''false'' then False else old, t))"

definition fieldFast :: "string \<Rightarrow> request \<Rightarrow> string \<Rightarrow> (request \<times> string) option" where
  "fieldFast key q s =
     (if key = ''sql'' then map_option (\<lambda>(v, t). (q\<lparr>qSQL := v\<rparr>, t)) (stringFast s)
      else if key = ''sqls'' then map_option (\<lambda>(v, t). (q\<lparr>qSQLs := v\<rparr>, t)) (stringArray s)
      else if key = ''auth'' then map_option (\<lambda>(v, t). (q\<lparr>qAuth := v\<rparr>, t)) (stringFast s)
      else if key = ''auth_key'' then map_option (\<lambda>(v, t). (q\<lparr>qAuthKey := v\<rparr>, t)) (stringFast s)
      else if key = ''params'' then None
      else if key = ''atomic'' then map_option (\<lambda>(v, t). (q\<lparr>qAtomic := v\<rparr>, t)) (flagOf (qAtomic q) s)
      else if key = ''ping'' then map_option (\<lambda>(v, t). (q\<lparr>qPing := v\<rparr>, t)) (flagOf (qPing q) s)
      else if requestKeyVariant key then None
      else map_option (\<lambda>t. (q, t)) (skipValue (Suc (2 * length s)) s))"

fun fieldsFast :: "nat \<Rightarrow> request \<Rightarrow> string \<Rightarrow> request option" where
  "fieldsFast 0 q s = None"
| "fieldsFast (Suc n) q s =
     (case stringFast (skipSpace s) of
        None \<Rightarrow> None
      | Some (key, t) \<Rightarrow>
          (case consume (CHR '':'') (skipSpace t) of
             None \<Rightarrow> None
           | Some t1 \<Rightarrow>
               (case fieldFast key q (skipSpace t1) of
                  None \<Rightarrow> None
                | Some (q', t2) \<Rightarrow>
                    (case consume (CHR '','') (skipSpace t2) of
                       Some t3 \<Rightarrow> fieldsFast n q' t3
                     | None \<Rightarrow>
                         (case consume (CHR ''}'') (skipSpace t2) of
                            None \<Rightarrow> None
                          | Some t3 \<Rightarrow> if skipSpace t3 = [] then Some q' else None)))))"

definition parseRequestFast :: "string \<Rightarrow> request option" where
  "parseRequestFast payload =
     (case consume (CHR ''{'') (skipSpace payload) of
        None \<Rightarrow> None
      | Some t \<Rightarrow>
          (case consume (CHR ''}'') t of
             Some t1 \<Rightarrow> if skipSpace t1 = [] then Some noRequest else None
           | None \<Rightarrow> fieldsFast (length t) noRequest t))"

end
