(* ===== verification/Grammar.thy ===== *)
theory Grammar
  imports Requestfast
begin

text \<open>
  The grammar of JSON as inductive predicates on texts, independent of the readers. What the fast parser accepts is an
  object of the grammar (\<open>fast_parser_accepts_only_json\<close>), every reader consumes text, and the bounds on the rounds of
  the loops are enough.
\<close>

declare map_of_eq_Some_iff [simp del] Some_eq_map_of_iff [simp del]

section \<open>The grammar of JSON\<close>

abbreviation jspaces :: "string \<Rightarrow> bool" where
  "jspaces \<equiv> list_all isJsonSpace"

inductive jchars :: "string \<Rightarrow> bool" where
  nothing: "jchars []"
| plain: "\<not> byte c < 0x20 \<Longrightarrow> c \<noteq> dquote \<Longrightarrow> c \<noteq> backslash \<Longrightarrow> jchars s \<Longrightarrow> jchars (c # s)"
| escape: "simpleEscape e \<Longrightarrow> jchars s \<Longrightarrow> jchars (backslash # e # s)"
| unicode: "length h = 4 \<Longrightarrow> list_all (\<lambda>c. hexValue c \<noteq> None) h \<Longrightarrow> jchars s \<Longrightarrow> jchars (backslash # CHR ''u'' # h @ s)"

definition jstring :: "string \<Rightarrow> bool" where
  "jstring u \<longleftrightarrow> (\<exists>b. u = dquote # b @ [dquote] \<and> jchars b)"

definition digits :: "string \<Rightarrow> bool" where
  "digits d \<longleftrightarrow> d \<noteq> [] \<and> list_all decimal d"

definition jnumber :: "string \<Rightarrow> bool" where
  "jnumber u \<longleftrightarrow> (\<exists>sg i f e. u = sg @ i @ f @ e \<and> sg \<in> {[], ''-''} \<and>
     (i = ''0'' \<or> digits i \<and> hd i \<noteq> CHR ''0'') \<and>
     (f = [] \<or> (\<exists>d. f = CHR ''.'' # d \<and> digits d)) \<and>
     (e = [] \<or> (\<exists>x sg d. e = x # sg @ d \<and> x \<in> {CHR ''e'', CHR ''E''} \<and> sg \<in> {[], ''+'', ''-''} \<and> digits d)))"

inductive jvalue :: "string \<Rightarrow> bool" and jmembers :: "string \<Rightarrow> bool" and jelements :: "string \<Rightarrow> bool" where
  str: "jstring u \<Longrightarrow> jvalue u"
| num: "jnumber u \<Longrightarrow> jvalue u"
| lit: "u \<in> {''true'', ''false'', ''null''} \<Longrightarrow> jvalue u"
| obj0: "jspaces w \<Longrightarrow> jvalue (''{'' @ w @ ''}'')"
| obj: "jmembers u \<Longrightarrow> jvalue (''{'' @ u @ ''}'')"
| arr0: "jspaces w \<Longrightarrow> jvalue (''['' @ w @ '']'')"
| arr: "jelements u \<Longrightarrow> jvalue (''['' @ u @ '']'')"
| member: "jspaces a \<Longrightarrow> jstring k \<Longrightarrow> jspaces b \<Longrightarrow> jspaces c \<Longrightarrow> jvalue v \<Longrightarrow> jspaces d \<Longrightarrow> jmembers (a @ k @ b @ '':'' @ c @ v @ d)"
| members: "jspaces a \<Longrightarrow> jstring k \<Longrightarrow> jspaces b \<Longrightarrow> jspaces c \<Longrightarrow> jvalue v \<Longrightarrow> jspaces d \<Longrightarrow> jmembers m \<Longrightarrow>
    jmembers (a @ k @ b @ '':'' @ c @ v @ d @ '','' @ m)"
| element: "jspaces a \<Longrightarrow> jvalue v \<Longrightarrow> jspaces b \<Longrightarrow> jelements (a @ v @ b)"
| elements: "jspaces a \<Longrightarrow> jvalue v \<Longrightarrow> jspaces b \<Longrightarrow> jelements m \<Longrightarrow> jelements (a @ v @ b @ '','' @ m)"

section \<open>What the readers consume\<close>

lemma skipSpace_split: "\<exists>w. s = w @ skipSpace s \<and> jspaces w"
  unfolding skipSpace_def by (metis list.pred_set set_takeWhileD takeWhile_dropWhile_id)

lemma consume_Some: "consume c s = Some t \<longleftrightarrow> s = c # t"
  by (auto simp: consume_def split: list.splits)

lemma jchars_append: "jchars u \<Longrightarrow> jchars v \<Longrightarrow> jchars (u @ v)"
  by (induction rule: jchars.induct) (auto intro: jchars.intros)

lemma jchars_plain: "list_all (\<lambda>c. \<not> byte c < 0x80) u \<Longrightarrow> jchars u"
  by (induction u) (auto intro!: jchars.intros)

lemma decodeU_hex:
  assumes "decodeU s = Some r"
  shows "s = take 4 s @ drop 4 s \<and> length (take 4 s) = 4 \<and> list_all (\<lambda>c. hexValue c \<noteq> None) (take 4 s)"
proof -
  have "hexLoop r u = Some r' \<Longrightarrow> list_all (\<lambda>c. hexValue c \<noteq> None) u" for r u r'
    by (induction r u rule: hexLoop.induct) (auto split: option.splits)
  then show ?thesis using assms by (auto simp: decodeU_def split: if_splits)
qed

lemma skipStringLoop_text: "skipStringLoop s = Some t \<Longrightarrow> \<exists>b. s = b @ dquote # t \<and> jchars b"
proof (induction s arbitrary: t rule: skipStringLoop.induct)
  case (1 s)
  show ?case
  proof (cases s)
    case Nil
    then show ?thesis using "1.prems" by (simp add: skipStringLoop.simps)
  next
    case (Cons c cs)
    consider "c = dquote" | "c = backslash" | "c \<noteq> dquote" "c \<noteq> backslash" by blast
    then show ?thesis
    proof cases
      case 1
      then show ?thesis using "1.prems" Cons by (auto simp: skipStringLoop.simps intro: jchars.nothing)
    next
      case 2
      then obtain e es where e: "cs = e # es" using "1.prems" Cons by (auto simp: skipStringLoop.simps split: list.splits)
      show ?thesis
      proof (cases "simpleEscape e")
        case True
        then have "skipStringLoop es = Some t" using "1.prems" Cons 2 e by (simp add: skipStringLoop.simps)
        then obtain b where "es = b @ dquote # t" "jchars b" using "1.IH"(1)[OF Cons _ 2 e True] 2 by auto
        then show ?thesis using Cons 2 e True by (intro exI[of _ "c # e # b"]) (simp add: jchars.escape)
      next
        case False
        then obtain r where u: "e = CHR ''u''" "decodeU es = Some r" "skipStringLoop (drop 4 es) = Some t"
          using "1.prems" Cons 2 e by (auto simp: skipStringLoop.simps split: if_splits option.splits)
        then obtain b where b: "drop 4 es = b @ dquote # t" "jchars b" using "1.IH"(2)[OF Cons _ 2 e False u(1,2)] 2 by auto
        note h = decodeU_hex[OF u(2)]
        have "jchars (backslash # CHR ''u'' # take 4 es @ b)" using h b(2) by (intro jchars.unicode) auto
        then show ?thesis using Cons 2 e u(1) h b(1) by (intro exI[of _ "c # e # take 4 es @ b"]) (metis append_Cons append_assoc)
      qed
    next
      case 3
      then have "\<not> byte c < 0x20" "skipStringLoop cs = Some t" using "1.prems" Cons by (auto simp: skipStringLoop.simps split: if_splits)
      moreover from this obtain b where "cs = b @ dquote # t" "jchars b" using "1.IH"(3)[OF Cons 3] by auto
      ultimately show ?thesis using Cons 3 by (intro exI[of _ "c # b"]) (simp add: jchars.plain)
    qed
  qed
qed

lemma skipString_text: "skipString s = Some t \<Longrightarrow> \<exists>u. s = u @ t \<and> jstring u"
proof -
  assume "skipString s = Some t"
  then obtain r where "s = dquote # r" "skipStringLoop r = Some t" by (auto simp: skipString_def consume_Some split: option.splits)
  then show ?thesis using skipStringLoop_text[of r t] by (auto simp: jstring_def)
qed

lemma decodeRune_forms:
  "0xC2 \<le> byte a \<Longrightarrow> byte a \<le> 0xDF \<Longrightarrow> contByte (byte b) \<Longrightarrow> decodeRune (a # b # r) = ((byte a - 0xC0) * 64 + (byte b - 0x80), 2)"
  "0xE0 \<le> byte a \<Longrightarrow> byte a \<le> 0xEF \<Longrightarrow> contByte (byte b) \<Longrightarrow> contByte (byte c) \<Longrightarrow> (byte a = 0xE0 \<longrightarrow> 0xA0 \<le> byte b) \<Longrightarrow>
     (byte a = 0xED \<longrightarrow> byte b \<le> 0x9F) \<Longrightarrow>
     decodeRune (a # b # c # r) = ((byte a - 0xE0) * 4096 + (byte b - 0x80) * 64 + (byte c - 0x80), 3)"
  "0xF0 \<le> byte a \<Longrightarrow> byte a \<le> 0xF4 \<Longrightarrow> contByte (byte b) \<Longrightarrow> contByte (byte c) \<Longrightarrow> contByte (byte d) \<Longrightarrow> (byte a = 0xF0 \<longrightarrow> 0x90 \<le> byte b) \<Longrightarrow>
     (byte a = 0xF4 \<longrightarrow> byte b \<le> 0x8F) \<Longrightarrow>
     decodeRune (a # b # c # d # r) =
       ((byte a - 0xF0) * 262144 + (byte b - 0x80) * 4096 + (byte c - 0x80) * 64 + (byte d - 0x80), 4)"
  by (simp_all add: decodeRune_def)

lemma decodeRune_lead:
  "1 < snd (decodeRune (a # s)) \<Longrightarrow>
     (\<exists>b r. s = b # r \<and> snd (decodeRune (a # s)) = 2 \<and> 0xC2 \<le> byte a \<and> byte a \<le> 0xDF \<and> contByte (byte b)) \<or>
     (\<exists>b c r. s = b # c # r \<and> snd (decodeRune (a # s)) = 3 \<and> 0xE0 \<le> byte a \<and> byte a \<le> 0xEF \<and> contByte (byte b) \<and> contByte (byte c) \<and>
        (byte a = 0xE0 \<longrightarrow> 0xA0 \<le> byte b) \<and> (byte a = 0xED \<longrightarrow> byte b \<le> 0x9F)) \<or>
     (\<exists>b c d r. s = b # c # d # r \<and> snd (decodeRune (a # s)) = 4 \<and> 0xF0 \<le> byte a \<and> byte a \<le> 0xF4 \<and> contByte (byte b) \<and> contByte (byte c) \<and>
        contByte (byte d) \<and> (byte a = 0xF0 \<longrightarrow> 0x90 \<le> byte b) \<and> (byte a = 0xF4 \<longrightarrow> byte b \<le> 0x8F))"
proof -
  assume w: "1 < snd (decodeRune (a # s))"
  have t: "map byte (take 4 (a # s)) = byte a # map byte (take 3 s)" by simp
  have tk: "take 3 s = [] \<longleftrightarrow> s = []" "take 3 (b # c) = b # take 2 c" "take 2 (b # c) = b # take 1 c" "take 1 (b # c) = [b]" for b and c s :: string
    by auto
  consider "byte a < 0x80" | "\<not> byte a < 0x80" "0xC2 \<le> byte a" "byte a \<le> 0xDF" | "0xE0 \<le> byte a" "byte a \<le> 0xEF" | "0xF0 \<le> byte a" "byte a \<le> 0xF4"
    | "\<not> byte a < 0x80" "\<not> (0xC2 \<le> byte a \<and> byte a \<le> 0xDF)" "\<not> (0xE0 \<le> byte a \<and> byte a \<le> 0xEF)" "\<not> (0xF0 \<le> byte a \<and> byte a \<le> 0xF4)" by linarith
  then show ?thesis
  proof cases
    case 2
    then show ?thesis using w unfolding decodeRune_def t by (cases s) (auto simp: tk split: if_splits)
  next
    case 3
    then show ?thesis using w unfolding decodeRune_def t
      by (cases s; cases "tl s") (auto simp: tk(2-4) split: if_splits)
  next
    case 4
    then show ?thesis using w unfolding decodeRune_def t
      by (cases s; cases "tl s"; cases "tl (tl s)") (auto simp: tk(2-4) split: if_splits)
  next
    case 5
    then show ?thesis using w unfolding decodeRune_def t by (auto split: if_splits)
  qed (use w in \<open>simp_all add: decodeRune_def\<close>)
qed

lemma decodeRune_wide:
  assumes "1 < snd (decodeRune s)"
  shows "snd (decodeRune s) \<le> length s \<and> list_all (\<lambda>c. \<not> byte c < 0x80) (take (snd (decodeRune s)) s)"
proof -
  obtain a r where s: "s = a # r" using assms by (cases s) (auto simp: decodeRune_def)
  then have "1 < snd (decodeRune (a # r))" using assms by simp
  from decodeRune_lead[OF this] show ?thesis unfolding s by (elim disjE exE conjE) (auto simp: contByte_def)
qed

lemma escapeAt_text:
  assumes "escapeAt (backslash # s) = Some (bs, n)"
  shows "\<exists>u. backslash # s = u @ drop n (backslash # s) \<and> jchars u"
proof -
  obtain e es where s: "s = e # es" using assms by (cases s) (auto simp: escapeAt_def)
  show ?thesis
  proof (cases "simpleEscape e")
    case True
    then have "n = 2" using assms s by (auto simp: escapeAt_def simpleEscape_def split: if_splits)
    moreover have "jchars [backslash, e]" using True jchars.escape[OF True jchars.nothing] by simp
    ultimately show ?thesis using s by (intro exI[of _ "[backslash, e]"]) simp
  next
    case False
    then obtain r where u: "e = CHR ''u''" "decodeU es = Some r"
      using assms s by (auto simp: escapeAt_def simpleEscape_def Let_def split: if_splits option.splits)
    note h = decodeU_hex[OF u(2)]
    have one: "jchars (backslash # CHR ''u'' # take 4 es)" using jchars.unicode[OF _ _ jchars.nothing, of "take 4 es"] h by simp
    have e4: "es = take 4 es @ drop 4 es" "length (take 4 es) = 4" using h by auto
    consider "n = 6" | lo where "n = 12" "12 \<le> length (backslash # s)" "es ! 4 = backslash" "es ! 5 = CHR ''u''" "decodeU (drop 6 es) = Some lo"
      using assms s u False by (auto simp: escapeAt_def simpleEscape_def Let_def split: if_splits option.splits)
    then show ?thesis
    proof cases
      case 1
      then show ?thesis using s u(1) one e4 by (intro exI[of _ "backslash # CHR ''u'' # take 4 es"]) simp
    next
      case (2 lo)
      note g = decodeU_hex[OF 2(5)]
      have "drop 4 es = es ! 4 # es ! 5 # drop 6 es"
        using 2(2) s Cons_nth_drop_Suc[of 4 es] Cons_nth_drop_Suc[of 5 es] by simp
      then have d: "drop 4 es = backslash # CHR ''u'' # take 4 (drop 6 es) @ drop 10 es" using 2(3,4) append_take_drop_id[of 4 "drop 6 es"] by simp
      have two: "jchars (backslash # CHR ''u'' # take 4 (drop 6 es))" using jchars.unicode[OF _ _ jchars.nothing, of "take 4 (drop 6 es)"] g by simp
      have "backslash # s = (backslash # CHR ''u'' # take 4 es) @ (backslash # CHR ''u'' # take 4 (drop 6 es)) @ drop 10 es"
        using s u(1) d by (metis append_Cons append_assoc append_take_drop_id)
      then show ?thesis using jchars_append[OF one two] 2(1) s by (intro exI) auto
    qed
  qed
qed

lemma escapedLoop_text: "escapedLoop out s = Some (v, t) \<Longrightarrow> \<exists>b. s = b @ dquote # t \<and> jchars b"
proof (induction out s rule: escapedLoop.induct)
  case (1 out s)
  show ?case
  proof (cases s)
    case Nil
    then show ?thesis using "1.prems" by (simp add: escapedLoop.simps)
  next
    case (Cons c cs)
    consider "c = dquote" | "c = backslash" | "c \<noteq> dquote" "c \<noteq> backslash" "byte c < 0x80" | "c \<noteq> dquote" "c \<noteq> backslash" "\<not> byte c < 0x80" by blast
    then show ?thesis
    proof cases
      case 1
      then show ?thesis using "1.prems" Cons by (auto simp: escapedLoop.simps intro: jchars.nothing)
    next
      case 2
      then obtain bs n where e: "escapeAt s = Some (bs, n)" "escapedLoop (out @ bs) (drop n s) = Some (v, t)"
        using "1.prems" Cons by (auto simp: escapedLoop.simps[of out "backslash # cs"] split: option.splits)
      then obtain b where b: "drop n s = b @ dquote # t" "jchars b" using "1.IH"(1)[OF Cons _ 2 e(1)] 2 by auto
      obtain u where "s = u @ drop n s" "jchars u" using escapeAt_text[of cs bs n] e(1) Cons 2 by auto
      then show ?thesis using b jchars_append by (metis append_assoc)
    next
      case 3
      then have "\<not> byte c < 0x20" "escapedLoop (out @ [c]) cs = Some (v, t)" using "1.prems" Cons by (auto simp: escapedLoop.simps[of out "c # cs"] split: if_splits)
      moreover from this obtain b where "cs = b @ dquote # t" "jchars b" using "1.IH"(2)[OF Cons 3(1,2) _ 3(3)] by auto
      ultimately show ?thesis using Cons 3 by (intro exI[of _ "c # b"]) (simp add: jchars.plain)
    next
      case 4
      let ?n = "snd (decodeRune s)"
      have w: "1 < ?n" "escapedLoop (out @ take ?n s) (drop ?n s) = Some (v, t)"
        using "1.prems" Cons 4 by (auto simp: escapedLoop.simps[of out "c # cs"] Let_def split: if_splits)
      then obtain b where b: "drop ?n s = b @ dquote # t" "jchars b" using "1.IH"(3)[OF Cons 4(1,2) _ 4(3) refl] 4 by auto
      have "jchars (take ?n s @ b)" using jchars_append[OF jchars_plain b(2)] decodeRune_wide[OF w(1)] by simp
      then show ?thesis using b(1) by (metis append_assoc append_take_drop_id)
    qed
  qed
qed

lemma plainLoop_text: "plainLoop out s = Some (v, t) \<Longrightarrow> \<exists>b. s = b @ dquote # t \<and> jchars b"
proof (induction out s rule: plainLoop.induct)
  case (1 out s)
  show ?case
  proof (cases s)
    case Nil
    then show ?thesis using "1.prems" by (simp add: plainLoop.simps)
  next
    case (Cons c cs)
    consider "c = dquote" | "c = backslash" | "c \<noteq> dquote" "c \<noteq> backslash" "byte c < 0x80" | "c \<noteq> dquote" "c \<noteq> backslash" "\<not> byte c < 0x80" by blast
    then show ?thesis
    proof cases
      case 1
      then show ?thesis using "1.prems" Cons by (auto simp: plainLoop.simps intro: jchars.nothing)
    next
      case 2
      then have "escapedLoop out s = Some (v, t)" using "1.prems" Cons by (simp add: plainLoop.simps[of out "backslash # cs"])
      then show ?thesis by (rule escapedLoop_text)
    next
      case 3
      then have "\<not> byte c < 0x20" "plainLoop (out @ [c]) cs = Some (v, t)" using "1.prems" Cons by (auto simp: plainLoop.simps[of out "c # cs"] split: if_splits)
      moreover from this obtain b where "cs = b @ dquote # t" "jchars b" using "1.IH"(1)[OF Cons 3(1,2) _ 3(3)] by auto
      ultimately show ?thesis using Cons 3 by (intro exI[of _ "c # b"]) (simp add: jchars.plain)
    next
      case 4
      let ?n = "snd (decodeRune s)"
      have w: "1 < ?n" "plainLoop (out @ take ?n s) (drop ?n s) = Some (v, t)"
        using "1.prems" Cons 4 by (auto simp: plainLoop.simps[of out "c # cs"] Let_def split: if_splits)
      then obtain b where b: "drop ?n s = b @ dquote # t" "jchars b" using "1.IH"(2)[OF Cons 4(1,2) _ 4(3) refl] 4 by auto
      have "jchars (take ?n s @ b)" using jchars_append[OF jchars_plain b(2)] decodeRune_wide[OF w(1)] by simp
      then show ?thesis using b(1) by (metis append_assoc append_take_drop_id)
    qed
  qed
qed

lemma stringFast_text: "stringFast s = Some (v, t) \<Longrightarrow> \<exists>u. s = u @ t \<and> jstring u"
proof -
  assume "stringFast s = Some (v, t)"
  then obtain r where "s = dquote # r" "plainLoop [] r = Some (v, t)" by (auto simp: stringFast_def consume_Some split: option.splits)
  then show ?thesis using plainLoop_text[of "[]" r v t] by (auto simp: jstring_def)
qed

lemma dropPrefix_text: "dropPrefix lit s = Some t \<Longrightarrow> s = lit @ t"
  unfolding dropPrefix_def by (metis append_take_drop_id option.distinct(1) option.inject)

lemma decimals_split: "s = takeWhile decimal s @ dropWhile decimal s \<and> list_all decimal (takeWhile decimal s)"
  by (simp add: list.pred_set) (meson set_takeWhileD)

lemma skipDigits_text: "skipDigits s = Some t \<Longrightarrow> \<exists>d. s = d @ t \<and> digits d"
proof -
  assume a: "skipDigits s = Some t"
  then obtain c cs where "s = c # cs" "decimal c" "t = dropWhile decimal s" by (auto simp: skipDigits_def split: list.splits if_splits)
  then show ?thesis using decimals_split[of s] by (intro exI[of _ "takeWhile decimal s"]) (auto simp: digits_def)
qed

lemma skipInteger_text: "skipInteger s = Some t \<Longrightarrow> \<exists>i. s = i @ t \<and> (i = ''0'' \<or> digits i \<and> hd i \<noteq> CHR ''0'')"
proof -
  assume a: "skipInteger s = Some t"
  then obtain c cs where s: "s = c # cs" by (auto simp: skipInteger_def split: list.splits)
  show ?thesis
  proof (cases "c = CHR ''0''")
    case True
    then show ?thesis using a s by (simp add: skipInteger_def)
  next
    case False
    then have "decimal c" "t = dropWhile decimal s" using a s by (auto simp: skipInteger_def split: if_splits)
    then show ?thesis using decimals_split[of s] s False by (intro exI[of _ "takeWhile decimal s"]) (auto simp: digits_def)
  qed
qed

lemma skipFraction_text: "skipFraction s = Some t \<Longrightarrow> \<exists>f. s = f @ t \<and> (f = [] \<or> (\<exists>d. f = CHR ''.'' # d \<and> digits d))"
proof (cases s)
  case (Cons c cs)
  assume a: "skipFraction s = Some t"
  show ?thesis
  proof (cases "c = CHR ''.''")
    case True
    then obtain d where "cs = d @ t" "digits d" using a Cons skipDigits_text[of cs t] by (auto simp: skipFraction_def)
    then show ?thesis using Cons True by (intro exI[of _ "c # d"]) simp
  qed (use a Cons in \<open>simp add: skipFraction_def\<close>)
qed (simp add: skipFraction_def)

lemma skipExponent_text:
  "skipExponent s = Some t \<Longrightarrow> \<exists>e. s = e @ t \<and>
     (e = [] \<or> (\<exists>x sg d. e = x # sg @ d \<and> x \<in> {CHR ''e'', CHR ''E''} \<and> sg \<in> {[], ''+'', ''-''} \<and> digits d))"
proof (cases s)
  case (Cons x cs)
  assume a: "skipExponent s = Some t"
  show ?thesis
  proof (cases "x \<in> {CHR ''e'', CHR ''E''}")
    case True
    then obtain y ds where y: "cs = y # ds" using a Cons by (auto simp: skipExponent_def split: list.splits)
    show ?thesis
    proof (cases "y = CHR ''+'' \<or> y = CHR ''-''")
      case sg: True
      then have "skipDigits ds = Some t" using a Cons True y by (auto simp: skipExponent_def)
      then obtain d where "ds = d @ t" "digits d" using skipDigits_text by blast
      then have "s = (x # [y] @ d) @ t \<and> [y] \<in> {[], ''+'', ''-''} \<and> digits d" using Cons y sg by auto
      then show ?thesis using True by blast
    next
      case False
      then have "skipDigits cs = Some t" using a Cons True y by (auto simp: skipExponent_def)
      then obtain d where "cs = d @ t" "digits d" using skipDigits_text by blast
      then have "s = (x # [] @ d) @ t \<and> [] \<in> {[], ''+'', ''-''} \<and> digits d" using Cons by auto
      then show ?thesis using True by blast
    qed
  qed (use a Cons in \<open>auto simp: skipExponent_def\<close>)
qed (simp add: skipExponent_def)

lemma skipNumber_text: "skipNumber s = Some t \<Longrightarrow> \<exists>u. s = u @ t \<and> jnumber u"
proof -
  assume a: "skipNumber s = Some t"
  define r where "r = (case s of c # cs \<Rightarrow> if c = CHR ''-'' then cs else s | [] \<Rightarrow> s)"
  have "s = [] @ r \<or> s = ''-'' @ r" by (cases s) (auto simp: r_def)
  then obtain sg where sg: "s = sg @ r" "sg \<in> {[], ''-''}" by blast
  obtain t1 t2 where t: "skipInteger r = Some t1" "skipFraction t1 = Some t2" "skipExponent t2 = Some t"
    using a by (auto simp: skipNumber_def r_def[symmetric] Let_def split: option.splits)
  obtain i f e where p: "r = i @ t1" "i = ''0'' \<or> digits i \<and> hd i \<noteq> CHR ''0''" "t1 = f @ t2" "f = [] \<or> (\<exists>d. f = CHR ''.'' # d \<and> digits d)"
    "t2 = e @ t" "e = [] \<or> (\<exists>x sg d. e = x # sg @ d \<and> x \<in> {CHR ''e'', CHR ''E''} \<and> sg \<in> {[], ''+'', ''-''} \<and> digits d)"
    using skipInteger_text[OF t(1)] skipFraction_text[OF t(2)] skipExponent_text[OF t(3)] by blast
  then have "s = (sg @ i @ f @ e) @ t" using sg(1) by simp
  then show ?thesis unfolding jnumber_def using sg(2) p by blast
qed

lemma spaces_members:
  assumes "jspaces w" "jmembers u"
  shows "jmembers (w @ u)"
  using assms(2)
proof cases
  case (member a k b c v d)
  then show ?thesis using jvalue_jmembers_jelements.member[of "w @ a" k b c v d] assms(1) by simp
next
  case (members a k b c v d m)
  then show ?thesis using jvalue_jmembers_jelements.members[of "w @ a" k b c v d m] assms(1) by simp
qed

lemma spaces_elements:
  assumes "jspaces w" "jelements u"
  shows "jelements (w @ u)"
  using assms(2)
proof cases
  case (element a v b)
  then show ?thesis using jvalue_jmembers_jelements.element[of "w @ a" v b] assms(1) by simp
next
  case (elements a v b m)
  then show ?thesis using jvalue_jmembers_jelements.elements[of "w @ a" v b m] assms(1) by simp
qed

text \<open>A value, the rest of an object and the rest of an array.\<close>

lemma skip_text:
  "skipValue n s = Some t \<Longrightarrow> \<exists>u. s = u @ t \<and> jvalue u"
  "skipMembers n s = Some t \<Longrightarrow> \<exists>u. s = u @ ''}'' @ t \<and> jmembers u"
  "skipElements n s = Some t \<Longrightarrow> \<exists>u. s = u @ '']'' @ t \<and> jelements u"
proof (induction n s and n s and n s arbitrary: t and t and t rule: skipValue_skipMembers_skipElements.induct)
  case (2 n s)
  then obtain c cs where s: "s = c # cs" by (cases s) auto
  obtain w where w: "cs = w @ skipSpace cs" "jspaces w" using skipSpace_split by blast
  consider "c = dquote" | "c = CHR ''{''" | "c = CHR ''[''" | "skipLiteral ''true'' s = Some t \<or> skipLiteral ''false'' s = Some t \<or> skipLiteral ''null'' s = Some t"
    | "skipNumber s = Some t" using "2.prems" s by (auto split: if_splits)
  then show ?case
  proof cases
    case 1
    then have "skipString s = Some t" using "2.prems" s by simp
    then show ?thesis using skipString_text jvalue_jmembers_jelements.str by blast
  next
    case c: 2
    show ?thesis
    proof (cases "consume (CHR ''}'') (skipSpace cs)")
      case None
      then have "skipMembers n (skipSpace cs) = Some t" using "2.prems" s c by simp
      then obtain u where u: "skipSpace cs = u @ ''}'' @ t" "jmembers u" using "2.IH"(1)[OF s _ c None] c by auto
      have "jmembers (w @ u)" using spaces_members[OF w(2) u(2)] .
      then have "jvalue (''{'' @ (w @ u) @ ''}'')" by (rule jvalue_jmembers_jelements.obj)
      then show ?thesis using s c w(1) u(1) by (intro exI[of _ "''{'' @ (w @ u) @ ''}''"]) simp
    next
      case (Some r)
      then have "r = t" using "2.prems" s c by simp
      then have "skipSpace cs = CHR ''}'' # t" using Some by (simp add: consume_Some)
      then show ?thesis using s c w jvalue_jmembers_jelements.obj0[OF w(2)] by (intro exI[of _ "''{'' @ w @ ''}''"]) simp
    qed
  next
    case c: 3
    show ?thesis
    proof (cases "consume (CHR '']'') (skipSpace cs)")
      case None
      then have "skipElements n (skipSpace cs) = Some t" using "2.prems" s c by simp
      then obtain u where u: "skipSpace cs = u @ '']'' @ t" "jelements u" using "2.IH"(2)[OF s _ _ c None] c by auto
      have "jelements (w @ u)" using spaces_elements[OF w(2) u(2)] .
      then have "jvalue (''['' @ (w @ u) @ '']'')" by (rule jvalue_jmembers_jelements.arr)
      then show ?thesis using s c w(1) u(1) by (intro exI[of _ "''['' @ (w @ u) @ '']''"]) simp
    next
      case (Some r)
      then have "r = t" using "2.prems" s c by simp
      then have "skipSpace cs = CHR '']'' # t" using Some by (simp add: consume_Some)
      then show ?thesis using s c w jvalue_jmembers_jelements.arr0[OF w(2)] by (intro exI[of _ "''['' @ w @ '']''"]) simp
    qed
  next
    case 4
    then show ?thesis using dropPrefix_text jvalue_jmembers_jelements.lit unfolding skipLiteral_def by blast
  next
    case 5
    then show ?thesis using skipNumber_text jvalue_jmembers_jelements.num by blast
  qed
next
  case (4 n s)
  obtain t1 t2 t3 where st: "skipString (skipSpace s) = Some t1" "consume (CHR '':'') (skipSpace t1) = Some t2" "skipValue n (skipSpace t2) = Some t3"
    using "4.prems" by (auto split: option.splits)
  obtain a where a: "s = a @ skipSpace s" "jspaces a" using skipSpace_split by blast
  obtain b where b: "t1 = b @ skipSpace t1" "jspaces b" using skipSpace_split by blast
  obtain c where c: "t2 = c @ skipSpace t2" "jspaces c" using skipSpace_split by blast
  obtain d where d: "t3 = d @ skipSpace t3" "jspaces d" using skipSpace_split by blast
  obtain k where k: "skipSpace s = k @ t1" "jstring k" using skipString_text[OF st(1)] by blast
  obtain v where v: "skipSpace t2 = v @ t3" "jvalue v" using "4.IH"(1)[OF st] by blast
  have col: "skipSpace t1 = CHR '':'' # t2" using st(2) by (simp add: consume_Some)
  show ?case
  proof (cases "consume (CHR '','') (skipSpace t3)")
    case None
    then have "skipSpace t3 = CHR ''}'' # t" using "4.prems" st by (auto simp: consume_Some)
    then have "s = (a @ k @ b @ '':'' @ c @ v @ d) @ ''}'' @ t" using a(1) b(1) c(1) d(1) k(1) v(1) col by (metis append_Cons append_Nil append_assoc)
    then show ?thesis using jvalue_jmembers_jelements.member[OF a(2) k(2) b(2) c(2) v(2) d(2)] by blast
  next
    case (Some t4)
    then have "skipMembers n t4 = Some t" using "4.prems" st by simp
    then obtain m where m: "t4 = m @ ''}'' @ t" "jmembers m" using "4.IH"(2)[OF st Some] by blast
    have "skipSpace t3 = CHR '','' # t4" using Some by (simp add: consume_Some)
    then have "s = (a @ k @ b @ '':'' @ c @ v @ d @ '','' @ m) @ ''}'' @ t" using a(1) b(1) c(1) d(1) k(1) v(1) col m(1) by (metis append_Cons append_Nil append_assoc)
    then show ?thesis using jvalue_jmembers_jelements.members[OF a(2) k(2) b(2) c(2) v(2) d(2) m(2)] by blast
  qed
next
  case (6 n s)
  obtain t1 where st: "skipValue n (skipSpace s) = Some t1" using "6.prems" by (auto split: option.splits)
  obtain a where a: "s = a @ skipSpace s" "jspaces a" using skipSpace_split by blast
  obtain b where b: "t1 = b @ skipSpace t1" "jspaces b" using skipSpace_split by blast
  obtain v where v: "skipSpace s = v @ t1" "jvalue v" using "6.IH"(1)[OF st] by blast
  show ?case
  proof (cases "consume (CHR '','') (skipSpace t1)")
    case None
    then have "skipSpace t1 = CHR '']'' # t" using "6.prems" st by (auto simp: consume_Some)
    then have "s = (a @ v @ b) @ '']'' @ t" using a(1) b(1) v(1) by (metis append_Cons append_Nil append_assoc)
    then show ?thesis using jvalue_jmembers_jelements.element[OF a(2) v(2) b(2)] by blast
  next
    case (Some t2)
    then have "skipElements n t2 = Some t" using "6.prems" st by simp
    then obtain m where m: "t2 = m @ '']'' @ t" "jelements m" using "6.IH"(2)[OF st Some] by blast
    have "skipSpace t1 = CHR '','' # t2" using Some by (simp add: consume_Some)
    then have "s = (a @ v @ b @ '','' @ m) @ '']'' @ t" using a(1) b(1) v(1) m(1) by (metis append_Cons append_Nil append_assoc)
    then show ?thesis using jvalue_jmembers_jelements.elements[OF a(2) v(2) b(2) m(2)] by blast
  qed
qed simp_all

lemma stringsLoop_text: "stringsLoop n out s = Some (vs, t) \<Longrightarrow> \<exists>u. s = u @ '']'' @ t \<and> jelements u"
proof (induction n out s rule: stringsLoop.induct)
  case (2 n out s)
  obtain v t1 where st: "stringFast (skipSpace s) = Some (v, t1)" using "2.prems" by (auto split: option.splits)
  obtain a where a: "s = a @ skipSpace s" "jspaces a" using skipSpace_split by blast
  obtain b where b: "t1 = b @ skipSpace t1" "jspaces b" using skipSpace_split by blast
  obtain x where x: "skipSpace s = x @ t1" "jvalue x" using stringFast_text[OF st] jvalue_jmembers_jelements.str by blast
  show ?case
  proof (cases "consume (CHR '','') (skipSpace t1)")
    case None
    then have "skipSpace t1 = CHR '']'' # t" using "2.prems" st by (auto simp: consume_Some split: option.splits)
    then have "s = (a @ x @ b) @ '']'' @ t" using a(1) b(1) x(1) by (metis append_Cons append_Nil append_assoc)
    then show ?thesis using jvalue_jmembers_jelements.element[OF a(2) x(2) b(2)] by blast
  next
    case (Some t2)
    then have "stringsLoop n (out @ [v]) t2 = Some (vs, t)" using "2.prems" st by simp
    then obtain m where m: "t2 = m @ '']'' @ t" "jelements m" using "2.IH"[OF st _ Some] by auto
    have "skipSpace t1 = CHR '','' # t2" using Some by (simp add: consume_Some)
    then have "s = (a @ x @ b @ '','' @ m) @ '']'' @ t" using a(1) b(1) x(1) m(1) by (metis append_Cons append_Nil append_assoc)
    then show ?thesis using jvalue_jmembers_jelements.elements[OF a(2) x(2) b(2) m(2)] by blast
  qed
qed simp

lemma stringArray_text: "stringArray s = Some (vs, t) \<Longrightarrow> \<exists>u. s = u @ t \<and> jvalue u"
proof -
  assume p: "stringArray s = Some (vs, t)"
  then obtain r where r: "s = CHR ''['' # r" by (auto simp: stringArray_def consume_Some split: option.splits)
  obtain w where w: "r = w @ skipSpace r" "jspaces w" using skipSpace_split by blast
  show ?thesis
  proof (cases "consume (CHR '']'') (skipSpace r)")
    case None
    then have "stringsLoop (length r) [] (skipSpace r) = Some (vs, t)" using p r by (simp add: stringArray_def consume_def)
    then obtain u where u: "skipSpace r = u @ '']'' @ t" "jelements u" using stringsLoop_text by blast
    then have "s = (''['' @ (w @ u) @ '']'') @ t" using r w(1) by (metis append_Cons append_Nil append_assoc)
    then show ?thesis using jvalue_jmembers_jelements.arr[OF spaces_elements[OF w(2) u(2)]] by blast
  next
    case (Some t1)
    then have "t1 = t" using p r by (simp add: stringArray_def consume_def)
    then have "skipSpace r = CHR '']'' # t" using Some by (simp add: consume_Some)
    then have "s = (''['' @ w @ '']'') @ t" using r w(1) by (metis append_Cons append_Nil append_assoc)
    then show ?thesis using jvalue_jmembers_jelements.arr0[OF w(2)] by blast
  qed
qed

lemma literal_text: "literal s = Some (v, t) \<Longrightarrow> \<exists>u. s = u @ t \<and> jvalue u"
proof -
  assume "literal s = Some (v, t)"
  then have "dropPrefix ''true'' s = Some t \<or> dropPrefix ''false'' s = Some t \<or> dropPrefix ''null'' s = Some t"
    by (auto simp: literal_def split: option.splits)
  then show ?thesis using dropPrefix_text jvalue_jmembers_jelements.lit by blast
qed

lemma fieldFast_text:
  assumes "fieldFast key q s = Some (q', t)"
  shows "\<exists>u. s = u @ t \<and> jvalue u"
proof -
  consider v where "stringFast s = Some (v, t)" | vs where "stringArray s = Some (vs, t)" | v where "literal s = Some (v, t)"
    | "skipValue (Suc (2 * length s)) s = Some t"
    using assms by (auto simp: fieldFast_def flagOf_def split: if_splits option.splits)
  then show ?thesis
  proof cases
    case 1
    then show ?thesis using stringFast_text jvalue_jmembers_jelements.str by blast
  qed (use stringArray_text literal_text skip_text(1) in blast)+
qed

lemma fieldsFast_text: "fieldsFast n q s = Some q' \<Longrightarrow> \<exists>u w. s = u @ ''}'' @ w \<and> jmembers u \<and> jspaces w"
proof (induction n q s rule: fieldsFast.induct)
  case (2 n q s)
  obtain key t1 t2 q1 t3 where st: "stringFast (skipSpace s) = Some (key, t1)" "consume (CHR '':'') (skipSpace t1) = Some t2" "fieldFast key q (skipSpace t2) = Some (q1, t3)"
    using "2.prems" by (auto split: option.splits)
  obtain a where a: "s = a @ skipSpace s" "jspaces a" using skipSpace_split by blast
  obtain b where b: "t1 = b @ skipSpace t1" "jspaces b" using skipSpace_split by blast
  obtain c where c: "t2 = c @ skipSpace t2" "jspaces c" using skipSpace_split by blast
  obtain d where d: "t3 = d @ skipSpace t3" "jspaces d" using skipSpace_split by blast
  obtain k where k: "skipSpace s = k @ t1" "jstring k" using stringFast_text[OF st(1)] by blast
  obtain v where v: "skipSpace t2 = v @ t3" "jvalue v" using fieldFast_text[OF st(3)] by blast
  have col: "skipSpace t1 = CHR '':'' # t2" using st(2) by (simp add: consume_Some)
  show ?case
  proof (cases "consume (CHR '','') (skipSpace t3)")
    case None
    then obtain w where w: "skipSpace t3 = CHR ''}'' # w" "skipSpace w = []" using "2.prems" st by (auto simp: consume_Some split: option.splits if_splits)
    have "jspaces w" using skipSpace_split[of w] w(2) by auto
    moreover have "s = (a @ k @ b @ '':'' @ c @ v @ d) @ ''}'' @ w" using a(1) b(1) c(1) d(1) k(1) v(1) col w(1) by (metis append_Cons append_Nil append_assoc)
    ultimately show ?thesis using jvalue_jmembers_jelements.member[OF a(2) k(2) b(2) c(2) v(2) d(2)] by blast
  next
    case (Some t4)
    then have "fieldsFast n q1 t4 = Some q'" using "2.prems" st by simp
    then obtain m w where m: "t4 = m @ ''}'' @ w" "jmembers m" "jspaces w" using "2.IH"[OF st(1) _ st(2,3) _ Some] by auto
    have "skipSpace t3 = CHR '','' # t4" using Some by (simp add: consume_Some)
    then have "s = (a @ k @ b @ '':'' @ c @ v @ d @ '','' @ m) @ ''}'' @ w" using a(1) b(1) c(1) d(1) k(1) v(1) col m(1) by (metis append_Cons append_Nil append_assoc)
    then show ?thesis using jvalue_jmembers_jelements.members[OF a(2) k(2) b(2) c(2) v(2) d(2) m(2)] m(3) by blast
  qed
qed simp

text \<open>
  What the fast parser accepts is one JSON object with white space around it, so it never takes a text that the
  grammar rejects.
\<close>

theorem fast_parser_accepts_only_json:
  assumes "parseRequestFast payload = Some q"
  shows "\<exists>w u w'. payload = w @ u @ w' \<and> jspaces w \<and> jvalue u \<and> hd u = CHR ''{'' \<and> jspaces w'"
proof -
  obtain w where w: "payload = w @ skipSpace payload" "jspaces w" using skipSpace_split by blast
  obtain r where r: "skipSpace payload = CHR ''{'' # r" using assms by (auto simp: parseRequestFast_def consume_Some split: option.splits)
  show ?thesis
  proof (cases "consume (CHR ''}'') r")
    case None
    then have "fieldsFast (length r) noRequest r = Some q" using assms r by (simp add: parseRequestFast_def consume_def)
    then obtain u w' where u: "r = u @ ''}'' @ w'" "jmembers u" "jspaces w'" using fieldsFast_text by blast
    have "payload = w @ (''{'' @ u @ ''}'') @ w'" using w(1) r u(1) by (metis append_Cons append_Nil append_assoc)
    then show ?thesis using w(2) u(3) jvalue_jmembers_jelements.obj[OF u(2)] by (metis append_Cons list.sel(1))
  next
    case (Some w')
    then have "skipSpace w' = []" using assms r by (auto simp: parseRequestFast_def consume_def split: if_splits)
    then have s: "jspaces w'" using skipSpace_split[of w'] by auto
    have "payload = w @ (''{'' @ [] @ ''}'') @ w'" using w(1) r Some by (metis append_Cons append_Nil append_assoc consume_Some)
    then show ?thesis using w(2) s jvalue_jmembers_jelements.obj0[of "[]"] by (metis append_Cons list.sel(1) list.pred_inject(1))
  qed
qed

lemma fast_parser_accepts_nested_values:
  "parseRequestFast ''{ \"sql\" : \"a\", \"x\":[-1.5e3,{\"k\":null}, []]}'' = Some (noRequest\<lparr>qSQL := ''a''\<rparr>)"
  by code_simp

section \<open>The bounds of the loops are enough\<close>

lemma jstring_nonempty: "jstring u \<Longrightarrow> 0 < length u"
  by (auto simp: jstring_def)

lemma jvalue_nonempty: "jvalue u \<Longrightarrow> 0 < length u"
  by (erule jvalue.cases) (auto simp: jstring_def jnumber_def digits_def)

lemma skipSpace_length: "length (skipSpace s) \<le> length s"
  by (simp add: skipSpace_def length_dropWhile_le)

lemma reads_progress:
  "skipValue n s = Some t \<Longrightarrow> length t < length s"
  "skipString s = Some t \<Longrightarrow> length t < length s"
  "stringFast s = Some (v, t) \<Longrightarrow> length t < length s"
  "consume c s = Some t \<Longrightarrow> length t < length s"
  "fieldFast key q s = Some (q', t) \<Longrightarrow> length t < length s"
  using skip_text(1)[of n s t] skipString_text[of s t] stringFast_text[of s v t] fieldFast_text[of key q s q' t]
  by (auto simp: consume_Some dest: jvalue_nonempty jstring_nonempty)

lemma skip_enough:
  "2 * length s < n \<Longrightarrow> 2 * length s < m \<Longrightarrow> skipValue n s = skipValue m s"
  "2 * length s + 1 < n \<Longrightarrow> 2 * length s + 1 < m \<Longrightarrow> skipMembers n s = skipMembers m s"
  "2 * length s + 1 < n \<Longrightarrow> 2 * length s + 1 < m \<Longrightarrow> skipElements n s = skipElements m s"
proof (induction n s and n s and n s arbitrary: m and m and m rule: skipValue_skipMembers_skipElements.induct)
  case (2 n s)
  obtain k where m: "m = Suc k" using "2.prems" by (cases m) auto
  show ?case
  proof (cases s)
    case (Cons c cs)
    have l: "2 * length (skipSpace cs) + 1 < n" "2 * length (skipSpace cs) + 1 < k"
      using skipSpace_length[of cs] "2.prems" Cons m by auto
    show ?thesis using "2.IH"(1)[OF Cons, of k] "2.IH"(2)[OF Cons, of k] l Cons m by (simp split: option.splits)
  qed (simp add: m)
next
  case (4 n s)
  obtain k where m: "m = Suc k" using "4.prems" by (cases m) auto
  show ?case
  proof (cases "skipString (skipSpace s)")
    case s1: (Some t1)
    show ?thesis
    proof (cases "consume (CHR '':'') (skipSpace t1)")
      case s2: (Some t2)
      have l2: "length t2 + 2 \<le> length s"
        using reads_progress(2)[OF s1] reads_progress(4)[OF s2] skipSpace_length[of s] skipSpace_length[of t1] by linarith
      have v: "skipValue n (skipSpace t2) = skipValue k (skipSpace t2)"
        using "4.IH"(1)[OF s1 s2] l2 skipSpace_length[of t2] "4.prems" m by simp
      show ?thesis
      proof (cases "skipValue n (skipSpace t2)")
        case s3: (Some t3)
        show ?thesis
        proof (cases "consume (CHR '','') (skipSpace t3)")
          case s4: (Some t4)
          have "length t4 + 2 \<le> length s"
            using l2 reads_progress(1)[OF s3] reads_progress(4)[OF s4] skipSpace_length[of t2] skipSpace_length[of t3] by linarith
          then have "skipMembers n t4 = skipMembers k t4" using "4.IH"(2)[OF s1 s2 s3 s4] "4.prems" m by simp
          then show ?thesis using s1 s2 s3 s4 v m by simp
        qed (use s1 s2 s3 v m in simp)
      qed (use s1 s2 v m in simp)
    qed (simp add: s1 m)
  qed (simp add: m)
next
  case (6 n s)
  obtain k where m: "m = Suc k" using "6.prems" by (cases m) auto
  have v: "skipValue n (skipSpace s) = skipValue k (skipSpace s)"
    using "6.IH"(1)[of k] skipSpace_length[of s] "6.prems" m by simp
  show ?case
  proof (cases "skipValue n (skipSpace s)")
    case s1: (Some t1)
    show ?thesis
    proof (cases "consume (CHR '','') (skipSpace t1)")
      case s2: (Some t2)
      have "length t2 + 2 \<le> length s"
        using reads_progress(1)[OF s1] reads_progress(4)[OF s2] skipSpace_length[of s] skipSpace_length[of t1] by linarith
      then have "skipElements n t2 = skipElements k t2" using "6.IH"(2)[OF s1 s2] "6.prems" m by simp
      then show ?thesis using s1 s2 v m by simp
    qed (use s1 v m in simp)
  qed (use v m in simp)
qed simp_all

lemma stringsLoop_enough: "length s \<le> n \<Longrightarrow> length s \<le> m \<Longrightarrow> stringsLoop n out s = stringsLoop m out s"
proof (induction n out s arbitrary: m rule: stringsLoop.induct)
  case (1 out s)
  then show ?case by (cases m) (auto simp: stringFast_def consume_def skipSpace_def)
next
  case (2 n out s)
  show ?case
  proof (cases "stringFast (skipSpace s)")
    case None
    then show ?thesis by (cases m) auto
  next
    case (Some p)
    obtain v t where p: "p = (v, t)" by fastforce
    have l: "length t < length s" using reads_progress(3)[of "skipSpace s" v t] Some p skipSpace_length[of s] by simp
    then obtain k where m: "m = Suc k" using "2.prems" by (cases m) auto
    show ?thesis
    proof (cases "consume (CHR '','') (skipSpace t)")
      case s2: (Some t1)
      have "length t1 < length t" using reads_progress(4)[OF s2] skipSpace_length[of t] by linarith
      then have "stringsLoop n (out @ [v]) t1 = stringsLoop k (out @ [v]) t1" using "2.IH"[OF Some p[symmetric] s2, of k] l "2.prems" m by simp
      then show ?thesis using Some p s2 m by simp
    qed (use Some p m in simp)
  qed
qed

lemma fieldsFast_enough: "length s \<le> n \<Longrightarrow> length s \<le> m \<Longrightarrow> fieldsFast n q s = fieldsFast m q s"
proof (induction n q s arbitrary: m rule: fieldsFast.induct)
  case (1 q s)
  then show ?case by (cases m) (auto simp: stringFast_def consume_def skipSpace_def)
next
  case (2 n q s)
  show ?case
  proof (cases "stringFast (skipSpace s)")
    case None
    then show ?thesis by (cases m) auto
  next
    case (Some p)
    obtain key t where p: "p = (key, t)" by fastforce
    have l: "length t < length s" using reads_progress(3)[of "skipSpace s" key t] Some p skipSpace_length[of s] by simp
    then obtain k where m: "m = Suc k" using "2.prems" by (cases m) auto
    show ?thesis
    proof (cases "consume (CHR '':'') (skipSpace t)")
      case s1: (Some t1)
      show ?thesis
      proof (cases "fieldFast key q (skipSpace t1)")
        case s2: (Some p2)
        obtain q' t2 where p2: "p2 = (q', t2)" by fastforce
        show ?thesis
        proof (cases "consume (CHR '','') (skipSpace t2)")
          case s3: (Some t3)
          have "length t3 < length s"
            using l reads_progress(4)[OF s1] reads_progress(4)[OF s3] reads_progress(5)[of key q "skipSpace t1" q' t2] s2 p2
              skipSpace_length[of t] skipSpace_length[of t1] skipSpace_length[of t2] by simp
          then have "fieldsFast n q' t3 = fieldsFast k q' t3" using "2.IH"[OF Some p[symmetric] s1 s2 p2[symmetric] s3, of k] "2.prems" m by simp
          then show ?thesis using Some p s1 s2 p2 s3 m by simp
        qed (use Some p s1 s2 p2 m in simp)
      qed (use Some p s1 m in simp)
    qed (use Some p m in simp)
  qed
qed

end
