(* ===== verification/Readback.thy ===== *)
theory Readback
  imports Grammar
begin

text \<open>
  The string writer and the string reader are inverse on valid UTF-8: a request that is written field by field is read
  back by the fast parser, and by \<^verbatim>\<open>readRequest\<close> of \<^verbatim>\<open>internal/server/protocol.go\<close> from the connection.
\<close>

declare map_of_eq_Some_iff [simp del] Some_eq_map_of_iff [simp del]

section \<open>Written strings read back\<close>

function validUTF8 :: "string \<Rightarrow> bool" where
  "validUTF8 s =
     (case s of
        [] \<Rightarrow> True
      | c # cs \<Rightarrow> if byte c < 0x80 then validUTF8 cs else 1 < snd (decodeRune s) \<and> validUTF8 (drop (snd (decodeRune s) - 1) cs))"
  by pat_completeness auto
termination
  by (relation "measure length") auto

declare validUTF8.simps [simp del]

lemma hex_back: "n < 16 \<Longrightarrow> hexValue (lowerHex n) = Some n"
proof -
  have "\<forall>n < 16. hexValue (lowerHex n) = Some n" by code_simp
  then show "n < 16 \<Longrightarrow> ?thesis" by simp
qed

lemma decodeU_two: "n < 256 \<Longrightarrow> decodeU (''00'' @ [lowerHex (n div 16), lowerHex (n mod 16)] @ r) = Some n"
proof -
  assume n: "n < 256"
  have z: "hexValue (CHR ''0'') = Some 0" by code_simp
  have h: "hexValue (lowerHex (n div 16)) = Some (n div 16)" "hexValue (lowerHex (n mod 16)) = Some (n mod 16)" using n by (auto intro!: hex_back)
  show ?thesis by (simp add: decodeU_def z h)
qed

lemma escapeAt_u:
  "decodeU (drop 2 s) = Some r \<Longrightarrow> 2 \<le> length s \<Longrightarrow> s ! 1 = CHR ''u'' \<Longrightarrow> r < 0xD800 \<Longrightarrow> escapeAt s = Some (encodeRune r, 6)"
  by (simp add: escapeAt_def)

lemma escapeAt_control:
  assumes "byte c < 0x80"
  shows "escapeAt (backslash # ''u00'' @ [lowerHex (byte c div 16), lowerHex (byte c mod 16)] @ r) = Some ([c], 6)"
proof -
  have "decodeU (''00'' @ [lowerHex (byte c div 16), lowerHex (byte c mod 16)] @ r) = Some (byte c)" using assms by (intro decodeU_two) simp
  then show ?thesis using assms escapeAt_u[of "backslash # ''u00'' @ [lowerHex (byte c div 16), lowerHex (byte c mod 16)] @ r" "byte c"]
    by (simp add: encodeRune_def)
qed

lemma escapeAt_html:
  "escapeAt (backslash # ''u003c'' @ r) = Some (''<'', 6)"
  "escapeAt (backslash # ''u003e'' @ r) = Some (''>'', 6)"
  "escapeAt (backslash # ''u0026'' @ r) = Some (''&'', 6)"
proof -
  have h: "lowerHex 3 = CHR ''3''" "lowerHex 12 = CHR ''c''" "lowerHex 14 = CHR ''e''" "lowerHex 2 = CHR ''2''" "lowerHex 6 = CHR ''6''" by code_simp+
  show "escapeAt (backslash # ''u003c'' @ r) = Some (''<'', 6)" using escapeAt_control[of "CHR ''<''" r] by (simp add: h)
  show "escapeAt (backslash # ''u003e'' @ r) = Some (''>'', 6)" using escapeAt_control[of "CHR ''>''" r] by (simp add: h)
  show "escapeAt (backslash # ''u0026'' @ r) = Some (''&'', 6)" using escapeAt_control[of "CHR ''&''" r] by (simp add: h)
qed

text \<open>Decoding looks only at the bytes of the rune, and the rune determines them.\<close>

lemma decodeRune_wide_cases:
  assumes "1 < snd (decodeRune s)"
  obtains a b r where "s = a # b # r" "snd (decodeRune s) = 2" "0xC2 \<le> byte a" "byte a \<le> 0xDF" "contByte (byte b)"
  | a b c r where "s = a # b # c # r" "snd (decodeRune s) = 3" "0xE0 \<le> byte a" "byte a \<le> 0xEF" "contByte (byte b)" "contByte (byte c)"
      "byte a = 0xE0 \<longrightarrow> 0xA0 \<le> byte b" "byte a = 0xED \<longrightarrow> byte b \<le> 0x9F"
  | a b c d r where "s = a # b # c # d # r" "snd (decodeRune s) = 4" "0xF0 \<le> byte a" "byte a \<le> 0xF4" "contByte (byte b)" "contByte (byte c)"
      "contByte (byte d)" "byte a = 0xF0 \<longrightarrow> 0x90 \<le> byte b" "byte a = 0xF4 \<longrightarrow> byte b \<le> 0x8F"
proof -
  obtain a t where s: "s = a # t" using assms by (cases s) (auto simp: decodeRune_def)
  have "1 < snd (decodeRune (a # t))" using assms s by simp
  from decodeRune_lead[OF this] show thesis
  proof (elim disjE)
    assume "\<exists>b r. t = b # r \<and> snd (decodeRune (a # t)) = 2 \<and> 0xC2 \<le> byte a \<and> byte a \<le> 0xDF \<and> contByte (byte b)"
    then show thesis using that(1) s by metis
  next
    assume "\<exists>b c r. t = b # c # r \<and> snd (decodeRune (a # t)) = 3 \<and> 0xE0 \<le> byte a \<and> byte a \<le> 0xEF \<and> contByte (byte b) \<and> contByte (byte c) \<and>
        (byte a = 0xE0 \<longrightarrow> 0xA0 \<le> byte b) \<and> (byte a = 0xED \<longrightarrow> byte b \<le> 0x9F)"
    then show thesis using that(2) s by metis
  next
    assume "\<exists>b c d r. t = b # c # d # r \<and> snd (decodeRune (a # t)) = 4 \<and> 0xF0 \<le> byte a \<and> byte a \<le> 0xF4 \<and> contByte (byte b) \<and> contByte (byte c) \<and>
        contByte (byte d) \<and> (byte a = 0xF0 \<longrightarrow> 0x90 \<le> byte b) \<and> (byte a = 0xF4 \<longrightarrow> byte b \<le> 0x8F)"
    then show thesis using that(3) s by metis
  qed
qed

lemma decodeRune_extend:
  assumes "1 < snd (decodeRune s)"
  shows "decodeRune (take (snd (decodeRune s)) s @ r) = decodeRune s"
  using assms by (cases rule: decodeRune_wide_cases) (simp_all add: decodeRune_forms)

lemma lead_cont: "n \<le> byte a \<Longrightarrow> \<exists>x. byte a = n + x \<and> char_of (n + x) = a"
  by (metis char_of_char le_add_diff_inverse)

lemma contByte_low: "contByte n \<Longrightarrow> 0x80 \<le> n"
  by (simp add: contByte_def)

lemma sextets: "z < 64 \<Longrightarrow> (k * 64 + z) div 64 = k" "z < 64 \<Longrightarrow> (k * 64 + z) mod 64 = z" for k z :: nat
  by simp_all

lemma encode_decode:
  assumes "1 < snd (decodeRune s)"
  shows "encodeRune (fst (decodeRune s)) = take (snd (decodeRune s)) s"
  using assms
proof (cases rule: decodeRune_wide_cases)
  case (1 a b r)
  obtain x where x: "byte a = 0xC0 + x" "char_of (0xC0 + x) = a" using lead_cont[of "0xC0" a] 1(3) by auto
  obtain y where y: "byte b = 0x80 + y" "char_of (0x80 + y) = b" using lead_cont[OF contByte_low[OF 1(5)]] by blast
  have l: "2 \<le> x" "x < 32" "y < 64" using x(1) y(1) 1(3-5) by (auto simp: contByte_def)
  have "fst (decodeRune s) = x * 64 + y" using 1 x(1) y(1) by (simp add: decodeRune_forms)
  moreover have "encodeRune (x * 64 + y) = [a, b]" using l x(2) y(2) by (simp add: encodeRune_def)
  ultimately show ?thesis using 1(1,2) by simp
next
  case (2 a b c r)
  obtain x where x: "byte a = 0xE0 + x" "char_of (0xE0 + x) = a" using lead_cont[OF 2(3)] by blast
  obtain y where y: "byte b = 0x80 + y" "char_of (0x80 + y) = b" using lead_cont[OF contByte_low[OF 2(5)]] by blast
  obtain z where z: "byte c = 0x80 + z" "char_of (0x80 + z) = c" using lead_cont[OF contByte_low[OF 2(6)]] by blast
  have l: "x < 16" "y < 64" "z < 64" "x = 0 \<longrightarrow> 32 \<le> y" using x(1) y(1) z(1) 2(4-8) by (auto simp: contByte_def)
  have "fst (decodeRune s) = x * 4096 + y * 64 + z" using 2 x(1) y(1) z(1) by (simp add: decodeRune_forms)
  moreover have "encodeRune (x * 4096 + y * 64 + z) = [a, b, c]"
  proof -
    have "0x800 \<le> x * 4096 + y * 64 + z" "x * 4096 + y * 64 + z < 0x10000" using l by (cases "x = 0"; simp)+
    moreover have e: "x * 4096 + y * 64 + z = (x * 64 + y) * 64 + z" by simp
    have d: "(x * 4096 + y * 64 + z) div 64 = x * 64 + y" "(x * 4096 + y * 64 + z) mod 64 = z" unfolding e using sextets l by blast+
    have "(x * 4096 + y * 64 + z) div 4096 = x" "(x * 4096 + y * 64 + z) div 64 mod 64 = y" "(x * 4096 + y * 64 + z) mod 64 = z"
      using div_mult2_eq[of "x * 4096 + y * 64 + z" 64 64] d sextets(1)[of y x] sextets(2)[of y x] l by simp_all
    ultimately show ?thesis using x(2) y(2) z(2) by (simp add: encodeRune_def)
  qed
  ultimately show ?thesis using 2(1,2) by simp
next
  case (3 a b c d r)
  obtain x where x: "byte a = 0xF0 + x" "char_of (0xF0 + x) = a" using lead_cont[OF 3(3)] by blast
  obtain y where y: "byte b = 0x80 + y" "char_of (0x80 + y) = b" using lead_cont[OF contByte_low[OF 3(5)]] by blast
  obtain z where z: "byte c = 0x80 + z" "char_of (0x80 + z) = c" using lead_cont[OF contByte_low[OF 3(6)]] by blast
  obtain w where w: "byte d = 0x80 + w" "char_of (0x80 + w) = d" using lead_cont[OF contByte_low[OF 3(7)]] by blast
  have l: "x \<le> 4" "y < 64" "z < 64" "w < 64" "x = 0 \<longrightarrow> 16 \<le> y" using x(1) y(1) z(1) w(1) 3(4-9) by (auto simp: contByte_def)
  have "fst (decodeRune s) = x * 262144 + y * 4096 + z * 64 + w" using 3 x(1) y(1) z(1) w(1) by (simp add: decodeRune_forms)
  moreover have "encodeRune (x * 262144 + y * 4096 + z * 64 + w) = [a, b, c, d]"
  proof -
    let ?r = "x * 262144 + y * 4096 + z * 64 + w"
    have "0x10000 \<le> ?r" using l by (cases "x = 0"; simp)
    moreover have e: "?r = ((x * 64 + y) * 64 + z) * 64 + w" by simp
    have d: "?r div 64 = (x * 64 + y) * 64 + z" "?r mod 64 = w" unfolding e using sextets l by blast+
    have d2: "?r div 4096 = x * 64 + y" using div_mult2_eq[of ?r 64 64] d(1) sextets(1)[of z "x * 64 + y"] l by simp
    have "?r div 262144 = x" "?r div 4096 mod 64 = y" "?r div 64 mod 64 = z" "?r mod 64 = w"
      using div_mult2_eq[of ?r 4096 64] d d2 sextets(1)[of y x] sextets(2)[of y x] sextets(2)[of z "x * 64 + y"] l by simp_all
    ultimately show ?thesis using x(2) y(2) z(2) w(2) by (simp add: encodeRune_def)
  qed
  ultimately show ?thesis using 3(1,2) by simp
qed

lemma escapeBytes_rune:
  assumes "\<not> byte c < 0x80" "1 < snd (decodeRune (c # cs))"
  shows "escapeBytes (c # cs) = take (snd (decodeRune (c # cs))) (c # cs) @ escapeBytes (drop (snd (decodeRune (c # cs)) - 1) cs)"
proof -
  obtain r n where d: "decodeRune (c # cs) = (r, n)" by fastforce
  have e: "encodeRune r = take n (c # cs)" using encode_decode[OF assms(2)] d by simp
  have c: "c \<noteq> dquote" "c \<noteq> backslash" "c \<noteq> CHR 0x0A" "c \<noteq> CHR 0x0D" "c \<noteq> CHR 0x09" "c \<noteq> CHR ''<''" "c \<noteq> CHR ''>''" "c \<noteq> CHR ''&''" "\<not> byte c < 0x20"
    using assms(1) by auto
  have "encodeRune 0x2028 = [CHR 0xE2, CHR 0x80, CHR 0xA8]" "encodeRune 0x2029 = [CHR 0xE2, CHR 0x80, CHR 0xA9]"
    using encode_decode[of "[CHR 0xE2, CHR 0x80, CHR 0xA8]"] encode_decode[of "[CHR 0xE2, CHR 0x80, CHR 0xA9]"]
    by (simp_all add: decodeRune_def contByte_def)
  then have "(if r = 0x2028 then [CHR 0xE2, CHR 0x80, CHR 0xA8] else if r = 0x2029 then [CHR 0xE2, CHR 0x80, CHR 0xA9] else encodeRune r) = encodeRune r"
    by auto
  then have "(if r = 0x2028 then [CHR 0xE2, CHR 0x80, CHR 0xA8] else if r = 0x2029 then [CHR 0xE2, CHR 0x80, CHR 0xA9] else take n (c # cs)) = take n (c # cs)"
    unfolding e .
  then show ?thesis using c assms d by (simp add: escapeBytes.simps[of "c # cs"])
qed

text \<open>Reading a step: the bytes the writer produced for one character, and then the rest.\<close>

lemma escapedLoop_steps:
  "escapedLoop out (dquote # r) = Some (out, r)"
  "escapeAt (backslash # s) = Some (bs, n) \<Longrightarrow> escapedLoop out (backslash # s) = escapedLoop (out @ bs) (drop n (backslash # s))"
  "c \<noteq> dquote \<Longrightarrow> c \<noteq> backslash \<Longrightarrow> \<not> byte c < 0x20 \<Longrightarrow> byte c < 0x80 \<Longrightarrow> escapedLoop out (c # s) = escapedLoop (out @ [c]) s"
  by (simp_all add: escapedLoop.simps[of out "dquote # r"] escapedLoop.simps[of out "backslash # s"] escapedLoop.simps[of out "c # s"])

lemma escapedLoop_rune:
  assumes "\<not> byte c < 0x80" "1 < snd (decodeRune (c # s))"
  shows "escapedLoop out (c # s) = escapedLoop (out @ take (snd (decodeRune (c # s))) (c # s)) (drop (snd (decodeRune (c # s))) (c # s))"
  using assms by (auto simp: escapedLoop.simps[of out "c # s"] Let_def)

lemma plainLoop_steps:
  "plainLoop out (dquote # r) = Some (out, r)"
  "plainLoop out (backslash # s) = escapedLoop out (backslash # s)"
  "c \<noteq> dquote \<Longrightarrow> c \<noteq> backslash \<Longrightarrow> \<not> byte c < 0x20 \<Longrightarrow> byte c < 0x80 \<Longrightarrow> plainLoop out (c # s) = plainLoop (out @ [c]) s"
  by (simp_all add: plainLoop.simps[of out "dquote # r"] plainLoop.simps[of out "backslash # s"] plainLoop.simps[of out "c # s"])

lemma plainLoop_rune:
  assumes "\<not> byte c < 0x80" "1 < snd (decodeRune (c # s))"
  shows "plainLoop out (c # s) = plainLoop (out @ take (snd (decodeRune (c # s))) (c # s)) (drop (snd (decodeRune (c # s))) (c # s))"
  using assms by (auto simp: plainLoop.simps[of out "c # s"] Let_def)

lemma escapeAt_simple:
  "escapeAt (backslash # dquote # r) = Some ([dquote], 2)" "escapeAt (backslash # backslash # r) = Some ([backslash], 2)"
  "escapeAt (backslash # CHR ''n'' # r) = Some ([CHR 0x0A], 2)" "escapeAt (backslash # CHR ''r'' # r) = Some ([CHR 0x0D], 2)"
  "escapeAt (backslash # CHR ''t'' # r) = Some ([CHR 0x09], 2)"
  by (simp_all add: escapeAt_def)

text \<open>The forms of what is written for the first character.\<close>

lemma escape_first:
  assumes "byte c < 0x80"
  shows "(\<exists>e n. (\<forall>r. escapeAt (backslash # e @ r) = Some ([c], n)) \<and> n = Suc (length e) \<and> escapeBytes (c # cs) = backslash # e @ escapeBytes cs) \<or>
    c \<noteq> dquote \<and> c \<noteq> backslash \<and> \<not> byte c < 0x20 \<and> escapeBytes (c # cs) = c # escapeBytes cs"
proof -
  note w = escapeBytes.simps[of "c # cs"]
  have one: ?thesis if "\<And>r. escapeAt (backslash # e # r) = Some ([c], 2)" "escapeBytes (c # cs) = backslash # [e] @ escapeBytes cs" for e
    using that by (intro disjI1 exI[of _ "[e]"] exI[of _ 2]) simp
  consider "c \<in> {dquote, backslash, CHR 0x0A, CHR 0x0D, CHR 0x09}" | "c = CHR ''<''" | "c = CHR ''>''" | "c = CHR ''&''"
    | "c \<notin> {dquote, backslash, CHR 0x0A, CHR 0x0D, CHR 0x09, CHR ''<'', CHR ''>'', CHR ''&''}" by blast
  then show ?thesis
  proof cases
    case 1
    then consider "c = dquote" | "c = backslash" | "c = CHR 0x0A" | "c = CHR 0x0D" | "c = CHR 0x09" by blast
    then show ?thesis
    proof cases
      case 1
      then show ?thesis using w by (intro one[of dquote]) (simp_all add: escapeAt_simple)
    next
      case 2
      then show ?thesis using w by (intro one[of backslash]) (simp_all add: escapeAt_simple)
    next
      case 3
      then show ?thesis using w by (intro one[of "CHR ''n''"]) (simp_all add: escapeAt_simple)
    next
      case 4
      then show ?thesis using w by (intro one[of "CHR ''r''"]) (simp_all add: escapeAt_simple)
    next
      case 5
      then show ?thesis using w by (intro one[of "CHR ''t''"]) (simp_all add: escapeAt_simple)
    qed
  next
    case 2
    then show ?thesis using escapeAt_html(1) w by (intro disjI1 exI[of _ "''u003c''"] exI[of _ 6]) simp
  next
    case 3
    then show ?thesis using escapeAt_html(2) w by (intro disjI1 exI[of _ "''u003e''"] exI[of _ 6]) simp
  next
    case 4
    then show ?thesis using escapeAt_html(3) w by (intro disjI1 exI[of _ "''u0026''"] exI[of _ 6]) simp
  next
    case 5
    show ?thesis
    proof (cases "byte c < 0x20")
      case True
      then have "escapeBytes (c # cs) = backslash # (''u00'' @ [lowerHex (byte c div 16), lowerHex (byte c mod 16)]) @ escapeBytes cs" using 5 w by simp
      then show ?thesis using escapeAt_control[OF assms]
        by (intro disjI1 exI[of _ "''u00'' @ [lowerHex (byte c div 16), lowerHex (byte c mod 16)]"] exI[of _ 6]) simp
    qed (use 5 w assms in simp)
  qed
qed

lemma escapedLoop_take:
  assumes "\<not> byte c < 0x80" "1 < snd (decodeRune (c # cs))"
  shows "escapedLoop out (take (snd (decodeRune (c # cs))) (c # cs) @ t) = escapedLoop (out @ take (snd (decodeRune (c # cs))) (c # cs)) t"
proof -
  let ?n = "snd (decodeRune (c # cs))"
  have l: "?n \<le> length (c # cs)" using decodeRune_wide[OF assms(2)] by simp
  have d: "decodeRune (take ?n (c # cs) @ t) = decodeRune (c # cs)" by (rule decodeRune_extend[OF assms(2)])
  obtain rest where rest: "take ?n (c # cs) @ t = c # rest" using assms(2) by (cases ?n) auto
  have "escapedLoop out (c # rest) = escapedLoop (out @ take ?n (c # rest)) (drop ?n (c # rest))"
    using escapedLoop_rune[OF assms(1), of rest out] assms(2) d rest by simp
  also have "take ?n (c # rest) = take ?n (c # cs)" using l rest[symmetric] by simp
  also have "drop ?n (c # rest) = t" using l rest[symmetric] by simp
  finally show ?thesis using rest by simp
qed

lemma plainLoop_take:
  assumes "\<not> byte c < 0x80" "1 < snd (decodeRune (c # cs))"
  shows "plainLoop out (take (snd (decodeRune (c # cs))) (c # cs) @ t) = plainLoop (out @ take (snd (decodeRune (c # cs))) (c # cs)) t"
proof -
  let ?n = "snd (decodeRune (c # cs))"
  have l: "?n \<le> length (c # cs)" using decodeRune_wide[OF assms(2)] by simp
  have d: "decodeRune (take ?n (c # cs) @ t) = decodeRune (c # cs)" by (rule decodeRune_extend[OF assms(2)])
  obtain rest where rest: "take ?n (c # cs) @ t = c # rest" using assms(2) by (cases ?n) auto
  have "plainLoop out (c # rest) = plainLoop (out @ take ?n (c # rest)) (drop ?n (c # rest))"
    using plainLoop_rune[OF assms(1), of rest out] assms(2) d rest by simp
  also have "take ?n (c # rest) = take ?n (c # cs)" using l rest[symmetric] by simp
  also have "drop ?n (c # rest) = t" using l rest[symmetric] by simp
  finally show ?thesis using rest by simp
qed

lemma rune_split: "1 < n \<Longrightarrow> take n (c # cs) @ drop (n - 1) cs = c # cs"
  by (cases n) auto

text \<open>
  A writer of strings: each character is written as itself or as an escape that stands for it. The reader takes back what
  such a writer wrote.
\<close>

locale stringWriter =
  fixes written :: "string \<Rightarrow> string"
  assumes written_nil: "written [] = []"
    and written_ascii: "byte c < 0x80 \<Longrightarrow>
      (\<exists>e n. (\<forall>r. escapeAt (backslash # e @ r) = Some ([c], n)) \<and> n = Suc (length e) \<and> written (c # cs) = backslash # e @ written cs) \<or>
      c \<noteq> dquote \<and> c \<noteq> backslash \<and> \<not> byte c < 0x20 \<and> written (c # cs) = c # written cs"
    and written_rune: "\<not> byte c < 0x80 \<Longrightarrow> 1 < snd (decodeRune (c # cs)) \<Longrightarrow>
      written (c # cs) = take (snd (decodeRune (c # cs))) (c # cs) @ written (drop (snd (decodeRune (c # cs)) - 1) cs) \<or>
      (\<exists>e. (\<forall>r. escapeAt (backslash # e @ r) = Some (take (snd (decodeRune (c # cs))) (c # cs), Suc (length e))) \<and>
           written (c # cs) = backslash # e @ written (drop (snd (decodeRune (c # cs)) - 1) cs))"
begin

lemma escaped_reads_back: "validUTF8 s \<Longrightarrow> escapedLoop out (written s @ dquote # r) = Some (out @ s, r)"
proof (induction s arbitrary: out rule: validUTF8.induct)
  case (1 s)
  show ?case
  proof (cases s)
    case Nil
    then show ?thesis by (simp add: written_nil escapedLoop_steps)
  next
    case (Cons c cs)
    show ?thesis
    proof (cases "byte c < 0x80")
      case True
      then have v: "validUTF8 cs" using "1.prems" Cons by (simp add: validUTF8.simps[of "c # cs"])
      note ih = "1.IH"(1)[OF Cons True v, of "out @ [c]"]
      from written_ascii[OF True, of cs] show ?thesis
      proof (elim disjE exE conjE)
        fix e n assume e: "\<forall>r. escapeAt (backslash # e @ r) = Some ([c], n)" "n = Suc (length e)" "written (c # cs) = backslash # e @ written cs"
        show ?thesis using e(2,3) Cons ih escapedLoop_steps(2)[OF e(1)[rule_format]] by simp
      next
        assume "c \<noteq> dquote" "c \<noteq> backslash" "\<not> byte c < 0x20" "written (c # cs) = c # written cs"
        then show ?thesis using Cons ih True escapedLoop_steps(3) by simp
      qed
    next
      case False
      let ?n = "snd (decodeRune (c # cs))"
      have v: "1 < ?n" "validUTF8 (drop (?n - 1) cs)" using "1.prems" Cons False by (simp_all add: validUTF8.simps[of "c # cs"])
      let ?t = "written (drop (?n - 1) cs) @ dquote # r"
      have ih: "escapedLoop (out @ take ?n (c # cs)) ?t = Some (out @ c # cs, r)"
        using "1.IH"(2)[OF Cons False, of "out @ take ?n (c # cs)"] v(2) Cons rune_split[OF v(1), of c cs] by simp
      from written_rune[OF False v(1)] show ?thesis
      proof (elim disjE exE conjE)
        assume "written (c # cs) = take ?n (c # cs) @ written (drop (?n - 1) cs)"
        then show ?thesis using Cons ih escapedLoop_take[OF False v(1), of out ?t] by simp
      next
        fix e assume e: "\<forall>r. escapeAt (backslash # e @ r) = Some (take ?n (c # cs), Suc (length e))" "written (c # cs) = backslash # e @ written (drop (?n - 1) cs)"
        show ?thesis using e(2) Cons ih escapedLoop_steps(2)[OF e(1)[rule_format, of ?t], of out] by simp
      qed
    qed
  qed
qed

lemma plain_reads_back: "validUTF8 s \<Longrightarrow> plainLoop out (written s @ dquote # r) = Some (out @ s, r)"
proof (induction s arbitrary: out rule: validUTF8.induct)
  case (1 s)
  have esc: "plainLoop out (written s @ dquote # r) = Some (out @ s, r)" if "written s = backslash # e" for e
    using escaped_reads_back[OF "1.prems", of out r] that plainLoop_steps(2) by simp
  show ?case
  proof (cases s)
    case Nil
    then show ?thesis by (simp add: written_nil plainLoop_steps)
  next
    case (Cons c cs)
    show ?thesis
    proof (cases "byte c < 0x80")
      case True
      then have v: "validUTF8 cs" using "1.prems" Cons by (simp add: validUTF8.simps[of "c # cs"])
      from written_ascii[OF True, of cs] show ?thesis
      proof (elim disjE exE conjE)
        fix e n assume "written (c # cs) = backslash # e @ written cs"
        then show ?thesis using esc Cons by simp
      next
        assume "c \<noteq> dquote" "c \<noteq> backslash" "\<not> byte c < 0x20" "written (c # cs) = c # written cs"
        then show ?thesis using Cons "1.IH"(1)[OF Cons True v, of "out @ [c]"] True plainLoop_steps(3) by simp
      qed
    next
      case False
      let ?n = "snd (decodeRune (c # cs))"
      have v: "1 < ?n" "validUTF8 (drop (?n - 1) cs)" using "1.prems" Cons False by (simp_all add: validUTF8.simps[of "c # cs"])
      let ?t = "written (drop (?n - 1) cs) @ dquote # r"
      have ih: "plainLoop (out @ take ?n (c # cs)) ?t = Some (out @ c # cs, r)"
        using "1.IH"(2)[OF Cons False, of "out @ take ?n (c # cs)"] v(2) Cons rune_split[OF v(1), of c cs] by simp
      from written_rune[OF False v(1)] show ?thesis
      proof (elim disjE exE conjE)
        assume "written (c # cs) = take ?n (c # cs) @ written (drop (?n - 1) cs)"
        then show ?thesis using Cons ih plainLoop_take[OF False v(1), of out ?t] by simp
      next
        fix e assume "written (c # cs) = backslash # e @ written (drop (?n - 1) cs)"
        then show ?thesis using esc Cons by simp
      qed
    qed
  qed
qed

lemma reads_back: "validUTF8 s \<Longrightarrow> stringFast (dquote # written s @ dquote # r) = Some (s, r)"
  by (simp add: stringFast_def consume_def plain_reads_back)

end

interpretation engineWriter: stringWriter escapeBytes
proof
  show "escapeBytes [] = []" by (simp add: escapeBytes.simps)
qed (use escape_first escapeBytes_rune in blast)+

lemmas stringFast_written = engineWriter.reads_back

text \<open>
  The strings of \<^verbatim>\<open>json.Marshal\<close>, as clients send them: two more control characters have short escapes, an invalid byte
  is written as an escape, and so are U+2028 and U+2029.
\<close>

function marshalBytes :: "string \<Rightarrow> string" where
  "marshalBytes s =
     (case s of
        [] \<Rightarrow> []
      | c # cs \<Rightarrow>
          if c = dquote then [backslash, dquote] @ marshalBytes cs
          else if c = backslash then [backslash, backslash] @ marshalBytes cs
          else if c = CHR 0x08 then [backslash, CHR ''b''] @ marshalBytes cs
          else if c = CHR 0x0C then [backslash, CHR ''f''] @ marshalBytes cs
          else if c = CHR 0x0A then [backslash, CHR ''n''] @ marshalBytes cs
          else if c = CHR 0x0D then [backslash, CHR ''r''] @ marshalBytes cs
          else if c = CHR 0x09 then [backslash, CHR ''t''] @ marshalBytes cs
          else if byte c < 0x20 \<or> c = CHR ''<'' \<or> c = CHR ''>'' \<or> c = CHR ''&'' then
            backslash # ''u00'' @ [lowerHex (byte c div 16), lowerHex (byte c mod 16)] @ marshalBytes cs
          else if byte c < 0x80 then c # marshalBytes cs
          else case decodeRune s of
            (r, width) \<Rightarrow>
              if r = 0xFFFD \<and> width \<le> 1 then backslash # ''ufffd'' @ marshalBytes cs
              else (if r = 0x2028 then backslash # ''u2028'' else if r = 0x2029 then backslash # ''u2029'' else take width s)
                   @ marshalBytes (drop (width - 1) cs))"
  by pat_completeness auto
termination
  by (relation "measure length") auto

declare marshalBytes.simps [simp del]

definition marshalString :: "string \<Rightarrow> string" where
  "marshalString s = dquote # marshalBytes s @ [dquote]"

lemma marshal_ascii:
  assumes "byte c < 0x80" "c \<noteq> CHR 0x08" "c \<noteq> CHR 0x0C"
  shows "escapeBytes (c # cs) = escapeBytes [c] @ escapeBytes cs" "marshalBytes (c # cs) = escapeBytes [c] @ marshalBytes cs"
proof -
  have h: "lowerHex 3 = CHR ''3''" "lowerHex 12 = CHR ''c''" "lowerHex 14 = CHR ''e''" "lowerHex 2 = CHR ''2''" "lowerHex 6 = CHR ''6''" by code_simp+
  show "escapeBytes (c # cs) = escapeBytes [c] @ escapeBytes cs"
    using assms by (simp add: escapeBytes.simps[of "c # cs"] escapeBytes.simps[of "[c]"] escapeBytes.simps[of "[]"])
  show "marshalBytes (c # cs) = escapeBytes [c] @ marshalBytes cs"
    using assms by (simp add: marshalBytes.simps[of "c # cs"] escapeBytes.simps[of "[c]"] escapeBytes.simps[of "[]"] h)
qed

lemma escapeAt_separators:
  "escapeAt (backslash # ''u2028'' @ r) = Some (encodeRune 0x2028, 6)" "escapeAt (backslash # ''u2029'' @ r) = Some (encodeRune 0x2029, 6)"
  by (simp_all add: escapeAt_def decodeU_def hexValue_def)

interpretation standardWriter: stringWriter marshalBytes
proof
  show "marshalBytes [] = []" by (simp add: marshalBytes.simps)
next
  fix c cs assume c: "byte c < 0x80"
  have b: "marshalBytes (CHR 0x08 # cs) = backslash # [CHR ''b''] @ marshalBytes cs" "\<And>r. escapeAt (backslash # [CHR ''b''] @ r) = Some ([CHR 0x08], 2)"
    by (simp_all add: marshalBytes.simps[of "CHR 0x08 # cs"] escapeAt_def)
  have f: "marshalBytes (CHR 0x0C # cs) = backslash # [CHR ''f''] @ marshalBytes cs" "\<And>r. escapeAt (backslash # [CHR ''f''] @ r) = Some ([CHR 0x0C], 2)"
    by (simp_all add: marshalBytes.simps[of "CHR 0x0C # cs"] escapeAt_def)
  have short: "\<exists>e n. (\<forall>r. escapeAt (backslash # e @ r) = Some ([c], n)) \<and> n = Suc (length e) \<and> marshalBytes (c # cs) = backslash # e @ marshalBytes cs"
    if "c = CHR 0x08 \<and> x = CHR ''b'' \<or> c = CHR 0x0C \<and> x = CHR ''f''" for x
    using that
  proof (elim disjE conjE)
    assume "c = CHR 0x08"
    then show ?thesis using b by (intro exI[of _ "[CHR ''b'']"] exI[of _ 2]) simp
  next
    assume "c = CHR 0x0C"
    then show ?thesis using f by (intro exI[of _ "[CHR ''f'']"] exI[of _ 2]) simp
  qed
  show "(\<exists>e n. (\<forall>r. escapeAt (backslash # e @ r) = Some ([c], n)) \<and> n = Suc (length e) \<and> marshalBytes (c # cs) = backslash # e @ marshalBytes cs) \<or>
      c \<noteq> dquote \<and> c \<noteq> backslash \<and> \<not> byte c < 0x20 \<and> marshalBytes (c # cs) = c # marshalBytes cs"
  proof (cases "c = CHR 0x08 \<or> c = CHR 0x0C")
    case True
    then show ?thesis using short[of "CHR ''b''"] short[of "CHR ''f''"] by (intro disjI1) (elim disjE, simp_all only: simp_thms)
  next
    case False
    then have "marshalBytes (c # cs) = escapeBytes [c] @ marshalBytes cs" "escapeBytes (c # cs) = escapeBytes [c] @ escapeBytes cs"
      using marshal_ascii[OF c] by blast+
    moreover from escape_first[OF c, of cs] have "(\<exists>e n. (\<forall>r. escapeAt (backslash # e @ r) = Some ([c], n)) \<and> n = Suc (length e) \<and> escapeBytes [c] @ escapeBytes cs = (backslash # e) @ escapeBytes cs) \<or>
        c \<noteq> dquote \<and> c \<noteq> backslash \<and> \<not> byte c < 0x20 \<and> escapeBytes [c] @ escapeBytes cs = [c] @ escapeBytes cs"
      using calculation(2) by simp
    ultimately show ?thesis unfolding append_same_eq by (elim disjE exE conjE) simp_all
  qed
next
  fix c cs assume c: "\<not> byte c < 0x80" "1 < snd (decodeRune (c # cs))"
  obtain r n where d: "decodeRune (c # cs) = (r, n)" by fastforce
  have e: "encodeRune r = take n (c # cs)" using encode_decode[OF c(2)] d by simp
  have k: "c \<noteq> dquote" "c \<noteq> backslash" "c \<noteq> CHR 0x0A" "c \<noteq> CHR 0x0D" "c \<noteq> CHR 0x09" "c \<noteq> CHR ''<''" "c \<noteq> CHR ''>''" "c \<noteq> CHR ''&''"
      "c \<noteq> CHR 0x08" "c \<noteq> CHR 0x0C" "\<not> byte c < 0x20"
    using c(1) by auto
  have w: "marshalBytes (c # cs) = (if r = 0x2028 then backslash # ''u2028'' else if r = 0x2029 then backslash # ''u2029'' else take n (c # cs))
      @ marshalBytes (drop (n - 1) cs)"
    using c d k by (simp add: marshalBytes.simps[of "c # cs"])
  have s: "\<exists>u. (\<forall>t. escapeAt (backslash # u @ t) = Some (take n (c # cs), Suc (length u))) \<and> marshalBytes (c # cs) = backslash # u @ marshalBytes (drop (n - 1) cs)"
    if "r = 0x2028 \<or> r = 0x2029"
    using that w escapeAt_separators e
    by (intro exI[of _ "if r = 0x2028 then ''u2028'' else ''u2029''"]) auto
  show "marshalBytes (c # cs) = take (snd (decodeRune (c # cs))) (c # cs) @ marshalBytes (drop (snd (decodeRune (c # cs)) - 1) cs) \<or>
      (\<exists>e. (\<forall>r. escapeAt (backslash # e @ r) = Some (take (snd (decodeRune (c # cs))) (c # cs), Suc (length e))) \<and>
           marshalBytes (c # cs) = backslash # e @ marshalBytes (drop (snd (decodeRune (c # cs)) - 1) cs))"
    using s w d by (cases "r = 0x2028 \<or> r = 0x2029") auto
qed

lemma marshalString_reads: "validUTF8 s \<Longrightarrow> stringFast (marshalString s @ r) = Some (s, r)"
  by (simp add: marshalString_def standardWriter.reads_back)

lemma skipSpace_here: "\<not> isJsonSpace c \<Longrightarrow> skipSpace (c # s) = c # s"
  by (simp add: skipSpace_def)

lemma not_spaces [simp]: "\<not> isJsonSpace dquote" "\<not> isJsonSpace (CHR '':'')" "\<not> isJsonSpace (CHR '','')" "\<not> isJsonSpace (CHR ''{'')"
    "\<not> isJsonSpace (CHR ''}'')" "\<not> isJsonSpace (CHR ''['')" "\<not> isJsonSpace (CHR '']'')" "\<not> isJsonSpace (CHR ''t'')" "\<not> isJsonSpace (CHR ''f'')"
  by (simp_all add: isJsonSpace_def)

section \<open>Requests as clients write them\<close>

datatype field = FSql string | FSqls "string list" | FAuth string | FAuthKey string | FAtomic bool | FPing bool

fun arrayText :: "string list \<Rightarrow> string" where
  "arrayText [] = []"
| "arrayText [s] = marshalString s"
| "arrayText (s # ss) = marshalString s @ '','' @ arrayText ss"

definition flagText :: "bool \<Rightarrow> string" where
  "flagText b = (if b then ''true'' else ''false'')"

fun fieldText :: "field \<Rightarrow> string" where
  "fieldText (FSql s) = marshalString ''sql'' @ '':'' @ marshalString s"
| "fieldText (FSqls ss) = marshalString ''sqls'' @ '':'' @ ''['' @ arrayText ss @ '']''"
| "fieldText (FAuth s) = marshalString ''auth'' @ '':'' @ marshalString s"
| "fieldText (FAuthKey s) = marshalString ''auth_key'' @ '':'' @ marshalString s"
| "fieldText (FAtomic b) = marshalString ''atomic'' @ '':'' @ flagText b"
| "fieldText (FPing b) = marshalString ''ping'' @ '':'' @ flagText b"

fun fieldsText :: "field list \<Rightarrow> string" where
  "fieldsText [] = []"
| "fieldsText [f] = fieldText f"
| "fieldsText (f # fs) = fieldText f @ '','' @ fieldsText fs"

definition requestText :: "field list \<Rightarrow> string" where
  "requestText fs = ''{'' @ fieldsText fs @ ''}''"

fun setField :: "field \<Rightarrow> request \<Rightarrow> request" where
  "setField (FSql s) q = q\<lparr>qSQL := s\<rparr>"
| "setField (FSqls ss) q = q\<lparr>qSQLs := ss\<rparr>"
| "setField (FAuth s) q = q\<lparr>qAuth := s\<rparr>"
| "setField (FAuthKey s) q = q\<lparr>qAuthKey := s\<rparr>"
| "setField (FAtomic b) q = q\<lparr>qAtomic := b\<rparr>"
| "setField (FPing b) q = q\<lparr>qPing := b\<rparr>"

fun validField :: "field \<Rightarrow> bool" where
  "validField (FSql s) = validUTF8 s"
| "validField (FSqls ss) = list_all validUTF8 ss"
| "validField (FAuth s) = validUTF8 s"
| "validField (FAuthKey s) = validUTF8 s"
| "validField (FAtomic b) = True"
| "validField (FPing b) = True"

lemma arrayText_Cons: "ss \<noteq> [] \<Longrightarrow> arrayText (s # ss) = marshalString s @ '','' @ arrayText ss"
  by (cases ss) auto

lemma arrayText_head: "ss \<noteq> [] \<Longrightarrow> \<exists>t. arrayText ss = dquote # t"
  by (induction ss rule: arrayText.induct) (auto simp: marshalString_def)

lemma stringsLoop_written:
  "ss \<noteq> [] \<Longrightarrow> list_all validUTF8 ss \<Longrightarrow> length ss \<le> n \<Longrightarrow> stringsLoop n out (arrayText ss @ '']'' @ r) = Some (out @ ss, r)"
proof (induction ss arbitrary: n out)
  case (Cons s ss)
  obtain k where n: "n = Suc k" using Cons.prems(3) by (cases n) auto
  show ?case
  proof (cases "ss = []")
    case True
    then show ?thesis using Cons.prems n by (simp add: marshalString_def skipSpace_here standardWriter.reads_back consume_def)
  next
    case False
    then show ?thesis using Cons.prems n Cons.IH[of k "out @ [s]"]
      by (simp add: arrayText_Cons marshalString_def skipSpace_here standardWriter.reads_back consume_def)
  qed
qed simp

lemma arrayText_length: "length ss \<le> length (arrayText ss)"
  by (induction ss rule: arrayText.induct) (auto simp: marshalString_def)

lemma stringArray_written: "list_all validUTF8 ss \<Longrightarrow> stringArray (''['' @ arrayText ss @ '']'' @ r) = Some (ss, r)"
proof (cases "ss = []")
  case False
  assume v: "list_all validUTF8 ss"
  obtain t where t: "arrayText ss = dquote # t" using arrayText_head[OF False] by blast
  have "stringsLoop (length (arrayText ss @ '']'' @ r)) [] (arrayText ss @ '']'' @ r) = Some (ss, r)"
    using stringsLoop_written[OF False v, of "length (arrayText ss @ '']'' @ r)" "[]"] arrayText_length[of ss] by simp
  then show ?thesis using t by (simp add: stringArray_def consume_def skipSpace_here)
qed (simp add: stringArray_def consume_def skipSpace_here)

lemma literal_flag: "literal (flagText b @ r) = Some (flagText b, r)"
  by (simp add: literal_def flagText_def dropPrefix_def)

definition keyOf_field :: "field \<Rightarrow> string" where
  "keyOf_field f = (case f of FSql _ \<Rightarrow> ''sql'' | FSqls _ \<Rightarrow> ''sqls'' | FAuth _ \<Rightarrow> ''auth'' | FAuthKey _ \<Rightarrow> ''auth_key'' | FAtomic _ \<Rightarrow> ''atomic'' | FPing _ \<Rightarrow> ''ping'')"

definition valueText :: "field \<Rightarrow> string" where
  "valueText f =
     (case f of
        FSql s \<Rightarrow> marshalString s | FSqls ss \<Rightarrow> ''['' @ arrayText ss @ '']'' | FAuth s \<Rightarrow> marshalString s
      | FAuthKey s \<Rightarrow> marshalString s | FAtomic b \<Rightarrow> flagText b | FPing b \<Rightarrow> flagText b)"

lemma fieldText_parts: "fieldText f = marshalString (keyOf_field f) @ '':'' @ valueText f"
  by (cases f) (simp_all add: keyOf_field_def valueText_def)

lemma keyOf_field_valid: "validUTF8 (keyOf_field f)"
proof -
  have "validUTF8 ''sql''" "validUTF8 ''sqls''" "validUTF8 ''auth''" "validUTF8 ''auth_key''" "validUTF8 ''atomic''" "validUTF8 ''ping''" by code_simp+
  then show ?thesis by (cases f) (simp_all add: keyOf_field_def)
qed

lemma valueText_head: "\<exists>c t. valueText f = c # t \<and> \<not> isJsonSpace c"
  by (cases f) (auto simp: valueText_def marshalString_def flagText_def)

lemma fieldFast_written:
  assumes "validField f"
  shows "fieldFast (keyOf_field f) q (valueText f @ r) = Some (setField f q, r)"
  using assms
  by (cases f)
    (simp_all add: fieldFast_def keyOf_field_def valueText_def flagOf_def marshalString_def standardWriter.reads_back stringArray_written[simplified] literal_flag, simp_all add: flagText_def)

lemma fieldsText_Cons: "fs \<noteq> [] \<Longrightarrow> fieldsText (f # fs) = fieldText f @ '','' @ fieldsText fs"
  by (cases fs) auto

lemma fieldsFast_written:
  "fs \<noteq> [] \<Longrightarrow> list_all validField fs \<Longrightarrow> length fs \<le> n \<Longrightarrow> fieldsFast n q (fieldsText fs @ ''}'') = Some (fold setField fs q)"
proof (induction fs arbitrary: n q)
  case (Cons f fs)
  obtain k where n: "n = Suc k" using Cons.prems(3) by (cases n) auto
  have form: "fieldText f @ r = dquote # marshalBytes (keyOf_field f) @ dquote # CHR '':'' # valueText f @ r" for r
    by (simp add: fieldText_parts marshalString_def)
  have here: "skipSpace (valueText f @ r) = valueText f @ r" for r using valueText_head[of f] by (auto simp: skipSpace_here)
  have one: "fieldsFast (Suc k) q (fieldText f @ r) =
      (case consume (CHR '','') (skipSpace r) of
         Some t3 \<Rightarrow> fieldsFast k (setField f q) t3
       | None \<Rightarrow> (case consume (CHR ''}'') (skipSpace r) of None \<Rightarrow> None | Some t3 \<Rightarrow> if skipSpace t3 = [] then Some (setField f q) else None))" for r
    using Cons.prems(2) unfolding form
    by (simp add: skipSpace_here standardWriter.reads_back keyOf_field_valid consume_def[of "CHR '':''"] here fieldFast_written)
  show ?case
  proof (cases "fs = []")
    case True
    then show ?thesis using one[of "''}''"] n by (simp add: skipSpace_here consume_def skipSpace_def)
  next
    case False
    then show ?thesis using one[of "'','' @ fieldsText fs @ ''}''"] n Cons.IH[of k "setField f q"] Cons.prems
      by (simp add: fieldsText_Cons skipSpace_here consume_def)
  qed
qed simp

lemma fieldsText_length: "length fs \<le> length (fieldsText fs)"
  by (induction fs rule: fieldsText.induct) (auto simp: fieldText_parts marshalString_def)

text \<open>
  A request written field by field, in any order and with the strings as \<^verbatim>\<open>json.Marshal\<close> writes them, is read back
  by the fast parser as the request with these fields.
\<close>

theorem fast_parser_reads_back:
  assumes "list_all validField fs"
  shows "parseRequestFast (requestText fs) = Some (fold setField fs noRequest)"
proof (cases "fs = []")
  case True
  then show ?thesis by (simp add: parseRequestFast_def requestText_def skipSpace_here consume_def) (simp add: skipSpace_def)
next
  case False
  obtain t where t: "fieldsText fs = dquote # t"
    using False by (cases fs rule: fieldsText.cases) (auto simp: fieldText_parts marshalString_def)
  have "fieldsFast (length (fieldsText fs @ ''}'')) noRequest (fieldsText fs @ ''}'') = Some (fold setField fs noRequest)"
    using fieldsFast_written[OF False assms] fieldsText_length[of fs] by (simp del: fieldsFast.simps)
  then show ?thesis using t by (simp add: parseRequestFast_def requestText_def skipSpace_here consume_def del: fieldsFast.simps)
qed

section \<open>Requests on a connection\<close>

text \<open>The decoding step of \<^verbatim>\<open>readRequest\<close>: the fast parser, then \<^verbatim>\<open>json.Unmarshal\<close>.\<close>

definition decodeRequest :: "(string \<Rightarrow> string + request) \<Rightarrow> string \<Rightarrow> string + request" where
  "decodeRequest unmarshal payload = (case parseRequestFast payload of Some q \<Rightarrow> Inr q | None \<Rightarrow> unmarshal payload)"

definition sentRequest :: "field list \<Rightarrow> request" where
  "sentRequest fs = fold setField fs noRequest"

text \<open>
  A client that sends a request of valid UTF-8, with its fields in any order and the strings as
  \<^verbatim>\<open>json.Marshal\<close> writes them, has it read as exactly these fields, with \<^verbatim>\<open>auth_key\<close> standing in for a missing \<^verbatim>\<open>auth\<close>,
  whatever \<^verbatim>\<open>encoding/json\<close> would do and whatever follows on the connection.
\<close>

theorem request_reads_back:
  assumes "list_all validField fs" "int (length (requestText fs)) \<le> maxBytes" "0 < maxBytes" "length (requestText fs) < 2 ^ 32"
    and "qSQL (sentRequest fs) \<noteq> [] \<or> qSQLs (sentRequest fs) \<noteq> [] \<or> qPing (sentRequest fs)"
  shows "readRequest (decodeRequest unmarshal) maxBytes (beBytes 4 (length (requestText fs)) @ requestText fs @ rest) =
    Inr ((sentRequest fs)\<lparr>qAuth := (if qAuth (sentRequest fs) = [] then qAuthKey (sentRequest fs) else qAuth (sentRequest fs)), qAuthKey := []\<rparr>, rest)"
proof -
  have d: "decodeRequest unmarshal (requestText fs) = Inr (sentRequest fs)"
    using fast_parser_reads_back[OF assms(1)] by (simp add: decodeRequest_def sentRequest_def)
  have "length (beBytes 4 (length (requestText fs))) = 4" "beValue (beBytes 4 (length (requestText fs))) = length (requestText fs)"
    using assms(4) by simp_all
  then show ?thesis using assms(2,3,5) by (cases "sentRequest fs") (auto simp: readRequest_def ReadFull_def d Let_def)
qed

theorem request_reads_back_witness:
  "readRequest (decodeRequest (\<lambda>_. Inl ''unused'')) 4096
     (beBytes 4 (length (requestText [FAuthKey ''key'', FSql ''SELECT a < 2''])) @ requestText [FAuthKey ''key'', FSql ''SELECT a < 2''] @ ''next'') =
   Inr (noRequest\<lparr>qAuth := ''key'', qSQL := ''SELECT a < 2''\<rparr>, ''next'')"
proof -
  let ?fs = "[FAuthKey ''key'', FSql ''SELECT a < 2'']"
  have v: "list_all validField ?fs" by code_simp
  have l: "length (requestText ?fs) = 44" by code_simp
  have q: "sentRequest ?fs = noRequest\<lparr>qAuthKey := ''key'', qSQL := ''SELECT a < 2''\<rparr>" by (simp add: sentRequest_def noRequest_def)
  show ?thesis using request_reads_back[OF v, of 4096 "\<lambda>_. Inl ''unused''" "''next''"] l unfolding q by (simp add: noRequest_def)
qed

end
