(* ===== verification/Jsondecode.thy ===== *)
theory Jsondecode
  imports Readback
begin

text \<open>
  The decoder of \<^verbatim>\<open>encoding/json\<close> as a function from a text to a JSON value, with its replacement of invalid UTF-8,
  its treatment of surrogates and its limit on nesting, and the binding of an object to the \<^verbatim>\<open>request\<close> struct. The
  fast request parser decodes what this decoder decodes.
\<close>

declare map_of_eq_Some_iff [simp del] Some_eq_map_of_iff [simp del]

section \<open>JSON values and their decoder (encoding/json)\<close>

datatype json = JNull | JBool bool | JNum string | JStr string | JArr "json list" | JObj "(string \<times> json) list"

definition surrogate :: "nat \<Rightarrow> bool" where
  "surrogate r \<longleftrightarrow> 0xD800 \<le> r \<and> r \<le> 0xDFFF"

definition getu4 :: "string \<Rightarrow> nat option" where
  "getu4 s = (if length s < 6 \<or> s ! 0 \<noteq> backslash \<or> s ! 1 \<noteq> CHR ''u'' then None else decodeU (drop 2 s))"

definition escapeJson :: "string \<Rightarrow> (string \<times> nat) option" where
  "escapeJson s =
     (if length s < 2 then None
      else
        let e = s ! 1 in
        if e = dquote \<or> e = backslash \<or> e = CHR ''/'' then Some ([e], 2)
        else if e = CHR ''b'' then Some ([CHR 0x08], 2)
        else if e = CHR ''f'' then Some ([CHR 0x0C], 2)
        else if e = CHR ''n'' then Some ([CHR 0x0A], 2)
        else if e = CHR ''r'' then Some ([CHR 0x0D], 2)
        else if e = CHR ''t'' then Some ([CHR 0x09], 2)
        else if e = CHR ''u'' then
          (case decodeU (drop 2 s) of
             None \<Rightarrow> None
           | Some r \<Rightarrow>
               if surrogate r then
                 (case getu4 (drop 6 s) of
                    None \<Rightarrow> Some (replacement, 6)
                  | Some lo \<Rightarrow>
                      if r \<le> 0xDBFF \<and> 0xDC00 \<le> lo \<and> lo \<le> 0xDFFF
                      then Some (encodeRune (0x10000 + (r - 0xD800) * 1024 + (lo - 0xDC00)), 12)
                      else Some (replacement, 6))
               else Some (encodeRune r, 6))
        else None)"

lemma escapeJson_length: "escapeJson s = Some (bs, n) \<Longrightarrow> 2 \<le> n"
  by (auto simp: escapeJson_def Let_def split: if_splits option.splits)

function unquoteJson :: "string \<Rightarrow> string \<Rightarrow> (string \<times> string) option" where
  "unquoteJson out s =
     (case s of
        [] \<Rightarrow> None
      | c # cs \<Rightarrow>
          if c = dquote then Some (out, cs)
          else if c = backslash then
            (case escapeJson s of None \<Rightarrow> None | Some (bs, n) \<Rightarrow> unquoteJson (out @ bs) (drop n s))
          else if byte c < 0x20 then None
          else if byte c < 0x80 then unquoteJson (out @ [c]) cs
          else let width = snd (decodeRune s) in
            if width \<le> 1 then unquoteJson (out @ replacement) cs else unquoteJson (out @ take width s) (drop width s))"
  by pat_completeness auto
termination
  by (relation "measure (\<lambda>(out, s). length s)") (auto dest: escapeJson_length)

declare unquoteJson.simps [simp del]

definition stringJson :: "string \<Rightarrow> (string \<times> string) option" where
  "stringJson s = (case consume dquote s of None \<Rightarrow> None | Some t \<Rightarrow> unquoteJson [] t)"

text \<open>\<open>d\<close> is how many more levels of nesting are allowed, \<open>n\<close> bounds the rounds of the loops.\<close>

fun valueJson :: "nat \<Rightarrow> nat \<Rightarrow> string \<Rightarrow> (json \<times> string) option"
  and membersJson :: "nat \<Rightarrow> nat \<Rightarrow> string \<Rightarrow> ((string \<times> json) list \<times> string) option"
  and elementsJson :: "nat \<Rightarrow> nat \<Rightarrow> string \<Rightarrow> (json list \<times> string) option" where
  "valueJson d 0 s = None"
| "valueJson d (Suc n) s =
     (case s of
        [] \<Rightarrow> None
      | c # cs \<Rightarrow>
          if c = dquote then map_option (\<lambda>(v, t). (JStr v, t)) (stringJson s)
          else if c = CHR ''{'' then
            (if d = 0 then None
             else case consume (CHR ''}'') (skipSpace cs) of
               Some t \<Rightarrow> Some (JObj [], t)
             | None \<Rightarrow> map_option (\<lambda>(ms, t). (JObj ms, t)) (membersJson (d - 1) n (skipSpace cs)))
          else if c = CHR ''['' then
            (if d = 0 then None
             else case consume (CHR '']'') (skipSpace cs) of
               Some t \<Rightarrow> Some (JArr [], t)
             | None \<Rightarrow> map_option (\<lambda>(vs, t). (JArr vs, t)) (elementsJson (d - 1) n (skipSpace cs)))
          else if c = CHR ''t'' then map_option (\<lambda>t. (JBool True, t)) (skipLiteral ''true'' s)
          else if c = CHR ''f'' then map_option (\<lambda>t. (JBool False, t)) (skipLiteral ''false'' s)
          else if c = CHR ''n'' then map_option (\<lambda>t. (JNull, t)) (skipLiteral ''null'' s)
          else if c = CHR ''-'' \<or> decimal c then map_option (\<lambda>t. (JNum (take (length s - length t) s), t)) (skipNumber s)
          else None)"
| "membersJson d 0 s = None"
| "membersJson d (Suc n) s =
     (case stringJson (skipSpace s) of
        None \<Rightarrow> None
      | Some (k, t1) \<Rightarrow>
          (case consume (CHR '':'') (skipSpace t1) of
             None \<Rightarrow> None
           | Some t2 \<Rightarrow>
               (case valueJson d n (skipSpace t2) of
                  None \<Rightarrow> None
                | Some (v, t3) \<Rightarrow>
                    (case consume (CHR '','') (skipSpace t3) of
                       Some t4 \<Rightarrow> map_option (\<lambda>(ms, t). ((k, v) # ms, t)) (membersJson d n t4)
                     | None \<Rightarrow> map_option (\<lambda>t. ([(k, v)], t)) (consume (CHR ''}'') (skipSpace t3))))))"
| "elementsJson d 0 s = None"
| "elementsJson d (Suc n) s =
     (case valueJson d n (skipSpace s) of
        None \<Rightarrow> None
      | Some (v, t1) \<Rightarrow>
          (case consume (CHR '','') (skipSpace t1) of
             Some t2 \<Rightarrow> map_option (\<lambda>(vs, t). (v # vs, t)) (elementsJson d n t2)
           | None \<Rightarrow> map_option (\<lambda>t. ([v], t)) (consume (CHR '']'') (skipSpace t1))))"

definition maxNestingDepth :: nat where
  "maxNestingDepth = 10000"

definition decodeJson :: "string \<Rightarrow> json option" where
  "decodeJson payload =
     (case valueJson maxNestingDepth (Suc (2 * length payload)) (skipSpace payload) of
        None \<Rightarrow> None
      | Some (j, t) \<Rightarrow> if skipSpace t = [] then Some j else None)"

section \<open>The fast readers agree with the decoder\<close>

lemma escapeAt_agrees:
  assumes "escapeAt s = Some x"
  shows "escapeJson s = Some x"
proof -
  have l: "\<not> length s < 2" using assms by (auto simp: escapeAt_def)
  show ?thesis
  proof (cases "simpleEscape (s ! 1)")
    case True
    then show ?thesis using assms l by (auto simp: escapeAt_def escapeJson_def simpleEscape_def)
  next
    case False
    then have e: "s ! 1 \<noteq> dquote" "s ! 1 \<noteq> backslash" "s ! 1 \<noteq> CHR ''/''" "s ! 1 \<noteq> CHR ''b''" "s ! 1 \<noteq> CHR ''f''"
      "s ! 1 \<noteq> CHR ''n''" "s ! 1 \<noteq> CHR ''r''" "s ! 1 \<noteq> CHR ''t''" by (simp_all add: simpleEscape_def)
    then have u: "s ! 1 = CHR ''u''" using assms l unfolding escapeAt_def Let_def by (simp split: if_splits)
    obtain r where r: "decodeU (drop 2 s) = Some r" using assms l e u unfolding escapeAt_def Let_def by (simp split: option.splits)
    consider "surrogate r" "12 \<le> length s" "s ! 6 = backslash" "s ! 7 = CHR ''u''" "r \<le> 0xDBFF" | "\<not> surrogate r" "x = (encodeRune r, 6)"
      using assms l e u r unfolding escapeAt_def Let_def surrogate_def by (simp split: if_splits)
    then show ?thesis
    proof cases
      case 1
      have g: "getu4 (drop 6 s) = decodeU (drop 8 s)" using 1(2-4) by (auto simp: getu4_def)
      show ?thesis using assms l e u r 1 g unfolding escapeAt_def escapeJson_def Let_def
        by (auto simp: surrogate_def split: option.splits if_splits)
    next
      case 2
      then show ?thesis using l e u r unfolding escapeJson_def Let_def by simp
    qed
  qed
qed

lemma escapedLoop_agrees: "escapedLoop out s = Some x \<Longrightarrow> unquoteJson out s = Some x"
proof (induction out s rule: escapedLoop.induct)
  case (1 out s)
  show ?case
  proof (cases s)
    case (Cons c cs)
    then show ?thesis using 1
      by (auto simp: escapedLoop.simps[of out "c # cs"] unquoteJson.simps[of out "c # cs"] Let_def escapeAt_agrees split: if_splits option.splits)
  qed (use "1.prems" in \<open>simp add: escapedLoop.simps\<close>)
qed

lemma plainLoop_agrees: "plainLoop out s = Some x \<Longrightarrow> unquoteJson out s = Some x"
proof (induction out s rule: plainLoop.induct)
  case (1 out s)
  show ?case
  proof (cases s)
    case (Cons c cs)
    show ?thesis
    proof (cases "c = backslash")
      case True
      then show ?thesis using "1.prems" Cons escapedLoop_agrees plainLoop_steps(2) by simp
    next
      case False
      then show ?thesis using 1 Cons
        by (auto simp: plainLoop.simps[of out "c # cs"] unquoteJson.simps[of out "c # cs"] Let_def split: if_splits)
    qed
  qed (use "1.prems" in \<open>simp add: plainLoop.simps\<close>)
qed

lemma stringFast_agrees: "stringFast s = Some x \<Longrightarrow> stringJson s = Some x"
  by (auto simp: stringFast_def stringJson_def plainLoop_agrees split: option.splits)

lemma skipStringLoop_high: "list_all (\<lambda>c. \<not> byte c < 0x80) u \<Longrightarrow> skipStringLoop (u @ s) = skipStringLoop s"
proof (induction u)
  case (Cons c u)
  then have "c \<noteq> dquote" "c \<noteq> backslash" "\<not> byte c < 0x20" "\<not> byte c < 0x80" by auto
  then show ?case using Cons by (simp add: skipStringLoop.simps[of "c # u @ s"])
qed simp

lemma skipStringLoop_unicode:
  "decodeU es = Some r \<Longrightarrow> skipStringLoop (backslash # CHR ''u'' # es) = skipStringLoop (drop 4 es)"
  by (simp add: skipStringLoop.simps[of "backslash # CHR ''u'' # es"] simpleEscape_def)

lemma skipStringLoop_simple: "simpleEscape e \<Longrightarrow> skipStringLoop (backslash # e # es) = skipStringLoop es"
  by (simp add: skipStringLoop.simps[of "backslash # e # es"])

lemma getu4_form: "getu4 s = Some lo \<Longrightarrow> s = backslash # CHR ''u'' # drop 2 s \<and> decodeU (drop 2 s) = Some lo"
  by (cases s; cases "tl s") (auto simp: getu4_def split: if_splits)

text \<open>What follows a backslash in a text that \<^verbatim>\<open>skipString\<close> accepts is an escape for the decoder as well.\<close>

lemma skipStringLoop_escape:
  assumes "skipStringLoop (backslash # cs) = Some t"
  shows "\<exists>bs n. escapeJson (backslash # cs) = Some (bs, n) \<and> skipStringLoop (drop n (backslash # cs)) = Some t"
proof -
  obtain e es where cs: "cs = e # es" using assms by (cases cs) (simp_all add: skipStringLoop.simps[of "[backslash]"])
  show ?thesis
  proof (cases "simpleEscape e")
    case True
    then have "skipStringLoop es = Some t" using assms cs skipStringLoop_simple by simp
    moreover have "\<exists>bs. escapeJson (backslash # e # es) = Some (bs, 2)" using True by (auto simp: escapeJson_def simpleEscape_def)
    ultimately show ?thesis using cs by fastforce
  next
    case False
    then have u: "e = CHR ''u''" and "decodeU es \<noteq> None"
      using assms cs by (auto simp: skipStringLoop.simps[of "backslash # e # es"] split: if_splits option.splits)
    then obtain r where r: "decodeU es = Some r" by blast
    then have one: "skipStringLoop (drop 4 es) = Some t" using assms cs u skipStringLoop_unicode by simp
    have e: "escapeJson (backslash # cs) =
        (if surrogate r then
           (case getu4 (drop 4 es) of
              None \<Rightarrow> Some (replacement, 6)
            | Some lo \<Rightarrow>
                if r \<le> 0xDBFF \<and> 0xDC00 \<le> lo \<and> lo \<le> 0xDFFF then Some (encodeRune (0x10000 + (r - 0xD800) * 1024 + (lo - 0xDC00)), 12)
                else Some (replacement, 6))
         else Some (encodeRune r, 6))"
      using cs u r by (simp add: escapeJson_def)
    have six: "drop 6 (backslash # cs) = drop 4 es" and twelve: "drop 12 (backslash # cs) = drop 10 es" using cs by simp_all
    show ?thesis
    proof (cases "\<exists>lo. getu4 (drop 4 es) = Some lo")
      case True
      then obtain lo where lo: "getu4 (drop 4 es) = Some lo" by blast
      from getu4_form[OF this] have d: "drop 4 es = backslash # CHR ''u'' # drop 6 es" "decodeU (drop 6 es) = Some lo" by simp_all
      have "skipStringLoop (drop 10 es) = Some t" using one d skipStringLoop_unicode[OF d(2)] by simp
      then show ?thesis using e lo one six twelve by auto
    next
      case False
      then show ?thesis using e one six by auto
    qed
  qed
qed

lemma skipStringLoop_agrees: "skipStringLoop s = Some t \<Longrightarrow> \<exists>v. unquoteJson out s = Some (v, t)"
proof (induction out s rule: unquoteJson.induct)
  case (1 out s)
  show ?case
  proof (cases s)
    case (Cons c cs)
    consider "c = dquote" | "c = backslash" | "c \<noteq> dquote" "c \<noteq> backslash" "byte c < 0x80" | "c \<noteq> dquote" "c \<noteq> backslash" "\<not> byte c < 0x80" by blast
    then show ?thesis
    proof cases
      case 1
      then show ?thesis using "1.prems" Cons by (simp add: skipStringLoop.simps unquoteJson.simps)
    next
      case 2
      then obtain bs n where e: "escapeJson s = Some (bs, n)" "skipStringLoop (drop n s) = Some t"
        using skipStringLoop_escape[of cs t] "1.prems" Cons by auto
      then show ?thesis using "1.IH"(1)[OF Cons _ 2 e(1)] e Cons 2 by (simp add: unquoteJson.simps[of out "backslash # cs"])
    next
      case 3
      then have "\<not> byte c < 0x20" "skipStringLoop cs = Some t" using "1.prems" Cons by (auto simp: skipStringLoop.simps[of "c # cs"] split: if_splits)
      then show ?thesis using "1.IH"(2)[OF Cons] 3 Cons by (simp add: unquoteJson.simps[of out "c # cs"])
    next
      case 4
      show ?thesis
      proof (cases "snd (decodeRune s) \<le> 1")
        case True
        have "\<not> byte c < 0x20" using 4 by auto
        then have "skipStringLoop cs = Some t" using "1.prems" Cons 4 by (simp add: skipStringLoop.simps[of "c # cs"])
        then show ?thesis using "1.IH"(3)[OF Cons] 4 Cons True by (simp add: unquoteJson.simps[of out "c # cs"])
      next
        case False
        then have w: "list_all (\<lambda>c. \<not> byte c < 0x80) (take (snd (decodeRune s)) s)" using decodeRune_wide[of s] by simp
        have "skipStringLoop (drop (snd (decodeRune s)) s) = Some t"
          using skipStringLoop_high[OF w, of "drop (snd (decodeRune s)) s"] "1.prems" by simp
        then show ?thesis using "1.IH"(4)[OF Cons] 4 Cons False by (simp add: unquoteJson.simps[of out "c # cs"] Let_def)
      qed
    qed
  qed (use "1.prems" in \<open>simp add: skipStringLoop.simps\<close>)
qed

lemma skipString_agrees: "skipString s = Some t \<Longrightarrow> \<exists>v. stringJson s = Some (v, t)"
  by (auto simp: skipString_def stringJson_def skipStringLoop_agrees split: option.splits)

text \<open>The brackets that open a level of nesting.\<close>

definition opens :: "string \<Rightarrow> nat" where
  "opens s = length (filter (\<lambda>c. c = CHR ''{'' \<or> c = CHR ''['') s)"

lemma opens_simps [simp]:
  "opens [] = 0" "opens (c # s) = (if c = CHR ''{'' \<or> c = CHR ''['' then Suc (opens s) else opens s)" "opens (u @ s) = opens u + opens s"
  by (simp_all add: opens_def)

lemma opens_skipSpace [simp]: "opens (skipSpace s) = opens s"
proof -
  have "opens w = 0" if "jspaces w" for w using that by (induction w) (auto simp: isJsonSpace_def)
  then show ?thesis using skipSpace_split[of s] by (metis add_0 opens_simps(3))
qed

lemma opens_rest:
  "skipValue n s = Some t \<Longrightarrow> opens t \<le> opens s"
  "skipMembers n s = Some t \<Longrightarrow> opens t \<le> opens s"
  "skipElements n s = Some t \<Longrightarrow> opens t \<le> opens s"
  "skipString s = Some t \<Longrightarrow> opens t \<le> opens s"
  "consume c s = Some t \<Longrightarrow> opens t \<le> opens s"
  using skip_text[of n s t] skipString_text[of s t] by (auto simp: consume_Some)

lemma skip_agrees:
  "skipValue n s = Some t \<Longrightarrow> opens s \<le> d + opens t \<Longrightarrow> \<exists>j. valueJson d n s = Some (j, t)"
  "skipMembers n s = Some t \<Longrightarrow> opens s \<le> d + opens t \<Longrightarrow> \<exists>ms. membersJson d n s = Some (ms, t)"
  "skipElements n s = Some t \<Longrightarrow> opens s \<le> d + opens t \<Longrightarrow> \<exists>vs. elementsJson d n s = Some (vs, t)"
proof (induction n s and n s and n s arbitrary: t d and t d and t d rule: skipValue_skipMembers_skipElements.induct)
  case (2 n s)
  then obtain c cs where s: "s = c # cs" by (cases s) auto
  show ?case
  proof (cases "c = CHR ''{'' \<or> c = CHR ''[''")
    case False
    then show ?thesis using "2.prems"(1) s by (auto dest: skipString_agrees split: if_splits)
  next
    case True
    show ?thesis
    proof (cases "c = CHR ''{''")
      case c: True
      show ?thesis
      proof (cases "consume (CHR ''}'') (skipSpace cs)")
        case None
        then have m: "skipMembers n (skipSpace cs) = Some t" using "2.prems" s c by simp
        moreover have "opens (skipSpace cs) \<le> (d - 1) + opens t" "d \<noteq> 0" using "2.prems"(2) opens_rest(2)[OF m] s c by auto
        ultimately obtain ms where "membersJson (d - 1) n (skipSpace cs) = Some (ms, t)" using "2.IH"(1)[OF s _ c None, of t "d - 1"] c by auto
        then show ?thesis using s c None \<open>d \<noteq> 0\<close> by simp
      next
        case (Some r)
        then have "opens t \<le> opens cs" using opens_rest(5)[OF Some] "2.prems"(1) s c by simp
        then have "d \<noteq> 0" using "2.prems"(2) s c by auto
        then show ?thesis using "2.prems"(1) s c Some by simp
      qed
    next
      case nc: False
      then have c: "c = CHR ''[''" using True by blast
      show ?thesis
      proof (cases "consume (CHR '']'') (skipSpace cs)")
        case None
        then have m: "skipElements n (skipSpace cs) = Some t" using "2.prems" s c by simp
        moreover have "opens (skipSpace cs) \<le> (d - 1) + opens t" "d \<noteq> 0" using "2.prems"(2) opens_rest(3)[OF m] s c by auto
        ultimately obtain vs where "elementsJson (d - 1) n (skipSpace cs) = Some (vs, t)" using "2.IH"(2)[OF s _ nc c None, of t "d - 1"] c by auto
        then show ?thesis using s c None \<open>d \<noteq> 0\<close> by simp
      next
        case (Some r)
        then have "opens t \<le> opens cs" using opens_rest(5)[OF Some] "2.prems"(1) s c by simp
        then have "d \<noteq> 0" using "2.prems"(2) s c by auto
        then show ?thesis using "2.prems"(1) s c Some by simp
      qed
    qed
  qed
next
  case (4 n s)
  obtain t1 t2 t3 where st: "skipString (skipSpace s) = Some t1" "consume (CHR '':'') (skipSpace t1) = Some t2" "skipValue n (skipSpace t2) = Some t3"
    using "4.prems" by (auto split: option.splits)
  obtain k where k: "stringJson (skipSpace s) = Some (k, t1)" using skipString_agrees[OF st(1)] by blast
  have le: "opens t2 \<le> opens s" using opens_rest(4)[OF st(1)] opens_rest(5)[OF st(2)] by simp
  have le3: "opens t3 \<le> opens t2" using opens_rest(1)[OF st(3)] by simp
  show ?case
  proof (cases "consume (CHR '','') (skipSpace t3)")
    case None
    then have t: "consume (CHR ''}'') (skipSpace t3) = Some t" using "4.prems" st by simp
    then have "opens t \<le> opens t3" using opens_rest(5) by fastforce
    then have "opens (skipSpace t2) \<le> d + opens t3" using "4.prems"(2) le by simp
    then obtain j where "valueJson d n (skipSpace t2) = Some (j, t3)" using "4.IH"(1)[OF st] by blast
    then show ?thesis using k st None t by simp
  next
    case (Some t4)
    then have m: "skipMembers n t4 = Some t" using "4.prems" st by simp
    have l4: "opens t4 \<le> opens t3" "opens t \<le> opens t4" using opens_rest(5)[OF Some] opens_rest(2)[OF m] by simp_all
    have "opens (skipSpace t2) \<le> d + opens t3" "opens t4 \<le> d + opens t" using "4.prems"(2) le le3 l4 by simp_all
    then obtain j ms where "valueJson d n (skipSpace t2) = Some (j, t3)" "membersJson d n t4 = Some (ms, t)"
      using "4.IH"(1)[OF st] "4.IH"(2)[OF st Some m] by blast
    then show ?thesis using k st Some by simp
  qed
next
  case (6 n s)
  obtain t1 where st: "skipValue n (skipSpace s) = Some t1" using "6.prems" by (auto split: option.splits)
  have le: "opens t1 \<le> opens s" using opens_rest(1)[OF st] by simp
  show ?case
  proof (cases "consume (CHR '','') (skipSpace t1)")
    case None
    then have t: "consume (CHR '']'') (skipSpace t1) = Some t" using "6.prems" st by simp
    then have "opens t \<le> opens t1" using opens_rest(5) by fastforce
    then have "opens (skipSpace s) \<le> d + opens t1" using "6.prems"(2) by simp
    then obtain j where "valueJson d n (skipSpace s) = Some (j, t1)" using "6.IH"(1)[OF st] by blast
    then show ?thesis using None t by simp
  next
    case (Some t2)
    then have m: "skipElements n t2 = Some t" using "6.prems" st by simp
    have l2: "opens t2 \<le> opens t1" "opens t \<le> opens t2" using opens_rest(5)[OF Some] opens_rest(3)[OF m] by simp_all
    have "opens (skipSpace s) \<le> d + opens t1" "opens t2 \<le> d + opens t" using "6.prems"(2) le l2 by simp_all
    then obtain j vs where "valueJson d n (skipSpace s) = Some (j, t1)" "elementsJson d n t2 = Some (vs, t)"
      using "6.IH"(1)[OF st] "6.IH"(2)[OF st Some m] by blast
    then show ?thesis using Some by simp
  qed
qed simp_all

section \<open>Requests as encoding/json decodes them\<close>

text \<open>
  \<^verbatim>\<open>json.Unmarshal\<close> into the \<^verbatim>\<open>request\<close> struct: a member is bound to the field of that name, or else to the
  field whose name it folds to; null leaves a string or a flag as it is and empties a slice; a member of the wrong type is
  an error; other members are ignored. The values of \<^verbatim>\<open>params\<close> are converted by the argument \<open>anys\<close>.
\<close>

definition fieldNamed :: "string \<Rightarrow> string option" where
  "fieldNamed key =
     (if key \<in> set requestKeys then Some key else find (EqualFold (foldLetters key)) requestKeys)"

fun bindString :: "json \<Rightarrow> string \<Rightarrow> string option" where
  "bindString (JStr s) old = Some s"
| "bindString JNull old = Some old"
| "bindString _ old = None"

fun bindFlag :: "json \<Rightarrow> bool \<Rightarrow> bool option" where
  "bindFlag (JBool b) old = Some b"
| "bindFlag JNull old = Some old"
| "bindFlag _ old = None"

fun bindElements :: "json list \<Rightarrow> string list \<Rightarrow> string list option" where
  "bindElements [] old = Some []"
| "bindElements (v # vs) old =
     (case bindString v (case old of [] \<Rightarrow> [] | s # _ \<Rightarrow> s) of
        None \<Rightarrow> None
      | Some s \<Rightarrow> map_option (\<lambda>ss. s # ss) (bindElements vs (tl old)))"

fun bindStrings :: "json \<Rightarrow> string list \<Rightarrow> string list option" where
  "bindStrings (JArr vs) old = bindElements vs old"
| "bindStrings JNull old = Some []"
| "bindStrings _ old = None"

definition bindMember :: "(json \<Rightarrow> param list option) \<Rightarrow> string \<times> json \<Rightarrow> request \<Rightarrow> request option" where
  "bindMember anys m q =
     (case m of (key, v) \<Rightarrow>
        case fieldNamed key of
          None \<Rightarrow> Some q
        | Some f \<Rightarrow>
            if f = ''sql'' then map_option (\<lambda>s. q\<lparr>qSQL := s\<rparr>) (bindString v (qSQL q))
            else if f = ''sqls'' then map_option (\<lambda>ss. q\<lparr>qSQLs := ss\<rparr>) (bindStrings v (qSQLs q))
            else if f = ''auth'' then map_option (\<lambda>s. q\<lparr>qAuth := s\<rparr>) (bindString v (qAuth q))
            else if f = ''auth_key'' then map_option (\<lambda>s. q\<lparr>qAuthKey := s\<rparr>) (bindString v (qAuthKey q))
            else if f = ''params'' then map_option (\<lambda>ps. q\<lparr>qParams := ps\<rparr>) (anys v)
            else if f = ''atomic'' then map_option (\<lambda>b. q\<lparr>qAtomic := b\<rparr>) (bindFlag v (qAtomic q))
            else map_option (\<lambda>b. q\<lparr>qPing := b\<rparr>) (bindFlag v (qPing q)))"

fun bindMembers :: "(json \<Rightarrow> param list option) \<Rightarrow> (string \<times> json) list \<Rightarrow> request \<Rightarrow> request option" where
  "bindMembers anys [] q = Some q"
| "bindMembers anys (m # ms) q = (case bindMember anys m q of None \<Rightarrow> None | Some q' \<Rightarrow> bindMembers anys ms q')"

definition unmarshalRequest :: "(json \<Rightarrow> param list option) \<Rightarrow> string \<Rightarrow> request option" where
  "unmarshalRequest anys payload =
     (case decodeJson payload of
        Some (JObj ms) \<Rightarrow> bindMembers anys ms noRequest
      | Some JNull \<Rightarrow> Some noRequest
      | _ \<Rightarrow> None)"

section \<open>The fast parser decodes what encoding/json decodes\<close>

lemma find_none: "\<not> list_ex P xs \<Longrightarrow> find P xs = None"
  by (induction xs) auto

lemma fieldNamed_simps [simp]:
  "fieldNamed ''sql'' = Some ''sql''" "fieldNamed ''sqls'' = Some ''sqls''" "fieldNamed ''auth'' = Some ''auth''"
  "fieldNamed ''auth_key'' = Some ''auth_key''" "fieldNamed ''atomic'' = Some ''atomic''" "fieldNamed ''ping'' = Some ''ping''"
  by (simp_all add: fieldNamed_def requestKeys_def)

lemma fieldNamed_other: "key \<notin> set requestKeys \<Longrightarrow> \<not> requestKeyVariant key \<Longrightarrow> fieldNamed key = None"
  by (simp add: fieldNamed_def requestKeyVariant_def find_none)

lemma valueJson_string: "stringJson s = Some (v, t) \<Longrightarrow> 0 < n \<Longrightarrow> valueJson d n s = Some (JStr v, t)"
  by (cases n) (auto simp: stringJson_def consume_Some split: option.splits)

lemma stringsLoop_agrees:
  "stringsLoop n out s = Some (vs, t) \<Longrightarrow> 2 * length s + 1 < m \<Longrightarrow> \<exists>js ss. elementsJson d m s = Some (js, t) \<and> vs = out @ ss \<and> js = map JStr ss"
proof (induction n out s arbitrary: m rule: stringsLoop.induct)
  case (2 n out s)
  obtain k where m: "m = Suc k" using "2.prems"(2) by (cases m) auto
  obtain v t1 where st: "stringFast (skipSpace s) = Some (v, t1)" using "2.prems" by (auto split: option.splits)
  have j: "valueJson d k (skipSpace s) = Some (JStr v, t1)"
    using valueJson_string[OF stringFast_agrees[OF st]] "2.prems"(2) m by simp
  show ?case
  proof (cases "consume (CHR '','') (skipSpace t1)")
    case None
    then show ?thesis using "2.prems"(1) st j m by (auto split: option.splits)
  next
    case (Some t2)
    then have r: "stringsLoop n (out @ [v]) t2 = Some (vs, t)" using "2.prems" st by simp
    have "length t2 + 2 \<le> length s"
      using reads_progress(3)[OF st] reads_progress(4)[OF Some] skipSpace_length[of s] skipSpace_length[of t1] by linarith
    then obtain ss where "elementsJson d k t2 = Some (map JStr ss, t)" "vs = (out @ [v]) @ ss"
      using "2.IH"[OF st _ Some r, of k] "2.prems"(2) m by fastforce
    then show ?thesis using j Some m by (intro exI[of _ "map JStr (v # ss)"] exI[of _ "v # ss"]) simp
  qed
qed simp

lemma bindElements_strings: "bindElements (map JStr ss) old = Some ss"
  by (induction ss arbitrary: old) auto

lemma stringArray_agrees:
  assumes "stringArray s = Some (vs, t)" "2 * length s < m" "d \<noteq> 0"
  shows "\<exists>ss. valueJson d m s = Some (JArr (map JStr ss), t) \<and> vs = ss"
proof -
  obtain r where r: "s = CHR ''['' # r" using assms(1) by (auto simp: stringArray_def consume_Some split: option.splits)
  obtain k where m: "m = Suc k" using assms(2) by (cases m) auto
  show ?thesis
  proof (cases "consume (CHR '']'') (skipSpace r)")
    case None
    then have l: "stringsLoop (length r) [] (skipSpace r) = Some (vs, t)" using assms(1) r by (simp add: stringArray_def consume_def)
    then show ?thesis using stringsLoop_agrees[OF l, of k "d - 1"] skipSpace_length[of r] assms(2,3) r m None by auto
  next
    case (Some t1)
    then show ?thesis using assms r m by (auto simp: stringArray_def consume_def)
  qed
qed

lemma literal_agrees:
  assumes "literal s = Some (v, t)" "0 < m"
  shows "\<exists>j. valueJson d m s = Some (j, t) \<and> (v = ''true'' \<and> j = JBool True \<or> v = ''false'' \<and> j = JBool False \<or> v = ''null'' \<and> j = JNull)"
proof -
  obtain k where m: "m = Suc k" using assms(2) by (cases m) auto
  have "\<exists>c cs. s = c # cs" using assms(1) by (cases s) (auto simp: literal_def dropPrefix_def)
  then show ?thesis using assms(1) m by (auto simp: literal_def skipLiteral_def dropPrefix_def split: if_splits option.splits)
qed

lemma stringArray_opens: "stringArray s = Some (vs, t) \<Longrightarrow> opens t < opens s"
proof -
  assume a: "stringArray s = Some (vs, t)"
  then obtain r where r: "s = CHR ''['' # r" by (auto simp: stringArray_def consume_Some split: option.splits)
  obtain u where "s = u @ t" "0 < length u" using stringArray_text[OF a] jvalue_nonempty by blast
  then obtain u' where "r = u' @ t" using r by (cases u) auto
  then show ?thesis using r by simp
qed

lemma flagOf_agrees:
  assumes "flagOf old s = Some (b, t)" "0 < m"
  shows "\<exists>j. valueJson d m s = Some (j, t) \<and> bindFlag j old = Some b"
proof -
  obtain v where l: "literal s = Some (v, t)" "b = (if v = ''true'' then True else if v = ''false'' then False else old)"
    using assms(1) by (auto simp: flagOf_def split: option.splits)
  then show ?thesis using literal_agrees[OF l(1) assms(2), of d] by auto
qed

lemma fieldFast_agrees:
  assumes "fieldFast key q s = Some (q', t)" "2 * length s < m" "opens s \<le> d + opens t"
  shows "\<exists>j. valueJson d m s = Some (j, t) \<and> bindMember anys (key, j) q = Some q'"
proof -
  have str: "\<exists>j. valueJson d m s = Some (j, t) \<and> bindString j old = Some v" if "stringFast s = Some (v, t)" for v old
    using valueJson_string[OF stringFast_agrees[OF that]] assms(2) by fastforce
  consider "key \<in> {''sql'', ''auth'', ''auth_key''}" | "key = ''sqls''" | "key \<in> {''atomic'', ''ping''}"
    | "key \<notin> set requestKeys" "\<not> requestKeyVariant key" "skipValue (Suc (2 * length s)) s = Some t" "q' = q"
    using assms(1) by (auto simp: fieldFast_def requestKeys_def split: if_splits)
  then show ?thesis
  proof cases
    case 1
    then show ?thesis using assms(1) str[of _ "qSQL q"] str[of _ "qAuth q"] str[of _ "qAuthKey q"]
      by (auto simp: fieldFast_def bindMember_def)
  next
    case 2
    then obtain ss where a: "stringArray s = Some (ss, t)" "q' = q\<lparr>qSQLs := ss\<rparr>" using assms(1) by (auto simp: fieldFast_def)
    then have "d \<noteq> 0" using stringArray_opens[OF a(1)] assms(3) by auto
    then have "valueJson d m s = Some (JArr (map JStr ss), t)" using stringArray_agrees[OF a(1) assms(2)] by auto
    then show ?thesis using 2 a(2) by (simp add: bindMember_def bindElements_strings)
  next
    case 3
    then show ?thesis using assms(1,2) flagOf_agrees[of "qAtomic q" s _ t m d] flagOf_agrees[of "qPing q" s _ t m d]
      by (fastforce simp: fieldFast_def bindMember_def)
  next
    case 4
    then have "skipValue m s = Some t" using skip_enough(1)[of s m "Suc (2 * length s)"] assms(2) by simp
    then obtain j where "valueJson d m s = Some (j, t)" using skip_agrees(1) assms(3) by blast
    then show ?thesis using 4 by (simp add: bindMember_def fieldNamed_other)
  qed
qed

lemma opens_stringFast: "stringFast s = Some (v, t) \<Longrightarrow> opens t \<le> opens s"
  using stringFast_text[of s v t] by auto

lemma opens_fieldFast: "fieldFast key q s = Some (q', t) \<Longrightarrow> opens t \<le> opens s"
  using fieldFast_text[of key q s q' t] by auto

lemma fieldsFast_agrees:
  "fieldsFast n q s = Some q' \<Longrightarrow> 2 * length s + 1 < m \<Longrightarrow> opens s \<le> d \<Longrightarrow>
     \<exists>ms t. membersJson d m s = Some (ms, t) \<and> skipSpace t = [] \<and> bindMembers anys ms q = Some q'"
proof (induction n q s arbitrary: m rule: fieldsFast.induct)
  case (2 n q s)
  obtain k where m: "m = Suc k" using "2.prems"(2) by (cases m) auto
  obtain key t1 t2 q1 t3 where st: "stringFast (skipSpace s) = Some (key, t1)" "consume (CHR '':'') (skipSpace t1) = Some t2" "fieldFast key q (skipSpace t2) = Some (q1, t3)"
    using "2.prems" by (auto split: option.splits)
  have l2: "length t2 + 2 \<le> length s"
    using reads_progress(3)[OF st(1)] reads_progress(4)[OF st(2)] skipSpace_length[of s] skipSpace_length[of t1] by linarith
  have o2: "opens t2 \<le> d" using opens_stringFast[OF st(1)] opens_rest(5)[OF st(2)] "2.prems"(3) by simp
  have "2 * length (skipSpace t2) < k" "opens (skipSpace t2) \<le> d + opens t3" using l2 skipSpace_length[of t2] "2.prems"(2) m o2 by simp_all
  then obtain j where j: "valueJson d k (skipSpace t2) = Some (j, t3)" "bindMember anys (key, j) q = Some q1" using fieldFast_agrees[OF st(3)] by blast
  note k = stringFast_agrees[OF st(1)]
  show ?case
  proof (cases "consume (CHR '','') (skipSpace t3)")
    case None
    then obtain w where w: "consume (CHR ''}'') (skipSpace t3) = Some w" "skipSpace w = []" "q' = q1"
      using "2.prems"(1) st by (auto split: option.splits if_splits)
    then show ?thesis using k st(2) j None m by simp
  next
    case (Some t4)
    then have r: "fieldsFast n q1 t4 = Some q'" using "2.prems" st by simp
    have "length t4 + 2 \<le> length s"
      using l2 reads_progress(5)[OF st(3)] reads_progress(4)[OF Some] skipSpace_length[of t2] skipSpace_length[of t3] by linarith
    moreover have "opens t4 \<le> d" using o2 opens_fieldFast[OF st(3)] opens_rest(5)[OF Some] by simp
    ultimately obtain ms t where "membersJson d k t4 = Some (ms, t)" "skipSpace t = []" "bindMembers anys ms q1 = Some q'"
      using "2.IH"[OF st(1) _ st(2,3) _ Some r, of k] "2.prems"(2) m by auto
    then show ?thesis using k st(2) j Some m by simp
  qed
qed simp

text \<open>
  C18: the fast parser never diverges from \<^verbatim>\<open>encoding/json\<close>: what it accepts, \<^verbatim>\<open>json.Unmarshal\<close> decodes into
  the same request, for every text that does not open more than 10000 brackets.
\<close>

theorem fast_parser_agrees:
  assumes "parseRequestFast payload = Some q" "opens payload \<le> maxNestingDepth"
  shows "unmarshalRequest anys payload = Some q"
proof -
  obtain r where r: "skipSpace payload = CHR ''{'' # r" using assms(1) by (auto simp: parseRequestFast_def consume_Some split: option.splits)
  have len: "length r < length payload" using skipSpace_length[of payload] r by simp
  have opn: "opens payload = Suc (opens r)" using opens_skipSpace[of payload] r by simp
  have d: "maxNestingDepth \<noteq> 0" by (simp add: maxNestingDepth_def)
  show ?thesis
  proof (cases "consume (CHR ''}'') r")
    case None
    then have f: "fieldsFast (length r) noRequest r = Some q" using assms r by (simp add: parseRequestFast_def consume_def)
    show ?thesis
    proof (cases "consume (CHR ''}'') (skipSpace r)")
      case n: None
      have "fieldsFast (length r) noRequest (skipSpace r) = Some q"
      proof -
        have "skipSpace (skipSpace r) = skipSpace r" by (simp add: skipSpace_def)
        then show ?thesis using f by (cases "length r") simp_all
      qed
      moreover have "2 * length (skipSpace r) + 1 < 2 * length payload" using len skipSpace_length[of r] by simp
      moreover have "opens (skipSpace r) \<le> maxNestingDepth - 1" using assms(2) opn by simp
      ultimately obtain ms t where "membersJson (maxNestingDepth - 1) (2 * length payload) (skipSpace r) = Some (ms, t)" "skipSpace t = []" "bindMembers anys ms noRequest = Some q"
        using fieldsFast_agrees by blast
      then show ?thesis using r n d by (simp add: unmarshalRequest_def decodeJson_def)
    next
      case (Some t)
      then have "skipSpace r = CHR ''}'' # t" by (simp add: consume_Some)
      then have "fieldsFast (length r) noRequest r = None" by (cases "length r") (simp_all add: stringFast_def consume_def)
      then show ?thesis using f by simp
    qed
  next
    case (Some t)
    then have t: "r = CHR ''}'' # t" by (simp add: consume_Some)
    then have "skipSpace t = []" "q = noRequest" using assms(1) r by (auto simp: parseRequestFast_def consume_def split: if_splits)
    moreover have "skipSpace r = r" using t by (simp add: skipSpace_def isJsonSpace_def)
    ultimately show ?thesis using r t d by (simp add: unmarshalRequest_def decodeJson_def consume_def)
  qed
qed

theorem fast_parser_agrees_witness:
  "unmarshalRequest (\<lambda>_. None) ''{ \"sql\" : \"a\", \"x\":[-1.5e3,{\"k\":null}, []]}'' = Some (noRequest\<lparr>qSQL := ''a''\<rparr>)"
proof (rule fast_parser_agrees)
  show "parseRequestFast ''{ \"sql\" : \"a\", \"x\":[-1.5e3,{\"k\":null}, []]}'' = Some (noRequest\<lparr>qSQL := ''a''\<rparr>)" by code_simp
  show "opens ''{ \"sql\" : \"a\", \"x\":[-1.5e3,{\"k\":null}, []]}'' \<le> maxNestingDepth" by (simp add: maxNestingDepth_def)
qed

end
