(* ===== verification/Image.thy ===== *)
theory Image
  imports Jsondecode
begin

text \<open>
  Results and database images as JSON: the writers of \<^verbatim>\<open>internal/engine/marshal.go\<close> and
  \<^verbatim>\<open>internal/engine/dbjson.go\<close>, and the restore of \<^verbatim>\<open>internal/engine/snapshot.go\<close>, which rebuilds the order,
  the indexes and the fast array of every table. A writer that fails returns no buffer, as in the code.
\<close>

declare map_of_eq_Some_iff [simp del] Some_eq_map_of_iff [simp del]

section \<open>Numbers (encoding/json)\<close>

text \<open>The shortest digits of a float that is not zero, and the position of the point, as \<^verbatim>\<open>strconv\<close> finds them.\<close>

definition shortestDigits :: "nat \<Rightarrow> int \<Rightarrow> string \<times> int" where
  "shortestDigits m e =
     (let n = nat \<bar>scaled False m e\<bar>; d = 2 ^ 1074; dp = decPoint n d;
          (v, k) = shortestLoop 17 (FFin False m e) n d dp 1
      in (stripZeros (fmtNat v), dp + (int (length (fmtNat v)) - int k)))"

text \<open>An exponent of two digits with a leading zero and a minus sign loses the zero.\<close>

definition cleanExponent :: "string \<Rightarrow> string" where
  "cleanExponent b =
     (let n = length b in
      if n \<ge> 4 \<and> b ! (n - 4) = CHR ''e'' \<and> b ! (n - 3) = CHR ''-'' \<and> b ! (n - 2) = CHR ''0''
      then take (n - 2) b @ [b ! (n - 1)] else b)"

text \<open>\<^verbatim>\<open>json.Marshal\<close> of a \<^verbatim>\<open>float64\<close>: an exponent below 1e-6 and from 1e21, an error without a number.\<close>

fun marshalFloat :: "float64 \<Rightarrow> string res" where
  "marshalFloat FNaN = Inl (Msg ''json: unsupported value: NaN'')"
| "marshalFloat (FInf n) = Inl (Msg (''json: unsupported value: '' @ (if n then ''-Inf'' else ''+Inf'')))"
| "marshalFloat (FFin neg m e) =
     Inr ((if neg then ''-'' else []) @
       (if m = 0 then ''0''
        else case shortestDigits m e of
          (ds, dp) \<Rightarrow>
            if fLess (FFin False m e) (roundFrac False 1 1000000) \<or> \<not> fLess (FFin False m e) (roundFrac False (10 ^ 21) 1)
            then cleanExponent (fmtE ds (dp - 1)) else fmtF ds dp))"

section \<open>Results as JSON (marshal.go)\<close>

definition appendJSONFloat :: "string \<Rightarrow> float64 \<Rightarrow> string res" where
  "appendJSONFloat out f = (case marshalFloat f of Inl e \<Rightarrow> Inl e | Inr b \<Rightarrow> Inr (out @ b))"

text \<open>A list is the fallback to \<^verbatim>\<open>json.Marshal\<close>, which writes its elements in the same way.\<close>

fun appendJSONValue :: "string \<Rightarrow> goval \<Rightarrow> string res"
  and appendJSONValues :: "nat \<Rightarrow> string \<Rightarrow> goval list \<Rightarrow> string res" where
  "appendJSONValue out VNil = Inr (out @ ''null'')"
| "appendJSONValue out (VStr s) = Inr (appendJSONString out s)"
| "appendJSONValue out (VBool b) = Inr (out @ (if b then ''true'' else ''false''))"
| "appendJSONValue out (VInt i) = Inr (out @ FormatInt i)"
| "appendJSONValue out (VGoInt i) = Inr (out @ FormatInt i)"
| "appendJSONValue out (VFloat f) = appendJSONFloat out f"
| "appendJSONValue out (VList vs) = (case appendJSONValues 0 ''['' vs of Inl e \<Rightarrow> Inl e | Inr b \<Rightarrow> Inr (out @ b @ '']''))"
| "appendJSONValues j out [] = Inr out"
| "appendJSONValues j out (v # vs) =
     (case appendJSONValue (if j > 0 then out @ '','' else out) v of
        Inl e \<Rightarrow> Inl e
      | Inr out' \<Rightarrow> appendJSONValues (Suc j) out' vs)"

text \<open>A loop that writes a comma in front of every item but the first.\<close>

fun commaLoop :: "(string \<Rightarrow> 'a \<Rightarrow> string) \<Rightarrow> nat \<Rightarrow> string \<Rightarrow> 'a list \<Rightarrow> string" where
  "commaLoop f i buf [] = buf"
| "commaLoop f i buf (x # xs) = commaLoop f (Suc i) (f (if i > 0 then buf @ '','' else buf) x) xs"

definition appendJSONStringArray :: "string \<Rightarrow> string list \<Rightarrow> string" where
  "appendJSONStringArray out values = commaLoop appendJSONString 0 (out @ ''['') values @ '']''"

fun rowsLoop :: "nat \<Rightarrow> string \<Rightarrow> goval list list \<Rightarrow> string res" where
  "rowsLoop i out [] = Inr out"
| "rowsLoop i out (row # rows) =
     (case appendJSONValues 0 ((if i > 0 then out @ '','' else out) @ ''['') row of
        Inl e \<Rightarrow> Inl e
      | Inr out' \<Rightarrow> rowsLoop (Suc i) (out' @ '']'') rows)"

definition comma :: "bool \<Rightarrow> string" where
  "comma needComma = (if needComma then '','' else [])"

definition AppendResultJSON :: "string \<Rightarrow> result \<Rightarrow> string res" where
  "AppendResultJSON buf r =
     (let out1 = buf @ ''{'';
          need1 = (resColumns r \<noteq> []);
          out2 = (if need1 then appendJSONStringArray (out1 @ ''\"columns\":'') (resColumns r) else out1);
          need2 = (need1 \<or> resRows r \<noteq> [])
      in case (if resRows r \<noteq> [] then rowsLoop 0 (out2 @ comma need1 @ ''\"rows\":'' @ ''['') (resRows r) else Inr out2) of
           Inl e \<Rightarrow> Inl e
         | Inr rowsOut \<Rightarrow>
             let out3 = (if resRows r \<noteq> [] then rowsOut @ '']'' else rowsOut);
                 out4 = (if Affected r \<noteq> 0 then out3 @ comma need2 @ ''\"affected\":'' @ FormatInt (int (Affected r)) else out3);
                 need3 = (need2 \<or> Affected r \<noteq> 0);
                 out5 = (if Message r \<noteq> [] then appendJSONString (out4 @ comma need3 @ ''\"message\":'') (Message r) else out4)
             in Inr (out5 @ ''}''))"

section \<open>Database images (dbjson.go)\<close>

text \<open>
  The maps and the order of a table may be nil in Go, which the table of the model does not show: \<open>nils\<close> says which
  ones are. \<^verbatim>\<open>sort.Strings\<close> is \<open>sort\<close>: the keys of a map are distinct and have one order only.
\<close>

fun cellsLoop :: "row \<Rightarrow> nat \<Rightarrow> string \<Rightarrow> string list \<Rightarrow> string" where
  "cellsLoop row i buf [] = buf"
| "cellsLoop row i buf (key # keys) =
     (let buf1 = appendJSONString (if i > 0 then buf @ '','' else buf) key @ '':''
      in cellsLoop row (Suc i) (case appendJSONValue buf1 (rget row key) of Inl e \<Rightarrow> ''null'' | Inr b \<Rightarrow> b) keys)"

definition appendRowJSON :: "string \<Rightarrow> row \<Rightarrow> string" where
  "appendRowJSON buf row = cellsLoop row 0 (buf @ ''{'') (sort (mkeys row)) @ ''}''"

definition columnJSON :: "string \<Rightarrow> column \<Rightarrow> string" where
  "columnJSON buf c =
     appendJSONString (appendJSONString (buf @ ''{\"Name\":'') (cName c) @ '',\"Type\":'') (typeName (cType c)) @
     '',\"Primary\":'' @ (if cPrimary c then ''true'' else ''false'') @ ''}''"

definition memberJSON :: "string \<Rightarrow> string \<Rightarrow> string" where
  "memberJSON buf key = appendJSONString buf key @ '':{}''"

definition mentry :: "('k, 'v) gomap \<Rightarrow> 'k \<Rightarrow> 'v" where
  "mentry m k = the (mget m k)"

definition bucketJSON :: "(string, string list) gomap \<Rightarrow> string \<Rightarrow> string \<Rightarrow> string" where
  "bucketJSON idx buf val =
     commaLoop memberJSON 0 (appendJSONString buf val @ '':{'') (sort (mentry idx val)) @ ''}''"

definition indexJSON :: "(string, (string, string list) gomap) gomap \<Rightarrow> string \<Rightarrow> string \<Rightarrow> string" where
  "indexJSON ixs buf column =
     commaLoop (bucketJSON (mentry ixs column)) 0 (appendJSONString buf column @ '':{'') (sort (mkeys (mentry ixs column))) @ ''}''"

definition rowJSON :: "(string, row) gomap \<Rightarrow> string \<Rightarrow> string \<Rightarrow> string" where
  "rowJSON rows buf key = appendRowJSON (appendJSONString buf key @ '':'') (mentry rows key)"

definition nameJSON :: "(string, string) gomap \<Rightarrow> string \<Rightarrow> string \<Rightarrow> string" where
  "nameJSON names buf name = appendJSONString (appendJSONString buf name @ '':'') (mentry names name)"

record nils =
  nilRows :: bool
  nilOrder :: bool
  nilIndexes :: bool
  nilNames :: bool

definition appendTableJSON :: "nils \<Rightarrow> string \<Rightarrow> table \<Rightarrow> string" where
  "appendTableJSON z buf t =
     (let buf1 = commaLoop columnJSON 0 (appendJSONString (buf @ ''{\"Name\":'') (tName t) @ '',\"Columns\":['') (Columns t);
          buf2 = buf1 @ ''],\"Rows\":'';
          buf3 = (if nilRows z then buf2 @ ''null'' else commaLoop (rowJSON (Rows t)) 0 (buf2 @ ''{'') (sort (mkeys (Rows t))) @ ''}'');
          buf4 = buf3 @ '',\"Order\":'';
          buf5 = (if nilOrder z then buf4 @ ''null'' else commaLoop appendJSONString 0 (buf4 @ ''['') (Order t) @ '']'');
          buf6 = buf5 @ '',\"Indexes\":'';
          buf7 = (if nilIndexes z then buf6 @ ''null'' else commaLoop (indexJSON (Indexes t)) 0 (buf6 @ ''{'') (sort (mkeys (Indexes t))) @ ''}'');
          buf8 = buf7 @ '',\"IndexNames\":''
      in if nilNames z then buf8 @ ''null}''
         else commaLoop (nameJSON (IndexNames t)) 0 (buf8 @ ''{'') (sort (mkeys (IndexNames t))) @ ''}}'')"

definition tableEntryJSON :: "(string \<Rightarrow> nils) \<Rightarrow> (string, table) gomap \<Rightarrow> string \<Rightarrow> string \<Rightarrow> string" where
  "tableEntryJSON z ts buf name = appendTableJSON (z name) (appendJSONString buf name @ '':'') (mentry ts name)"

definition appendDatabaseJSON :: "bool \<Rightarrow> (string \<Rightarrow> nils) \<Rightarrow> string \<Rightarrow> database \<Rightarrow> string" where
  "appendDatabaseJSON nilTables z buf d =
     (let buf1 = buf @ ''{\"Tables\":'' in
      if nilTables then buf1 @ ''null}''
      else commaLoop (tableEntryJSON z (Tables d)) 0 (buf1 @ ''{'') (sort (mkeys (Tables d))) @ ''}}'')"

definition MarshalJSON :: "bool \<Rightarrow> (string \<Rightarrow> nils) \<Rightarrow> database \<Rightarrow> string" where
  "MarshalJSON nilTables z d = appendDatabaseJSON nilTables z [] d"

section \<open>Restoring an image (snapshot.go)\<close>

text \<open>
  What \<^verbatim>\<open>encoding/json\<close> decodes into \<^verbatim>\<open>databaseImage\<close> with \<^verbatim>\<open>UseNumber\<close>: a number is kept as its text,
  null for a map, a table or a row is nil. The members of an index are not looked at by the restore.
\<close>

datatype cell = Number string | Plain goval

record tableImage =
  imName :: string
  imColumns :: "column list"
  imRows :: "(string, (string, cell) gomap option) gomap option"
  imOrder :: "string list"
  imIndexes :: "string list option"
  imIndexNames :: "(string, string) gomap option"

type_synonym databaseImage = "(string, tableImage option) gomap option"

definition plainCell :: "cell \<Rightarrow> goval" where
  "plainCell c = (case c of Number n \<Rightarrow> VStr n | Plain v \<Rightarrow> v)"

text \<open>
  The numbers of the columns of a row are parsed with the type of the column. A number under a name that is no column stays
  a \<^verbatim>\<open>json.Number\<close>, here its text.
\<close>

fun restoreCells :: "string \<Rightarrow> column list \<Rightarrow> (string, cell) gomap \<Rightarrow> (string, cell) gomap res" where
  "restoreCells name [] row = Inr row"
| "restoreCells name (col # cols) row =
     (case mget row (cName col) of
        Some (Number n) \<Rightarrow>
          (case parseVal n (cType col) of
             Inl e \<Rightarrow> Inl (Wrapped (''restore '' @ name @ ''.'' @ cName col @ '': '') e)
           | Inr v \<Rightarrow> restoreCells name cols (mset_at row (cName col) (Plain v)))
      | _ \<Rightarrow> restoreCells name cols row)"

fun restoreRows :: "string \<Rightarrow> column list \<Rightarrow> (string, (string, cell) gomap option) gomap \<Rightarrow> (string, row) gomap res" where
  "restoreRows name cols [] = Inr []"
| "restoreRows name cols ((key, None) # rows) = Inl (Msg (''invalid row in '' @ name))"
| "restoreRows name cols ((key, Some row) # rows) =
     (case restoreCells name cols row of
        Inl e \<Rightarrow> Inl e
      | Inr row' \<Rightarrow> map_sum id (\<lambda>rs. (key, mmap (\<lambda>_. plainCell) row') # rs) (restoreRows name cols rows))"

fun keepOnce :: "(string, row) gomap \<Rightarrow> string list \<Rightarrow> string list \<Rightarrow> string list" where
  "keepOnce rows seen [] = []"
| "keepOnce rows seen (key # keys) =
     (if mhas rows key \<and> key \<notin> set seen then key # keepOnce rows (key # seen) keys else keepOnce rows seen keys)"

definition restoreOrder :: "(string, row) gomap \<Rightarrow> string list \<Rightarrow> string list" where
  "restoreOrder rows order = (let kept = keepOnce rows [] order in kept @ filter (\<lambda>k. k \<notin> set kept) (mkeys rows))"

definition refillIndex :: "string \<Rightarrow> table \<Rightarrow> table" where
  "refillIndex column t =
     fold (\<lambda>(key, row). addIndexValue column (valueKey (rget row column)) key) (Rows t)
       (t\<lparr>Indexes := mset_at (Indexes t) column []\<rparr>)"

definition restoreTable :: "string \<Rightarrow> tableImage \<Rightarrow> table res" where
  "restoreTable name im =
     (case restoreRows name (imColumns im) (case imRows im of None \<Rightarrow> [] | Some rows \<Rightarrow> rows) of
        Inl e \<Rightarrow> Inl e
      | Inr rows \<Rightarrow>
          let columns = (case imIndexes im of None \<Rightarrow> [] | Some cs \<Rightarrow> cs);
              t = (newTable (imName im) (imColumns im))\<lparr>Rows := rows, Order := restoreOrder rows (imOrder im),
                     Indexes := map (\<lambda>c. (c, [])) columns,
                     IndexNames := (case imIndexNames im of None \<Rightarrow> [] | Some names \<Rightarrow> names)\<rparr>
          in Inr (rebuildFastPathLocked (fold refillIndex columns t)))"

fun restoreTables :: "(string, tableImage option) gomap \<Rightarrow> (string, table) gomap res" where
  "restoreTables [] = Inr []"
| "restoreTables ((name, None) # ims) = Inl (Msg (''invalid table '' @ name))"
| "restoreTables ((name, Some im) # ims) =
     (case restoreTable name im of
        Inl e \<Rightarrow> Inl e
      | Inr t \<Rightarrow> map_sum id (\<lambda>ts. (name, t) # ts) (restoreTables ims))"

definition UnmarshalJSON :: "(string \<Rightarrow> databaseImage res) \<Rightarrow> string \<Rightarrow> database \<Rightarrow> error option \<times> database" where
  "UnmarshalJSON decode b d =
     (case decode b of
        Inl e \<Rightarrow> (Some e, d)
      | Inr img \<Rightarrow>
          (case restoreTables (case img of None \<Rightarrow> [] | Some ims \<Rightarrow> ims) of
             Inl e \<Rightarrow> (Some e, d)
           | Inr ts \<Rightarrow> (None, d\<lparr>Tables := ts, revision := revision d + 1\<rparr>)))"

section \<open>A float without a number corrupts the image\<close>

text \<open>
  The comment of \<^verbatim>\<open>appendRowJSON\<close> says that a value that cannot be encoded becomes null rather than corrupt the
  stream. The failed call returns nil for the buffer, so everything written before is lost.
\<close>

definition infiniteTable :: table where
  "infiniteTable =
     (newTable ''t'' [\<lparr>cName = ''x'', cType = TFloat, cPrimary = False\<rparr>])
       \<lparr>Rows := [(''#1'', [(''x'', VFloat (FInf False))])], Order := [''#1'']\<rparr>"

lemma infinite_float_corrupts_image:
  "appendDatabaseJSON False (\<lambda>_. \<lparr>nilRows = False, nilOrder = False, nilIndexes = False, nilNames = False\<rparr>) []
     (newDatabase\<lparr>Tables := [(''t'', infiniteTable)]\<rparr>) =
   ''null}},\"Order\":[\"#1\"],\"Indexes\":{},\"IndexNames\":{}}}}''"
  by code_simp

end
