(* ===== verification/Rendering.thy ===== *)
theory Rendering
  imports Image
begin

text \<open>
  The writers write JSON values: a value that is rendered with valid strings and numbers of the grammar is decoded as
  itself (\<open>decodeJson_render\<close>), the texts of integers and finite floats are numbers of the grammar, and a result reads
  back (\<open>response_reads_back\<close>).
\<close>

declare map_of_eq_Some_iff [simp del] Some_eq_map_of_iff [simp del]

section \<open>Written values are decoded as they are\<close>

fun render :: "json \<Rightarrow> string" and elementsText :: "json list \<Rightarrow> string" and membersText :: "(string \<times> json) list \<Rightarrow> string" where
  "render JNull = ''null''"
| "render (JBool b) = (if b then ''true'' else ''false'')"
| "render (JNum u) = u"
| "render (JStr s) = appendJSONString [] s"
| "render (JArr vs) = ''['' @ elementsText vs @ '']''"
| "render (JObj ms) = ''{'' @ membersText ms @ ''}''"
| "elementsText [] = []"
| "elementsText (v # vs) = render v @ (if vs = [] then [] else '','' @ elementsText vs)"
| "membersText [] = []"
| "membersText ((k, v) # ms) = appendJSONString [] k @ '':'' @ render v @ (if ms = [] then [] else '','' @ membersText ms)"

text \<open>A value that can be written: valid strings, numbers of the grammar, at most \<open>d\<close> levels.\<close>

fun okJson :: "nat \<Rightarrow> json \<Rightarrow> bool" and okElements :: "nat \<Rightarrow> json list \<Rightarrow> bool" and okMembers :: "nat \<Rightarrow> (string \<times> json) list \<Rightarrow> bool" where
  "okJson d JNull \<longleftrightarrow> True"
| "okJson d (JBool b) \<longleftrightarrow> True"
| "okJson d (JNum u) \<longleftrightarrow> jnumber u"
| "okJson d (JStr s) \<longleftrightarrow> validUTF8 s"
| "okJson d (JArr vs) \<longleftrightarrow> 0 < d \<and> okElements (d - 1) vs"
| "okJson d (JObj ms) \<longleftrightarrow> 0 < d \<and> okMembers (d - 1) ms"
| "okElements d [] \<longleftrightarrow> True"
| "okElements d (v # vs) \<longleftrightarrow> okJson d v \<and> okElements d vs"
| "okMembers d [] \<longleftrightarrow> True"
| "okMembers d ((k, v) # ms) \<longleftrightarrow> validUTF8 k \<and> okJson d v \<and> okMembers d ms"

definition endsValue :: "string \<Rightarrow> bool" where
  "endsValue r \<longleftrightarrow> r = [] \<or> hd r \<in> {CHR '','', CHR '']'', CHR ''}''}"

lemma decimal_simps [simp]:
  "\<not> decimal (CHR '','')" "\<not> decimal (CHR '']'')" "\<not> decimal (CHR ''}'')" "\<not> decimal (CHR ''.'')" "\<not> decimal (CHR ''e'')" "\<not> decimal (CHR ''E'')"
  "\<not> decimal (CHR ''-'')" "\<not> decimal (CHR ''+'')" "decimal (CHR ''0'')"
  by (simp_all add: decimal_def)

definition stops :: "string \<Rightarrow> bool" where
  "stops r \<longleftrightarrow> r = [] \<or> \<not> decimal (hd r)"

lemma digits_dropWhile: "list_all decimal d \<Longrightarrow> stops r \<Longrightarrow> dropWhile decimal (d @ r) = r"
  by (induction d) (auto simp: stops_def dropWhile_eq_self_iff)

lemma skipDigits_written: "digits d \<Longrightarrow> stops r \<Longrightarrow> skipDigits (d @ r) = Some r"
  by (cases d) (auto simp: skipDigits_def digits_def digits_dropWhile)

lemma skipNumber_written:
  assumes "jnumber u" "endsValue r"
  shows "skipNumber (u @ r) = Some r"
proof -
  obtain sg i f e where u: "u = sg @ i @ f @ e" "sg \<in> {[], ''-''}" "i = ''0'' \<or> digits i \<and> hd i \<noteq> CHR ''0''"
    and f: "f = [] \<or> (\<exists>d. f = CHR ''.'' # d \<and> digits d)"
    and e: "e = [] \<or> (\<exists>x sg d. e = x # sg @ d \<and> x \<in> {CHR ''e'', CHR ''E''} \<and> sg \<in> {[], ''+'', ''-''} \<and> digits d)"
    using assms(1) unfolding jnumber_def by blast
  have r: "stops r" using assms(2) by (auto simp: endsValue_def stops_def)
  have se: "stops (e @ r)" using e r by (auto simp: stops_def)
  have sf: "stops (f @ e @ r)" using f se by (auto simp: stops_def)
  have 3: "skipExponent (e @ r) = Some r"
  proof (cases "e = []")
    case True
    then show ?thesis using assms(2) by (auto simp: skipExponent_def endsValue_def split: list.splits)
  next
    case False
    then obtain x s2 d where x: "e = x # s2 @ d" "x \<in> {CHR ''e'', CHR ''E''}" "s2 \<in> {[], ''+'', ''-''}" "digits d" using e by blast
    obtain c d' where d: "d = c # d'" "decimal c" using x(4) by (cases d) (auto simp: digits_def)
    then have "c \<noteq> CHR ''+''" "c \<noteq> CHR ''-''" by auto
    then show ?thesis using x d skipDigits_written[OF x(4) r] by (auto simp: skipExponent_def)
  qed
  have 2: "skipFraction (f @ e @ r) = Some (e @ r)"
  proof (cases "f = []")
    case True
    moreover have "e @ r = [] \<or> hd (e @ r) \<noteq> CHR ''.''" using e assms(2) by (auto simp: endsValue_def)
    ultimately show ?thesis by (auto simp: skipFraction_def split: list.splits)
  next
    case False
    then obtain d where "f = CHR ''.'' # d" "digits d" using f by blast
    then show ?thesis using skipDigits_written[OF _ se] by (simp add: skipFraction_def)
  qed
  obtain c i' where i: "i = c # i'" "decimal c" using u(3) by (cases i) (auto simp: digits_def)
  have 1: "skipInteger (i @ f @ e @ r) = Some (f @ e @ r)"
  proof (cases "i = ''0''")
    case False
    then have "list_all decimal i" "c \<noteq> CHR ''0''" using u(3) i by (auto simp: digits_def)
    then show ?thesis using i digits_dropWhile[OF _ sf, of i] by (simp add: skipInteger_def)
  qed (simp add: skipInteger_def)
  have "c \<noteq> CHR ''-''" using i(2) by auto
  then have "skipNumber (sg @ i @ f @ e @ r) = Some r" using u(2) i 1 2 3 by (auto simp: skipNumber_def)
  then show ?thesis using u(1) by simp
qed

lemma jnumber_head: "jnumber u \<Longrightarrow> \<exists>c t. u = c # t \<and> (c = CHR ''-'' \<or> decimal c)"
  by (auto simp: jnumber_def digits_def) (metis append_Cons list.exhaust list.pred_inject(2))+

lemma valueJson_number:
  assumes "jnumber u" "endsValue r" "0 < n"
  shows "valueJson d n (u @ r) = Some (JNum u, r)"
proof -
  obtain c t where u: "u = c # t" "c = CHR ''-'' \<or> decimal c" using jnumber_head[OF assms(1)] by blast
  have "\<not> decimal dquote" "\<not> decimal (CHR ''{'')" "\<not> decimal (CHR ''['')" "\<not> decimal (CHR ''t'')" "\<not> decimal (CHR ''f'')" "\<not> decimal (CHR ''n'')"
    by (simp_all add: decimal_def)
  then have "c \<noteq> dquote" "c \<noteq> CHR ''{''" "c \<noteq> CHR ''[''" "c \<noteq> CHR ''t''" "c \<noteq> CHR ''f''" "c \<noteq> CHR ''n''" using u(2) by auto
  then show ?thesis using u assms skipNumber_written[OF assms(1,2)] by (cases n) auto
qed

lemma stringJson_written: "validUTF8 s \<Longrightarrow> stringJson (appendJSONString [] s @ r) = Some (s, r)"
  using stringFast_agrees[OF stringFast_written[of s r]] by (simp add: appendJSONString_def)

lemma space_not_decimal: "isJsonSpace c \<Longrightarrow> \<not> decimal c \<and> c \<noteq> CHR ''-''"
  unfolding isJsonSpace_def insert_iff empty_iff by (elim disjE) (simp_all add: decimal_def)

lemma render_head:
  assumes "okJson d j"
  shows "\<exists>c t. render j = c # t \<and> \<not> isJsonSpace c"
proof (cases j)
  case (JNum u)
  then have "jnumber u" using assms by simp
  then obtain c t where "u = c # t" "c = CHR ''-'' \<or> decimal c" using jnumber_head by blast
  moreover have "\<not> isJsonSpace c" if "c = CHR ''-'' \<or> decimal c" for c using that space_not_decimal by blast
  ultimately show ?thesis using JNum by simp
qed (simp_all add: appendJSONString_def isJsonSpace_def)

lemma skipSpace_render: "okJson d j \<Longrightarrow> skipSpace (render j @ r) = render j @ r"
  using render_head[of d j] by (auto simp: skipSpace_here)

lemma render_length: "okJson d j \<Longrightarrow> 0 < length (render j)"
  using render_head[of d j] by auto

lemma ends_simps [simp]: "endsValue []" "endsValue (CHR '','' # r)" "endsValue (CHR '']'' # r)" "endsValue (CHR ''}'' # r)"
  by (simp_all add: endsValue_def)

lemma appendJSONString_head: "skipSpace (appendJSONString [] s @ r) = appendJSONString [] s @ r" "0 < length (appendJSONString [] s)"
  by (simp_all add: appendJSONString_def skipSpace_here)

lemma elementsText_head:
  "vs \<noteq> [] \<Longrightarrow> okElements d vs \<Longrightarrow> skipSpace (elementsText vs @ r) = elementsText vs @ r \<and> consume (CHR '']'') (elementsText vs @ r) = None"
proof (cases vs)
  case (Cons v vs')
  assume "okElements d vs"
  then have v: "okJson d v" using Cons by simp
  obtain c t where c: "render v = c # t" "\<not> isJsonSpace c" using render_head[OF v] by blast
  moreover have "c \<noteq> CHR '']''" using c(1) v by (cases v) (auto simp: appendJSONString_def dest: jnumber_head split: if_splits)
  ultimately show ?thesis using Cons by (simp add: skipSpace_here consume_def)
qed simp

lemma membersText_head:
  "ms \<noteq> [] \<Longrightarrow> skipSpace (membersText ms @ r) = membersText ms @ r \<and> consume (CHR ''}'') (membersText ms @ r) = None"
  by (cases ms) (auto simp: appendJSONString_def skipSpace_here consume_def)

lemma decode_written:
  "okJson d j \<Longrightarrow> 2 * length (render j) < n \<Longrightarrow> endsValue r \<Longrightarrow> valueJson d n (render j @ r) = Some (j, r)"
  "vs \<noteq> [] \<Longrightarrow> okElements d vs \<Longrightarrow> 2 * length (elementsText vs) + 2 < n \<Longrightarrow> elementsJson d n (elementsText vs @ CHR '']'' # r) = Some (vs, r)"
  "ms \<noteq> [] \<Longrightarrow> okMembers d ms \<Longrightarrow> 2 * length (membersText ms) + 2 < n \<Longrightarrow> membersJson d n (membersText ms @ CHR ''}'' # r) = Some (ms, r)"
proof (induction j and vs and ms arbitrary: d n r and d n r and d n r rule: render_elementsText_membersText.induct)
  case 1
  then show ?case by (cases n) (simp_all add: skipLiteral_def dropPrefix_def)
next
  case (2 b)
  then show ?case by (cases n) (auto simp: skipLiteral_def dropPrefix_def)
next
  case (3 u)
  then show ?case using valueJson_number by simp
next
  case (4 s)
  then show ?case using valueJson_string[OF stringJson_written] by simp
next
  case (5 vs)
  obtain k where n: "n = Suc k" using "5.prems" by (cases n) auto
  show ?case
  proof (cases "vs = []")
    case True
    then show ?thesis using 5 n by (simp add: skipSpace_here consume_def)
  next
    case False
    have ok: "0 < d" "okElements (d - 1) vs" using "5.prems" by simp_all
    have "elementsJson (d - 1) k (elementsText vs @ CHR '']'' # r) = Some (vs, r)" using "5.IH"[OF False ok(2), of k] "5.prems" n by simp
    then show ?thesis using elementsText_head[OF False ok(2)] ok(1) n by simp
  qed
next
  case (6 ms)
  obtain k where n: "n = Suc k" using "6.prems" by (cases n) auto
  show ?case
  proof (cases "ms = []")
    case True
    then show ?thesis using 6 n by (simp add: skipSpace_here consume_def)
  next
    case False
    have ok: "0 < d" "okMembers (d - 1) ms" using "6.prems" by simp_all
    have "membersJson (d - 1) k (membersText ms @ CHR ''}'' # r) = Some (ms, r)" using "6.IH"[OF False ok(2), of k] "6.prems" n by simp
    then show ?thesis using membersText_head[OF False] ok(1) n by simp
  qed
next
  case 7
  then show ?case by simp
next
  case (8 v vs)
  obtain k where n: "n = Suc k" using "8.prems" by (cases n) auto
  have ok: "okJson d v" "okElements d vs" using "8.prems" by simp_all
  have v: "valueJson d k (render v @ r') = Some (v, r')" if "endsValue r'" for r' using "8.IH"(1)[OF ok(1)] "8.prems" n that by simp
  show ?case
  proof (cases "vs = []")
    case True
    then show ?thesis using v n skipSpace_render[OF ok(1)] by (simp add: skipSpace_here consume_def)
  next
    case False
    have "elementsJson d k (elementsText vs @ CHR '']'' # r) = Some (vs, r)"
      using "8.IH"(2)[OF False False ok(2), of k] "8.prems" n False by simp
    then show ?thesis using v n skipSpace_render[OF ok(1)] False by (simp add: skipSpace_here consume_def)
  qed
next
  case 9
  then show ?case by simp
next
  case (10 key v ms)
  obtain k where n: "n = Suc k" using "10.prems" by (cases n) auto
  have ok: "validUTF8 key" "okJson d v" "okMembers d ms" using "10.prems" by simp_all
  have v: "valueJson d k (render v @ r') = Some (v, r')" if "endsValue r'" for r' using "10.IH"(1)[OF ok(2)] "10.prems" n that by simp
  have key: "stringJson (appendJSONString [] key @ r') = Some (key, r')" for r' using stringJson_written[OF ok(1)] .
  show ?case
  proof (cases "ms = []")
    case True
    then show ?thesis using v n key skipSpace_render[OF ok(2)] by (simp add: skipSpace_here consume_def appendJSONString_head)
  next
    case False
    have "membersJson d k (membersText ms @ CHR ''}'' # r) = Some (ms, r)"
      using "10.IH"(2)[OF False False ok(3), of k] "10.prems" n False by simp
    then show ?thesis using v n key skipSpace_render[OF ok(2)] False by (simp add: skipSpace_here consume_def appendJSONString_head)
  qed
qed

lemma decodeJson_render: "okJson maxNestingDepth j \<Longrightarrow> decodeJson (render j) = Some j"
  using decode_written(1)[of maxNestingDepth j "Suc (2 * length (render j))" "[]"] skipSpace_render[of maxNestingDepth j "[]"]
  by (simp add: decodeJson_def skipSpace_def)

section \<open>Written numbers are numbers\<close>

lemma decimal_isDigit: "decimal = isDigit"
  by (simp add: fun_eq_iff decimal_def isDigit_def)

lemma digits_fmtNat: "digits (fmtNat n)"
  using fmtNat_digits by (simp add: digits_def decimal_isDigit)

lemma fmtNat_hd_nonzero: "0 < n \<Longrightarrow> hd (fmtNat n) \<noteq> CHR ''0''"
proof (induction n rule: fmtNat.induct)
  case (1 n)
  show ?case
  proof (cases "n < 10")
    case True
    have "char_of (48 + n) \<noteq> CHR ''0''"
    proof
      assume "char_of (48 + n) = CHR ''0''"
      then have "of_char (char_of (48 + n) :: char) = (48 :: nat)" by simp
      then show False using True 1 by simp
    qed
    then show ?thesis using True by (simp add: fmtNat.simps[of n])
  next
    case False
    then have "hd (fmtNat (n div 10)) \<noteq> CHR ''0''" using "1.IH" by (simp add: div_greater_zero_iff)
    then show ?thesis using False by (simp add: fmtNat.simps[of n])
  qed
qed

lemma jnumber_parts:
  assumes "sg \<in> {[], ''-''}" "i = ''0'' \<or> digits i \<and> hd i \<noteq> CHR ''0''" "f = [] \<or> (\<exists>d. f = CHR ''.'' # d \<and> digits d)"
    "e = [] \<or> (\<exists>x sg d. e = x # sg @ d \<and> x \<in> {CHR ''e'', CHR ''E''} \<and> sg \<in> {[], ''+'', ''-''} \<and> digits d)"
  shows "jnumber (sg @ i @ f @ e)"
  using assms unfolding jnumber_def by blast

lemma FormatInt_jnumber: "jnumber (FormatInt i)"
proof -
  have n: "fmtNat n = ''0'' \<or> digits (fmtNat n) \<and> hd (fmtNat n) \<noteq> CHR ''0''" for n
    using fmtNat_hd_nonzero[of n] digits_fmtNat[of n] by (cases "n = 0") (simp_all add: fmtNat.simps[of 0] char_of_def)
  have "jnumber ([] @ fmtNat (nat i) @ [] @ [])" "jnumber (''-'' @ fmtNat (nat (- i)) @ [] @ [])"
    by (rule jnumber_parts; use n in simp)+
  then show ?thesis by (simp add: FormatInt_def)
qed

lemma digits_append: "digits a \<Longrightarrow> list_all decimal b \<Longrightarrow> digits (a @ b)" "list_all decimal b \<Longrightarrow> digits a \<Longrightarrow> digits (b @ a)"
  by (auto simp: digits_def)

lemma list_all_replicate_zero: "list_all decimal (replicate n (CHR ''0''))"
  by (simp add: list_all_iff)

lemma digits_sub: "digits ds \<Longrightarrow> list_all decimal (take n ds)" "digits ds \<Longrightarrow> list_all decimal (drop n ds)"
  by (auto simp: digits_def list_all_iff dest: in_set_takeD in_set_dropD)

lemma fmtF_jnumber:
  assumes "digits ds" "hd ds \<noteq> CHR ''0''" "sg \<in> {[], ''-''}"
  shows "jnumber (sg @ fmtF ds dp)"
proof -
  define i where "i = (if 0 < dp then take (nat dp) ds @ replicate (nat dp - length ds) (CHR ''0'') else ''0'')"
  define f where "f = (if int (length ds) - dp > 0 then CHR ''.'' # replicate (nat (- dp)) (CHR ''0'') @ drop (nat dp) ds else [])"
  have ne: "ds \<noteq> []" using assms(1) by (simp add: digits_def)
  have "i = ''0'' \<or> digits i \<and> hd i \<noteq> CHR ''0''"
  proof (cases "0 < dp")
    case True
    then have "take (nat dp) ds \<noteq> []" using ne by simp
    then have "digits i" "hd i = hd ds"
      using True digits_sub(1)[OF assms(1), of "nat dp"] list_all_replicate_zero[of "nat dp - length ds"] by (auto simp: i_def digits_def)
    then show ?thesis using assms(2) by simp
  qed (simp add: i_def)
  moreover have "f = [] \<or> (\<exists>d. f = CHR ''.'' # d \<and> digits d)"
  proof (cases "int (length ds) - dp > 0")
    case True
    then have "drop (nat dp) ds \<noteq> []" using ne by (cases "0 \<le> dp") auto
    then have "digits (replicate (nat (- dp)) (CHR ''0'') @ drop (nat dp) ds)"
      using digits_sub(2)[OF assms(1), of "nat dp"] list_all_replicate_zero by (simp add: digits_def)
    then show ?thesis using True by (simp add: f_def)
  qed (simp add: f_def)
  ultimately have "jnumber (sg @ i @ f @ [])" using assms(3) by (intro jnumber_parts) simp_all
  then show ?thesis by (simp add: fmtF_def i_def f_def)
qed

lemma cleanExponent_form:
  assumes "digits t" "2 \<le> length t" "s \<in> {CHR ''+'', CHR ''-''}"
  shows "\<exists>t'. cleanExponent (a @ [CHR ''e'', s] @ t) = a @ [CHR ''e'', s] @ t' \<and> digits t'"
proof -
  let ?b = "a @ [CHR ''e'', s] @ t" and ?n = "length (a @ [CHR ''e'', s] @ t)"
  have n: "?n = length a + 2 + length t" by simp
  show ?thesis
  proof (cases "length t = 2")
    case True
    then obtain x y where t: "t = [x, y]" by (auto simp: length_Suc_conv numeral_2_eq_2)
    have y: "digits [y]" using assms(1) t by (simp add: digits_def)
    have "cleanExponent ?b = ?b \<or> cleanExponent ?b = a @ [CHR ''e'', s] @ [y]"
      unfolding t cleanExponent_def by (auto simp: Let_def nth_append)
    then show ?thesis using assms(1) y by blast
  next
    case False
    then have l: "3 \<le> length t" using assms(2) by simp
    have "?b ! (?n - 4) \<noteq> CHR ''e''"
    proof (cases "length t = 3")
      case True
      then have "?b ! (?n - 4) = s" by (simp add: nth_append)
      then show ?thesis using assms(3) by auto
    next
      case False
      then have "?b ! (?n - 4) = t ! (length t - 4)" "length t - 4 < length t" using l by (auto simp: nth_append)
      moreover have "decimal (t ! (length t - 4))" using assms(1) calculation(2) by (auto simp: digits_def list_all_length)
      ultimately show ?thesis by auto
    qed
    then have "cleanExponent ?b = ?b" by (simp add: cleanExponent_def Let_def del: append_assoc append.simps)
    then show ?thesis using assms(1) by blast
  qed
qed

lemma fmtE_jnumber:
  assumes "digits ds" "hd ds \<noteq> CHR ''0''" "sg \<in> {[], ''-''}"
  shows "jnumber (sg @ cleanExponent (fmtE ds x))"
proof -
  define i where "i = take 1 ds"
  define f where "f = (if length ds > 1 then CHR ''.'' # drop 1 ds else [])"
  define t where "t = (let t = fmtNat (nat \<bar>x\<bar>) in if length t < 2 then CHR ''0'' # t else t)"
  define s where "s = (if x < 0 then CHR ''-'' else CHR ''+'')"
  have ne: "ds \<noteq> []" using assms(1) by (simp add: digits_def)
  have i: "digits i" "hd i \<noteq> CHR ''0''" using assms ne digits_sub(1)[OF assms(1), of 1] by (auto simp: i_def digits_def)
  have "drop 1 ds \<noteq> []" if "length ds > 1" using that by simp
  then have f: "f = [] \<or> (\<exists>d. f = CHR ''.'' # d \<and> digits d)" using digits_sub(2)[OF assms(1), of 1] by (auto simp: f_def digits_def)
  have nz: "0 < length (fmtNat k)" for k using fmtNat_nonempty[of k] by (rule length_greater_0_conv[THEN iffD2])
  have t: "digits t" "2 \<le> length t" using digits_fmtNat[of "nat \<bar>x\<bar>"] nz[of "nat \<bar>x\<bar>"] by (auto simp: t_def Let_def digits_def Suc_le_eq)
  have e: "fmtE ds x = (i @ f) @ [CHR ''e'', s] @ t" by (simp add: fmtE_def i_def f_def t_def s_def)
  have s: "s \<in> {CHR ''+'', CHR ''-''}" by (simp add: s_def)
  obtain t' where t': "cleanExponent (fmtE ds x) = (i @ f) @ [CHR ''e'', s] @ t'" "digits t'"
    using cleanExponent_form[OF t s, of "i @ f"] unfolding e by blast
  have "[s] \<in> {[], ''+'', ''-''}" using s by auto
  then have "\<exists>x sg d. CHR ''e'' # [s] @ t' = x # sg @ d \<and> x \<in> {CHR ''e'', CHR ''E''} \<and> sg \<in> {[], ''+'', ''-''} \<and> digits d"
    using t'(2) by (intro exI[of _ "CHR ''e''"] exI[of _ "[s]"] exI[of _ t']) simp
  then have "jnumber (sg @ i @ f @ (CHR ''e'' # [s] @ t'))"
    using assms(3) i f by (intro jnumber_parts) auto
  then show ?thesis using t'(1) by simp
qed

lemma shortestDigits_ok:
  assumes "m \<noteq> 0"
  shows "digits (fst (shortestDigits m e)) \<and> hd (fst (shortestDigits m e)) \<noteq> CHR ''0''"
proof -
  let ?n = "nat \<bar>scaled False m e\<bar>" and ?d = "2 ^ 1074 :: nat"
  obtain v k where vk: "shortestLoop 17 (FFin False m e) ?n ?d (decPoint ?n ?d) 1 = (v, k)" by fastforce
  have "0 < ?n" using assms by (simp add: scaled_def)
  then have v: "0 < v" using shortest_positive[of m ?n ?d 1 17 e] vk assms by simp
  obtain z where z: "fmtNat v = stripZeros (fmtNat v) @ z"
    unfolding stripZeros_def by (metis append_take_drop_id rev_append rev_rev_ident takeWhile_dropWhile_id)
  have "list_all decimal (stripZeros (fmtNat v))" using digits_fmtNat[of v] z by (metis digits_def list_all_append)
  then have "digits (stripZeros (fmtNat v))" using stripZeros_hd(1)[OF v] by (simp add: digits_def)
  moreover have "hd (stripZeros (fmtNat v)) \<noteq> CHR ''0''" using fmtNat_hd_nonzero[OF v] z stripZeros_hd(1)[OF v] by (metis hd_append2)
  ultimately show ?thesis using vk by (simp add: shortestDigits_def Let_def)
qed

lemma marshalFloat_jnumber: "marshalFloat f = Inr u \<Longrightarrow> jnumber u"
proof (cases f)
  case (FFin neg m e)
  assume u: "marshalFloat f = Inr u"
  have sg: "(if neg then ''-'' else []) \<in> {[], ''-''}" by simp
  show ?thesis
  proof (cases "m = 0")
    case True
    have "jnumber ((if neg then ''-'' else []) @ ''0'' @ [] @ [])" by (rule jnumber_parts) auto
    then show ?thesis using u FFin True by auto
  next
    case False
    obtain ds dp where p: "shortestDigits m e = (ds, dp)" by fastforce
    have d: "digits ds" "hd ds \<noteq> CHR ''0''" using shortestDigits_ok[OF False, of e] p by simp_all
    have "u = (if neg then ''-'' else []) @ cleanExponent (fmtE ds (dp - 1)) \<or> u = (if neg then ''-'' else []) @ fmtF ds dp"
      using u FFin False p by (auto split: if_splits)
    then show ?thesis using fmtE_jnumber[OF d sg] fmtF_jnumber[OF d sg] by metis
  qed
qed simp_all

section \<open>The writers write values\<close>

lemma appendJSONString_append: "appendJSONString buf s = buf @ appendJSONString [] s"
  by (simp add: appendJSONString_def)

definition commas :: "string list \<Rightarrow> string" where
  "commas xs = concat (case xs of [] \<Rightarrow> [] | y # ys \<Rightarrow> y # map (\<lambda>z. CHR '','' # z) ys)"

lemma commas_simps [simp]: "commas [] = []" "commas [x] = x" "commas (x # y # xs) = x @ CHR '','' # commas (y # xs)"
  by (simp_all add: commas_def)

lemma commaLoop_rest: "(\<And>buf x. x \<in> set xs \<Longrightarrow> f buf x = buf @ g x) \<Longrightarrow> 0 < i \<Longrightarrow> commaLoop f i buf xs = buf @ concat (map (\<lambda>x. CHR '','' # g x) xs)"
  by (induction xs arbitrary: i buf) auto

lemma commaLoop_commas: "(\<And>buf x. x \<in> set xs \<Longrightarrow> f buf x = buf @ g x) \<Longrightarrow> commaLoop f 0 buf xs = buf @ commas (map g xs)"
  using commaLoop_rest[of "tl xs" f g "Suc 0"] by (cases xs) (auto simp: commas_def comp_def)

lemma elementsText_commas: "elementsText vs = commas (map render vs)"
proof -
  have "elementsText (v # vs) = render v @ concat (map (\<lambda>z. CHR '','' # z) (map render vs))" for v vs
    by (induction vs arbitrary: v) auto
  then show ?thesis by (cases vs) (simp_all add: commas_def)
qed

definition memberText :: "string \<times> json \<Rightarrow> string" where
  "memberText m = appendJSONString [] (fst m) @ '':'' @ render (snd m)"

lemma membersText_commas: "membersText ms = commas (map memberText ms)"
proof -
  have "membersText (m # ms) = memberText m @ concat (map (\<lambda>z. CHR '','' # z) (map memberText ms))" for m ms
    by (induction ms arbitrary: m) (auto simp: memberText_def)
  then show ?thesis by (cases ms) (simp_all add: commas_def)
qed

lemma render_JArr: "render (JArr vs) = ''['' @ commas (map render vs) @ '']''"
  by (simp add: elementsText_commas)

lemma render_JObj: "render (JObj ms) = ''{'' @ commas (map memberText ms) @ ''}''"
  by (simp add: membersText_commas)

text \<open>Cells and results as JSON values.\<close>

fun valueTree :: "goval \<Rightarrow> json" where
  "valueTree VNil = JNull"
| "valueTree (VStr s) = JStr s"
| "valueTree (VBool b) = JBool b"
| "valueTree (VInt i) = JNum (FormatInt i)"
| "valueTree (VGoInt i) = JNum (FormatInt i)"
| "valueTree (VFloat f) = JNum (case marshalFloat f of Inl _ \<Rightarrow> [] | Inr u \<Rightarrow> u)"
| "valueTree (VList vs) = JArr (map valueTree vs)"

text \<open>The cells the engine stores and returns: scalars, with valid text and finite numbers.\<close>

definition cleanVal :: "goval \<Rightarrow> bool" where
  "cleanVal v = (case v of VStr s \<Rightarrow> validUTF8 s | VFloat (FFin _ _ _) \<Rightarrow> True | VFloat _ \<Rightarrow> False | VList _ \<Rightarrow> False | _ \<Rightarrow> True)"

lemma appendJSONValue_render: "cleanVal v \<Longrightarrow> appendJSONValue out v = Inr (out @ render (valueTree v))"
  by (cases v) (auto simp: cleanVal_def appendJSONFloat_def appendJSONString_append[of out] split: float64.splits)

lemma valueTree_ok: "cleanVal v \<Longrightarrow> okJson d (valueTree v)"
  by (cases v) (auto simp: cleanVal_def FormatInt_jnumber marshalFloat_jnumber simp del: marshalFloat.simps split: float64.splits sum.splits,
    auto)

lemma appendJSONValues_rest:
  "\<forall>v\<in>set vs. cleanVal v \<Longrightarrow> 0 < j \<Longrightarrow> appendJSONValues j out vs = Inr (out @ concat (map (\<lambda>v. CHR '','' # render (valueTree v)) vs))"
  by (induction vs arbitrary: j out) (auto simp: appendJSONValue_render)

lemma appendJSONValues_commas:
  "\<forall>v\<in>set vs. cleanVal v \<Longrightarrow> appendJSONValues 0 out vs = Inr (out @ commas (map (\<lambda>v. render (valueTree v)) vs))"
  by (cases vs) (auto simp: appendJSONValue_render appendJSONValues_rest commas_def comp_def)

definition rowTree :: "goval list \<Rightarrow> json" where
  "rowTree vs = JArr (map valueTree vs)"

lemma rowsLoop_rest:
  "\<forall>row\<in>set rows. \<forall>v\<in>set row. cleanVal v \<Longrightarrow> 0 < i \<Longrightarrow> rowsLoop i out rows = Inr (out @ concat (map (\<lambda>row. CHR '','' # render (rowTree row)) rows))"
  by (induction rows arbitrary: i out) (auto simp: appendJSONValues_commas rowTree_def elementsText_commas comp_def)

lemma rowsLoop_commas:
  "\<forall>row\<in>set rows. \<forall>v\<in>set row. cleanVal v \<Longrightarrow> rowsLoop 0 out rows = Inr (out @ commas (map (\<lambda>row. render (rowTree row)) rows))"
  by (cases rows) (auto simp: appendJSONValues_commas rowsLoop_rest commas_def rowTree_def elementsText_commas comp_def)

definition resultTree :: "result \<Rightarrow> json" where
  "resultTree r = JObj (
     (if resColumns r \<noteq> [] then [(''columns'', JArr (map JStr (resColumns r)))] else []) @
     (if resRows r \<noteq> [] then [(''rows'', JArr (map rowTree (resRows r)))] else []) @
     (if Affected r \<noteq> 0 then [(''affected'', JNum (FormatInt (int (Affected r))))] else []) @
     (if Message r \<noteq> [] then [(''message'', JStr (Message r))] else []))"

definition cleanResult :: "result \<Rightarrow> bool" where
  "cleanResult r \<longleftrightarrow> list_all validUTF8 (resColumns r) \<and> list_all (list_all cleanVal) (resRows r) \<and> validUTF8 (Message r)"

lemma appendJSONStringArray_render: "appendJSONStringArray out vs = out @ render (JArr (map JStr vs))"
proof -
  have "commaLoop appendJSONString 0 (out @ ''['') vs = (out @ ''['') @ commas (map (appendJSONString []) vs)"
    by (rule commaLoop_commas) (rule appendJSONString_append)
  then show ?thesis by (simp add: appendJSONStringArray_def elementsText_commas comp_def)
qed

lemma key_texts:
  "appendJSONString [] ''columns'' = ''\"columns\"''" "appendJSONString [] ''rows'' = ''\"rows\"''"
  "appendJSONString [] ''affected'' = ''\"affected\"''" "appendJSONString [] ''message'' = ''\"message\"''"
  by code_simp+

lemma AppendResultJSON_render:
  assumes "cleanResult r"
  shows "AppendResultJSON buf r = Inr (buf @ render (resultTree r))"
proof -
  have rows: "rowsLoop 0 out (resRows r) = Inr (out @ commas (map (\<lambda>row. render (rowTree row)) (resRows r)))" for out
    using rowsLoop_commas[of "resRows r" out] assms by (simp add: cleanResult_def list_all_iff)
  show ?thesis
    unfolding AppendResultJSON_def resultTree_def Let_def rows appendJSONStringArray_render
    by (simp add: comma_def key_texts elementsText_commas comp_def appendJSONString_append[of "_ @ _"] appendJSONString_append[of "_ # _"])
qed

lemma valid_ascii: "list_all (\<lambda>c. byte c < 0x80) s \<Longrightarrow> validUTF8 s"
  by (induction s) (simp_all add: validUTF8.simps)

lemma okElements_iff: "okElements d vs \<longleftrightarrow> list_all (okJson d) vs"
  by (induction vs) auto

lemma okMembers_iff: "okMembers d ms \<longleftrightarrow> list_all (\<lambda>m. validUTF8 (fst m) \<and> okJson d (snd m)) ms"
  by (induction ms) auto

lemma resultTree_ok: "cleanResult r \<Longrightarrow> 3 \<le> d \<Longrightarrow> okJson d (resultTree r)"
  by (auto simp: resultTree_def cleanResult_def okMembers_iff okElements_iff list_all_iff rowTree_def valid_ascii FormatInt_jnumber valueTree_ok)

text \<open>
  The answer to a query is decoded by the client as it was: the columns, the rows with every cell, the number of
  affected rows and the message, for every result of scalar cells with valid text and finite numbers.
\<close>

theorem response_reads_back:
  assumes "cleanResult r"
  shows "\<exists>u. AppendResultJSON [] r = Inr u \<and> decodeJson u = Some (resultTree r)"
  using AppendResultJSON_render[OF assms, of "[]"] decodeJson_render[OF resultTree_ok[OF assms, of maxNestingDepth]]
  by (simp add: maxNestingDepth_def)

theorem response_reads_back_witness:
  "\<exists>u. AppendResultJSON [] (noResult\<lparr>resColumns := [''id''], resRows := [[VInt 1], [VNil]]\<rparr>) = Inr u \<and>
     decodeJson u = Some (JObj [(''columns'', JArr [JStr ''id'']), (''rows'', JArr [JArr [JNum ''1''], JArr [JNull]])])"
proof -
  have c: "cleanResult (noResult\<lparr>resColumns := [''id''], resRows := [[VInt 1], [VNil]]\<rparr>)" by code_simp
  have "resultTree (noResult\<lparr>resColumns := [''id''], resRows := [[VInt 1], [VNil]]\<rparr>) =
      JObj [(''columns'', JArr [JStr ''id'']), (''rows'', JArr [JArr [JNum ''1''], JArr [JNull]])]" by code_simp
  then show ?thesis using response_reads_back[OF c] by simp
qed

end
