(* ===== verification/Restore.thy ===== *)
theory Restore
  imports Rendering
begin

text \<open>
  A database image is restored as the database it was written from (\<open>snapshot_restores\<close>): the image is the rendering of
  a JSON value, the decoder gives the image of every table, numbers are parsed with the type of their column, and the
  rebuilt order, indexes and fast array satisfy the invariant of tables.
\<close>

declare map_of_eq_Some_iff [simp del] Some_eq_map_of_iff [simp del]

section \<open>Images are values\<close>

definition cellsTree :: "row \<Rightarrow> json" where
  "cellsTree row = JObj (map (\<lambda>k. (k, valueTree (rget row k))) (sort (mkeys row)))"

definition columnTree :: "column \<Rightarrow> json" where
  "columnTree c = JObj [(''Name'', JStr (cName c)), (''Type'', JStr (typeName (cType c))), (''Primary'', JBool (cPrimary c))]"

definition bucketTree :: "string list \<Rightarrow> json" where
  "bucketTree members = JObj (map (\<lambda>k. (k, JObj [])) (sort members))"

definition indexTree :: "(string, string list) gomap \<Rightarrow> json" where
  "indexTree idx = JObj (map (\<lambda>v. (v, bucketTree (mentry idx v))) (sort (mkeys idx)))"

definition orNull :: "bool \<Rightarrow> json \<Rightarrow> json" where
  "orNull isNil j = (if isNil then JNull else j)"

definition tableTree :: "nils \<Rightarrow> table \<Rightarrow> json" where
  "tableTree z t = JObj
     [(''Name'', JStr (tName t)), (''Columns'', JArr (map columnTree (Columns t))),
      (''Rows'', orNull (nilRows z) (JObj (map (\<lambda>k. (k, cellsTree (mentry (Rows t) k))) (sort (mkeys (Rows t)))))),
      (''Order'', orNull (nilOrder z) (JArr (map JStr (Order t)))),
      (''Indexes'', orNull (nilIndexes z) (JObj (map (\<lambda>c. (c, indexTree (mentry (Indexes t) c))) (sort (mkeys (Indexes t)))))),
      (''IndexNames'', orNull (nilNames z) (JObj (map (\<lambda>n. (n, JStr (mentry (IndexNames t) n))) (sort (mkeys (IndexNames t))))))]"

definition databaseTree :: "bool \<Rightarrow> (string \<Rightarrow> nils) \<Rightarrow> database \<Rightarrow> json" where
  "databaseTree nilTables z d = JObj
     [(''Tables'', orNull nilTables (JObj (map (\<lambda>n. (n, tableTree (z n) (mentry (Tables d) n))) (sort (mkeys (Tables d))))))]"

text \<open>
  A table that can be written: its names, keys and texts are valid UTF-8, its numbers finite, and every row has at most
  one cell for each column and no other.
\<close>

definition cleanRow :: "row \<Rightarrow> bool" where
  "cleanRow row \<longleftrightarrow> mwf row \<and> list_all (\<lambda>(c, v). validUTF8 c \<and> cleanVal v) row"

definition cleanTable :: "table \<Rightarrow> bool" where
  "cleanTable t \<longleftrightarrow>
     validUTF8 (tName t) \<and>
     list_all (\<lambda>c. validUTF8 (cName c) \<and> validUTF8 (typeName (cType c)) \<and> typeOf (typeName (cType c)) = cType c) (Columns t) \<and>
     mwf (Rows t) \<and> list_all (\<lambda>(k, row). validUTF8 k \<and> cleanRow row \<and> set (mkeys row) \<subseteq> cName ` set (Columns t)) (Rows t) \<and> list_all validUTF8 (Order t) \<and>
     mwf (Indexes t) \<and> list_all (\<lambda>(c, idx). validUTF8 c \<and> mwf idx \<and> list_all (\<lambda>(v, ks). validUTF8 v \<and> list_all validUTF8 ks) idx) (Indexes t) \<and>
     mwf (IndexNames t) \<and> list_all (\<lambda>(n, c). validUTF8 n \<and> validUTF8 c) (IndexNames t)"

lemma mget_mentry: "k \<in> set (mkeys m) \<Longrightarrow> mget m k = Some (mentry m k)"
  unfolding mentry_def by (metis image_set map_of_eq_None_iff option.collapse)

lemma mentry_in: "k \<in> set (mkeys m) \<Longrightarrow> (k, mentry m k) \<in> set m"
  using mget_mentry map_of_SomeD by fast

lemma rget_mentry: "k \<in> set (mkeys row) \<Longrightarrow> rget row k = mentry row k"
  by (simp add: rget_def mget_mentry)

lemma cleanRow_cell: "cleanRow row \<Longrightarrow> k \<in> set (mkeys row) \<Longrightarrow> validUTF8 k \<and> cleanVal (rget row k)"
  using mentry_in[of k row] rget_mentry[of k row] by (auto simp: cleanRow_def list_all_iff)

lemma cellsLoop_rest:
  "cleanRow row \<Longrightarrow> set ks \<subseteq> set (mkeys row) \<Longrightarrow> 0 < i \<Longrightarrow>
     cellsLoop row i buf ks = buf @ concat (map (\<lambda>k. CHR '','' # memberText (k, valueTree (rget row k))) ks)"
proof (induction ks arbitrary: i buf)
  case (Cons k ks)
  then have "cleanVal (rget row k)" using cleanRow_cell by auto
  then show ?case using Cons by (simp add: appendJSONValue_render memberText_def appendJSONString_append[of "_ @ _"])
qed simp

lemma cellsLoop_commas:
  "cleanRow row \<Longrightarrow> set ks \<subseteq> set (mkeys row) \<Longrightarrow> cellsLoop row 0 buf ks = buf @ commas (map (\<lambda>k. memberText (k, valueTree (rget row k))) ks)"
proof (cases ks)
  case (Cons k ks')
  assume a: "cleanRow row" "set ks \<subseteq> set (mkeys row)"
  then have "cleanVal (rget row k)" using cleanRow_cell Cons by auto
  then show ?thesis using a Cons cellsLoop_rest[of row ks' "Suc 0"]
    by (simp add: appendJSONValue_render memberText_def commas_def comp_def appendJSONString_append[of buf])
qed (simp add: commas_def)

lemma appendRowJSON_render: "cleanRow row \<Longrightarrow> appendRowJSON buf row = buf @ render (cellsTree row)"
  by (simp add: appendRowJSON_def cellsTree_def cellsLoop_commas membersText_commas comp_def)

lemma field_texts:
  "appendJSONString [] ''Name'' = ''\"Name\"''" "appendJSONString [] ''Type'' = ''\"Type\"''" "appendJSONString [] ''Primary'' = ''\"Primary\"''"
  "appendJSONString [] ''Columns'' = ''\"Columns\"''" "appendJSONString [] ''Rows'' = ''\"Rows\"''" "appendJSONString [] ''Order'' = ''\"Order\"''"
  "appendJSONString [] ''Indexes'' = ''\"Indexes\"''" "appendJSONString [] ''IndexNames'' = ''\"IndexNames\"''" "appendJSONString [] ''Tables'' = ''\"Tables\"''"
  by code_simp+

lemmas appendString_out = appendJSONString_append[of "_ @ _"] appendJSONString_append[of "_ # _"]

lemma columnJSON_render: "columnJSON buf c = buf @ render (columnTree c)"
  by (simp add: columnJSON_def columnTree_def field_texts appendString_out)

lemma bucketJSON_render: "bucketJSON idx buf v = buf @ memberText (v, bucketTree (mentry idx v))"
proof -
  have "commaLoop memberJSON 0 b ks = b @ commas (map (\<lambda>k. memberText (k, JObj [])) ks)" for b ks
  proof (rule commaLoop_commas)
    show "memberJSON b k = b @ memberText (k, JObj [])" for b k by (simp add: memberJSON_def memberText_def appendJSONString_append[of b])
  qed
  then show ?thesis by (simp add: bucketJSON_def bucketTree_def memberText_def membersText_commas comp_def appendJSONString_append[of buf])
qed

lemma indexJSON_render: "indexJSON ixs buf c = buf @ memberText (c, indexTree (mentry ixs c))"
proof -
  have "commaLoop (bucketJSON idx) 0 b vs = b @ commas (map (\<lambda>v. memberText (v, bucketTree (mentry idx v))) vs)" for idx b vs
    by (rule commaLoop_commas) (rule bucketJSON_render)
  then show ?thesis by (simp add: indexJSON_def indexTree_def memberText_def membersText_commas comp_def appendJSONString_append[of buf])
qed

lemma appendTableJSON_render:
  assumes "cleanTable t"
  shows "appendTableJSON z buf t = buf @ render (tableTree z t)"
proof -
  have cols: "commaLoop columnJSON 0 b cs = b @ commas (map (\<lambda>c. render (columnTree c)) cs)" for b cs
    by (rule commaLoop_commas) (rule columnJSON_render)
  have rows: "commaLoop (rowJSON (Rows t)) 0 b (sort (mkeys (Rows t))) = b @ commas (map (\<lambda>k. memberText (k, cellsTree (mentry (Rows t) k))) (sort (mkeys (Rows t))))" for b
  proof (rule commaLoop_commas)
    fix b k assume "k \<in> set (sort (mkeys (Rows t)))"
    then have "cleanRow (mentry (Rows t) k)" using mentry_in[of k "Rows t"] assms by (auto simp: cleanTable_def list_all_iff)
    then show "rowJSON (Rows t) b k = b @ memberText (k, cellsTree (mentry (Rows t) k))"
      by (simp add: rowJSON_def memberText_def appendRowJSON_render appendJSONString_append[of b])
  qed
  have order: "commaLoop appendJSONString 0 b ks = b @ commas (map (appendJSONString []) ks)" for b ks
    by (rule commaLoop_commas) (rule appendJSONString_append)
  have ixs: "commaLoop (indexJSON (Indexes t)) 0 b cs = b @ commas (map (\<lambda>c. memberText (c, indexTree (mentry (Indexes t) c))) cs)" for b cs
    by (rule commaLoop_commas) (rule indexJSON_render)
  have names: "commaLoop (nameJSON (IndexNames t)) 0 b ns = b @ commas (map (\<lambda>n. memberText (n, JStr (mentry (IndexNames t) n))) ns)" for b ns
  proof (rule commaLoop_commas)
    show "nameJSON (IndexNames t) b n = b @ memberText (n, JStr (mentry (IndexNames t) n))" for b n
      by (simp add: nameJSON_def memberText_def appendString_out appendJSONString_append[of b])
  qed
  show ?thesis
    unfolding appendTableJSON_def Let_def cols rows order ixs names tableTree_def orNull_def
    by (simp add: field_texts appendString_out elementsText_commas membersText_commas comp_def memberText_def)
qed

definition cleanDatabase :: "database \<Rightarrow> bool" where
  "cleanDatabase d \<longleftrightarrow> mwf (Tables d) \<and> list_all (\<lambda>(n, t). validUTF8 n \<and> cleanTable t) (Tables d)"

lemma appendDatabaseJSON_render:
  assumes "cleanDatabase d"
  shows "appendDatabaseJSON nilTables z buf d = buf @ render (databaseTree nilTables z d)"
proof -
  have "commaLoop (tableEntryJSON z (Tables d)) 0 b (sort (mkeys (Tables d))) =
      b @ commas (map (\<lambda>n. memberText (n, tableTree (z n) (mentry (Tables d) n))) (sort (mkeys (Tables d))))" for b
  proof (rule commaLoop_commas)
    fix b n assume "n \<in> set (sort (mkeys (Tables d)))"
    then have "cleanTable (mentry (Tables d) n)" using mentry_in[of n "Tables d"] assms by (auto simp: cleanDatabase_def list_all_iff)
    then show "tableEntryJSON z (Tables d) b n = b @ memberText (n, tableTree (z n) (mentry (Tables d) n))"
      by (simp add: tableEntryJSON_def memberText_def appendTableJSON_render appendJSONString_append[of b])
  qed
  then show ?thesis by (simp add: appendDatabaseJSON_def databaseTree_def orNull_def field_texts membersText_commas comp_def Let_def memberText_def)
qed

lemma cellsTree_ok: "cleanRow row \<Longrightarrow> 1 \<le> d \<Longrightarrow> okJson d (cellsTree row)"
  using cleanRow_cell[of row] by (auto simp: cellsTree_def okMembers_iff list_all_iff valueTree_ok)

lemma indexTree_ok:
  assumes "mwf idx" "list_all (\<lambda>(v, ks). validUTF8 v \<and> list_all validUTF8 ks) idx" "3 \<le> d"
  shows "okJson d (indexTree idx)"
proof -
  have "validUTF8 v \<and> list_all validUTF8 (mentry idx v)" if "v \<in> set (mkeys idx)" for v
    using mentry_in[OF that] assms(2) by (auto simp: list_all_iff)
  then show ?thesis using assms(3) by (auto simp: indexTree_def bucketTree_def okMembers_iff list_all_iff)
qed

lemma orNull_ok: "okJson d j \<Longrightarrow> okJson d (orNull n j)"
  by (simp add: orNull_def)

lemma okJson_map: "1 \<le> d \<Longrightarrow> (\<And>k. k \<in> set ks \<Longrightarrow> validUTF8 k \<and> okJson (d - 1) (g k)) \<Longrightarrow> okJson d (JObj (map (\<lambda>k. (k, g k)) ks))"
  by (auto simp: okMembers_iff list_all_iff)

lemma tableTree_ok:
  assumes c: "cleanTable t" and d: "5 \<le> d"
  shows "okJson d (tableTree z t)"
proof -
  have rows: "okJson (d - 1) (JObj (map (\<lambda>k. (k, cellsTree (mentry (Rows t) k))) (sort (mkeys (Rows t)))))"
  proof (rule okJson_map)
    fix k assume "k \<in> set (sort (mkeys (Rows t)))"
    then show "validUTF8 k \<and> okJson (d - 1 - 1) (cellsTree (mentry (Rows t) k))"
      using mentry_in[of k "Rows t"] c d by (auto simp: cleanTable_def list_all_iff intro: cellsTree_ok)
  qed (use d in simp)
  have ixs: "okJson (d - 1) (JObj (map (\<lambda>c. (c, indexTree (mentry (Indexes t) c))) (sort (mkeys (Indexes t)))))"
  proof (rule okJson_map)
    fix k assume "k \<in> set (sort (mkeys (Indexes t)))"
    then show "validUTF8 k \<and> okJson (d - 1 - 1) (indexTree (mentry (Indexes t) k))"
      using mentry_in[of k "Indexes t"] c d by (auto simp: cleanTable_def list_all_iff intro!: indexTree_ok)
  qed (use d in simp)
  have names: "okJson (d - 1) (JObj (map (\<lambda>n. (n, JStr (mentry (IndexNames t) n))) (sort (mkeys (IndexNames t)))))"
  proof (rule okJson_map)
    fix k assume "k \<in> set (sort (mkeys (IndexNames t)))"
    then show "validUTF8 k \<and> okJson (d - 1 - 1) (JStr (mentry (IndexNames t) k))"
      using mentry_in[of k "IndexNames t"] c by (auto simp: cleanTable_def list_all_iff)
  qed (use d in simp)
  have cols: "okJson (d - 1) (JArr (map columnTree (Columns t)))"
    using c d by (auto simp: cleanTable_def okElements_iff list_all_iff columnTree_def valid_ascii)
  have order: "okJson (d - 1) (JArr (map JStr (Order t)))" using c d by (auto simp: cleanTable_def okElements_iff list_all_iff)
  have name: "validUTF8 (tName t)" using c by (simp add: cleanTable_def)
  show ?thesis unfolding tableTree_def using d name cols orNull_ok[OF rows, of "nilRows z"] orNull_ok[OF order, of "nilOrder z"]
      orNull_ok[OF ixs, of "nilIndexes z"] orNull_ok[OF names, of "nilNames z"]
    by (simp add: valid_ascii del: okJson.simps(5))
qed

lemma databaseTree_ok:
  assumes "cleanDatabase d"
  shows "okJson maxNestingDepth (databaseTree nilTables z d)"
proof -
  have "okJson 9999 (JObj (map (\<lambda>n. (n, tableTree (z n) (mentry (Tables d) n))) (sort (mkeys (Tables d)))))"
  proof (rule okJson_map)
    fix k assume "k \<in> set (sort (mkeys (Tables d)))"
    then show "validUTF8 k \<and> okJson (9999 - 1) (tableTree (z k) (mentry (Tables d) k))"
      using mentry_in[of k "Tables d"] assms by (auto simp: cleanDatabase_def list_all_iff intro: tableTree_ok)
  qed simp
  then show ?thesis using orNull_ok by (simp add: databaseTree_def maxNestingDepth_def valid_ascii del: okMembers.simps) (simp add: valid_ascii)
qed

section \<open>The decoded image\<close>

text \<open>
  \<^verbatim>\<open>encoding/json\<close> on a \<^verbatim>\<open>databaseImage\<close>: an object becomes a map, the last of two members of the same key
  wins, and null becomes nil. A member is bound to the struct field of that name, or else to the field whose name it folds
  to, and ignored when there is none; a field without a member, or with null, keeps its zero value. Two approximations: of
  two members for one field the last is taken, where \<^verbatim>\<open>encoding/json\<close> decodes into the same field twice, and a cell
  that is an array or an object is an error. \<^verbatim>\<open>MarshalJSON\<close> writes neither.
\<close>

definition fieldAmong :: "string list \<Rightarrow> string \<Rightarrow> string option" where
  "fieldAmong names key = (if key \<in> set names then Some key else find (EqualFold (foldLetters key)) names)"

definition memberFor :: "string list \<Rightarrow> (string \<times> json) list \<Rightarrow> string \<Rightarrow> json" where
  "memberFor names ms field = (case find (\<lambda>(k, v). fieldAmong names k = Some field) (rev ms) of None \<Rightarrow> JNull | Some (k, v) \<Rightarrow> v)"

lemma fieldAmong_exact: "key \<in> set names \<Longrightarrow> fieldAmong names key = Some key"
  by (simp add: fieldAmong_def)

definition objectMap :: "('k \<times> 'v) list \<Rightarrow> ('k, 'v) gomap" where
  "objectMap ms = fold (\<lambda>(k, v) m. mset_at m k v) ms []"

fun jstr :: "json \<Rightarrow> string option" where
  "jstr (JStr s) = Some s"
| "jstr JNull = Some []"
| "jstr _ = None"

fun jflag :: "json \<Rightarrow> bool option" where
  "jflag (JBool b) = Some b"
| "jflag JNull = Some False"
| "jflag _ = None"

fun jempty :: "json \<Rightarrow> unit option" where
  "jempty (JObj ms) = Some ()"
| "jempty JNull = Some ()"
| "jempty _ = None"

fun jcell :: "json \<Rightarrow> cell option" where
  "jcell JNull = Some (Plain VNil)"
| "jcell (JBool b) = Some (Plain (VBool b))"
| "jcell (JNum u) = Some (Number u)"
| "jcell (JStr s) = Some (Plain (VStr s))"
| "jcell _ = None"

text \<open>The members of an object, each read by \<open>f\<close>.\<close>

definition jmembersOf :: "(json \<Rightarrow> 'a option) \<Rightarrow> (string \<times> json) list \<Rightarrow> (string, 'a) gomap option" where
  "jmembersOf f ms = map_option objectMap (those (map (\<lambda>(k, v). map_option (Pair k) (f v)) ms))"

fun jmap :: "(json \<Rightarrow> 'a option) \<Rightarrow> json \<Rightarrow> (string, 'a) gomap option option" where
  "jmap f JNull = Some None"
| "jmap f (JObj ms) = map_option Some (jmembersOf f ms)"
| "jmap f _ = None"

fun jlist :: "(json \<Rightarrow> 'a option) \<Rightarrow> json \<Rightarrow> 'a list option" where
  "jlist f JNull = Some []"
| "jlist f (JArr vs) = those (map f vs)"
| "jlist f _ = None"

definition columnFields :: "string list" where
  "columnFields = [''Name'', ''Type'', ''Primary'']"

definition jcolumnOf :: "(string \<times> json) list \<Rightarrow> column option" where
  "jcolumnOf ms =
     (case (jstr (memberFor columnFields ms ''Name''), jstr (memberFor columnFields ms ''Type''), jflag (memberFor columnFields ms ''Primary'')) of
        (Some n, Some t, Some p) \<Rightarrow> Some \<lparr>cName = n, cType = typeOf t, cPrimary = p\<rparr>
      | _ \<Rightarrow> None)"

fun jcolumn :: "json \<Rightarrow> column option" where
  "jcolumn (JObj ms) = jcolumnOf ms"
| "jcolumn JNull = jcolumnOf []"
| "jcolumn _ = None"

definition tableFields :: "string list" where
  "tableFields = [''Name'', ''Columns'', ''Rows'', ''Order'', ''Indexes'', ''IndexNames'']"

fun jtable :: "json \<Rightarrow> tableImage option option" where
  "jtable JNull = Some None"
| "jtable (JObj ms) =
     (case (jstr (memberFor tableFields ms ''Name''), jlist jcolumn (memberFor tableFields ms ''Columns''), jmap (jmap jcell) (memberFor tableFields ms ''Rows''),
            jlist jstr (memberFor tableFields ms ''Order''), jmap (jmap (jmap jempty)) (memberFor tableFields ms ''Indexes''),
            jmap jstr (memberFor tableFields ms ''IndexNames'')) of
        (Some n, Some cs, Some rs, Some os, Some is, Some ns) \<Rightarrow>
          Some (Some \<lparr>imName = n, imColumns = cs, imRows = rs, imOrder = os, imIndexes = map_option mkeys is, imIndexNames = ns\<rparr>)
      | _ \<Rightarrow> None)"
| "jtable _ = None"

definition decodeImage :: "string \<Rightarrow> databaseImage res" where
  "decodeImage b =
     (case decodeJson b of
        Some (JObj ms) \<Rightarrow> (case jmap jtable (memberFor [''Tables''] ms ''Tables'') of None \<Rightarrow> Inl (Msg ''json'') | Some img \<Rightarrow> Inr img)
      | Some JNull \<Rightarrow> Inr None
      | _ \<Rightarrow> Inl (Msg ''json''))"

lemma those_map: "(\<And>x. x \<in> set xs \<Longrightarrow> f (g x) = Some (h x)) \<Longrightarrow> those (map f (map g xs)) = Some (map h xs)"
  by (induction xs) auto

lemma objectMap_distinct: "distinct (map fst ms) \<Longrightarrow> objectMap ms = ms"
proof -
  have "distinct (map fst (acc @ ms)) \<Longrightarrow> fold (\<lambda>(k, v) m. mset_at m k v) ms acc = acc @ ms" for acc
  proof (induction ms arbitrary: acc)
    case (Cons p ms)
    have "mset_at acc (fst p) (snd p) = acc @ [p]" if "fst p \<notin> fst ` set acc" using that by (induction acc) auto
    then show ?case using Cons by (cases p) auto
  qed simp
  from this[of "[]"] show "distinct (map fst ms) \<Longrightarrow> objectMap ms = ms" by (simp add: objectMap_def)
qed

lemma jmembersOf_map:
  assumes "\<And>k. k \<in> set ks \<Longrightarrow> f (g k) = Some (h k)" "distinct ks"
  shows "jmembersOf f (map (\<lambda>k. (k, g k)) ks) = Some (map (\<lambda>k. (k, h k)) ks)"
proof -
  have "those (map (\<lambda>(k, v). map_option (Pair k) (f v)) (map (\<lambda>k. (k, g k)) ks)) = Some (map (\<lambda>k. (k, h k)) ks)"
    by (rule those_map) (simp add: assms(1))
  then show ?thesis using objectMap_distinct[of "map (\<lambda>k. (k, h k)) ks"] assms(2) by (simp add: jmembersOf_def comp_def)
qed

lemma jmap_orNull:
  assumes "\<And>k. k \<in> set ks \<Longrightarrow> f (g k) = Some (h k)" "distinct ks"
  shows "jmap f (orNull z (JObj (map (\<lambda>k. (k, g k)) ks))) = Some (if z then None else Some (map (\<lambda>k. (k, h k)) ks))"
proof -
  have "jmembersOf f (map (\<lambda>k. (k, g k)) ks) = Some (map (\<lambda>k. (k, h k)) ks)" using assms by (rule jmembersOf_map)
  then show ?thesis by (simp add: orNull_def)
qed

definition cellImage :: "goval \<Rightarrow> cell" where
  "cellImage v = (case valueTree v of JNum u \<Rightarrow> Number u | _ \<Rightarrow> Plain v)"

definition rowImage :: "row \<Rightarrow> (string, cell) gomap" where
  "rowImage row = map (\<lambda>k. (k, cellImage (rget row k))) (sort (mkeys row))"

definition tableImageOf :: "nils \<Rightarrow> table \<Rightarrow> tableImage" where
  "tableImageOf z t =
     \<lparr>imName = tName t, imColumns = Columns t,
      imRows = (if nilRows z then None else Some (map (\<lambda>k. (k, Some (rowImage (mentry (Rows t) k)))) (sort (mkeys (Rows t))))),
      imOrder = (if nilOrder z then [] else Order t),
      imIndexes = (if nilIndexes z then None else Some (sort (mkeys (Indexes t)))),
      imIndexNames = (if nilNames z then None else Some (map (\<lambda>n. (n, mentry (IndexNames t) n)) (sort (mkeys (IndexNames t)))))\<rparr>"

lemma jcell_image: "cleanVal v \<Longrightarrow> jcell (valueTree v) = Some (cellImage v)"
  by (cases v) (auto simp: cellImage_def cleanVal_def)

lemma jmap_cells: "cleanRow row \<Longrightarrow> jmap jcell (cellsTree row) = Some (Some (rowImage row))"
proof -
  assume c: "cleanRow row"
  have "jmembersOf jcell (map (\<lambda>k. (k, valueTree (rget row k))) (sort (mkeys row))) = Some (rowImage row)"
    unfolding rowImage_def by (rule jmembersOf_map) (use c cleanRow_cell[OF c] jcell_image in \<open>auto simp: cleanRow_def\<close>)
  then show ?thesis by (simp add: cellsTree_def)
qed

text \<open>The sets of an index, as the decoder has them.\<close>

definition bucketShape :: "string list \<Rightarrow> (string, unit) gomap option" where
  "bucketShape members = Some (objectMap (map (\<lambda>k. (k, ())) (sort members)))"

definition indexShape :: "(string, string list) gomap \<Rightarrow> (string, (string, unit) gomap option) gomap option" where
  "indexShape idx = Some (map (\<lambda>v. (v, bucketShape (mentry idx v))) (sort (mkeys idx)))"

lemma jmap_bucket: "jmap jempty (bucketTree members) = Some (bucketShape members)"
proof -
  have "those (map (\<lambda>(k, v). map_option (Pair k) (jempty v)) (map (\<lambda>k. (k, JObj [])) (sort members))) = Some (map (\<lambda>k. (k, ())) (sort members))"
    by (rule those_map) simp
  then show ?thesis by (simp add: bucketTree_def bucketShape_def jmembersOf_def)
qed

lemma jmap_index: "mwf idx \<Longrightarrow> jmap (jmap jempty) (indexTree idx) = Some (indexShape idx)"
  using jmembersOf_map[of "sort (mkeys idx)" "jmap jempty" "\<lambda>v. bucketTree (mentry idx v)" "\<lambda>v. bucketShape (mentry idx v)"]
  by (simp add: jmap_bucket indexTree_def indexShape_def)

lemma jtable_image:
  assumes c: "cleanTable t"
  shows "jtable (tableTree z t) = Some (Some (tableImageOf z t))"
proof -
  have cols: "jlist jcolumn (JArr (map columnTree (Columns t))) = Some (Columns t)"
    using those_map[of "Columns t" jcolumn columnTree "\<lambda>c. c"] c
    by (simp add: cleanTable_def list_all_iff columnTree_def jcolumnOf_def memberFor_def columnFields_def fieldAmong_exact)
  have rows: "jmap (jmap jcell) (orNull (nilRows z) (JObj (map (\<lambda>k. (k, cellsTree (mentry (Rows t) k))) (sort (mkeys (Rows t)))))) =
      Some (if nilRows z then None else Some (map (\<lambda>k. (k, Some (rowImage (mentry (Rows t) k)))) (sort (mkeys (Rows t)))))"
  proof (rule jmap_orNull)
    fix k assume "k \<in> set (sort (mkeys (Rows t)))"
    then have "cleanRow (mentry (Rows t) k)" using mentry_in[of k "Rows t"] c by (auto simp: cleanTable_def list_all_iff)
    then show "jmap jcell (cellsTree (mentry (Rows t) k)) = Some (Some (rowImage (mentry (Rows t) k)))" by (rule jmap_cells)
  qed (use c in \<open>simp add: cleanTable_def\<close>)
  have order: "jlist jstr (orNull (nilOrder z) (JArr (map JStr (Order t)))) = Some (if nilOrder z then [] else Order t)"
    using those_map[of "Order t" jstr JStr "\<lambda>c. c"] by (simp add: orNull_def)
  have ixs: "jmap (jmap (jmap jempty)) (orNull (nilIndexes z) (JObj (map (\<lambda>c. (c, indexTree (mentry (Indexes t) c))) (sort (mkeys (Indexes t)))))) =
      Some (if nilIndexes z then None else Some (map (\<lambda>c. (c, indexShape (mentry (Indexes t) c))) (sort (mkeys (Indexes t)))))"
  proof (rule jmap_orNull)
    fix c0 assume "c0 \<in> set (sort (mkeys (Indexes t)))"
    then have "mwf (mentry (Indexes t) c0)" using mentry_in[of c0 "Indexes t"] c by (auto simp: cleanTable_def list_all_iff)
    then show "jmap (jmap jempty) (indexTree (mentry (Indexes t) c0)) = Some (indexShape (mentry (Indexes t) c0))" by (rule jmap_index)
  qed (use c in \<open>simp add: cleanTable_def\<close>)
  have names: "jmap jstr (orNull (nilNames z) (JObj (map (\<lambda>n. (n, JStr (mentry (IndexNames t) n))) (sort (mkeys (IndexNames t)))))) =
      Some (if nilNames z then None else Some (map (\<lambda>n. (n, mentry (IndexNames t) n)) (sort (mkeys (IndexNames t)))))"
    by (rule jmap_orNull) (use c in \<open>simp_all add: cleanTable_def\<close>)
  show ?thesis
    by (simp add: tableTree_def tableImageOf_def memberFor_def tableFields_def fieldAmong_exact cols rows order ixs names comp_def del: jlist.simps jmap.simps)
qed

lemma decodeImage_written:
  assumes "cleanDatabase d"
  shows "decodeImage (MarshalJSON nilTables z d) =
    Inr (if nilTables then None else Some (map (\<lambda>n. (n, Some (tableImageOf (z n) (mentry (Tables d) n)))) (sort (mkeys (Tables d)))))"
proof -
  have "jmap jtable (orNull nilTables (JObj (map (\<lambda>n. (n, tableTree (z n) (mentry (Tables d) n))) (sort (mkeys (Tables d)))))) =
      Some (if nilTables then None else Some (map (\<lambda>n. (n, Some (tableImageOf (z n) (mentry (Tables d) n)))) (sort (mkeys (Tables d)))))"
  proof (rule jmap_orNull)
    fix n assume "n \<in> set (sort (mkeys (Tables d)))"
    then have "cleanTable (mentry (Tables d) n)" using mentry_in[of n "Tables d"] assms by (auto simp: cleanDatabase_def list_all_iff)
    then show "jtable (tableTree (z n) (mentry (Tables d) n)) = Some (Some (tableImageOf (z n) (mentry (Tables d) n)))" by (rule jtable_image)
  qed (use assms in \<open>simp add: cleanDatabase_def\<close>)
  moreover have "decodeJson (MarshalJSON nilTables z d) = Some (databaseTree nilTables z d)"
    using decodeJson_render[OF databaseTree_ok[OF assms]] appendDatabaseJSON_render[OF assms] by (simp add: MarshalJSON_def)
  ultimately show ?thesis by (simp add: decodeImage_def databaseTree_def memberFor_def fieldAmong_exact)
qed

section \<open>A restored table is the table that was written\<close>

text \<open>The text of every float of the table parses to the float again.\<close>

definition readsBack :: "goval \<Rightarrow> bool" where
  "readsBack v = (case v of VFloat f \<Rightarrow> (case marshalFloat f of Inl e \<Rightarrow> False | Inr u \<Rightarrow> parseVal u TFloat = Inr (VFloat f)) | _ \<Rightarrow> True)"

definition floatsReadBack :: "table \<Rightarrow> bool" where
  "floatsReadBack t \<longleftrightarrow> list_all (\<lambda>(k, row). list_all (\<lambda>(c, v). readsBack v) row) (Rows t)"

lemma typed_cell_reads_back:
  assumes "typedVal ct v" "readsBack v" "cellImage v = Number u"
  shows "parseVal u ct = Inr v"
  using assms ParseInt_FormatInt
  by (cases v) (auto simp: typedVal_def readsBack_def cellImage_def parseVal_def FormatInt_trim FormatInt_not_NULL Let_def split: sum.splits)

lemma mget_rowImage: "mget (rowImage row) k = (if mhas row k then Some (cellImage (rget row k)) else None)"
  by (auto simp: rowImage_def map_of_map_restrict restrict_map_def map_of_eq_None_iff)

lemma mget_sorted: "mget (map (\<lambda>k. (k, h k)) (sort (mkeys m))) k = (if mhas m k then Some (h k) else None)"
  by (auto simp: map_of_map_restrict restrict_map_def map_of_eq_None_iff)

lemma mset_at_absent_keys: "mhas m k \<Longrightarrow> mkeys (mset_at m k v) = mkeys m"
  by (simp add: mkeys_update_present)

lemma restoreCells_ok:
  assumes "\<And>c n. c \<in> set cols \<Longrightarrow> mget r (cName c) = Some (Number n) \<Longrightarrow> parseVal n (cType c) = Inr (val (cName c))" "distinct (map cName cols)"
  shows "\<exists>r'. restoreCells name cols r = Inr r' \<and>
    (\<forall>k. mget r' k = (case mget r k of Some (Number n) \<Rightarrow> Some (if k \<in> cName ` set cols then Plain (val k) else Number n) | x \<Rightarrow> x))"
  using assms
proof (induction cols arbitrary: r)
  case Nil
  then show ?case by (auto split: option.splits cell.splits)
next
  case (Cons c cols)
  show ?case
  proof (cases "\<exists>n. mget r (cName c) = Some (Number n)")
    case False
    have "restoreCells name (c # cols) r = restoreCells name cols r" using False by (auto split: option.splits cell.splits)
    moreover obtain r' where r': "restoreCells name cols r = Inr r'"
      "\<forall>k. mget r' k = (case mget r k of Some (Number n) \<Rightarrow> Some (if k \<in> cName ` set cols then Plain (val k) else Number n) | x \<Rightarrow> x)"
      using Cons.IH[of r] Cons.prems by auto
    ultimately show ?thesis using False by (intro exI[of _ r']) (auto split: option.splits cell.splits)
  next
    case True
    then obtain n where n: "mget r (cName c) = Some (Number n)" by blast
    then have v: "parseVal n (cType c) = Inr (val (cName c))" using Cons.prems(1) by simp
    let ?r = "mset_at r (cName c) (Plain (val (cName c)))"
    have "parseVal m (cType ca) = Inr (val (cName ca))" if "ca \<in> set cols" "mget ?r (cName ca) = Some (Number m)" for ca m
      using that Cons.prems(1)[of ca m] by (auto simp: gomap_simps split: if_splits)
    then obtain r' where r': "restoreCells name cols ?r = Inr r'"
      "\<forall>k. mget r' k = (case mget ?r k of Some (Number n) \<Rightarrow> Some (if k \<in> cName ` set cols then Plain (val k) else Number n) | x \<Rightarrow> x)"
      using Cons.IH[of ?r] Cons.prems(2) by auto
    have "restoreCells name (c # cols) r = Inr r'" using n v r'(1) by simp
    then show ?thesis using n r'(2) by (auto simp: gomap_simps split: option.splits cell.splits)
  qed
qed

lemma restoreCells_keys: "restoreCells name cols r = Inr r' \<Longrightarrow> mkeys r' = mkeys r"
proof (induction name cols r rule: restoreCells.induct)
  case (2 name col cols row)
  show ?case
  proof (cases "\<exists>n. mget row (cName col) = Some (Number n)")
    case True
    then obtain n where n: "mget row (cName col) = Some (Number n)" by blast
    then obtain v where v: "parseVal n (cType col) = Inr v" using "2.prems" by (auto split: sum.splits)
    then have "mkeys r' = mkeys (mset_at row (cName col) (Plain v))" using "2.IH"(2)[OF n refl v] "2.prems" n by simp
    then show ?thesis using n mset_at_absent_keys[of row "cName col" "Plain v"] by simp
  next
    case False
    then show ?thesis using 2 by (auto split: option.splits cell.splits)
  qed
qed simp

lemma mkeys_rowImage: "mkeys (rowImage row) = sort (mkeys row)"
  by (simp add: rowImage_def comp_def)

lemma rget_plain: "rget (mmap (\<lambda>_. plainCell) r) k = (case mget r k of None \<Rightarrow> VNil | Some c \<Rightarrow> plainCell c)"
  by (auto simp: rget_def gomap_simps split: option.splits)

definition sameCells :: "column list \<Rightarrow> row \<Rightarrow> row \<Rightarrow> bool" where
  "sameCells cols row row' \<longleftrightarrow> (\<forall>c\<in>set cols. rget row' (cName c) = rget row (cName c))"

lemma restoreRow_same:
  assumes "typedRow cols row" "\<And>c v. (c, v) \<in> set row \<Longrightarrow> readsBack v" "distinct (map cName cols)"
  shows "\<exists>r'. restoreCells name cols (rowImage row) = Inr r' \<and> sameCells cols row (mmap (\<lambda>_. plainCell) r')"
proof -
  have pback: "parseVal n (cType c) = Inr (rget row (cName c))" if "c \<in> set cols" "mget (rowImage row) (cName c) = Some (Number n)" for c n
  proof -
    have has: "mhas row (cName c)" and im: "cellImage (rget row (cName c)) = Number n" using that(2) by (auto simp: mget_rowImage split: if_splits)
    then obtain y where y: "mget row (cName c) = Some y" by blast
    then have "readsBack (rget row (cName c))" using assms(2)[OF map_of_SomeD[OF y]] by (simp add: rget_def)
    moreover have "typedVal (cType c) (rget row (cName c))" using assms(1) that(1) by (simp add: typedRow_def)
    ultimately show ?thesis using typed_cell_reads_back im by blast
  qed
  obtain r' where r': "restoreCells name cols (rowImage row) = Inr r'"
    "\<forall>k. mget r' k = (case mget (rowImage row) k of Some (Number n) \<Rightarrow> Some (if k \<in> cName ` set cols then Plain (rget row k) else Number n) | x \<Rightarrow> x)"
    using restoreCells_ok[of cols "rowImage row" "rget row" name] pback assms(3) by blast
  have "rget (mmap (\<lambda>_. plainCell) r') (cName c) = rget row (cName c)" if "c \<in> set cols" for c
  proof (cases "mhas row (cName c)")
    case True
    have "w = v" if "cellImage v = Plain w" for v w using that by (auto simp: cellImage_def split: json.splits)
    then show ?thesis using r'(2) True that by (auto simp: rget_plain mget_rowImage plainCell_def split: cell.splits)
  next
    case False
    then show ?thesis using r'(2) by (auto simp: rget_plain mget_rowImage rget_def[of row])
  qed
  then show ?thesis using r'(1) by (auto simp: sameCells_def)
qed

lemma restoreRows_same:
  assumes "\<And>k. k \<in> set ks \<Longrightarrow> typedRow cols (g k) \<and> (\<forall>(c, v)\<in>set (g k). readsBack v)" "distinct (map cName cols)"
  shows "\<exists>rows'. restoreRows name cols (map (\<lambda>k. (k, Some (rowImage (g k)))) ks) = Inr rows' \<and> mkeys rows' = ks \<and>
    (\<forall>k row'. (k, row') \<in> set rows' \<longrightarrow> sameCells cols (g k) row' \<and> mkeys row' = sort (mkeys (g k)))"
  using assms(1)
proof (induction ks)
  case (Cons k ks)
  obtain r' where r': "restoreCells name cols (rowImage (g k)) = Inr r'" "sameCells cols (g k) (mmap (\<lambda>_. plainCell) r')"
    using restoreRow_same[of cols "g k" name] Cons.prems assms(2) by fastforce
  moreover have "mkeys (mmap (\<lambda>_. plainCell) r') = sort (mkeys (g k))" using restoreCells_keys[OF r'(1)] by (simp add: mkeys_rowImage)
  moreover obtain rows' where "restoreRows name cols (map (\<lambda>k. (k, Some (rowImage (g k)))) ks) = Inr rows'" "mkeys rows' = ks"
      "\<forall>k row'. (k, row') \<in> set rows' \<longrightarrow> sameCells cols (g k) row' \<and> mkeys row' = sort (mkeys (g k))" using Cons.IH[OF Cons.prems] by auto
  ultimately show ?case by auto
qed simp

lemma restored_row:
  assumes "sameCells cols row row'" "mkeys row' = sort (mkeys row)" "cleanRow row" "set (mkeys row) \<subseteq> cName ` set cols"
  shows "cleanRow row'" "typedRow cols row \<Longrightarrow> typedRow cols row'" "\<forall>(c, v)\<in>set row. readsBack v \<Longrightarrow> \<forall>(c, v)\<in>set row'. readsBack v"
proof -
  have cell: "c \<in> set (mkeys row) \<and> v = rget row c \<and> (c, v) \<in> set row" if m: "(c, v) \<in> set row'" for c v
  proof -
    have d: "mwf row'" using assms(2,3) by (simp add: cleanRow_def)
    have c: "c \<in> set (mkeys row)" using assms(2) m by (metis fst_conv image_eqI set_map set_sort)
    have "v = rget row' c" using m d by (simp add: rget_def map_of_is_SomeI)
    moreover have "rget row' c = rget row c" using assms(1,4) c by (auto simp: sameCells_def)
    ultimately show ?thesis using c mentry_in[OF c] rget_mentry[OF c] by simp
  qed
  show "cleanRow row'" using cell cleanRow_cell[OF assms(3)] assms(2,3) by (fastforce simp: cleanRow_def list_all_iff)
  show "typedRow cols row \<Longrightarrow> typedRow cols row'" using assms(1) by (simp add: typedRow_def sameCells_def)
  show "\<forall>(c, v)\<in>set row. readsBack v \<Longrightarrow> \<forall>(c, v)\<in>set row'. readsBack v" using cell by blast
qed

lemma keepOnce_distinct: "distinct ks \<Longrightarrow> set seen \<inter> set ks = {} \<Longrightarrow> keepOnce rows seen ks = filter (\<lambda>k. mhas rows k) ks"
  by (induction ks arbitrary: seen) auto

lemma restoreOrder_live:
  assumes "distinct order" "\<And>k. mhas rows k \<Longrightarrow> k \<in> set order"
  shows "restoreOrder rows order = filter (\<lambda>k. mhas rows k) order"
proof -
  have "filter (\<lambda>k. k \<notin> set (filter (\<lambda>k. mhas rows k) order)) (mkeys rows) = []"
    using assms(2) by (auto simp: filter_empty_conv map_of_eq_None_iff)
  then show ?thesis using keepOnce_distinct[OF assms(1), of "[]" rows] by (simp add: restoreOrder_def Let_def del: set_filter)
qed

section \<open>Indexes are rebuilt from the rows\<close>

lemma fold_add_frame:
  "\<exists>ix. fold (\<lambda>(key, row). addIndexValue c (valueKey (rget row c)) key) rs t = t\<lparr>Indexes := ix\<rparr> \<and> mkeys ix = mkeys (Indexes t)"
proof (induction rs arbitrary: t)
  case Nil
  show ?case by (intro exI[of _ "Indexes t"]) simp
next
  case (Cons p rs)
  obtain key row where p: "p = (key, row)" by fastforce
  let ?t = "addIndexValue c (valueKey (rget row c)) key t"
  obtain ix where ix: "fold (\<lambda>(key, row). addIndexValue c (valueKey (rget row c)) key) rs ?t = ?t\<lparr>Indexes := ix\<rparr>" "mkeys ix = mkeys (Indexes ?t)"
    using Cons by blast
  obtain iy where "?t = t\<lparr>Indexes := iy\<rparr>" using addIndexValue_upd by blast
  moreover have "mkeys (Indexes ?t) = mkeys (Indexes t)" by (rule mkeys_Indexes_add)
  ultimately show ?case using ix p by (intro exI[of _ ix]) simp
qed

lemma fold_add_buckets:
  "set (bucketOf (fold (\<lambda>(key, row). addIndexValue c (valueKey (rget row c)) key) rs t) c' v) =
     set (bucketOf t c' v) \<union> (if c' = c \<and> mhas (Indexes t) c then {k. \<exists>row. (k, row) \<in> set rs \<and> valueKey (rget row c) = v} else {})"
proof (induction rs arbitrary: t)
  case (Cons p rs)
  obtain key row where p: "p = (key, row)" by fastforce
  let ?t = "addIndexValue c (valueKey (rget row c)) key t"
  have "mhas (Indexes ?t) c \<longleftrightarrow> mhas (Indexes t) c" using mkeys_Indexes_add[of c "valueKey (rget row c)" key t] by (metis map_of_eq_None_iff set_map)
  then show ?case using Cons[of ?t] p by (auto simp: set_bucketOf_add)
qed simp

lemma fold_add_shape: "idx_shape t \<Longrightarrow> idx_shape (fold (\<lambda>(key, row). addIndexValue c (valueKey (rget row c)) key) rs t)"
  by (induction rs arbitrary: t) (auto intro: idx_shape_add)

lemma refillIndex_ok:
  assumes "idx_shape t" "mhas (Indexes t) c"
  shows "\<exists>ix. refillIndex c t = t\<lparr>Indexes := ix\<rparr> \<and> mkeys ix = mkeys (Indexes t)" "idx_shape (refillIndex c t)"
    "set (bucketOf (refillIndex c t) c' v) = (if c' = c then {k. \<exists>row. (k, row) \<in> set (Rows t) \<and> valueKey (rget row c) = v} else set (bucketOf t c' v))"
proof -
  let ?t = "t\<lparr>Indexes := mset_at (Indexes t) c []\<rparr>"
  have k: "mkeys (Indexes ?t) = mkeys (Indexes t)" using mkeys_update_present[OF assms(2)] by simp
  show "\<exists>ix. refillIndex c t = t\<lparr>Indexes := ix\<rparr> \<and> mkeys ix = mkeys (Indexes t)"
    using fold_add_frame[of c "Rows t" ?t] k by (auto simp: refillIndex_def)
  have "idx_shape ?t" using idx_shape_set[OF assms(1), of "[]"] by (simp add: idx_ok_def)
  then show "idx_shape (refillIndex c t)" unfolding refillIndex_def by (rule fold_add_shape)
  show "set (bucketOf (refillIndex c t) c' v) = (if c' = c then {k. \<exists>row. (k, row) \<in> set (Rows t) \<and> valueKey (rget row c) = v} else set (bucketOf t c' v))"
    unfolding refillIndex_def fold_add_buckets by (auto simp: bucketOf_def gomap_simps)
qed

lemma refillAll_ok:
  "idx_shape t \<Longrightarrow> set cs \<subseteq> set (mkeys (Indexes t)) \<Longrightarrow>
     (\<exists>ix. fold refillIndex cs t = t\<lparr>Indexes := ix\<rparr> \<and> mkeys ix = mkeys (Indexes t)) \<and> idx_shape (fold refillIndex cs t) \<and>
     (\<forall>c\<in>set cs. \<forall>v. set (bucketOf (fold refillIndex cs t) c v) = {k. \<exists>row. (k, row) \<in> set (Rows t) \<and> valueKey (rget row c) = v}) \<and>
     (\<forall>c. c \<notin> set cs \<longrightarrow> (\<forall>v. set (bucketOf (fold refillIndex cs t) c v) = set (bucketOf t c v)))"
proof (induction cs arbitrary: t)
  case Nil
  then show ?case by (auto intro: exI[of _ "Indexes t"])
next
  case (Cons c cs)
  have h: "mhas (Indexes t) c" using Cons.prems(2) by (auto simp: map_of_eq_None_iff)
  note r = refillIndex_ok[OF Cons.prems(1) h]
  obtain ix where ix: "refillIndex c t = t\<lparr>Indexes := ix\<rparr>" "mkeys ix = mkeys (Indexes t)" using r(1) by blast
  have "set cs \<subseteq> set (mkeys (Indexes (refillIndex c t)))" using Cons.prems(2) ix by auto
  note ih = Cons.IH[OF r(2) this]
  have rows: "Rows (refillIndex c t) = Rows t" using ix by simp
  obtain iy where iy: "fold refillIndex cs (refillIndex c t) = (refillIndex c t)\<lparr>Indexes := iy\<rparr>" "mkeys iy = mkeys (Indexes (refillIndex c t))"
    using ih by blast
  then have "fold refillIndex (c # cs) t = t\<lparr>Indexes := iy\<rparr> \<and> mkeys iy = mkeys (Indexes t)" using ix by simp
  moreover have "\<forall>c'\<in>set (c # cs). \<forall>v. set (bucketOf (fold refillIndex (c # cs) t) c' v) = {k. \<exists>row. (k, row) \<in> set (Rows t) \<and> valueKey (rget row c') = v}"
    using ih r(3) rows by (cases "c \<in> set cs") auto
  ultimately show ?case using ih r(3) by auto
qed

text \<open>Only an empty map or slice can be nil.\<close>

definition nilsFit :: "nils \<Rightarrow> table \<Rightarrow> bool" where
  "nilsFit z t \<longleftrightarrow> (nilRows z \<longrightarrow> Rows t = []) \<and> (nilOrder z \<longrightarrow> Order t = []) \<and> (nilIndexes z \<longrightarrow> Indexes t = []) \<and> (nilNames z \<longrightarrow> IndexNames t = [])"

text \<open>The same table, whatever the order of its maps: name, columns, live rows in order with their cells, indexes and their names.\<close>

definition sameTable :: "table \<Rightarrow> table \<Rightarrow> bool" where
  "sameTable t t' \<longleftrightarrow>
     tName t' = tName t \<and> Columns t' = Columns t \<and> live t' = live t \<and>
     (\<forall>k\<in>set (live t). sameCells (Columns t) (rowAt t k) (rowAt t' k)) \<and>
     (\<forall>c. mhas (Indexes t') c = mhas (Indexes t) c) \<and> mget (IndexNames t') = mget (IndexNames t)"

lemma primaryOf_column: "hasPrimaryColumn cs \<Longrightarrow> primaryOf cs \<in> cName ` set cs"
  by (induction cs) (auto split: if_splits)

text \<open>The table before its fast array is rebuilt: what the restore takes over and what it computes.\<close>

definition restoredFrom :: "table \<Rightarrow> table \<Rightarrow> bool" where
  "restoredFrom t t1 \<longleftrightarrow>
     tName t1 = tName t \<and> Columns t1 = Columns t \<and> mkeys (Rows t1) = sort (mkeys (Rows t)) \<and>
     (\<forall>k row'. (k, row') \<in> set (Rows t1) \<longrightarrow>
        sameCells (Columns t) (mentry (Rows t) k) row' \<and> mkeys row' = sort (mkeys (mentry (Rows t) k))) \<and>
     Order t1 = live t \<and> dead t1 = 0 \<and> wf_index t1 \<and> mkeys (Indexes t1) = sort (mkeys (Indexes t)) \<and>
     IndexNames t1 = map (\<lambda>n. (n, mentry (IndexNames t) n)) (sort (mkeys (IndexNames t)))"

lemma wf_index_idx: "wf_index t \<Longrightarrow> mget (Indexes t) c = Some idx \<Longrightarrow> idx_ok idx"
  unfolding wf_index_def idx_shape_def by blast

lemma refilled_wf_index:
  assumes "mwf rows" "distinct cs" "Rows t0 = rows" "Indexes t0 = map (\<lambda>c. (c, [])) cs"
  shows "wf_index (fold refillIndex cs t0) \<and> (\<exists>ix. fold refillIndex cs t0 = t0\<lparr>Indexes := ix\<rparr> \<and> mkeys ix = cs)"
proof -
  have none: "idx = []" if "mget (map (\<lambda>c. (c, [])) cs) c = Some idx" for c and idx :: "(string, string list) gomap"
    using map_of_SomeD[OF that] by auto
  have shape: "idx_shape t0" unfolding idx_shape_def assms(4)
  proof (intro conjI allI impI)
    show "mwf (map (\<lambda>c. (c, [])) cs)" using assms(2) by (simp add: comp_def)
    show "idx_ok idx" if "mget (map (\<lambda>c. (c, [])) cs) c = Some idx" for c idx using none[OF that] by (simp add: idx_ok_def)
  qed
  have keys: "mkeys (Indexes t0) = cs" by (simp add: assms(4) comp_def)
  note filled = refillAll_ok[OF shape, of cs, unfolded keys, OF subset_refl]
  obtain ix where ix: "fold refillIndex cs t0 = t0\<lparr>Indexes := ix\<rparr>" "mkeys ix = cs" using filled by blast
  have "k \<in> set (bucketOf (fold refillIndex cs t0) c v) \<longleftrightarrow> (\<exists>row. mget rows k = Some row \<and> valueKey (rget row c) = v)"
    if "mhas (Indexes (fold refillIndex cs t0)) c" for c v k
  proof -
    have "Indexes (fold refillIndex cs t0) = ix" by (simp add: ix(1))
    then have "c \<in> set cs" using that ix(2) by (auto simp: map_of_eq_None_iff simp flip: set_map)
    then have "set (bucketOf (fold refillIndex cs t0) c v) = {k. \<exists>row. (k, row) \<in> set rows \<and> valueKey (rget row c) = v}"
      using filled assms(3) by blast
    then show ?thesis using map_of_eq_Some_iff[OF assms(1)] by auto
  qed
  moreover have "Rows (fold refillIndex cs t0) = rows" by (simp add: ix(1) assms(3))
  ultimately have "wf_index (fold refillIndex cs t0)" using filled unfolding wf_index_def by blast
  then show ?thesis using ix by blast
qed

lemma restoreTable_form:
  assumes wf: "wf_table t" and ty: "typed_table t" and fl: "floatsReadBack t" and nl: "nilsFit z t"
  shows "\<exists>t1. restoreTable name (tableImageOf z t) = Inr (rebuildFastPathLocked t1) \<and> restoredFrom t t1"
proof -
  let ?im = "tableImageOf z t" and ?ks = "sort (mkeys (Rows t))" and ?cs = "sort (mkeys (Indexes t))"
  let ?names = "map (\<lambda>n. (n, mentry (IndexNames t) n)) (sort (mkeys (IndexNames t)))"
  have wr: "wf_rows t" and wc: "wf_columns (Columns t)" and wx: "wf_index t" using wf by (auto simp: wf_table_def)
  have im: "imName ?im = tName t" "imColumns ?im = Columns t" "imOrder ?im = Order t" "(case imIndexes ?im of None \<Rightarrow> [] | Some cs \<Rightarrow> cs) = ?cs"
      "(case imRows ?im of None \<Rightarrow> [] | Some rows \<Rightarrow> rows) = map (\<lambda>k. (k, Some (rowImage (mentry (Rows t) k)))) ?ks"
      "(case imIndexNames ?im of None \<Rightarrow> [] | Some names \<Rightarrow> names) = ?names"
    using nl by (auto simp: tableImageOf_def nilsFit_def)
  have "typedRow (Columns t) (mentry (Rows t) k) \<and> (\<forall>(c, v)\<in>set (mentry (Rows t) k). readsBack v)" if "k \<in> set ?ks" for k
    using that mget_mentry[of k "Rows t"] mentry_in[of k "Rows t"] ty fl by (auto simp: typed_table_def floatsReadBack_def list_all_iff)
  then obtain rows' where r': "restoreRows name (Columns t) (map (\<lambda>k. (k, Some (rowImage (mentry (Rows t) k)))) ?ks) = Inr rows'" "mkeys rows' = ?ks"
      "\<forall>k row'. (k, row') \<in> set rows' \<longrightarrow> sameCells (Columns t) (mentry (Rows t) k) row' \<and> mkeys row' = sort (mkeys (mentry (Rows t) k))"
    using restoreRows_same[of ?ks "Columns t" "mentry (Rows t)" name] wc by (auto simp: wf_columns_def)
  have has: "mhas rows' k \<longleftrightarrow> mhas (Rows t) k" for k using r'(2) by (metis map_of_eq_None_iff set_map set_sort)
  have ord: "restoreOrder rows' (Order t) = live t" using restoreOrder_live[of "Order t" rows'] wr has by (simp add: wf_rows_def live_def)
  define t0 where "t0 = (newTable (tName t) (Columns t))\<lparr>Rows := rows', Order := live t, Indexes := map (\<lambda>c. (c, [])) ?cs, IndexNames := ?names\<rparr>"
  have res: "restoreTable name ?im = Inr (rebuildFastPathLocked (fold refillIndex ?cs t0))"
    unfolding restoreTable_def im r'(1) by (simp add: ord Let_def t0_def)
  have ix: "wf_index (fold refillIndex ?cs t0) \<and> (\<exists>ix. fold refillIndex ?cs t0 = t0\<lparr>Indexes := ix\<rparr> \<and> mkeys ix = ?cs)"
    by (rule refilled_wf_index[of rows']) (use r'(2) wr wx in \<open>simp_all add: t0_def wf_rows_def wf_index_def idx_shape_def\<close>)
  then have "restoredFrom t (fold refillIndex ?cs t0)" using r'(2,3) by (auto simp: restoredFrom_def t0_def newTable_def)
  then show ?thesis using res by blast
qed

lemma restored_rows:
  assumes "restoredFrom t t1"
  shows "mhas (Rows t1) k \<longleftrightarrow> mhas (Rows t) k" "mget (Rows t) k = Some row \<Longrightarrow> mget (Rows t1) k = Some row' \<Longrightarrow> sameCells (Columns t) row row'"
    "mhas (Indexes t1) c \<longleftrightarrow> mhas (Indexes t) c" "mget (IndexNames t1) = mget (IndexNames t)"
proof -
  have keys: "mkeys (Rows t1) = sort (mkeys (Rows t))" "mkeys (Indexes t1) = sort (mkeys (Indexes t))" using assms by (auto simp: restoredFrom_def)
  then show "mhas (Rows t1) k \<longleftrightarrow> mhas (Rows t) k" "mhas (Indexes t1) c \<longleftrightarrow> mhas (Indexes t) c" by (metis map_of_eq_None_iff set_map set_sort)+
  show "sameCells (Columns t) row row'" if "mget (Rows t) k = Some row" "mget (Rows t1) k = Some row'"
  proof -
    have "mentry (Rows t) k = row" using that(1) by (simp add: mentry_def)
    then show ?thesis using assms map_of_SomeD[OF that(2)] unfolding restoredFrom_def by blast
  qed
  show "mget (IndexNames t1) = mget (IndexNames t)" using assms by (auto simp: restoredFrom_def fun_eq_iff mget_sorted mentry_def)
qed

lemma restored_keys_ok:
  assumes f: "restoredFrom t t1" and k: "keys_ok t"
  shows "keys_ok t1"
  unfolding keys_ok_def
proof (intro impI allI)
  fix key row' assume p: "hasPrimaryColumn (Columns t1)" "mget (Rows t1) key = Some row'"
  have cols: "Columns t1 = Columns t" using f by (simp add: restoredFrom_def)
  obtain row where row: "mget (Rows t) key = Some row" using restored_rows(1)[OF f, of key] p(2) by auto
  have "primaryColumn t \<in> cName ` set (Columns t)" using primaryOf_column p(1) cols by (simp add: primaryColumn_def)
  then have "rget row' (primaryColumn t) = rget row (primaryColumn t)" using restored_rows(2)[OF f row p(2)] by (auto simp: sameCells_def)
  moreover have "key = valueKey (rget row (primaryColumn t))" using k row p(1) cols by (simp add: keys_ok_def)
  ultimately show "key = valueKey (rget row' (primaryColumn t1))" by (simp add: primaryColumn_def cols)
qed

lemma restored_wf:
  assumes f: "restoredFrom t t1" and wf: "wf_table t"
  shows "wf_table (rebuildFastPathLocked t1)"
proof (rule wf_table_rebuild)
  have wr: "wf_rows t" and wn: "wf_names t" and d: "mwf (IndexNames t)" using wf by (auto simp: wf_table_def wf_names_def)
  have fr: "Columns t1 = Columns t" "Order t1 = live t" "dead t1 = 0" "mwf (Rows t1)" "mwf (IndexNames t1)"
    using f wr d by (auto simp: restoredFrom_def wf_rows_def comp_def)
  show "wf_columns (Columns t1)" using wf fr by (simp add: wf_table_def)
  show "wf_index t1" using f by (simp add: restoredFrom_def)
  show "keys_ok t1" using restored_keys_ok[OF f] wf by (simp add: wf_table_def)
  show "wf_names t1" using wn restored_rows(3,4)[OF f] fr by (simp add: wf_names_def)
  have "distinct (live t)" "\<And>k. mhas (Rows t) k \<Longrightarrow> k \<in> set (live t) \<and> k \<noteq> []" using wr by (auto simp: wf_rows_def live_def)
  moreover have "filter (\<lambda>k. \<not> mhas (Rows t1) k) (live t) = []" using restored_rows(1)[OF f] by (auto simp: live_def filter_empty_conv)
  moreover have "filter (\<lambda>k. \<not> mhas (Rows t) k) (live t) = []" by (auto simp: live_def filter_empty_conv)
  ultimately show "wf_rows t1" using fr restored_rows(1)[OF f] by (simp add: wf_rows_def)
qed

lemma restored_same:
  assumes f: "restoredFrom t t1"
  shows "sameTable t (rebuildFastPathLocked t1)"
proof -
  have fr: "tName t1 = tName t" "Columns t1 = Columns t" "Order t1 = live t" using f by (auto simp: restoredFrom_def)
  have lv: "live t1 = live t" using restored_rows(1)[OF f] by (auto simp: live_def fr intro: filter_cong)
  have "sameCells (Columns t) (rowAt t k) (rowAt t1 k)" if "k \<in> set (live t)" for k
  proof -
    have "mhas (Rows t) k" using that by (simp add: live_def)
    then obtain row row' where "mget (Rows t) k = Some row" "mget (Rows t1) k = Some row'" using restored_rows(1)[OF f, of k] by blast
    then show ?thesis using restored_rows(2)[OF f] by (simp add: rowAt_def)
  qed
  then show ?thesis using lv restored_rows(3,4)[OF f] fr by (simp add: sameTable_def live_def rowAt_def)
qed

lemma restored_row_ok:
  assumes f: "restoredFrom t t1" and cl: "cleanTable t" and ty: "typed_table t" and fl: "floatsReadBack t" and m: "(k, row') \<in> set (Rows t1)"
  shows "validUTF8 k \<and> cleanRow row' \<and> set (mkeys row') \<subseteq> cName ` set (Columns t) \<and> typedRow (Columns t) row' \<and> (\<forall>(c, v)\<in>set row'. readsBack v)"
proof -
  have "mkeys (Rows t1) = sort (mkeys (Rows t))" using f by (simp add: restoredFrom_def)
  then have "k \<in> set (mkeys (Rows t))" using m by (metis fst_conv image_eqI set_map set_sort)
  note k = mentry_in[OF this] mget_mentry[OF this]
  have c: "validUTF8 k" "cleanRow (mentry (Rows t) k)" "set (mkeys (mentry (Rows t) k)) \<subseteq> cName ` set (Columns t)"
    using cl k(1) unfolding cleanTable_def list_all_iff by blast+
  have s: "sameCells (Columns t) (mentry (Rows t) k) row'" "mkeys row' = sort (mkeys (mentry (Rows t) k))" using f m unfolding restoredFrom_def by blast+
  have "typedRow (Columns t) (mentry (Rows t) k)" "\<forall>(c, v)\<in>set (mentry (Rows t) k). readsBack v"
    using ty fl k unfolding typed_table_def floatsReadBack_def list_all_iff by blast+
  then show ?thesis using restored_row[OF s c(2,3)] c s(2) by (metis set_sort)
qed

text \<open>The values of a rebuilt index are values of the index that was written.\<close>

lemma restored_bucket:
  assumes f: "restoredFrom t t1" and wf: "wf_table t" and g: "mget (Indexes t1) c = Some idx" and v: "mget idx v = Some ks"
  shows "\<exists>idx0 ks0. mget (Indexes t) c = Some idx0 \<and> mget idx0 v = Some ks0 \<and> set ks \<subseteq> set ks0"
proof -
  have wx: "wf_index t" "wf_index t1" and wn: "wf_names t" using f wf by (auto simp: restoredFrom_def wf_table_def)
  have ne: "ks \<noteq> []" using wf_index_idx[OF wx(2) g] v unfolding idx_ok_def by blast
  obtain idx0 where i0: "mget (Indexes t) c = Some idx0" using restored_rows(3)[OF f, of c] g by auto
  have "k \<in> set (bucketOf t c v)" if kin: "k \<in> set ks" for k
  proof -
    have "bucketOf t1 c v = ks" using g v by (simp add: bucketOf_def)
    then obtain row' where row': "mget (Rows t1) k = Some row'" "valueKey (rget row' c) = v" using wx(2) kin g by (auto simp: wf_index_def)
    then obtain row where row: "mget (Rows t) k = Some row" using restored_rows(1)[OF f, of k] by auto
    have "c \<in> cName ` set (Columns t)" using wn i0 by (auto simp: wf_names_def)
    then have "rget row' c = rget row c" using restored_rows(2)[OF f row row'(1)] by (auto simp: sameCells_def)
    then show ?thesis using wx(1) row row'(2) i0 by (auto simp: wf_index_def)
  qed
  then have sub: "set ks \<subseteq> set (bucketOf t c v)" by blast
  show ?thesis
  proof (cases "mget idx0 v")
    case None
    then have "bucketOf t c v = []" using i0 by (simp add: bucketOf_def)
    then show ?thesis using sub ne by simp
  next
    case (Some ks0)
    then show ?thesis using sub i0 by (auto simp: bucketOf_def)
  qed
qed

lemma restored_clean:
  assumes f: "restoredFrom t t1" and wf: "wf_table t" and cl: "cleanTable t" and ty: "typed_table t" and fl: "floatsReadBack t"
  shows "cleanTable (rebuildFastPathLocked t1)"
proof -
  have fr: "tName t1 = tName t" "Columns t1 = Columns t" "Order t1 = live t" "mkeys (Rows t1) = sort (mkeys (Rows t))" "wf_index t1"
      "IndexNames t1 = map (\<lambda>n. (n, mentry (IndexNames t) n)) (sort (mkeys (IndexNames t)))" using f by (auto simp: restoredFrom_def)
  have ix: "mwf (Indexes t1)" using fr(5) by (simp add: wf_index_def idx_shape_def)
  have "validUTF8 c \<and> mwf idx \<and> list_all (\<lambda>(v, ks). validUTF8 v \<and> list_all validUTF8 ks) idx" if "(c, idx) \<in> set (Indexes t1)" for c idx
  proof -
    have g: "mget (Indexes t1) c = Some idx" using that ix by (simp add: map_of_is_SomeI)
    have ok: "mwf idx" using wf_index_idx[OF fr(5) g] by (simp add: idx_ok_def)
    obtain idx0 where i0: "mget (Indexes t) c = Some idx0" using restored_rows(3)[OF f, of c] g by auto
    have v0: "validUTF8 c" "\<forall>(v, ks)\<in>set idx0. validUTF8 v \<and> list_all validUTF8 ks" using cl map_of_SomeD[OF i0] unfolding cleanTable_def list_all_iff by fast+
    have "validUTF8 v \<and> list_all validUTF8 ks" if vk: "(v, ks) \<in> set idx" for v ks
    proof -
      have "mget idx v = Some ks" using ok vk by (simp add: map_of_is_SomeI)
      from restored_bucket[OF f wf g this] obtain ks0 where b: "mget idx0 v = Some ks0" "set ks \<subseteq> set ks0" unfolding i0 by blast
      have "validUTF8 v \<and> list_all validUTF8 ks0" using v0(2) map_of_SomeD[OF b(1)] by fast
      then show ?thesis using b(2) unfolding list_all_iff by blast
    qed
    then show ?thesis using v0(1) ok by (auto simp: list_all_iff)
  qed
  then have "list_all (\<lambda>(c, idx). validUTF8 c \<and> mwf idx \<and> list_all (\<lambda>(v, ks). validUTF8 v \<and> list_all validUTF8 ks) idx) (Indexes t1)"
    by (intro list_all_iff[THEN iffD2]) fast
  moreover have "list_all (\<lambda>(k, row). validUTF8 k \<and> cleanRow row \<and> set (mkeys row) \<subseteq> cName ` set (Columns t)) (Rows t1)"
    using restored_row_ok[OF f cl ty fl] by (intro list_all_iff[THEN iffD2]) fast
  moreover have "list_all (\<lambda>(n, c). validUTF8 n \<and> validUTF8 c) (IndexNames t1)"
  proof -
    have "(n, mentry (IndexNames t) n) \<in> set (IndexNames t)" if "n \<in> set (mkeys (IndexNames t))" for n using mentry_in[OF that] .
    moreover have "\<forall>(n, c)\<in>set (IndexNames t). validUTF8 n \<and> validUTF8 c" using cl by (simp add: cleanTable_def list_all_iff)
    ultimately have "validUTF8 n \<and> validUTF8 (mentry (IndexNames t) n)" if "n \<in> set (mkeys (IndexNames t))" for n using that by fast
    then show ?thesis unfolding list_all_iff fr(6) set_map set_sort by blast
  qed
  moreover have "mwf (Rows t1)" "mwf (IndexNames t1)" "list_all validUTF8 (live t)" "validUTF8 (tName t)"
      "list_all (\<lambda>c. validUTF8 (cName c) \<and> validUTF8 (typeName (cType c)) \<and> typeOf (typeName (cType c)) = cType c) (Columns t)"
    using cl by (auto simp: fr(4,6) cleanTable_def comp_def live_def list_all_iff)
  ultimately show ?thesis using ix unfolding cleanTable_def rebuild_frame fr(1-3) by blast
qed

lemma restoreTable_same:
  assumes wf: "wf_table t" and ty: "typed_table t" and cl: "cleanTable t" and fl: "floatsReadBack t" and nl: "nilsFit z t"
  shows "\<exists>t'. restoreTable name (tableImageOf z t) = Inr t' \<and> wf_table t' \<and> typed_table t' \<and> cleanTable t' \<and> floatsReadBack t' \<and> sameTable t t'"
proof -
  obtain t1 where res: "restoreTable name (tableImageOf z t) = Inr (rebuildFastPathLocked t1)" and f: "restoredFrom t t1"
    using restoreTable_form[OF wf ty fl nl] by blast
  have cols: "Columns t1 = Columns t" using f by (simp add: restoredFrom_def)
  have "typed_table (rebuildFastPathLocked t1)" "floatsReadBack (rebuildFastPathLocked t1)"
    unfolding typed_table_def floatsReadBack_def list_all_iff rebuild_frame cols using restored_row_ok[OF f cl ty fl] map_of_SomeD by fast+
  then show ?thesis using res restored_wf[OF f wf] restored_clean[OF f wf cl ty fl] restored_same[OF f] by blast
qed

lemma restoreTables_same:
  assumes "\<And>n. n \<in> set ns \<Longrightarrow> \<exists>t'. restoreTable n (g n) = Inr t' \<and> P n t'" "distinct ns"
  shows "\<exists>ts. restoreTables (map (\<lambda>n. (n, Some (g n))) ns) = Inr ts \<and> mkeys ts = ns \<and> (\<forall>n t'. mget ts n = Some t' \<longrightarrow> P n t')"
  using assms
proof (induction ns)
  case (Cons n ns)
  obtain t' where "restoreTable n (g n) = Inr t'" "P n t'" using Cons.prems(1) by auto
  moreover obtain ts where "restoreTables (map (\<lambda>n. (n, Some (g n))) ns) = Inr ts" "mkeys ts = ns" "\<forall>n t'. mget ts n = Some t' \<longrightarrow> P n t'"
    using Cons by auto
  ultimately show ?case by auto
qed simp

text \<open>A database whose image can be restored: what \<open>MarshalJSON\<close> needs, the invariants, and nil maps only where they are empty.\<close>

definition storable :: "bool \<Rightarrow> (string \<Rightarrow> nils) \<Rightarrow> database \<Rightarrow> bool" where
  "storable nilTables z d \<longleftrightarrow>
     cleanDatabase d \<and> (nilTables \<longrightarrow> Tables d = []) \<and>
     (\<forall>(n, t)\<in>set (Tables d). wf_table t \<and> typed_table t \<and> floatsReadBack t \<and> nilsFit (z n) t)"

definition sameTables :: "database \<Rightarrow> database \<Rightarrow> bool" where
  "sameTables d d' \<longleftrightarrow> (\<forall>n. rel_option sameTable (mget (Tables d) n) (mget (Tables d') n))"

definition noNils :: nils where
  "noNils = \<lparr>nilRows = False, nilOrder = False, nilIndexes = False, nilNames = False\<rparr>"

lemma restore_written:
  assumes "storable nilTables z d" "decodeImage b = decodeImage (MarshalJSON nilTables z d)"
  shows "\<exists>d'. UnmarshalJSON decodeImage b d0 = (None, d') \<and> sameTables d d' \<and> storable False (\<lambda>_. noNils) d' \<and> revision d' = revision d0 + 1 \<and> baseRevision d' = baseRevision d0"
proof -
  let ?ns = "sort (mkeys (Tables d))" and ?g = "\<lambda>n. tableImageOf (z n) (mentry (Tables d) n)"
  let ?P = "\<lambda>n t'. wf_table t' \<and> typed_table t' \<and> cleanTable t' \<and> floatsReadBack t' \<and> sameTable (mentry (Tables d) n) t'"
  have cd: "cleanDatabase d" using assms(1) by (simp add: storable_def)
  have one: "\<exists>t'. restoreTable n (?g n) = Inr t' \<and> ?P n t'" if "n \<in> set ?ns" for n
  proof (rule restoreTable_same)
    have m: "(n, mentry (Tables d) n) \<in> set (Tables d)" using that by (simp add: mentry_in)
    then show "wf_table (mentry (Tables d) n)" "typed_table (mentry (Tables d) n)" "floatsReadBack (mentry (Tables d) n)" "nilsFit (z n) (mentry (Tables d) n)"
      using assms(1) by (auto simp: storable_def)
    show "cleanTable (mentry (Tables d) n)" using m cd by (auto simp: cleanDatabase_def list_all_iff)
  qed
  then obtain ts where ts: "restoreTables (map (\<lambda>n. (n, Some (?g n))) ?ns) = Inr ts" "mkeys ts = ?ns" "\<forall>n t'. mget ts n = Some t' \<longrightarrow> ?P n t'"
    using restoreTables_same[of ?ns ?g ?P] cd by (auto simp: cleanDatabase_def)
  let ?d = "d0\<lparr>Tables := ts, revision := revision d0 + 1\<rparr>"
  have has: "mhas ts n \<longleftrightarrow> mhas (Tables d) n" for n using ts(2) by (metis map_of_eq_None_iff set_map set_sort)
  have "rel_option sameTable (mget (Tables d) n) (mget ts n)" for n
  proof (cases "mget (Tables d) n")
    case None
    then show ?thesis using has[of n] by simp
  next
    case (Some t)
    then obtain t' where "mget ts n = Some t'" using has[of n] by auto
    moreover have "mentry (Tables d) n = t" using Some by (simp add: mentry_def)
    ultimately show ?thesis using ts(3) Some by auto
  qed
  then have same: "sameTables d ?d" by (simp add: sameTables_def)
  have mts: "mwf ts" using ts(2) cd by (simp add: cleanDatabase_def)
  have "?P n t' \<and> validUTF8 n" if m: "(n, t') \<in> set ts" for n t'
  proof -
    have "mget ts n = Some t'" using m mts by (simp add: map_of_is_SomeI)
    moreover have "n \<in> set (mkeys (Tables d))" using m ts(2) by (metis fst_conv image_eqI set_map set_sort)
    ultimately show ?thesis using ts(3) mentry_in[of n "Tables d"] cd by (auto simp: cleanDatabase_def list_all_iff)
  qed
  then have "storable False (\<lambda>_. noNils) ?d" using mts by (auto simp: storable_def cleanDatabase_def nilsFit_def noNils_def list_all_iff)
  moreover have "UnmarshalJSON decodeImage b d0 = (None, ?d)"
    using ts(1) assms(1) by (cases nilTables) (auto simp: UnmarshalJSON_def assms(2) decodeImage_written[OF cd] storable_def)
  ultimately show ?thesis using same by (intro exI[of _ ?d]) simp
qed

text \<open>
  C6: a snapshot restores the database. The image of well-formed, typed tables is decoded and restored without an error
  into any database, with the same tables: columns, live rows in order, cells, indexes and index names; the rebuilt
  indexes, order and fast array satisfy the invariant again, and the result can be written and restored in turn.
\<close>

theorem snapshot_restores:
  assumes "storable nilTables z d"
  shows "\<exists>d'. UnmarshalJSON decodeImage (MarshalJSON nilTables z d) d0 = (None, d') \<and> sameTables d d' \<and>
    storable False (\<lambda>_. noNils) d' \<and> revision d' = revision d0 + 1"
  using restore_written[OF assms refl, of d0] by blast

definition twoUsersDb :: database where
  "twoUsersDb = newDatabase\<lparr>Tables := [(''users'', twoUsers)]\<rparr>"

lemma twoUsersDb_storable: "storable False (\<lambda>_. noNils) twoUsersDb"
proof -
  have "cleanDatabase twoUsersDb" "floatsReadBack twoUsers" by code_simp+
  then show ?thesis using twoUsers_wf by (auto simp: storable_def twoUsersDb_def nilsFit_def noNils_def)
qed

theorem snapshot_restores_witness:
  "\<exists>d'. UnmarshalJSON decodeImage (MarshalJSON False (\<lambda>_. noNils) twoUsersDb) newDatabase = (None, d') \<and> sameTables twoUsersDb d' \<and>
    storable False (\<lambda>_. noNils) d' \<and> revision d' = revision newDatabase + 1"
  using twoUsersDb_storable by (rule snapshot_restores)

end
