(* ===== verification/Backups.thy ===== *)
theory Backups
  imports Restore
begin

text \<open>
  The files of a data directory: the paths of \<^verbatim>\<open>internal/storage/paths.go\<close>, loading, replay and compaction
  (\<^verbatim>\<open>internal/server/persistence.go\<close>) and backups with their manifests (\<^verbatim>\<open>internal/server/backups.go\<close>). A
  compaction keeps the state of the next start (\<open>compact_keeps_state\<close>), and a backup verifies and recovers the tables
  it was written from (\<open>backup_recovers\<close>).
\<close>

declare map_of_eq_Some_iff [simp del] Some_eq_map_of_iff [simp del]

section \<open>Files of a data directory (paths.go)\<close>

text \<open>A directory is a clean path, so \<^verbatim>\<open>filepath.Join\<close> puts a slash between it and the name.\<close>

definition Join :: "string \<Rightarrow> string \<Rightarrow> string" where
  "Join dir name = dir @ ''/'' @ name"

definition SnapshotPath :: "string \<Rightarrow> string" where
  "SnapshotPath dir = Join dir ''snapshot.spdb''"

definition WALPath :: "string \<Rightarrow> string" where
  "WALPath dir = Join dir ''wal.spdb''"

definition LegacySnapshotPath :: "string \<Rightarrow> string" where
  "LegacySnapshotPath dir = Join dir ''superdb.snapshot''"

definition LegacyWALPath :: "string \<Rightarrow> string" where
  "LegacyWALPath dir = Join dir ''superdb.wal''"

section \<open>Loading and compacting (persistence.go)\<close>

text \<open>
  The file system and what can go wrong with it: the errors of reads and removals by path, the calls of one atomic write by path and bytes,
  and the encoders: \<open>fsMarshal\<close> is \<^verbatim>\<open>json.Marshal\<close> of a database, \<open>fsDeflate\<close> and \<open>fsInflate\<close> are zlib.
\<close>

type_synonym fileSystem = "string \<rightharpoonup> string"

record fileEnv =
  fsRead :: "string \<Rightarrow> error option"
  fsRemove :: "string \<Rightarrow> error option"
  fsWrite :: "string \<Rightarrow> string \<Rightarrow> osCalls"
  fsMkdir :: "error option"
  fsMarshal :: "database \<Rightarrow> string res"
  fsDeflate :: "string \<Rightarrow> string res"
  fsInflate :: "string \<Rightarrow> nat \<Rightarrow> inflated"
  fsSha256 :: "string \<Rightarrow> string"

definition readFile :: "fileEnv \<Rightarrow> string \<Rightarrow> fileSystem \<Rightarrow> error + string option" where
  "readFile env path fs = (case fsRead env path of Some e \<Rightarrow> Inl e | None \<Rightarrow> Inr (fs path))"

text \<open>\<^verbatim>\<open>storage.ReadSnapshot\<close> into a database: whether there was a file, the error, and the database.\<close>

definition readInto :: "fileEnv \<Rightarrow> string \<Rightarrow> fileSystem \<Rightarrow> database \<Rightarrow> bool \<times> error option \<times> database" where
  "readInto env path fs d =
     (case ReadSnapshot (\<lambda>b. case UnmarshalJSON decodeImage b d of (Some e, _) \<Rightarrow> Inl e | (None, d') \<Rightarrow> Inr d') (fsInflate env) (readFile env path fs) of
        (loaded, Inl e) \<Rightarrow> (loaded, Some e, d)
      | (loaded, Inr None) \<Rightarrow> (loaded, None, d)
      | (loaded, Inr (Some d')) \<Rightarrow> (loaded, None, d'))"

definition LoadSnapshot :: "fileEnv \<Rightarrow> string \<Rightarrow> fileSystem \<Rightarrow> database \<Rightarrow> error option \<times> database" where
  "LoadSnapshot env dir fs d =
     (case readInto env (SnapshotPath dir) fs d of
        (loaded, Some e, d') \<Rightarrow> (Some e, d')
      | (loaded, None, d') \<Rightarrow> if loaded then (None, d') else snd (readInto env (LegacySnapshotPath dir) fs d'))"

definition ReplayWAL_dir :: "fileEnv \<Rightarrow> string \<Rightarrow> fileSystem \<Rightarrow> database \<Rightarrow> error option \<times> database" where
  "ReplayWAL_dir env dir fs d =
     (let path = (if fs (WALPath dir) = None then LegacyWALPath dir else WALPath dir)
      in replayLog (fsInflate env) (readFile env path fs) d)"

definition writeDb :: "fileEnv \<Rightarrow> string \<Rightarrow> database \<Rightarrow> fileSystem \<Rightarrow> error option \<times> fileSystem" where
  "writeDb env path d fs =
     (case WriteSnapshot (fsMarshal env) (fsDeflate env) d of
        Inl e \<Rightarrow> (Some e, fs)
      | Inr data \<Rightarrow> atomicWrite (fsWrite env path data) path data fs)"

definition removeFile :: "fileEnv \<Rightarrow> string \<Rightarrow> fileSystem \<Rightarrow> error option \<times> fileSystem" where
  "removeFile env path fs =
     (if fs path = None then (None, fs)
      else case fsRemove env path of Some e \<Rightarrow> (Some e, fs) | None \<Rightarrow> (None, fs(path := None)))"

fun clearLoop :: "fileEnv \<Rightarrow> string list \<Rightarrow> fileSystem \<Rightarrow> error option \<times> fileSystem" where
  "clearLoop env [] fs = (None, fs)"
| "clearLoop env (wal # wals) fs =
     (case removeFile env wal fs of
        (Some e, fs') \<Rightarrow> (Some (Wrapped (''remove replayed WAL '' @ wal @ '': '') e), fs')
      | (None, fs') \<Rightarrow> clearLoop env wals fs')"

definition clearWAL :: "fileEnv \<Rightarrow> string \<Rightarrow> fileSystem \<Rightarrow> error option \<times> fileSystem" where
  "clearWAL env dir fs = clearLoop env [WALPath dir, LegacyWALPath dir] fs"

definition Compact :: "fileEnv \<Rightarrow> string \<Rightarrow> database \<Rightarrow> fileSystem \<Rightarrow> error option \<times> database \<times> fileSystem" where
  "Compact env dir d fs =
     (case LoadSnapshot env dir fs d of
        (Some e, d1) \<Rightarrow> (Some e, d1, fs)
      | (None, d1) \<Rightarrow>
          (case ReplayWAL_dir env dir fs d1 of
             (Some e, d2) \<Rightarrow> (Some e, d2, fs)
           | (None, d2) \<Rightarrow>
               (case writeDb env (SnapshotPath dir) d2 fs of
                  (Some e, fs1) \<Rightarrow> (Some e, d2, fs1)
                | (None, fs1) \<Rightarrow> (case clearWAL env dir fs1 of (e, fs2) \<Rightarrow> (e, d2, fs2)))))"

text \<open>A start of the server: the snapshot, then the log.\<close>

definition startUp :: "fileEnv \<Rightarrow> string \<Rightarrow> fileSystem \<Rightarrow> error option \<times> database" where
  "startUp env dir fs =
     (case LoadSnapshot env dir fs newDatabase of
        (Some e, d) \<Rightarrow> (Some e, d)
      | (None, d) \<Rightarrow> ReplayWAL_dir env dir fs d)"

section \<open>Backups (backups.go)\<close>

record backupManifest =
  mfVersion :: int
  mfSize :: int
  mfSHA256 :: string

record BackupVerification =
  bvPath :: string
  bvSize :: nat
  bvSHA256 :: string
  bvVerified :: bool

definition backupManifestPath :: "string \<Rightarrow> string" where
  "backupManifestPath path = path @ ''.manifest.json''"

text \<open>\<^verbatim>\<open>json.MarshalIndent\<close> of a manifest, with the newline after it; and \<^verbatim>\<open>json.Unmarshal\<close> of one.\<close>

definition manifestText :: "backupManifest \<Rightarrow> string" where
  "manifestText m =
     ''{'' @ [CHR 0x0A] @ ''  \"version\": '' @ FormatInt (mfVersion m) @ '','' @ [CHR 0x0A] @ ''  \"size_bytes\": '' @ FormatInt (mfSize m) @ '','' @
     [CHR 0x0A] @ ''  \"sha256\": '' @ appendJSONString [] (mfSHA256 m) @ [CHR 0x0A] @ ''}'' @ [CHR 0x0A]"

fun intField :: "json \<Rightarrow> int option" where
  "intField JNull = Some 0"
| "intField (JNum u) = (case ParseInt u of Inl e \<Rightarrow> None | Inr i \<Rightarrow> Some i)"
| "intField _ = None"

definition manifestFields :: "string list" where
  "manifestFields = [''version'', ''size_bytes'', ''sha256'']"

definition bindManifest :: "(string \<times> json) list \<Rightarrow> backupManifest option" where
  "bindManifest ms =
     (case (intField (memberFor manifestFields ms ''version''), intField (memberFor manifestFields ms ''size_bytes''), jstr (memberFor manifestFields ms ''sha256'')) of
        (Some v, Some n, Some h) \<Rightarrow> Some \<lparr>mfVersion = v, mfSize = n, mfSHA256 = h\<rparr>
      | _ \<Rightarrow> None)"

definition unmarshalManifest :: "string \<Rightarrow> backupManifest option" where
  "unmarshalManifest b =
     (case decodeJson b of
        Some (JObj ms) \<Rightarrow> bindManifest ms
      | Some JNull \<Rightarrow> bindManifest []
      | _ \<Rightarrow> None)"

definition VerifyBackup :: "fileEnv \<Rightarrow> string \<Rightarrow> fileSystem \<Rightarrow> BackupVerification res" where
  "VerifyBackup env path fs =
     (case readFile env path fs of
        Inl e \<Rightarrow> Inl e
      | Inr None \<Rightarrow> Inl (Msg (''open '' @ path @ '': no such file or directory''))
      | Inr (Some b) \<Rightarrow>
          let actualHash = fsSha256 env b in
          (case readInto env path fs newDatabase of
             (loaded, Some e, _) \<Rightarrow> Inl (Wrapped ''decode snapshot: '' e)
           | (loaded, None, _) \<Rightarrow>
               if \<not> loaded then Inl (Msg (''backup disappeared: '' @ path))
               else
                 let result = \<lparr>bvPath = path, bvSize = length b, bvSHA256 = actualHash, bvVerified = False\<rparr> in
                 (case readFile env (backupManifestPath path) fs of
                    Inl e \<Rightarrow> Inl (Wrapped ''read backup checksum: '' e)
                  | Inr None \<Rightarrow> Inr result
                  | Inr (Some manifestBytes) \<Rightarrow>
                      (case unmarshalManifest manifestBytes of
                         None \<Rightarrow> Inl (Msg ''parse backup checksum'')
                       | Some m \<Rightarrow>
                           if mfVersion m \<noteq> 1 then Inl (Msg (''unsupported backup checksum version '' @ FormatInt (mfVersion m)))
                           else if mfSize m \<noteq> int (length b) \<or> \<not> EqualFold (mfSHA256 m) actualHash then Inl (Msg ''backup checksum mismatch'')
                           else Inr (result\<lparr>bvVerified := True\<rparr>)))))"

text \<open>
  The manifest is written under a temporary name and renamed; \<open>fsWrite\<close> of its path has the outcomes of the write and of
  the rename.
\<close>

definition writeBackupManifest :: "fileEnv \<Rightarrow> string \<Rightarrow> fileSystem \<Rightarrow> error option \<times> fileSystem" where
  "writeBackupManifest env path fs =
     (case readFile env path fs of
        Inl e \<Rightarrow> (Some e, fs)
      | Inr None \<Rightarrow> (Some (Msg (''open '' @ path @ '': no such file or directory'')), fs)
      | Inr (Some b) \<Rightarrow>
          let data = manifestText \<lparr>mfVersion = 1, mfSize = int (length b), mfSHA256 = fsSha256 env b\<rparr>;
              manifestPath = backupManifestPath path;
              tmpPath = manifestPath @ ''.tmp'';
              os = fsWrite env manifestPath data;
              written = fs(tmpPath \<mapsto> take (fst (osWrite os)) data)
          in (case snd (osWrite os) of
                Some e \<Rightarrow> (Some e, written)
              | None \<Rightarrow>
                  if fst (osWrite os) < length data then (Some (Msg ''short write''), written)
                  else (case osRename os of
                     Some e \<Rightarrow> (Some e, if osCleanup os then written(tmpPath := None) else written)
                   | None \<Rightarrow> (None, renamed tmpPath manifestPath written))))"

definition dropFile :: "fileEnv \<Rightarrow> string \<Rightarrow> fileSystem \<Rightarrow> fileSystem" where
  "dropFile env path fs = snd (removeFile env path fs)"

text \<open>\<open>stamp\<close> is the formatted time of the call.\<close>

definition CreateBackup :: "fileEnv \<Rightarrow> string \<Rightarrow> string \<Rightarrow> database \<Rightarrow> fileSystem \<Rightarrow> string res \<times> fileSystem" where
  "CreateBackup env dir stamp d fs =
     (case fsMkdir env of
        Some e \<Rightarrow> (Inl e, fs)
      | None \<Rightarrow>
          let path = Join dir (''snapshot-'' @ stamp @ ''.spdb'') in
          (case writeDb env path d fs of
             (Some e, fs1) \<Rightarrow> (Inl e, fs1)
           | (None, fs1) \<Rightarrow>
               (case VerifyBackup env path fs1 of
                  Inl e \<Rightarrow> (Inl (Wrapped ''validate new backup: '' e), dropFile env path fs1)
                | Inr _ \<Rightarrow>
                    (case writeBackupManifest env path fs1 of
                       (Some e, fs2) \<Rightarrow> (Inl (Wrapped ''write backup checksum: '' e), dropFile env path fs2)
                     | (None, fs2) \<Rightarrow> (Inr path, fs2)))))"

text \<open>\<open>paths\<close> is what \<^verbatim>\<open>filepath.Glob\<close> finds in the directory.\<close>

definition LatestBackup :: "string \<Rightarrow> string list res \<Rightarrow> string res" where
  "LatestBackup dir paths =
     (case paths of
        Inl e \<Rightarrow> Inl e
      | Inr ps \<Rightarrow> if ps = [] then Inl (Msg (''no timestamped backups found in '' @ dir)) else Inr (last (sort ps)))"

definition RecoverLatest :: "fileEnv \<Rightarrow> string \<Rightarrow> string list res \<Rightarrow> string \<Rightarrow> fileSystem \<Rightarrow> string res \<times> fileSystem" where
  "RecoverLatest env backupDir paths dataDir fs =
     (case LatestBackup backupDir paths of
        Inl e \<Rightarrow> (Inl e, fs)
      | Inr backup \<Rightarrow>
          (case VerifyBackup env backup fs of
             Inl e \<Rightarrow> (Inl (Wrapped ''validate backup: '' e), fs)
           | Inr _ \<Rightarrow>
               (case readInto env backup fs newDatabase of
                  (loaded, Some e, _) \<Rightarrow> (Inl (Wrapped ''load validated backup: '' e), fs)
                | (loaded, None, d) \<Rightarrow>
                    (case writeDb env (SnapshotPath dataDir) d fs of
                       (Some e, fs1) \<Rightarrow> (Inl (Wrapped ''restore backup: '' e), fs1)
                     | (None, fs1) \<Rightarrow>
                         (case clearWAL env dataDir fs1 of
                            (Some e, fs2) \<Rightarrow> (Inl e, fs2)
                          | (None, fs2) \<Rightarrow> (Inr backup, fs2))))))"

section \<open>A written database is read back\<close>

lemma atomicWrite_success:
  assumes "atomicWrite os path data fs = (None, fs')" "osTemp os \<noteq> Inr path"
  shows "fs' path = Some data"
  using assms by (auto simp: atomicWrite_def Let_def renamed_def split: option.splits sum.splits prod.splits if_splits)

lemma ReadSnapshot_written:
  assumes w: "WriteSnapshot marshal deflate value = Inr data"
    and zlib: "\<And>p z n. deflate p = Inr z \<Longrightarrow> length p < n \<Longrightarrow> inflate z n = Inflated p"
  obtains payload where "marshal value = Inr payload"
    "\<And>unmarshal x. unmarshal payload = Inr x \<Longrightarrow> ReadSnapshot unmarshal inflate (Inr (Some data)) = (True, Inr (Some x))"
proof -
  obtain payload where m: "marshal value = Inr payload" and e: "encode deflate snapshotKind payload = Inr data"
    using w by (auto simp: WriteSnapshot_def wrap_def split: sum.splits)
  have v: "validFrameVersion snapshotKind checksumVersion" by (simp add: validFrameVersion_def frame_consts)
  have d: "decodeFrame inflate data 0 snapshotKind = Inr (payload, length data)"
    using frame_roundtrip[OF e[unfolded encode_def] v _ zlib, where pre = "[]" and rest = "[]"] by simp
  have "\<exists>x. data = magic @ x" using e by (auto simp: encode_def encodeFrame_def frameHeader_def split: if_splits sum.splits)
  then have "8 \<le> length data" "take 8 data = magic" by auto
  then have "ReadSnapshot unmarshal inflate (Inr (Some data)) = (True, Inr (Some x))" if "unmarshal payload = Inr x" for unmarshal and x :: 'b
    using d that by (simp add: ReadSnapshot_def wrap_def)
  then show ?thesis using that m by blast
qed

lemma WriteSnapshot_size:
  assumes "WriteSnapshot marshal deflate value = Inr data"
  shows "length data < 2 ^ 63"
  using assms by (auto simp: WriteSnapshot_def wrap_def encode_def encodeFrame_def maxPayloadSize_def frameSize_def frame_consts split: sum.splits if_splits)

text \<open>
  What the files and the encoders promise: reads do not fail, a temporary file has a name of its own, zlib inflates what it
  deflated, \<^verbatim>\<open>json.Marshal\<close> writes the value that \<^verbatim>\<open>MarshalJSON\<close> wrote, where only empty maps are nil, and the hash is text.
\<close>

definition nilsOnlyEmpty :: "bool \<Rightarrow> (string \<Rightarrow> nils) \<Rightarrow> database \<Rightarrow> bool" where
  "nilsOnlyEmpty nilTables z d \<longleftrightarrow> (nilTables \<longrightarrow> Tables d = []) \<and> (\<forall>(n, t)\<in>set (Tables d). nilsFit (z n) t)"

definition stored :: "database \<Rightarrow> bool" where
  "stored d \<longleftrightarrow> storable False (\<lambda>_. noNils) d"

lemma stored_nils: "stored d \<Longrightarrow> nilsOnlyEmpty nilTables z d \<Longrightarrow> storable nilTables z d"
  unfolding stored_def storable_def nilsOnlyEmpty_def by fast

definition faithfulFiles :: "fileEnv \<Rightarrow> bool" where
  "faithfulFiles env \<longleftrightarrow>
     (\<forall>p. fsRead env p = None) \<and> (\<forall>p b. osTemp (fsWrite env p b) \<noteq> Inr p) \<and>
     (\<forall>p y n. fsDeflate env p = Inr y \<longrightarrow> length p < n \<longrightarrow> fsInflate env y n = Inflated p) \<and>
     (\<forall>d b. fsMarshal env d = Inr b \<longrightarrow> (\<exists>nilTables z. nilsOnlyEmpty nilTables z d \<and> decodeImage b = decodeImage (MarshalJSON nilTables z d))) \<and>
     (\<forall>b. validUTF8 (fsSha256 env b))"

lemma sameTable_trans: "sameTable t t' \<Longrightarrow> sameTable t' t'' \<Longrightarrow> sameTable t t''"
  unfolding sameTable_def sameCells_def by (auto simp: list_all_iff)

lemma sameTables_trans:
  assumes "sameTables d d'" "sameTables d' d''"
  shows "sameTables d d''"
  unfolding sameTables_def
proof
  fix n
  have "rel_option sameTable (mget (Tables d) n) (mget (Tables d') n)" "rel_option sameTable (mget (Tables d') n) (mget (Tables d'') n)"
    using assms by (simp_all add: sameTables_def)
  then show "rel_option sameTable (mget (Tables d) n) (mget (Tables d'') n)"
    by (cases "mget (Tables d) n"; cases "mget (Tables d') n"; cases "mget (Tables d'') n") (simp_all add: sameTable_trans[of _ "the (mget (Tables d') n)"])
qed

lemma readInto_exact:
  assumes env: "faithfulFiles env" and w: "writeDb env path d fs = (None, fs')" and same: "fs'' path = fs' path"
  obtains payload where "fsMarshal env d = Inr payload"
    "\<And>d0 d'. UnmarshalJSON decodeImage payload d0 = (None, d') \<Longrightarrow> readInto env path fs'' d0 = (True, None, d')"
proof -
  obtain data where data: "WriteSnapshot (fsMarshal env) (fsDeflate env) d = Inr data" "atomicWrite (fsWrite env path data) path data fs = (None, fs')"
    using w by (auto simp: writeDb_def split: sum.splits)
  have "fs'' path = Some data" using atomicWrite_success[OF data(2)] env same by (simp add: faithfulFiles_def)
  then have contents: "readFile env path fs'' = Inr (Some data)" using env by (simp add: readFile_def faithfulFiles_def)
  obtain payload where p: "fsMarshal env d = Inr payload"
    "\<And>unmarshal x. unmarshal payload = Inr x \<Longrightarrow> ReadSnapshot unmarshal (fsInflate env) (Inr (Some data)) = (True, Inr (Some (x :: database)))"
    using ReadSnapshot_written[OF data(1), of "fsInflate env"] env unfolding faithfulFiles_def by blast
  have "readInto env path fs'' d0 = (True, None, d')" if "UnmarshalJSON decodeImage payload d0 = (None, d')" for d0 d'
    using p(2)[of "\<lambda>b. case UnmarshalJSON decodeImage b d0 of (Some e, _) \<Rightarrow> Inl e | (None, d') \<Rightarrow> Inr d'"] that by (auto simp: readInto_def contents)
  then show ?thesis using that p(1) by blast
qed

lemma readInto_written:
  assumes env: "faithfulFiles env" and st: "stored d" and w: "writeDb env path d fs = (None, fs')" and same: "fs'' path = fs' path"
  shows "\<exists>d'. readInto env path fs'' d0 = (True, None, d') \<and> sameTables d d' \<and> stored d'"
proof -
  obtain payload where p: "fsMarshal env d = Inr payload"
    "\<And>d0 d'. UnmarshalJSON decodeImage payload d0 = (None, d') \<Longrightarrow> readInto env path fs'' d0 = (True, None, d')"
    using readInto_exact[where fs'' = fs'', OF env w same] by blast
  obtain nilTables z where "nilsOnlyEmpty nilTables z d" "decodeImage payload = decodeImage (MarshalJSON nilTables z d)"
    using p(1) env unfolding faithfulFiles_def by blast
  then obtain d' where "UnmarshalJSON decodeImage payload d0 = (None, d')" "sameTables d d'" "stored d'"
    using restore_written[OF stored_nils[OF st]] unfolding stored_def by blast
  then show ?thesis using p(2) by blast
qed

section \<open>Compaction\<close>

lemma removeFile_ok: "removeFile env path fs = (None, fs') \<Longrightarrow> fs' path = None \<and> (\<forall>p. p \<noteq> path \<longrightarrow> fs' p = fs p)"
  by (auto simp: removeFile_def split: if_splits option.splits)

lemma paths_distinct: "SnapshotPath dir \<noteq> WALPath dir" "SnapshotPath dir \<noteq> LegacyWALPath dir" "WALPath dir \<noteq> LegacyWALPath dir"
  by (simp_all add: SnapshotPath_def WALPath_def LegacyWALPath_def Join_def)

lemma clearWAL_ok:
  assumes "clearWAL env dir fs = (None, fs')"
  shows "fs' (WALPath dir) = None" "fs' (LegacyWALPath dir) = None" "fs' (SnapshotPath dir) = fs (SnapshotPath dir)"
proof -
  obtain fs1 where r: "removeFile env (WALPath dir) fs = (None, fs1)" "removeFile env (LegacyWALPath dir) fs1 = (None, fs')"
    using assms by (auto simp: clearWAL_def split: prod.splits option.splits)
  note r1 = removeFile_ok[OF r(1)] and r2 = removeFile_ok[OF r(2)]
  show "fs' (WALPath dir) = None" "fs' (LegacyWALPath dir) = None" "fs' (SnapshotPath dir) = fs (SnapshotPath dir)"
    using r1 r2 paths_distinct by metis+
qed

text \<open>A snapshot that was written and then cleared of its log is what the next start loads.\<close>

lemma startUp_written:
  assumes env: "faithfulFiles env" and st: "stored d"
    and w: "writeDb env (SnapshotPath dir) d fs = (None, fs1)" and c: "clearWAL env dir fs1 = (None, fs2)"
  shows "\<exists>d'. startUp env dir fs2 = (None, d') \<and> sameTables d d' \<and> stored d'"
proof -
  note cl = clearWAL_ok[OF c]
  obtain d' where d': "readInto env (SnapshotPath dir) fs2 newDatabase = (True, None, d')" "sameTables d d'" "stored d'"
    using readInto_written[OF env st w, of fs2] cl(3) by blast
  have "ReplayWAL_dir env dir fs2 d' = (None, d')"
    using cl env by (simp add: ReplayWAL_dir_def readFile_def faithfulFiles_def replayLog_def ReplayWAL_def)
  then have "startUp env dir fs2 = (None, d')" using d'(1) by (simp add: startUp_def LoadSnapshot_def)
  then show ?thesis using d' by blast
qed

lemma Compact_ok:
  assumes "Compact env dir d0 fs = (None, d, fs2)"
  obtains d1 fs1 where "LoadSnapshot env dir fs d0 = (None, d1)" "ReplayWAL_dir env dir fs d1 = (None, d)"
    "writeDb env (SnapshotPath dir) d fs = (None, fs1)" "clearWAL env dir fs1 = (None, fs2)"
  using assms unfolding Compact_def by (auto split: prod.splits option.splits)

text \<open>
  C3: compaction keeps the database. When a compaction of a data directory succeeds, a start on the compacted files
  succeeds and gives the tables that a start on the files before it gave, in a form that can be compacted again; the log
  files are gone, so nothing is applied twice.
\<close>

theorem compact_keeps_state:
  assumes "faithfulFiles env" "Compact env dir newDatabase fs = (None, d, fs2)" "stored d"
  shows "startUp env dir fs = (None, d) \<and> fs2 (WALPath dir) = None \<and> fs2 (LegacyWALPath dir) = None \<and>
    (\<exists>d'. startUp env dir fs2 = (None, d') \<and> sameTables d d' \<and> stored d')"
proof -
  obtain d1 fs1 where c: "LoadSnapshot env dir fs newDatabase = (None, d1)" "ReplayWAL_dir env dir fs d1 = (None, d)"
    "writeDb env (SnapshotPath dir) d fs = (None, fs1)" "clearWAL env dir fs1 = (None, fs2)" using assms(2) by (rule Compact_ok)
  then have "startUp env dir fs = (None, d)" by (simp add: startUp_def)
  then show ?thesis using clearWAL_ok[OF c(4)] startUp_written[OF assms(1,3) c(3,4)] by blast
qed

section \<open>The manifest reads back\<close>

lemma membersJson_member:
  assumes "validUTF8 k" "skipSpace s = appendJSONString [] k @ CHR '':'' # t" "valueJson d n (skipSpace t) = Some (v, t3)"
  shows "skipSpace t3 = CHR '','' # t4 \<Longrightarrow> membersJson d (Suc n) s = map_option (\<lambda>(ms, u). ((k, v) # ms, u)) (membersJson d n t4)"
    and "skipSpace t3 = CHR ''}'' # t4 \<Longrightarrow> membersJson d (Suc n) s = Some ([(k, v)], t4)"
  using assms stringJson_written[OF assms(1)] by (simp_all add: skipSpace_here consume_def isJsonSpace_def)

lemma membersJson_space: "membersJson d k (skipSpace s) = membersJson d k s"
  by (cases k) (simp_all add: skipSpace_def)

declare valueJson.simps [simp del] membersJson.simps [simp del]

lemma skipSpace_number: "skipSpace (CHR '' '' # FormatInt i @ r) = FormatInt i @ r"
proof -
  obtain c t where c: "FormatInt i = c # t" "c = CHR ''-'' \<or> decimal c" using jnumber_head[OF FormatInt_jnumber[of i]] by blast
  then have "\<not> isJsonSpace c" using space_not_decimal by blast
  then show ?thesis by (simp add: c(1) skipSpace_def isJsonSpace_def)
qed

lemma manifest_reads_back:
  assumes "validUTF8 (mfSHA256 m)" "- (2 ^ 63) \<le> mfVersion m" "mfVersion m < 2 ^ 63" "- (2 ^ 63) \<le> mfSize m" "mfSize m < 2 ^ 63"
  shows "unmarshalManifest (manifestText m) = Some m"
proof -
  let ?nl = "CHR 0x0A" and ?h = "appendJSONString [] (mfSHA256 m)"
  define t3 where "t3 = ?nl # ''  '' @ appendJSONString [] ''sha256'' @ '': '' @ ?h @ [?nl] @ ''}'' @ [?nl]"
  define t2 where "t2 = ?nl # ''  '' @ appendJSONString [] ''size_bytes'' @ '': '' @ FormatInt (mfSize m) @ '','' @ t3"
  define t1 where "t1 = ?nl # ''  '' @ appendJSONString [] ''version'' @ '': '' @ FormatInt (mfVersion m) @ '','' @ t2"
  have keys: "appendJSONString [] ''version'' = ''\"version\"''" "appendJSONString [] ''size_bytes'' = ''\"size_bytes\"''" "appendJSONString [] ''sha256'' = ''\"sha256\"''"
    by code_simp+
  have whole: "manifestText m = CHR ''{'' # t1" by (simp add: manifestText_def t1_def t2_def t3_def keys)
  have ks: "validUTF8 ''version''" "validUTF8 ''size_bytes''" "validUTF8 ''sha256''" by code_simp+
  have m3: "membersJson d (Suc (Suc n)) t3 = Some ([(''sha256'', JStr (mfSHA256 m))], [?nl])" for d n
  proof (rule membersJson_member(2)[OF ks(3)])
    show "skipSpace t3 = appendJSONString [] ''sha256'' @ CHR '':'' # CHR '' '' # ?h @ [?nl] @ ''}'' @ [?nl]" by (simp add: t3_def keys skipSpace_def isJsonSpace_def)
    have "skipSpace (CHR '' '' # ?h @ [?nl] @ ''}'' @ [?nl]) = ?h @ [?nl] @ ''}'' @ [?nl]"
      using appendJSONString_head(1)[of "mfSHA256 m" "[?nl] @ ''}'' @ [?nl]"] by (simp add: skipSpace_def isJsonSpace_def)
    then show "valueJson d (Suc n) (skipSpace (CHR '' '' # ?h @ [?nl] @ ''}'' @ [?nl])) = Some (JStr (mfSHA256 m), [?nl] @ ''}'' @ [?nl])"
      using valueJson_string[OF stringJson_written[OF assms(1)]] by simp
    show "skipSpace ([?nl] @ ''}'' @ [?nl]) = CHR ''}'' # [?nl]" by (simp add: skipSpace_def isJsonSpace_def)
  qed
  have number: "valueJson d (Suc n) (skipSpace (CHR '' '' # FormatInt i @ '','' @ r)) = Some (JNum (FormatInt i), '','' @ r)" for d n i r
    unfolding skipSpace_number using valueJson_number[OF FormatInt_jnumber] by simp
  have m2: "membersJson d (Suc (Suc (Suc n))) t2 = Some ([(''size_bytes'', JNum (FormatInt (mfSize m))), (''sha256'', JStr (mfSHA256 m))], [?nl])" for d n
  proof -
    have "skipSpace t2 = appendJSONString [] ''size_bytes'' @ CHR '':'' # CHR '' '' # FormatInt (mfSize m) @ '','' @ t3" by (simp add: t2_def keys skipSpace_def isJsonSpace_def)
    from membersJson_member(1)[OF ks(2) this number] show ?thesis using m3[of d n] by (simp add: skipSpace_def isJsonSpace_def)
  qed
  have m1: "membersJson d (Suc (Suc (Suc (Suc n)))) t1 =
      Some ([(''version'', JNum (FormatInt (mfVersion m))), (''size_bytes'', JNum (FormatInt (mfSize m))), (''sha256'', JStr (mfSHA256 m))], [?nl])" for d n
  proof -
    have "skipSpace t1 = appendJSONString [] ''version'' @ CHR '':'' # CHR '' '' # FormatInt (mfVersion m) @ '','' @ t2" by (simp add: t1_def keys skipSpace_def isJsonSpace_def)
    from membersJson_member(1)[OF ks(1) this number] show ?thesis using m2[of d n] by (simp add: skipSpace_def isJsonSpace_def)
  qed
  obtain n where n: "Suc (2 * length (manifestText m)) = Suc (Suc (Suc (Suc (Suc n))))"
  proof -
    have "4 \<le> 2 * length (manifestText m)" by (simp add: whole t1_def)
    then show ?thesis using that[of "2 * length (manifestText m) - 4"] by simp
  qed
  have open_: "consume (CHR ''}'') (skipSpace t1) = None" by (simp add: t1_def keys skipSpace_def isJsonSpace_def consume_def)
  have "decodeJson (manifestText m) = Some (JObj [(''version'', JNum (FormatInt (mfVersion m))), (''size_bytes'', JNum (FormatInt (mfSize m))), (''sha256'', JStr (mfSHA256 m))])"
    unfolding decodeJson_def n using open_ m1
    by (simp add: whole skipSpace_here valueJson.simps(2) membersJson_space maxNestingDepth_def) (simp add: skipSpace_def isJsonSpace_def)
  then show ?thesis using assms ParseInt_FormatInt
    by (simp add: unmarshalManifest_def bindManifest_def memberFor_def manifestFields_def fieldAmong_exact)
qed

section \<open>A backup recovers the database\<close>

lemma writeBackupManifest_ok:
  assumes "writeBackupManifest env path fs = (None, fs')" "\<forall>p. fsRead env p = None"
  obtains b where "fs path = Some b" "fs' path = Some b"
    "fs' (backupManifestPath path) = Some (manifestText \<lparr>mfVersion = 1, mfSize = int (length b), mfSHA256 = fsSha256 env b\<rparr>)"
proof -
  obtain b where b: "fs path = Some b"
    using assms by (cases "fs path") (simp_all add: writeBackupManifest_def readFile_def)
  have ne: "path \<noteq> backupManifestPath path" "path \<noteq> backupManifestPath path @ ''.tmp''" "backupManifestPath path \<noteq> backupManifestPath path @ ''.tmp''"
    by (simp_all add: backupManifestPath_def)
  have "fs' path = Some b \<and> fs' (backupManifestPath path) = Some (manifestText \<lparr>mfVersion = 1, mfSize = int (length b), mfSHA256 = fsSha256 env b\<rparr>)"
    using assms b ne by (auto simp: writeBackupManifest_def readFile_def Let_def renamed_def split: option.splits if_splits)
  then show ?thesis using b that by blast
qed

lemma CreateBackup_ok:
  assumes "CreateBackup env dir stamp d fs = (Inr path, fs2)"
  obtains fs1 where "path = Join dir (''snapshot-'' @ stamp @ ''.spdb'')" "writeDb env path d fs = (None, fs1)" "writeBackupManifest env path fs1 = (None, fs2)"
  using assms unfolding CreateBackup_def Let_def by (auto split: option.splits prod.splits sum.splits)

lemma CreateBackup_file:
  assumes env: "faithfulFiles env" and c: "CreateBackup env dir stamp d fs = (Inr path, fs2)"
  obtains b fs1 where "writeDb env path d fs = (None, fs1)" "fs2 path = fs1 path" "fs2 path = Some b" "length b < 2 ^ 63"
    "fs2 (backupManifestPath path) = Some (manifestText \<lparr>mfVersion = 1, mfSize = int (length b), mfSHA256 = fsSha256 env b\<rparr>)"
proof -
  obtain fs1 where w: "writeDb env path d fs = (None, fs1)" "writeBackupManifest env path fs1 = (None, fs2)" using c by (rule CreateBackup_ok)
  obtain b where b: "fs1 path = Some b" "fs2 path = Some b"
    "fs2 (backupManifestPath path) = Some (manifestText \<lparr>mfVersion = 1, mfSize = int (length b), mfSHA256 = fsSha256 env b\<rparr>)"
    using w(2) by (rule writeBackupManifest_ok) (use env in \<open>simp add: faithfulFiles_def\<close>)
  obtain data where data: "WriteSnapshot (fsMarshal env) (fsDeflate env) d = Inr data" "atomicWrite (fsWrite env path data) path data fs = (None, fs1)"
    using w(1) by (auto simp: writeDb_def split: sum.splits)
  have "b = data" using atomicWrite_success[OF data(2)] env b(1) by (simp add: faithfulFiles_def)
  then show ?thesis using that w b WriteSnapshot_size[OF data(1)] by simp
qed

lemma backup_verified:
  assumes env: "faithfulFiles env" and st: "stored d" and c: "CreateBackup env dir stamp d fs = (Inr path, fs2)"
  shows "\<exists>v. VerifyBackup env path fs2 = Inr v \<and> bvVerified v"
proof -
  obtain b fs1 where b: "writeDb env path d fs = (None, fs1)" "fs2 path = fs1 path" "fs2 path = Some b" "length b < 2 ^ 63"
    "fs2 (backupManifestPath path) = Some (manifestText \<lparr>mfVersion = 1, mfSize = int (length b), mfSHA256 = fsSha256 env b\<rparr>)"
    using env c by (rule CreateBackup_file)
  obtain d' where d': "readInto env path fs2 newDatabase = (True, None, d')" using readInto_written[OF env st b(1), of fs2] b(2) by blast
  have "unmarshalManifest (manifestText \<lparr>mfVersion = 1, mfSize = int (length b), mfSHA256 = fsSha256 env b\<rparr>) =
      Some \<lparr>mfVersion = 1, mfSize = int (length b), mfSHA256 = fsSha256 env b\<rparr>"
    by (rule manifest_reads_back) (use env b(4) in \<open>simp_all add: faithfulFiles_def\<close>)
  moreover have "readFile env p fs2 = Inr (fs2 p)" for p using env by (simp add: readFile_def faithfulFiles_def)
  ultimately show ?thesis using b(3,5) d' by (simp add: VerifyBackup_def Let_def EqualFold_def)
qed

text \<open>
  C4: a backup recovers the database. A backup that was created verifies against its manifest; when it is the latest one
  and a recovery from it succeeds, the next start on the recovered directory succeeds and gives the tables that were
  backed up, with no log replayed over them.
\<close>

theorem backup_recovers:
  assumes "faithfulFiles env" "stored d" "CreateBackup env backupDir stamp d fs = (Inr path, fs1)"
  shows "(\<exists>v. VerifyBackup env path fs1 = Inr v \<and> bvVerified v) \<and>
    (\<forall>paths dataDir fs2. LatestBackup backupDir paths = Inr path \<longrightarrow> RecoverLatest env backupDir paths dataDir fs1 = (Inr path, fs2) \<longrightarrow>
       (\<exists>d'. startUp env dataDir fs2 = (None, d') \<and> sameTables d d' \<and> stored d'))"
proof (intro conjI allI impI)
  show "\<exists>v. VerifyBackup env path fs1 = Inr v \<and> bvVerified v" using assms by (rule backup_verified)
  fix paths dataDir fs2 assume l: "LatestBackup backupDir paths = Inr path" "RecoverLatest env backupDir paths dataDir fs1 = (Inr path, fs2)"
  obtain b fs0 where b: "writeDb env path d fs = (None, fs0)" "fs1 path = fs0 path" using assms(1,3) by (rule CreateBackup_file)
  obtain d1 where d1: "readInto env path fs1 newDatabase = (True, None, d1)" "sameTables d d1" "stored d1"
    using readInto_written[OF assms(1,2) b(1), of fs1] b(2) by blast
  obtain fs' where w: "writeDb env (SnapshotPath dataDir) d1 fs1 = (None, fs')" "clearWAL env dataDir fs' = (None, fs2)"
    using l d1(1) by (auto simp: RecoverLatest_def split: sum.splits prod.splits option.splits)
  show "\<exists>d'. startUp env dataDir fs2 = (None, d') \<and> sameTables d d' \<and> stored d'"
    using startUp_written[OF assms(1) d1(3) w] sameTables_trans[OF d1(2)] by blast
qed

text \<open>Instances: files whose calls all succeed.\<close>

definition calmCalls :: "string \<Rightarrow> string \<Rightarrow> osCalls" where
  "calmCalls path data = \<lparr>osMkdir = None, osTemp = Inr (path @ ''.tmp''), osWrite = (length data, None), osSync = None, osClose = None,
             osRename = None, osRemove = None, osRename2 = None, osCleanup = True\<rparr>"

definition calmFiles :: fileEnv where
  "calmFiles = \<lparr>fsRead = (\<lambda>_. None), fsRemove = (\<lambda>_. None), fsWrite = calmCalls, fsMkdir = None, fsMarshal = (\<lambda>d. Inr (MarshalJSON False (\<lambda>_. noNils) d)),
     fsDeflate = Inr, fsInflate = (\<lambda>z n. Inflated z), fsSha256 = (\<lambda>b. ''e3b0'')\<rparr>"

lemma calm_faithful: "faithfulFiles calmFiles"
proof -
  have "validUTF8 ''e3b0''" by code_simp
  moreover have "nilsOnlyEmpty False (\<lambda>_. noNils) d" for d by (auto simp: nilsOnlyEmpty_def nilsFit_def noNils_def)
  ultimately show ?thesis by (auto simp: faithfulFiles_def calmFiles_def calmCalls_def)
qed

lemma calm_write:
  assumes "int (length (MarshalJSON False (\<lambda>_. noNils) d)) \<le> maxPayloadSize"
  shows "\<exists>fs'. writeDb calmFiles path d fs = (None, fs') \<and> (\<forall>p. p \<noteq> path \<longrightarrow> p \<noteq> path @ ''.tmp'' \<longrightarrow> fs' p = fs p)"
proof -
  obtain data where "WriteSnapshot (fsMarshal calmFiles) (fsDeflate calmFiles) d = Inr data"
    using assms by (simp add: WriteSnapshot_def wrap_def encode_def encodeFrame_def calmFiles_def snapshotKind_def walKind_def frame_consts)
  then show ?thesis by (simp add: writeDb_def calmFiles_def calmCalls_def atomicWrite_def renamed_def)
qed

lemma calm_clear: "\<exists>fs'. clearWAL calmFiles dir fs = (None, fs')"
  by (simp add: clearWAL_def removeFile_def calmFiles_def)

definition usersImage :: string where
  "usersImage = MarshalJSON False (\<lambda>_. noNils) twoUsersDb"

lemma usersImage_small: "length usersImage \<le> 1000"
  by code_simp

lemma restored_small: "case UnmarshalJSON decodeImage usersImage newDatabase of (e, d) \<Rightarrow> e = None \<and> length (MarshalJSON False (\<lambda>_. noNils) d) \<le> 1000"
  by code_simp

definition usersFiles :: fileSystem where
  "usersFiles = snd (writeDb calmFiles (SnapshotPath ''data'') twoUsersDb Map.empty)"

definition usersAgain :: database where
  "usersAgain = snd (UnmarshalJSON decodeImage usersImage newDatabase)"

lemma users_stored: "stored twoUsersDb"
  unfolding stored_def by (rule twoUsersDb_storable)

lemma usersAgain_restored:
  "UnmarshalJSON decodeImage usersImage newDatabase = (None, usersAgain)" "int (length (MarshalJSON False (\<lambda>_. noNils) usersAgain)) \<le> maxPayloadSize"
  "stored usersAgain" "sameTables twoUsersDb usersAgain"
proof -
  show u: "UnmarshalJSON decodeImage usersImage newDatabase = (None, usersAgain)" and "int (length (MarshalJSON False (\<lambda>_. noNils) usersAgain)) \<le> maxPayloadSize"
    using restored_small by (simp_all add: usersAgain_def maxPayloadSize_def split: prod.splits)
  obtain d' where "UnmarshalJSON decodeImage usersImage newDatabase = (None, d')" "sameTables twoUsersDb d'" "stored d'"
    using restore_written[OF twoUsersDb_storable refl, of newDatabase] unfolding stored_def usersImage_def by blast
  then show "stored usersAgain" "sameTables twoUsersDb usersAgain" using u by simp_all
qed

lemma calm_readInto:
  assumes "writeDb calmFiles path twoUsersDb fs = (None, fs')" "fs'' path = fs' path"
  shows "readInto calmFiles path fs'' newDatabase = (True, None, usersAgain)"
proof -
  obtain payload where "fsMarshal calmFiles twoUsersDb = Inr payload"
    "\<And>d0 d'. UnmarshalJSON decodeImage payload d0 = (None, d') \<Longrightarrow> readInto calmFiles path fs'' d0 = (True, None, d')"
    using readInto_exact[where fs'' = fs'', OF calm_faithful assms] by blast
  then show ?thesis using usersAgain_restored(1) by (simp add: calmFiles_def usersImage_def)
qed

lemma users_write: "\<exists>fs'. writeDb calmFiles path twoUsersDb fs = (None, fs') \<and> (\<forall>p. p \<noteq> path \<longrightarrow> p \<noteq> path @ ''.tmp'' \<longrightarrow> fs' p = fs p)"
  using calm_write[of twoUsersDb] usersImage_small by (simp add: usersImage_def maxPayloadSize_def)

lemma users_compact: "\<exists>fs2. Compact calmFiles ''data'' newDatabase usersFiles = (None, usersAgain, fs2)"
proof -
  obtain fs' where w: "writeDb calmFiles (SnapshotPath ''data'') twoUsersDb Map.empty = (None, fs')"
    "\<forall>p. p \<noteq> SnapshotPath ''data'' \<longrightarrow> p \<noteq> SnapshotPath ''data'' @ ''.tmp'' \<longrightarrow> fs' p = None" using users_write[of _ Map.empty] by auto
  then have "LoadSnapshot calmFiles ''data'' usersFiles newDatabase = (None, usersAgain)"
    using calm_readInto[OF w(1), of usersFiles] by (simp add: LoadSnapshot_def usersFiles_def)
  moreover have "usersFiles (WALPath ''data'') = None" "usersFiles (LegacyWALPath ''data'') = None"
    using w by (simp_all add: usersFiles_def SnapshotPath_def WALPath_def LegacyWALPath_def Join_def)
  then have "ReplayWAL_dir calmFiles ''data'' usersFiles usersAgain = (None, usersAgain)"
    by (simp add: ReplayWAL_dir_def readFile_def calmFiles_def replayLog_def ReplayWAL_def)
  moreover obtain fs1 where "writeDb calmFiles (SnapshotPath ''data'') usersAgain usersFiles = (None, fs1)" using calm_write[OF usersAgain_restored(2)] by blast
  moreover obtain fs2 where "clearWAL calmFiles ''data'' fs1 = (None, fs2)" using calm_clear by blast
  ultimately show ?thesis by (simp add: Compact_def)
qed

theorem compact_keeps_state_witness:
  "\<exists>fs2 d'. Compact calmFiles ''data'' newDatabase usersFiles = (None, usersAgain, fs2) \<and> startUp calmFiles ''data'' usersFiles = (None, usersAgain) \<and>
     startUp calmFiles ''data'' fs2 = (None, d') \<and> sameTables usersAgain d'"
proof -
  obtain fs2 where c: "Compact calmFiles ''data'' newDatabase usersFiles = (None, usersAgain, fs2)" using users_compact by blast
  then show ?thesis using compact_keeps_state[OF calm_faithful c usersAgain_restored(3)] by blast
qed

lemma users_backup: "\<exists>fs1. CreateBackup calmFiles ''b'' ''20250101'' twoUsersDb Map.empty = (Inr ''b/snapshot-20250101.spdb'', fs1)"
proof -
  let ?p = "''b/snapshot-20250101.spdb''"
  obtain fs' where w: "writeDb calmFiles ?p twoUsersDb Map.empty = (None, fs')" "\<forall>p. p \<noteq> ?p \<longrightarrow> p \<noteq> ?p @ ''.tmp'' \<longrightarrow> fs' p = None"
    using users_write[of ?p Map.empty] by auto
  have r: "readInto calmFiles ?p fs' newDatabase = (True, None, usersAgain)" using calm_readInto[OF w(1)] by simp
  obtain b where b: "fs' ?p = Some b"
    using w(1) atomicWrite_success by (fastforce simp: writeDb_def calmFiles_def calmCalls_def split: sum.splits)
  have "fs' (backupManifestPath ?p) = None" using w(2) by (simp add: backupManifestPath_def)
  then have "\<exists>v. VerifyBackup calmFiles ?p fs' = Inr v" using r b by (simp add: VerifyBackup_def readFile_def calmFiles_def Let_def)
  moreover have "\<exists>fs2. writeBackupManifest calmFiles ?p fs' = (None, fs2)"
    using b by (simp add: writeBackupManifest_def readFile_def calmFiles_def calmCalls_def Let_def)
  ultimately show ?thesis using w(1) by (auto simp: CreateBackup_def Join_def calmFiles_def Let_def)
qed

theorem backup_recovers_witness:
  "\<exists>fs1 fs2 d'. CreateBackup calmFiles ''b'' ''20250101'' twoUsersDb Map.empty = (Inr ''b/snapshot-20250101.spdb'', fs1) \<and>
     RecoverLatest calmFiles ''b'' (Inr [''b/snapshot-20250101.spdb'']) ''data'' fs1 = (Inr ''b/snapshot-20250101.spdb'', fs2) \<and>
     startUp calmFiles ''data'' fs2 = (None, d') \<and> sameTables twoUsersDb d'"
proof -
  let ?p = "''b/snapshot-20250101.spdb''"
  obtain fs1 where c: "CreateBackup calmFiles ''b'' ''20250101'' twoUsersDb Map.empty = (Inr ?p, fs1)" using users_backup by blast
  note ok = backup_recovers[OF calm_faithful users_stored c]
  obtain b fs0 where b: "writeDb calmFiles ?p twoUsersDb Map.empty = (None, fs0)" "fs1 ?p = fs0 ?p" using calm_faithful c by (rule CreateBackup_file)
  have l: "LatestBackup ''b'' (Inr [?p]) = Inr ?p" by (simp add: LatestBackup_def)
  obtain v where "VerifyBackup calmFiles ?p fs1 = Inr v" using ok by blast
  moreover have "readInto calmFiles ?p fs1 newDatabase = (True, None, usersAgain)" using calm_readInto b by blast
  moreover obtain fs' where "writeDb calmFiles (SnapshotPath ''data'') usersAgain fs1 = (None, fs')" using calm_write[OF usersAgain_restored(2)] by blast
  moreover obtain fs2 where "clearWAL calmFiles ''data'' fs' = (None, fs2)" using calm_clear by blast
  ultimately have "RecoverLatest calmFiles ''b'' (Inr [?p]) ''data'' fs1 = (Inr ?p, fs2)" by (simp add: RecoverLatest_def l)
  then show ?thesis using ok l c by blast
qed

end
