(* ===== verification/Remote.thy ===== *)
theory Remote
  imports Backups Cluster
begin

text \<open>
  The hosted server (\<^verbatim>\<open>internal/remote\<close>): configuration and credentials (\<^verbatim>\<open>config.go\<close>), responses
  (\<^verbatim>\<open>response.go\<close>), sessions (\<^verbatim>\<open>session.go\<close>), payloads, the handlers and the loop of a connection
  (\<^verbatim>\<open>server.go\<close>). The state shared by the connections is the record \<open>server\<close> of the local server; the helpers that
  \<^verbatim>\<open>session.go\<close> repeats from \<^verbatim>\<open>internal/server\<close> (\<^verbatim>\<open>equalFold\<close>, \<^verbatim>\<open>isWriteSQL\<close>, \<^verbatim>\<open>writeStatements\<close>,
  \<^verbatim>\<open>persistStatements\<close>) are those of \<open>Session\<close>.
\<close>

declare map_of_eq_Some_iff [simp del] Some_eq_map_of_iff [simp del]

section \<open>Configuration (config.go)\<close>

record Config =
  Host :: string
  Port :: int
  DataDir :: string
  Mode :: string
  Username :: string
  Password :: string
  TLSCertFile :: string
  TLSKeyFile :: string
  cfgMaxConnections :: int
  ReadTimeout :: int
  WriteTimeout :: int
  IdleTimeout :: int
  ShutdownTimeout :: int
  HealthAddr :: string
  ClusterAddr :: string
  AdvertiseAddr :: string
  JoinAddrs :: "string list"
  Region :: string
  cfgLimits :: Limits

definition second :: int where
  "second = 1000000000"

definition noLimitsSet :: Limits where
  "noLimitsSet = \<lparr>QueryTimeout = 0, MaxResultRows = 0, MaxResultBytes = 0, MaxInflightQueries = 0, AcquireTimeout = 0, MaxConnections = 0,
     MaxBatchStatements = 0, MaxTxStatements = 0, MaxTxDatabaseRows = 0, MaxRequestBytes = 0\<rparr>"

definition defaults :: Config where
  "defaults = \<lparr>Host = ''127.0.0.1'', Port = 7432, DataDir = ''./data'', Mode = ''wal'', Username = [], Password = [], TLSCertFile = [], TLSKeyFile = [],
     cfgMaxConnections = 128, ReadTimeout = 60 * second, WriteTimeout = 30 * second, IdleTimeout = 5 * 60 * second, ShutdownTimeout = 10 * second,
     HealthAddr = [], ClusterAddr = [], AdvertiseAddr = [], JoinAddrs = [], Region = [], cfgLimits = noLimitsSet\<rparr>"

text \<open>A flag that is set wins: a text that is not empty, a number that is not zero.\<close>

definition orText :: "string \<Rightarrow> string \<Rightarrow> string" where
  "orText flag old = (if flag \<noteq> [] then flag else old)"

definition orNumber :: "int \<Rightarrow> int \<Rightarrow> int" where
  "orNumber flag old = (if flag \<noteq> 0 then flag else old)"

definition mergeLimits :: "Limits \<Rightarrow> Limits \<Rightarrow> Limits" where
  "mergeLimits dst src =
     \<lparr>QueryTimeout = orNumber (QueryTimeout src) (QueryTimeout dst), MaxResultRows = orNumber (MaxResultRows src) (MaxResultRows dst),
      MaxResultBytes = orNumber (MaxResultBytes src) (MaxResultBytes dst), MaxInflightQueries = orNumber (MaxInflightQueries src) (MaxInflightQueries dst),
      AcquireTimeout = orNumber (AcquireTimeout src) (AcquireTimeout dst), MaxConnections = orNumber (MaxConnections src) (MaxConnections dst),
      MaxBatchStatements = orNumber (MaxBatchStatements src) (MaxBatchStatements dst), MaxTxStatements = orNumber (MaxTxStatements src) (MaxTxStatements dst),
      MaxTxDatabaseRows = orNumber (MaxTxDatabaseRows src) (MaxTxDatabaseRows dst), MaxRequestBytes = orNumber (MaxRequestBytes src) (MaxRequestBytes dst)\<rparr>"

definition mergeFlags :: "Config \<Rightarrow> Config \<Rightarrow> Config" where
  "mergeFlags flag cfg =
     \<lparr>Host = orText (Host flag) (Host cfg), Port = orNumber (Port flag) (Port cfg), DataDir = orText (DataDir flag) (DataDir cfg),
      Mode = orText (Mode flag) (Mode cfg), Username = orText (Username flag) (Username cfg), Password = orText (Password flag) (Password cfg),
      TLSCertFile = orText (TLSCertFile flag) (TLSCertFile cfg), TLSKeyFile = orText (TLSKeyFile flag) (TLSKeyFile cfg),
      cfgMaxConnections = orNumber (cfgMaxConnections flag) (cfgMaxConnections cfg), ReadTimeout = orNumber (ReadTimeout flag) (ReadTimeout cfg),
      WriteTimeout = orNumber (WriteTimeout flag) (WriteTimeout cfg), IdleTimeout = orNumber (IdleTimeout flag) (IdleTimeout cfg),
      ShutdownTimeout = orNumber (ShutdownTimeout flag) (ShutdownTimeout cfg), HealthAddr = orText (HealthAddr flag) (HealthAddr cfg),
      ClusterAddr = orText (ClusterAddr flag) (ClusterAddr cfg), AdvertiseAddr = orText (AdvertiseAddr flag) (AdvertiseAddr cfg),
      JoinAddrs = (if JoinAddrs flag \<noteq> [] then JoinAddrs flag else JoinAddrs cfg), Region = orText (Region flag) (Region cfg),
      cfgLimits = mergeLimits (cfgLimits cfg) (cfgLimits flag)\<rparr>"

text \<open>
  The environment: \<open>getenv\<close> is \<^verbatim>\<open>os.Getenv\<close>, with no text for a variable that is not set, and \<open>parseDuration\<close> is
  \<^verbatim>\<open>time.ParseDuration\<close> in nanoseconds, None for an error. \<^verbatim>\<open>strconv.Atoi\<close> is \<open>ParseInt\<close> on 64 bits.
\<close>

definition envNumber :: "string \<Rightarrow> int \<Rightarrow> int" where
  "envNumber v old = (if v = [] then old else case ParseInt v of Inl e \<Rightarrow> old | Inr n \<Rightarrow> n)"

definition envDuration :: "(string \<Rightarrow> int option) \<Rightarrow> string \<Rightarrow> int \<Rightarrow> int" where
  "envDuration parseDuration v old = (if v = [] then old else case parseDuration v of None \<Rightarrow> old | Some n \<Rightarrow> n)"

definition envLimits :: "(string \<Rightarrow> string) \<Rightarrow> (string \<Rightarrow> int option) \<Rightarrow> Limits \<Rightarrow> Limits" where
  "envLimits getenv parseDuration l =
     l\<lparr>QueryTimeout := envDuration parseDuration (getenv ''SUPERDB_QUERY_TIMEOUT'') (QueryTimeout l),
       AcquireTimeout := envDuration parseDuration (getenv ''SUPERDB_QUERY_QUEUE_TIMEOUT'') (AcquireTimeout l),
       MaxResultRows := envNumber (getenv ''SUPERDB_MAX_RESULT_ROWS'') (MaxResultRows l),
       MaxResultBytes := envNumber (getenv ''SUPERDB_MAX_RESULT_BYTES'') (MaxResultBytes l),
       MaxInflightQueries := envNumber (getenv ''SUPERDB_MAX_INFLIGHT_QUERIES'') (MaxInflightQueries l),
       MaxBatchStatements := envNumber (getenv ''SUPERDB_MAX_BATCH_STATEMENTS'') (MaxBatchStatements l),
       MaxTxStatements := envNumber (getenv ''SUPERDB_MAX_TX_STATEMENTS'') (MaxTxStatements l),
       MaxTxDatabaseRows := envNumber (getenv ''SUPERDB_MAX_TX_DATABASE_ROWS'') (MaxTxDatabaseRows l)\<rparr>"

definition envConfig :: "(string \<Rightarrow> string) \<Rightarrow> (string \<Rightarrow> int option) \<Rightarrow> Config \<Rightarrow> Config" where
  "envConfig getenv parseDuration cfg =
     cfg\<lparr>Host := orText (getenv ''SUPERDB_HOST'') (Host cfg),
         Port := (if getenv ''SUPERDB_PORT'' \<noteq> [] then envNumber (getenv ''SUPERDB_PORT'') (Port cfg) else envNumber (getenv ''PORT'') (Port cfg)),
         DataDir := orText (getenv ''SUPERDB_DATA_DIR'') (DataDir cfg), Mode := orText (getenv ''SUPERDB_MODE'') (Mode cfg),
         Username := orText (getenv ''SUPERDB_USERNAME'') (Username cfg), Password := orText (getenv ''SUPERDB_PASSWORD'') (Password cfg),
         TLSCertFile := orText (getenv ''SUPERDB_TLS_CERT'') (TLSCertFile cfg), TLSKeyFile := orText (getenv ''SUPERDB_TLS_KEY'') (TLSKeyFile cfg),
         cfgMaxConnections := envNumber (getenv ''SUPERDB_MAX_CONNECTIONS'') (cfgMaxConnections cfg),
         HealthAddr := orText (getenv ''SUPERDB_HEALTH_ADDR'') (HealthAddr cfg),
         cfgLimits := envLimits getenv parseDuration (cfgLimits cfg)\<rparr>"

definition LoadConfig :: "(string \<Rightarrow> string) \<Rightarrow> (string \<Rightarrow> int option) \<Rightarrow> Config \<Rightarrow> Config" where
  "LoadConfig getenv parseDuration flag =
     (let cfg = mergeFlags flag (envConfig getenv parseDuration defaults)
      in if cfgMaxConnections cfg \<le> 0 then cfg\<lparr>cfgMaxConnections := 128\<rparr> else cfg)"

section \<open>Credentials (config.go)\<close>

text \<open>\<open>sha\<close> is \<^verbatim>\<open>sha256.Sum256\<close>; \<^verbatim>\<open>subtle.ConstantTimeCompare\<close> compares for equality.\<close>

record Authenticator =
  usernameHash :: string
  passwordHash :: string
  auRequired :: bool

definition NewAuthenticator :: "(string \<Rightarrow> string) \<Rightarrow> string \<Rightarrow> string \<Rightarrow> Authenticator" where
  "NewAuthenticator sha username password =
     (if username = [] \<and> password = [] then \<lparr>usernameHash = [], passwordHash = [], auRequired = False\<rparr>
      else let user = (if username = [] then ''admin'' else username)
           in \<lparr>usernameHash = sha user, passwordHash = sha password, auRequired = True\<rparr>)"

definition Required :: "Authenticator \<Rightarrow> bool" where
  "Required a = auRequired a"

definition Verify :: "(string \<Rightarrow> string) \<Rightarrow> Authenticator \<Rightarrow> string \<Rightarrow> string \<Rightarrow> bool" where
  "Verify sha a username password =
     (if \<not> auRequired a then True else sha username = usernameHash a \<and> sha password = passwordHash a)"

section \<open>Responses (response.go)\<close>

definition optionalText :: "string \<Rightarrow> string \<Rightarrow> string \<Rightarrow> string" where
  "optionalText out key v = (if v \<noteq> [] then appendJSONString (out @ '','' @ key @ '':'') v else out)"

definition appendResponseJSON :: "string \<Rightarrow> goval Response \<Rightarrow> string res" where
  "appendResponseJSON buf r =
     (let out1 = buf @ ''{'' @ ''\"request_id\":'' @ fmtNat (unat (respRequestID r));
          out2 = appendJSONString (out1 @ '',\"status\":'') (respStatus r);
          out3 = optionalText out2 ''\"error_code\"'' (respErrorCode r);
          out4 = optionalText out3 ''\"error_message\"'' (respErrorMessage r);
          out5 = (if respColumns r \<noteq> [] then commaLoop appendJSONString 0 (out4 @ '',\"columns\":['') (respColumns r) @ '']'' else out4)
      in case (if respRows r \<noteq> [] then rowsLoop 0 (out5 @ '',\"rows\":['') (respRows r) else Inr out5) of
           Inl e \<Rightarrow> Inl e
         | Inr rowsOut \<Rightarrow>
             let out6 = (if respRows r \<noteq> [] then rowsOut @ '']'' else rowsOut);
                 out7 = (if respAffectedRows r \<noteq> 0 then out6 @ '',\"affected_rows\":'' @ FormatInt (respAffectedRows r) else out6);
                 out8 = optionalText out7 ''\"message\"'' (respMessage r);
                 out9 = optionalText out8 ''\"leader_addr\"'' (respLeaderAddr r);
                 out10 = (if respRetryable r then out9 @ '',\"retryable\":true'' else out9)
             in Inr (out10 @ ''}''))"

text \<open>
  The fast encoder fails on a float that is not finite; \<^verbatim>\<open>wire.MustJSON\<close> then fails on it too and panics, which is None
  here.
\<close>

definition mustResponseJSON :: "goval Response \<Rightarrow> string option" where
  "mustResponseJSON r = (case appendResponseJSON [] r of Inl e \<Rightarrow> None | Inr buf \<Rightarrow> Some buf)"

text \<open>An error response has no rows, so its encoding does not fail.\<close>

definition errorResponse :: "64 word \<Rightarrow> string \<Rightarrow> string \<Rightarrow> string" where
  "errorResponse requestID code msg = (case mustResponseJSON (ErrorResponse requestID code msg) of Some b \<Rightarrow> b | None \<Rightarrow> [])"

section \<open>Sessions (session.go)\<close>

text \<open>
  What a hosted server is given: the environment of its files, its mode, limits and log writer as in \<open>Session\<close>, the node
  of a cluster, the configured user and the authenticator, and the library: \<open>hsSha\<close> is SHA-256, \<open>hsAnys\<close> converts the
  JSON of parameters and \<open>hsQuote\<close> is \<^verbatim>\<open>strconv.Quote\<close>.
\<close>

record 'c hosted =
  hsEnv :: environment
  hsMode :: string
  hsLimits :: Limits
  hsWriter :: "bool option"
  hsCluster :: "(ctx \<Rightarrow> string \<Rightarrow> 'c \<Rightarrow> ((clusterError + error) + result) \<times> 'c) option"
  hsUsername :: string
  hsAuth :: Authenticator
  hsSha :: "string \<Rightarrow> string"
  hsAnys :: "json \<Rightarrow> param list option"
  hsQuote :: "string \<Rightarrow> string"

record remoteSession =
  rsTx :: "database option"
  rsTxSQL :: "string list"
  rsAuthed :: bool
  rsDatabase :: string
  rsAuthFails :: nat

definition localConfig :: "'c hosted \<Rightarrow> 'c config" where
  "localConfig h = \<lparr>cfMode = hsMode h, cfLimits = hsLimits h, cfWriter = hsWriter h, cfCluster = None\<rparr>"

definition remoteActive :: "remoteSession \<Rightarrow> 'c server \<Rightarrow> database" where
  "remoteActive s srv = (case rsTx s of Some t \<Rightarrow> t | None \<Rightarrow> srvDb srv)"

text \<open>\<^verbatim>\<open>err.Error()\<close>.\<close>

fun errorString :: "(string \<Rightarrow> string) \<Rightarrow> error \<Rightarrow> string" where
  "errorString quote (Msg s) = s"
| "errorString quote (NumError f input reason) =
     ''strconv.'' @ f @ '': parsing '' @ quote input @ '': '' @ (case reason of ErrSyntax \<Rightarrow> ''invalid syntax'' | ErrRange \<Rightarrow> ''value out of range'')"
| "errorString quote DeadlineExceeded = ''context deadline exceeded''"
| "errorString quote Canceled = ''context canceled''"
| "errorString quote (TooLarge s) = s"
| "errorString quote (Panic s) = s"
| "errorString quote Diverge = []"
| "errorString quote (Wrapped prefix e) = prefix @ errorString quote e"

record execError =
  eeCode :: string
  eeMsg :: string
  eeLeaderAddr :: string
  eeRetryable :: bool

definition execErr :: "string \<Rightarrow> string \<Rightarrow> execError" where
  "execErr code msg = \<lparr>eeCode = code, eeMsg = msg, eeLeaderAddr = [], eeRetryable = False\<rparr>"

text \<open>A statement is answered, fails with an error for the client, or panics.\<close>

datatype execResult = Panicked | Failed execError | Done result

definition bind_remote :: "string \<Rightarrow> param list \<Rightarrow> (execError + error) + string" where
  "bind_remote sql params =
     (if params = [] then
        (if PlaceholderCount sql > 0 then Inl (Inl (execErr ''INVALID_REQUEST'' ''query has placeholders but no params were supplied'')) else Inr sql)
      else case BindParams sql params of Inl e \<Rightarrow> Inl (Inr e) | Inr bound \<Rightarrow> Inr bound)"

definition queryErrorCode :: "(string \<Rightarrow> string) \<Rightarrow> error \<Rightarrow> string" where
  "queryErrorCode quote e =
     (let msg = ToLower (errorString quote e) in
      if Contains msg ''table not found'' then ''NOT_FOUND''
      else if Contains msg ''unsupported'' then ''UNSUPPORTED''
      else ''QUERY_ERROR'')"

definition mapEngineError :: "(string \<Rightarrow> string) \<Rightarrow> error \<Rightarrow> execError" where
  "mapEngineError quote e =
     (if rootCause e = DeadlineExceeded then (execErr ''TIMEOUT'' ''query timeout exceeded'')\<lparr>eeRetryable := True\<rparr>
      else if rootCause e = Canceled then (execErr ''TIMEOUT'' ''query canceled'')\<lparr>eeRetryable := True\<rparr>
      else case rootCause e of
        TooLarge s \<Rightarrow> execErr ''RESULT_TOO_LARGE'' (errorString quote e)
      | _ \<Rightarrow> execErr (queryErrorCode quote e) (errorString quote e))"

definition noLeaderError :: execError where
  "noLeaderError = (execErr ''NOT_LEADER'' ''no leader available for write'')\<lparr>eeRetryable := True\<rparr>"

definition mapClusterError :: "(string \<Rightarrow> string) \<Rightarrow> clusterError + error \<Rightarrow> execError" where
  "mapClusterError quote err =
     (case err of
        Inl ce \<Rightarrow>
          (case ceCode ce of
             CodeNoLeader \<Rightarrow> noLeaderError
           | CodeNoQuorum \<Rightarrow> noLeaderError
           | CodeInvalidArgument \<Rightarrow> execErr ''INVALID_REQUEST'' (errorString quote (ceMessage ce))
           | CodeNotFound \<Rightarrow> execErr ''NOT_FOUND'' (errorString quote (ceMessage ce))
           | CodeRangeNotFound \<Rightarrow> execErr ''NOT_FOUND'' (errorString quote (ceMessage ce))
           | _ \<Rightarrow> execErr ''QUERY_ERROR'' (errorString quote (ceMessage ce)))
      | Inr e \<Rightarrow>
          let msg = errorString quote e; lower = ToLower msg in
          if Contains lower ''no leader'' then noLeaderError
          else if Contains lower ''table not found'' then execErr ''NOT_FOUND'' msg
          else if Contains lower ''unsupported'' then execErr ''UNSUPPORTED'' msg
          else execErr ''QUERY_ERROR'' msg)"

definition isTxKeyword :: "string \<Rightarrow> bool" where
  "isTxKeyword s \<longleftrightarrow> equalFold s ''BEGIN'' \<or> equalFold s ''COMMIT'' \<or> equalFold s ''ROLLBACK''"

definition execCluster ::
  "'c hosted \<Rightarrow> (ctx \<Rightarrow> string \<Rightarrow> 'c \<Rightarrow> ((clusterError + error) + result) \<times> 'c) \<Rightarrow> ctx \<Rightarrow> string \<Rightarrow> 'c server \<Rightarrow> execResult \<times> 'c server" where
  "execCluster h c ctx0 raw srv =
     (if isTxKeyword (TrimSpace raw) then
        (Failed (execErr ''UNSUPPORTED'' ''session transactions are not supported in cluster mode; send atomic batches instead''), srv)
      else
        let ctx = (if QueryTimeout (hsLimits h) > 0 then deadline (hsEnv h) (srvClock srv) else ctx0);
            lim = MaxResultRows (hsLimits h)
        in case c ctx raw (srvCluster srv) of
             (r, cs) \<Rightarrow>
               ((case r of
                   Inl err \<Rightarrow> Failed (mapClusterError (hsQuote h) err)
                 | Inr res \<Rightarrow>
                     if lim > 0 \<and> int (length (resRows res)) > lim then
                       Failed (execErr ''RESULT_TOO_LARGE''
                         (''result row limit exceeded: '' @ fmtNat (length (resRows res)) @ '' rows (limit '' @ FormatInt lim @ '')''))
                     else Done res),
                srv\<lparr>srvCluster := cs, srvClock := Suc (srvClock srv)\<rparr>))"

definition remoteBegin :: "'c hosted \<Rightarrow> remoteSession \<Rightarrow> 'c server \<Rightarrow> execResult \<times> remoteSession" where
  "remoteBegin h s srv =
     (let lim = MaxTxDatabaseRows (hsLimits h); n = RowCount (srvDb srv) in
      if rsTx s \<noteq> None then (Failed (execErr ''INVALID_REQUEST'' ''transaction already active''), s)
      else if lim > 0 \<and> int n > lim then
        (Failed ((execErr ''SERVER_BUSY'' (''transaction rejected: database holds '' @ fmtNat n @ '' rows (limit '' @ FormatInt lim @ '')''))\<lparr>eeRetryable := True\<rparr>), s)
      else (Done (noResult\<lparr>Message := ''BEGIN ok''\<rparr>), s\<lparr>rsTx := Some (Clone (srvDb srv)), rsTxSQL := []\<rparr>))"

definition remoteRollback :: "remoteSession \<Rightarrow> execResult \<times> remoteSession" where
  "remoteRollback s =
     (if rsTx s = None then (Failed (execErr ''INVALID_REQUEST'' ''no transaction active''), s)
      else (Done (noResult\<lparr>Message := ''ROLLBACK ok''\<rparr>), s\<lparr>rsTx := None, rsTxSQL := []\<rparr>))"

definition remoteCommit :: "'c hosted \<Rightarrow> remoteSession \<Rightarrow> 'c server \<Rightarrow> execResult \<times> remoteSession \<times> 'c server" where
  "remoteCommit h s srv =
     (case rsTx s of
        None \<Rightarrow> (Failed (execErr ''INVALID_REQUEST'' ''no transaction active''), s, srv)
      | Some t \<Rightarrow>
          let stmts = writeStatements (rsTxSQL s); ended = s\<lparr>rsTx := None, rsTxSQL := []\<rparr> in
          if stmts = [] then (Done (noResult\<lparr>Message := ''COMMIT ok''\<rparr>), ended, srv)
          else case commitImage (hsEnv h) (localConfig h) stmts t srv of
            (Some e, srv') \<Rightarrow> (Failed (execErr ''QUERY_ERROR'' (''commit failed: '' @ errorString (hsQuote h) e)), s, srv')
          | (None, srv') \<Rightarrow> (Done (noResult\<lparr>Message := ''COMMIT ok''\<rparr>), ended, srv'))"

definition panics :: "error \<Rightarrow> bool" where
  "panics e = (case rootCause e of Panic _ \<Rightarrow> True | _ \<Rightarrow> False)"

definition engineFailure :: "'c hosted \<Rightarrow> error \<Rightarrow> execResult" where
  "engineFailure h e = (if panics e then Panicked else Failed (mapEngineError (hsQuote h) e))"

definition remoteStatement :: "'c hosted \<Rightarrow> ctx \<Rightarrow> string \<Rightarrow> remoteSession \<Rightarrow> 'c server \<Rightarrow> execResult \<times> remoteSession \<times> 'c server" where
  "remoteStatement h ctx raw s srv0 =
     (let srv = srv0\<lparr>srvClock := Suc (srvClock srv0)\<rparr>; lim = MaxTxStatements (hsLimits h) in
      case ExecWithOptions ctx raw (MaxResultRows (hsLimits h)) (remoteActive s srv) of
        (r, d) \<Rightarrow>
          (case rsTx s of
             Some t \<Rightarrow>
               (case r of
                  Inl e \<Rightarrow> (engineFailure h e, s\<lparr>rsTx := Some d\<rparr>, srv)
                | Inr res \<Rightarrow>
                    if isWriteSQL raw then
                      (if lim > 0 \<and> int (length (rsTxSQL s)) \<ge> lim then
                         (Failed (execErr ''INVALID_REQUEST'' (''transaction aborted: exceeded '' @ FormatInt lim @ '' buffered statements'')),
                          s\<lparr>rsTx := None, rsTxSQL := []\<rparr>, srv)
                       else (Done res, s\<lparr>rsTx := Some d, rsTxSQL := rsTxSQL s @ [raw]\<rparr>, srv))
                    else (Done res, s\<lparr>rsTx := Some d\<rparr>, srv))
           | None \<Rightarrow>
               let srv1 = srv\<lparr>srvDb := d\<rparr> in
               (case r of
                  Inl e \<Rightarrow> (engineFailure h e, s, srv1)
                | Inr res \<Rightarrow>
                    if \<not> isWriteSQL raw then (Done res, s, srv1)
                    else case persistStatements (hsEnv h) (localConfig h) [raw] d srv1 of
                      (Some e, srv2) \<Rightarrow> (Failed (execErr ''INTERNAL_ERROR'' (''persist failed: '' @ errorString (hsQuote h) e)), s, srv2)
                    | (None, srv2) \<Rightarrow> (Done res, s, srv2))))"

definition execOne :: "'c hosted \<Rightarrow> ctx \<Rightarrow> string \<Rightarrow> remoteSession \<Rightarrow> 'c server \<Rightarrow> execResult \<times> remoteSession \<times> 'c server" where
  "execOne h ctx raw s srv =
     (case hsCluster h of
        Some c \<Rightarrow> (case execCluster h c ctx raw srv of (r, srv') \<Rightarrow> (r, s, srv'))
      | None \<Rightarrow>
          let sql = TrimSpace raw in
          if equalFold sql ''BEGIN'' then (case remoteBegin h s srv of (r, s') \<Rightarrow> (r, s', srv))
          else if equalFold sql ''ROLLBACK'' then (case remoteRollback s of (r, s') \<Rightarrow> (r, s', srv))
          else if equalFold sql ''COMMIT'' then remoteCommit h s srv
          else remoteStatement h ctx raw s srv)"

section \<open>Payloads (wire.go)\<close>

definition MaxQuerySize :: int where
  "MaxQuerySize = 4194304"

definition TypeResponse :: "8 word" where "TypeResponse = 0x80"
definition TypeHello :: "8 word" where "TypeHello = 1"
definition TypeAuth :: "8 word" where "TypeAuth = 2"
definition TypePing :: "8 word" where "TypePing = 3"
definition TypeQuery :: "8 word" where "TypeQuery = 4"
definition TypeExec :: "8 word" where "TypeExec = 5"
definition TypeBegin :: "8 word" where "TypeBegin = 6"
definition TypeCommit :: "8 word" where "TypeCommit = 7"
definition TypeRollback :: "8 word" where "TypeRollback = 8"
definition TypeClose :: "8 word" where "TypeClose = 9"

lemmas frame_types = TypeResponse_def TypeHello_def TypeAuth_def TypePing_def TypeQuery_def TypeExec_def TypeBegin_def TypeCommit_def
  TypeRollback_def TypeClose_def

record AuthPayload =
  apMechanism :: string
  apUsername :: string
  apPassword :: string
  apToken :: string
  apDatabase :: string

record QueryPayload =
  qpSQL :: string
  qpParams :: "param list"
  qpDatabase :: string

text \<open>\<^verbatim>\<open>json.Unmarshal\<close> into the two structs, member by member, as for requests of the local server.\<close>

definition authFields :: "string list" where
  "authFields = [''mechanism'', ''username'', ''password'', ''token'', ''database'']"

definition bindAuth :: "string \<times> json \<Rightarrow> AuthPayload \<Rightarrow> AuthPayload option" where
  "bindAuth m p =
     (case m of (key, v) \<Rightarrow>
        case fieldAmong authFields key of
          None \<Rightarrow> Some p
        | Some f \<Rightarrow>
            if f = ''mechanism'' then map_option (\<lambda>s. p\<lparr>apMechanism := s\<rparr>) (bindString v (apMechanism p))
            else if f = ''username'' then map_option (\<lambda>s. p\<lparr>apUsername := s\<rparr>) (bindString v (apUsername p))
            else if f = ''password'' then map_option (\<lambda>s. p\<lparr>apPassword := s\<rparr>) (bindString v (apPassword p))
            else if f = ''token'' then map_option (\<lambda>s. p\<lparr>apToken := s\<rparr>) (bindString v (apToken p))
            else map_option (\<lambda>s. p\<lparr>apDatabase := s\<rparr>) (bindString v (apDatabase p)))"

definition queryFields :: "string list" where
  "queryFields = [''sql'', ''params'', ''database'']"

definition bindQuery :: "(json \<Rightarrow> param list option) \<Rightarrow> string \<times> json \<Rightarrow> QueryPayload \<Rightarrow> QueryPayload option" where
  "bindQuery anys m p =
     (case m of (key, v) \<Rightarrow>
        case fieldAmong queryFields key of
          None \<Rightarrow> Some p
        | Some f \<Rightarrow>
            if f = ''sql'' then map_option (\<lambda>s. p\<lparr>qpSQL := s\<rparr>) (bindString v (qpSQL p))
            else if f = ''params'' then map_option (\<lambda>ps. p\<lparr>qpParams := ps\<rparr>) (anys v)
            else map_option (\<lambda>s. p\<lparr>qpDatabase := s\<rparr>) (bindString v (qpDatabase p)))"

fun bindEach :: "(string \<times> json \<Rightarrow> 'p \<Rightarrow> 'p option) \<Rightarrow> (string \<times> json) list \<Rightarrow> 'p \<Rightarrow> 'p option" where
  "bindEach f [] p = Some p"
| "bindEach f (m # ms) p = (case f m p of None \<Rightarrow> None | Some p' \<Rightarrow> bindEach f ms p')"

definition unmarshalInto :: "(string \<times> json \<Rightarrow> 'p \<Rightarrow> 'p option) \<Rightarrow> 'p \<Rightarrow> string \<Rightarrow> 'p option" where
  "unmarshalInto f zero payload =
     (case decodeJson payload of
        Some (JObj ms) \<Rightarrow> bindEach f ms zero
      | Some JNull \<Rightarrow> Some zero
      | _ \<Rightarrow> None)"

definition unmarshalAuth :: "string \<Rightarrow> AuthPayload option" where
  "unmarshalAuth = unmarshalInto bindAuth \<lparr>apMechanism = [], apUsername = [], apPassword = [], apToken = [], apDatabase = []\<rparr>"

definition unmarshalQuery :: "(json \<Rightarrow> param list option) \<Rightarrow> string \<Rightarrow> QueryPayload option" where
  "unmarshalQuery anys = unmarshalInto (bindQuery anys) \<lparr>qpSQL = [], qpParams = [], qpDatabase = []\<rparr>"

section \<open>The server (server.go)\<close>

definition maxAuthFailures :: nat where
  "maxAuthFailures = 5"

record Metrics =
  mQueries :: "64 word"
  mFailedQueries :: "64 word"
  mRejectedQueries :: "64 word"
  mAuthFailures :: "64 word"
  mBytesRx :: "64 word"
  mBytesTx :: "64 word"
  mLatencyNanos :: "64 word"

definition failed :: "Metrics \<Rightarrow> Metrics" where
  "failed m = m\<lparr>mFailedQueries := mFailedQueries m + 1\<rparr>"

text \<open>The answer to a frame: None is a panic.\<close>

type_synonym 'c answer = "string option \<times> remoteSession \<times> 'c server \<times> Metrics"

definition isQueryFrame :: "8 word \<Rightarrow> bool" where
  "isQueryFrame t \<longleftrightarrow> t \<in> {TypeQuery, TypeExec, TypeBegin, TypeCommit, TypeRollback}"

definition remoteContext :: "'c hosted \<Rightarrow> 'c server \<Rightarrow> ctx" where
  "remoteContext h srv = (if QueryTimeout (hsLimits h) = 0 then background else deadline (hsEnv h) (srvClock srv))"

definition credentials :: "'c hosted \<Rightarrow> AuthPayload \<Rightarrow> string \<times> string" where
  "credentials h p =
     ((if apUsername p = [] then (if hsUsername h = [] then ''admin'' else hsUsername h) else apUsername p),
      (if apMechanism p = ''token'' \<or> apMechanism p = [] \<and> apToken p \<noteq> [] \<and> apPassword p = [] then apToken p else apPassword p))"

definition handleAuth :: "'c hosted \<Rightarrow> 64 word \<Rightarrow> string \<Rightarrow> remoteSession \<Rightarrow> 'c server \<Rightarrow> Metrics \<Rightarrow> 'c answer" where
  "handleAuth h i payload s srv m =
     (case unmarshalAuth payload of
        None \<Rightarrow> (Some (errorResponse i ''INVALID_REQUEST'' ''invalid auth payload''), s, srv, failed m)
      | Some p \<Rightarrow>
          let s1 = (if apDatabase p \<noteq> [] then s\<lparr>rsDatabase := apDatabase p\<rparr> else s); (user, secret) = credentials h p in
          if Verify (hsSha h) (hsAuth h) user secret then
            (mustResponseJSON ((OKResponse i)\<lparr>respMessage := ''authenticated''\<rparr>), s1\<lparr>rsAuthed := True\<rparr>, srv, m)
          else (Some (errorResponse i ''AUTH_FAILED'' ''authentication failed''), s1\<lparr>rsAuthFails := Suc (rsAuthFails s1)\<rparr>, srv,
                failed (m\<lparr>mAuthFailures := mAuthFailures m + 1\<rparr>)))"

definition denied :: "'c hosted \<Rightarrow> remoteSession \<Rightarrow> bool" where
  "denied h s \<longleftrightarrow> Required (hsAuth h) \<and> \<not> rsAuthed s"

definition handleQuery :: "'c hosted \<Rightarrow> 64 word \<Rightarrow> string \<Rightarrow> remoteSession \<Rightarrow> 'c server \<Rightarrow> Metrics \<Rightarrow> 'c answer" where
  "handleQuery h i payload s srv m =
     (if denied h s then (Some (errorResponse i ''AUTH_REQUIRED'' ''authentication required''), s, srv, failed m)
      else case unmarshalQuery (hsAnys h) payload of
        None \<Rightarrow> (Some (errorResponse i ''INVALID_REQUEST'' ''invalid request payload''), s, srv, failed m)
      | Some p \<Rightarrow>
          if qpSQL p = [] then (Some (errorResponse i ''INVALID_REQUEST'' ''sql required''), s, srv, failed m)
          else if int (length (qpSQL p)) > MaxQuerySize then (Some (errorResponse i ''INVALID_REQUEST'' ''query too large''), s, srv, failed m)
          else case bind_remote (qpSQL p) (qpParams p) of
            Inl (Inl ee) \<Rightarrow> (Some (errorResponse i (eeCode ee) (eeMsg ee)), s, srv, failed m)
          | Inl (Inr e) \<Rightarrow> (Some (errorResponse i ''INVALID_REQUEST'' (errorString (hsQuote h) e)), s, srv, failed m)
          | Inr bound \<Rightarrow>
              (case execOne h (remoteContext h srv) bound s srv of
                 (Panicked, s', srv') \<Rightarrow> (None, s', srv', m)
               | (Failed ee, s', srv') \<Rightarrow>
                   (mustResponseJSON ((ErrorResponse i (eeCode ee) (eeMsg ee))\<lparr>respRetryable := eeRetryable ee, respLeaderAddr := eeLeaderAddr ee\<rparr>),
                    s', srv', failed m)
               | (Done res, s', srv') \<Rightarrow>
                   (mustResponseJSON ((OKResponse i)\<lparr>respColumns := resColumns res, respRows := resRows res,
                      respAffectedRows := int (Affected res), respMessage := Message res\<rparr>), s', srv', m)))"

definition handleTx :: "'c hosted \<Rightarrow> string \<Rightarrow> 64 word \<Rightarrow> remoteSession \<Rightarrow> 'c server \<Rightarrow> Metrics \<Rightarrow> 'c answer" where
  "handleTx h keyword i s srv m =
     (if denied h s then (Some (errorResponse i ''AUTH_REQUIRED'' ''authentication required''), s, srv, m)
      else case execOne h background keyword s srv of
        (Panicked, s', srv') \<Rightarrow> (None, s', srv', m)
      | (Failed ee, s', srv') \<Rightarrow> (Some (errorResponse i (eeCode ee) (eeMsg ee)), s', srv', failed m)
      | (Done res, s', srv') \<Rightarrow> (mustResponseJSON ((OKResponse i)\<lparr>respMessage := Message res\<rparr>), s', srv', m))"

definition handle :: "'c hosted \<Rightarrow> Header \<Rightarrow> string \<Rightarrow> remoteSession \<Rightarrow> 'c server \<Rightarrow> Metrics \<Rightarrow> 'c answer" where
  "handle h hdr payload s srv m =
     (let i = hRequestID hdr; t = hType hdr; say = (\<lambda>text. (mustResponseJSON ((OKResponse i)\<lparr>respMessage := text\<rparr>), s, srv, m)) in
      if t = TypeHello then say ''SDB1 v1''
      else if t = TypeAuth then handleAuth h i payload s srv m
      else if t = TypePing then say ''pong''
      else if t = TypeQuery \<or> t = TypeExec then handleQuery h i payload s srv m
      else if t = TypeBegin then handleTx h ''BEGIN'' i s srv m
      else if t = TypeCommit then handleTx h ''COMMIT'' i s srv m
      else if t = TypeRollback then handleTx h ''ROLLBACK'' i s srv m
      else if t = TypeClose then say ''bye''
      else (Some (errorResponse i ''UNSUPPORTED'' ''unsupported operation''), s, srv, failed m))"

definition dispatch :: "'c hosted \<Rightarrow> Header \<Rightarrow> string \<Rightarrow> remoteSession \<Rightarrow> 'c server \<Rightarrow> Metrics \<Rightarrow> string \<times> remoteSession \<times> 'c server \<times> Metrics" where
  "dispatch h hdr payload s srv m =
     (case handle h hdr payload s srv m of
        (None, s', srv', m') \<Rightarrow> (errorResponse (hRequestID hdr) ''INTERNAL_ERROR'' ''internal error'', s', srv', failed m')
      | (Some out, s', srv', m') \<Rightarrow> (out, s', srv', m'))"

text \<open>
  One frame: admission (\<open>admission\<close> of the \<open>n\<close>-th frame), the handler, the counters and the limits on the response.
  \<open>took\<close> is the time it took.
\<close>

definition answerFrame ::
  "'c hosted \<Rightarrow> (nat \<Rightarrow> 64 word) \<Rightarrow> nat \<Rightarrow> Header \<Rightarrow> string \<Rightarrow> remoteSession \<Rightarrow> 'c server \<Rightarrow> Metrics \<Rightarrow> string \<times> remoteSession \<times> 'c server \<times> Metrics" where
  "answerFrame h took n hdr payload s srv m0 =
     (let i = hRequestID hdr; m1 = m0\<lparr>mBytesRx := mBytesRx m0 + word_of_nat (HeaderLen + length payload)\<rparr>;
          busy = isQueryFrame (hType hdr) \<and> admission (hsEnv h) n \<noteq> None
      in case (if busy then (errorResponse i ''SERVER_BUSY'' ''server overloaded; retry later'', s, srv, m1\<lparr>mRejectedQueries := mRejectedQueries m1 + 1\<rparr>)
               else dispatch h hdr payload s srv m1) of
           (out, s', srv', m2) \<Rightarrow>
             let m3 = m2\<lparr>mQueries := mQueries m2 + 1, mLatencyNanos := mLatencyNanos m2 + took n\<rparr>;
                 max = MaxResultBytes (hsLimits h);
                 large = max > 0 \<and> int (length out) > max;
                 out1 = (if large then errorResponse i ''RESULT_TOO_LARGE'' ''result exceeds maximum size'' else out);
                 m4 = (if large then failed m3 else m3);
                 out2 = (if int (length out1) > MaxFrameSize then errorResponse i ''INTERNAL_ERROR'' ''response too large'' else out1)
             in (out2, s', srv', m4))"

text \<open>
  The frames of one connection, read from the bytes the client sends; the bytes of the responses go out in order.
  \<open>sent\<close> says which responses could be written.
\<close>

function handleLoop ::
  "'c hosted \<Rightarrow> (nat \<Rightarrow> 64 word) \<Rightarrow> nat \<Rightarrow> string \<Rightarrow> remoteSession \<Rightarrow> 'c server \<Rightarrow> Metrics \<Rightarrow> string list \<times> remoteSession \<times> 'c server \<times> Metrics" where
  "handleLoop h took n r s srv m =
     (case ReadFrame r of
        Inl e \<Rightarrow> ([], s, srv, m)
      | Inr ((hdr, payload), rest) \<Rightarrow>
          (case answerFrame h took n hdr payload s srv m of
             (out, s1, srv1, m1) \<Rightarrow>
               if \<not> sent (hsEnv h) n then ([], s1, srv1, m1)
               else
                 let frame = EncodeFrame TypeResponse (hRequestID hdr) out;
                     m2 = m1\<lparr>mBytesTx := mBytesTx m1 + word_of_nat (HeaderLen + length out)\<rparr>
                 in if hType hdr = TypeClose \<or> rsAuthFails s1 \<ge> maxAuthFailures then ([frame], s1, srv1, m2)
                    else case handleLoop h took (Suc n) rest s1 srv1 m2 of (frames, s2, srv2, m3) \<Rightarrow> (frame # frames, s2, srv2, m3)))"
  by pat_completeness auto
termination
  by (relation "measure (\<lambda>(h, took, n, r, s, srv, m). length r)") (auto simp: frames_read_iff EncodeFrame_def)

declare handleLoop.simps [simp del]

definition newRemoteSession :: "'c hosted \<Rightarrow> remoteSession" where
  "newRemoteSession h = \<lparr>rsTx = None, rsTxSQL = [], rsAuthed = (\<not> Required (hsAuth h)), rsDatabase = [], rsAuthFails = 0\<rparr>"

text \<open>The whole connection, with the slot it takes; other connections may take and free slots meanwhile.\<close>

definition handleConn ::
  "'c hosted \<Rightarrow> (nat \<Rightarrow> 64 word) \<Rightarrow> Limiter option \<Rightarrow> string \<Rightarrow> 'c server \<Rightarrow> Metrics \<Rightarrow> string list \<times> Limiter option option \<times> 'c server \<times> Metrics" where
  "handleConn h took lim r srv m =
     (case AcquireConn lim of
        (False, lim') \<Rightarrow> ([], Some lim', srv, m)
      | (True, lim') \<Rightarrow>
          (case handleLoop h took 0 r (newRemoteSession h) srv m of (frames, s, srv', m') \<Rightarrow> (frames, ReleaseConn lim', srv', m')))"

end
