(* ===== verification/Hosted.thy ===== *)
theory Hosted
  imports Remote
begin

text \<open>
  What the hosted server promises: its sessions refine those of the local server, credentials are verified, a connection
  without credentials changes nothing and has a bounded number of attempts, every frame is answered, responses read back
  as JSON, and the log replays whatever the clients do.
\<close>

declare map_of_eq_Some_iff [simp del] Some_eq_map_of_iff [simp del]

section \<open>One routing behaviour, not two\<close>

text \<open>
  The session of the hosted server does what the session of the local server does: same transaction, same shared state,
  and an answer of the same kind.
\<close>

definition localSession :: "remoteSession \<Rightarrow> session" where
  "localSession s = \<lparr>seTx = rsTx s, seTxSQL = rsTxSQL s, seBatch = False, sePending = []\<rparr>"

fun answersLike :: "execResult \<Rightarrow> reply \<Rightarrow> bool" where
  "answersLike (Done res) rep \<longleftrightarrow> rep = ResultReply res \<or> rep = MessageReply (Message res)"
| "answersLike (Failed ee) rep \<longleftrightarrow> (\<exists>e. rep = ErrorReply e)"
| "answersLike Panicked rep \<longleftrightarrow> (\<exists>e. rep = ErrorReply e \<and> panics e)"

definition simulates :: "execResult \<times> remoteSession \<times> 'c server \<Rightarrow> reply \<times> session \<times> 'c server \<Rightarrow> bool" where
  "simulates remote local0 \<longleftrightarrow>
     (case remote of (r, s, srv) \<Rightarrow> case local0 of (rep, t, srv') \<Rightarrow> t = localSession s \<and> srv' = srv \<and> answersLike r rep)"

lemma localSession_simps [simp]:
  "seTx (localSession s) = rsTx s" "seTxSQL (localSession s) = rsTxSQL s" "seBatch (localSession s) = False" "sePending (localSession s) = []"
  by (simp_all add: localSession_def)

lemma localSession_update:
  "localSession (s\<lparr>rsTx := t\<rparr>) = (localSession s)\<lparr>seTx := t\<rparr>" "localSession (s\<lparr>rsTxSQL := q\<rparr>) = (localSession s)\<lparr>seTxSQL := q\<rparr>"
  by (simp_all add: localSession_def)

lemma active_local: "active (localSession s) srv = remoteActive s srv"
  by (simp add: active_def remoteActive_def)

lemma localConfig_simps [simp]:
  "cfMode (localConfig h) = hsMode h" "cfLimits (localConfig h) = hsLimits h" "cfWriter (localConfig h) = hsWriter h" "cfCluster (localConfig h) = None"
  by (simp_all add: localConfig_def)

lemma panic_message: "panics e \<Longrightarrow> execErrorMessage e = e"
  by (auto simp: panics_def execErrorMessage_def split: error.splits)

lemma engineFailure_like: "answersLike (engineFailure h e) (ErrorReply (execErrorMessage e))"
  by (simp add: engineFailure_def panic_message)

lemma begin_simulates: "simulates (case remoteBegin h s srv of (r, s') \<Rightarrow> (r, s', srv)) (case beginTx (localConfig h) (localSession s) srv of (r, s') \<Rightarrow> (r, s', srv))"
  by (simp add: remoteBegin_def beginTx_def simulates_def Let_def localSession_update noResult_def)

lemma rollback_simulates: "simulates (case remoteRollback s of (r, s') \<Rightarrow> (r, s', srv)) (case rollbackTx (localSession s) of (r, s') \<Rightarrow> (r, s', srv))"
  by (simp add: remoteRollback_def rollbackTx_def simulates_def localSession_update noResult_def)

lemma commit_simulates: "simulates (remoteCommit h s srv) (commitTx (hsEnv h) (localConfig h) (localSession s) srv)"
  by (auto simp: remoteCommit_def commitTx_def simulates_def Let_def localSession_update noResult_def split: option.splits prod.splits)

lemma remoteContext_local: "remoteContext h srv = queryContext (hsLimits h) (hsEnv h) (srvClock srv)"
  by (simp add: remoteContext_def queryContext_def)

lemma statement_simulates:
  "simulates (remoteStatement h (remoteContext h srv) raw s srv) (statement (hsEnv h) (localConfig h) raw (localSession s) srv)"
proof -
  obtain r d where x: "ExecWithOptions (remoteContext h srv) raw (MaxResultRows (hsLimits h)) (remoteActive s (srv\<lparr>srvClock := Suc (srvClock srv)\<rparr>)) = (r, d)"
    by (cases "ExecWithOptions (remoteContext h srv) raw (MaxResultRows (hsLimits h)) (remoteActive s (srv\<lparr>srvClock := Suc (srvClock srv)\<rparr>))") auto
  show ?thesis
    unfolding remoteStatement_def statement_def Let_def active_local localConfig_simps remoteContext_local[symmetric] x
    by (cases r; cases "rsTx s")
      (auto simp: simulates_def localSession_update engineFailure_like split: prod.splits option.splits)
qed

lemma execOne_simulates:
  assumes "hsCluster h = None"
  shows "simulates (execOne h (remoteContext h srv) raw s srv) (executeSQL (hsEnv h) (localConfig h) raw (localSession s) srv)"
  using begin_simulates[where h = h and s = s and srv = srv] rollback_simulates[where s = s and srv = srv]
    commit_simulates[where h = h and s = s and srv = srv] statement_simulates[where h = h and s = s and srv = srv and raw = raw]
  by (simp add: execOne_def executeSQL_def assms Let_def)

lemma execOne_session:
  "execOne h ctx raw s srv = (r, s', srv') \<Longrightarrow> rsAuthed s' = rsAuthed s \<and> rsAuthFails s' = rsAuthFails s \<and> rsDatabase s' = rsDatabase s"
  by (auto simp: execOne_def Let_def remoteBegin_def remoteRollback_def remoteCommit_def remoteStatement_def
      split: option.splits if_splits prod.splits sum.splits)


section \<open>What a frame does\<close>

text \<open>The statement a frame asks for.\<close>

definition frameSQL :: "'c hosted \<Rightarrow> Header \<Rightarrow> string \<Rightarrow> string option" where
  "frameSQL h hdr payload =
     (if hType hdr = TypeQuery \<or> hType hdr = TypeExec then
        (case unmarshalQuery (hsAnys h) payload of
           None \<Rightarrow> None
         | Some p \<Rightarrow> (case bind_remote (qpSQL p) (qpParams p) of Inl _ \<Rightarrow> None | Inr sql \<Rightarrow> Some sql))
      else if hType hdr = TypeBegin then Some ''BEGIN''
      else if hType hdr = TypeCommit then Some ''COMMIT''
      else if hType hdr = TypeRollback then Some ''ROLLBACK''
      else None)"

lemma handleQuery_effect:
  assumes "handleQuery h i payload s srv m = (out, s', srv', m')"
  shows "s' = s \<and> srv' = srv \<or>
    \<not> denied h s \<and> (\<exists>p sql r. unmarshalQuery (hsAnys h) payload = Some p \<and> bind_remote (qpSQL p) (qpParams p) = Inr sql \<and>
      execOne h (remoteContext h srv) sql s srv = (r, s', srv'))"
  using assms unfolding handleQuery_def by (auto split: if_splits option.splits sum.splits prod.splits execResult.splits)

lemma handleTx_effect:
  assumes "handleTx h keyword i s srv m = (out, s', srv', m')"
  shows "s' = s \<and> srv' = srv \<or> \<not> denied h s \<and> (\<exists>r. execOne h background keyword s srv = (r, s', srv'))"
  using assms unfolding handleTx_def by (auto split: if_splits prod.splits execResult.splits)

lemma handleAuth_effect:
  assumes "handleAuth h i payload s srv m = (out, s', srv', m')"
  shows "srv' = srv \<and> localSession s' = localSession s \<and>
    (rsAuthed s' \<longrightarrow> rsAuthed s \<or> (\<exists>p. unmarshalAuth payload = Some p \<and> case_prod (Verify (hsSha h) (hsAuth h)) (credentials h p)))"
  using assms unfolding handleAuth_def by (auto simp: Let_def localSession_def split: if_splits option.splits prod.splits)

lemma handle_effect:
  assumes "handle h hdr payload s srv m = (out, s', srv', m')"
  shows "srv' = srv \<and> localSession s' = localSession s \<or>
    \<not> denied h s \<and> (\<exists>sql ctx r. frameSQL h hdr payload = Some sql \<and> ctx \<in> {background, remoteContext h srv} \<and> execOne h ctx sql s srv = (r, s', srv'))"
proof -
  let ?t = "hType hdr"
  consider "s' = s" "srv' = srv" | "?t = TypeAuth" "handleAuth h (hRequestID hdr) payload s srv m = (out, s', srv', m')"
    | "?t = TypeQuery \<or> ?t = TypeExec" "handleQuery h (hRequestID hdr) payload s srv m = (out, s', srv', m')"
    | keyword where "handleTx h keyword (hRequestID hdr) s srv m = (out, s', srv', m')" "frameSQL h hdr payload = Some keyword"
    using assms by (auto simp: handle_def frameSQL_def Let_def frame_types split: if_splits)
  then show ?thesis
  proof cases
    case 2
    then show ?thesis using handleAuth_effect by blast
  next
    case 3
    from handleQuery_effect[OF 3(2)] show ?thesis
    proof
      assume "\<not> denied h s \<and> (\<exists>p sql r. unmarshalQuery (hsAnys h) payload = Some p \<and> bind_remote (qpSQL p) (qpParams p) = Inr sql \<and>
        execOne h (remoteContext h srv) sql s srv = (r, s', srv'))"
      then obtain p sql r where "\<not> denied h s" "unmarshalQuery (hsAnys h) payload = Some p" "bind_remote (qpSQL p) (qpParams p) = Inr sql"
        "execOne h (remoteContext h srv) sql s srv = (r, s', srv')" by blast
      moreover from this have "frameSQL h hdr payload = Some sql" using 3(1) by (auto simp: frameSQL_def)
      ultimately show ?thesis by blast
    qed simp
  next
    case 4
    then show ?thesis using handleTx_effect[OF 4(1)] by blast
  qed simp
qed

section \<open>Authentication\<close>

text \<open>
  Credentials. With no user and no password configured every client is accepted; otherwise exactly the configured
  user, \<^verbatim>\<open>admin\<close> where none is configured, with exactly the configured password, given that the hash tells the texts
  compared apart.
\<close>

theorem verify_credentials:
  assumes "inj_on sha {username, ''admin'', password, user, secret}"
  shows "Verify sha (NewAuthenticator sha username password) user secret \<longleftrightarrow>
    username = [] \<and> password = [] \<or> user = (if username = [] then ''admin'' else username) \<and> secret = password"
  using assms by (auto simp: Verify_def NewAuthenticator_def Let_def inj_on_def)

text \<open>The frames of a stream, up to the first that cannot be read.\<close>

function readFrames :: "string \<Rightarrow> (Header \<times> string) list" where
  "readFrames r = (case ReadFrame r of Inl e \<Rightarrow> [] | Inr (f, rest) \<Rightarrow> f # readFrames rest)"
  by pat_completeness auto
termination
  by (relation "measure length") (auto simp: frames_read_iff EncodeFrame_def)

declare readFrames.simps [simp del]

definition presents :: "'c hosted \<Rightarrow> Header \<times> string \<Rightarrow> bool" where
  "presents h f \<longleftrightarrow> hType (fst f) = TypeAuth \<and>
     (case unmarshalAuth (snd f) of None \<Rightarrow> False | Some p \<Rightarrow> (case credentials h p of (user, secret) \<Rightarrow> Verify (hsSha h) (hsAuth h) user secret))"

lemma handle_auth:
  assumes "handle h hdr payload s srv m = (out, s', srv', m')"
  shows "rsAuthed s' \<Longrightarrow> rsAuthed s \<or> presents h (hdr, payload)"
    and "rsAuthFails s' = rsAuthFails s \<and> mAuthFailures m' = mAuthFailures m \<or> rsAuthFails s' = Suc (rsAuthFails s) \<and> mAuthFailures m' = mAuthFailures m + 1"
proof -
  let ?t = "hType hdr"
  consider (same) "s' = s" "mAuthFailures m' = mAuthFailures m" | (auth) "?t = TypeAuth" "handleAuth h (hRequestID hdr) payload s srv m = (out, s', srv', m')"
    | (query) "handleQuery h (hRequestID hdr) payload s srv m = (out, s', srv', m')"
    | (tx) keyword where "handleTx h keyword (hRequestID hdr) s srv m = (out, s', srv', m')"
    using assms by (auto simp: handle_def Let_def frame_types failed_def split: if_splits)
  then have "(rsAuthed s' \<longrightarrow> rsAuthed s \<or> presents h (hdr, payload)) \<and>
    (rsAuthFails s' = rsAuthFails s \<and> mAuthFailures m' = mAuthFailures m \<or> rsAuthFails s' = Suc (rsAuthFails s) \<and> mAuthFailures m' = mAuthFailures m + 1)"
  proof cases
    case auth
    then show ?thesis unfolding handleAuth_def presents_def Let_def
      by (auto simp: failed_def split: option.splits prod.splits if_splits)
  next
    case query
    then have "mAuthFailures m' = mAuthFailures m" unfolding handleQuery_def
      by (auto simp: failed_def split: if_splits option.splits sum.splits prod.splits execResult.splits)
    then show ?thesis using handleQuery_effect[OF query] execOne_session by blast
  next
    case tx
    then have "mAuthFailures m' = mAuthFailures m" unfolding handleTx_def
      by (auto simp: failed_def split: if_splits prod.splits execResult.splits)
    then show ?thesis using handleTx_effect[OF tx] execOne_session by blast
  qed simp
  then show "rsAuthed s' \<Longrightarrow> rsAuthed s \<or> presents h (hdr, payload)"
    "rsAuthFails s' = rsAuthFails s \<and> mAuthFailures m' = mAuthFailures m \<or> rsAuthFails s' = Suc (rsAuthFails s) \<and> mAuthFailures m' = mAuthFailures m + 1" by blast+
qed

lemma answerFrame_handle:
  assumes "answerFrame h took n hdr payload s srv m = (out, s', srv', m')"
  shows "s' = s \<and> srv' = srv \<and> mAuthFailures m' = mAuthFailures m \<or>
    (\<exists>out1 m0 m1. handle h hdr payload s srv m0 = (out1, s', srv', m1) \<and> mAuthFailures m0 = mAuthFailures m \<and> mAuthFailures m' = mAuthFailures m1)"
proof (cases "isQueryFrame (hType hdr) \<and> admission (hsEnv h) n \<noteq> None")
  case True
  then show ?thesis using assms by (auto simp: answerFrame_def Let_def failed_def)
next
  case False
  let ?m = "m\<lparr>mBytesRx := mBytesRx m + word_of_nat (HeaderLen + length payload)\<rparr>"
  obtain out1 s1 srv1 m1 where x: "handle h hdr payload s srv ?m = (out1, s1, srv1, m1)" by (cases "handle h hdr payload s srv ?m") auto
  have "answerFrame h took n hdr payload s srv m = (case dispatch h hdr payload s srv ?m of (out, s', srv', m2) \<Rightarrow>
     (fst (answerFrame h took n hdr payload s srv m), s', srv', snd (snd (snd (answerFrame h took n hdr payload s srv m)))))"
    using False by (auto simp: answerFrame_def Let_def split: prod.splits)
  then have "s' = s1" "srv' = srv1" using assms x by (auto simp: dispatch_def split: option.splits)
  moreover have "mAuthFailures m' = mAuthFailures m1"
    using assms False x by (auto simp: answerFrame_def dispatch_def Let_def failed_def split: option.splits if_splits)
  ultimately have "handle h hdr payload s srv ?m = (out1, s', srv', m1) \<and> mAuthFailures ?m = mAuthFailures m \<and> mAuthFailures m' = mAuthFailures m1" using x by simp
  then show ?thesis by blast
qed

lemma denied_unchanged:
  assumes "denied h s" "answerFrame h took n hdr payload s srv m = (out, s', srv', m')" "\<not> presents h (hdr, payload)"
  shows "srv' = srv \<and> denied h s'"
  using answerFrame_handle[OF assms(2)]
proof (elim disjE exE conjE)
  fix out1 m0 m1 assume x: "handle h hdr payload s srv m0 = (out1, s', srv', m1)"
  show ?thesis using handle_effect[OF x] handle_auth(1)[OF x] assms(1,3) by (auto simp: denied_def)
qed (use assms in \<open>auto simp: denied_def\<close>)

text \<open>A rule for the runs of the loop: it stops at a frame that cannot be read or written, after the last frame, or goes on.\<close>

definition sentMetrics :: "string \<Rightarrow> Metrics \<Rightarrow> Metrics" where
  "sentMetrics out m = m\<lparr>mBytesTx := mBytesTx m + word_of_nat (HeaderLen + length out)\<rparr>"

lemma handleLoop_run [consumes 1, case_names stop unsent last more]:
  assumes "handleLoop h took n r s srv m = (frames, s', srv', m')"
    and "\<And>n r s srv m e. ReadFrame r = Inl e \<Longrightarrow> P n r s srv m [] s srv m"
    and "\<And>n r s srv m hdr payload rest out s1 srv1 m1. ReadFrame r = Inr ((hdr, payload), rest) \<Longrightarrow>
      answerFrame h took n hdr payload s srv m = (out, s1, srv1, m1) \<Longrightarrow> \<not> sent (hsEnv h) n \<Longrightarrow> P n r s srv m [] s1 srv1 m1"
    and "\<And>n r s srv m hdr payload rest out s1 srv1 m1. ReadFrame r = Inr ((hdr, payload), rest) \<Longrightarrow>
      answerFrame h took n hdr payload s srv m = (out, s1, srv1, m1) \<Longrightarrow> sent (hsEnv h) n \<Longrightarrow>
      hType hdr = TypeClose \<or> rsAuthFails s1 \<ge> maxAuthFailures \<Longrightarrow>
      P n r s srv m [EncodeFrame TypeResponse (hRequestID hdr) out] s1 srv1 (sentMetrics out m1)"
    and "\<And>n r s srv m hdr payload rest out s1 srv1 m1 fs s2 srv2 m2. ReadFrame r = Inr ((hdr, payload), rest) \<Longrightarrow>
      answerFrame h took n hdr payload s srv m = (out, s1, srv1, m1) \<Longrightarrow> sent (hsEnv h) n \<Longrightarrow>
      hType hdr \<noteq> TypeClose \<Longrightarrow> rsAuthFails s1 < maxAuthFailures \<Longrightarrow> P (Suc n) rest s1 srv1 (sentMetrics out m1) fs s2 srv2 m2 \<Longrightarrow>
      P n r s srv m (EncodeFrame TypeResponse (hRequestID hdr) out # fs) s2 srv2 m2"
  shows "P n r s srv m frames s' srv' m'"
  using assms(1)
proof (induction "length r" arbitrary: n r s srv m frames s' srv' m' rule: less_induct)
  case less
  show ?case
  proof (cases "ReadFrame r")
    case (Inl e)
    then show ?thesis using less.prems assms(2) by (simp add: handleLoop.simps[of h took n r])
  next
    case (Inr x)
    then obtain hdr payload rest where x: "ReadFrame r = Inr ((hdr, payload), rest)" by (metis prod.exhaust)
    obtain out s1 srv1 m1 where a: "answerFrame h took n hdr payload s srv m = (out, s1, srv1, m1)" by (metis prod.exhaust)
    have short: "length rest < length r" using x by (auto simp: frames_read_iff EncodeFrame_def)
    obtain fs s2 srv2 m2 where y: "handleLoop h took (Suc n) rest s1 srv1 (sentMetrics out m1) = (fs, s2, srv2, m2)" by (metis prod.exhaust)
    have loop: "(frames, s', srv', m') =
        (if \<not> sent (hsEnv h) n then ([], s1, srv1, m1)
         else if hType hdr = TypeClose \<or> rsAuthFails s1 \<ge> maxAuthFailures then ([EncodeFrame TypeResponse (hRequestID hdr) out], s1, srv1, sentMetrics out m1)
         else (EncodeFrame TypeResponse (hRequestID hdr) out # fs, s2, srv2, m2))"
      using less.prems y unfolding sentMetrics_def handleLoop.simps[of h took n r] x sum.case prod.case a Let_def by (auto split: if_splits)
    show ?thesis using loop assms(3)[OF x a] assms(4)[OF x a] assms(5)[OF x a _ _ _ less.hyps[OF short y]]
      by (auto split: if_splits)
  qed
qed

lemma handleLoop_denied:
  assumes "handleLoop h took n r s srv m = (frames, s', srv', m')"
  shows "denied h s \<Longrightarrow> \<forall>f\<in>set (readFrames r). \<not> presents h f \<Longrightarrow> srv' = srv"
  using assms
proof (induction rule: handleLoop_run)
  case (unsent n r s srv m hdr payload rest out s1 srv1 m1)
  then show ?case using denied_unchanged[OF unsent(4,2)] by (simp add: readFrames.simps[of r])
next
  case (last n r s srv m hdr payload rest out s1 srv1 m1)
  then show ?case using denied_unchanged[OF last(5,2)] by (simp add: readFrames.simps[of r])
next
  case (more n r s srv m hdr payload rest out s1 srv1 m1 fs s2 srv2 m2)
  then show ?case using denied_unchanged[OF more(7,2)] by (simp add: readFrames.simps[of r])
qed simp

text \<open>
  C14: a connection that does not present valid credentials changes nothing. On a server that requires authentication,
  whatever frames a client sends, if none of them is an AUTH frame with credentials that verify, the database, the log,
  the snapshot files and the cluster are the same after the connection.
\<close>

theorem hosted_needs_credentials:
  assumes "Required (hsAuth h)" "\<forall>f\<in>set (readFrames r). \<not> presents h f" "handleConn h took lim r srv m = (frames, lim', srv', m')"
  shows "srv' = srv"
proof (cases "AcquireConn lim")
  case (Pair ok lim1)
  have "denied h (newRemoteSession h)" using assms(1) by (simp add: denied_def newRemoteSession_def)
  then show ?thesis using handleLoop_denied[of h took 0 r "newRemoteSession h" srv m] assms(2,3) Pair
    by (auto simp: handleConn_def split: if_splits bool.splits prod.splits)
qed

section \<open>Failed attempts\<close>

lemma answerFrame_fails:
  assumes "answerFrame h took n hdr payload s srv m = (out, s', srv', m')"
  shows "\<exists>k\<le>1. rsAuthFails s' = rsAuthFails s + k \<and> mAuthFailures m' = mAuthFailures m + word_of_nat k"
  using answerFrame_handle[OF assms]
proof (elim disjE exE conjE)
  fix out1 m0 m1 assume x: "handle h hdr payload s srv m0 = (out1, s', srv', m1)" "mAuthFailures m0 = mAuthFailures m" "mAuthFailures m' = mAuthFailures m1"
  from handle_auth(2)[OF x(1)] x(2,3) show ?thesis by (auto intro: exI[of _ 0] exI[of _ 1])
qed (auto intro: exI[of _ 0])

lemma handleLoop_fails:
  assumes "handleLoop h took n r s srv m = (frames, s', srv', m')"
  shows "rsAuthFails s < maxAuthFailures \<Longrightarrow> rsAuthFails s \<le> rsAuthFails s' \<and> rsAuthFails s' \<le> maxAuthFailures \<and>
    mAuthFailures m' = mAuthFailures m + word_of_nat (rsAuthFails s' - rsAuthFails s)"
  using assms
proof (induction rule: handleLoop_run)
  case (unsent n r s srv m hdr payload rest out s1 srv1 m1)
  then show ?case using answerFrame_fails[OF unsent(2)] by auto
next
  case (last n r s srv m hdr payload rest out s1 srv1 m1)
  then show ?case using answerFrame_fails[OF last(2)] by (auto simp: sentMetrics_def)
next
  case (more n r s srv m hdr payload rest out s1 srv1 m1 fs s2 srv2 m2)
  obtain k where k: "rsAuthFails s1 = rsAuthFails s + k" "mAuthFailures m1 = mAuthFailures m + word_of_nat k" using answerFrame_fails[OF more(2)] by blast
  have ih: "rsAuthFails s1 \<le> rsAuthFails s2" "rsAuthFails s2 \<le> maxAuthFailures" "mAuthFailures m2 = mAuthFailures m1 + word_of_nat (rsAuthFails s2 - rsAuthFails s1)"
    using more(5,6) by (simp_all add: sentMetrics_def)
  have "rsAuthFails s2 - rsAuthFails s = k + (rsAuthFails s2 - rsAuthFails s1)" using k(1) ih(1) by simp
  then have "(word_of_nat (rsAuthFails s2 - rsAuthFails s) :: 64 word) = word_of_nat k + word_of_nat (rsAuthFails s2 - rsAuthFails s1)" by (simp only: of_nat_add)
  then show ?case using k ih by (simp add: add.assoc)
qed simp

text \<open>
  A connection has at most five attempts: however many AUTH frames a client sends, the counter of failures grows by at
  most \<^verbatim>\<open>maxAuthFailures\<close> before the server closes the connection.
\<close>

theorem auth_attempts_bounded:
  assumes "handleConn h took lim r srv m = (frames, lim', srv', m')"
  shows "\<exists>k\<le>maxAuthFailures. mAuthFailures m' = mAuthFailures m + word_of_nat k"
proof (cases "AcquireConn lim")
  case (Pair ok lim1)
  show ?thesis
  proof (cases ok)
    case True
    obtain fs s' srv1 m1 where l: "handleLoop h took 0 r (newRemoteSession h) srv m = (fs, s', srv1, m1)" by (metis prod.exhaust)
    then have "m' = m1" using assms Pair True by (simp add: handleConn_def)
    then show ?thesis using handleLoop_fails[OF l] by (auto simp: newRemoteSession_def maxAuthFailures_def)
  next
    case False
    then show ?thesis using assms Pair by (auto simp: handleConn_def intro: exI[of _ 0])
  qed
qed

section \<open>Every frame is answered\<close>

lemma fmtNat_short: "n < 10 ^ Suc k \<Longrightarrow> length (fmtNat n) \<le> Suc k"
proof (induction k arbitrary: n)
  case 0
  then show ?case by (simp add: fmtNat.simps[of n])
next
  case (Suc k)
  show ?case
  proof (cases "n < 10")
    case False
    have "n div 10 < 10 ^ Suc k" using Suc.prems by (simp add: less_mult_imp_div_less algebra_simps)
    then show ?thesis using Suc.IH[of "n div 10"] False by (simp add: fmtNat.simps[of n])
  qed (simp add: fmtNat.simps[of n])
qed

lemma errorResponse_text:
  assumes "code \<noteq> []" "msg \<noteq> []"
  shows "errorResponse i code msg =
    ''{\"request_id\":'' @ fmtNat (unat i) @ '',\"status\":\"error\",\"error_code\":'' @ appendJSONString [] code @ '',\"error_message\":'' @ appendJSONString [] msg @ ''}''"
proof -
  have "appendJSONString out ''error'' = out @ ''\"error\"''" for out
  proof -
    have "appendJSONString [] ''error'' = ''\"error\"''" by code_simp
    then show ?thesis using appendJSONString_append[of out "''error''"] by simp
  qed
  then show ?thesis using assms
    by (simp add: errorResponse_def mustResponseJSON_def appendResponseJSON_def ErrorResponse_def emptyResponse_def optionalText_def Let_def
        appendJSONString_append[of "_ @ _"] appendJSONString_append[of "_ # _"])
qed

lemma too_large_fits: "int (length (errorResponse i ''INTERNAL_ERROR'' ''response too large'')) \<le> MaxFrameSize"
proof -
  have "length (appendJSONString [] ''INTERNAL_ERROR'') = 16" "length (appendJSONString [] ''response too large'') = 20" by code_simp+
  moreover have "length (fmtNat (unat i)) \<le> Suc 19"
  proof (rule fmtNat_short)
    have "unat i < 2 ^ 64" using unsigned_less[of i] by simp
    then show "unat i < 10 ^ Suc 19" by simp
  qed
  ultimately show ?thesis by (simp add: errorResponse_text MaxFrameSize_def)
qed

lemma answerFrame_fits: "answerFrame h took n hdr payload s srv m = (out, s', srv', m') \<Longrightarrow> int (length out) \<le> MaxFrameSize"
  using too_large_fits[of "hRequestID hdr"] by (auto simp: answerFrame_def Let_def split: prod.splits if_splits)

text \<open>The answers to the frames of a stream: one response each, with the request's number and a payload within the limit.\<close>

definition isAnswer :: "Header \<times> string \<Rightarrow> string \<Rightarrow> bool" where
  "isAnswer f frame \<longleftrightarrow> (\<exists>out. int (length out) \<le> MaxFrameSize \<and> frame = EncodeFrame TypeResponse (hRequestID (fst f)) out)"

lemma handleLoop_answers:
  assumes "handleLoop h took n r s srv m = (frames, s', srv', m')" "\<And>k. sent (hsEnv h) k"
  shows "\<exists>k. list_all2 isAnswer (take k (readFrames r)) frames \<and>
    (k = length (readFrames r) \<or> k < length (readFrames r) \<and> 0 < k \<and> (hType (fst (readFrames r ! (k - 1))) = TypeClose \<or> rsAuthFails s' \<ge> maxAuthFailures))"
  using assms(1)
proof (induction rule: handleLoop_run)
  case (stop n r s srv m e)
  then show ?case by (simp add: readFrames.simps[of r])
next
  case (last n r s srv m hdr payload rest out s1 srv1 m1)
  then have r: "readFrames r = (hdr, payload) # readFrames rest" by (simp add: readFrames.simps[of r])
  have "isAnswer (hdr, payload) (EncodeFrame TypeResponse (hRequestID hdr) out)" using answerFrame_fits[OF last(2)] by (auto simp: isAnswer_def)
  then show ?case using last(4) by (intro exI[of _ 1]) (auto simp: r)
next
  case (more n r s srv m hdr payload rest out s1 srv1 m1 fs s2 srv2 m2)
  then have r: "readFrames r = (hdr, payload) # readFrames rest" by (simp add: readFrames.simps[of r])
  have a: "isAnswer (hdr, payload) (EncodeFrame TypeResponse (hRequestID hdr) out)" using answerFrame_fits[OF more(2)] by (auto simp: isAnswer_def)
  obtain k where k: "list_all2 isAnswer (take k (readFrames rest)) fs"
    "k = length (readFrames rest) \<or> k < length (readFrames rest) \<and> 0 < k \<and> (hType (fst (readFrames rest ! (k - 1))) = TypeClose \<or> rsAuthFails s2 \<ge> maxAuthFailures)"
    using more(6) by blast
  then show ?case using a by (intro exI[of _ "Suc k"]) (auto simp: r nth_Cons')
qed (use assms(2) in simp)

text \<open>
  C15: every request is answered. When the connection is admitted and the responses can be written, the server answers every
  frame of the stream in order, with exactly one response that carries the request's number and fits in a frame, up to the
  end of the stream, a CLOSE frame or the fifth failed authentication.
\<close>

theorem every_frame_is_answered:
  assumes "handleConn h took lim r srv m = (frames, lim', srv', m')" "fst (AcquireConn lim)" "\<forall>k. sent (hsEnv h) k"
  shows "\<exists>k. list_all2 isAnswer (take k (readFrames r)) frames \<and>
    (k = length (readFrames r) \<or>
     0 < k \<and> (hType (fst (readFrames r ! (k - 1))) = TypeClose \<or> mAuthFailures m' = mAuthFailures m + word_of_nat maxAuthFailures))"
proof -
  obtain fs s' srv1 m1 where l: "handleLoop h took 0 r (newRemoteSession h) srv m = (fs, s', srv1, m1)" by (metis prod.exhaust)
  have "frames = fs" "m' = m1" using assms(1,2) l by (auto simp: handleConn_def split: prod.splits bool.splits)
  moreover have "rsAuthFails s' \<le> maxAuthFailures" "mAuthFailures m1 = mAuthFailures m + word_of_nat (rsAuthFails s')"
    using handleLoop_fails[OF l] by (simp_all add: newRemoteSession_def maxAuthFailures_def)
  ultimately show ?thesis using handleLoop_answers[OF l] assms(3) by (metis le_antisym)
qed

section \<open>Responses are JSON\<close>

definition textMember :: "string \<Rightarrow> string \<Rightarrow> (string \<times> json) list" where
  "textMember key v = (if v \<noteq> [] then [(key, JStr v)] else [])"

definition responseTree :: "goval Response \<Rightarrow> json" where
  "responseTree r = JObj (
     [(''request_id'', JNum (fmtNat (unat (respRequestID r)))), (''status'', JStr (respStatus r))] @
     textMember ''error_code'' (respErrorCode r) @ textMember ''error_message'' (respErrorMessage r) @
     (if respColumns r \<noteq> [] then [(''columns'', JArr (map JStr (respColumns r)))] else []) @
     (if respRows r \<noteq> [] then [(''rows'', JArr (map rowTree (respRows r)))] else []) @
     (if respAffectedRows r \<noteq> 0 then [(''affected_rows'', JNum (FormatInt (respAffectedRows r)))] else []) @
     textMember ''message'' (respMessage r) @ textMember ''leader_addr'' (respLeaderAddr r) @
     (if respRetryable r then [(''retryable'', JBool True)] else []))"

definition cleanResponse :: "goval Response \<Rightarrow> bool" where
  "cleanResponse r \<longleftrightarrow>
     list_all validUTF8 [respStatus r, respErrorCode r, respErrorMessage r, respMessage r, respLeaderAddr r] \<and>
     list_all validUTF8 (respColumns r) \<and> list_all (list_all cleanVal) (respRows r)"

lemma response_keys:
  "appendJSONString [] ''request_id'' = ''\"request_id\"''" "appendJSONString [] ''status'' = ''\"status\"''"
  "appendJSONString [] ''error_code'' = ''\"error_code\"''" "appendJSONString [] ''error_message'' = ''\"error_message\"''"
  "appendJSONString [] ''affected_rows'' = ''\"affected_rows\"''" "appendJSONString [] ''leader_addr'' = ''\"leader_addr\"''"
  "appendJSONString [] ''retryable'' = ''\"retryable\"''"
  by code_simp+

definition membersAfter :: "(string \<times> json) list \<Rightarrow> string" where
  "membersAfter ms = concat (map (\<lambda>m. CHR '','' # memberText m) ms)"

lemma membersAfter_simps [simp]: "membersAfter [] = []" "membersAfter (m # ms) = CHR '','' # memberText m @ membersAfter ms" "membersAfter (xs @ ys) = membersAfter xs @ membersAfter ys"
  by (simp_all add: membersAfter_def)

lemma optionalText_render:
  assumes "appendJSONString [] key = text"
  shows "optionalText out text v = out @ membersAfter (textMember key v)"
  by (simp add: optionalText_def textMember_def memberText_def assms appendJSONString_append[of "_ @ _"])

lemmas optional_members = optionalText_render[OF response_keys(3)] optionalText_render[OF response_keys(4)] optionalText_render[OF key_texts(4)]
  optionalText_render[OF response_keys(6)]

lemma appendResponseJSON_render:
  assumes "cleanResponse r"
  shows "appendResponseJSON buf r = Inr (buf @ render (responseTree r))"
proof -
  have rows: "rowsLoop 0 out (respRows r) = Inr (out @ commas (map (\<lambda>row. render (rowTree row)) (respRows r)))" for out
    using rowsLoop_commas[of "respRows r" out] assms by (simp add: cleanResponse_def list_all_iff)
  have cols: "commaLoop appendJSONString 0 out cs = out @ commas (map (appendJSONString []) cs)" for out cs
    by (rule commaLoop_commas) (rule appendJSONString_append)
  have members: "commas (map memberText (m # ms)) = memberText m @ membersAfter ms" for m ms by (simp add: commas_def membersAfter_def comp_def)
  show ?thesis
    unfolding appendResponseJSON_def responseTree_def Let_def rows cols optional_members render_JObj append_Cons members
    by (simp add: key_texts response_keys memberText_def elementsText_commas comp_def appendJSONString_append[of "_ @ _"] appendJSONString_append[of "_ # _"])
qed

lemma responseTree_ok: "cleanResponse r \<Longrightarrow> 3 \<le> d \<Longrightarrow> okJson d (responseTree r)"
proof -
  have n: "jnumber (fmtNat k)" for k using FormatInt_jnumber[of "int k"] by (simp add: FormatInt_def)
  show "cleanResponse r \<Longrightarrow> 3 \<le> d \<Longrightarrow> okJson d (responseTree r)"
    by (auto simp: responseTree_def textMember_def cleanResponse_def okMembers_iff okElements_iff list_all_iff rowTree_def valid_ascii n FormatInt_jnumber valueTree_ok)
qed

text \<open>
  A client of the hosted server decodes the response that was meant: number, status, error, columns, rows with every
  cell, affected rows, message, leader and the retry flag; members with their zero value are left out.
\<close>

theorem hosted_response_reads_back:
  assumes "cleanResponse r"
  shows "\<exists>u. mustResponseJSON r = Some u \<and> decodeJson u = Some (responseTree r)"
  using appendResponseJSON_render[OF assms, of "[]"] decodeJson_render[OF responseTree_ok[OF assms, of maxNestingDepth]]
  by (simp add: maxNestingDepth_def mustResponseJSON_def)

section \<open>Durability of the hosted server\<close>

text \<open>What a frame needs to be logged: statements that fit into a record, an exact copy, and room for the revision.\<close>

definition loggableFrame :: "'c hosted \<Rightarrow> Header \<Rightarrow> string \<Rightarrow> remoteSession \<Rightarrow> 'c server \<Rightarrow> bool" where
  "loggableFrame h hdr payload s srv \<longleftrightarrow>
     (case frameSQL h hdr payload of
        None \<Rightarrow> True
      | Some sql \<Rightarrow>
          recordFits sql \<and> unat (revision (srvDb srv)) + 1 < 2 ^ 64 \<and>
          (equalFold (TrimSpace sql) ''BEGIN'' \<longrightarrow> exactDb (srvDb srv)) \<and>
          (equalFold (TrimSpace sql) ''COMMIT'' \<longrightarrow> (\<forall>t. rsTx s = Some t \<longrightarrow> exactDb t)))"

text \<open>A run of a hosted server: clients connect, leave, and send frames, one after the other.\<close>

inductive hostedServed :: "'c hosted \<Rightarrow> database \<Rightarrow> remoteSession list \<Rightarrow> 'c server \<Rightarrow> bool" for h :: "'c hosted" and d0 :: database where
  start: "srvDb srv = d0 \<Longrightarrow> srvWal srv = [] \<Longrightarrow> hostedServed h d0 [] srv"
| connect: "hostedServed h d0 ss srv \<Longrightarrow> hostedServed h d0 (ss @ [newRemoteSession h]) srv"
| leave: "hostedServed h d0 ss srv \<Longrightarrow> hostedServed h d0 (take i ss @ drop (Suc i) ss) srv"
| frame: "hostedServed h d0 ss srv \<Longrightarrow> i < length ss \<Longrightarrow> loggableFrame h hdr payload (ss ! i) srv \<Longrightarrow>
    answerFrame h took n hdr payload (ss ! i) srv m = (out, s', srv', m') \<Longrightarrow> hostedServed h d0 (ss[i := s']) srv'"

lemma frame_keeps:
  assumes h: "healthy (hsEnv h)" "walConfig (localConfig h)" "hsCluster h = None" and r: "ready d0 (localSession s) srv"
    and l: "loggableFrame h hdr payload s srv" and a: "answerFrame h took n hdr payload s srv m = (out, s', srv', m')"
  shows "srv' = srv \<and> localSession s' = localSession s \<or> keeps d0 (localSession s) srv (localSession s') srv'"
proof -
  have bg: "remoteContext h srv = background" using h(2) by (simp add: remoteContext_def walConfig_def)
  have "keeps d0 (localSession s) srv (localSession s') srv'" if q: "frameSQL h hdr payload = Some sql" "execOne h background sql s srv = (r0, s', srv')" for sql r0
  proof -
    obtain rep where e: "executeSQL (hsEnv h) (localConfig h) sql (localSession s) srv = (rep, localSession s', srv')"
      using execOne_simulates[OF h(3), where srv = srv and raw = sql and s = s] q(2) by (auto simp: bg simulates_def split: prod.splits)
    show ?thesis
      using l q(1) by (intro executeSQL_keeps[OF h(1,2) _ r _ _ _ e]) (auto simp: loggableFrame_def)
  qed
  then show ?thesis using answerFrame_handle[OF a] handle_effect bg by (elim disjE exE conjE) (fastforce)+
qed

lemma hostedServed_logged:
  assumes "hostedServed h d0 ss srv" "healthy (hsEnv h)" "walConfig (localConfig h)" "hsCluster h = None"
  shows "logged d0 [] srv \<and> (\<forall>s\<in>set ss. tracked (localSession s) srv)"
  using assms(1)
proof (induction rule: hostedServed.induct)
  case (start srv)
  then show ?case by (auto simp: logged_def yields_nil intro!: exI[of _ "[]"])
next
  case (connect ss srv)
  then show ?case by (auto simp: newRemoteSession_def localSession_def tracked_def)
next
  case (leave ss srv i)
  then show ?case by (auto dest: in_set_takeD in_set_dropD)
next
  case (frame ss srv i hdr payload took n m out s' srv' m')
  then have r: "ready d0 (localSession (ss ! i)) srv" by (simp add: ready_def)
  from frame_keeps[OF assms(2-4) r frame.hyps(3,4)] show ?case
  proof
    assume "srv' = srv \<and> localSession s' = localSession (ss ! i)"
    then show ?thesis using frame by (auto dest!: set_update_subset_insert[THEN subsetD])
  next
    assume "keeps d0 (localSession (ss ! i)) srv (localSession s') srv'"
    then show ?thesis using frame.IH by (auto simp: keeps_def dest!: set_update_subset_insert[THEN subsetD])
  qed
qed


section \<open>Instances\<close>

definition hostedOne :: "unit hosted" where
  "hostedOne = \<lparr>hsEnv = calmEnv, hsMode = ''wal'', hsLimits = noLimits, hsWriter = Some True, hsCluster = None, hsUsername = ''root'',
     hsAuth = NewAuthenticator (\<lambda>x. x) ''root'' ''secret'', hsSha = (\<lambda>x. x), hsAnys = (\<lambda>_. Some []), hsQuote = (\<lambda>x. x)\<rparr>"

definition noMetrics :: Metrics where
  "noMetrics = \<lparr>mQueries = 0, mFailedQueries = 0, mRejectedQueries = 0, mAuthFailures = 0, mBytesRx = 0, mBytesTx = 0, mLatencyNanos = 0\<rparr>"

definition createFrame :: string where
  "createFrame = ''{\"sql\":\"CREATE TABLE t (id INT PRIMARY KEY)\"}''"

definition authFrame :: string where
  "authFrame = ''{\"username\":\"root\",\"password\":\"secret\"}''"

definition headerFor :: "8 word \<Rightarrow> 64 word \<Rightarrow> string \<Rightarrow> Header" where
  "headerFor t i p = \<lparr>hVersion = Version, hType = t, hFlags = 0, hRequestID = i, hLength = word_of_nat (length p)\<rparr>"

lemma readFrames_frame:
  "int (length p) \<le> MaxFrameSize \<Longrightarrow> readFrames (EncodeFrame t i p @ rest) = (headerFor t i p, p) # readFrames rest"
  by (simp add: readFrames.simps[of "EncodeFrame t i p @ rest"] ReadFrame_EncodeFrame headerFor_def)

lemma readFrames_Nil: "readFrames [] = []"
  by (simp add: readFrames.simps[of "[]"] ReadFrame_def ReadHeader_def ReadFull_def HeaderLen_def)

lemma createFrame_read: "readFrames (EncodeFrame TypeExec 7 createFrame) = [(headerFor TypeExec 7 createFrame, createFrame)]"
  using readFrames_frame[of createFrame TypeExec 7 "[]"] by (simp add: readFrames_Nil createFrame_def MaxFrameSize_def)

theorem verify_credentials_witness:
  "Verify (\<lambda>x. x) (NewAuthenticator (\<lambda>x. x) [] ''secret'') ''admin'' ''secret'' \<and> \<not> Verify (\<lambda>x. x) (NewAuthenticator (\<lambda>x. x) [] ''secret'') ''admin'' []"
  using verify_credentials[of "\<lambda>x. x" "[]" "''secret''" "''admin''" "''secret''"] verify_credentials[of "\<lambda>x. x" "[]" "''secret''" "''admin''" "[]"] by simp


theorem hosted_needs_credentials_witness:
  "Required (hsAuth hostedOne) \<and>
   fst (snd (snd (handleConn hostedOne (\<lambda>_. 0) None (EncodeFrame TypeExec 7 createFrame) emptyServer noMetrics))) = emptyServer"
proof -
  obtain frames lim' srv' m' where c: "handleConn hostedOne (\<lambda>_. 0) None (EncodeFrame TypeExec 7 createFrame) emptyServer noMetrics = (frames, lim', srv', m')"
    by (metis prod.exhaust)
  have r: "Required (hsAuth hostedOne)" by (simp add: hostedOne_def NewAuthenticator_def Required_def)
  have "\<forall>f\<in>set (readFrames (EncodeFrame TypeExec 7 createFrame)). \<not> presents hostedOne f"
    unfolding createFrame_read by (simp add: presents_def headerFor_def frame_types)
  from hosted_needs_credentials[OF r this c] show ?thesis using c r by simp
qed

theorem auth_attempts_bounded_witness:
  "\<exists>k\<le>5. mAuthFailures (snd (snd (snd (handleConn hostedOne (\<lambda>_. 0) None (EncodeFrame TypeAuth 1 createFrame) emptyServer noMetrics)))) = word_of_nat k"
proof -
  obtain frames lim' srv' m' where c: "handleConn hostedOne (\<lambda>_. 0) None (EncodeFrame TypeAuth 1 createFrame) emptyServer noMetrics = (frames, lim', srv', m')"
    by (metis prod.exhaust)
  from auth_attempts_bounded[OF c] show ?thesis using c by (auto simp: maxAuthFailures_def noMetrics_def)
qed

theorem every_frame_is_answered_witness:
  "\<exists>out. fst (handleConn hostedOne (\<lambda>_. 0) None (EncodeFrame TypeExec 7 createFrame) emptyServer noMetrics) = [EncodeFrame TypeResponse 7 out]"
proof -
  obtain frames lim' srv' m' where c: "handleConn hostedOne (\<lambda>_. 0) None (EncodeFrame TypeExec 7 createFrame) emptyServer noMetrics = (frames, lim', srv', m')"
    by (metis prod.exhaust)
  have "\<forall>k. sent (hsEnv hostedOne) k" "fst (AcquireConn None)" by (simp_all add: hostedOne_def calmEnv_def AcquireConn_def)
  from every_frame_is_answered[OF c this(2,1)] obtain k where k: "list_all2 isAnswer (take k [(headerFor TypeExec 7 createFrame, createFrame)]) frames" "k = 1 \<or> 0 < k"
    unfolding createFrame_read by auto
  then have "list_all2 isAnswer [(headerFor TypeExec 7 createFrame, createFrame)] frames" by (cases k) auto
  then show ?thesis using c by (auto simp: list_all2_Cons1 isAnswer_def headerFor_def)
qed

theorem hosted_response_reads_back_witness:
  "\<exists>u. mustResponseJSON ((OKResponse 7)\<lparr>respColumns := [''id''], respRows := [[VInt 1]]\<rparr>) = Some u \<and>
     decodeJson u = Some (JObj [(''request_id'', JNum ''7''), (''status'', JStr ''ok''), (''columns'', JArr [JStr ''id'']), (''rows'', JArr [JArr [JNum ''1'']])])"
proof -
  have c: "cleanResponse ((OKResponse 7)\<lparr>respColumns := [''id''], respRows := [[VInt 1]]\<rparr>)" by code_simp
  have "responseTree ((OKResponse 7)\<lparr>respColumns := [''id''], respRows := [[VInt 1]]\<rparr>) =
    JObj [(''request_id'', JNum ''7''), (''status'', JStr ''ok''), (''columns'', JArr [JStr ''id'']), (''rows'', JArr [JArr [JNum ''1'']])]" by code_simp
  then show ?thesis using hosted_response_reads_back[OF c] by simp
qed


end
