(* ===== verification/Client.thy ===== *)
theory Client
  imports Hosted
begin

text \<open>
  The client library (\<^verbatim>\<open>client.go\<close>): calls with their numbers and channels, the loop that reads responses, and what a
  call makes of its response. Calls run at the same time: \<open>clientRun\<close> has every order of their steps. Responses reach
  the calls they belong to, the client decodes what the server encoded, and with a server at the other end every call ends.
\<close>

declare map_of_eq_Some_iff [simp del] Some_eq_map_of_iff [simp del]

section \<open>Responses as the client decodes them\<close>

text \<open>
  \<^verbatim>\<open>json.Unmarshal\<close> into \<^verbatim>\<open>wire.Response\<close>; a cell of type \<^verbatim>\<open>any\<close> is kept as its JSON value. A number of a field is
  read as an integer of its width; of two members for one slice the last is taken.
\<close>

definition responseFields :: "string list" where
  "responseFields = [''request_id'', ''status'', ''error_code'', ''error_message'', ''columns'', ''rows'', ''affected_rows'', ''message'', ''leader_addr'', ''retryable'']"

fun bindUint64 :: "json \<Rightarrow> 64 word \<Rightarrow> 64 word option" where
  "bindUint64 (JNum u) old = (if u \<noteq> [] \<and> list_all isDigit u \<and> digitsVal 0 u < 2 ^ 64 then Some (word_of_nat (digitsVal 0 u)) else None)"
| "bindUint64 JNull old = Some old"
| "bindUint64 _ old = None"

fun bindInt :: "json \<Rightarrow> int \<Rightarrow> int option" where
  "bindInt (JNum u) old = (case ParseInt u of Inl e \<Rightarrow> None | Inr i \<Rightarrow> Some i)"
| "bindInt JNull old = Some old"
| "bindInt _ old = None"

fun anyRow :: "json \<Rightarrow> json list option" where
  "anyRow (JArr vs) = Some vs"
| "anyRow JNull = Some []"
| "anyRow _ = None"

definition bindResponse :: "string \<times> json \<Rightarrow> json Response \<Rightarrow> json Response option" where
  "bindResponse m r =
     (case m of (key, v) \<Rightarrow>
        case fieldAmong responseFields key of
          None \<Rightarrow> Some r
        | Some f \<Rightarrow>
            if f = ''request_id'' then map_option (\<lambda>i. r\<lparr>respRequestID := i\<rparr>) (bindUint64 v (respRequestID r))
            else if f = ''status'' then map_option (\<lambda>s. r\<lparr>respStatus := s\<rparr>) (bindString v (respStatus r))
            else if f = ''error_code'' then map_option (\<lambda>s. r\<lparr>respErrorCode := s\<rparr>) (bindString v (respErrorCode r))
            else if f = ''error_message'' then map_option (\<lambda>s. r\<lparr>respErrorMessage := s\<rparr>) (bindString v (respErrorMessage r))
            else if f = ''columns'' then map_option (\<lambda>ss. r\<lparr>respColumns := ss\<rparr>) (jlist jstr v)
            else if f = ''rows'' then map_option (\<lambda>rs. r\<lparr>respRows := rs\<rparr>) (jlist anyRow v)
            else if f = ''affected_rows'' then map_option (\<lambda>i. r\<lparr>respAffectedRows := i\<rparr>) (bindInt v (respAffectedRows r))
            else if f = ''message'' then map_option (\<lambda>s. r\<lparr>respMessage := s\<rparr>) (bindString v (respMessage r))
            else if f = ''leader_addr'' then map_option (\<lambda>s. r\<lparr>respLeaderAddr := s\<rparr>) (bindString v (respLeaderAddr r))
            else map_option (\<lambda>b. r\<lparr>respRetryable := b\<rparr>) (bindFlag v (respRetryable r)))"

definition unmarshalResponse :: "string \<Rightarrow> json Response option" where
  "unmarshalResponse = unmarshalInto bindResponse (emptyResponse 0 [])"

section \<open>The client (client.go)\<close>

record ServerError =
  seCode :: string
  seMessage :: string
  seRetryable :: bool
  seLeaderAddr :: string

definition serverErrorText :: "ServerError \<Rightarrow> string" where
  "serverErrorText e = (if seCode e \<noteq> [] then seCode e @ '': '' @ seMessage e else seMessage e)"

datatype callError = ServerFailure ServerError | ClientClosed | WriteFailure error | ContextDone error | MarshalFailure error

definition toServerError :: "json Response \<Rightarrow> callError" where
  "toServerError r =
     ServerFailure \<lparr>seCode = respErrorCode r, seMessage = respErrorMessage r, seRetryable = respRetryable r, seLeaderAddr = respLeaderAddr r\<rparr>"

definition protocolFailure :: "string \<Rightarrow> string \<Rightarrow> callError" where
  "protocolFailure code msg = ServerFailure \<lparr>seCode = code, seMessage = msg, seRetryable = False, seLeaderAddr = []\<rparr>"

text \<open>
  A client: the last request number, the calls that wait, each with its channel of one slot, the latch that it is closed,
  and the bytes it has written.
\<close>

record client =
  clNext :: "64 word"
  clPending :: "64 word \<rightharpoonup> json Response option"
  clClosed :: bool
  clSent :: string

definition newClient :: client where
  "newClient = \<lparr>clNext = 0, clPending = Map.empty, clClosed = False, clSent = []\<rparr>"

text \<open>
  \<^verbatim>\<open>roundTrip\<close> up to the wait: the number of the call, or the error it ends with. \<open>werr\<close> is the outcome of the write.
\<close>

definition startTrip :: "error option \<Rightarrow> 8 word \<Rightarrow> string \<Rightarrow> client \<Rightarrow> (callError + 64 word) \<times> client" where
  "startTrip werr msgType payload c =
     (if int (length payload) > MaxFrameSize then (Inl (protocolFailure ''INVALID_REQUEST'' ''request too large''), c)
      else let i = clNext c + 1; c1 = c\<lparr>clNext := i\<rparr> in
        if clClosed c then (Inl ClientClosed, c1)
        else case werr of
          Some e \<Rightarrow> (Inl (WriteFailure (Wrapped ''write: '' e)), c1\<lparr>clPending := (clPending c)(i := None)\<rparr>)
        | None \<Rightarrow> (Inr i, c1\<lparr>clPending := (clPending c)(i \<mapsto> None), clSent := clSent c @ EncodeFrame msgType i payload\<rparr>))"

text \<open>The two ways the wait ends: a response in the channel, or the context. With neither the call goes on waiting.\<close>

definition finishTrip :: "64 word \<Rightarrow> client \<Rightarrow> ((callError + json Response) \<times> client) option" where
  "finishTrip i c =
     (case clPending c i of
        Some (Some resp) \<Rightarrow>
          Some (if respRequestID resp \<noteq> 0 \<and> respRequestID resp \<noteq> i then Inl (protocolFailure ''PROTOCOL_ERROR'' ''request id mismatch'')
                else Inr (resp\<lparr>respRequestID := i\<rparr>), c\<lparr>clPending := (clPending c)(i := None)\<rparr>)
      | _ \<Rightarrow> None)"

definition cancelTrip :: "error \<Rightarrow> 64 word \<Rightarrow> client \<Rightarrow> (callError + json Response) \<times> client" where
  "cancelTrip e i c = (Inl (ContextDone e), c\<lparr>clPending := (clPending c)(i := None)\<rparr>)"

text \<open>One frame of \<^verbatim>\<open>readLoop\<close>: a channel that is full keeps what it has.\<close>

definition deliver :: "Header \<times> string \<Rightarrow> client \<Rightarrow> client" where
  "deliver f c =
     (case f of (hdr, payload) \<Rightarrow>
        if hType hdr \<noteq> TypeResponse then c
        else case unmarshalResponse payload of
          None \<Rightarrow> c
        | Some resp \<Rightarrow>
            (case clPending c (hRequestID hdr) of
               Some None \<Rightarrow> c\<lparr>clPending := (clPending c)(hRequestID hdr \<mapsto> Some (resp\<lparr>respRequestID := hRequestID hdr\<rparr>))\<rparr>
             | _ \<Rightarrow> c))"

definition wireErrorText :: "wireError \<Rightarrow> string" where
  "wireErrorText e =
     (case e of Eof \<Rightarrow> ''EOF'' | UnexpectedEof \<Rightarrow> ''unexpected EOF'' | WireMsg s \<Rightarrow> s | VersionError v \<Rightarrow> versionErrorText v | WriteFailed _ \<Rightarrow> [])"

definition lostResponse :: "wireError \<Rightarrow> 64 word \<Rightarrow> json Response" where
  "lostResponse e i = ErrorResponse i ''PROTOCOL_ERROR'' (wireErrorText e)"

definition failAll :: "wireError \<Rightarrow> client \<Rightarrow> client" where
  "failAll e c =
     c\<lparr>clPending := (\<lambda>i. case clPending c i of Some None \<Rightarrow> Some (Some (lostResponse e i)) | x \<Rightarrow> x), clClosed := True\<rparr>"

function readLoop :: "string \<Rightarrow> client \<Rightarrow> client" where
  "readLoop r c = (case ReadFrame r of Inl e \<Rightarrow> failAll e c | Inr (f, rest) \<Rightarrow> readLoop rest (deliver f c))"
  by pat_completeness auto
termination
  by (relation "measure (\<lambda>(r, c). length r)") (auto simp: frames_read_iff EncodeFrame_def)

declare readLoop.simps [simp del]

text \<open>The calls: what they send, and what they make of the response.\<close>

record Rows =
  rwColumns :: "string list"
  rwData :: "json list list"

definition emptyPayload :: string where
  "emptyPayload = ''{}''"

definition statusOf :: "callError + json Response \<Rightarrow> callError option" where
  "statusOf r = (case r of Inl e \<Rightarrow> Some e | Inr resp \<Rightarrow> if respStatus resp \<noteq> ''ok'' then Some (toServerError resp) else None)"

definition rowsOf :: "callError + json Response \<Rightarrow> callError + Rows" where
  "rowsOf r =
     (case r of
        Inl e \<Rightarrow> Inl e
      | Inr resp \<Rightarrow> if respStatus resp \<noteq> ''ok'' then Inl (toServerError resp) else Inr \<lparr>rwColumns = respColumns resp, rwData = respRows resp\<rparr>)"

definition execOf :: "callError + json Response \<Rightarrow> callError + int \<times> string" where
  "execOf r =
     (case r of
        Inl e \<Rightarrow> Inl e
      | Inr resp \<Rightarrow> if respStatus resp \<noteq> ''ok'' then Inl (toServerError resp) else Inr (respAffectedRows resp, respMessage resp))"

definition sendPing :: "error option \<Rightarrow> client \<Rightarrow> (callError + 64 word) \<times> client" where
  "sendPing werr c = startTrip werr TypePing emptyPayload c"

definition sendBegin :: "error option \<Rightarrow> client \<Rightarrow> (callError + 64 word) \<times> client" where
  "sendBegin werr c = startTrip werr TypeBegin emptyPayload c"

definition sendCommit :: "error option \<Rightarrow> client \<Rightarrow> (callError + 64 word) \<times> client" where
  "sendCommit werr c = startTrip werr TypeCommit emptyPayload c"

definition sendRollback :: "error option \<Rightarrow> client \<Rightarrow> (callError + 64 word) \<times> client" where
  "sendRollback werr c = startTrip werr TypeRollback emptyPayload c"

text \<open>\<open>marshal\<close> is \<^verbatim>\<open>json.Marshal\<close> of a query payload.\<close>

definition sendStatement :: "(QueryPayload \<Rightarrow> string res) \<Rightarrow> string \<Rightarrow> error option \<Rightarrow> 8 word \<Rightarrow> string \<Rightarrow> param list \<Rightarrow> client \<Rightarrow> (callError + 64 word) \<times> client" where
  "sendStatement marshal database werr t sql args c =
     (case marshal \<lparr>qpSQL = sql, qpParams = args, qpDatabase = database\<rparr> of
        Inl e \<Rightarrow> (Inl (MarshalFailure e), c)
      | Inr payload \<Rightarrow> startTrip werr t payload c)"

section \<open>Responses reach the call they belong to\<close>

text \<open>What happens at a client, in any order: calls start, frames arrive, the connection is lost, calls end.\<close>

datatype event = Sent "64 word" "8 word" string | Refused | Arrived "Header \<times> string" | Lost wireError | Ended "64 word"

inductive clientRun :: "event list \<Rightarrow> client \<Rightarrow> bool" where
  fresh: "clientRun [] newClient"
| call: "clientRun es c \<Longrightarrow> startTrip None t p c = (Inr i, c') \<Longrightarrow> clientRun (es @ [Sent i t p]) c'"
| refused: "clientRun es c \<Longrightarrow> startTrip werr t p c = (Inl e, c') \<Longrightarrow> clientRun (es @ [Refused]) c'"
| arrive: "clientRun es c \<Longrightarrow> clientRun (es @ [Arrived f]) (deliver f c)"
| lost: "clientRun es c \<Longrightarrow> clientRun (es @ [Lost e]) (failAll e c)"
| finish: "clientRun es c \<Longrightarrow> finishTrip i c = Some (r, c') \<Longrightarrow> clientRun (es @ [Ended i]) c'"
| cancel: "clientRun es c \<Longrightarrow> cancelTrip e i c = (r, c') \<Longrightarrow> clientRun (es @ [Ended i]) c'"

definition answerTo :: "64 word \<Rightarrow> Header \<times> string \<Rightarrow> json Response \<Rightarrow> bool" where
  "answerTo i f resp \<longleftrightarrow>
     hType (fst f) = TypeResponse \<and> hRequestID (fst f) = i \<and> (\<exists>r. unmarshalResponse (snd f) = Some r \<and> resp = r\<lparr>respRequestID := i\<rparr>)"

text \<open>The call was sent, and after that a response for it arrived or the connection was lost.\<close>

definition sentIn :: "event list \<Rightarrow> 64 word \<Rightarrow> event list \<Rightarrow> bool" where
  "sentIn es i later \<longleftrightarrow> (\<exists>before t p. es = before @ Sent i t p # later)"

definition answeredIn :: "event list \<Rightarrow> 64 word \<Rightarrow> json Response \<Rightarrow> bool" where
  "answeredIn es i resp \<longleftrightarrow>
     (\<exists>later. sentIn es i later \<and> ((\<exists>f. Arrived f \<in> set later \<and> answerTo i f resp) \<or> (\<exists>e. Lost e \<in> set later \<and> resp = lostResponse e i)))"

definition channelsOk :: "event list \<Rightarrow> client \<Rightarrow> bool" where
  "channelsOk es c \<longleftrightarrow>
     (\<forall>i. case clPending c i of None \<Rightarrow> True | Some None \<Rightarrow> \<exists>later. sentIn es i later | Some (Some resp) \<Rightarrow> answeredIn es i resp)"

lemma sentIn_snoc: "sentIn es i later \<Longrightarrow> sentIn (es @ [x]) i (later @ [x])"
  by (auto simp: sentIn_def)

lemma answeredIn_snoc: "answeredIn es i resp \<Longrightarrow> answeredIn (es @ [x]) i resp"
  unfolding answeredIn_def using sentIn_snoc[of es i _ x] by (metis UnI1 set_append)

lemma channelsOk_same: "channelsOk es c \<Longrightarrow> (\<And>i. clPending c' i = clPending c i \<or> clPending c' i = None) \<Longrightarrow> channelsOk (es @ [x]) c'"
  unfolding channelsOk_def
proof
  fix i assume a: "\<forall>i. case clPending c i of None \<Rightarrow> True | Some None \<Rightarrow> \<exists>later. sentIn es i later | Some (Some resp) \<Rightarrow> answeredIn es i resp"
    and b: "\<And>i. clPending c' i = clPending c i \<or> clPending c' i = None"
  show "case clPending c' i of None \<Rightarrow> True | Some None \<Rightarrow> \<exists>later. sentIn (es @ [x]) i later | Some (Some resp) \<Rightarrow> answeredIn (es @ [x]) i resp"
    using a[rule_format, of i] b[of i] by (auto split: option.splits dest: sentIn_snoc answeredIn_snoc)
qed

lemma clientRun_channels: "clientRun es c \<Longrightarrow> channelsOk es c"
proof (induction rule: clientRun.induct)
  case fresh
  then show ?case by (simp add: channelsOk_def newClient_def)
next
  case (call es c t p i c')
  then have c': "clPending c' = (clPending c)(i \<mapsto> None)" by (auto simp: startTrip_def Let_def split: if_splits)
  have new: "sentIn (es @ [Sent i t p]) i []" by (auto simp: sentIn_def)
  show ?case unfolding channelsOk_def
  proof
    fix j show "case clPending c' j of None \<Rightarrow> True | Some None \<Rightarrow> \<exists>later. sentIn (es @ [Sent i t p]) j later | Some (Some resp) \<Rightarrow> answeredIn (es @ [Sent i t p]) j resp"
      using call.IH[unfolded channelsOk_def, rule_format, of j] new by (auto simp: c' split: option.splits dest: sentIn_snoc answeredIn_snoc)
  qed
next
  case (refused es c werr t p e c')
  show ?case by (rule channelsOk_same[OF refused.IH]) (use refused.hyps in \<open>auto simp: startTrip_def Let_def split: if_splits option.splits\<close>)
next
  case (arrive es c f)
  show ?case
  proof (cases "deliver f c = c")
    case True
    then show ?thesis using channelsOk_same[OF arrive.IH, of c] by simp
  next
    case False
    let ?i = "hRequestID (fst f)"
    obtain r where r: "hType (fst f) = TypeResponse" "unmarshalResponse (snd f) = Some r" "clPending c ?i = Some None"
      "deliver f c = c\<lparr>clPending := (clPending c)(?i \<mapsto> Some (r\<lparr>respRequestID := ?i\<rparr>))\<rparr>"
      using False by (auto simp: deliver_def split: prod.splits if_splits option.splits)
    obtain later where "sentIn es ?i later" using arrive.IH[unfolded channelsOk_def, rule_format, of ?i] r(3) by auto
    then have "answeredIn (es @ [Arrived f]) ?i (r\<lparr>respRequestID := ?i\<rparr>)"
      using r(1,2) sentIn_snoc[of es ?i later "Arrived f"] unfolding answeredIn_def answerTo_def by (metis in_set_conv_decomp)
    then have new: "answeredIn (es @ [Arrived f]) ?i (r\<lparr>respRequestID := ?i\<rparr>)" .
    show ?thesis unfolding channelsOk_def
    proof
      fix i show "case clPending (deliver f c) i of None \<Rightarrow> True | Some None \<Rightarrow> \<exists>later. sentIn (es @ [Arrived f]) i later | Some (Some resp) \<Rightarrow> answeredIn (es @ [Arrived f]) i resp"
        using arrive.IH[unfolded channelsOk_def, rule_format, of i] new by (auto simp: r(4) split: option.splits dest: sentIn_snoc answeredIn_snoc)
    qed
  qed
next
  case (lost es c e)
  show ?case unfolding channelsOk_def
  proof
    fix i
    have "answeredIn (es @ [Lost e]) i (lostResponse e i)" if "sentIn es i later" for later
      using sentIn_snoc[OF that, of "Lost e"] unfolding answeredIn_def by (metis in_set_conv_decomp)
    then show "case clPending (failAll e c) i of None \<Rightarrow> True | Some None \<Rightarrow> \<exists>later. sentIn (es @ [Lost e]) i later | Some (Some resp) \<Rightarrow> answeredIn (es @ [Lost e]) i resp"
      using lost.IH[unfolded channelsOk_def, rule_format, of i] by (auto simp: failAll_def split: option.splits dest: answeredIn_snoc)
  qed
next
  case (finish es c i r c')
  show ?case by (rule channelsOk_same[OF finish.IH]) (use finish.hyps in \<open>auto simp: finishTrip_def split: option.splits if_splits\<close>)
next
  case (cancel es c e i r c')
  show ?case by (rule channelsOk_same[OF cancel.IH]) (use cancel.hyps in \<open>auto simp: cancelTrip_def split: if_splits\<close>)
qed

text \<open>
  C19: responses reach their calls. Whatever calls run on one client at the same time and whatever frames a server sends,
  a call that ends with a response has one that arrived after it was sent, in a response frame with its own number, or the
  error of a lost connection; the branch for a response with another number is never taken.
\<close>

theorem responses_reach_their_calls:
  assumes "clientRun es c" "finishTrip i c = Some (r, c')"
  shows "\<exists>resp. r = Inr resp \<and> respRequestID resp = i \<and> answeredIn es i resp"
proof -
  obtain resp where p: "clPending c i = Some (Some resp)" using assms(2) by (auto simp: finishTrip_def split: option.splits)
  then have a: "answeredIn es i resp" using clientRun_channels[OF assms(1), unfolded channelsOk_def, rule_format, of i] by simp
  then have "respRequestID resp = i" by (auto simp: answeredIn_def answerTo_def lostResponse_def ErrorResponse_def emptyResponse_def)
  then show ?thesis using assms(2) p a by (auto simp: finishTrip_def)
qed

section \<open>The client decodes what the server encoded\<close>

text \<open>A response as the client has it: the cells are JSON values.\<close>

definition clientView :: "goval Response \<Rightarrow> json Response" where
  "clientView r =
     \<lparr>respRequestID = respRequestID r, respStatus = respStatus r, respErrorCode = respErrorCode r, respErrorMessage = respErrorMessage r,
      respColumns = respColumns r, respRows = map (map valueTree) (respRows r), respAffectedRows = respAffectedRows r,
      respMessage = respMessage r, respLeaderAddr = respLeaderAddr r, respRetryable = respRetryable r\<rparr>"

lemma bindEach_append: "bindEach f (xs @ ys) p = (case bindEach f xs p of None \<Rightarrow> None | Some p' \<Rightarrow> bindEach f ys p')"
  by (induction xs arbitrary: p) (auto split: option.splits)

lemma bindResponse_field:
  "bindResponse (''request_id'', v) r = map_option (\<lambda>i. r\<lparr>respRequestID := i\<rparr>) (bindUint64 v (respRequestID r))"
  "bindResponse (''status'', v) r = map_option (\<lambda>s. r\<lparr>respStatus := s\<rparr>) (bindString v (respStatus r))"
  "bindResponse (''error_code'', v) r = map_option (\<lambda>s. r\<lparr>respErrorCode := s\<rparr>) (bindString v (respErrorCode r))"
  "bindResponse (''error_message'', v) r = map_option (\<lambda>s. r\<lparr>respErrorMessage := s\<rparr>) (bindString v (respErrorMessage r))"
  "bindResponse (''columns'', v) r = map_option (\<lambda>ss. r\<lparr>respColumns := ss\<rparr>) (jlist jstr v)"
  "bindResponse (''rows'', v) r = map_option (\<lambda>rs. r\<lparr>respRows := rs\<rparr>) (jlist anyRow v)"
  "bindResponse (''affected_rows'', v) r = map_option (\<lambda>i. r\<lparr>respAffectedRows := i\<rparr>) (bindInt v (respAffectedRows r))"
  "bindResponse (''message'', v) r = map_option (\<lambda>s. r\<lparr>respMessage := s\<rparr>) (bindString v (respMessage r))"
  "bindResponse (''leader_addr'', v) r = map_option (\<lambda>s. r\<lparr>respLeaderAddr := s\<rparr>) (bindString v (respLeaderAddr r))"
  "bindResponse (''retryable'', v) r = map_option (\<lambda>b. r\<lparr>respRetryable := b\<rparr>) (bindFlag v (respRetryable r))"
  by (simp_all add: bindResponse_def fieldAmong_exact responseFields_def)

lemma bind_columns: "jlist jstr (JArr (map JStr ss)) = Some ss"
  using those_map[of ss jstr JStr "\<lambda>s. s"] by simp

lemma bind_rows: "jlist anyRow (JArr (map rowTree rows)) = Some (map (map valueTree) rows)"
  using those_map[of rows anyRow rowTree "map valueTree"] by (simp add: rowTree_def)

lemma bind_id: "bindUint64 (JNum (fmtNat (unat i))) old = Some i"
proof -
  have "unat i < 2 ^ 64" using unsigned_less[of i] by simp
  then show ?thesis using fmtNat_digits[of "unat i"] by (simp add: list_all_iff)
qed

lemma bindEach_responseTree:
  assumes "- (2 ^ 63) \<le> respAffectedRows r" "respAffectedRows r < 2 ^ 63" "responseTree r = JObj ms"
  shows "bindEach bindResponse ms (emptyResponse 0 []) = Some (clientView r)"
proof -
  have ms: "ms = [(''request_id'', JNum (fmtNat (unat (respRequestID r)))), (''status'', JStr (respStatus r))] @
     textMember ''error_code'' (respErrorCode r) @ textMember ''error_message'' (respErrorMessage r) @
     (if respColumns r \<noteq> [] then [(''columns'', JArr (map JStr (respColumns r)))] else []) @
     (if respRows r \<noteq> [] then [(''rows'', JArr (map rowTree (respRows r)))] else []) @
     (if respAffectedRows r \<noteq> 0 then [(''affected_rows'', JNum (FormatInt (respAffectedRows r)))] else []) @
     textMember ''message'' (respMessage r) @ textMember ''leader_addr'' (respLeaderAddr r) @
     (if respRetryable r then [(''retryable'', JBool True)] else [])" using assms(3) by (simp add: responseTree_def)
  have text1: "bindEach bindResponse (textMember ''error_code'' v) q = Some (q\<lparr>respErrorCode := v\<rparr>)" if "respErrorCode q = []" for v q
    using that by (simp add: textMember_def bindResponse_field)
  have text2: "bindEach bindResponse (textMember ''error_message'' v) q = Some (q\<lparr>respErrorMessage := v\<rparr>)" if "respErrorMessage q = []" for v q
    using that by (simp add: textMember_def bindResponse_field)
  have text3: "bindEach bindResponse (textMember ''message'' v) q = Some (q\<lparr>respMessage := v\<rparr>)" if "respMessage q = []" for v q
    using that by (simp add: textMember_def bindResponse_field)
  have text4: "bindEach bindResponse (textMember ''leader_addr'' v) q = Some (q\<lparr>respLeaderAddr := v\<rparr>)" if "respLeaderAddr q = []" for v q
    using that by (simp add: textMember_def bindResponse_field)
  have cols: "bindEach bindResponse (if cs \<noteq> [] then [(''columns'', JArr (map JStr cs))] else []) q = Some (q\<lparr>respColumns := cs\<rparr>)" if "respColumns q = []" for cs q
    using that by (simp add: bindResponse_field bind_columns del: jlist.simps)
  have rows: "bindEach bindResponse (if rs \<noteq> [] then [(''rows'', JArr (map rowTree rs))] else []) q = Some (q\<lparr>respRows := map (map valueTree) rs\<rparr>)" if "respRows q = []" for rs q
    using that by (simp add: bindResponse_field bind_rows del: jlist.simps)
  have aff: "bindEach bindResponse (if respAffectedRows r \<noteq> 0 then [(''affected_rows'', JNum (FormatInt (respAffectedRows r)))] else []) q = Some (q\<lparr>respAffectedRows := respAffectedRows r\<rparr>)"
    if "respAffectedRows q = 0" for q using that ParseInt_FormatInt[OF assms(1,2)] by (simp add: bindResponse_field)
  have flag: "bindEach bindResponse (if b then [(''retryable'', JBool True)] else []) q = Some (q\<lparr>respRetryable := b\<rparr>)" if "\<not> respRetryable q" for b q
    using that by (simp add: bindResponse_field)
  have start: "bindEach bindResponse [(''request_id'', JNum (fmtNat (unat (respRequestID r)))), (''status'', JStr (respStatus r))] (emptyResponse 0 []) =
      Some (emptyResponse (respRequestID r) (respStatus r))"
    by (simp add: bindResponse_field bind_id emptyResponse_def del: bindUint64.simps)
  show ?thesis unfolding ms
    by (simp only: bindEach_append start option.case) (simp add: text1 text2 text3 text4 cols rows aff flag bindEach_append emptyResponse_def clientView_def)
qed

text \<open>
  The client decodes what the server encoded: every response with valid text and finite numbers arrives with its
  number, status, error, columns, cells, affected rows, message, leader and retry flag.
\<close>

theorem client_reads_response:
  assumes "cleanResponse r" "- (2 ^ 63) \<le> respAffectedRows r" "respAffectedRows r < 2 ^ 63"
  shows "\<exists>u. mustResponseJSON r = Some u \<and> unmarshalResponse u = Some (clientView r)"
proof -
  obtain ms where ms: "responseTree r = JObj ms" by (simp add: responseTree_def)
  have "mustResponseJSON r = Some (render (responseTree r))" using appendResponseJSON_render[OF assms(1), of "[]"] by (simp add: mustResponseJSON_def)
  moreover have "decodeJson (render (responseTree r)) = Some (responseTree r)"
    using decodeJson_render[OF responseTree_ok[OF assms(1), of maxNestingDepth]] by (simp add: maxNestingDepth_def)
  ultimately show ?thesis using bindEach_responseTree[OF assms(2,3) ms] by (simp add: unmarshalResponse_def unmarshalInto_def ms)
qed

section \<open>A client and a server\<close>

text \<open>Calls that are started one after the other without waiting.\<close>

fun callAll :: "(8 word \<times> string) list \<Rightarrow> client \<Rightarrow> client" where
  "callAll [] c = c"
| "callAll ((t, p) # reqs) c = callAll reqs (snd (startTrip None t p c))"

fun framesFrom :: "64 word \<Rightarrow> (8 word \<times> string) list \<Rightarrow> (Header \<times> string) list" where
  "framesFrom i [] = []"
| "framesFrom i ((t, p) # reqs) = (headerFor t (i + 1) p, p) # framesFrom (i + 1) reqs"

definition fitsFrame :: "8 word \<times> string \<Rightarrow> bool" where
  "fitsFrame q \<longleftrightarrow> int (length (snd q)) \<le> MaxFrameSize"

lemma callAll_sent:
  "list_all fitsFrame reqs \<Longrightarrow> \<not> clClosed c \<Longrightarrow>
     \<exists>bytes. clSent (callAll reqs c) = clSent c @ bytes \<and> readFrames bytes = framesFrom (clNext c) reqs \<and> \<not> clClosed (callAll reqs c)"
proof (induction reqs arbitrary: c)
  case Nil
  then show ?case by (simp add: readFrames_Nil)
next
  case (Cons q reqs)
  obtain t p where q: "q = (t, p)" by fastforce
  let ?c = "snd (startTrip None t p c)"
  have c: "clSent ?c = clSent c @ EncodeFrame t (clNext c + 1) p" "clNext ?c = clNext c + 1" "\<not> clClosed ?c" and fits: "int (length p) \<le> MaxFrameSize"
    using Cons.prems q by (simp_all add: startTrip_def fitsFrame_def Let_def)
  obtain bytes where "clSent (callAll reqs ?c) = clSent ?c @ bytes" "readFrames bytes = framesFrom (clNext ?c) reqs" "\<not> clClosed (callAll reqs ?c)"
    using Cons.IH[of ?c] Cons.prems(1) c(3) by auto
  then show ?case using c readFrames_frame[OF fits, of t "clNext c + 1" bytes] q by auto
qed

lemma framesFrom_nth: "k < length reqs \<Longrightarrow> hRequestID (fst (framesFrom i reqs ! k)) = i + word_of_nat (Suc k)"
proof (induction reqs arbitrary: i k)
  case (Cons q reqs)
  obtain t p where q: "q = (t, p)" by fastforce
  show ?case using Cons by (cases k) (simp_all add: q headerFor_def algebra_simps)
qed simp

lemma framesFrom_length [simp]: "length (framesFrom i reqs) = length reqs"
  by (induction i reqs rule: framesFrom.induct) auto

lemma word_of_nat_distinct: "a < 2 ^ 64 \<Longrightarrow> b < 2 ^ 64 \<Longrightarrow> (word_of_nat a :: 64 word) = word_of_nat b \<longleftrightarrow> a = b"
  by (simp add: word_of_nat_eq_iff take_bit_nat_eq_self)

lemma callAll_pending:
  assumes "list_all fitsFrame reqs" "\<not> clClosed c" "n + length reqs < 2 ^ 64" "clNext c = word_of_nat n"
  shows "(\<forall>k. n < k \<and> k \<le> n + length reqs \<longrightarrow> clPending (callAll reqs c) (word_of_nat k) = Some None) \<and>
    (\<forall>k. k \<le> n \<longrightarrow> clPending (callAll reqs c) (word_of_nat k) = clPending c (word_of_nat k))"
  using assms
proof (induction reqs arbitrary: c n)
  case (Cons q reqs)
  obtain t p where q: "q = (t, p)" by fastforce
  let ?c = "snd (startTrip None t p c)"
  have c: "clPending ?c = (clPending c)(word_of_nat (Suc n) \<mapsto> None)" "clNext ?c = word_of_nat (Suc n)" "\<not> clClosed ?c"
    using Cons.prems q by (simp_all add: startTrip_def fitsFrame_def Let_def algebra_simps)
  have ih: "(\<forall>k. Suc n < k \<and> k \<le> Suc n + length reqs \<longrightarrow> clPending (callAll reqs ?c) (word_of_nat k) = Some None) \<and>
    (\<forall>k. k \<le> Suc n \<longrightarrow> clPending (callAll reqs ?c) (word_of_nat k) = clPending ?c (word_of_nat k))"
    using Cons.IH[of ?c "Suc n"] Cons.prems c by simp
  have "clPending ?c (word_of_nat k) = clPending c (word_of_nat k)" if "k \<le> n" for k
    using that Cons.prems(3) word_of_nat_distinct[of k "Suc n"] by (simp add: c(1))
  moreover have "clPending ?c (word_of_nat (Suc n)) = Some None" by (simp add: c(1))
  ultimately show ?case using ih unfolding q callAll.simps by (metis Suc_leI add_Suc_shift le_SucE le_SucI le_antisym length_Cons not_less)
qed auto

lemma deliver_other: "hRequestID (fst f) \<noteq> i \<Longrightarrow> clPending (deliver f c) i = clPending c i"
  by (auto simp: deliver_def split: prod.splits option.splits)

lemma fold_deliver_other: "\<forall>f\<in>set fs. hRequestID (fst f) \<noteq> i \<Longrightarrow> clPending (fold deliver fs c) i = clPending c i"
  by (induction fs arbitrary: c) (auto simp: deliver_other)

lemma fold_deliver_at:
  assumes "k < length fs" "\<And>j. j < length fs \<Longrightarrow> hRequestID (fst (fs ! j)) = ident j" "\<And>j. j < length fs \<Longrightarrow> j \<noteq> k \<Longrightarrow> ident j \<noteq> ident k"
    and "clPending c (ident k) = Some None"
  shows "clPending (fold deliver fs c) (ident k) = clPending (deliver (fs ! k) (c\<lparr>clPending := [ident k \<mapsto> None]\<rparr>)) (ident k)"
proof -
  have fs: "fs = take k fs @ fs ! k # drop (Suc k) fs" using assms(1) by (rule id_take_nth_drop)
  have before: "\<forall>f\<in>set (take k fs). hRequestID (fst f) \<noteq> ident k"
  proof
    fix f assume "f \<in> set (take k fs)"
    then obtain j where "f = fs ! j" "j < k" by (auto simp: in_set_conv_nth)
    then show "hRequestID (fst f) \<noteq> ident k" using assms(1) assms(2,3)[of j] by simp
  qed
  have after: "\<forall>f\<in>set (drop (Suc k) fs). hRequestID (fst f) \<noteq> ident k"
  proof
    fix f assume "f \<in> set (drop (Suc k) fs)"
    then obtain j where "f = fs ! (Suc k + j)" "Suc k + j < length fs" by (auto simp: in_set_conv_nth)
    then show "hRequestID (fst f) \<noteq> ident k" using assms(2,3)[of "Suc k + j"] by simp
  qed
  let ?c = "fold deliver (take k fs) c"
  have "clPending ?c (ident k) = Some None" using fold_deliver_other[OF before] assms(4) by simp
  then have "clPending (deliver (fs ! k) ?c) (ident k) = clPending (deliver (fs ! k) (c\<lparr>clPending := [ident k \<mapsto> None]\<rparr>)) (ident k)"
    using assms(1,2) by (auto simp: deliver_def split: prod.splits option.splits)
  moreover have "fold deliver fs c = fold deliver (drop (Suc k) fs) (deliver (fs ! k) ?c)" by (subst fs) simp
  ultimately show ?thesis using fold_deliver_other[OF after] by simp
qed

lemma readLoop_frames: "\<exists>e. readLoop r c = failAll e (fold deliver (readFrames r) c)"
proof (induction r c rule: readLoop.induct)
  case (1 r c)
  show ?case using 1 by (cases "ReadFrame r") (auto simp: readLoop.simps[of r] readFrames.simps[of r] split: prod.splits)
qed

lemma framesFrom_read: "list_all fitsFrame reqs \<Longrightarrow> readFrames (clSent (callAll reqs newClient)) = framesFrom 0 reqs"
  using callAll_sent[of reqs newClient] by (auto simp: newClient_def)

lemma readFrames_concat:
  assumes "list_all2 isAnswer fs frames"
  shows "\<exists>outs. length outs = length fs \<and> frames = map2 (\<lambda>f out. EncodeFrame TypeResponse (hRequestID (fst f)) out) fs outs \<and>
    readFrames (concat frames) = map2 (\<lambda>f out. (headerFor TypeResponse (hRequestID (fst f)) out, out)) fs outs"
  using assms
proof (induction rule: list_all2_induct)
  case (Cons f fs frame frames)
  obtain out where out: "int (length out) \<le> MaxFrameSize" "frame = EncodeFrame TypeResponse (hRequestID (fst f)) out" using Cons.hyps(1) by (auto simp: isAnswer_def)
  obtain outs where o: "length outs = length fs" "frames = map2 (\<lambda>f out. EncodeFrame TypeResponse (hRequestID (fst f)) out) fs outs"
    "readFrames (concat frames) = map2 (\<lambda>f out. (headerFor TypeResponse (hRequestID (fst f)) out, out)) fs outs" using Cons.IH by blast
  show ?case using o out readFrames_frame[OF out(1)] by (intro exI[of _ "out # outs"]) simp
qed (simp add: readFrames_Nil)

text \<open>The response of the server to the \<open>k\<close>-th call of a client, as the call gets it.\<close>

definition gotAnswer :: "string list \<Rightarrow> nat \<Rightarrow> json Response \<Rightarrow> bool" where
  "gotAnswer frames k resp \<longleftrightarrow>
     (\<exists>out. frames ! k = EncodeFrame TypeResponse (word_of_nat (Suc k)) out \<and>
        (\<forall>r. unmarshalResponse out = Some r \<longrightarrow> resp = r\<lparr>respRequestID := word_of_nat (Suc k)\<rparr>))"

text \<open>
  C8: a client and a server. A client starts any number of calls on one connection without waiting; the server handles the
  bytes the client wrote, and the client reads the bytes the server wrote. Then no call waits forever: every call has a
  response, and where the server answered the call it is the server's answer to that call.
\<close>

theorem pipelined_calls_end:
  assumes "list_all fitsFrame reqs" "length reqs < 2 ^ 64" "fst (AcquireConn lim)" "\<forall>k. sent (hsEnv h) k"
    and "handleConn h took lim (clSent (callAll reqs newClient)) srv m = (frames, lim', srv', m')" "k < length reqs"
  shows "\<exists>resp. clPending (readLoop (concat frames) (callAll reqs newClient)) (word_of_nat (Suc k)) = Some (Some resp) \<and>
    (k < length frames \<longrightarrow> gotAnswer frames k resp)"
proof -
  let ?c = "callAll reqs newClient" and ?i = "word_of_nat (Suc k) :: 64 word"
  obtain fs s' srv1 m1 where l: "handleLoop h took 0 (clSent ?c) (newRemoteSession h) srv m = (fs, s', srv1, m1)" by (metis prod.exhaust)
  have "frames = fs" using assms(3,5) l by (auto simp: handleConn_def split: prod.splits bool.splits)
  then obtain n where a: "list_all2 isAnswer (take n (framesFrom 0 reqs)) frames"
    using handleLoop_answers[OF l] assms(4) framesFrom_read[OF assms(1)] by auto
  obtain outs where o: "length outs = length (take n (framesFrom 0 reqs))"
    "frames = map2 (\<lambda>f out. EncodeFrame TypeResponse (hRequestID (fst f)) out) (take n (framesFrom 0 reqs)) outs"
    "readFrames (concat frames) = map2 (\<lambda>f out. (headerFor TypeResponse (hRequestID (fst f)) out, out)) (take n (framesFrom 0 reqs)) outs"
    using readFrames_concat[OF a] by blast
  let ?r = "readFrames (concat frames)"
  have len: "length ?r = length frames" "length frames \<le> length reqs" "length outs = length frames" using o by (simp_all add: min_def)
  have ident: "hRequestID (fst (?r ! j)) = word_of_nat (Suc j) \<and> ?r ! j = (headerFor TypeResponse (word_of_nat (Suc j)) (outs ! j), outs ! j) \<and>
      frames ! j = EncodeFrame TypeResponse (word_of_nat (Suc j)) (outs ! j)" if "j < length frames" for j
  proof -
    have n: "j < length (take n (framesFrom 0 reqs))" "j < length outs" using that len(3) o(1) by simp_all
    have "hRequestID (fst (take n (framesFrom 0 reqs) ! j)) = word_of_nat (Suc j)"
      using framesFrom_nth[of j reqs 0] n(1) by (simp del: of_nat_Suc)
    then show ?thesis using n by (subst (1 2) o(3), subst o(2)) (simp add: headerFor_def del: of_nat_Suc)
  qed
  have pend: "clPending ?c ?i = Some None"
    using callAll_pending[of reqs newClient 0] assms(1,2,6) by (simp add: newClient_def del: of_nat_Suc)
  obtain e where e: "readLoop (concat frames) ?c = failAll e (fold deliver ?r ?c)" using readLoop_frames by blast
  show ?thesis
  proof (cases "k < length frames")
    case True
    have "clPending (fold deliver ?r ?c) ?i = clPending (deliver (?r ! k) (?c\<lparr>clPending := [?i \<mapsto> None]\<rparr>)) ?i"
    proof (rule fold_deliver_at[of k ?r "\<lambda>j. word_of_nat (Suc j)" ?c])
      show "k < length ?r" using True len(1) by simp
      show "hRequestID (fst (?r ! j)) = word_of_nat (Suc j)" if "j < length ?r" for j using ident[of j] that unfolding len(1) by blast
      show "(word_of_nat (Suc j) :: 64 word) \<noteq> ?i" if "j < length ?r" "j \<noteq> k" for j
        using that len True assms(2) word_of_nat_distinct[of "Suc j" "Suc k"] by (simp del: of_nat_Suc)
    qed (rule pend)
    then have "clPending (fold deliver ?r ?c) ?i =
        (case unmarshalResponse (outs ! k) of None \<Rightarrow> Some None | Some r \<Rightarrow> Some (Some (r\<lparr>respRequestID := ?i\<rparr>)))"
      using ident[OF True] by (simp add: deliver_def headerFor_def del: of_nat_Suc split: option.splits)
    then show ?thesis using ident[OF True] by (auto simp: e failAll_def gotAnswer_def simp del: of_nat_Suc split: option.splits)
  next
    case False
    have "\<forall>f\<in>set ?r. hRequestID (fst f) \<noteq> ?i"
    proof
      fix f assume "f \<in> set ?r"
      then obtain j where "f = ?r ! j" "j < length frames" by (metis in_set_conv_nth len(1))
      then show "hRequestID (fst f) \<noteq> ?i" using ident[of j] False assms(2,6) word_of_nat_distinct[of "Suc j" "Suc k"] by (simp add: headerFor_def del: of_nat_Suc)
    qed
    then have "clPending (fold deliver ?r ?c) ?i = Some None" by (rule trans[OF fold_deliver_other pend])
    then show ?thesis using False by (simp add: e failAll_def)
  qed
qed

section \<open>Instances\<close>

theorem responses_reach_their_calls_witness:
  "\<exists>es c i r c'. clientRun es c \<and> finishTrip i c = Some (r, c') \<and> (\<exists>resp. r = Inr resp \<and> respRequestID resp = 1 \<and> answeredIn es 1 resp)"
proof -
  obtain c where c: "startTrip None TypePing emptyPayload newClient = (Inr 1, c)" "clPending c = [1 \<mapsto> None]"
    by (simp add: startTrip_def newClient_def emptyPayload_def MaxFrameSize_def Let_def)
  have run: "clientRun ([] @ [Sent 1 TypePing emptyPayload] @ [Lost Eof]) (failAll Eof c)"
    using clientRun.lost[OF clientRun.call[OF clientRun.fresh c(1)]] by simp
  obtain r c' where f: "finishTrip 1 (failAll Eof c) = Some (r, c')" by (simp add: finishTrip_def failAll_def c(2))
  show ?thesis using responses_reach_their_calls[OF run f] run f by blast
qed

theorem client_reads_response_witness:
  "\<exists>u. mustResponseJSON ((OKResponse 7)\<lparr>respColumns := [''id''], respRows := [[VInt 1]]\<rparr>) = Some u \<and>
     unmarshalResponse u = Some ((OKResponse 7)\<lparr>respColumns := [''id''], respRows := [[JNum ''1'']]\<rparr>)"
proof -
  let ?r = "(OKResponse 7)\<lparr>respColumns := [''id''], respRows := [[VInt 1]]\<rparr> :: goval Response"
  have c: "cleanResponse ?r" by code_simp
  have "FormatInt 1 = ''1''" by code_simp
  then have "clientView ?r = (OKResponse 7)\<lparr>respColumns := [''id''], respRows := [[JNum ''1'']]\<rparr>"
    by (simp add: clientView_def OKResponse_def emptyResponse_def)
  then show ?thesis using client_reads_response[OF c] by (simp add: OKResponse_def emptyResponse_def)
qed

theorem pipelined_calls_end_witness:
  "\<exists>resp. clPending (readLoop (concat (fst (handleConn hostedOne (\<lambda>_. 0) None (clSent (callAll [(TypePing, ''{}''), (TypeExec, createFrame)] newClient)) emptyServer noMetrics)))
     (callAll [(TypePing, ''{}''), (TypeExec, createFrame)] newClient)) 2 = Some (Some resp)"
proof -
  let ?q = "[(TypePing, ''{}''), (TypeExec, createFrame)]"
  obtain frames lim' srv' m' where c: "handleConn hostedOne (\<lambda>_. 0) None (clSent (callAll ?q newClient)) emptyServer noMetrics = (frames, lim', srv', m')"
    by (metis prod.exhaust)
  have fits: "list_all fitsFrame ?q" by (simp add: fitsFrame_def createFrame_def MaxFrameSize_def)
  have "\<forall>k. sent (hsEnv hostedOne) k" "fst (AcquireConn None)" by (simp_all add: hostedOne_def calmEnv_def AcquireConn_def)
  from pipelined_calls_end[OF fits _ this(2,1) c, of 1] show ?thesis unfolding c fst_conv by (auto simp del: callAll.simps)
qed

end
