(* ===== verification/Cli.thy ===== *)
theory Cli
  imports Hosted
begin

text \<open>
  The command line client (\<^verbatim>\<open>cmd/superdb-cli\<close>): the splitting of statements, the printing of results
  (\<^verbatim>\<open>format.go\<close>) and the interactive shell (\<^verbatim>\<open>shell.go\<close>). Statements may arrive in pieces, tables are aligned;
  \<open>shell_never_leaves\<close> shows that the shell cannot be left any more once a statement has run.
\<close>

declare map_of_eq_Some_iff [simp del] Some_eq_map_of_iff [simp del]

section \<open>Statements (format.go)\<close>

text \<open>\<open>cur\<close> is the text since the last terminator, \<open>q\<close> whether it is inside a literal.\<close>

fun splitLoop :: "bool \<Rightarrow> string \<Rightarrow> string \<Rightarrow> string list \<times> string" where
  "splitLoop q cur [] = ([], cur)"
| "splitLoop q cur (c # cs) =
     (if c = quoteChar then
        (case cs of
           d # ds \<Rightarrow> if q \<and> d = quoteChar then splitLoop q (cur @ [c, d]) ds else splitLoop (\<not> q) (cur @ [c]) cs
         | [] \<Rightarrow> splitLoop (\<not> q) (cur @ [c]) cs)
      else if c = CHR '';'' \<and> \<not> q then
        (case splitLoop q [] cs of (stmts, rest) \<Rightarrow> ((if TrimSpace cur \<noteq> [] then TrimSpace cur # stmts else stmts), rest))
      else splitLoop q (cur @ [c]) cs)"

definition splitStatements :: "string \<Rightarrow> bool \<Rightarrow> string list \<times> string" where
  "splitStatements text0 final =
     (case splitLoop False [] text0 of
        (stmts, rest) \<Rightarrow> if final then (stmts @ (if TrimSpace rest \<noteq> [] then [TrimSpace rest] else []), []) else (stmts, rest))"

text \<open>\<open>contents\<close> is what reading the file gives, \<open>lines0\<close> the lines of standard input.\<close>

definition collectQueries :: "string list \<Rightarrow> string res option \<Rightarrow> string list \<Rightarrow> string list res" where
  "collectQueries args contents lines0 =
     (case contents of
        Some (Inl e) \<Rightarrow> Inl e
      | Some (Inr b) \<Rightarrow> Inr (fst (splitStatements b True))
      | None \<Rightarrow>
          if args \<noteq> [] then Inr (fst (splitStatements (concat (hd args # map (\<lambda>a. CHR '' '' # a) (tl args))) True))
          else Inr (concat (map (\<lambda>l. fst (splitStatements l True)) lines0)))"

section \<open>Results (format.go)\<close>

record cliResult =
  crColumns :: "string list"
  crRows :: "json list list"
  crAffected :: int
  crMessage :: string
  crError :: string
  crStatus :: string

text \<open>Cells keep their JSON value; the text of a number is kept exactly (\<^verbatim>\<open>UseNumber\<close>). What follows the value is not read.\<close>

definition cliFields :: "string list" where
  "cliFields = [''columns'', ''rows'', ''affected'', ''message'', ''error'', ''status'']"

fun cliRow :: "json \<Rightarrow> json list option" where
  "cliRow (JArr vs) = Some vs"
| "cliRow JNull = Some []"
| "cliRow _ = None"

definition bindCli :: "(string \<times> json) list \<Rightarrow> cliResult option" where
  "bindCli ms =
     (let f = memberFor cliFields ms in
      case (jlist jstr (f ''columns''), jlist cliRow (f ''rows''), intField (f ''affected''), jstr (f ''message''), jstr (f ''error''), jstr (f ''status'')) of
        (Some cs, Some rs, Some n, Some m, Some e, Some s) \<Rightarrow>
          Some \<lparr>crColumns = cs, crRows = rs, crAffected = n, crMessage = m, crError = e, crStatus = s\<rparr>
      | _ \<Rightarrow> None)"

definition decodeResult :: "string \<Rightarrow> cliResult option" where
  "decodeResult raw =
     (case valueJson maxNestingDepth (Suc (2 * length raw)) (skipSpace raw) of
        Some (JObj ms, rest) \<Rightarrow> bindCli ms
      | Some (JNull, rest) \<Rightarrow> bindCli []
      | _ \<Rightarrow> None)"

text \<open>\<open>sprint\<close> is \<^verbatim>\<open>fmt.Sprint\<close> of an array or an object.\<close>

fun formatValue :: "(json \<Rightarrow> string) \<Rightarrow> json \<Rightarrow> string" where
  "formatValue sprint JNull = ''NULL''"
| "formatValue sprint (JNum u) = u"
| "formatValue sprint (JStr s) = s"
| "formatValue sprint (JBool b) = (if b then ''true'' else ''false'')"
| "formatValue sprint v = sprint v"

definition isNumericCell :: "json list \<Rightarrow> nat \<Rightarrow> bool" where
  "isNumericCell row j \<longleftrightarrow> j \<ge> length row \<or> (case row ! j of JNull \<Rightarrow> True | JNum u \<Rightarrow> True | _ \<Rightarrow> False)"

definition cellText :: "(json \<Rightarrow> string) \<Rightarrow> json list \<Rightarrow> nat \<Rightarrow> string" where
  "cellText sprint row j = (if j < length row then formatValue sprint (row ! j) else ''NULL'')"

definition columnWidth :: "(json \<Rightarrow> string) \<Rightarrow> json list list \<Rightarrow> nat \<Rightarrow> string \<Rightarrow> nat" where
  "columnWidth sprint rows j c = fold (\<lambda>row w. max w (length (cellText sprint row j))) rows (length c)"

definition columnNumeric :: "json list list \<Rightarrow> nat \<Rightarrow> bool" where
  "columnNumeric rows j = list_all (\<lambda>row. isNumericCell row j) rows"

text \<open>One line: the cells with their widths and alignments, in order.\<close>

definition padCell :: "bool \<Rightarrow> nat \<Rightarrow> bool \<Rightarrow> string \<Rightarrow> string" where
  "padCell header w num v = (let pad = replicate (w - length v) (CHR '' '') in if \<not> header \<and> num then pad @ v else v @ pad)"

fun writeRowLoop :: "bool \<Rightarrow> nat \<Rightarrow> string \<Rightarrow> (nat \<times> bool \<times> string) list \<Rightarrow> string" where
  "writeRowLoop header i out [] = out"
| "writeRowLoop header i out ((w, num, v) # cells) =
     writeRowLoop header (Suc i) ((if i > 0 then out @ (if header then ''-+-'' else '' | '') else out) @ padCell header w num v) cells"

definition tableLines :: "(json \<Rightarrow> string) \<Rightarrow> string list \<Rightarrow> json list list \<Rightarrow> string list" where
  "tableLines sprint columns rows =
     (let is = [0..<length columns];
          shape = (\<lambda>i. (columnWidth sprint rows i (columns ! i), columnNumeric rows i));
          cells = (\<lambda>text0. map (\<lambda>i. (fst (shape i), snd (shape i), text0 i)) is)
      in writeRowLoop True 0 [] (cells (\<lambda>i. columns ! i)) # map (\<lambda>row. writeRowLoop False 0 [] (cells (cellText sprint row))) rows)"

definition printTable :: "(json \<Rightarrow> string) \<Rightarrow> string list \<Rightarrow> json list list \<Rightarrow> string" where
  "printTable sprint columns rows =
     concat (map (\<lambda>l. l @ [CHR 0x0A]) (tableLines sprint columns rows)) @ ''('' @ fmtNat (length rows) @ '' row(s))'' @ [CHR 0x0A]"

datatype cliOut = Stdout string | Stderr string

definition println :: "string \<Rightarrow> string" where
  "println s = s @ [CHR 0x0A]"

definition timeLine :: "string \<Rightarrow> cliOut list" where
  "timeLine timing = (if timing \<noteq> [] then [Stderr (''Time: '' @ println timing)] else [])"

definition printResult :: "(json \<Rightarrow> string) \<Rightarrow> string \<Rightarrow> string \<Rightarrow> string \<Rightarrow> cliOut list" where
  "printResult sprint raw format timing =
     (if format = ''json'' then Stdout (println raw) # timeLine timing
      else case decodeResult raw of
        None \<Rightarrow> [Stdout (println raw)]
      | Some r \<Rightarrow>
          (if crError r \<noteq> [] then Stderr (''error: '' @ println (crError r))
           else if crColumns r \<noteq> [] then Stdout (printTable sprint (crColumns r) (crRows r))
           else if crMessage r \<noteq> [] then Stdout (println (crMessage r))
           else if crAffected r \<noteq> 0 then Stdout (println (FormatInt (crAffected r) @ '' row(s) affected''))
           else Stdout (println ''OK'')) # timeLine timing)"

section \<open>The shell (shell.go)\<close>

record shell =
  shFormat :: string
  shTiming :: bool
  shPending :: string

definition shellHelp :: string where
  "shellHelp =
     println ''Commands:'' @ println ''  .help              show this help'' @
     println ''  .exit, .quit       leave the shell (exit and quit also work)'' @
     println ''  .format table|json change output format'' @ println ''  .timing            toggle per-statement timing'' @
     println (''Statements run when a line ends with '' @ [quoteChar] @ '';'' @ [quoteChar] @ '' '' @ [CHR 0xE2, CHR 0x80, CHR 0x94] @ '' multi-line input continues'') @
     println (''with a '' @ [quoteChar] @ ''...>'' @ [quoteChar] @ '' prompt until the terminator arrives.'')"

text \<open>A dot command: whether the shell ends, what it prints, and the settings. \<open>quote\<close> is \<^verbatim>\<open>strconv.Quote\<close>.\<close>

definition runShellCommand :: "(string \<Rightarrow> string) \<Rightarrow> string \<Rightarrow> shell \<Rightarrow> bool \<times> cliOut list \<times> shell" where
  "runShellCommand quote cmd sh =
     (let fields0 = Fields cmd; name = (case fields0 of [] \<Rightarrow> [] | f # _ \<Rightarrow> f) in
      if name = ''.exit'' \<or> name = ''.quit'' then (True, [], sh)
      else if name = ''.help'' then (False, [Stdout shellHelp], sh)
      else if name = ''.format'' then
        (if length fields0 = 2 \<and> (fields0 ! 1 = ''table'' \<or> fields0 ! 1 = ''json'')
         then (False, [Stdout (''format: '' @ println (fields0 ! 1))], sh\<lparr>shFormat := fields0 ! 1\<rparr>)
         else (False, [Stdout (''format is '' @ shFormat sh @ println '' (usage: .format table|json)'')], sh))
      else if name = ''.timing'' then
        (False, [Stdout (''timing: '' @ println (if \<not> shTiming sh then ''true'' else ''false''))], sh\<lparr>shTiming := \<not> shTiming sh\<rparr>)
      else (False, [Stderr (''unknown command '' @ quote name @ '' '' @ [CHR 0xE2, CHR 0x80, CHR 0x94] @ println '' try .help'')], sh))"

definition prompt :: "shell \<Rightarrow> string" where
  "prompt sh = (if shPending sh = [] then ''superdb> '' else ''   ...> '')"

text \<open>
  One line of input: whether the shell ends, the statements it submits, what it prints of its own, and its state. The
  caller sends the statements one by one.
\<close>

definition shellLine :: "(string \<Rightarrow> string) \<Rightarrow> string \<Rightarrow> shell \<Rightarrow> bool \<times> string list \<times> cliOut list \<times> shell" where
  "shellLine quote raw sh =
     (let line = TrimSpace raw; lower = ToLower (TrimSuffix line '';'') in
      if line = [] \<and> shPending sh = [] then (False, [], [], sh)
      else if shPending sh = [] \<and> take 1 lower = ''.'' then
        (case runShellCommand quote lower sh of (exit, out, sh') \<Rightarrow> (exit, [], out, sh'))
      else if shPending sh = [] \<and> (lower = ''exit'' \<or> lower = ''quit'') then (True, [], [], sh)
      else
        let pending = shPending sh @ line @ '' '' in
        (case splitStatements pending False of
           (stmts, rest) \<Rightarrow>
             if stmts = [] then (False, [], [], sh\<lparr>shPending := pending\<rparr>)
             else (False, stmts, [], sh\<lparr>shPending := rest\<rparr>)))"

text \<open>The lines of a session; \<open>query\<close> is the outcome of the \<open>n\<close>-th statement sent.\<close>

fun submitAll :: "(nat \<Rightarrow> string \<Rightarrow> string res) \<Rightarrow> (json \<Rightarrow> string) \<Rightarrow> (nat \<Rightarrow> string) \<Rightarrow> shell \<Rightarrow> nat \<Rightarrow> string list \<Rightarrow> bool \<times> cliOut list \<times> nat" where
  "submitAll query sprint took sh n [] = (True, [], n)"
| "submitAll query sprint took sh n (sql # sqls) =
     (case query n sql of
        Inl e \<Rightarrow> (False, [Stderr ''connection lost''], Suc n)
      | Inr resp \<Rightarrow>
          (case submitAll query sprint took sh (Suc n) sqls of
             (alive, out, n') \<Rightarrow> (alive, printResult sprint resp (shFormat sh) (if shTiming sh then took n else []) @ out, n')))"

fun runShell ::
  "(string \<Rightarrow> string) \<Rightarrow> (nat \<Rightarrow> string \<Rightarrow> string res) \<Rightarrow> (json \<Rightarrow> string) \<Rightarrow> (nat \<Rightarrow> string) \<Rightarrow> nat \<Rightarrow> string list \<Rightarrow> shell \<Rightarrow> cliOut list" where
  "runShell quote query sprint took n [] sh = [Stdout (prompt sh), Stdout [CHR 0x0A]]"
| "runShell quote query sprint took n (raw # lines0) sh =
     Stdout (prompt sh) #
     (case shellLine quote raw sh of
        (exit, stmts, out, sh') \<Rightarrow>
          if exit then out
          else case submitAll query sprint took sh' n stmts of
            (alive, results, n') \<Rightarrow> out @ results @ (if alive then runShell quote query sprint took n' lines0 sh' else []))"

section \<open>Splitting a stream\<close>

text \<open>Scanning \<open>cur\<close> from the start leads to where the scan is, whatever comes next.\<close>

definition resumes :: "bool \<Rightarrow> string \<Rightarrow> string \<Rightarrow> bool" where
  "resumes q cur x \<longleftrightarrow> splitLoop False [] (cur @ x) = splitLoop q cur x"

lemma splitLoop_stream:
  assumes "resumes q cur (a @ b)" "splitLoop q cur a = (stmts, rest)"
  shows "splitLoop q cur (a @ b) = (case splitLoop False [] (rest @ b) of (others, rest') \<Rightarrow> (stmts @ others, rest'))"
  using assms
proof (induction q cur a arbitrary: stmts rest rule: splitLoop.induct)
  case (1 q cur)
  then show ?case by (simp add: resumes_def)
next
  case (2 q cur c cs)
  have keep: "resumes q' cur' (x @ b)" if "splitLoop q cur ((c # cs) @ b) = splitLoop q' cur' (x @ b)" "cur' @ x = cur @ c # cs" for q' cur' x
    using "2.prems"(1) that unfolding resumes_def by (metis append.assoc)
  show ?case
  proof (cases "c = quoteChar")
    case True
    show ?thesis
    proof (cases cs)
      case Nil
      then have "rest = cur @ [c]" "stmts = []" using "2.prems"(2) True by simp_all
      then show ?thesis using "2.prems"(1) Nil by (simp add: resumes_def)
    next
      case (Cons d ds)
      show ?thesis
      proof (cases "q \<and> d = quoteChar")
        case esc: True
        have step: "splitLoop q cur ((c # cs) @ x) = splitLoop q (cur @ [c, d]) (ds @ x)" for x
          using splitLoop.simps(2)[of q cur c "cs @ x"] True esc unfolding Cons by (auto simp del: splitLoop.simps)
        show ?thesis unfolding step
          by (rule "2.IH"(2)[OF True Cons esc]) (use keep[of q "cur @ [c, d]" ds] step "2.prems"(2) step[of "[]"] Cons in auto)
      next
        case no: False
        have step: "splitLoop q cur ((c # cs) @ x) = splitLoop (\<not> q) (cur @ [c]) (cs @ x)" for x
          using splitLoop.simps(2)[of q cur c "cs @ x"] True no unfolding Cons by (auto simp del: splitLoop.simps)
        show ?thesis unfolding step
          by (rule "2.IH"(3)[OF True Cons no]) (use keep[of "\<not> q" "cur @ [c]" cs] step "2.prems"(2) step[of "[]"] Cons in auto)
      qed
    qed
  next
    case other: False
    show ?thesis
    proof (cases "c = CHR '';'' \<and> \<not> q")
      case True
      obtain ss r where sp: "splitLoop q [] cs = (ss, r)" by fastforce
      have "resumes q [] (cs @ b)" using True by (simp add: resumes_def)
      from "2.IH"(4)[OF other True this sp] show ?thesis using "2.prems"(2) True other sp by (auto split: prod.splits)
    next
      case False
      have step: "splitLoop q cur ((c # cs) @ x) = splitLoop q (cur @ [c]) (cs @ x)" for x using other False by auto
      show ?thesis unfolding step
        by (rule "2.IH"(5)[OF other False]) (use keep[of q "cur @ [c]" cs] step "2.prems"(2) step[of "[]"] in auto)
    qed
  qed
qed

text \<open>
  Statements may arrive in pieces. Splitting a text piece by piece, keeping the rest of each piece for the next, gives
  the statements of the whole text, whether a piece ends inside a literal, between the two quotes of an escaped quote or
  inside a statement.
\<close>

theorem statements_arrive_in_pieces:
  assumes "splitStatements a False = (stmts, rest)"
  shows "splitStatements (a @ b) final = (case splitStatements (rest @ b) final of (others, rest') \<Rightarrow> (stmts @ others, rest'))"
proof -
  have s: "splitLoop False [] a = (stmts, rest)" using assms by (simp add: splitStatements_def split: prod.splits)
  show ?thesis using splitLoop_stream[OF _ s, of b] by (simp add: splitStatements_def resumes_def split: prod.splits)
qed

section \<open>The shell cannot be left after a statement\<close>

lemma splitLoop_rest: "(if x = [] then cur \<noteq> [] else last x \<noteq> CHR '';'') \<Longrightarrow> snd (splitLoop q cur x) \<noteq> []"
proof (induction q cur x rule: splitLoop.induct)
  case (2 q cur c cs)
  show ?case
  proof (cases "c = quoteChar")
    case True
    then show ?thesis using 2 by (cases cs) (auto split: if_splits)
  next
    case False
    then show ?thesis using 2 by (cases "cs = []") (auto split: prod.splits if_splits)
  qed
qed simp

lemma shellLine_pending:
  assumes "shellLine quote raw sh = (exit, stmts, out, sh')" "stmts \<noteq> [] \<or> shPending sh \<noteq> []"
  shows "\<not> exit \<and> shPending sh' \<noteq> []"
proof -
  let ?p = "shPending sh @ TrimSpace raw @ '' ''"
  have r: "snd (splitStatements ?p False) \<noteq> []" using splitLoop_rest[of ?p "[]" False] by (simp add: splitStatements_def split: prod.splits)
  show ?thesis using assms r by (auto simp: shellLine_def Let_def split: if_splits prod.splits)
qed

text \<open>
  Once a statement has run, the text that is kept for the next line is never empty: it has the space that was written after
  the line. So the prompt stays that of a continued line, and no \<^verbatim>\<open>.exit\<close>, \<^verbatim>\<open>exit\<close>, \<^verbatim>\<open>.help\<close> or \<^verbatim>\<open>.format\<close> is
  recognised any more.
\<close>

fun shellRun :: "(string \<Rightarrow> string) \<Rightarrow> string list \<Rightarrow> shell \<Rightarrow> bool \<times> shell" where
  "shellRun quote [] sh = (False, sh)"
| "shellRun quote (raw # lines0) sh =
     (case shellLine quote raw sh of (exit, stmts, out, sh') \<Rightarrow> if exit then (True, sh') else shellRun quote lines0 sh')"

lemma shell_never_leaves:
  assumes "shellLine quote raw sh = (exit, stmts, out, sh')" "stmts \<noteq> []"
  shows "\<not> fst (shellRun quote lines0 sh') \<and> prompt (snd (shellRun quote lines0 sh')) = ''   ...> ''"
proof -
  have "shPending sh' \<noteq> []" using shellLine_pending[OF assms(1)] assms(2) by simp
  then show ?thesis
  proof (induction lines0 arbitrary: sh')
    case (Cons l ls)
    obtain e ss o' sh1 where l: "shellLine quote l sh' = (e, ss, o', sh1)" by (metis prod.exhaust)
    then show ?case using Cons.IH[of sh1] shellLine_pending[OF l] Cons.prems by simp
  qed (simp add: prompt_def)
qed

section \<open>Tables are aligned\<close>

lemma columnWidth_fold: "w \<le> fold (\<lambda>row w. max w (f row)) rows w \<and> (\<forall>row\<in>set rows. f row \<le> fold (\<lambda>row w. max w (f row)) rows w)" for w :: nat
proof (induction rows arbitrary: w)
  case (Cons row rows)
  show ?case using Cons[of "max w (f row)"] by auto
qed simp

lemma columnWidth_fits: "length c \<le> columnWidth sprint rows j c" "row \<in> set rows \<Longrightarrow> length (cellText sprint row j) \<le> columnWidth sprint rows j c"
  unfolding columnWidth_def using columnWidth_fold[of "length c" "\<lambda>row. length (cellText sprint row j)" rows] by blast+

lemma writeRowLoop_length:
  "\<forall>(w, num, v)\<in>set cells. length v \<le> w \<Longrightarrow>
     length (writeRowLoop header i out cells) = length out + sum_list (map fst cells) + 3 * (if i > 0 then length cells else length cells - 1)"
proof (induction header i out cells rule: writeRowLoop.induct)
  case (2 header i out w num v cells)
  then show ?case by (cases cells) (auto simp: padCell_def Let_def)
qed simp

text \<open>
  A printed table is aligned: the header and every row have the same number of bytes, the sum of the widths of the
  columns and of the separators between them.
\<close>

theorem table_is_aligned:
  "\<forall>line\<in>set (tableLines sprint columns rows).
     length line = (\<Sum>i\<leftarrow>[0..<length columns]. columnWidth sprint rows i (columns ! i)) + 3 * (length columns - 1)"
proof -
  have "length (writeRowLoop header 0 [] (map (\<lambda>i. (columnWidth sprint rows i (columns ! i), columnNumeric rows i, text0 i)) [0..<length columns])) =
      (\<Sum>i\<leftarrow>[0..<length columns]. columnWidth sprint rows i (columns ! i)) + 3 * (length columns - 1)"
    if "\<And>i. i < length columns \<Longrightarrow> length (text0 i) \<le> columnWidth sprint rows i (columns ! i)" for header text0
    using that by (subst writeRowLoop_length) (auto simp: comp_def)
  then show ?thesis using columnWidth_fits by (auto simp: tableLines_def Let_def)
qed

text \<open>The header is one line with the separator of a rule between the names; there is no rule below it.\<close>

lemma table_header_has_no_rule:
  "printTable sprint [''id'', ''name''] [[JNum ''1'', JStr ''Ada'']] =
     println ''id-+-name'' @ println '' 1 | Ada '' @ println ''(1 row(s))''"
proof -
  have n: "fmtNat (Suc 0) = ''1''" by code_simp
  show ?thesis
    by (simp add: printTable_def tableLines_def columnWidth_def columnNumeric_def isNumericCell_def cellText_def padCell_def println_def Let_def n upt_rec)
qed

text \<open>Instances.\<close>

definition inQuotes :: "string \<Rightarrow> string" where
  "inQuotes s = [quoteChar] @ s @ [quoteChar]"

theorem statements_arrive_in_pieces_witness:
  "fst (splitStatements ((''INSERT '' @ inQuotes ''a;b'' @ ''; SEL'') @ ''ECT 1;'') False) = [''INSERT '' @ inQuotes ''a;b'', ''SELECT 1'']"
proof -
  have a: "splitStatements (''INSERT '' @ inQuotes ''a;b'' @ ''; SEL'') False = ([''INSERT '' @ inQuotes ''a;b''], '' SEL'')" by code_simp
  have b: "splitStatements '' SELECT 1;'' False = ([''SELECT 1''], [])" by code_simp
  show ?thesis using statements_arrive_in_pieces[OF a, of "''ECT 1;''" False] by (simp add: b)
qed

theorem table_is_aligned_witness:
  "\<forall>line\<in>set (tableLines (\<lambda>_. []) [''id'', ''name''] [[JNum ''1'', JStr ''Ada'']]). length line = 9"
proof -
  have "(\<Sum>i\<leftarrow>[0..<2]. columnWidth (\<lambda>_. []) [[JNum ''1'', JStr ''Ada'']] i ([''id'', ''name''] ! i)) = 6" by code_simp
  then show ?thesis using table_is_aligned[of "\<lambda>_. []" "[''id'', ''name'']" "[[JNum ''1'', JStr ''Ada'']]"] by (simp add: numeral_2_eq_2)
qed

end
